(* ===== verification/Prelude.thy ===== *)
theory Prelude
  imports Main "HOL-Library.Word" "HOL-Library.Sublist"
begin

text \<open>
  Shared vocabulary of the development: Rust's machine integers as words, byte strings as
  lists of bytes, the result type of a fallible operation, big-endian conversions
  (\<^verbatim>\<open>to_be_bytes\<close>, \<^verbatim>\<open>from_be_bytes\<close> and the fold \<^verbatim>\<open>v << 8 | b\<close> the decoders use), decimal
  printing, and the generic lemmas about them that the component theories share.
\<close>

unbundle bit_operations_syntax

type_synonym byte = "8 word"
type_synonym u16 = "16 word"
type_synonym u32 = "32 word"
type_synonym u64 = "64 word"
type_synonym bytes = "byte list"

section \<open>Results\<close>

text \<open>
  \<open>Ok\<close> and \<open>Err\<close> are Rust's \<^verbatim>\<open>Result\<close>. \<open>Stuck\<close> is the value of a loop model that ran out of
  its step bound; every component that uses it proves that the bound it passes is enough.
\<close>

datatype ('e, 'a) outcome = Ok 'a | Err 'e | Stuck

text \<open>The \<^verbatim>\<open>?\<close> operator.\<close>

fun obind :: "('e, 'a) outcome \<Rightarrow> ('a \<Rightarrow> ('e, 'b) outcome) \<Rightarrow> ('e, 'b) outcome" where
  "obind (Ok x) f = f x"
| "obind (Err e) f = Err e"
| "obind Stuck f = Stuck"

text \<open>\<^verbatim>\<open>Result::map_err\<close>.\<close>

fun omap_err :: "('e \<Rightarrow> 'f) \<Rightarrow> ('e, 'a) outcome \<Rightarrow> ('f, 'a) outcome" where
  "omap_err f (Ok x) = Ok x"
| "omap_err f (Err e) = Err (f e)"
| "omap_err f Stuck = Stuck"

lemma obind_eq_Ok [simp]: "obind m f = Ok y \<longleftrightarrow> (\<exists>x. m = Ok x \<and> f x = Ok y)"
  by (cases m) auto

lemma obind_eq_Err: "obind m f = Err e \<longleftrightarrow> m = Err e \<or> (\<exists>x. m = Ok x \<and> f x = Err e)"
  by (cases m) auto

lemma obind_eq_Stuck: "obind m f = Stuck \<longleftrightarrow> m = Stuck \<or> (\<exists>x. m = Ok x \<and> f x = Stuck)"
  by (cases m) auto

lemma omap_err_Ok [simp]: "omap_err f m = Ok x \<longleftrightarrow> m = Ok x"
  by (cases m) auto

lemma omap_err_Stuck [simp]: "omap_err f m = Stuck \<longleftrightarrow> m = Stuck"
  by (cases m) auto

lemma obind_cong [fundef_cong]:
  "m = m' \<Longrightarrow> (\<And>x. m' = Ok x \<Longrightarrow> f x = f' x) \<Longrightarrow> obind m f = obind m' f'"
  by (cases m') auto

section \<open>Suffixes\<close>

lemma strict_suffix_Cons_iff: "strict_suffix r (b # bs) \<longleftrightarrow> suffix r bs"
  by (auto simp: strict_suffix_def suffix_Cons dest: suffix_length_le)

lemma suffix_less_le: "strict_suffix r bs \<Longrightarrow> suffix s r \<Longrightarrow> strict_suffix s bs"
  by (rule suffix_order.le_less_trans)

lemma suffix_less_imp: "strict_suffix r bs \<Longrightarrow> suffix s r \<Longrightarrow> suffix s bs"
  by (blast intro: suffix_less_le suffix_order.less_imp_le)

lemma suffix_less_less: "strict_suffix r bs \<Longrightarrow> strict_suffix s r \<Longrightarrow> suffix s bs"
  by (blast intro: suffix_less_imp suffix_order.less_imp_le)

lemma suffix_le_less: "suffix r bs \<Longrightarrow> strict_suffix s r \<Longrightarrow> suffix s bs"
  by (meson suffix_order.less_imp_le suffix_order.trans)

lemmas suffix_rules = suffix_less_le suffix_less_imp suffix_less_less suffix_le_less
  suffix_order.less_imp_le suffix_order.trans suffix_order.refl

lemma strict_suffix_length: "strict_suffix r bs \<Longrightarrow> length r < length bs"
  by (rule suffix_length_less)

section \<open>Big-endian numbers\<close>

text \<open>\<^verbatim>\<open>arg.iter().fold(0u64, |v, &b| v << 8 | u64::from(b))\<close>\<close>

definition be_step :: "'a::len word \<Rightarrow> byte \<Rightarrow> 'a word" where
  "be_step v b = push_bit 8 v OR ucast b"

definition be_fold :: "bytes \<Rightarrow> 'a::len word" where
  "be_fold bs = foldl be_step 0 bs"

text \<open>The low \<open>n\<close> bytes of a word, most significant first (\<^verbatim>\<open>to_be_bytes\<close> at the full width).\<close>

fun be_bytes :: "nat \<Rightarrow> 'a::len word \<Rightarrow> bytes" where
  "be_bytes 0 v = []"
| "be_bytes (Suc n) v = ucast (drop_bit (8 * n) v) # be_bytes n v"

lemma length_be_bytes [simp]: "length (be_bytes n v) = n"
  by (induction n) auto

lemma foldl_be_step:
  fixes v acc :: "'a::len word"
  shows "foldl be_step acc (be_bytes n v) = push_bit (8 * n) acc OR take_bit (8 * n) v"
proof (induction n arbitrary: acc)
  case 0
  then show ?case by simp
next
  case (Suc n)
  let ?hd = "ucast (ucast (drop_bit (8 * n) v) :: byte) :: 'a word"
  have "push_bit (8 * n) (push_bit 8 acc OR ?hd) OR take_bit (8 * n) v
      = push_bit (8 * Suc n) acc OR take_bit (8 * Suc n) v"
  proof (rule bit_word_eqI)
    fix i assume "i < LENGTH('a)"
    then show "bit (push_bit (8 * n) (push_bit 8 acc OR ?hd) OR take_bit (8 * n) v) i
      \<longleftrightarrow> bit (push_bit (8 * Suc n) acc OR take_bit (8 * Suc n) v) i"
      by (auto simp: bit_simps algebra_simps)
  qed
  with Suc.IH show ?case by (simp add: be_step_def)
qed

lemma be_fold_be_bytes:
  fixes v :: "'a::len word"
  shows "be_fold (be_bytes n v) = take_bit (8 * n) v"
  by (simp add: be_fold_def foldl_be_step)

lemma be_fold_be_bytes_full [simp]: "be_fold (be_bytes 8 v) = (v :: u64)"
  by (rule bit_word_eqI) (simp add: be_fold_be_bytes bit_simps)

lemma be_fold_be_bytes_full32 [simp]: "be_fold (be_bytes 4 v) = (v :: u32)"
  by (rule bit_word_eqI) (simp add: be_fold_be_bytes bit_simps)

lemma be_fold_be_bytes_full16 [simp]: "be_fold (be_bytes 2 v) = (v :: u16)"
  by (rule bit_word_eqI) (simp add: be_fold_be_bytes bit_simps)

lemma be_fold_be_bytes_small:
  fixes v :: "'a::len word"
  assumes "unat v < 256 ^ n"
  shows "be_fold (be_bytes n v) = v"
proof -
  have "(256::nat) ^ n = 2 ^ (8 * n)" by (simp add: power_mult)
  with assms have "take_bit (8 * n) (unat v) = unat v" by (simp add: take_bit_nat_eq_self)
  then have "unat (take_bit (8 * n) v) = unat v" by (simp add: unsigned_take_bit_eq)
  then show ?thesis by (simp add: be_fold_be_bytes word_unat_eq_iff)
qed

text \<open>The number a big-endian byte string of any length denotes.\<close>

definition be_nat :: "bytes \<Rightarrow> nat" where
  "be_nat bs = foldl (\<lambda>n b. 256 * n + unat b) 0 bs"

lemma be_nat_foldl: "foldl (\<lambda>n b. 256 * n + unat b) k bs = k * 256 ^ length bs + be_nat bs"
proof (induction bs arbitrary: k)
  case (Cons b bs)
  have "be_nat (b # bs) = unat b * 256 ^ length bs + be_nat bs"
    using Cons [of "unat b"] by (simp add: be_nat_def)
  with Cons show ?case by (simp add: algebra_simps)
qed (simp add: be_nat_def)

lemma be_nat_simps [simp]: "be_nat [] = 0" "be_nat [b] = unat b"
  by (simp_all add: be_nat_def)

lemma be_nat_append: "be_nat (xs @ ys) = be_nat xs * 256 ^ length ys + be_nat ys"
  by (simp add: be_nat_foldl [symmetric]) (simp add: be_nat_def)

lemma be_nat_less: "be_nat bs < 256 ^ length bs"
proof (induction bs rule: rev_induct)
  case (snoc b bs)
  have "unat b < 256" using unsigned_less [of b, where ?'a = nat] by simp
  with snoc show ?case by (simp add: be_nat_append)
qed simp

lemma unat_be_fold: "8 * length bs \<le> LENGTH('a::len) \<Longrightarrow> unat (be_fold bs :: 'a word) = be_nat bs"
proof (induction bs rule: rev_induct)
  case (snoc b bs)
  define v :: "'a word" where "v = be_fold bs"
  have v: "unat v = be_nat bs" using snoc by (simp add: v_def)
  have "be_nat (bs @ [b]) < 2 ^ LENGTH('a)"
    using be_nat_less [of "bs @ [b]"] power_increasing [OF snoc.prems, of "2::nat"]
    by (simp only: power_mult) (simp add: order_less_le_trans)
  then have "256 * be_nat bs + unat b < 2 ^ LENGTH('a)" by (simp add: be_nat_append)
  moreover have "push_bit 8 v OR ucast b = push_bit 8 v + ucast b"
    by (rule disjunctive_add [symmetric]) (auto simp: bit_simps dest: bit_imp_le_length)
  moreover have "unat (ucast b :: 'a word) = unat b"
    using snoc.prems unsigned_less [of b, where ?'a = nat]
    by (simp add: unsigned_ucast_eq take_bit_nat_eq_self order_less_le_trans [OF _ power_increasing [of 8 "LENGTH('a)" "2::nat"]])
  moreover from calculation have "unat (push_bit 8 v) = 256 * be_nat bs"
    by (simp add: unsigned_push_bit_eq v push_bit_nat_def take_bit_nat_eq_self mult.commute)
  ultimately have "unat (push_bit 8 v OR ucast b) = 256 * be_nat bs + unat b"
    by (simp add: unat_word_ariths)
  then show ?case by (simp add: be_fold_def be_step_def be_nat_append v_def)
qed (simp add: be_fold_def be_nat_def)

section \<open>Bits and fields of words\<close>

lemma word_bit_bound:
  fixes w :: "'a::len word"
  shows "unat w < 2 ^ n \<Longrightarrow> bit w i \<Longrightarrow> i < n"
  by (metis bit_take_bit_iff take_bit_nat_eq_self_iff unsigned_take_bit_eq word_unat_eq_iff)

lemma and_mask5: "w AND 0x1f = take_bit 5 w" for w :: "'a::len word"
  by (simp add: take_bit_eq_mask mask_numeral)

lemma and_field: "u AND push_bit k (mask n) = push_bit k (take_bit n (drop_bit k u))"
  for u :: "'a::len word"
  by (rule bit_word_eqI) (auto simp: bit_simps)

lemma and_top: "u AND push_bit k (mask n) = push_bit k (drop_bit k u)"
  if "LENGTH('a) = k + n" for u :: "'a::len word"
  using that by (intro bit_word_eqI) (auto simp: bit_simps)

lemma drop_push_small: "unat x < 2 ^ n \<Longrightarrow> n + k \<le> LENGTH('a) \<Longrightarrow> drop_bit k (push_bit k x) = x"
  for x :: "'a::len word"
  by (rule bit_word_eqI) (auto simp: bit_simps dest: word_bit_bound)

lemma unat_drop_lt: "LENGTH('a) = k + n \<Longrightarrow> unat (drop_bit k u) < 2 ^ n" for u :: "'a::len word"
  using take_bit_nat_less_exp [of "k + n" "unat u"]
  by (simp add: unsigned_drop_bit_eq drop_bit_nat_def less_mult_imp_div_less power_add mult.commute)

lemma take_bit_0_no_bit: "take_bit n u = 0 \<Longrightarrow> i < n \<Longrightarrow> \<not> bit u i" for u :: "'a::len word"
  by (metis bit_0_eq bit_take_bit_iff bot_apply bot_bool_def)

lemma be_bytes_numeral: "be_bytes (numeral k) v =
    ucast (drop_bit (8 * pred_numeral k) v) # be_bytes (pred_numeral k) v"
  by (simp add: numeral_eq_Suc)

section \<open>Logarithms\<close>

text \<open>The position of the highest set bit, \<open>0\<close> for \<open>0\<close>.\<close>

fun ilog2 :: "nat \<Rightarrow> nat" where
  "ilog2 n = (if n < 2 then 0 else Suc (ilog2 (n div 2)))"

declare ilog2.simps [simp del]

lemma ilog2_bounds: "0 < n \<Longrightarrow> 2 ^ ilog2 n \<le> n \<and> n < 2 * 2 ^ ilog2 n"
proof (induction n rule: ilog2.induct)
  case (1 n)
  show ?case
  proof (cases "n < 2")
    case True
    with "1.prems" show ?thesis by (simp add: ilog2.simps)
  next
    case False
    with "1.IH" have "2 ^ ilog2 (n div 2) \<le> n div 2 \<and> n div 2 < 2 * 2 ^ ilog2 (n div 2)" by simp
    moreover have "ilog2 n = Suc (ilog2 (n div 2))" using False by (simp add: ilog2.simps [of n])
    ultimately show ?thesis by auto
  qed
qed

section \<open>Decimal text\<close>

text \<open>Rust's \<^verbatim>\<open>Display\<close> of an unsigned and of a signed integer.\<close>

definition digit_char :: "nat \<Rightarrow> char" where
  "digit_char d = char_of (48 + d)"

fun show_nat :: "nat \<Rightarrow> string" where
  "show_nat n = (if n < 10 then [digit_char n]
     else show_nat (n div 10) @ [digit_char (n mod 10)])"

declare show_nat.simps [simp del]

definition show_int :: "int \<Rightarrow> string" where
  "show_int i = (if i < 0 then CHR ''-'' # show_nat (nat (- i)) else show_nat (nat i))"

text \<open>The number a string of decimal digits denotes.\<close>

definition read_dec :: "string \<Rightarrow> nat" where
  "read_dec s = foldl (\<lambda>n c. 10 * n + (of_char c - 48)) 0 s"

lemma digit_char_value: "d < 10 \<Longrightarrow> of_char (digit_char d) - (48::nat) = d"
  by (simp add: digit_char_def)

lemma read_dec_snoc: "read_dec (s @ [c]) = 10 * read_dec s + (of_char c - 48)"
  by (simp add: read_dec_def)

lemma read_dec_show_nat [simp]: "read_dec (show_nat n) = n"
proof (induction n rule: show_nat.induct)
  case (1 n)
  show ?case
  proof (cases "n < 10")
    case True
    then show ?thesis by (simp add: show_nat.simps [of n] read_dec_def digit_char_value)
  next
    case False
    with 1 show ?thesis
      by (simp add: show_nat.simps [of n] read_dec_snoc digit_char_value)
  qed
qed

lemma show_nat_inject [simp]: "show_nat m = show_nat n \<longleftrightarrow> m = n"
  by (metis read_dec_show_nat)

text \<open>The last \<open>k\<close> decimal digits, with leading zeros.\<close>

fun digits_of :: "nat \<Rightarrow> nat \<Rightarrow> string" where
  "digits_of 0 d = []"
| "digits_of (Suc k) d = digits_of k (d div 10) @ [digit_char (d mod 10)]"

lemma digits_of_zero: "digits_of k 0 = replicate k (CHR ''0'')"
proof (induction k)
  case (Suc k)
  have "digit_char 0 = CHR ''0''" by (simp add: digit_char_def char_of_eq_iff)
  with Suc show ?case by (simp add: replicate_append_same)
qed simp

lemma show_nat_padded:
  "0 < k \<Longrightarrow> d < 10 ^ k \<Longrightarrow>
    replicate (k - length (show_nat d)) (CHR ''0'') @ show_nat d = digits_of k d"
proof (induction k arbitrary: d)
  case (Suc k)
  show ?case
  proof (cases "d < 10")
    case True
    then show ?thesis by (simp add: show_nat.simps [of d] digits_of_zero)
  next
    case False
    with Suc have "replicate (k - length (show_nat (d div 10))) (CHR ''0'') @ show_nat (d div 10)
        = digits_of k (d div 10)" by (cases k) (auto intro!: Suc.IH)
    with False show ?thesis by (simp add: show_nat.simps [of d])
  qed
qed simp

lemma show_nat_shift:
  "0 < n \<Longrightarrow> d < 10 ^ k \<Longrightarrow> show_nat (n * 10 ^ k + d) = show_nat n @ digits_of k d"
proof (induction k arbitrary: d)
  case (Suc k)
  have "(n * 10 ^ Suc k + d) div 10 = n * 10 ^ k + d div 10"
    "(n * 10 ^ Suc k + d) mod 10 = d mod 10"
    using mod_mult_self2 [of d 10 "n * 10 ^ k"] by (simp_all add: ac_simps)
  moreover have "1 * 10 \<le> n * 10 ^ Suc k" using Suc.prems(1) by (intro mult_le_mono) auto
  then have "\<not> n * 10 ^ Suc k + d < 10" by linarith
  moreover have "show_nat (n * 10 ^ k + d div 10) = show_nat n @ digits_of k (d div 10)"
    using Suc.prems by (intro Suc.IH) auto
  ultimately show ?case
    by (subst show_nat.simps) (simp only: if_False digits_of.simps append_assoc)
qed simp

text \<open>The bytes of a string literal.\<close>

definition ascii :: "string \<Rightarrow> bytes" where "ascii s = map of_char s"

end
