(* ===== verification/Cbor_Error.thy ===== *)
theory Cbor_Error
  imports Prelude
begin

text \<open>
  \<^verbatim>\<open>crates/codec/src/error.rs\<close>: the CBOR major types, the decode errors with their texts, and
  the rewriting of a type error that leaves a struct field.
\<close>

datatype cbor_type =
    PositiveInteger
  | NegativeInteger
  | ByteString
  | TextString
  | CArray
  | CMap
  | CTag
  | Primitives

definition of_initial_byte :: "byte \<Rightarrow> cbor_type" where
  "of_initial_byte b =
     (let m = drop_bit 5 b in
      if m = 0 then PositiveInteger
      else if m = 1 then NegativeInteger
      else if m = 2 then ByteString
      else if m = 3 then TextString
      else if m = 4 then CArray
      else if m = 5 then CMap
      else if m = 6 then CTag
      else Primitives)"

fun as_str :: "cbor_type \<Rightarrow> string" where
  "as_str PositiveInteger = ''positive integer''"
| "as_str NegativeInteger = ''negative integer''"
| "as_str ByteString = ''byte string''"
| "as_str TextString = ''UTF-8 text string''"
| "as_str CArray = ''array''"
| "as_str CMap = ''map''"
| "as_str CTag = ''tag''"
| "as_str Primitives = ''primitives''"

record unmarshal_type_error =
  cbor_type :: cbor_type
  go_type :: string
  struct_field :: "string option"
  detail :: "string option"

definition ute_message :: "unmarshal_type_error \<Rightarrow> string" where
  "ute_message e =
     ''cbor: cannot unmarshal '' @ as_str (cbor_type e) @
     (case struct_field e of
        Some field \<Rightarrow>
          (if field \<noteq> [] then '' into Go struct field '' @ field @ '' of type ''
           else '' into Go value of type '')
      | None \<Rightarrow> '' into Go value of type '') @
     go_type e @
     (case detail e of
        Some d \<Rightarrow> (if d \<noteq> [] then '' ('' @ d @ '')'' else [])
      | None \<Rightarrow> [])"

datatype decode_error =
    Eof
  | UnexpectedEof
  | InvalidAi byte cbor_type
  | UnexpectedBreak
  | InvalidSimple byte
  | StrLenOverflow cbor_type u64
  | LenOverflow cbor_type u64
  | MaxNested
  | MaxArray
  | MaxMap
  | ChunkType cbor_type cbor_type
  | ChunkIndef cbor_type
  | Extraneous nat nat
  | InvalidUtf8
  | BadTag string
  | TypeError unmarshal_type_error
  | MapKey cbor_type
  | MapKeyOverflow cbor_type string

text \<open>The \<^verbatim>\<open>#[error(...)]\<close> texts of \<^verbatim>\<open>DecodeError\<close>.\<close>

fun decode_error_text :: "decode_error \<Rightarrow> string" where
  "decode_error_text Eof = ''EOF''"
| "decode_error_text UnexpectedEof = ''unexpected EOF''"
| "decode_error_text (InvalidAi ai ty) =
     ''cbor: invalid additional information '' @ show_nat (unat ai) @ '' for type '' @ as_str ty"
| "decode_error_text UnexpectedBreak =
     ''cbor: unexpected '' @ [CHR 0x22] @ ''break'' @ [CHR 0x22] @ '' code''"
| "decode_error_text (InvalidSimple v) =
     ''cbor: invalid simple value '' @ show_nat (unat v) @ '' for type primitives''"
| "decode_error_text (StrLenOverflow ty n) =
     ''cbor: '' @ as_str ty @ '' length '' @ show_nat (unat n) @
     '' is too large, causing integer overflow''"
| "decode_error_text (LenOverflow ty n) =
     ''cbor: '' @ as_str ty @ '' length '' @ show_nat (unat n) @
     '' is too large, it would cause integer overflow''"
| "decode_error_text MaxNested = ''cbor: exceeded max nested level 32''"
| "decode_error_text MaxArray =
     ''cbor: exceeded max number of elements 131072 for CBOR array''"
| "decode_error_text MaxMap =
     ''cbor: exceeded max number of key-value pairs 131072 for CBOR map''"
| "decode_error_text (ChunkType chunk ty) =
     ''cbor: wrong element type '' @ as_str chunk @ '' for indefinite-length '' @ as_str ty"
| "decode_error_text (ChunkIndef ty) =
     ''cbor: indefinite-length '' @ as_str ty @ '' chunk is not definite-length''"
| "decode_error_text (Extraneous n i) =
     ''cbor: '' @ show_nat n @ '' bytes of extraneous data starting at index '' @ show_nat i"
| "decode_error_text InvalidUtf8 = ''cbor: invalid UTF-8 string''"
| "decode_error_text (BadTag s) = s"
| "decode_error_text (TypeError e) = ute_message e"
| "decode_error_text (MapKey kt) =
     ''cbor: cannot unmarshal '' @ as_str kt @
     '' into Go value of type string (map key is of type '' @ as_str kt @
     '' and cannot be used to match struct field name)''"
| "decode_error_text (MapKeyOverflow ct d) =
     ''cbor: cannot unmarshal '' @ as_str ct @
     '' into Go value of type int64 ('' @ d @ '' overflows Go'' @ [CHR 0x27] @ ''s int64)''"

definition type_error :: "cbor_type \<Rightarrow> string \<Rightarrow> decode_error" where
  "type_error t g =
     TypeError \<lparr>cbor_type = t, go_type = g, struct_field = None, detail = None\<rparr>"

definition type_detail :: "cbor_type \<Rightarrow> string \<Rightarrow> string \<Rightarrow> decode_error" where
  "type_detail t g d =
     TypeError \<lparr>cbor_type = t, go_type = g, struct_field = None, detail = Some d\<rparr>"

fun in_struct_field :: "decode_error \<Rightarrow> string \<Rightarrow> u64 \<Rightarrow> decode_error" where
  "in_struct_field (TypeError e) s key =
     TypeError (e\<lparr>struct_field := Some (s @ ''.'' @ show_nat (unat key))\<rparr>)"
| "in_struct_field (MapKey kt) s key =
     TypeError \<lparr>cbor_type = kt, go_type = ''string'',
       struct_field = Some (s @ ''.'' @ show_nat (unat key)),
       detail = Some (''map key is of type '' @ as_str kt @
         '' and cannot be used to match struct field name'')\<rparr>"
| "in_struct_field (MapKeyOverflow ct d) s key =
     TypeError \<lparr>cbor_type = ct, go_type = ''int64'',
       struct_field = Some (s @ ''.'' @ show_nat (unat key)),
       detail = Some (d @ '' overflows Go'' @ [CHR 0x27] @ ''s int64'')\<rparr>"
| "in_struct_field e s key = e"

text \<open>
  An error that leaves two nested struct fields names the outer one only: the rewriting is
  absorbed by the next one out.
\<close>

lemma in_struct_field_outermost:
  "in_struct_field (in_struct_field e s k) s' k' = in_struct_field e s' k'"
  by (cases e) auto

text \<open>A rewritten type error always names its field in the rendered text.\<close>

lemma in_struct_field_text:
  "decode_error_text (in_struct_field (TypeError e) s k) =
     ''cbor: cannot unmarshal '' @ as_str (cbor_type e) @ '' into Go struct field '' @
     s @ ''.'' @ show_nat (unat k) @ '' of type '' @ go_type e @
     (case detail e of Some d \<Rightarrow> (if d \<noteq> [] then '' ('' @ d @ '')'' else []) | None \<Rightarrow> [])"
  by (simp add: ute_message_def split: option.split)

end
