(* ===== verification/Cbor_Wellformed.thy ===== *)
theory Cbor_Wellformed
  imports Cbor_Error
begin

text \<open>
  \<^verbatim>\<open>crates/codec/src/wellformed.rs\<close>: pass 1 of decoding, the well-formedness check. The
  \<^verbatim>\<open>Validator\<close> \<^verbatim>\<open>{data, off}\<close> is represented by the unread suffix \<open>drop off data\<close>: the code keeps
  \<^verbatim>\<open>off <= data.len()\<close>, and reads only at and after \<^verbatim>\<open>off\<close>. The loops of \<^verbatim>\<open>item\<close> are functions of their own that take
  the validator of one item as an argument. The nesting of \<^verbatim>\<open>item\<close> and the iterations of the
  two loops without a count have step bounds; \<open>wf_item_total\<close> shows that the input length plus
  one is enough for each, so \<open>well_formed\<close> never runs out.
\<close>

definition MAX_NESTED_LEVELS :: nat where "MAX_NESTED_LEVELS = 32"
definition MAX_ARRAY_ELEMENTS :: u64 where "MAX_ARRAY_ELEMENTS = 131072"
definition MAX_MAP_PAIRS :: u64 where "MAX_MAP_PAIRS = 131072"

abbreviation I64_MAX :: u64 where "I64_MAX \<equiv> 0x7fffffffffffffff"

record head =
  h_ty :: cbor_type
  h_ai :: byte
  h_val :: u64

text \<open>The tail of \<^verbatim>\<open>Validator::head\<close>, from \<^verbatim>\<open>self.data.get(self.off..self.off + size)\<close> on.\<close>

definition wf_head_arg :: "nat \<Rightarrow> cbor_type \<Rightarrow> byte \<Rightarrow> bytes \<Rightarrow> (decode_error, head \<times> bytes) outcome"
where
  "wf_head_arg sz ty ai bs =
     (if length bs < sz then Err UnexpectedEof
      else let val = be_fold (take sz bs) in
        if ai = 24 \<and> ty = Primitives \<and> val < 32 then Err (InvalidSimple (ucast val))
        else Ok (\<lparr>h_ty = ty, h_ai = ai, h_val = val\<rparr>, drop sz bs))"

definition wf_head :: "bytes \<Rightarrow> (decode_error, head \<times> bytes) outcome" where
  "wf_head bs = (case bs of
     [] \<Rightarrow> Err UnexpectedEof
   | first # rest \<Rightarrow>
      (let ty = of_initial_byte first; ai = first AND 0x1f in
       if ai \<le> 23 then Ok (\<lparr>h_ty = ty, h_ai = ai, h_val = ucast ai\<rparr>, rest)
       else if ai = 24 then wf_head_arg 1 ty ai rest
       else if ai = 25 then wf_head_arg 2 ty ai rest
       else if ai = 26 then wf_head_arg 4 ty ai rest
       else if ai = 27 then wf_head_arg 8 ty ai rest
       else if ai = 31 then
         (case ty of
            PositiveInteger \<Rightarrow> Err (InvalidAi ai ty)
          | NegativeInteger \<Rightarrow> Err (InvalidAi ai ty)
          | CTag \<Rightarrow> Err (InvalidAi ai ty)
          | Primitives \<Rightarrow> Err UnexpectedBreak
          | _ \<Rightarrow> Ok (\<lparr>h_ty = ty, h_ai = ai, h_val = ucast ai\<rparr>, rest))
       else Err (InvalidAi ai ty)))"

lemma wf_head_arg_Ok:
  "wf_head_arg n ty ai bs = Ok (h, r) \<Longrightarrow>
     n \<le> length bs \<and> r = drop n bs \<and> h = \<lparr>h_ty = ty, h_ai = ai, h_val = be_fold (take n bs)\<rparr>"
  by (auto simp: wf_head_arg_def Let_def split: if_splits)

text \<open>A head takes at least one byte, and leaves a suffix.\<close>

lemma wf_head_suffix: "wf_head bs = Ok (h, r) \<Longrightarrow> strict_suffix r bs"
proof (cases bs)
  case Nil
  then show "wf_head bs = Ok (h, r) \<Longrightarrow> ?thesis" by (simp add: wf_head_def)
next
  case (Cons b rest)
  assume "wf_head bs = Ok (h, r)"
  then have "suffix r rest"
    using Cons
    by (auto simp: wf_head_def Let_def suffix_drop split: if_splits cbor_type.splits
        dest!: wf_head_arg_Ok)
  with Cons show ?thesis by (simp add: strict_suffix_Cons_iff)
qed

lemma wf_head_shorter: "wf_head bs = Ok (h, r) \<Longrightarrow> length r < length bs"
  by (auto dest: wf_head_suffix suffix_length_less)

lemma wf_head_total: "wf_head bs \<noteq> Stuck"
  by (auto simp: wf_head_def wf_head_arg_def Let_def split: list.split cbor_type.split)

text \<open>\<^verbatim>\<open>Validator::item\<close>, the \<^verbatim>\<open>CborType::Tag\<close> arm: the scan of nested tag numbers.\<close>

function wf_tags :: "nat \<Rightarrow> bytes \<Rightarrow> (decode_error, nat \<times> bytes) outcome" where
  "wf_tags depth bs = (case bs of
     [] \<Rightarrow> Err UnexpectedEof
   | nxt # _ \<Rightarrow>
      (if of_initial_byte nxt \<noteq> CTag then Ok (depth, bs)
       else obind (wf_head bs) (\<lambda>(h, bs1).
         if depth + 1 > MAX_NESTED_LEVELS then Err MaxNested
         else wf_tags (depth + 1) bs1)))"
  by pat_completeness auto
termination
  by (relation "measure (\<lambda>(d, bs). length bs)") (auto dest: wf_head_shorter)

declare wf_tags.simps [simp del]

text \<open>\<^verbatim>\<open>for _ in 0..items { self.item(depth)?; }\<close>\<close>

fun wf_items :: "(bytes \<Rightarrow> (decode_error, bytes) outcome) \<Rightarrow> nat \<Rightarrow> bytes \<Rightarrow>
    (decode_error, bytes) outcome" where
  "wf_items item 0 bs = Ok bs"
| "wf_items item (Suc n) bs = obind (item bs) (wf_items item n)"

fun wf_indef_string :: "(bytes \<Rightarrow> (decode_error, bytes) outcome) \<Rightarrow> nat \<Rightarrow> cbor_type \<Rightarrow> bytes \<Rightarrow>
    (decode_error, bytes) outcome" where
  "wf_indef_string item 0 ty bs = Stuck"
| "wf_indef_string item (Suc k) ty bs = (case bs of
     [] \<Rightarrow> Err UnexpectedEof
   | nxt # rest \<Rightarrow>
       (if nxt = 0xff then Ok rest
        else if of_initial_byte nxt \<noteq> ty then Err (ChunkType (of_initial_byte nxt) ty)
        else if nxt AND 0x1f = 31 then Err (ChunkIndef ty)
        else obind (item bs) (wf_indef_string item k ty)))"

fun wf_indef_container :: "(bytes \<Rightarrow> (decode_error, bytes) outcome) \<Rightarrow> nat \<Rightarrow> cbor_type \<Rightarrow> nat \<Rightarrow>
    bytes \<Rightarrow> (decode_error, bytes) outcome" where
  "wf_indef_container item 0 ty i bs = Stuck"
| "wf_indef_container item (Suc k) ty i bs = (case bs of
     [] \<Rightarrow> Err UnexpectedEof
   | nxt # rest \<Rightarrow>
       (if nxt = 0xff then
          (if ty = CMap \<and> i mod 2 = 1 then Err UnexpectedBreak else Ok rest)
        else obind (item bs) (\<lambda>bs1.
          if ty = CArray then
            (if i + 1 > unat MAX_ARRAY_ELEMENTS then Err MaxArray
             else wf_indef_container item k ty (i + 1) bs1)
          else if (i + 1) mod 2 = 0 \<and> (i + 1) div 2 > unat MAX_MAP_PAIRS then Err MaxMap
          else wf_indef_container item k ty (i + 1) bs1)))"

primrec wf_item :: "nat \<Rightarrow> nat \<Rightarrow> bytes \<Rightarrow> (decode_error, bytes) outcome" where
  "wf_item 0 = (\<lambda>depth bs. Stuck)"
| "wf_item (Suc f) = (\<lambda>depth bs. obind (wf_head bs) (\<lambda>(h, bs1).
     if h_ty h = ByteString \<or> h_ty h = TextString then
       (if h_ai h = 31 then wf_indef_string (wf_item f depth) (Suc (length bs1)) (h_ty h) bs1
        else if h_val h > I64_MAX then Err (StrLenOverflow (h_ty h) (h_val h))
        else if length bs1 < unat (h_val h) then Err UnexpectedEof
        else Ok (drop (unat (h_val h)) bs1))
     else if h_ty h = CArray \<or> h_ty h = CMap then
       (if depth + 1 > MAX_NESTED_LEVELS then Err MaxNested
        else if h_ai h = 31 then
          wf_indef_container (wf_item f (depth + 1)) (Suc (length bs1)) (h_ty h) 0 bs1
        else if h_val h > I64_MAX then Err (LenOverflow (h_ty h) (h_val h))
        else if h_ty h = CArray \<and> h_val h > MAX_ARRAY_ELEMENTS then Err MaxArray
        else if h_ty h \<noteq> CArray \<and> h_val h > MAX_MAP_PAIRS then Err MaxMap
        else wf_items (wf_item f (depth + 1))
          (unat (if h_ty h = CMap then h_val h * 2 else h_val h)) bs1)
     else if h_ty h = CTag then
       obind (wf_tags depth bs1) (\<lambda>(depth1, bs2). wf_item f depth1 bs2)
     else Ok bs1))"

declare wf_item.simps [simp del]

lemma wf_item_0 [simp]: "wf_item 0 depth bs = Stuck"
  by (simp add: wf_item.simps)

definition well_formed :: "bytes \<Rightarrow> (decode_error, unit) outcome" where
  "well_formed b =
     (if b = [] then Err Eof
      else obind (wf_item (Suc (length b)) 0 b) (\<lambda>rest.
        if rest \<noteq> [] then Err (Extraneous (length rest) (length b - length rest)) else Ok ()))"

section \<open>Consumption\<close>

lemma wf_tags_suffix: "wf_tags d bs = Ok (d', r) \<Longrightarrow> suffix r bs"
proof (induction d bs arbitrary: d' r rule: wf_tags.induct)
  case (1 d bs)
  have "suffix r bs" if "bs = b # rest" "of_initial_byte b = CTag" "wf_head bs = Ok (h, bs1)"
    "\<not> d + 1 > MAX_NESTED_LEVELS" "wf_tags (d + 1) bs1 = Ok (d', r)" for b rest h bs1
    using "1.IH" [OF that(1) _ that(3) refl that(4) that(5)] that(2) wf_head_suffix [OF that(3)]
    by (auto intro: suffix_rules)
  with "1.prems" show ?case
    by (auto simp: wf_tags.simps [of d bs] split: list.splits if_splits)
qed

lemma wf_tags_total: "wf_tags d bs \<noteq> Stuck"
proof (induction d bs rule: wf_tags.induct)
  case (1 d bs)
  then show ?case
    by (auto simp: wf_tags.simps [of d bs] obind_eq_Stuck wf_head_total split: list.split)
qed

text \<open>
  The loops leave a suffix when every item does; so a successful \<^verbatim>\<open>item\<close> consumes at least one
  byte and leaves a suffix of its input.
\<close>

lemma wf_items_suffix:
  assumes "\<And>bs r. item bs = Ok r \<Longrightarrow> strict_suffix r bs"
  shows "wf_items item n bs = Ok r \<Longrightarrow> suffix r bs"
  by (induction n arbitrary: bs)
    (auto dest!: assms intro: suffix_rules)

lemma wf_indef_string_suffix:
  assumes "\<And>bs r. item bs = Ok r \<Longrightarrow> strict_suffix r bs"
  shows "wf_indef_string item k ty bs = Ok r \<Longrightarrow> suffix r bs"
  by (induction k arbitrary: bs)
    (auto split: list.splits if_splits dest!: assms simp: suffix_ConsI
      intro: suffix_rules)

lemma wf_indef_container_suffix:
  assumes "\<And>bs r. item bs = Ok r \<Longrightarrow> strict_suffix r bs"
  shows "wf_indef_container item k ty i bs = Ok r \<Longrightarrow> suffix r bs"
  by (induction k arbitrary: bs i)
    (auto split: list.splits if_splits dest!: assms simp: suffix_ConsI
      intro: suffix_rules)

lemma wf_item_suffix: "wf_item f d bs = Ok r \<Longrightarrow> strict_suffix r bs"
proof (induction f arbitrary: d bs r)
  case 0
  then show ?case by simp
next
  case (Suc f)
  have loops: "wf_items (wf_item f d') n bs' = Ok r \<Longrightarrow> suffix r bs'"
    "wf_indef_string (wf_item f d') k ty bs' = Ok r \<Longrightarrow> suffix r bs'"
    "wf_indef_container (wf_item f d') k ty i bs' = Ok r \<Longrightarrow> suffix r bs'" for d' n k ty i bs' r
    using wf_items_suffix wf_indef_string_suffix wf_indef_container_suffix Suc.IH
    by blast+
  from Suc.prems obtain h bs1 where hd: "wf_head bs = Ok (h, bs1)"
    by (auto simp: wf_item.simps)
  from Suc.prems hd have "suffix r bs1"
    by (auto simp: wf_item.simps suffix_drop split: if_splits
        simp del: wf_indef_string.simps wf_indef_container.simps dest!: loops wf_tags_suffix Suc.IH
        intro: suffix_rules)
  with wf_head_suffix [OF hd] show ?case by (rule suffix_less_le)
qed

section \<open>The step bounds are enough\<close>

lemma wf_items_total:
  assumes "\<And>bs r. item bs = Ok r \<Longrightarrow> strict_suffix r bs"
    and "\<And>bs'. suffix bs' bs \<Longrightarrow> item bs' \<noteq> Stuck"
  shows "wf_items item n bs \<noteq> Stuck"
  using assms(2)
proof (induction n arbitrary: bs)
  case (Suc n)
  then show ?case
    by (auto simp: obind_eq_Stuck dest!: assms(1)
        intro: suffix_rules)
qed simp

lemma wf_indef_string_total:
  assumes "\<And>bs r. item bs = Ok r \<Longrightarrow> strict_suffix r bs"
    and "\<And>bs'. suffix bs' bs \<Longrightarrow> item bs' \<noteq> Stuck" and "length bs < k"
  shows "wf_indef_string item k ty bs \<noteq> Stuck"
  using assms(2,3)
proof (induction k arbitrary: bs)
  case (Suc k)
  have "wf_indef_string item k ty r \<noteq> Stuck" if "item bs = Ok r" for r
    using Suc.prems assms(1) [OF that] strict_suffix_length [OF assms(1) [OF that]]
    by (intro Suc.IH) (auto intro: suffix_rules)
  with Suc.prems(1) [of bs] show ?case
    by (auto simp: obind_eq_Stuck split: list.split)
qed simp

lemma wf_indef_container_total:
  assumes "\<And>bs r. item bs = Ok r \<Longrightarrow> strict_suffix r bs"
    and "\<And>bs'. suffix bs' bs \<Longrightarrow> item bs' \<noteq> Stuck" and "length bs < k"
  shows "wf_indef_container item k ty i bs \<noteq> Stuck"
  using assms(2,3)
proof (induction k arbitrary: bs i)
  case (Suc k)
  have "wf_indef_container item k ty (i + 1) r \<noteq> Stuck" if "item bs = Ok r" for r i
    using Suc.prems assms(1) [OF that] strict_suffix_length [OF assms(1) [OF that]]
    by (intro Suc.IH) (auto intro: suffix_rules)
  with Suc.prems(1) [of bs] show ?case
    by (auto simp: obind_eq_Stuck split: list.split)
qed simp

lemma wf_item_total: "length bs < f \<Longrightarrow> wf_item f d bs \<noteq> Stuck"
proof (induction f arbitrary: d bs)
  case 0
  then show ?case by simp
next
  case (Suc f)
  have "wf_item (Suc f) d bs \<noteq> Stuck" if hd: "wf_head bs = Ok (h, bs1)" for h bs1
  proof -
    have lt: "length bs' < f" if "suffix bs' bs1" for bs'
      using that wf_head_shorter [OF hd] Suc.prems suffix_length_le by fastforce
    then have it: "wf_item f d' bs' \<noteq> Stuck" if "suffix bs' bs1" for bs' d'
      using that Suc.IH by blast
    have "wf_items (wf_item f d') n bs1 \<noteq> Stuck" for d' n
      by (rule wf_items_total) (use it wf_item_suffix in \<open>blast | simp\<close>)+
    moreover have "wf_indef_string (wf_item f d') (Suc (length bs1)) ty bs1 \<noteq> Stuck" for d' ty
      by (rule wf_indef_string_total) (use it wf_item_suffix in \<open>blast | simp\<close>)+
    moreover have "wf_indef_container (wf_item f d') (Suc (length bs1)) ty i bs1 \<noteq> Stuck" for d' ty i
      by (rule wf_indef_container_total) (use it wf_item_suffix in \<open>blast | simp\<close>)+
    ultimately show ?thesis
      using hd it
      by (simp add: wf_item.simps obind_eq_Stuck wf_tags_total
          del: wf_indef_string.simps wf_indef_container.simps) (auto dest: wf_tags_suffix)
  qed
  moreover have "wf_item (Suc f) d bs = Err e" if "wf_head bs = Err e" for e
    using that by (simp add: wf_item.simps)
  ultimately show ?case
    using wf_head_total [of bs] by (cases "wf_head bs") auto
qed

end
