(* ===== verification/Float_Bits.thy ===== *)
theory Float_Bits
  imports Prelude
begin

text \<open>
  Rust's \<^verbatim>\<open>f32\<close> and \<^verbatim>\<open>f64\<close> as their bit patterns: the conversions \<^verbatim>\<open>as f32\<close>,
  \<^verbatim>\<open>f64::from(f32)\<close>, \<^verbatim>\<open>u64 as f64\<close> and \<^verbatim>\<open>i64 as f64\<close> (IEEE 754, round to nearest, ties to
  even) and the comparison \<^verbatim>\<open>==\<close>. These are operations of the language; the codec uses them in
  \<^verbatim>\<open>crates/codec/src/enc.rs\<close> and \<^verbatim>\<open>dec.rs\<close>. Only the payload of a NaN is left to the platform
  by Rust; the usual hardware rule (quiet bit set, payload kept) is written here.
\<close>

definition f64_exp :: "u64 \<Rightarrow> nat" where "f64_exp v = unat (take_bit 11 (drop_bit 52 v))"
definition f64_frac :: "u64 \<Rightarrow> nat" where "f64_frac v = unat (take_bit 52 v)"
definition f64_sign :: "u64 \<Rightarrow> bool" where "f64_sign v = bit v 63"

definition f64_is_nan :: "u64 \<Rightarrow> bool" where
  "f64_is_nan v \<longleftrightarrow> f64_exp v = 2047 \<and> f64_frac v \<noteq> 0"
definition f64_is_infinite :: "u64 \<Rightarrow> bool" where
  "f64_is_infinite v \<longleftrightarrow> f64_exp v = 2047 \<and> f64_frac v = 0"
definition f64_is_zero :: "u64 \<Rightarrow> bool" where
  "f64_is_zero v \<longleftrightarrow> v = 0 \<or> v = 0x8000000000000000"

definition f32_exp :: "u32 \<Rightarrow> nat" where "f32_exp v = unat (take_bit 8 (drop_bit 23 v))"
definition f32_frac :: "u32 \<Rightarrow> nat" where "f32_frac v = unat (take_bit 23 v)"
definition f32_sign :: "u32 \<Rightarrow> bool" where "f32_sign v = bit v 31"
definition f32_is_nan :: "u32 \<Rightarrow> bool" where
  "f32_is_nan v \<longleftrightarrow> f32_exp v = 255 \<and> f32_frac v \<noteq> 0"

text \<open>IEEE equality: NaN differs from everything, the two zeros are equal.\<close>

definition f64_eq :: "u64 \<Rightarrow> u64 \<Rightarrow> bool" where
  "f64_eq a b \<longleftrightarrow> \<not> f64_is_nan a \<and> \<not> f64_is_nan b \<and> (a = b \<or> f64_is_zero a \<and> f64_is_zero b)"

definition f32_eq :: "u32 \<Rightarrow> u32 \<Rightarrow> bool" where
  "f32_eq a b \<longleftrightarrow> \<not> f32_is_nan a \<and> \<not> f32_is_nan b \<and>
     (a = b \<or> (a = 0 \<or> a = 0x80000000) \<and> (b = 0 \<or> b = 0x80000000))"

text \<open>\<open>m / 2 ^ s\<close> to the nearest integer, ties to even.\<close>

definition rne :: "nat \<Rightarrow> nat \<Rightarrow> nat" where
  "rne m s =
     (let q = m div 2 ^ s; r = m mod 2 ^ s; h = 2 ^ s div 2 in
      if s = 0 then m else if r > h \<or> (r = h \<and> odd q) then q + 1 else q)"

text \<open>The magnitude bits of \<^verbatim>\<open>v as f32\<close>; a carry out of the fraction moves into the exponent.\<close>

definition f64_to_f32_mag :: "nat \<Rightarrow> nat \<Rightarrow> nat" where
  "f64_to_f32_mag e m =
     (if e = 2047 then (if m = 0 then 0x7f800000 else 0x7fc00000 + (m div 2 ^ 29) mod 2 ^ 22)
      else if e = 0 then 0
      else if e > 1150 then 0x7f800000
      else if e \<ge> 897 then (e - 896) * 2 ^ 23 + (rne (2 ^ 52 + m) 29 - 2 ^ 23)
      else rne (2 ^ 52 + m) (926 - e))"

definition f64_to_f32 :: "u64 \<Rightarrow> u32" where
  "f64_to_f32 v = (if f64_sign v then 0x80000000 else 0) OR
     of_nat (f64_to_f32_mag (f64_exp v) (f64_frac v))"

text \<open>\<^verbatim>\<open>f64::from\<close> of an \<^verbatim>\<open>f32\<close>: exact, subnormals become normal.\<close>

definition f32_to_f64_mag :: "nat \<Rightarrow> nat \<Rightarrow> nat" where
  "f32_to_f64_mag e m =
     (if e = 255 then 2047 * 2 ^ 52 + (if m = 0 then 0 else 2 ^ 51 + (m mod 2 ^ 22) * 2 ^ 29)
      else if e = 0 then
        (if m = 0 then 0
         else let k = ilog2 m in (874 + k) * 2 ^ 52 + (m * 2 ^ (52 - k) - 2 ^ 52))
      else (e + 896) * 2 ^ 52 + m * 2 ^ 29)"

definition f32_to_f64 :: "u32 \<Rightarrow> u64" where
  "f32_to_f64 v = (if f32_sign v then 0x8000000000000000 else 0) OR
     of_nat (f32_to_f64_mag (f32_exp v) (f32_frac v))"

text \<open>\<^verbatim>\<open>u64 as f64\<close> and \<^verbatim>\<open>i64 as f64\<close>.\<close>

definition nat_to_f64 :: "nat \<Rightarrow> u64" where
  "nat_to_f64 n =
     (if n = 0 then 0
      else let e = ilog2 n in
        if e \<le> 52 then of_nat ((1023 + e) * 2 ^ 52 + (n * 2 ^ (52 - e) - 2 ^ 52))
        else of_nat ((1023 + e) * 2 ^ 52 + (rne n (e - 52) - 2 ^ 52)))"

definition int_to_f64 :: "int \<Rightarrow> u64" where
  "int_to_f64 i = (if i < 0 then 0x8000000000000000 OR nat_to_f64 (nat (- i)) else nat_to_f64 (nat i))"

lemma f64_eq_bits: "f64_eq a b \<Longrightarrow> \<not> f64_is_zero b \<Longrightarrow> a = b"
  by (auto simp: f64_eq_def)

text \<open>The two zeros survive the conversion to \<^verbatim>\<open>f32\<close> and back.\<close>

lemma f64_to_f32_zero: "f64_is_zero v \<Longrightarrow> f32_to_f64 (f64_to_f32 v) = v"
proof -
  have "f32_to_f64 (f64_to_f32 0) = 0"
    by code_simp
  moreover have "f32_to_f64 (f64_to_f32 0x8000000000000000) = 0x8000000000000000"
    by code_simp
  ultimately show "f64_is_zero v \<Longrightarrow> ?thesis" by (auto simp: f64_is_zero_def)
qed

lemma f64_narrow_exact: "f64_eq (f32_to_f64 (f64_to_f32 v)) v \<Longrightarrow> f32_to_f64 (f64_to_f32 v) = v"
  using f64_eq_bits f64_to_f32_zero by blast

end
