(* ===== verification/Cbor_Enc.thy ===== *)
theory Cbor_Enc
  imports Float_Bits "HOL-Library.While_Combinator"
begin

text \<open>
  \<^verbatim>\<open>crates/codec/src/enc.rs\<close>: the canonical encoder. An \<^verbatim>\<open>Enc\<close> is its buffer, and every method
  takes the buffer and returns the extended one. \<^verbatim>\<open>amber_store_core::cbor::append_head\<close> belongs to
  another crate and is the parameter \<open>ah\<close>; \<open>append_head_ok\<close> states its documented behaviour (the
  shortest head, rule E7 of \<^verbatim>\<open>port-notes/codec-wire-ticket.md\<close>).
\<close>

type_synonym append_head = "bytes \<Rightarrow> byte \<Rightarrow> u64 \<Rightarrow> bytes"

text \<open>The shortest head of major type \<open>m\<close> and argument \<open>n\<close> (RFC 8949, preferred serialisation).\<close>

definition cbor_head :: "byte \<Rightarrow> u64 \<Rightarrow> bytes" where
  "cbor_head m n =
     (let x = push_bit 5 m in
      if n < 24 then [x OR ucast n]
      else if n \<le> 0xff then (x OR 24) # be_bytes 1 n
      else if n \<le> 0xffff then (x OR 25) # be_bytes 2 n
      else if n \<le> 0xffffffff then (x OR 26) # be_bytes 4 n
      else (x OR 27) # be_bytes 8 n)"

definition append_head_ok :: "append_head \<Rightarrow> bool" where
  "append_head_ok ah \<longleftrightarrow> (\<forall>buf m n. m < 8 \<longrightarrow> ah buf m n = buf @ cbor_head m n)"

lemma append_head_okD: "append_head_ok ah \<Longrightarrow> m < 8 \<Longrightarrow> ah buf m n = buf @ cbor_head m n"
  by (simp add: append_head_ok_def)

section \<open>The encoder\<close>

definition enc_head :: "append_head \<Rightarrow> bytes \<Rightarrow> byte \<Rightarrow> u64 \<Rightarrow> bytes" where
  "enc_head ah e major n = ah e major n"

definition enc_uint :: "append_head \<Rightarrow> bytes \<Rightarrow> u64 \<Rightarrow> bytes" where
  "enc_uint ah e v = enc_head ah e 0 v"

text \<open>An \<^verbatim>\<open>i64\<close> is an \<open>int\<close>; \<^verbatim>\<open>v as u64\<close> is its two's complement.\<close>

definition enc_int :: "append_head \<Rightarrow> bytes \<Rightarrow> int \<Rightarrow> bytes" where
  "enc_int ah e v =
     (if v \<ge> 0 then enc_head ah e 0 (word_of_int v) else enc_head ah e 1 (NOT (word_of_int v)))"

definition enc_bool :: "bytes \<Rightarrow> bool \<Rightarrow> bytes" where
  "enc_bool e v = e @ [if v then 0xf5 else 0xf4]"

definition enc_null :: "bytes \<Rightarrow> bytes" where
  "enc_null e = e @ [0xf6]"

definition enc_bytes :: "append_head \<Rightarrow> bytes \<Rightarrow> bytes \<Rightarrow> bytes" where
  "enc_bytes ah e v = enc_head ah e 2 (of_nat (length v)) @ v"

definition enc_text :: "append_head \<Rightarrow> bytes \<Rightarrow> bytes \<Rightarrow> bytes" where
  "enc_text ah e v = enc_head ah e 3 (of_nat (length v)) @ v"

section \<open>Half-precision floats\<close>

datatype precision = Exact | Unknown | Inexact | Underflow | Overflow

definition precision_from_f32 :: "u32 \<Rightarrow> precision" where
  "precision_from_f32 u =
     (if u = 0 \<or> u = 0x80000000 then Exact
      else let
        e = sint (drop_bit 23 (u AND 0x7f800000) - 127);
        coef = u AND 0x7fffff
      in if e = 128 then Exact
         else if e < -24 then Underflow
         else if e > 15 then Overflow
         else if coef AND 0x1fff \<noteq> 0 then Inexact
         else if e < -14 then Unknown
         else Exact)"

text \<open>The \<^verbatim>\<open>while\<close> loop that normalises a subnormal half.\<close>

definition f16_normalize :: "u32 \<times> u32 \<Rightarrow> u32 \<times> u32" where
  "f16_normalize = while (\<lambda>(coef, e). coef AND 0x7f800000 = 0) (\<lambda>(coef, e). (push_bit 1 coef, e - 1))"

definition f16bits_to_f32bits :: "u16 \<Rightarrow> u32" where
  "f16bits_to_f32bits inp =
     (let
        sign = push_bit 16 (ucast (inp AND 0x8000)) :: u32;
        e = drop_bit 10 (ucast (inp AND 0x7c00)) :: u32;
        coef = push_bit 13 (ucast (inp AND 0x03ff)) :: u32
      in if e = 0x1f then
           (if coef = 0 then sign OR 0x7f800000 OR coef else sign OR 0x7fc00000 OR coef)
         else if e = 0 \<and> coef = 0 then sign
         else let (coef2, e2) =
             (if e = 0 then
                (case f16_normalize (coef, e + 1) of (c, x) \<Rightarrow> (c AND 0x007fffff, x))
              else (coef, e))
           in sign OR push_bit 23 (e2 + 0x70) OR coef2)"

definition f32bits_to_f16bits :: "u32 \<Rightarrow> u16" where
  "f32bits_to_f16bits u =
     (let
        sign = u AND 0x80000000;
        e = u AND 0x7f800000;
        coef = u AND 0x007fffff
      in if e = 0x7f800000 then
           ucast (drop_bit 16 sign OR 0x7c00 OR (if coef \<noteq> 0 then 0x0200 else 0) OR drop_bit 13 coef)
         else let
           half_sign = drop_bit 16 sign;
           half_exp = uint (drop_bit 23 e) - 127 + 15
         in if half_exp \<ge> 0x1f then ucast (half_sign OR 0x7c00)
            else if half_exp \<le> 0 then
              (if 14 - half_exp > 24 then ucast half_sign
               else let
                 coef1 = coef OR 0x00800000;
                 half_coef = drop_bit (nat (14 - half_exp)) coef1;
                 round_bit = push_bit (nat (13 - half_exp)) 1;
                 half_coef1 =
                   (if coef1 AND round_bit \<noteq> 0 \<and> coef1 AND (3 * round_bit - 1) \<noteq> 0
                    then half_coef + 1 else half_coef)
               in ucast (half_sign OR half_coef1))
            else let
              u_half_exp = push_bit 10 (word_of_int half_exp);
              half_coef = drop_bit 13 coef;
              round_bit = 0x1000
            in if coef AND round_bit \<noteq> 0 \<and> coef AND (3 * round_bit - 1) \<noteq> 0
               then ucast ((half_sign OR u_half_exp OR half_coef) + 1)
               else ucast (half_sign OR u_half_exp OR half_coef))"

definition f64_canonical :: "bytes \<Rightarrow> u64 \<Rightarrow> bytes" where
  "f64_canonical e v =
     (if f64_is_nan v then e @ [0xf9, 0x7e, 0x00]
      else if f64_is_infinite v then e @ [0xf9, if \<not> f64_sign v then 0x7c else 0xfc, 0x00]
      else let f32v = f64_to_f32 v in
        if \<not> f64_eq (f32_to_f64 f32v) v then e @ [0xfb] @ be_bytes 8 v
        else let
          f16 = f32bits_to_f16bits f32v;
          exact =
            (case precision_from_f32 f32v of
               Exact \<Rightarrow> True
             | Unknown \<Rightarrow> f32_eq (f16bits_to_f32bits f16) f32v
             | _ \<Rightarrow> False)
        in if exact then e @ [0xf9] @ be_bytes 2 f16
           else e @ [0xfa] @ be_bytes 4 f32v)"


section \<open>Heads\<close>

lemma head_byte_major:
  assumes "m < (8::byte)" and "a < (32::byte)"
  shows "drop_bit 5 (push_bit 5 m OR a) = m"
proof (rule bit_word_eqI)
  have "unat m < 2 ^ 3" and a: "unat a < 2 ^ 5"
    using assms by (auto simp: word_less_nat_alt)
  then show "bit (drop_bit 5 (push_bit 5 m OR a)) i \<longleftrightarrow> bit m i" if "i < LENGTH(8)" for i
    using that word_bit_bound [of m 3 i] word_bit_bound [of a 5 "5 + i"]
    by (auto simp: bit_simps)
qed

lemma head_byte_ai:
  assumes "a < (32::byte)"
  shows "(push_bit 5 m OR a) AND 0x1f = a"
proof (rule bit_word_eqI)
  have "unat a < 2 ^ 5" using assms by (simp add: word_less_nat_alt)
  then show "bit ((push_bit 5 m OR a) AND 0x1f) i \<longleftrightarrow> bit a i" if "i < LENGTH(8)" for i
    using that word_bit_bound [of a 5 i] by (auto simp: and_mask5 bit_simps)
qed
text \<open>What a head starts with: the major type, and additional information that never is 31.\<close>

lemma cbor_head_cases:
  assumes "m < 8"
  obtains (direct) "n < 24" and "cbor_head m n = [push_bit 5 m OR ucast n]"
  | (arg) k ai where "k \<in> {1, 2, 4, 8}" and "ai = (24::byte) \<and> k = 1 \<or> ai = 25 \<and> k = 2 \<or> ai = 26 \<and> k = 4 \<or> ai = 27 \<and> k = 8"
      and "\<not> n < 24" and "cbor_head m n = (push_bit 5 m OR ai) # be_bytes k n"
      and "be_fold (be_bytes k n) = n"
proof -
  have small: "be_fold (be_bytes k n) = n" if "unat n < 256 ^ k" for k
    using that by (rule be_fold_be_bytes_small)
  show thesis
  proof (cases "n < 24")
    case True
    with direct show ?thesis by (simp add: cbor_head_def Let_def)
  next
    case False
    consider "n \<le> 0xff" | "\<not> n \<le> 0xff" "n \<le> 0xffff" | "\<not> n \<le> 0xffff" "n \<le> 0xffffffff"
      | "\<not> n \<le> 0xffffffff" by blast
    then show ?thesis
    proof cases
      case 1
      with False show ?thesis
        using small [of 1] by (intro arg [of 1 24]) (auto simp: cbor_head_def word_le_nat_alt)
    next
      case 2
      with False show ?thesis
        using small [of 2] by (intro arg [of 2 25]) (auto simp: cbor_head_def word_le_nat_alt)
    next
      case 3
      with False show ?thesis
        using small [of 4] by (intro arg [of 4 26]) (auto simp: cbor_head_def word_le_nat_alt)
    next
      case 4
      with False show ?thesis
        using unsigned_less [of n, where ?'a = nat] by (intro arg [of 8 27]) (auto simp: cbor_head_def word_le_nat_alt)
    qed
  qed
qed

lemma small_ai: "n < (24::u64) \<Longrightarrow> ucast n < (24::byte)" 
  by (simp add: word_less_nat_alt unsigned_ucast_eq take_bit_nat_eq_self)

section \<open>Floats\<close>


lemma and_exp32: "u AND 0x7f800000 = push_bit 23 (take_bit 8 (drop_bit 23 u))" for u :: u32
  using and_field [of u 23 8] by (simp add: mask_numeral)

lemma and_sign32: "u AND 0x80000000 = push_bit 31 (drop_bit 31 u)" for u :: u32
  using and_top [of 31 1 u] by (simp add: mask_numeral)

lemma and_frac32: "u AND 0x7fffff = take_bit 23 u" for u :: u32
  by (simp add: take_bit_eq_mask mask_numeral)

lemma and_drop32: "u AND 0x1fff = take_bit 13 u" for u :: u32
  by (simp add: take_bit_eq_mask mask_numeral)

lemma and_exp16: "h AND 0x7c00 = push_bit 10 (take_bit 5 (drop_bit 10 h))" for h :: u16
  using and_field [of h 10 5] by (simp add: mask_numeral)

lemma and_sign16: "h AND 0x8000 = push_bit 15 (drop_bit 15 h)" for h :: u16
  using and_top [of 15 1 h] by (simp add: mask_numeral)

lemma and_frac16: "h AND 0x3ff = take_bit 10 h" for h :: u16
  by (simp add: take_bit_eq_mask mask_numeral)

lemmas field_masks = and_exp32 and_sign32 and_frac32 and_drop32 and_exp16 and_sign16 and_frac16

text \<open>A word as its sign, exponent and fraction fields.\<close>

lemma f32_fields:
  "push_bit 31 (drop_bit 31 u) OR push_bit 23 (take_bit 8 (drop_bit 23 u)) OR take_bit 23 u = u"
  for u :: u32
proof (rule bit_word_eqI)
  fix n assume "n < LENGTH(32)"
  then consider "n = 31" | "n < 31" by fastforce
  then show "bit (push_bit 31 (drop_bit 31 u) OR push_bit 23 (take_bit 8 (drop_bit 23 u)) OR
      take_bit 23 u) n \<longleftrightarrow> bit u n"
    by cases (auto simp: bit_simps)
qed

text \<open>A half assembled from a sign, an exponent below 31 and not 0, and a 10-bit fraction.\<close>

lemma f16_fields:
  fixes s x c :: u32
  assumes "unat x < 2 ^ 5" and "unat s < 2 ^ 1" and "unat c < 2 ^ 10"
  defines "h \<equiv> ucast (push_bit 15 s OR push_bit 10 x OR c) :: u16"
  shows "ucast (h AND 0x8000) = push_bit 15 s" and "ucast (h AND 0x7c00) = push_bit 10 x"
    and "ucast (h AND 0x03ff) = c"
proof -
  note b = word_bit_bound [OF assms(1)] word_bit_bound [OF assms(2)] word_bit_bound [OF assms(3)]
  show "ucast (h AND 0x8000) = push_bit 15 s"
    by (rule bit_word_eqI) (auto simp: h_def field_masks bit_simps dest: b)
  show "ucast (h AND 0x7c00) = push_bit 10 x"
    by (rule bit_word_eqI) (auto simp: h_def field_masks bit_simps dest: b)
  show "ucast (h AND 0x03ff) = c"
    by (rule bit_word_eqI) (auto simp: h_def field_masks bit_simps dest: b)
qed

lemma signed_small: "0 \<le> k \<Longrightarrow> k < 256 \<Longrightarrow> signed_take_bit 31 k = k"
  "0 \<le> k \<Longrightarrow> k < 256 \<Longrightarrow> signed_take_bit 31 (k - 127) = k - 127" for k :: int
  by (auto intro!: signed_take_bit_int_eq_self)

lemma sint_minus_bias: "uint x < 256 \<Longrightarrow> sint (x - 127) = uint x - 127" for x :: u32
  by (subst sint_word_diff) (simp add: sint_uint [of x] signed_small)

text \<open>A normal \<^verbatim>\<open>f32\<close> that \<^verbatim>\<open>precision_from_f32\<close> calls exact becomes the half with the same fields.\<close>

lemma f32bits_to_f16bits_normal:
  assumes "\<not> (u = 0 \<or> u = 0x80000000)" and "precision_from_f32 u = Exact"
    and "u AND 0x7f800000 \<noteq> 0x7f800000"
  shows "\<exists>h. 1 \<le> unat h \<and> unat h \<le> 30 \<and> take_bit 8 (drop_bit 23 u) = h + 112 \<and> take_bit 13 u = 0 \<and>
    f32bits_to_f16bits u =
      ucast (push_bit 15 (drop_bit 31 u) OR push_bit 10 h OR take_bit 10 (drop_bit 13 u))"
proof -
  define x where "x = take_bit 8 (drop_bit 23 u)"
  have xb: "unat x < 2 ^ 8" unfolding x_def
    by (simp only: unsigned_take_bit_eq take_bit_nat_less_exp)
  then have "int (unat x) < int (2 ^ 8)" by (simp only: of_nat_less_iff)
  then have xi: "uint x < 256" by simp
  have "drop_bit 23 (u AND 0x7f800000) = drop_bit 23 (push_bit 23 x)"
    unfolding and_exp32 x_def ..
  also have "\<dots> = x" by (rule drop_push_small [OF xb]) simp
  finally have x: "drop_bit 23 (u AND 0x7f800000) = x" .
  have ne: "uint x \<noteq> 255"
  proof
    assume "uint x = 255"
    then have "x = 255" by (simp add: word_uint_eq_iff)
    then have "u AND 0x7f800000 = push_bit 23 255" unfolding and_exp32 x_def by (rule arg_cong)
    also have "push_bit 23 (255::u32) = 0x7f800000" by simp
    finally have "u AND 0x7f800000 = 0x7f800000" .
    with assms(3) show False by simp
  qed
  have lo: "113 \<le> uint x" and hi: "uint x \<le> 142" and drop: "take_bit 13 u = 0"
    using assms(1) assms(2) [unfolded precision_from_f32_def Let_def x sint_minus_bias [OF xi]] ne
    by (auto simp: and_drop32 and_frac32 split: if_splits)
  have "drop_bit 16 (u AND 0x80000000) = push_bit 15 (drop_bit 31 u)"
    by (rule bit_word_eqI) (auto simp: and_sign32 bit_simps dest: bit_imp_le_length)
  moreover have "drop_bit 13 (u AND 0x7fffff) = take_bit 10 (drop_bit 13 u)"
    by (rule bit_word_eqI) (auto simp: and_frac32 bit_simps)
  moreover have "word_of_int (uint x - 112) = x - 112" by simp
  moreover have rb: "(u AND 0x7fffff) AND 0x1000 = 0"
    using take_bit_0_no_bit [OF drop, of 12] and_exp_eq_0_iff_not_bit [of u 12]
    by (simp add: and.assoc)
  ultimately have "f32bits_to_f16bits u =
      ucast (push_bit 15 (drop_bit 31 u) OR push_bit 10 (x - 112) OR take_bit 10 (drop_bit 13 u))"
    using lo hi assms(3) unfolding f32bits_to_f16bits_def Let_def x rb
    by simp
  moreover have "int 113 \<le> int (unat x) \<and> int (unat x) \<le> int 142"
    using lo hi by simp
  then have un: "113 \<le> unat x \<and> unat x \<le> 142" by (simp only: of_nat_le_iff)
  moreover from un have "unat (x - 112) = unat x - 112"
    by (simp add: unat_sub word_le_nat_alt)
  ultimately show ?thesis
    using drop un by (intro exI [of _ "x - 112"]) (auto simp flip: x_def)
qed

lemma f16_exact:
  assumes "precision_from_f32 u = Exact" and "u AND 0x7f800000 \<noteq> 0x7f800000"
  shows "f16bits_to_f32bits (f32bits_to_f16bits u) = u"
proof (cases "u = 0 \<or> u = 0x80000000")
  case True
  have "f16bits_to_f32bits (f32bits_to_f16bits 0) = 0"
    "f16bits_to_f32bits (f32bits_to_f16bits 0x80000000) = 0x80000000" by code_simp+
  with True show ?thesis by auto
next
  case False
  obtain h where h: "1 \<le> unat h" "unat h \<le> 30" and x: "take_bit 8 (drop_bit 23 u) = h + 112"
    and low: "take_bit 13 u = 0" and f16: "f32bits_to_f16bits u =
      ucast (push_bit 15 (drop_bit 31 u) OR push_bit 10 h OR take_bit 10 (drop_bit 13 u))"
    using f32bits_to_f16bits_normal [OF False assms] by blast
  have hb: "unat h < 2 ^ 5" using h by simp
  have sb: "unat (drop_bit 31 u) < 2 ^ 1"
    by (rule unat_drop_lt) simp
  have cb: "unat (take_bit 10 (drop_bit 13 u)) < 2 ^ 10"
    by (simp only: unsigned_take_bit_eq take_bit_nat_less_exp)
  have "13 \<le> i" if "bit u i" for i
    using take_bit_0_no_bit [OF low] that not_le by blast
  then have "push_bit 13 (take_bit 10 (drop_bit 13 u)) = take_bit 23 u"
    by (intro bit_word_eqI) (auto simp: bit_simps)
  moreover have "push_bit 16 (push_bit 15 (drop_bit 31 u)) = push_bit 31 (drop_bit 31 u)" by simp
  moreover have "drop_bit 10 (push_bit 10 h) = h" using drop_push_small [OF hb, of 10] by simp
  moreover have "h \<noteq> 31" "h \<noteq> 0" using h by auto
  ultimately show ?thesis
    using f32_fields [of u] x
    by (simp add: f16bits_to_f32bits_def f16 f16_fields [OF hb sb cb])
qed

lemma f64_fields:
  "push_bit 63 (drop_bit 63 v) OR push_bit 52 (take_bit 11 (drop_bit 52 v)) OR take_bit 52 v = v"
  for v :: u64
proof (rule bit_word_eqI)
  fix n assume "n < LENGTH(64)"
  then consider "n = 63" | "n < 63" by fastforce
  then show "bit (push_bit 63 (drop_bit 63 v) OR push_bit 52 (take_bit 11 (drop_bit 52 v)) OR
      take_bit 52 v) n \<longleftrightarrow> bit v n"
    by cases (auto simp: bit_simps)
qed

lemma f64_infinite_bits:
  assumes "f64_is_infinite v"
  shows "v = (if f64_sign v then 0xfff0000000000000 else 0x7ff0000000000000)"
proof -
  have "unat (take_bit 52 v) = unat (0::u64)" "unat (take_bit 11 (drop_bit 52 v)) = unat (2047::u64)"
    using assms unfolding f64_is_infinite_def f64_exp_def f64_frac_def by simp_all
  then have "take_bit 52 v = 0" "take_bit 11 (drop_bit 52 v) = 2047"
    unfolding word_unat_eq_iff .
  moreover have "drop_bit 63 v = (if f64_sign v then 1 else 0)"
  proof (rule bit_word_eqI)
    show "bit (drop_bit 63 v) n \<longleftrightarrow> bit (if f64_sign v then 1 else 0 :: u64) n" for n
      by (cases n) (auto simp: bit_simps f64_sign_def dest: bit_imp_le_length)
  qed
  ultimately show ?thesis using f64_fields [of v] by (auto split: if_splits)
qed

lemma f32_special_f64_exp:
  assumes "u AND 0x7f800000 = 0x7f800000"
  shows "f64_exp (f32_to_f64 u) = 2047"
proof -
  have "take_bit 8 (drop_bit 23 u) = drop_bit 23 (u AND 0x7f800000)"
    by (rule bit_word_eqI) (auto simp: and_exp32 bit_simps)
  also have "\<dots> = 255" unfolding assms by simp
  finally have "f32_exp u = 255" by (simp add: f32_exp_def)
  define k where "k = (if f32_frac u = 0 then 0 else 2 ^ 51 + (f32_frac u mod 2 ^ 22) * 2 ^ 29)"
  have "f32_frac u mod 2 ^ 22 < 2 ^ 22" by simp
  then have k: "k < 2 ^ 52" by (auto simp: k_def)
  define w where "w = (of_nat (2047 * 2 ^ 52 + k) :: u64)"
  have "f32_to_f64 u = (if f32_sign u then 0x8000000000000000 else 0) OR w"
    using \<open>f32_exp u = 255\<close> by (simp add: f32_to_f64_def f32_to_f64_mag_def w_def k_def)
  moreover have "unat w = 2047 * 2 ^ 52 + k"
    unfolding w_def unsigned_of_nat of_nat_id using k by (intro take_bit_nat_eq_self) simp
  then have "unat (drop_bit 52 w) = 2047"
    using k by (simp add: unsigned_drop_bit_eq drop_bit_nat_def take_bit_nat_eq_self)
  then have "drop_bit 52 w = 2047" by (simp add: word_unat_eq_iff)
  ultimately show ?thesis
    by (auto simp: f64_exp_def)
qed

lemma f64_of_half_inf: "f32_to_f64 (f16bits_to_f32bits 0x7c00) = 0x7ff0000000000000"
proof -
  have "f16bits_to_f32bits 0x7c00 = 0x7f800000" by code_simp
  moreover have e: "f32_exp 0x7f800000 = 255" "f32_frac 0x7f800000 = 0" "f32_sign 0x7f800000 = False"
    "f32_to_f64_mag 255 0 = 0x7ff0000000000000"
    by (simp_all add: f32_exp_def f32_frac_def f32_sign_def f32_to_f64_mag_def)
  ultimately show ?thesis by (simp add: f32_to_f64_def e)
qed

lemma f64_of_half_ninf: "f32_to_f64 (f16bits_to_f32bits 0xfc00) = 0xfff0000000000000"
proof -
  have "f16bits_to_f32bits 0xfc00 = 0xff800000" by code_simp
  moreover have e: "f32_exp 0xff800000 = 255" "f32_frac 0xff800000 = 0" "f32_sign 0xff800000 = True"
    "f32_to_f64_mag 255 0 = 0x7ff0000000000000"
    by (simp_all add: f32_exp_def f32_frac_def f32_sign_def f32_to_f64_mag_def)
  ultimately show ?thesis by (simp add: f32_to_f64_def e)
qed

lemma be_bytes_half_inf:
  "be_bytes 2 (0x7c00::u16) = [0x7c, 0x00]" "be_bytes 2 (0xfc00::u16) = [0xfc, 0x00]"
  by (simp_all add: be_bytes_numeral)

text \<open>
  The bytes \<^verbatim>\<open>f64_canonical\<close> writes for a number: a half, a single or a double that widens back
  to exactly the same bits.
\<close>

lemma f64_canonical_forms:
  assumes "\<not> f64_is_nan v"
  obtains (half) h where "f64_canonical e v = e @ 0xf9 # be_bytes 2 h"
      and "f32_to_f64 (f16bits_to_f32bits h) = v"
  | (single) w where "f64_canonical e v = e @ 0xfa # be_bytes 4 w" and "f32_to_f64 w = v"
  | (double) "f64_canonical e v = e @ 0xfb # be_bytes 8 v"
proof (cases "f64_is_infinite v")
  case True
  note c = f64_of_half_inf f64_of_half_ninf be_bytes_half_inf
  have canon: "f64_canonical e v = e @ [0xf9, if \<not> f64_sign v then 0x7c else 0xfc, 0x00]"
    using True assms by (simp add: f64_canonical_def)
  show ?thesis
  proof (cases "f64_sign v")
    case sgn: True
    then show ?thesis
      using canon c f64_infinite_bits [OF True] by (intro half [where h = "0xfc00"]) simp_all
  next
    case sgn: False
    then show ?thesis
      using canon c f64_infinite_bits [OF True] by (intro half [where h = "0x7c00"]) simp_all
  qed
next
  case False
  note fin = False
  define w where "w = f64_to_f32 v"
  define h where "h = f32bits_to_f16bits w"
  show ?thesis
  proof (cases "f64_eq (f32_to_f64 w) v")
    case False
    with fin assms show ?thesis
      by (intro double) (simp add: f64_canonical_def Let_def w_def)
  next
    case True
    then have wv: "f32_to_f64 w = v" unfolding w_def by (rule f64_narrow_exact)
    define ex where "ex = (case precision_from_f32 w of Exact \<Rightarrow> True
        | Unknown \<Rightarrow> f32_eq (f16bits_to_f32bits h) w | _ \<Rightarrow> False)"
    have canon: "f64_canonical e v =
        (if ex then e @ 0xf9 # be_bytes 2 h else e @ 0xfa # be_bytes 4 w)"
      using fin assms True unfolding f64_canonical_def Let_def ex_def h_def w_def by simp
    show ?thesis
    proof (cases ex)
      case False
      with canon wv show ?thesis by (intro single) auto
    next
      case ex: True
      have "w AND 0x7f800000 \<noteq> 0x7f800000"
        using f32_special_f64_exp [of w] wv fin assms
        by (auto simp: f64_is_nan_def f64_is_infinite_def)
      moreover have "w \<noteq> 0" "w \<noteq> 0x80000000" if "precision_from_f32 w = Unknown"
        using that by (auto simp: precision_from_f32_def)
      ultimately have "f16bits_to_f32bits h = w"
        using ex f16_exact [of w]
        by (auto simp: ex_def h_def f32_eq_def split: precision.splits)
      with canon ex wv show ?thesis by (intro half [where h = h]) auto
    qed
  qed
qed
end
