(* ===== verification/Cbor_Bigdec.thy ===== *)
theory Cbor_Bigdec
  imports Prelude
begin

text \<open>
  \<^verbatim>\<open>crates/codec/src/dec.rs\<close>, lines 649-881: the decimal text of a big-endian magnitude of any
  length, by divide and conquer with Karatsuba multiplication in base \<open>10^9\<close>. Limbs are
  \<open>32 word\<close>s, least significant first; the arithmetic on them is the wrapping arithmetic of the
  code. The main result is that \<open>big_decimal\<close> is the decimal text of the number.
\<close>

definition DEC_BASE :: u32 where "DEC_BASE = 1000000000"
definition CONVERT_LEAF_LIMBS :: nat where "CONVERT_LEAF_LIMBS = 64"
definition KARATSUBA_MIN_LIMBS :: nat where "KARATSUBA_MIN_LIMBS = 32"

definition trimmed :: "u32 list \<Rightarrow> u32 list" where
  "trimmed v = rev (dropWhile (\<lambda>x. x = 0) (rev v))"

text \<open>One pass of \<^verbatim>\<open>for limb in limbs.iter_mut().rev()\<close>: the quotient limbs and the remainder.\<close>

fun div_pass :: "u32 list \<Rightarrow> u32 list \<times> nat" where
  "div_pass [] = ([], 0)"
| "div_pass (limb # ls) =
     (case div_pass ls of (qs, rm) \<Rightarrow>
        let cur = rm * 2 ^ 32 + unat limb in
        (of_nat (cur div unat DEC_BASE) # qs, cur mod unat DEC_BASE))"

text \<open>The number that limbs denote in base \<open>B\<close>, least significant first.\<close>

fun lval :: "nat \<Rightarrow> u32 list \<Rightarrow> nat" where
  "lval B [] = 0"
| "lval B (d # ds) = unat d + B * lval B ds"

abbreviation bval :: "u32 list \<Rightarrow> nat" where "bval \<equiv> lval 4294967296"
abbreviation dval :: "u32 list \<Rightarrow> nat" where "dval \<equiv> lval 1000000000"

lemma lval_append: "lval B (xs @ ys) = lval B xs + B ^ length xs * lval B ys"
  by (induction xs) (auto simp: algebra_simps)

lemma lval_replicate_0 [simp]: "lval B (replicate n 0) = 0"
  by (induction n) auto

lemma lval_zeros: "\<forall>x \<in> set xs. x = 0 \<Longrightarrow> lval B xs = 0"
  by (induction xs) auto

lemma trimmed_decomp: "\<exists>n. xs = trimmed xs @ replicate n 0"
proof -
  define z where "z = rev (takeWhile (\<lambda>x. x = 0) (rev xs))"
  have "xs = rev (takeWhile (\<lambda>x. x = 0) (rev xs) @ dropWhile (\<lambda>x. x = 0) (rev xs))" by simp
  then have "xs = trimmed xs @ z"
    by (simp add: trimmed_def z_def del: takeWhile_dropWhile_id)
  moreover have "\<forall>y \<in> set z. y = 0" by (auto simp: z_def dest: set_takeWhileD)
  then have "replicate (length z) 0 = z" by (rule replicate_length_same)
  ultimately show ?thesis by metis
qed

lemma lval_trimmed [simp]: "lval B (trimmed xs) = lval B xs"
proof -
  obtain n where "xs = trimmed xs @ replicate n 0" using trimmed_decomp by blast
  then show ?thesis by (metis add.right_neutral lval_append lval_replicate_0 mult_0_right)
qed

lemma length_trimmed: "length (trimmed xs) \<le> length xs"
  by (simp add: trimmed_def length_dropWhile_le [THEN order_trans])

lemma set_trimmed: "set (trimmed xs) \<subseteq> set xs"
  by (auto simp: trimmed_def dest: set_dropWhileD)

lemma trimmed_last: "trimmed xs \<noteq> [] \<Longrightarrow> last (trimmed xs) \<noteq> 0"
  using hd_dropWhile [of "\<lambda>x. x = 0" "rev xs"] by (auto simp: trimmed_def last_rev)

lemma trimmed_idem [simp]: "trimmed (trimmed xs) = trimmed xs"
  by (simp add: trimmed_def)

lemma lval_last_ge: "xs \<noteq> [] \<Longrightarrow> last xs \<noteq> 0 \<Longrightarrow> 0 < B \<Longrightarrow> B ^ (length xs - 1) \<le> lval B xs"
proof (induction xs)
  case (Cons x xs)
  show ?case
  proof (cases "xs = []")
    case True
    with Cons.prems show ?thesis by (simp add: Suc_le_eq unat_gt_0)
  next
    case False
    with Cons have "B ^ (length xs - 1) \<le> lval B xs" by auto
    then have "B * B ^ (length xs - 1) \<le> B * lval B xs" by (rule mult_le_mono2)
    moreover have "B ^ (length (x # xs) - 1) = B * B ^ (length xs - 1)"
      using False by (cases xs) auto
    ultimately show ?thesis by (simp only: lval.simps trans_le_add2)
  qed
qed simp

lemma trimmed_pos:
  assumes "trimmed xs \<noteq> []" and "0 < B"
  shows "0 < lval B xs"
proof -
  have "B ^ (length (trimmed xs) - 1) \<le> lval B (trimmed xs)"
    using assms trimmed_last by (intro lval_last_ge) auto
  moreover have "0 < B ^ (length (trimmed xs) - 1)" using assms(2) by simp
  ultimately show ?thesis by (simp only: lval_trimmed)
qed

lemma trimmed_zero: "lval B xs = 0 \<Longrightarrow> 0 < B \<Longrightarrow> trimmed xs = []"
  using trimmed_pos [of xs B] by (cases "trimmed xs = []") auto

section \<open>Repeated division\<close>

lemma div_pass_rem: "snd (div_pass ls) < 1000000000"
  by (cases ls) (auto simp: DEC_BASE_def Let_def split: prod.split)

lemma div_pass_value:
  "div_pass ls = (qs, r) \<Longrightarrow> bval ls = 1000000000 * bval qs + r"
proof (induction ls arbitrary: qs r)
  case (Cons l ls)
  obtain qs1 r1 where rec: "div_pass ls = (qs1, r1)" by fastforce
  define cur where "cur = r1 * 2 ^ 32 + unat l"
  have r1: "r1 < 1000000000" using div_pass_rem [of ls] rec by simp
  have "unat l < 2 ^ 32" using unsigned_less [of l, where ?'a = nat] by simp
  then have "cur < 1000000000 * 2 ^ 32" using r1 unfolding cur_def by simp
  then have q: "unat (of_nat (cur div 1000000000) :: u32) = cur div 1000000000"
    by (simp add: unsigned_of_nat take_bit_nat_eq_self less_mult_imp_div_less)
  have "qs = of_nat (cur div 1000000000) # qs1" "r = cur mod 1000000000"
    using Cons.prems rec by (auto simp: DEC_BASE_def Let_def cur_def)
  then have "1000000000 * bval qs + r = cur + 2 ^ 32 * (1000000000 * bval qs1)"
    using q by (simp add: algebra_simps)
  also have "\<dots> = bval (l # ls)"
    using Cons.IH [OF rec] by (simp add: cur_def algebra_simps)
  finally show ?case by simp
qed simp

lemma length_div_pass: "length (fst (div_pass ls)) = length ls"
  by (induction ls) (auto simp: Let_def split: prod.split)

function to_decimal_limbs_loop :: "u32 list \<Rightarrow> u32 list" where
  "to_decimal_limbs_loop limbs =
     (if limbs = [] then []
      else case div_pass limbs of (q, r) \<Rightarrow> of_nat r # to_decimal_limbs_loop (trimmed q))"
  by pat_completeness auto
termination
proof (relation "measures [bval, length]", goal_cases)
  case (2 limbs q r)
  then have qr: "div_pass limbs = (q, r)" by simp
  note v = div_pass_value [OF qr]
  show ?case
  proof (cases "bval limbs = 0")
    case True
    with v have "trimmed q = []" by (intro trimmed_zero [of 4294967296]) auto
    with 2 True show ?thesis by simp
  next
    case False
    with v have "bval q < bval limbs" by (cases "bval q = 0") auto
    then show ?thesis by simp
  qed
qed simp

declare to_decimal_limbs_loop.simps [simp del]

definition to_decimal_limbs_by_division :: "u32 list \<Rightarrow> u32 list" where
  "to_decimal_limbs_by_division limbs = to_decimal_limbs_loop (trimmed limbs)"

text \<open>Decimal limbs: every limb below the base.\<close>

definition dlimbs :: "u32 list \<Rightarrow> bool" where
  "dlimbs ds \<longleftrightarrow> (\<forall>d \<in> set ds. unat d < 1000000000)"

lemma dlimbs_simps [simp]:
  "dlimbs []" "dlimbs (d # ds) \<longleftrightarrow> unat d < 1000000000 \<and> dlimbs ds"
  "dlimbs (xs @ ys) \<longleftrightarrow> dlimbs xs \<and> dlimbs ys"
  by (auto simp: dlimbs_def)

lemma dlimbs_replicate [simp]: "dlimbs (replicate n 0)"
  by (simp add: dlimbs_def)

lemma dlimbs_trimmed [simp]: "dlimbs ds \<Longrightarrow> dlimbs (trimmed ds)"
  using set_trimmed [of ds] by (auto simp: dlimbs_def)

lemma dlimbs_take [simp]: "dlimbs ds \<Longrightarrow> dlimbs (take n ds)"
  by (auto simp: dlimbs_def dest: in_set_takeD)

lemma dlimbs_drop [simp]: "dlimbs ds \<Longrightarrow> dlimbs (drop n ds)"
  by (auto simp: dlimbs_def dest: in_set_dropD)

lemma unat_of_small: "n < 2 ^ 32 \<Longrightarrow> unat (of_nat n :: u32) = n"
  by (simp add: unsigned_of_nat take_bit_nat_eq_self)

lemma to_decimal_limbs_loop_ok:
  "dlimbs (to_decimal_limbs_loop ls) \<and> dval (to_decimal_limbs_loop ls) = bval ls"
proof (induction ls rule: to_decimal_limbs_loop.induct)
  case (1 ls)
  show ?case
  proof (cases "ls = []")
    case True
    then show ?thesis by (simp add: to_decimal_limbs_loop.simps)
  next
    case False
    obtain q r where qr: "div_pass ls = (q, r)" by fastforce
    have "r < 1000000000" using div_pass_rem [of ls] qr by simp
    then have "unat (of_nat r :: u32) = r" by (simp add: unat_of_small)
    with 1 [OF False qr [symmetric]] False qr \<open>r < _\<close> div_pass_value [OF qr] show ?thesis
      by (simp add: to_decimal_limbs_loop.simps [of ls])
  qed
qed

lemma by_division_ok:
  "dlimbs (to_decimal_limbs_by_division ls) \<and> dval (to_decimal_limbs_by_division ls) = bval ls"
  by (simp add: to_decimal_limbs_by_division_def to_decimal_limbs_loop_ok)

section \<open>Addition\<close>

text \<open>The carry loop of \<^verbatim>\<open>decimal_add_at\<close> over \<^verbatim>\<open>acc[end..]\<close>, and the final push.\<close>

fun dec_carry :: "u32 list \<Rightarrow> u32 \<Rightarrow> u32 list" where
  "dec_carry [] carry = (if carry \<noteq> 0 then [carry] else [])"
| "dec_carry (a # as) carry =
     (if carry = 0 then a # as
      else let s = a + carry; c = (if s \<ge> DEC_BASE then 1 else 0) in
        (s - c * DEC_BASE) # dec_carry as c)"

text \<open>The loop over \<^verbatim>\<open>acc[shift..end]\<close> zipped with \<^verbatim>\<open>x\<close>.\<close>

fun dec_add :: "u32 list \<Rightarrow> u32 list \<Rightarrow> u32 \<Rightarrow> u32 list" where
  "dec_add (a # as) (d # ds) carry =
     (let s = a + d + carry; c = (if s \<ge> DEC_BASE then 1 else 0) in
      (s - c * DEC_BASE) # dec_add as ds c)"
| "dec_add as ds carry = dec_carry as carry"

definition decimal_add_at :: "u32 list \<Rightarrow> u32 list \<Rightarrow> nat \<Rightarrow> u32 list" where
  "decimal_add_at acc x shift =
     (let x = trimmed x in
      if x = [] then acc
      else let acc1 = acc @ replicate (shift + length x - length acc) 0 in
        take shift acc1 @ dec_add (drop shift acc1) x 0)"

text \<open>
  One limb of an addition: with limbs below the base and a carry of at most one, the 32-bit sum
  does not wrap, and the limb and the carry it leaves are the base-\<open>10^9\<close> digit and carry.
\<close>

lemma limb_add:
  fixes s t :: u32
  assumes "unat s + unat t < 2000000000"
  defines "c \<equiv> (if s + t \<ge> DEC_BASE then 1 else 0 :: u32)"
  shows "unat (s + t - c * DEC_BASE) + 1000000000 * unat c = unat s + unat t"
    and "unat (s + t - c * DEC_BASE) < 1000000000" and "unat c \<le> 1"
proof -
  have s: "unat (s + t) = unat s + unat t"
    using assms(1) by (intro unat_add_lem [THEN iffD1]) simp
  show "unat c \<le> 1" by (simp add: c_def)
  show "unat (s + t - c * DEC_BASE) + 1000000000 * unat c = unat s + unat t"
    "unat (s + t - c * DEC_BASE) < 1000000000"
    using assms(1) s by (auto simp: c_def DEC_BASE_def word_le_nat_alt unat_sub)
qed

lemma dec_carry_ok:
  assumes "dlimbs as" and "unat c \<le> 1"
  shows "dlimbs (dec_carry as c) \<and> dval (dec_carry as c) = dval as + unat c"
  using assms
proof (induction as c rule: dec_carry.induct)
  case (2 a as carry)
  let ?c = "if a + carry \<ge> DEC_BASE then 1 else 0 :: u32"
  show ?case
  proof (cases "carry = 0")
    case True
    with 2 show ?thesis by simp
  next
    case False
    have "unat a + unat carry < 2000000000" using "2.prems" by simp
    note l = limb_add [OF this]
    have "dlimbs (dec_carry as ?c) \<and> dval (dec_carry as ?c) = dval as + unat ?c"
      using "2.prems" False by (intro "2.IH") auto
    with l False show ?thesis by (simp add: Let_def algebra_simps)
  qed
qed simp

lemma dec_add_ok:
  assumes "dlimbs as" and "dlimbs ds" and "length ds \<le> length as" and "unat c \<le> 1"
  shows "dlimbs (dec_add as ds c) \<and> dval (dec_add as ds c) = dval as + dval ds + unat c"
  using assms
proof (induction as ds c rule: dec_add.induct)
  case (1 a as d ds carry)
  let ?c = "if a + d + carry \<ge> DEC_BASE then 1 else 0 :: u32"
  have ad: "unat (a + d) = unat a + unat d"
    using "1.prems" by (intro unat_add_lem [THEN iffD1]) simp
  have "unat (a + d) + unat carry < 2000000000" using "1.prems" ad by simp
  note l = limb_add [OF this]
  have "dlimbs (dec_add as ds ?c) \<and> dval (dec_add as ds ?c) = dval as + dval ds + unat ?c"
    using "1.prems" by (intro "1.IH") auto
  with l ad show ?case by (simp add: Let_def algebra_simps)
qed (auto simp: dec_carry_ok)

lemma decimal_add_at_ok:
  assumes "dlimbs acc" and "dlimbs x"
  shows "dlimbs (decimal_add_at acc x shift) \<and>
    dval (decimal_add_at acc x shift) = dval acc + 1000000000 ^ shift * dval x"
proof (cases "trimmed x = []")
  case True
  then have "dval x = 0" by (metis lval.simps(1) lval_trimmed)
  with True assms show ?thesis by (simp add: decimal_add_at_def)
next
  case False
  define acc1 where "acc1 = acc @ replicate (shift + length (trimmed x) - length acc) 0"
  have d1: "dlimbs acc1" "dval acc1 = dval acc" using assms by (auto simp: acc1_def lval_append)
  have len: "shift + length (trimmed x) \<le> length acc1" by (simp add: acc1_def)
  have "dlimbs (dec_add (drop shift acc1) (trimmed x) 0) \<and>
      dval (dec_add (drop shift acc1) (trimmed x) 0) = dval (drop shift acc1) + dval (trimmed x) + unat (0::u32)"
    using d1 assms len by (intro dec_add_ok) auto
  moreover have "dval acc1 = dval (take shift acc1) + 1000000000 ^ shift * dval (drop shift acc1)"
    using lval_append [of 1000000000 "take shift acc1" "drop shift acc1"] len by simp
  ultimately show ?thesis
    using False d1 len by (simp add: decimal_add_at_def Let_def lval_append algebra_simps flip: acc1_def)
qed

lemma length_dec_carry: "length (dec_carry as c) \<le> Suc (length as)"
  by (induction as c rule: dec_carry.induct) (auto simp: Let_def)

lemma length_dec_add: "length (dec_add as ds c) \<le> Suc (length as)"
  by (induction as ds c rule: dec_add.induct) (auto simp: Let_def length_dec_carry)

lemma length_decimal_add_at:
  "length (decimal_add_at acc x shift) \<le> Suc (max (length acc) (shift + length x))"
proof (cases "trimmed x = []")
  case False
  define l where "l = acc @ replicate (shift + length (trimmed x) - length acc) 0"
  have "length l \<le> max (length acc) (shift + length x)" "shift \<le> length l"
    using length_trimmed [of x] by (auto simp: l_def)
  moreover have "length (dec_add (drop shift l) (trimmed x) 0) \<le> Suc (length l - shift)"
    using length_dec_add [of "drop shift l" "trimmed x" 0] by simp
  ultimately show ?thesis using False by (simp add: decimal_add_at_def Let_def flip: l_def)
qed (simp add: decimal_add_at_def)

section \<open>Subtraction\<close>

fun dec_borrow :: "u32 list \<Rightarrow> u32 \<Rightarrow> u32 list" where
  "dec_borrow [] borrow = []"
| "dec_borrow (a # as) borrow =
     (if borrow = 0 then a # as
      else let b = (if a = 0 then 1 else 0) in (a + b * DEC_BASE - 1) # dec_borrow as b)"

fun dec_sub :: "u32 list \<Rightarrow> u32 list \<Rightarrow> u32 \<Rightarrow> u32 list" where
  "dec_sub (a # as) (d # ds) borrow =
     (let sub = d + borrow; b = (if a < sub then 1 else 0) in
      (a + b * DEC_BASE - sub) # dec_sub as ds b)"
| "dec_sub as ds borrow = dec_borrow as borrow"

definition decimal_sub :: "u32 list \<Rightarrow> u32 list \<Rightarrow> u32 list" where
  "decimal_sub acc x = dec_sub acc (trimmed x) 0"

lemma limb_sub:
  fixes a t :: u32
  assumes "unat a < 1000000000" and "unat t \<le> 1000000000"
  defines "b \<equiv> (if a < t then 1 else 0 :: u32)"
  shows "unat (a + b * DEC_BASE - t) + unat t = unat a + 1000000000 * unat b"
    and "unat (a + b * DEC_BASE - t) < 1000000000" and "unat b \<le> 1"
proof -
  have s: "unat (a + DEC_BASE) = unat a + 1000000000"
    using assms(1) by (subst unat_add_lem [THEN iffD1]) (auto simp: DEC_BASE_def)
  show "unat b \<le> 1" by (simp add: b_def)
  show "unat (a + b * DEC_BASE - t) + unat t = unat a + 1000000000 * unat b"
    "unat (a + b * DEC_BASE - t) < 1000000000"
    using assms(1,2) s by (auto simp: b_def word_less_nat_alt word_le_nat_alt unat_sub not_less)
qed

lemma dec_borrow_ok:
  assumes "dlimbs as" and "unat b \<le> 1"
  shows "dlimbs (dec_borrow as b) \<and> length (dec_borrow as b) = length as \<and>
    (\<exists>k \<le> 1. dval (dec_borrow as b) + unat b = dval as + k * 1000000000 ^ length as)"
  using assms
proof (induction as b rule: dec_borrow.induct)
  case (1 b)
  then show ?case by (intro conjI exI [of _ "unat b"]) auto
next
  case (2 a as borrow)
  let ?b = "if a = 0 then 1 else 0 :: u32"
  show ?case
  proof (cases "borrow = 0")
    case True
    with 2 show ?thesis by auto
  next
    case False
    then have b1: "unat borrow = 1" using "2.prems"(2) unat_gt_0 [of borrow] by linarith
    have lt: "(a < 1) = (a = 0)" by (simp add: word_less_nat_alt unat_eq_0)
    have "unat a < 1000000000" using "2.prems" by simp
    note l = limb_sub [OF this, of 1, unfolded lt]
    have "dlimbs (dec_borrow as ?b) \<and> length (dec_borrow as ?b) = length as \<and>
        (\<exists>k \<le> 1. dval (dec_borrow as ?b) + unat ?b = dval as + k * 1000000000 ^ length as)"
      using "2.prems" l(3) False by (intro "2.IH") auto
    then obtain k where k: "k \<le> 1"
        "dval (dec_borrow as ?b) + unat ?b = dval as + k * 1000000000 ^ length as"
      and d: "dlimbs (dec_borrow as ?b)" "length (dec_borrow as ?b) = length as"
      by blast
    have "dval (dec_borrow (a # as) borrow) + unat borrow
        = dval (a # as) + k * 1000000000 ^ length (a # as)"
      using l(1) k(2) False b1 by (simp add: Let_def algebra_simps)
    with k(1) d l False show ?thesis by (auto simp: Let_def)
  qed
qed

lemma dec_sub_ok:
  assumes "dlimbs as" and "dlimbs ds" and "length ds \<le> length as" and "unat b \<le> 1"
  shows "dlimbs (dec_sub as ds b) \<and> length (dec_sub as ds b) = length as \<and>
    (\<exists>k \<le> 1. dval (dec_sub as ds b) + dval ds + unat b = dval as + k * 1000000000 ^ length as)"
  using assms
proof (induction as ds b rule: dec_sub.induct)
  case (1 a as d ds borrow)
  have t: "unat (d + borrow) = unat d + unat borrow"
    using "1.prems" by (intro unat_add_lem [THEN iffD1]) simp
  let ?b = "if a < d + borrow then 1 else 0 :: u32"
  have "unat a < 1000000000" "unat (d + borrow) \<le> 1000000000" using "1.prems" t by auto
  note l = limb_sub [OF this]
  have "dlimbs (dec_sub as ds ?b) \<and> length (dec_sub as ds ?b) = length as \<and>
      (\<exists>k \<le> 1. dval (dec_sub as ds ?b) + dval ds + unat ?b = dval as + k * 1000000000 ^ length as)"
    using "1.prems" l(3) by (intro "1.IH") auto
  then obtain k where k: "k \<le> 1"
      "dval (dec_sub as ds ?b) + dval ds + unat ?b = dval as + k * 1000000000 ^ length as"
    and d: "dlimbs (dec_sub as ds ?b)" "length (dec_sub as ds ?b) = length as"
    by blast
  have "dval (dec_sub (a # as) (d # ds) borrow) + dval (d # ds) + unat borrow
      = dval (a # as) + k * 1000000000 ^ length (a # as)"
    using l(1) k(2) t by (simp add: Let_def algebra_simps)
  with k(1) d l show ?case by (auto simp: Let_def)
qed (auto dest: dec_borrow_ok)

lemma dval_less: "dlimbs ds \<Longrightarrow> dval ds < 1000000000 ^ length ds"
proof (induction ds)
  case (Cons d ds)
  then have "dval ds + 1 \<le> 1000000000 ^ length ds" by simp
  then have "1000000000 * (dval ds + 1) \<le> 1000000000 * 1000000000 ^ length ds"
    by (rule mult_le_mono2)
  with Cons.prems show ?case by simp
qed simp

lemma decimal_sub_ok:
  assumes "dlimbs acc" and "dlimbs x" and "dval x \<le> dval acc"
  shows "dlimbs (decimal_sub acc x)" and "dval (decimal_sub acc x) = dval acc - dval x"
proof -
  have "length (trimmed x) \<le> length acc"
  proof (rule ccontr)
    assume "\<not> length (trimmed x) \<le> length acc"
    then have "trimmed x \<noteq> []" and "length acc \<le> length (trimmed x) - 1" by auto
    then have "1000000000 ^ length acc \<le> (1000000000 :: nat) ^ (length (trimmed x) - 1)"
      by (simp add: power_increasing)
    also have "\<dots> \<le> dval (trimmed x)"
      using \<open>trimmed x \<noteq> []\<close> trimmed_last by (intro lval_last_ge) auto
    finally show False using assms(3) dval_less [OF assms(1)] by simp
  qed
  then obtain k where d: "dlimbs (decimal_sub acc x)" "length (decimal_sub acc x) = length acc"
    and k: "dval (decimal_sub acc x) + dval x = dval acc + k * 1000000000 ^ length acc"
    using dec_sub_ok [of acc "trimmed x" 0] assms by (auto simp: decimal_sub_def)
  have "dval (decimal_sub acc x) < 1000000000 ^ length acc" using dval_less [OF d(1)] d(2) by simp
  with k assms(3) have "k * 1000000000 ^ length acc < 1 * 1000000000 ^ length acc" by linarith
  then have "k = 0" by (simp only: mult_less_cancel2) simp
  with k show "dval (decimal_sub acc x) = dval acc - dval x" by simp
  show "dlimbs (decimal_sub acc x)" by (rule d)
qed

section \<open>Multiplication\<close>

text \<open>The two inner loops of \<^verbatim>\<open>decimal_mul_schoolbook\<close> on \<^verbatim>\<open>out[i..]\<close>; the carry is a \<^verbatim>\<open>u64\<close>.\<close>

fun mul_carry :: "u32 list \<Rightarrow> u64 \<Rightarrow> u32 list" where
  "mul_carry [] carry = []"
| "mul_carry (o1 # os) carry =
     (if carry = 0 then o1 # os
      else let t = ucast o1 + carry in
        ucast (t mod ucast DEC_BASE) # mul_carry os (t div ucast DEC_BASE))"

fun mul_row :: "u32 \<Rightarrow> u32 list \<Rightarrow> u32 list \<Rightarrow> u64 \<Rightarrow> u32 list" where
  "mul_row x (y # ys) (o1 # os) carry =
     (let t = ucast o1 + ucast x * ucast y + carry in
      ucast (t mod ucast DEC_BASE) # mul_row x ys os (t div ucast DEC_BASE))"
| "mul_row x ys os carry = mul_carry os carry"

fun mul_rows :: "nat \<Rightarrow> u32 list \<Rightarrow> u32 list \<Rightarrow> u32 list \<Rightarrow> u32 list" where
  "mul_rows i [] b out = out"
| "mul_rows i (x # xs) b out =
     mul_rows (Suc i) xs b (if x = 0 then out else take i out @ mul_row x b (drop i out) 0)"

definition decimal_mul_schoolbook :: "u32 list \<Rightarrow> u32 list \<Rightarrow> u32 list" where
  "decimal_mul_schoolbook a b = mul_rows 0 a b (replicate (length a + length b) 0)"

lemma u64_step:
  fixes t :: u64
  shows "unat (ucast (t mod ucast DEC_BASE) :: u32) = unat t mod 1000000000"
    and "unat (t div ucast DEC_BASE) = unat t div 1000000000"
proof -
  have b: "ucast DEC_BASE = (1000000000 :: u64)" by (simp add: DEC_BASE_def)
  have "unat (t mod 1000000000) < 2 ^ 32"
    using mod_less_divisor [of 1000000000 "unat t"] by (simp add: unat_mod del: mod_less_divisor)
  then show "unat (ucast (t mod ucast DEC_BASE) :: u32) = unat t mod 1000000000"
    unfolding b by (simp add: unsigned_ucast_eq take_bit_nat_eq_self unat_mod)
  show "unat (t div ucast DEC_BASE) = unat t div 1000000000"
    unfolding b by (simp add: unat_div)
qed

lemma mul_step_no_wrap:
  assumes "unat (o1::u32) < 1000000000" "unat (x::u32) < 1000000000" "unat (y::u32) < 1000000000"
    and "unat c < 1000000000"
  shows "unat (ucast o1 + ucast x * ucast y + c :: u64) = unat o1 + unat x * unat y + unat c"
proof -
  have "unat x * unat y \<le> 999999999 * 999999999" using assms by (intro mult_le_mono) auto
  then show ?thesis using assms
    by (simp add: unat_word_ariths unsigned_ucast_eq take_bit_nat_eq_self)
qed

lemma digit_mod: "0 < B \<Longrightarrow> (t + B * q) mod (B * M) = t mod B + B * ((q + t div B) mod M)" for B :: nat
  by (simp add: mod_mult2_eq)

lemma mul_carry_ok:
  assumes "dlimbs os" and "unat c < 1000000000"
  shows "dlimbs (mul_carry os c) \<and> length (mul_carry os c) = length os \<and>
    dval (mul_carry os c) = (dval os + unat c) mod 1000000000 ^ length os"
  using assms
proof (induction os c rule: mul_carry.induct)
  case (2 o1 os carry)
  show ?case
  proof (cases "carry = 0")
    case True
    then show ?thesis using "2.prems" dval_less [of "o1 # os"] by simp
  next
    case False
    let ?t = "ucast o1 + carry :: u64"
    have t: "unat ?t = unat o1 + unat carry"
      using mul_step_no_wrap [of o1 0 0 carry] "2.prems" by simp
    have "dlimbs (mul_carry os (?t div ucast DEC_BASE)) \<and>
        length (mul_carry os (?t div ucast DEC_BASE)) = length os \<and>
        dval (mul_carry os (?t div ucast DEC_BASE)) =
          (dval os + unat (?t div ucast DEC_BASE)) mod 1000000000 ^ length os"
      using "2.prems" t by (intro "2.IH" [OF False refl]) (auto simp: u64_step)
    moreover have "(dval (o1 # os) + unat carry) mod 1000000000 ^ length (o1 # os) =
        (unat ?t + 1000000000 * dval os) mod (1000000000 * 1000000000 ^ length os)"
      using t by (simp add: algebra_simps)
    ultimately show ?thesis
      using False by (simp add: Let_def u64_step digit_mod del: lval.simps(2)) (simp add: u64_step)
  qed
qed simp

lemma mul_row_ok:
  assumes "dlimbs os" and "dlimbs ys" and "unat x < 1000000000" and "unat c < 1000000000"
    and "length ys \<le> length os"
  shows "dlimbs (mul_row x ys os c) \<and> length (mul_row x ys os c) = length os \<and>
    dval (mul_row x ys os c) = (dval os + unat x * dval ys + unat c) mod 1000000000 ^ length os"
  using assms
proof (induction x ys os c rule: mul_row.induct)
  case (1 x y ys o1 os carry)
  let ?t = "ucast o1 + ucast x * ucast y + carry :: u64"
  have t: "unat ?t = unat o1 + unat x * unat y + unat carry"
    using "1.prems" by (intro mul_step_no_wrap) auto
  have "unat x * unat y \<le> 999999999 * 999999999" using "1.prems" by (intro mult_le_mono) auto
  then have "unat ?t < 1000000000 * 1000000000" using t "1.prems" by simp
  then have "unat ?t div 1000000000 < 1000000000" by (rule less_mult_imp_div_less)
  moreover define rest where "rest = mul_row x ys os (?t div ucast DEC_BASE)"
  ultimately have rest: "dlimbs rest" "length rest = length os"
    "dval rest = (dval os + unat x * dval ys + unat ?t div 1000000000) mod 1000000000 ^ length os"
    using "1.IH" [OF refl] "1.prems" by (simp_all add: u64_step)
  have eq: "mul_row x (y # ys) (o1 # os) carry = ucast (?t mod ucast DEC_BASE) # rest"
    by (simp add: rest_def Let_def)
  have "dval (mul_row x (y # ys) (o1 # os) carry)
      = (unat ?t + 1000000000 * (dval os + unat x * dval ys)) mod (1000000000 * 1000000000 ^ length os)"
    unfolding eq by (simp only: lval.simps u64_step rest(3) digit_mod zero_less_numeral)
  also have "unat ?t + 1000000000 * (dval os + unat x * dval ys)
      = dval (o1 # os) + unat x * dval (y # ys) + unat carry"
    using t by (simp add: algebra_simps)
  finally show ?case using rest(1,2) eq by (simp add: u64_step del: lval.simps)
qed (auto simp: mul_carry_ok)

lemma mul_rows_ok:
  assumes "dlimbs a" and "dlimbs b" and "dlimbs out" and "length out = i + length a + length b"
    and "dval out < 1000000000 ^ (i + length b)"
  shows "dlimbs (mul_rows i a b out) \<and> dval (mul_rows i a b out) = dval out + 1000000000 ^ i * dval a * dval b"
  using assms
proof (induction i a b out rule: mul_rows.induct)
  case (2 i x xs b out)
  let ?B = "1000000000 :: nat"
  define row where "row = mul_row x b (drop i out) 0"
  have dec: "dval out = dval (take i out) + ?B ^ i * dval (drop i out)"
    using lval_append [of ?B "take i out" "drop i out"] "2.prems" by simp
  have x: "unat x < ?B" using "2.prems" by simp
  have db: "dval b < ?B ^ length b" using "2.prems" by (intro dval_less) auto
  have "?B ^ i * dval (drop i out) < ?B ^ i * ?B ^ length b"
    using dec "2.prems"(5) by (simp only: power_add)
  then have do: "dval (drop i out) < ?B ^ length b" by simp
  have xb: "unat x * dval b \<le> 999999999 * ?B ^ length b" using x db by (intro mult_le_mono) auto
  have r: "dlimbs row \<and> length row = length (drop i out) \<and>
     dval row = (dval (drop i out) + unat x * dval b + unat (0::u64)) mod ?B ^ length (drop i out)"
    unfolding row_def using "2.prems" by (intro mul_row_ok) auto
  have "dval (drop i out) + unat x * dval b < ?B ^ Suc (length b)" using do xb by simp
  also have "\<dots> \<le> ?B ^ length (drop i out)" using "2.prems"(4) by (intro power_increasing) auto
  finally have rv: "dval row = dval (drop i out) + unat x * dval b" using r by simp
  define out1 where "out1 = (if x = 0 then out else take i out @ row)"
  have v: "dval out1 = dval out + ?B ^ i * (unat x * dval b)"
    using rv dec "2.prems" by (auto simp: out1_def lval_append algebra_simps)
  have "?B ^ i * (unat x * dval b) \<le> ?B ^ i * (999999999 * ?B ^ length b)"
    using xb by (rule mult_le_mono2)
  moreover have "dval out < ?B ^ i * ?B ^ length b" using "2.prems"(5) by (simp only: power_add)
  ultimately have "dval out1 < ?B * (?B ^ i * ?B ^ length b)" using v by linarith
  then have "dval out1 < ?B ^ (Suc i + length b)" by (simp only: power_add power_Suc mult.assoc)
  moreover have "dlimbs out1" "length out1 = Suc i + length xs + length b"
    using r "2.prems" by (auto simp: out1_def)
  ultimately have "dlimbs (mul_rows (Suc i) xs b out1) \<and>
      dval (mul_rows (Suc i) xs b out1) = dval out1 + ?B ^ Suc i * dval xs * dval b"
    using "2.IH" [folded row_def, folded out1_def] "2.prems" by auto
  moreover have "mul_rows i (x # xs) b out = mul_rows (Suc i) xs b out1"
    by (simp add: out1_def row_def)
  ultimately show ?case using v by (simp add: algebra_simps)
qed simp

lemma schoolbook_ok:
  assumes "dlimbs a" and "dlimbs b"
  shows "dlimbs (decimal_mul_schoolbook a b)" and "dval (decimal_mul_schoolbook a b) = dval a * dval b"
  using mul_rows_ok [OF assms, of "replicate (length a + length b) 0" 0]
  by (simp_all add: decimal_mul_schoolbook_def)

text \<open>Each of Karatsuba's three products is on operands of a smaller total length.\<close>

lemma karatsuba_sizes:
  assumes "32 \<le> (la::nat)" and "32 \<le> lb"
  defines "k \<equiv> max la lb div 2"
  shows "min la k + min lb k < la + lb" and "(la - k) + (lb - k) < la + lb"
    and "Suc (max (min la k) (la - k)) + Suc (max (min lb k) (lb - k)) < la + lb"
proof -
  have "2 * k \<le> max la lb" "max la lb \<le> 2 * k + 1" unfolding k_def by arith+
  then show "min la k + min lb k < la + lb" "(la - k) + (lb - k) < la + lb"
    "Suc (max (min la k) (la - k)) + Suc (max (min lb k) (lb - k)) < la + lb"
    using assms(1,2) by linarith+
qed

function decimal_mul :: "u32 list \<Rightarrow> u32 list \<Rightarrow> u32 list" where
  "decimal_mul a b =
     (let a = trimmed a; b = trimmed b in
      if min (length a) (length b) < KARATSUBA_MIN_LIMBS then decimal_mul_schoolbook a b
      else let
        k = max (length a) (length b) div 2;
        a0 = take k a; a1 = drop k a;
        b0 = take k b; b1 = drop k b;
        z0 = decimal_mul a0 b0;
        z2 = decimal_mul a1 b1;
        sa = decimal_add_at a0 a1 0;
        sb = decimal_add_at b0 b1 0;
        z1 = decimal_sub (decimal_sub (decimal_mul sa sb) z0) z2
      in decimal_add_at (decimal_add_at z0 z1 k) z2 (2 * k))"
  by pat_completeness auto
termination
proof (relation "measure (\<lambda>(a, b). length (trimmed a) + length (trimmed b))", goal_cases)
  case (2 a b x xa xb xc xd xe xf)
  then have "length xc + length xe < length x + length xa"
    using karatsuba_sizes(1) [of "length x" "length xa"] by (simp add: KARATSUBA_MIN_LIMBS_def)
  with 2(1,2) show ?case using length_trimmed [of xc] length_trimmed [of xe] by simp
next
  case (3 a b x xa xb xc xd xe xf xg)
  then have "length xd + length xf < length x + length xa"
    using karatsuba_sizes(2) [of "length x" "length xa"] by (simp add: KARATSUBA_MIN_LIMBS_def)
  with 3(1,2) show ?case using length_trimmed [of xd] length_trimmed [of xf] by simp
next
  case (4 a b x xa xb xc xd xe xf xg xh xi xj)
  from 4(3-8) have "Suc (max (length xc) (length xd)) + Suc (max (length xe) (length xf)) < length x + length xa"
    using karatsuba_sizes(3) [of "length x" "length xa"] by (simp add: KARATSUBA_MIN_LIMBS_def)
  moreover have "length xi \<le> Suc (max (length xc) (length xd))" "length xj \<le> Suc (max (length xe) (length xf))"
    using length_decimal_add_at [of xc xd 0] length_decimal_add_at [of xe xf 0]
    by (simp_all add: 4(11,12))
  ultimately show ?case
    using 4(1,2) length_trimmed [of xi] length_trimmed [of xj] by simp
qed simp

declare decimal_mul.simps [simp del]

lemma lval_split: "lval B xs = lval B (take k xs) + B ^ k * lval B (drop k xs)"
  using lval_append [of B "take k xs" "drop k xs"] by (cases "k \<le> length xs") auto

lemma decimal_mul_ok:
  "dlimbs a \<Longrightarrow> dlimbs b \<Longrightarrow> dlimbs (decimal_mul a b) \<and> dval (decimal_mul a b) = dval a * dval b"
proof (induction a b rule: decimal_mul.induct)
  case (1 a b)
  define ta tb where t: "ta = trimmed a" "tb = trimmed b"
  show ?case
  proof (cases "min (length ta) (length tb) < KARATSUBA_MIN_LIMBS")
    case True
    with "1.prems" show ?thesis
      by (simp add: decimal_mul.simps [of a b] t schoolbook_ok)
  next
    case False
    define k where "k = max (length ta) (length tb) div 2"
    define a0 a1 b0 b1 where s: "a0 = take k ta" "a1 = drop k ta" "b0 = take k tb" "b1 = drop k tb"
    define z0 z2 sa sb where z: "z0 = decimal_mul a0 b0" "z2 = decimal_mul a1 b1"
      "sa = decimal_add_at a0 a1 0" "sb = decimal_add_at b0 b1 0"
    have d: "dlimbs a0" "dlimbs a1" "dlimbs b0" "dlimbs b1" using "1.prems" by (simp_all add: s t)
    note IH = "1.IH" [OF t False k_def s]
    have z0: "dlimbs z0" "dval z0 = dval a0 * dval b0" using IH(1) d by (simp_all add: z)
    have z2: "dlimbs z2" "dval z2 = dval a1 * dval b1" using IH(2) [OF z(1)] d by (simp_all add: z)
    have sa: "dlimbs sa" "dval sa = dval a0 + dval a1" "dlimbs sb" "dval sb = dval b0 + dval b1"
      using decimal_add_at_ok d by (simp_all add: z)
    have m: "dlimbs (decimal_mul sa sb)" "dval (decimal_mul sa sb) = dval sa * dval sb"
      using IH(3) [OF z] sa by simp_all
    define y z1 where y: "y = decimal_sub (decimal_mul sa sb) z0" "z1 = decimal_sub y z2"
    have "dlimbs y \<and> dval y = dval sa * dval sb - dval z0"
      using decimal_sub_ok [OF m(1) z0(1)] m z0 sa by (simp add: y algebra_simps)
    then have "dlimbs z1 \<and> dval z1 = dval sa * dval sb - dval z0 - dval z2"
      using decimal_sub_ok [of y z2] z2 z0 sa by (simp add: y(2) algebra_simps)
    then have z1: "dlimbs z1" "dval z1 = dval a0 * dval b1 + dval a1 * dval b0"
      using z0 z2 sa by (simp_all add: algebra_simps)
    have "decimal_mul a b = decimal_add_at (decimal_add_at z0 z1 k) z2 (2 * k)"
      using False by (simp add: decimal_mul.simps [of a b] Let_def t k_def s z y)
    moreover have "dval a = dval a0 + 1000000000 ^ k * dval a1" "dval b = dval b0 + 1000000000 ^ k * dval b1"
      using lval_split [of _ ta k] lval_split [of _ tb k] by (simp_all add: s t)
    moreover have "(1000000000::nat) ^ (2 * k) = 1000000000 ^ k * 1000000000 ^ k"
      by (simp add: mult_2 power_add)
    ultimately show ?thesis
      using z0 z1 z2 decimal_add_at_ok [of z0 z1 k] decimal_add_at_ok [of "decimal_add_at z0 z1 k" z2 "2 * k"]
      by (simp add: algebra_simps)
  qed
qed

section \<open>Conversion\<close>

text \<open>The \<^verbatim>\<open>while\<close> loop of \<^verbatim>\<open>power_of_two_32\<close>: squares until entry \<open>j\<close> is cached.\<close>

function power_fill :: "nat \<Rightarrow> u32 list list \<Rightarrow> u32 list list" where
  "power_fill j pows =
     (if length pows \<le> j then
        (if pows = [] then pows
         else power_fill j (pows @ [trimmed (decimal_mul (last pows) (last pows))]))
      else pows)"
  by pat_completeness auto
termination by (relation "measure (\<lambda>(j, pows). Suc j - length pows)") auto

declare power_fill.simps [simp del]

definition power_of_two_32 :: "u32 list list \<Rightarrow> nat \<Rightarrow> u32 list list \<times> u32 list" where
  "power_of_two_32 pows j =
     (let pows1 = power_fill j (if pows = [] then [[294967296, 4]] else pows) in
      (pows1, if j < length pows1 then pows1 ! j else []))"

function to_decimal_limbs :: "u32 list \<Rightarrow> u32 list list \<Rightarrow> u32 list \<times> u32 list list" where
  "to_decimal_limbs limbs0 pows =
     (let limbs = trimmed limbs0 in
      if length limbs \<le> CONVERT_LEAF_LIMBS then (to_decimal_limbs_by_division limbs, pows)
      else let j = ilog2 (length limbs - 1) in
        case to_decimal_limbs (take (2 ^ j) limbs) pows of (lo, pows1) \<Rightarrow>
        case to_decimal_limbs (drop (2 ^ j) limbs) pows1 of (hi, pows2) \<Rightarrow>
        case power_of_two_32 pows2 j of (pows3, p) \<Rightarrow>
          (decimal_add_at (decimal_mul hi p) lo 0, pows3))"
  by pat_completeness auto
termination
proof (relation "measure (\<lambda>(limbs, pows). length (trimmed limbs))", goal_cases)
  case (2 limbs0 pows limbs j)
  then have "0 < length limbs - 1" by (simp add: CONVERT_LEAF_LIMBS_def)
  then have "2 ^ j \<le> length limbs - 1" using ilog2_bounds 2 by blast
  with 2 \<open>0 < length limbs - 1\<close> show ?case using length_trimmed [of "take (2 ^ j) limbs"] by simp
next
  case (3 limbs0 pows limbs j lo pows1)
  have "(0::nat) < 2 ^ j" by simp
  with 3(1,2) have "length (drop (2 ^ j) limbs) < length limbs"
    unfolding CONVERT_LEAF_LIMBS_def length_drop by linarith
  with 3(1) length_trimmed [of "drop (2 ^ j) limbs"] show ?case by simp
qed simp

declare to_decimal_limbs.simps [simp del]

text \<open>The cache holds the powers it claims to hold.\<close>

definition pows_ok :: "u32 list list \<Rightarrow> bool" where
  "pows_ok pows \<longleftrightarrow> (\<forall>i < length pows. dlimbs (pows ! i) \<and> dval (pows ! i) = 2 ^ (32 * 2 ^ i))"

lemma pows_ok_snoc:
  assumes "pows_ok pows" and "pows \<noteq> []"
  shows "pows_ok (pows @ [trimmed (decimal_mul (last pows) (last pows))])"
proof -
  obtain n where n: "length pows = Suc n" using assms(2) by (cases "length pows") auto
  then have "last pows = pows ! n" by (simp add: last_conv_nth assms(2))
  then have l: "dlimbs (last pows)" "dval (last pows) = 2 ^ (32 * 2 ^ n)"
    using assms(1) n by (auto simp: pows_ok_def)
  have "(2::nat) ^ (32 * 2 ^ n) * 2 ^ (32 * 2 ^ n) = 2 ^ (32 * 2 ^ Suc n)"
    by (simp flip: power_add)
  then show ?thesis
    using assms(1) n decimal_mul_ok [OF l(1) l(1)] l(2) by (auto simp: pows_ok_def nth_append less_Suc_eq)
qed

lemma power_fill_ok:
  "pows_ok pows \<Longrightarrow> pows \<noteq> [] \<Longrightarrow> pows_ok (power_fill j pows) \<and> j < length (power_fill j pows)"
proof (induction j pows rule: power_fill.induct)
  case (1 j pows)
  show ?case
  proof (cases "length pows \<le> j")
    case True
    with 1 pows_ok_snoc show ?thesis by (simp add: power_fill.simps [of j pows])
  next
    case False
    with "1.prems" show ?thesis by (simp add: power_fill.simps [of j pows])
  qed
qed

lemma power_of_two_32_ok:
  assumes "pows_ok pows" and "power_of_two_32 pows j = (pows', p)"
  shows "pows_ok pows' \<and> dlimbs p \<and> dval p = 2 ^ (32 * 2 ^ j)"
proof -
  have "pows_ok [[294967296, 4]]" by (simp add: pows_ok_def)
  then have "pows_ok pows' \<and> j < length pows'"
    using assms power_fill_ok by (auto simp: power_of_two_32_def Let_def)
  then show ?thesis using assms by (auto simp: power_of_two_32_def Let_def pows_ok_def)
qed

lemma to_decimal_limbs_ok:
  "pows_ok pows \<Longrightarrow> to_decimal_limbs limbs pows = (out, pows') \<Longrightarrow>
    pows_ok pows' \<and> dlimbs out \<and> dval out = bval limbs"
proof (induction limbs pows arbitrary: out pows' rule: to_decimal_limbs.induct)
  case (1 limbs0 pows)
  define limbs where l: "limbs = trimmed limbs0"
  show ?case
  proof (cases "length limbs \<le> CONVERT_LEAF_LIMBS")
    case True
    with "1.prems" by_division_ok show ?thesis by (auto simp: to_decimal_limbs.simps [of limbs0] l)
  next
    case False
    define j where j: "j = ilog2 (length limbs - 1)"
    obtain lo pows1 where lo: "to_decimal_limbs (take (2 ^ j) limbs) pows = (lo, pows1)" by fastforce
    obtain hi pows2 where hi: "to_decimal_limbs (drop (2 ^ j) limbs) pows1 = (hi, pows2)" by fastforce
    obtain p where p: "power_of_two_32 pows2 j = (pows', p)"
      and out: "out = decimal_add_at (decimal_mul hi p) lo 0"
      using "1.prems"(2) False lo hi
      by (auto simp: to_decimal_limbs.simps [of limbs0] l j Let_def split: prod.splits)
    note L = "1.IH"(1) [OF l False j "1.prems"(1) lo]
    note H = "1.IH"(2) [OF l False j lo [symmetric] _ hi]
    have h: "pows_ok pows2" "dlimbs hi" "dval hi = bval (drop (2 ^ j) limbs)" using H L by auto
    note P = power_of_two_32_ok [OF h(1) p]
    have "bval limbs0 = bval (take (2 ^ j) limbs) + (2 ^ 32) ^ 2 ^ j * bval (drop (2 ^ j) limbs)"
      using lval_split [of 4294967296 limbs "2 ^ j"] by (simp add: l)
    moreover have "(2::nat) ^ (32 * 2 ^ j) = (2 ^ 32) ^ 2 ^ j" by (rule power_mult)
    ultimately show ?thesis
      using L h P decimal_mul_ok [of hi p] decimal_add_at_ok [of "decimal_mul hi p" lo 0]
      by (simp add: out algebra_simps)
  qed
qed

section \<open>The decimal text\<close>

text \<open>\<^verbatim>\<open>content.rchunks(4)\<close>: four bytes at a time from the end.\<close>

function rchunks4 :: "bytes \<Rightarrow> bytes list" where
  "rchunks4 bs = (if bs = [] then []
     else drop (length bs - 4) bs # rchunks4 (take (length bs - 4) bs))"
  by pat_completeness auto
termination by (relation "measure length") auto

declare rchunks4.simps [simp del]

text \<open>The carry loop of \<^verbatim>\<open>plus_one\<close>, with the push after it.\<close>

fun plus_one_loop :: "u32 list \<Rightarrow> bool \<Rightarrow> u32 list" where
  "plus_one_loop [] carry = (if carry then [1] else [])"
| "plus_one_loop (limb # ls) carry =
     (if \<not> carry then limb # ls else (limb + 1) # plus_one_loop ls (limb + 1 = 0))"

text \<open>\<^verbatim>\<open>{:09}\<close>\<close>

definition pad9 :: "u32 \<Rightarrow> string" where
  "pad9 d = (let s = show_nat (unat d) in replicate (9 - length s) (CHR ''0'') @ s)"

definition big_decimal :: "bytes \<Rightarrow> bool \<Rightarrow> string" where
  "big_decimal content plus_one =
     (let limbs0 = map be_fold (rchunks4 content);
          limbs = (if plus_one then plus_one_loop limbs0 True else limbs0);
          digits = fst (to_decimal_limbs limbs [])
      in case rev (trimmed digits) of
           [] \<Rightarrow> ''0''
         | t # rest \<Rightarrow> show_nat (unat t) @ concat (map pad9 rest))"

lemma bval_rchunks4: "bval (map be_fold (rchunks4 bs)) = be_nat bs"
proof (induction bs rule: rchunks4.induct)
  case (1 bs)
  show ?case
  proof (cases "bs = []")
    case True
    then show ?thesis by (simp add: rchunks4.simps be_nat_def)
  next
    case False
    define a c where "a = take (length bs - 4) bs" and "c = drop (length bs - 4) bs"
    have bs: "bs = a @ c" by (simp add: a_def c_def)
    have "unat (be_fold c :: u32) = be_nat c" by (rule unat_be_fold) (simp add: c_def)
    then have "bval (map be_fold (rchunks4 bs)) = be_nat c + 2 ^ 32 * be_nat a"
      using 1 [OF False] False by (simp add: rchunks4.simps [of bs] a_def c_def)
    moreover have "length c = 4 \<or> a = []" by (auto simp: a_def c_def)
    ultimately show ?thesis by (auto simp: bs be_nat_append)
  qed
qed

lemma plus_one_loop_ok: "bval (plus_one_loop ls c) = bval ls + of_bool c"
proof (induction ls c rule: plus_one_loop.induct)
  case (2 limb ls carry)
  show ?case
  proof (cases "limb + 1 = 0")
    case True
    then have "limb = - 1" by (simp add: eq_neg_iff_add_eq_0)
    then have "Suc (unat limb) = 4294967296" by (simp add: unsigned_minus_1_eq_mask mask_eq_exp_minus_1)
    with True 2 show ?thesis by (cases carry) auto
  next
    case False
    then have "unat (limb + 1) = unat limb + 1" by (simp add: add.commute unatSuc)
    with False 2 show ?thesis by (cases carry) auto
  qed
qed simp

lemma pad9_digits: "unat d < 1000000000 \<Longrightarrow> pad9 d = digits_of 9 (unat d)"
  unfolding pad9_def Let_def by (rule show_nat_padded) auto

lemma show_limbs:
  assumes "dlimbs (ds @ [t])" and "t \<noteq> 0"
  shows "show_nat (unat t) @ concat (map pad9 (rev ds)) = show_nat (dval (ds @ [t]))"
  using assms
proof (induction ds)
  case (Cons d ds)
  have "0 < 1000000000 ^ length ds * unat t" using Cons.prems by (simp add: unat_gt_0)
  then have "0 < dval (ds @ [t])" by (simp add: lval_append)
  with Cons show ?case
    using show_nat_shift [of "dval (ds @ [t])" "unat d" 9]
    by (simp add: pad9_digits algebra_simps)
qed simp

lemma big_decimal_correct: "big_decimal content p = show_nat (be_nat content + of_bool p)"
proof -
  define limbs0 :: "u32 list" where l0: "limbs0 = map be_fold (rchunks4 content)"
  define limbs where l: "limbs = (if p then plus_one_loop limbs0 True else limbs0)"
  have v: "bval limbs = be_nat content + of_bool p"
    by (simp add: l l0 bval_rchunks4 plus_one_loop_ok)
  obtain digits pows where dg: "to_decimal_limbs limbs [] = (digits, pows)" by fastforce
  have d: "dlimbs digits" "dval digits = bval limbs"
    using to_decimal_limbs_ok [OF _ dg] by (auto simp: pows_ok_def)
  show ?thesis
  proof (cases "rev (trimmed digits)")
    case Nil
    then have "dval digits = 0" by (metis lval.simps(1) lval_trimmed rev_is_Nil_conv)
    with d v have "be_nat content + of_bool p = 0" by simp
    moreover have "show_nat 0 = ''0''" by (simp add: show_nat.simps digit_char_def char_of_eq_iff)
    ultimately show ?thesis using Nil dg by (simp only: big_decimal_def Let_def flip: l0 l) simp
  next
    case (Cons t rest)
    then have tr: "trimmed digits = rev rest @ [t]" by (metis rev_eq_Cons_iff)
    have "dlimbs (rev rest @ [t])" "t \<noteq> 0"
      using d(1) trimmed_last [of digits] by (auto simp: tr [symmetric]) (simp add: tr)
    from show_limbs [OF this] have "show_nat (unat t) @ concat (map pad9 rest) = show_nat (dval digits)"
      by (simp flip: tr)
    with Cons v d dg show ?thesis by (simp only: big_decimal_def Let_def flip: l0 l) simp
  qed
qed

end
