(* ===== verification/Cbor_Dec.thy ===== *)
theory Cbor_Dec
  imports Cbor_Wellformed Cbor_Enc Cbor_Bigdec
begin

text \<open>
  \<^verbatim>\<open>crates/codec/src/dec.rs\<close>: pass 2 of decoding. A \<^verbatim>\<open>Dec {data, off}\<close> is represented by the unread
  suffix \<open>drop off data\<close> (empty when \<^verbatim>\<open>off\<close> has run past the end); every method takes the
  suffix and returns the one it leaves. Text is its UTF-8 bytes. An error ends the decoding, so the
  cursor that an error leaves behind is not part of the result.
\<close>

definition TAG_SELF_DESCRIBED :: u64 where "TAG_SELF_DESCRIBED = 55799"

datatype kind =
    KUint u64
  | KInt int int
  | KBool
  | KFloat
  | KString
  | KBytes
  | KSlice
  | KStruct

datatype fill =
    FNil
  | FUint u64
  | FInt int
  | FBool bool
  | FFloat u64
  | FString bytes
  | FBytes bytes
  | FArray
  | FMap

section \<open>The cursor\<close>

definition cur :: "bytes \<Rightarrow> byte" where
  "cur bs = (case bs of [] \<Rightarrow> 0 | b # _ \<Rightarrow> b)"

definition at_end :: "bytes \<Rightarrow> bool" where
  "at_end bs \<longleftrightarrow> bs = []"

definition remaining :: "bytes \<Rightarrow> nat" where
  "remaining bs = length bs"

definition peek_major :: "bytes \<Rightarrow> byte" where
  "peek_major bs = drop_bit 5 (cur bs)"

definition take_null :: "bytes \<Rightarrow> bool \<times> bytes" where
  "take_null bs = (if \<not> at_end bs \<and> (cur bs = 0xf6 \<or> cur bs = 0xf7) then (True, tl bs) else (False, bs))"

text \<open>\<^verbatim>\<open>for _ in 0..size { val = val << 8 | u64::from(self.cur()); self.off += 1 }\<close>\<close>

fun read_arg :: "nat \<Rightarrow> u64 \<Rightarrow> bytes \<Rightarrow> u64 \<times> bytes" where
  "read_arg 0 val bs = (val, bs)"
| "read_arg (Suc n) val bs = read_arg n (be_step val (cur bs)) (tl bs)"

definition dec_head :: "bytes \<Rightarrow> byte \<times> byte \<times> u64 \<times> bytes" where
  "dec_head bs =
     (let first = cur bs; bs1 = tl bs; ai = first AND 0x1f;
          arg = (\<lambda>n. case read_arg n 0 bs1 of (val, bs2) \<Rightarrow> (drop_bit 5 first, ai, val, bs2))
      in if ai = 24 then arg 1
         else if ai = 25 then arg 2
         else if ai = 26 then arg 4
         else if ai = 27 then arg 8
         else (drop_bit 5 first, ai, ucast ai, bs1))"

definition found_break :: "bytes \<Rightarrow> bool \<times> bytes" where
  "found_break bs = (if at_end bs then (True, bs) else if cur bs = 0xff then (True, tl bs) else (False, bs))"

definition dec_take :: "u64 \<Rightarrow> bytes \<Rightarrow> bytes \<times> bytes" where
  "dec_take n bs = (take (unat n) bs, drop (unat n) bs)"

lemma read_arg_drop: "snd (read_arg n v bs) = drop n bs"
  by (induction n v bs rule: read_arg.induct) (auto simp: drop_Suc)

lemma read_arg_suffix: "read_arg n v bs = (w, r) \<Longrightarrow> suffix r bs"
  using read_arg_drop [of n v bs] by (simp add: suffix_drop)

lemma read_arg_fold: "n \<le> length bs \<Longrightarrow> read_arg n v bs = (foldl be_step v (take n bs), drop n bs)"
  by (induction n v bs rule: read_arg.induct) (auto simp: cur_def take_Suc drop_Suc split: list.splits)

lemma dec_head_suffix: "dec_head bs = (m, ai, val, r) \<Longrightarrow> suffix r (tl bs)"
  by (auto simp: dec_head_def Let_def split: if_splits prod.splits dest: read_arg_suffix)

lemma dec_head_shorter: "dec_head bs = (m, ai, val, r) \<Longrightarrow> bs \<noteq> [] \<Longrightarrow> length r < length bs"
  by (drule dec_head_suffix) (cases bs, auto dest: suffix_length_le)

lemma dec_head_le: "dec_head bs = (m, ai, val, r) \<Longrightarrow> length r \<le> length bs"
  by (drule dec_head_suffix) (cases bs, auto dest: suffix_length_le)

lemma dec_head_major: "dec_head bs = (m, ai, val, r) \<Longrightarrow> m = peek_major bs \<and> ai = cur bs AND 0x1f"
  by (auto simp: dec_head_def Let_def peek_major_def split: if_splits prod.splits)

lemma peek_major_nonempty: "peek_major bs \<noteq> 0 \<Longrightarrow> bs \<noteq> []"
  by (auto simp: peek_major_def cur_def)

lemma found_break_False: "found_break bs = (False, r) \<Longrightarrow> r = bs \<and> bs \<noteq> [] \<and> cur bs \<noteq> 0xff"
  by (auto simp: found_break_def at_end_def split: if_splits)

section \<open>Strings\<close>

function byte_chunks :: "bytes \<Rightarrow> bytes \<Rightarrow> bytes \<times> bytes" where
  "byte_chunks out bs = (case found_break bs of
     (True, bs1) \<Rightarrow> (out, bs1)
   | (False, bs1) \<Rightarrow>
      (case dec_head bs1 of (_, _, n, bs2) \<Rightarrow>
       case dec_take n bs2 of (s, bs3) \<Rightarrow> byte_chunks (out @ s) bs3))"
  by pat_completeness auto
termination
  by (relation "measure (\<lambda>(out, bs). length bs)")
     (auto simp: dec_take_def dest!: found_break_False [OF sym] dec_head_shorter [OF sym])

declare byte_chunks.simps [simp del]

definition byte_string_body :: "byte \<Rightarrow> u64 \<Rightarrow> bytes \<Rightarrow> bytes \<times> bytes" where
  "byte_string_body ai val bs = (if ai \<noteq> 31 then dec_take val bs else byte_chunks [] bs)"

text \<open>\<^verbatim>\<open>std::str::from_utf8\<close>: the well-formed byte sequences of the Unicode standard (table 3-7).\<close>

definition utf8_cont :: "byte \<Rightarrow> bool" where
  "utf8_cont b \<longleftrightarrow> 0x80 \<le> b \<and> b \<le> 0xbf"

definition utf8_second :: "byte \<Rightarrow> byte \<Rightarrow> bool" where
  "utf8_second b c \<longleftrightarrow>
     (if b = 0xe0 then 0xa0 \<le> c \<and> c \<le> 0xbf
      else if b = 0xed then 0x80 \<le> c \<and> c \<le> 0x9f
      else if b = 0xf0 then 0x90 \<le> c \<and> c \<le> 0xbf
      else if b = 0xf4 then 0x80 \<le> c \<and> c \<le> 0x8f
      else utf8_cont c)"

fun utf8_valid :: "bytes \<Rightarrow> bool" where
  "utf8_valid [] = True"
| "utf8_valid (b # bs) =
     (if b < 0x80 then utf8_valid bs
      else if 0xc2 \<le> b \<and> b \<le> 0xdf then
        (case bs of c # r \<Rightarrow> utf8_cont c \<and> utf8_valid r | _ \<Rightarrow> False)
      else if 0xe0 \<le> b \<and> b \<le> 0xef then
        (case bs of c # d # r \<Rightarrow> utf8_second b c \<and> utf8_cont d \<and> utf8_valid r | _ \<Rightarrow> False)
      else if 0xf0 \<le> b \<and> b \<le> 0xf4 then
        (case bs of c # d # e # r \<Rightarrow> utf8_second b c \<and> utf8_cont d \<and> utf8_cont e \<and> utf8_valid r
         | _ \<Rightarrow> False)
      else False)"

function text_chunks :: "bytes \<Rightarrow> bytes \<Rightarrow> (decode_error, bytes \<times> bytes) outcome" where
  "text_chunks out bs = (case found_break bs of
     (True, bs1) \<Rightarrow> Ok (out, bs1)
   | (False, bs1) \<Rightarrow>
      (case dec_head bs1 of (_, _, n, bs2) \<Rightarrow>
       case dec_take n bs2 of (s, bs3) \<Rightarrow>
         if utf8_valid s then text_chunks (out @ s) bs3 else Err InvalidUtf8))"
  by pat_completeness auto
termination
  by (relation "measure (\<lambda>(out, bs). length bs)")
     (auto simp: dec_take_def dest!: found_break_False [OF sym] dec_head_shorter [OF sym])

declare text_chunks.simps [simp del]

definition text_string_body :: "byte \<Rightarrow> u64 \<Rightarrow> bytes \<Rightarrow> (decode_error, bytes \<times> bytes) outcome" where
  "text_string_body ai val bs =
     (if ai \<noteq> 31 then
        (case dec_take val bs of (s, bs1) \<Rightarrow> if utf8_valid s then Ok (s, bs1) else Err InvalidUtf8)
      else text_chunks [] bs)"

section \<open>Tags\<close>

definition valid_builtin_tag :: "u64 \<Rightarrow> byte \<Rightarrow> (decode_error, unit) outcome" where
  "valid_builtin_tag num content_head =
     (let t = of_initial_byte content_head in
      if num = 0 \<and> t \<noteq> TextString then
        Err (BadTag (''cbor: tag number 0 must be followed by text string, got '' @ as_str t))
      else if num = 1 \<and> t \<noteq> PositiveInteger \<and> t \<noteq> NegativeInteger \<and>
          \<not> (0xf9 \<le> content_head \<and> content_head \<le> 0xfb) then
        Err (BadTag (''cbor: tag number 1 must be followed by integer or floating-point number, got ''
          @ as_str t))
      else if (num = 2 \<or> num = 3) \<and> t \<noteq> ByteString then
        Err (BadTag (''cbor: tag number 2 or 3 must be followed by byte string, got '' @ as_str t))
      else Ok ())"

text \<open>The two loops of \<^verbatim>\<open>tag_preamble\<close>: strip the self-described tags, then check the chain.\<close>

function strip_self_described :: "bytes \<Rightarrow> bytes" where
  "strip_self_described bs =
     (if \<not> at_end bs \<and> peek_major bs = 6 then
        (case dec_head bs of (_, _, num, bs1) \<Rightarrow>
          if num \<noteq> TAG_SELF_DESCRIBED then bs else strip_self_described bs1)
      else bs)"
  by pat_completeness auto
termination
  by (relation "measure length") (auto simp: at_end_def dest: dec_head_shorter [OF sym])

function check_tag_chain :: "bytes \<Rightarrow> (decode_error, unit) outcome" where
  "check_tag_chain bs =
     (if \<not> at_end bs \<and> peek_major bs = 6 then
        (case dec_head bs of (_, _, num, bs1) \<Rightarrow>
          obind (valid_builtin_tag num (cur bs1)) (\<lambda>_. check_tag_chain bs1))
      else Ok ())"
  by pat_completeness auto
termination
  by (relation "measure length") (auto simp: at_end_def dest: dec_head_shorter [OF sym])

declare strip_self_described.simps [simp del] check_tag_chain.simps [simp del]

definition tag_preamble :: "bytes \<Rightarrow> (decode_error, bytes) outcome" where
  "tag_preamble bs =
     (let bs1 = strip_self_described bs in obind (check_tag_chain bs1) (\<lambda>_. Ok bs1))"

lemma strip_suffix: "suffix (strip_self_described bs) bs"
proof (induction bs rule: strip_self_described.induct)
  case (1 bs)
  obtain m ai num r where h: "dec_head bs = (m, ai, num, r)" by (cases "dec_head bs") auto
  have "suffix r bs" using dec_head_suffix [OF h] by (meson suffix_order.trans suffix_tl)
  with 1 h show ?case by (subst strip_self_described.simps) (auto intro: suffix_order.trans)
qed

lemma tag_preamble_suffix: "tag_preamble bs = Ok r \<Longrightarrow> suffix r bs"
  using strip_suffix by (auto simp: tag_preamble_def Let_def)

section \<open>Filling a target\<close>

definition fill_positive_int :: "cbor_type \<Rightarrow> u64 \<Rightarrow> kind \<Rightarrow> string \<Rightarrow> (decode_error, fill) outcome" where
  "fill_positive_int t val kind gt = (case kind of
     KInt mn mx \<Rightarrow>
       (if val > I64_MAX \<or> sint val > mx
        then Err (type_detail t gt (show_nat (unat val) @ '' overflows '' @ gt))
        else Ok (FInt (sint val)))
   | KUint mx \<Rightarrow>
       (if val > mx then Err (type_detail t gt (show_nat (unat val) @ '' overflows '' @ gt))
        else Ok (FUint val))
   | KFloat \<Rightarrow> Ok (FFloat (nat_to_f64 (unat val)))
   | _ \<Rightarrow> Err (type_error t gt))"

definition fill_negative_int :: "cbor_type \<Rightarrow> int \<Rightarrow> kind \<Rightarrow> string \<Rightarrow> (decode_error, fill) outcome" where
  "fill_negative_int t val kind gt = (case kind of
     KInt mn mx \<Rightarrow>
       (if val < mn \<or> val > mx
        then Err (type_detail t gt (show_int val @ '' overflows '' @ gt))
        else Ok (FInt val))
   | KFloat \<Rightarrow> Ok (FFloat (int_to_f64 val))
   | _ \<Rightarrow> Err (type_error t gt))"

definition fill_bool :: "cbor_type \<Rightarrow> bool \<Rightarrow> kind \<Rightarrow> string \<Rightarrow> (decode_error, fill) outcome" where
  "fill_bool t val kind gt = (case kind of KBool \<Rightarrow> Ok (FBool val) | _ \<Rightarrow> Err (type_error t gt))"

definition fill_float :: "cbor_type \<Rightarrow> u64 \<Rightarrow> kind \<Rightarrow> string \<Rightarrow> (decode_error, fill) outcome" where
  "fill_float t val kind gt = (case kind of KFloat \<Rightarrow> Ok (FFloat val) | _ \<Rightarrow> Err (type_error t gt))"

definition fill_byte_string :: "cbor_type \<Rightarrow> bytes \<Rightarrow> kind \<Rightarrow> string \<Rightarrow> (decode_error, fill) outcome" where
  "fill_byte_string t val kind gt = (case kind of KBytes \<Rightarrow> Ok (FBytes val) | _ \<Rightarrow> Err (type_error t gt))"

definition fill_text_string :: "cbor_type \<Rightarrow> bytes \<Rightarrow> kind \<Rightarrow> string \<Rightarrow> (decode_error, fill) outcome" where
  "fill_text_string t val kind gt = (case kind of KString \<Rightarrow> Ok (FString val) | _ \<Rightarrow> Err (type_error t gt))"

definition bignum_u64 :: "bytes \<Rightarrow> u64 option" where
  "bignum_u64 content =
     (let digits = dropWhile (\<lambda>b. b = 0) content in
      if digits = [] then Some 0
      else if length digits > 8 then None
      else Some (be_fold digits))"

definition bignum :: "bool \<Rightarrow> kind \<Rightarrow> string \<Rightarrow> bytes \<Rightarrow> (decode_error, fill \<times> bytes) outcome" where
  "bignum negative kind gt bs =
     (case dec_head bs of (_, ai, val, bs1) \<Rightarrow>
      case byte_string_body ai val bs1 of (content, bs2) \<Rightarrow>
      obind
        (if kind = KSlice \<or> kind = KBytes then fill_byte_string CTag content kind gt
         else let magnitude = bignum_u64 content in
           if \<not> negative then
             (case magnitude of
                Some v \<Rightarrow> fill_positive_int CTag v kind gt
              | None \<Rightarrow> Err (type_detail CTag gt (big_decimal content False @ '' overflows '' @ gt)))
           else
             (case magnitude of
                Some m \<Rightarrow>
                  (if m \<le> I64_MAX then fill_negative_int CTag (-1 - sint m) kind gt
                   else Err (type_detail CTag gt (CHR ''-'' # big_decimal content True @ '' overflows '' @ gt)))
              | None \<Rightarrow>
                  Err (type_detail CTag gt (CHR ''-'' # big_decimal content True @ '' overflows '' @ gt))))
        (\<lambda>f. Ok (f, bs2)))"

text \<open>The arm of \<^verbatim>\<open>value\<close> for major type 7.\<close>

definition value_primitive :: "kind \<Rightarrow> string \<Rightarrow> byte \<Rightarrow> u64 \<Rightarrow> (decode_error, fill) outcome" where
  "value_primitive kind gt ai val =
     (if ai = 25 then fill_float Primitives (f32_to_f64 (f16bits_to_f32bits (ucast val))) kind gt
      else if ai = 26 then fill_float Primitives (f32_to_f64 (ucast val)) kind gt
      else if ai = 27 then fill_float Primitives val kind gt
      else if val = 20 \<or> val = 21 then fill_bool Primitives (val = 21) kind gt
      else if val = 22 \<or> val = 23 then Ok FNil
      else fill_positive_int Primitives val kind gt)"

text \<open>
  \<^verbatim>\<open>Dec::value\<close>; the loop goes round for a tag whose content is decoded into the same target. Where
  the code calls \<^verbatim>\<open>skip\<close> just before it returns an error, only the cursor of the failed decoder
  moves.
\<close>

function dec_value :: "kind \<Rightarrow> string \<Rightarrow> bytes \<Rightarrow> (decode_error, fill \<times> bytes) outcome" where
  "dec_value kind gt bs = obind (tag_preamble bs) (\<lambda>bs1.
     if peek_major bs1 = 0 then
       (case dec_head bs1 of (_, _, val, bs2) \<Rightarrow>
          obind (fill_positive_int PositiveInteger val kind gt) (\<lambda>f. Ok (f, bs2)))
     else if peek_major bs1 = 1 then
       (case dec_head bs1 of (_, _, val, bs2) \<Rightarrow>
          if val > I64_MAX then
            Err (type_detail NegativeInteger gt
              (CHR ''-'' # show_nat (unat val + 1) @ '' overflows Go'' @ [CHR 0x27] @ ''s int64''))
          else obind (fill_negative_int NegativeInteger (-1 - sint val) kind gt) (\<lambda>f. Ok (f, bs2)))
     else if peek_major bs1 = 2 then
       (case dec_head bs1 of (_, ai, val, bs2) \<Rightarrow>
        case byte_string_body ai val bs2 of (b, bs3) \<Rightarrow>
          obind (fill_byte_string ByteString b kind gt) (\<lambda>f. Ok (f, bs3)))
     else if peek_major bs1 = 3 then
       (case dec_head bs1 of (_, ai, val, bs2) \<Rightarrow>
          obind (text_string_body ai val bs2) (\<lambda>(s, bs3).
          obind (fill_text_string TextString s kind gt) (\<lambda>f. Ok (f, bs3))))
     else if peek_major bs1 = 4 then
       (if kind = KSlice \<or> kind = KBytes then Ok (FArray, bs1)
        else if kind = KStruct then
          Err (type_detail CArray gt ''cannot decode CBOR array to struct without toarray option'')
        else Err (type_error CArray gt))
     else if peek_major bs1 = 5 then
       (if kind = KStruct then Ok (FMap, bs1) else Err (type_error CMap gt))
     else if peek_major bs1 = 6 then
       (case dec_head bs1 of (_, _, num, bs2) \<Rightarrow>
          if num = 2 \<or> num = 3 then bignum (num = 3) kind gt bs2
          else dec_value kind gt bs2)
     else
       (case dec_head bs1 of (_, ai, val, bs2) \<Rightarrow>
          obind (value_primitive kind gt ai val) (\<lambda>f. Ok (f, bs2))))"
  by pat_completeness auto
termination
proof (relation "measure (\<lambda>(k, g, bs). length bs)", goal_cases)
  case (2 kind gt bs bs1 m r ai r' num bs2)
  then have "length bs1 \<le> length bs" by (auto dest: tag_preamble_suffix suffix_length_le)
  moreover have "bs1 \<noteq> []" using 2 by (intro peek_major_nonempty) auto
  then have "length bs2 < length bs1" using 2 dec_head_shorter by metis
  ultimately show ?case by simp
qed simp

declare dec_value.simps [simp del]

section \<open>Skipping\<close>

text \<open>\<^verbatim>\<open>while !self.found_break() { self.skip(); }\<close>\<close>

fun skip_chunks :: "(bytes \<Rightarrow> (decode_error, bytes) outcome) \<Rightarrow> nat \<Rightarrow> bytes \<Rightarrow>
    (decode_error, bytes) outcome" where
  "skip_chunks one 0 bs = Stuck"
| "skip_chunks one (Suc k) bs = (case found_break bs of
     (True, bs1) \<Rightarrow> Ok bs1
   | (False, bs1) \<Rightarrow> obind (one bs1) (skip_chunks one k))"

text \<open>\<^verbatim>\<open>for _ in 0..items { if self.at_end() { break; } self.skip(); }\<close>\<close>

fun skip_items :: "(bytes \<Rightarrow> (decode_error, bytes) outcome) \<Rightarrow> nat \<Rightarrow> bytes \<Rightarrow>
    (decode_error, bytes) outcome" where
  "skip_items one 0 bs = Ok bs"
| "skip_items one (Suc n) bs = (if at_end bs then Ok bs else obind (one bs) (skip_items one n))"

text \<open>\<^verbatim>\<open>u64::saturating_mul\<close>\<close>

definition u64_saturating_mul :: "u64 \<Rightarrow> u64 \<Rightarrow> u64" where
  "u64_saturating_mul a b = (if unat a * unat b \<ge> 2 ^ 64 then - 1 else a * b)"

primrec skip_item :: "nat \<Rightarrow> bytes \<Rightarrow> (decode_error, bytes) outcome" where
  "skip_item 0 = (\<lambda>bs. Stuck)"
| "skip_item (Suc f) = (\<lambda>bs. case dec_head bs of (major, ai, val, bs1) \<Rightarrow>
     if ai = 31 \<and> 2 \<le> major \<and> major \<le> 5 then skip_chunks (skip_item f) (Suc (length bs1)) bs1
     else if major = 2 \<or> major = 3 then Ok (snd (dec_take val bs1))
     else if major = 4 \<or> major = 5 then
       skip_items (skip_item f) (unat (if major = 5 then u64_saturating_mul val 2 else val)) bs1
     else if major = 6 then skip_item f bs1
     else Ok bs1)"

text \<open>\<^verbatim>\<open>Dec::skip\<close>: the nesting is at most the length of the input, see \<open>skip_total\<close>.\<close>

definition skip :: "bytes \<Rightarrow> (decode_error, bytes) outcome" where
  "skip bs = skip_item (Suc (length bs)) bs"

section \<open>Readers\<close>

definition read_uint :: "string \<Rightarrow> u64 \<Rightarrow> bytes \<Rightarrow> (decode_error, u64 \<times> bytes) outcome" where
  "read_uint gt mx bs = obind (dec_value (KUint mx) gt bs)
     (\<lambda>(f, r). Ok (case f of FUint v \<Rightarrow> v | _ \<Rightarrow> 0, r))"

definition read_int :: "string \<Rightarrow> int \<Rightarrow> int \<Rightarrow> bytes \<Rightarrow> (decode_error, int \<times> bytes) outcome" where
  "read_int gt mn mx bs = obind (dec_value (KInt mn mx) gt bs)
     (\<lambda>(f, r). Ok (case f of FInt v \<Rightarrow> v | _ \<Rightarrow> 0, r))"

definition read_bool :: "string \<Rightarrow> bytes \<Rightarrow> (decode_error, bool \<times> bytes) outcome" where
  "read_bool gt bs = obind (dec_value KBool gt bs)
     (\<lambda>(f, r). Ok (case f of FBool v \<Rightarrow> v | _ \<Rightarrow> False, r))"

definition read_f64 :: "string \<Rightarrow> bytes \<Rightarrow> (decode_error, u64 \<times> bytes) outcome" where
  "read_f64 gt bs = obind (dec_value KFloat gt bs)
     (\<lambda>(f, r). Ok (case f of FFloat v \<Rightarrow> v | _ \<Rightarrow> 0, r))"

definition read_text :: "string \<Rightarrow> bytes \<Rightarrow> (decode_error, bytes \<times> bytes) outcome" where
  "read_text gt bs = obind (dec_value KString gt bs)
     (\<lambda>(f, r). Ok (case f of FString v \<Rightarrow> v | _ \<Rightarrow> [], r))"

text \<open>The two loops of \<^verbatim>\<open>array_items\<close>.\<close>

fun array_indef :: "(bytes \<Rightarrow> (decode_error, 'a \<times> bytes) outcome) \<Rightarrow> nat \<Rightarrow> 'a list \<Rightarrow> bytes \<Rightarrow>
    (decode_error, 'a list \<times> bytes) outcome" where
  "array_indef elem 0 out bs = Stuck"
| "array_indef elem (Suc k) out bs = (case found_break bs of
     (True, bs1) \<Rightarrow> Ok (out, bs1)
   | (False, bs1) \<Rightarrow> obind (elem bs1) (\<lambda>(v, bs2). array_indef elem k (out @ [v]) bs2))"

fun array_def :: "(bytes \<Rightarrow> (decode_error, 'a \<times> bytes) outcome) \<Rightarrow> nat \<Rightarrow> 'a list \<Rightarrow> bytes \<Rightarrow>
    (decode_error, 'a list \<times> bytes) outcome" where
  "array_def elem 0 out bs = Ok (out, bs)"
| "array_def elem (Suc n) out bs =
     (if at_end bs then Ok (out, bs)
      else obind (elem bs) (\<lambda>(v, bs1). array_def elem n (out @ [v]) bs1))"

definition array_items :: "(bytes \<Rightarrow> (decode_error, 'a \<times> bytes) outcome) \<Rightarrow> bytes \<Rightarrow>
    (decode_error, 'a list \<times> bytes) outcome" where
  "array_items elem bs = (case dec_head bs of (_, ai, val, bs1) \<Rightarrow>
     if ai = 31 then array_indef elem (Suc (length bs1)) [] bs1
     else array_def elem (unat val) [] bs1)"

text \<open>\<^verbatim>\<open>strip_prefix("[]")\<close>, or the type itself.\<close>

definition elem_type :: "string \<Rightarrow> string" where
  "elem_type gt = (if take 2 gt = ''[]'' then drop 2 gt else gt)"

definition read_bytes_opt :: "string \<Rightarrow> bytes \<Rightarrow> (decode_error, bytes option \<times> bytes) outcome" where
  "read_bytes_opt gt bs = obind (dec_value KBytes gt bs) (\<lambda>(f, r). case f of
     FBytes b \<Rightarrow> Ok (Some b, r)
   | FArray \<Rightarrow>
      obind (array_items (\<lambda>d. obind (read_uint (elem_type gt) 255 d) (\<lambda>(v, d1). Ok (ucast v, d1))) r)
        (\<lambda>(v, r1). Ok (Some v, r1))
   | _ \<Rightarrow> Ok (None, r))"

definition read_bytes :: "string \<Rightarrow> bytes \<Rightarrow> (decode_error, bytes \<times> bytes) outcome" where
  "read_bytes gt bs = obind (read_bytes_opt gt bs) (\<lambda>(v, r). Ok (case v of Some b \<Rightarrow> b | None \<Rightarrow> [], r))"

definition read_array_opt :: "string \<Rightarrow> (bytes \<Rightarrow> (decode_error, 'a \<times> bytes) outcome) \<Rightarrow> bytes \<Rightarrow>
    (decode_error, 'a list option \<times> bytes) outcome" where
  "read_array_opt gt elem bs = obind (dec_value KSlice gt bs) (\<lambda>(f, r).
     if f = FArray then obind (array_items elem r) (\<lambda>(v, r1). Ok (Some v, r1)) else Ok (None, r))"

definition read_array :: "string \<Rightarrow> (bytes \<Rightarrow> (decode_error, 'a \<times> bytes) outcome) \<Rightarrow> bytes \<Rightarrow>
    (decode_error, 'a list \<times> bytes) outcome" where
  "read_array gt elem bs =
     obind (read_array_opt gt elem bs) (\<lambda>(v, r). Ok (case v of Some l \<Rightarrow> l | None \<Rightarrow> [], r))"

section \<open>Maps into structs\<close>

record seen =
  low :: "128 word"
  high :: "u64 list"

definition seen_default :: seen where "seen_default = \<lparr>low = 0, high = []\<rparr>"

definition seen_contains :: "seen \<Rightarrow> u64 \<Rightarrow> bool" where
  "seen_contains s key =
     (if key < 128 then low s AND push_bit (unat key) 1 \<noteq> 0 else key \<in> set (high s))"

definition seen_insert :: "seen \<Rightarrow> u64 \<Rightarrow> seen" where
  "seen_insert s key =
     (if key < 128 then s\<lparr>low := low s OR push_bit (unat key) 1\<rparr>
      else if key \<notin> set (high s) then s\<lparr>high := high s @ [key]\<rparr>
      else s)"

text \<open>
  The body of the loop of \<^verbatim>\<open>read_map_struct\<close>: one key with its value. The closure \<^verbatim>\<open>field\<close> mutates the
  struct under construction: it takes the struct and returns it, with whether the key matched.
\<close>

definition map_entry :: "(u64 \<Rightarrow> 'st \<Rightarrow> bytes \<Rightarrow> (decode_error, bool \<times> 'st \<times> bytes) outcome) \<Rightarrow>
    string \<Rightarrow> seen \<Rightarrow> 'st \<Rightarrow> bytes \<Rightarrow> (decode_error, seen \<times> 'st \<times> bytes) outcome" where
  "map_entry field gt seen st bs =
     (if peek_major bs = 0 then
        (case dec_head bs of (_, _, key, bs2) \<Rightarrow>
           if key > I64_MAX then Err (MapKeyOverflow PositiveInteger (show_nat (unat key)))
           else if seen_contains seen key then obind (skip bs2) (\<lambda>r. Ok (seen, st, r))
           else obind (omap_err (\<lambda>e. in_struct_field e gt key) (field key st bs2)) (\<lambda>(hit, st1, bs3).
             if hit then Ok (seen_insert seen key, st1, bs3)
             else obind (skip bs3) (\<lambda>r. Ok (seen, st1, r))))
      else if peek_major bs = 1 then
        (case dec_head bs of (_, _, key, bs2) \<Rightarrow>
           if key > I64_MAX then
             Err (MapKeyOverflow NegativeInteger (''-1-'' @ show_nat (unat key)))
           else obind (skip bs2) (\<lambda>r. Ok (seen, st, r)))
      else if peek_major bs = 3 then
        (case dec_head bs of (_, ai, val, bs2) \<Rightarrow>
           obind (text_string_body ai val bs2) (\<lambda>(_, bs3).
           obind (skip bs3) (\<lambda>r. Ok (seen, st, r))))
      else Err (MapKey (of_initial_byte (push_bit 5 (peek_major bs)))))"

fun map_loop :: "(u64 \<Rightarrow> 'st \<Rightarrow> bytes \<Rightarrow> (decode_error, bool \<times> 'st \<times> bytes) outcome) \<Rightarrow> string \<Rightarrow>
    bool \<Rightarrow> nat \<Rightarrow> u64 \<Rightarrow> seen \<Rightarrow> 'st \<Rightarrow> bytes \<Rightarrow> (decode_error, 'st \<times> bytes) outcome" where
  "map_loop field gt indefinite 0 left seen st bs = Stuck"
| "map_loop field gt indefinite (Suc k) left seen st bs =
     (case (if indefinite then found_break bs else (left = 0 \<or> at_end bs, bs)) of
        (True, bs1) \<Rightarrow> Ok (st, bs1)
      | (False, bs1) \<Rightarrow>
         obind (map_entry field gt seen st bs1) (\<lambda>(seen1, st1, bs2).
           map_loop field gt indefinite k (if indefinite then left else left - 1) seen1 st1 bs2))"

definition read_map_struct :: "string \<Rightarrow>
    (u64 \<Rightarrow> 'st \<Rightarrow> bytes \<Rightarrow> (decode_error, bool \<times> 'st \<times> bytes) outcome) \<Rightarrow> 'st \<Rightarrow> bytes \<Rightarrow>
    (decode_error, 'st \<times> bytes) outcome" where
  "read_map_struct gt field st bs = obind (dec_value KStruct gt bs) (\<lambda>(f, bs1).
     if f = FMap then
       (case dec_head bs1 of (_, ai, count, bs2) \<Rightarrow>
          map_loop field gt (ai = 31) (Suc (length bs2)) count seen_default st bs2)
     else Ok (st, bs1))"

text \<open>\<^verbatim>\<open>unmarshal\<close>: pass 1, then pass 2; \<open>decode_struct\<close> is that of the target type.\<close>

definition unmarshal :: "(bytes \<Rightarrow> (decode_error, 'a \<times> bytes) outcome) \<Rightarrow> bytes \<Rightarrow>
    (decode_error, 'a) outcome" where
  "unmarshal decode_struct b =
     obind (well_formed b) (\<lambda>_. obind (decode_struct b) (\<lambda>(v, _). Ok v))"

end
