(* ===== verification/Cbor_Agree.thy ===== *)
theory Cbor_Agree
  imports Cbor_Dec
begin

text \<open>
  Pass 2 against pass 1. \<open>item bs r\<close> says that pass 1 accepts one data item at the front of \<open>bs\<close>
  and leaves \<open>r\<close>; its case rules are the grammar of a data item. The results: \<^verbatim>\<open>skip\<close> consumes
  exactly the item pass 1 accepted; every reader, when it succeeds, consumes exactly that item too
  (so the default byte of \<^verbatim>\<open>cur\<close> past the end is never used); and no reader runs out of its step
  bound, on any input. The locales \<open>reader\<close> and \<open>field_reader\<close> state what an element decoder and a
  field closure promise, and the loops over arrays and maps are proved for any of them.
\<close>

definition item :: "bytes \<Rightarrow> bytes \<Rightarrow> bool" where
  "item bs r \<longleftrightarrow> (\<exists>n d. wf_item n d bs = Ok r)"

inductive items :: "nat \<Rightarrow> bytes \<Rightarrow> bytes \<Rightarrow> bool" where
  items_0: "items 0 bs bs"
| items_Suc: "item bs r \<Longrightarrow> items n r s \<Longrightarrow> items (Suc n) bs s"

inductive until_break :: "nat \<Rightarrow> bytes \<Rightarrow> bytes \<Rightarrow> bool" where
  break_0: "until_break 0 (0xff # r) r"
| break_Suc: "cur bs \<noteq> 0xff \<Longrightarrow> item bs r \<Longrightarrow> until_break n r s \<Longrightarrow> until_break (Suc n) bs s"

inductive_cases items_0E: "items 0 bs r"
inductive_cases items_SucE: "items (Suc n) bs r"
inductive_cases break_0E: "until_break 0 bs r"
inductive_cases break_SucE: "until_break (Suc n) bs r"

section \<open>Heads\<close>

lemma of_initial_byte_iff:
  "of_initial_byte b = PositiveInteger \<longleftrightarrow> drop_bit 5 b = 0"
  "of_initial_byte b = NegativeInteger \<longleftrightarrow> drop_bit 5 b = 1"
  "of_initial_byte b = ByteString \<longleftrightarrow> drop_bit 5 b = 2"
  "of_initial_byte b = TextString \<longleftrightarrow> drop_bit 5 b = 3"
  "of_initial_byte b = CArray \<longleftrightarrow> drop_bit 5 b = 4"
  "of_initial_byte b = CMap \<longleftrightarrow> drop_bit 5 b = 5"
  "of_initial_byte b = CTag \<longleftrightarrow> drop_bit 5 b = 6"
  by (auto simp: of_initial_byte_def Let_def)

lemma byte_below_8: "m = 0 \<or> m = 1 \<or> m = 2 \<or> m = 3 \<or> m = 4 \<or> m = 5 \<or> m = 6 \<or> m = 7"
  if "m < 8" for m :: byte
proof -
  have "unat m < 8" using that by (simp add: word_less_nat_alt)
  then have "unat m \<in> {0, 1, 2, 3, 4, 5, 6, 7}" by auto
  then have "of_nat (unat m) \<in> (of_nat :: nat \<Rightarrow> byte) ` {0, 1, 2, 3, 4, 5, 6, 7}" by (rule imageI)
  then show ?thesis by simp
qed

lemma major_cases:
  "peek_major bs = 0 \<or> peek_major bs = 1 \<or> peek_major bs = 2 \<or> peek_major bs = 3 \<or>
   peek_major bs = 4 \<or> peek_major bs = 5 \<or> peek_major bs = 6 \<or> peek_major bs = 7"
  by (rule byte_below_8)
     (use unat_drop_lt [of 5 3 "cur bs"] in \<open>simp add: peek_major_def word_less_nat_alt\<close>)

lemma wf_head_dec_head:
  assumes "wf_head bs = Ok (h, r)"
  shows "dec_head bs = (peek_major bs, h_ai h, h_val h, r)" and "h_ty h = of_initial_byte (cur bs)"
    and "bs \<noteq> []"
proof -
  obtain b rest where bs: "bs = b # rest" using assms by (cases bs) (auto simp: wf_head_def)
  have r: "n \<le> length rest \<Longrightarrow> read_arg n 0 rest = (be_fold (take n rest), drop n rest)" for n
    by (simp add: read_arg_fold be_fold_def)
  show "dec_head bs = (peek_major bs, h_ai h, h_val h, r)"
    using assms r unfolding bs
    by (auto simp: wf_head_def dec_head_def Let_def cur_def peek_major_def
        split: if_splits cbor_type.splits dest!: wf_head_arg_Ok simp del: read_arg.simps)
  show "h_ty h = of_initial_byte (cur bs)"
    using assms unfolding bs
    by (auto simp: wf_head_def Let_def cur_def split: if_splits cbor_type.splits dest!: wf_head_arg_Ok)
  show "bs \<noteq> []" by (simp add: bs)
qed

text \<open>One data item, by the major type and the additional information of its head.\<close>

lemma item_nonempty: "item bs r \<Longrightarrow> bs \<noteq> []"
  by (auto simp: item_def dest: wf_item_suffix)

lemma item_suffix: "item bs r \<Longrightarrow> strict_suffix r bs"
  by (auto simp: item_def dest: wf_item_suffix)

lemma items_nonempty: "items (Suc n) bs r \<Longrightarrow> bs \<noteq> []"
  by (auto elim!: items_SucE dest: item_nonempty)

lemma itemE:
  assumes "item bs r"
  obtains f d h bs1 where "wf_head bs = Ok (h, bs1)" "wf_item (Suc f) d bs = Ok r"
    "dec_head bs = (peek_major bs, h_ai h, h_val h, bs1)" "h_ty h = of_initial_byte (cur bs)"
proof -
  from assms obtain n d where w: "wf_item n d bs = Ok r" by (auto simp: item_def)
  then obtain f where n: "n = Suc f" by (cases n) auto
  with w obtain h bs1 where h: "wf_head bs = Ok (h, bs1)" by (auto simp: wf_item.simps)
  from that [OF h w [unfolded n] wf_head_dec_head(1,2) [OF h]] show thesis .
qed

lemma item_plain:
  assumes "item bs r" and "dec_head bs = (m, ai, val, bs1)" and "m = 0 \<or> m = 1 \<or> 6 < m"
  shows "r = bs1"
  using assms(1)
proof (cases rule: itemE)
  case (1 f d h bs')
  with assms(2,3) show ?thesis
    by (auto simp: wf_item.simps of_initial_byte_iff peek_major_def split: if_splits)
qed

lemma item_string:
  assumes "item bs r" and "dec_head bs = (m, ai, val, bs1)" and "m = 2 \<or> m = 3" and "ai \<noteq> 31"
  shows "r = drop (unat val) bs1" and "unat val \<le> length bs1"
proof -
  from assms(1) have "r = drop (unat val) bs1 \<and> unat val \<le> length bs1"
  proof (cases rule: itemE)
    case (1 f d h bs')
    with assms(2-4) show ?thesis
      by (auto simp: wf_item.simps of_initial_byte_iff peek_major_def split: if_splits)
  qed
  then show "r = drop (unat val) bs1" "unat val \<le> length bs1" by auto
qed

lemma item_chunks:
  assumes "item bs r" and "dec_head bs = (m, ai, val, bs1)" and "m = 2 \<or> m = 3" and "ai = 31"
  obtains f d k where "wf_indef_string (wf_item f d) k (of_initial_byte (cur bs)) bs1 = Ok r"
  using assms(1)
proof (cases rule: itemE)
  case (1 f d h bs')
  with assms(2-4) that show ?thesis
    by (auto simp: wf_item.simps of_initial_byte_iff peek_major_def split: if_splits
        simp del: wf_indef_string.simps)
qed

lemma item_tag:
  assumes "item bs r" and "dec_head bs = (m, ai, val, bs1)" and "m = 6"
  shows "item bs1 r"
  using assms(1)
proof (cases rule: itemE)
  case (1 f d h bs')
  with assms(2,3) obtain d1 bs2 where t: "wf_tags d bs1 = Ok (d1, bs2)" "wf_item f d1 bs2 = Ok r"
    by (auto simp: wf_item.simps of_initial_byte_iff peek_major_def split: if_splits)
  show ?thesis
  proof (cases "of_initial_byte (cur bs1) = CTag")
    case False
    with t have "bs2 = bs1"
      by (auto simp: wf_tags.simps [of d bs1] cur_def split: list.splits)
    with t show ?thesis by (auto simp: item_def)
  next
    case True
    with t(1) obtain h2 b2 where h: "wf_head bs1 = Ok (h2, b2)" "wf_tags (d + 1) b2 = Ok (d1, bs2)"
      by (auto simp: wf_tags.simps [of d bs1] cur_def split: list.splits if_splits)
    with True t(2) wf_head_dec_head(2) [OF h(1)] have "wf_item (Suc f) (d + 1) bs1 = Ok r"
      by (simp add: wf_item.simps(2))
    then show ?thesis by (auto simp: item_def)
  qed
qed

lemma wf_items_items: "wf_items (wf_item f d) n bs = Ok r \<Longrightarrow> items n bs r"
proof (induction n arbitrary: bs)
  case (Suc n)
  then obtain bs1 where "wf_item f d bs = Ok bs1" "items n bs1 r" by auto
  then show ?case by (intro items_Suc) (auto simp: item_def)
qed (simp add: items_0)

lemma wf_container_until_break:
  "wf_indef_container (wf_item f d) k ty i bs = Ok r \<Longrightarrow>
    \<exists>n. until_break n bs r \<and> (ty = CMap \<longrightarrow> even (i + n))"
proof (induction k arbitrary: i bs)
  case (Suc k)
  from Suc.prems obtain b rest where bs: "bs = b # rest" by (cases bs) auto
  show ?case
  proof (cases "b = 0xff")
    case True
    with Suc.prems bs have "rest = r" "\<not> (ty = CMap \<and> i mod 2 = 1)" by (auto split: if_splits)
    with bs True show ?thesis by (intro exI [of _ 0]) (auto intro: break_0 simp: even_iff_mod_2_eq_zero)
  next
    case False
    with Suc.prems bs obtain bs1 where it: "wf_item f d bs = Ok bs1"
      and rec: "wf_indef_container (wf_item f d) k ty (i + 1) bs1 = Ok r"
      by (auto split: if_splits)
    from Suc.IH [OF rec] obtain n where n: "until_break n bs1 r" "ty = CMap \<longrightarrow> even (i + 1 + n)" by blast
    have "until_break (Suc n) bs r"
      using n(1) it False bs by (intro break_Suc) (auto simp: item_def cur_def)
    with n(2) show ?thesis by (intro exI [of _ "Suc n"]) simp
  qed
qed simp

lemma item_array:
  assumes "item bs r" and "dec_head bs = (m, ai, val, bs1)" and "m = 4"
  shows "ai \<noteq> 31 \<Longrightarrow> items (unat val) bs1 r \<and> val \<le> MAX_ARRAY_ELEMENTS"
    and "ai = 31 \<Longrightarrow> \<exists>n. until_break n bs1 r"
  using assms(1)
proof (atomize (full), cases rule: itemE)
  case (1 f d h bs')
  then have eq: "bs' = bs1" "h_ai h = ai" "h_val h = val" "h_ty h = CArray"
    using assms(2,3) by (auto simp: of_initial_byte_iff peek_major_def)
  show "(ai \<noteq> 31 \<longrightarrow> items (unat val) bs1 r \<and> val \<le> MAX_ARRAY_ELEMENTS) \<and>
      (ai = 31 \<longrightarrow> (\<exists>n. until_break n bs1 r))"
    using 1(1,2) eq
    by (auto simp: wf_item.simps not_less split: if_splits
        simp del: wf_indef_container.simps dest: wf_items_items wf_container_until_break)
qed

lemma item_map:
  assumes "item bs r" and "dec_head bs = (m, ai, val, bs1)" and "m = 5"
  shows "ai \<noteq> 31 \<Longrightarrow> items (2 * unat val) bs1 r \<and> val \<le> MAX_MAP_PAIRS"
    and "ai = 31 \<Longrightarrow> \<exists>n. until_break (2 * n) bs1 r"
  using assms(1)
proof (atomize (full), cases rule: itemE)
  case (1 f d h bs')
  then have eq: "bs' = bs1" "h_ai h = ai" "h_val h = val" "h_ty h = CMap"
    using assms(2,3) by (auto simp: of_initial_byte_iff peek_major_def)
  have dbl: "val \<le> MAX_MAP_PAIRS \<Longrightarrow> unat (val * 2) = 2 * unat val"
    by (simp add: MAX_MAP_PAIRS_def word_le_nat_alt unat_word_ariths)
  show "(ai \<noteq> 31 \<longrightarrow> items (2 * unat val) bs1 r \<and> val \<le> MAX_MAP_PAIRS) \<and>
      (ai = 31 \<longrightarrow> (\<exists>n. until_break (2 * n) bs1 r))"
    using 1(1,2) eq dbl
    by (auto simp: wf_item.simps not_less split: if_splits
        simp del: wf_indef_container.simps dest!: wf_items_items wf_container_until_break
        elim!: evenE)
qed

section \<open>Skipping\<close>

lemma found_break_item: "item bs r \<Longrightarrow> cur bs \<noteq> 0xff \<Longrightarrow> found_break bs = (False, bs)"
  by (auto simp: found_break_def at_end_def dest: item_nonempty)

lemma found_break_break: "found_break (0xff # r) = (True, r)"
  by (simp add: found_break_def at_end_def cur_def)

lemma chunk_head:
  assumes "item bs r" and "of_initial_byte (cur bs) = ty" and "ty = ByteString \<or> ty = TextString"
    and "cur bs AND 0x1f \<noteq> 31"
  obtains m ai n bs1 where "dec_head bs = (m, ai, n, bs1)" and "r = drop (unat n) bs1"
proof -
  obtain m ai n bs1 where h: "dec_head bs = (m, ai, n, bs1)" by (metis prod_cases4)
  have "m = 2 \<or> m = 3" "ai \<noteq> 31"
    using dec_head_major [OF h] assms(2-4) by (auto simp: of_initial_byte_iff peek_major_def)
  with item_string(1) [OF assms(1) h] that [OF h] show thesis by blast
qed

lemma wf_indef_string_item:
  assumes "wf_indef_string (wf_item f d) (Suc k) ty bs = Ok r"
  shows "(\<exists>rest. bs = 0xff # rest \<and> r = rest) \<or>
    (\<exists>bs1. item bs bs1 \<and> cur bs \<noteq> 0xff \<and> of_initial_byte (cur bs) = ty \<and> cur bs AND 0x1f \<noteq> 31 \<and>
      wf_indef_string (wf_item f d) k ty bs1 = Ok r)"
  using assms by (auto simp: item_def cur_def split: list.splits if_splits)

lemma byte_chunks_exact:
  "wf_indef_string (wf_item f d) k ty bs = Ok r \<Longrightarrow> ty = ByteString \<or> ty = TextString \<Longrightarrow>
    snd (byte_chunks out bs) = r"
proof (induction k arbitrary: bs out)
  case (Suc k)
  from wf_indef_string_item [OF Suc.prems(1)] show ?case
  proof (elim disjE exE conjE, goal_cases)
    case (1 rest)
    then show ?thesis by (subst byte_chunks.simps) (simp add: found_break_break)
  next
    case (2 bs1)
    obtain m ai n b where h: "dec_head bs = (m, ai, n, b)" "bs1 = drop (unat n) b"
      using chunk_head [OF 2(1,3) Suc.prems(2) 2(4)] by metis
    with 2 Suc.IH [OF 2(5) Suc.prems(2)] show ?thesis
      by (simp add: byte_chunks.simps [of out bs] found_break_item dec_take_def)
  qed
qed simp

lemma text_chunks_exact:
  "wf_indef_string (wf_item f d) k ty bs = Ok r \<Longrightarrow> ty = ByteString \<or> ty = TextString \<Longrightarrow>
    text_chunks out bs = Ok (s, r') \<Longrightarrow> r' = r"
proof (induction k arbitrary: bs out)
  case (Suc k)
  from wf_indef_string_item [OF Suc.prems(1)] show ?case
  proof (elim disjE exE conjE, goal_cases)
    case (1 rest)
    with Suc.prems(3) show ?thesis by (subst (asm) text_chunks.simps) (simp add: found_break_break)
  next
    case (2 bs1)
    obtain m ai n b where h: "dec_head bs = (m, ai, n, b)" "bs1 = drop (unat n) b"
      using chunk_head [OF 2(1,3) Suc.prems(2) 2(4)] by metis
    with 2 Suc.prems(3) have "text_chunks (out @ take (unat n) b) bs1 = Ok (s, r')"
      by (simp add: text_chunks.simps [of out bs] found_break_item dec_take_def split: if_splits)
    then show ?thesis by (rule Suc.IH [OF 2(5) Suc.prems(2)])
  qed
qed simp

text \<open>The body of a string item, whichever way its length is given.\<close>

lemma byte_body_exact:
  assumes "item bs r" and "dec_head bs = (m, ai, val, bs1)" and "m = 2 \<or> m = 3"
  shows "snd (byte_string_body ai val bs1) = r"
proof (cases "ai = 31")
  case True
  from item_chunks [OF assms True] obtain f d k where
    "wf_indef_string (wf_item f d) k (of_initial_byte (cur bs)) bs1 = Ok r" .
  moreover have "of_initial_byte (cur bs) = ByteString \<or> of_initial_byte (cur bs) = TextString"
    using assms(3) dec_head_major [OF assms(2)] by (auto simp: of_initial_byte_iff peek_major_def)
  ultimately show ?thesis using True by (simp add: byte_string_body_def byte_chunks_exact)
next
  case False
  with item_string [OF assms False] show ?thesis by (simp add: byte_string_body_def dec_take_def)
qed

lemma text_body_exact:
  assumes "item bs r" and "dec_head bs = (m, ai, val, bs1)" and "m = 2 \<or> m = 3"
    and "text_string_body ai val bs1 = Ok (s, r')"
  shows "r' = r"
proof (cases "ai = 31")
  case True
  from item_chunks [OF assms(1-3) True] obtain f d k where
    "wf_indef_string (wf_item f d) k (of_initial_byte (cur bs)) bs1 = Ok r" .
  moreover have "of_initial_byte (cur bs) = ByteString \<or> of_initial_byte (cur bs) = TextString"
    using assms(3) dec_head_major [OF assms(2)] by (auto simp: of_initial_byte_iff peek_major_def)
  ultimately show ?thesis
    using True assms(4) by (auto simp: text_string_body_def dest: text_chunks_exact)
next
  case False
  with item_string [OF assms(1-3) False] assms(4) show ?thesis
    by (auto simp: text_string_body_def dec_take_def split: if_splits)
qed

lemma skip_items_exact:
  assumes "items n bs r" and "\<And>b s. suffix b bs \<Longrightarrow> item b s \<Longrightarrow> one b = Ok s"
  shows "skip_items one n bs = Ok r"
  using assms
proof (induction n bs r rule: items.induct)
  case (items_Suc bs r n s)
  have "skip_items one n r = Ok s"
    using items_Suc item_suffix [OF items_Suc(1)] by (intro items_Suc.IH) (auto intro: suffix_rules)
  moreover have "one bs = Ok r" using items_Suc by (intro items_Suc.prems) auto
  ultimately show ?case using item_nonempty [OF items_Suc(1)] by (simp add: at_end_def)
qed simp

lemma skip_chunks_exact:
  assumes "until_break n bs r" and "\<And>b s. suffix b bs \<Longrightarrow> item b s \<Longrightarrow> one b = Ok s" and "length bs < k"
  shows "skip_chunks one k bs = Ok r"
  using assms
proof (induction n bs r arbitrary: k rule: until_break.induct)
  case (break_0 r)
  then show ?case by (cases k) (auto simp: found_break_break)
next
  case (break_Suc bs r n s)
  then obtain k1 where k: "k = Suc k1" by (cases k) auto
  have sf: "suffix r bs" "length r < k1"
    using item_suffix [OF break_Suc(2)] break_Suc.prems k by (auto dest: strict_suffix_length intro: suffix_rules)
  then have "skip_chunks one k1 r = Ok s"
    using break_Suc.prems by (intro break_Suc.IH) (auto intro: suffix_rules)
  moreover have "one bs = Ok r" using break_Suc by (intro break_Suc.prems) auto
  ultimately show ?case using found_break_item [OF break_Suc(2,1)] k by simp
qed

lemma wf_indef_string_until_break:
  "wf_indef_string (wf_item f d) k ty bs = Ok r \<Longrightarrow> \<exists>n. until_break n bs r"
proof (induction k arbitrary: bs)
  case (Suc k)
  from wf_indef_string_item [OF Suc.prems] Suc.IH show ?case by (auto intro: break_0 break_Suc)
qed simp

lemma skip_item_exact: "item bs r \<Longrightarrow> length bs < f \<Longrightarrow> skip_item f bs = Ok r"
proof (induction f arbitrary: bs r)
  case (Suc f)
  obtain m ai val bs1 where h: "dec_head bs = (m, ai, val, bs1)" by (metis prod_cases4)
  have ne: "bs \<noteq> []" using item_nonempty [OF Suc.prems(1)] .
  have IH: "skip_item f b = Ok s" if "suffix b bs1" "item b s" for b s
    using that Suc.prems(2) dec_head_shorter [OF h ne] suffix_length_le [OF that(1)]
    by (intro Suc.IH) auto
  have loops: "until_break n bs1 r \<Longrightarrow> skip_chunks (skip_item f) (Suc (length bs1)) bs1 = Ok r"
    "items n bs1 r \<Longrightarrow> skip_items (skip_item f) n bs1 = Ok r" for n
    using IH by (auto intro!: skip_chunks_exact skip_items_exact simp del: skip_chunks.simps)
  note [simp del] = skip_chunks.simps
  consider "m = 0 \<or> m = 1 \<or> 6 < m" | "m = 2 \<or> m = 3" | "m = 4" | "m = 5" | "m = 6"
    using major_cases [of bs] dec_head_major [OF h] by auto
  then show ?case
  proof cases
    case 1
    with item_plain [OF Suc.prems(1) h 1] h show ?thesis by (auto simp: word_le_nat_alt word_less_nat_alt)
  next
    case 2
    show ?thesis
    proof (cases "ai = 31")
      case True
      from item_chunks [OF Suc.prems(1) h 2 True] obtain n where n: "until_break n bs1 r"
        by (metis wf_indef_string_until_break)
      from loops(1) [OF n] h 2 True show ?thesis by auto
    next
      case False
      with item_string [OF Suc.prems(1) h 2 False] h 2 show ?thesis by (auto simp: dec_take_def)
    qed
  next
    case 3
    show ?thesis
    proof (cases "ai = 31")
      case True
      from item_array(2) [OF Suc.prems(1) h 3 True] obtain n where n: "until_break n bs1 r" ..
      from loops(1) [OF n] h 3 True show ?thesis by auto
    next
      case False
      from item_array(1) [OF Suc.prems(1) h 3 False] have n: "items (unat val) bs1 r" ..
      from loops(2) [OF n] h 3 False show ?thesis by auto
    qed
  next
    case 4
    show ?thesis
    proof (cases "ai = 31")
      case True
      from item_map(2) [OF Suc.prems(1) h 4 True] obtain n where n: "until_break (2 * n) bs1 r" ..
      from loops(1) [OF n] h 4 True show ?thesis by auto
    next
      case False
      from item_map(1) [OF Suc.prems(1) h 4 False]
      have n: "items (2 * unat val) bs1 r" "val \<le> MAX_MAP_PAIRS" by auto
      then have "unat (u64_saturating_mul val 2) = 2 * unat val"
        by (simp add: u64_saturating_mul_def MAX_MAP_PAIRS_def word_le_nat_alt unat_word_ariths)
      with loops(2) [OF n(1)] h 4 False show ?thesis by auto
    qed
  next
    case 5
    with IH item_tag [OF Suc.prems(1) h 5] h show ?thesis by auto
  qed
qed simp

text \<open>\<^verbatim>\<open>skip\<close> consumes exactly the item that pass 1 accepted.\<close>

lemma skip_exact: "item bs r \<Longrightarrow> skip bs = Ok r"
  by (simp add: skip_def skip_item_exact del: skip_item.simps)

section \<open>One value\<close>

lemma strip_item: "item bs r \<Longrightarrow> item (strip_self_described bs) r"
proof (induction bs rule: strip_self_described.induct)
  case (1 bs)
  obtain m ai num b where h: "dec_head bs = (m, ai, num, b)" by (metis prod_cases4)
  show ?case
  proof (cases "\<not> at_end bs \<and> peek_major bs = 6 \<and> num = TAG_SELF_DESCRIBED")
    case True
    with h dec_head_major [OF h] have "item b r" using item_tag [OF "1.prems" h] by simp
    with 1 True h show ?thesis by (subst strip_self_described.simps) simp
  next
    case False
    with "1.prems" h show ?thesis by (subst strip_self_described.simps) auto
  qed
qed

lemma fill_not_head [simp]:
  "fill_positive_int t v k g \<noteq> Ok FArray" "fill_positive_int t v k g \<noteq> Ok FMap"
  "fill_negative_int t i k g \<noteq> Ok FArray" "fill_negative_int t i k g \<noteq> Ok FMap"
  "fill_bool t b k g \<noteq> Ok FArray" "fill_bool t b k g \<noteq> Ok FMap"
  "fill_float t v k g \<noteq> Ok FArray" "fill_float t v k g \<noteq> Ok FMap"
  "fill_byte_string t s k g \<noteq> Ok FArray" "fill_byte_string t s k g \<noteq> Ok FMap"
  "fill_text_string t s k g \<noteq> Ok FArray" "fill_text_string t s k g \<noteq> Ok FMap"
  by (auto simp: fill_positive_int_def fill_negative_int_def fill_bool_def fill_float_def
      fill_byte_string_def fill_text_string_def split: kind.splits if_splits)

lemma fill_total [simp]:
  "fill_positive_int t v k g \<noteq> Stuck" "fill_negative_int t i k g \<noteq> Stuck" "fill_bool t b k g \<noteq> Stuck"
  "fill_float t v k g \<noteq> Stuck" "fill_byte_string t s k g \<noteq> Stuck" "fill_text_string t s k g \<noteq> Stuck"
  by (auto simp: fill_positive_int_def fill_negative_int_def fill_bool_def fill_float_def
      fill_byte_string_def fill_text_string_def split: kind.splits)

lemma value_primitive_facts [simp]:
  "value_primitive k g ai val \<noteq> Stuck"
  "value_primitive k g ai val \<noteq> Ok FArray" "value_primitive k g ai val \<noteq> Ok FMap"
  by (auto simp: value_primitive_def split: if_splits)

lemma valid_builtin_tag_total [simp]: "valid_builtin_tag num b \<noteq> Stuck"
  by (simp add: valid_builtin_tag_def Let_def)

lemma tag_preamble_total [simp]: "tag_preamble bs \<noteq> Stuck"
proof -
  have "check_tag_chain bs \<noteq> Stuck" for bs
    by (induction bs rule: check_tag_chain.induct)
       (subst check_tag_chain.simps, auto simp: obind_eq_Stuck split: prod.split)
  then show ?thesis by (simp add: tag_preamble_def Let_def obind_eq_Stuck)
qed

text \<open>A bignum's content is a byte string: the preamble has checked its head.\<close>

lemma preamble_bignum:
  assumes "tag_preamble bs = Ok bs1" and "peek_major bs1 = 6"
    and "dec_head bs1 = (m, ai, num, bs2)" and "num = 2 \<or> num = 3"
  shows "peek_major bs2 = 2"
proof -
  have "bs1 \<noteq> []" using assms(2) peek_major_nonempty by auto
  moreover have "check_tag_chain bs1 = Ok ()" using assms(1) by (auto simp: tag_preamble_def Let_def)
  ultimately have "valid_builtin_tag num (cur bs2) = Ok ()"
    using assms(2,3) by (subst (asm) check_tag_chain.simps) (auto simp: at_end_def)
  then show ?thesis
    using assms(4) by (auto simp: valid_builtin_tag_def Let_def of_initial_byte_iff peek_major_def split: if_splits)
qed

lemma bignum_facts:
  shows "bignum neg k g bs \<noteq> Stuck"
    and "bignum neg k g bs = Ok (f, r) \<Longrightarrow> f \<noteq> FArray \<and> f \<noteq> FMap \<and>
      (\<exists>m ai val bs1. dec_head bs = (m, ai, val, bs1) \<and> snd (byte_string_body ai val bs1) = r)"
  by (auto simp: bignum_def Let_def obind_eq_Stuck split: prod.splits if_splits option.splits)

text \<open>
  What \<^verbatim>\<open>value\<close> leaves when it succeeds on an item: for an array or a map, the cursor is at its head
  with the same item still to read; otherwise the item is consumed.
\<close>

definition value_post :: "fill \<Rightarrow> bytes \<Rightarrow> bytes \<Rightarrow> bool" where
  "value_post f r' r \<longleftrightarrow>
     (if f = FArray then item r' r \<and> peek_major r' = 4
      else if f = FMap then item r' r \<and> peek_major r' = 5
      else r' = r)"

lemma dec_value_exact: "item bs r \<Longrightarrow> dec_value k g bs = Ok (f, r') \<Longrightarrow> value_post f r' r"
proof (induction k g bs rule: dec_value.induct)
  case (1 k g bs)
  from "1.prems"(2) obtain bs1 where p: "tag_preamble bs = Ok bs1"
    by (subst (asm) dec_value.simps) auto
  obtain m ai val bs2 where h: "dec_head bs1 = (m, ai, val, bs2)" by (metis prod_cases4)
  have m: "m = peek_major bs1" using dec_head_major [OF h] by simp
  have it: "item bs1 r" using strip_item [OF "1.prems"(1)] p by (auto simp: tag_preamble_def Let_def)
  note v = "1.prems"(2) [unfolded dec_value.simps [of k g bs], unfolded p obind.simps, unfolded h prod.case]
  consider "m = 0 \<or> m = 1 \<or> m = 7" | "m = 2" | "m = 3" | "m = 4" | "m = 5" | "m = 6"
    using major_cases [of bs1] m by auto
  then show ?case
  proof cases
    case 1
    then have "r = bs2" by (intro item_plain [OF it h]) auto
    with v 1 m show ?thesis by (auto simp: value_post_def split: if_splits)
  next
    case 2
    then have "snd (byte_string_body ai val bs2) = r" by (intro byte_body_exact [OF it h]) auto
    with v 2 m show ?thesis by (auto simp: value_post_def split: prod.splits)
  next
    case 3
    then show ?thesis using v m by (auto simp: value_post_def dest: text_body_exact [OF it h disjI2 [OF 3]])
  next
    case 4
    with v m it show ?thesis by (auto simp: value_post_def split: if_splits)
  next
    case 5
    with v m it show ?thesis by (auto simp: value_post_def split: if_splits)
  next
    case 6
    have i2: "item bs2 r" using item_tag [OF it h 6] .
    show ?thesis
    proof (cases "val = 2 \<or> val = 3")
      case True
      with v 6 m have b: "bignum (val = 3) k g bs2 = Ok (f, r')" by auto
      from bignum_facts(2) [OF b] obtain m2 ai2 val2 b2 where
        h2: "dec_head bs2 = (m2, ai2, val2, b2)" "snd (byte_string_body ai2 val2 b2) = r'"
        and f: "f \<noteq> FArray" "f \<noteq> FMap" by blast
      have "m2 = 2" using preamble_bignum [OF p _ h True] 6 m dec_head_major [OF h2(1)] by simp
      then have "r' = r" using byte_body_exact [OF i2 h2(1)] h2(2) by simp
      with f show ?thesis by (simp add: value_post_def)
    next
      case False
      with v 6 m have "dec_value k g bs2 = Ok (f, r')" by auto
      with "1.IH" [OF p _ _ _ _ _ _ _ h [symmetric] refl refl False i2] 6 m show ?thesis by auto
    qed
  qed
qed

lemma byte_chunks_suffix: "suffix (snd (byte_chunks out bs)) bs"
proof (induction out bs rule: byte_chunks.induct)
  case (1 out bs)
  obtain m ai n r where h: "dec_head bs = (m, ai, n, r)" by (metis prod_cases4)
  have "suffix (drop (unat n) r) bs"
    using dec_head_suffix [OF h] by (meson suffix_drop suffix_order.trans suffix_tl)
  moreover have "found_break bs = (False, bs) \<Longrightarrow>
      suffix (snd (byte_chunks (out @ take (unat n) r) (drop (unat n) r))) (drop (unat n) r)"
    using 1 [of False bs m _ ai _ n r "take (unat n) r" "drop (unat n) r"] h by (simp add: dec_take_def)
  ultimately show ?case using h
    by (subst byte_chunks.simps) (auto simp: found_break_def dec_take_def intro: suffix_order.trans)
qed

lemma byte_body_suffix: "suffix (snd (byte_string_body ai val bs)) bs"
  by (simp add: byte_string_body_def dec_take_def suffix_drop byte_chunks_suffix)

lemma text_chunks_facts:
  "text_chunks out bs \<noteq> Stuck \<and> (text_chunks out bs = Ok (s, r) \<longrightarrow> suffix r bs)"
proof (induction out bs rule: text_chunks.induct)
  case (1 out bs)
  obtain m ai n b where h: "dec_head bs = (m, ai, n, b)" by (metis prod_cases4)
  have "suffix (drop (unat n) b) bs"
    using dec_head_suffix [OF h] by (meson suffix_drop suffix_order.trans suffix_tl)
  moreover have "found_break bs = (False, bs) \<Longrightarrow> utf8_valid (take (unat n) b) \<Longrightarrow>
      text_chunks (out @ take (unat n) b) (drop (unat n) b) \<noteq> Stuck \<and>
      (text_chunks (out @ take (unat n) b) (drop (unat n) b) = Ok (s, r) \<longrightarrow> suffix r (drop (unat n) b))"
    using 1 [of False bs m _ ai _ n b "take (unat n) b" "drop (unat n) b"] h by (simp add: dec_take_def)
  ultimately show ?case using h
    by (subst (1 2) text_chunks.simps) (auto simp: found_break_def dec_take_def intro: suffix_order.trans)
qed

lemma text_body_facts:
  "text_string_body ai val bs \<noteq> Stuck"
  "text_string_body ai val bs = Ok (s, r) \<Longrightarrow> suffix r bs"
  using text_chunks_facts by (auto simp: text_string_body_def dec_take_def suffix_drop split: if_splits)

lemma bignum_suffix:
  assumes "bignum neg k g bs = Ok (f, r)"
  shows "suffix r bs"
proof -
  obtain m ai val b where h: "dec_head bs = (m, ai, val, b)" "snd (byte_string_body ai val b) = r"
    using bignum_facts(2) [OF assms] by blast
  have "suffix r b" using byte_body_suffix [of ai val b] h(2) by simp
  moreover have "suffix b bs" using dec_head_suffix [OF h(1)] suffix_tl by (rule suffix_order.trans)
  ultimately show ?thesis by (rule suffix_order.trans)
qed

lemma dec_value_facts:
  "dec_value k g bs \<noteq> Stuck \<and>
   (dec_value k g bs = Ok (f, r) \<longrightarrow> suffix r bs \<and>
     (if f = FArray then peek_major r = 4 \<and> (k = KSlice \<or> k = KBytes)
      else if f = FMap then peek_major r = 5 \<and> k = KStruct
      else bs \<noteq> [] \<longrightarrow> length r < length bs))"
proof (induction k g bs rule: dec_value.induct)
  case (1 k g bs)
  show ?case
  proof (cases "tag_preamble bs")
    case (Ok bs1)
    obtain m ai val bs2 where h: "dec_head bs1 = (m, ai, val, bs2)" by (metis prod_cases4)
    have s1: "suffix bs1 bs" by (rule tag_preamble_suffix [OF Ok])
    have s2: "suffix bs2 bs" using dec_head_suffix [OF h] s1
      by (meson suffix_order.trans suffix_tl)
    have lt: "length bs2 < length bs" if "bs \<noteq> []"
    proof (cases "bs1 = []")
      case True
      with dec_head_suffix [OF h] that show ?thesis by simp
    next
      case False
      with dec_head_shorter [OF h] suffix_length_le [OF s1] show ?thesis by simp
    qed
    have deep: "suffix r bs \<and> (bs \<noteq> [] \<longrightarrow> length r < length bs)" if "suffix r bs2" for r
      using that s2 lt suffix_length_le [OF that] by (auto intro: suffix_order.trans)
    show ?thesis
    proof (cases "peek_major bs1 = 6 \<and> val \<noteq> 2 \<and> val \<noteq> 3")
      case True
      then have eq: "dec_value k g bs = dec_value k g bs2"
        using Ok h by (subst dec_value.simps) simp
      have "bs1 \<noteq> []" using True peek_major_nonempty [of bs1] by auto
      then have "bs \<noteq> []" using s1 by auto
      with "1.IH" [OF Ok _ _ _ _ _ _ _ h [symmetric] refl refl] True lt s2 show ?thesis
        unfolding eq by (auto intro: suffix_order.trans)
    next
      case False
      note v = dec_value.simps [of k g bs, unfolded Ok obind.simps, unfolded h prod.case]
      have m: "m = peek_major bs1" using dec_head_major [OF h] by simp
      consider "m = 0 \<or> m = 1 \<or> m = 7" | "m = 2" | "m = 3" | "m = 4 \<or> m = 5" | "m = 6"
        using major_cases [of bs1] m by auto
      then show ?thesis
      proof cases
        case 1
        with m deep [of bs2] show ?thesis
          by (elim disjE; simp add: v obind_eq_Stuck) (auto split: if_splits)
      next
        case 2
        with m deep [of r] byte_body_suffix [of ai val bs2] show ?thesis
          by (auto simp: v obind_eq_Stuck split: prod.splits)
      next
        case 3
        with m deep [of r] text_body_facts [of ai val bs2] show ?thesis
          by (auto simp: v obind_eq_Stuck)
      next
        case 4
        with m s1 show ?thesis by (auto simp: v)
      next
        case 5
        with m False deep [of r] bignum_facts [of _ k g bs2] bignum_suffix [of _ k g bs2 f r]
        show ?thesis by (auto simp: v)
      qed
    qed
  qed (simp_all add: dec_value.simps [of k g bs])
qed

lemmas dec_value_total = dec_value_facts [THEN conjunct1]
lemmas dec_value_post = dec_value_facts [THEN conjunct2, rule_format]

lemma found_break_True: "found_break bs = (True, r) \<Longrightarrow> suffix r bs"
  by (auto simp: found_break_def suffix_tl split: if_splits)

section \<open>What a reader promises\<close>

text \<open>
  A reader never runs out of its step bound; it consumes a prefix, at least one byte when there is
  one; and on an item that pass 1 accepted it consumes exactly the item.
\<close>

locale reader =
  fixes rd :: "bytes \<Rightarrow> (decode_error, 'a \<times> bytes) outcome"
  assumes total: "rd bs \<noteq> Stuck"
    and progress: "rd bs = Ok (v, r) \<Longrightarrow> suffix r bs \<and> (bs \<noteq> [] \<longrightarrow> length r < length bs)"
    and exact: "item bs s \<Longrightarrow> rd bs = Ok (v, r) \<Longrightarrow> r = s"
begin

lemma mapped: "reader (\<lambda>bs. obind (rd bs) (\<lambda>(v, r). Ok (f v, r)))"
  by unfold_locales (auto simp: obind_eq_Stuck total dest: progress exact)

lemma array_def_facts:
  "array_def rd n out bs \<noteq> Stuck \<and> (array_def rd n out bs = Ok (v, r) \<longrightarrow> suffix r bs)"
proof (induction n arbitrary: out bs)
  case (Suc n)
  then show ?case
    by (auto simp: obind_eq_Stuck total dest: progress) (meson progress suffix_order.trans)
qed simp

lemma array_def_exact: "items n bs s \<Longrightarrow> array_def rd n out bs = Ok (v, r) \<Longrightarrow> r = s"
proof (induction n arbitrary: out bs)
  case (Suc n)
  from Suc.prems(1) obtain b where b: "item bs b" "items n b s" by (auto elim: items_SucE)
  from Suc.prems(2) item_nonempty [OF b(1)] obtain x b' where
    x: "rd bs = Ok (x, b')" "array_def rd n (out @ [x]) b' = Ok (v, r)" by (auto simp: at_end_def)
  with exact [OF b(1) x(1)] Suc.IH b(2) show ?case by simp
qed (auto elim: items_0E)

lemma array_indef_facts:
  "length bs < k \<Longrightarrow> array_indef rd k out bs \<noteq> Stuck \<and>
    (array_indef rd k out bs = Ok (v, r) \<longrightarrow> suffix r bs)"
proof (induction k arbitrary: out bs)
  case (Suc k)
  have rec: "array_indef rd k (out @ [x]) b \<noteq> Stuck \<and>
      (array_indef rd k (out @ [x]) b = Ok (v, r) \<longrightarrow> suffix r bs)"
    if "found_break bs = (False, bs)" "rd bs = Ok (x, b)" for x b
    using Suc.IH [of b] Suc.prems progress [OF that(2)] found_break_False [OF that(1)]
    by (auto intro: suffix_order.trans)
  show ?case
  proof (cases "found_break bs")
    case (Pair stop b)
    then show ?thesis
      using rec total [of bs] found_break_False [of bs b] found_break_True [of bs b]
      by (cases stop; cases "rd bs") (auto simp del: found_break_item)
  qed
qed simp

lemma array_indef_exact: "until_break n bs s \<Longrightarrow> array_indef rd k out bs = Ok (v, r) \<Longrightarrow> r = s"
proof (induction k arbitrary: n out bs)
  case (Suc k)
  show ?case
  proof (cases n)
    case 0
    with Suc.prems show ?thesis by (auto elim!: break_0E simp: found_break_break)
  next
    case (Suc n')
    with Suc.prems obtain b where b: "cur bs \<noteq> 0xff" "item bs b" "until_break n' b s"
      by (auto elim: break_SucE)
    from Suc.prems(2) obtain x b' where
      x: "rd bs = Ok (x, b')" "array_indef rd k (out @ [x]) b' = Ok (v, r)"
      by (auto simp: found_break_item [OF b(2,1)])
    with exact [OF b(2) x(1)] Suc.IH b(3) show ?thesis by simp
  qed
qed simp

lemma array_items_total: "array_items rd bs \<noteq> Stuck"
  using array_def_facts array_indef_facts
  by (auto simp: array_items_def simp del: array_indef.simps split: prod.split)

lemma array_items_progress:
  assumes "array_items rd bs = Ok (v, r)"
  shows "suffix r bs" and "bs \<noteq> [] \<Longrightarrow> length r < length bs"
proof -
  obtain m ai val b where h: "dec_head bs = (m, ai, val, b)" by (metis prod_cases4)
  have "suffix r b"
    using assms h array_def_facts [of "unat val" "[]" b v r] array_indef_facts [of b "Suc (length b)" "[]" v r]
    by (auto simp: array_items_def simp del: array_indef.simps split: if_splits)
  with dec_head_suffix [OF h] suffix_tl [of bs] dec_head_shorter [OF h] suffix_length_le [OF \<open>suffix r b\<close>]
  show "suffix r bs" "bs \<noteq> [] \<Longrightarrow> length r < length bs"
    by (auto intro: suffix_order.trans)
qed

lemma array_items_exact:
  assumes "item bs s" and "peek_major bs = 4" and "array_items rd bs = Ok (v, r)"
  shows "r = s"
proof -
  obtain m ai val b where h: "dec_head bs = (m, ai, val, b)" by (metis prod_cases4)
  then have "m = 4" using dec_head_major [OF h] assms(2) by simp
  with item_array [OF assms(1) h] assms(3) h show ?thesis
    by (auto simp: array_items_def simp del: array_indef.simps split: if_splits
        dest: array_def_exact array_indef_exact)
qed

lemma read_array_opt_reader: "reader (read_array_opt gt rd)"
proof
  show "read_array_opt gt rd bs \<noteq> Stuck" for bs
    by (auto simp: read_array_opt_def obind_eq_Stuck dec_value_total array_items_total)
  show "suffix r bs \<and> (bs \<noteq> [] \<longrightarrow> length r < length bs)" if "read_array_opt gt rd bs = Ok (v, r)" for bs v r
  proof -
    from that obtain f b where f: "dec_value KSlice gt bs = Ok (f, b)"
      and r: "if f = FArray then \<exists>x. array_items rd b = Ok (x, r) else b = r"
      by (auto simp: read_array_opt_def split: if_splits)
    note p = dec_value_post [OF f]
    show ?thesis
    proof (cases "f = FArray")
      case True
      with p peek_major_nonempty [of b] have "suffix b bs" "b \<noteq> []" by auto
      with True r array_items_progress [of b _ r] suffix_length_le [of b bs] show ?thesis
        by (auto intro: suffix_order.trans)
    next
      case False
      with p r show ?thesis by (auto split: if_splits)
    qed
  qed
  show "r = s" if "item bs s" "read_array_opt gt rd bs = Ok (v, r)" for bs s v r
  proof -
    from that(2) obtain f b where f: "dec_value KSlice gt bs = Ok (f, b)"
      and r: "if f = FArray then \<exists>x. array_items rd b = Ok (x, r) else b = r"
      by (auto simp: read_array_opt_def split: if_splits)
    have "f \<noteq> FMap" using dec_value_post [OF f] by auto
    then show ?thesis
      using dec_value_exact [OF that(1) f] r array_items_exact [of b s _ r]
      by (auto simp: value_post_def split: if_splits)
  qed
qed

lemma read_array_reader: "reader (read_array gt rd)"
  unfolding read_array_def using reader.mapped [OF read_array_opt_reader] .

end

lemma scalar_reader:
  assumes "k \<noteq> KSlice" "k \<noteq> KBytes" "k \<noteq> KStruct"
  shows "reader (dec_value k gt)"
proof
  show "dec_value k gt bs \<noteq> Stuck" for bs by (rule dec_value_total)
  show "suffix r bs \<and> (bs \<noteq> [] \<longrightarrow> length r < length bs)" if "dec_value k gt bs = Ok (v, r)" for bs v r
    using dec_value_post [OF that] assms by (auto split: if_splits)
  show "r = s" if "item bs s" "dec_value k gt bs = Ok (v, r)" for bs s v r
    using dec_value_exact [OF that] dec_value_post [OF that(2)] assms
    by (auto simp: value_post_def split: if_splits)
qed

interpretation rd_uint: reader "read_uint gt mx" for gt mx
  unfolding read_uint_def by (rule reader.mapped [OF scalar_reader]) simp_all

interpretation rd_int: reader "read_int gt mn mx" for gt mn mx
  unfolding read_int_def by (rule reader.mapped [OF scalar_reader]) simp_all

interpretation rd_bool: reader "read_bool gt" for gt
  unfolding read_bool_def by (rule reader.mapped [OF scalar_reader]) simp_all

interpretation rd_f64: reader "read_f64 gt" for gt
  unfolding read_f64_def by (rule reader.mapped [OF scalar_reader]) simp_all

interpretation rd_text: reader "read_text gt" for gt
  unfolding read_text_def by (rule reader.mapped [OF scalar_reader]) simp_all

interpretation rd_bytes_opt: reader "read_bytes_opt gt" for gt
proof
  let ?u8 = "\<lambda>d. obind (read_uint (elem_type gt) 255 d) (\<lambda>(v, d1). Ok (ucast v :: byte, d1))"
  have u8: "reader ?u8" by (rule rd_uint.mapped)
  have unfold: "\<exists>f b. dec_value KBytes gt bs = Ok (f, b) \<and> f \<noteq> FMap \<and>
      (if f = FArray then \<exists>x. array_items ?u8 b = Ok (x, r) else b = r)"
    if "read_bytes_opt gt bs = Ok (v, r)" for bs v r
  proof -
    from that obtain f b where f: "dec_value KBytes gt bs = Ok (f, b)"
      by (auto simp: read_bytes_opt_def)
    with that have "if f = FArray then \<exists>x. array_items ?u8 b = Ok (x, r) else b = r"
      by (cases f) (auto simp: read_bytes_opt_def)
    moreover have "f \<noteq> FMap" using dec_value_post [OF f] by auto
    ultimately show ?thesis using f by blast
  qed
  show "read_bytes_opt gt bs \<noteq> Stuck" for bs
    using reader.array_items_total [OF u8]
    by (auto simp: read_bytes_opt_def obind_eq_Stuck dec_value_total split: fill.splits)
  show "suffix r bs \<and> (bs \<noteq> [] \<longrightarrow> length r < length bs)" if "read_bytes_opt gt bs = Ok (v, r)" for bs v r
  proof -
    from unfold [OF that] obtain f b where f: "dec_value KBytes gt bs = Ok (f, b)" "f \<noteq> FMap"
      and r: "if f = FArray then \<exists>x. array_items ?u8 b = Ok (x, r) else b = r" by blast
    show ?thesis
    proof (cases "f = FArray")
      case True
      with dec_value_post [OF f(1)] peek_major_nonempty [of b] have "suffix b bs" "b \<noteq> []" by auto
      with True r reader.array_items_progress [OF u8, of b _ r] suffix_length_le [of b bs] show ?thesis
        by (auto intro: suffix_order.trans)
    next
      case False
      with dec_value_post [OF f(1)] f(2) r show ?thesis by (auto split: if_splits)
    qed
  qed
  show "r = s" if "item bs s" "read_bytes_opt gt bs = Ok (v, r)" for bs s v r
  proof -
    from unfold [OF that(2)] obtain f b where f: "dec_value KBytes gt bs = Ok (f, b)" "f \<noteq> FMap"
      and r: "if f = FArray then \<exists>x. array_items ?u8 b = Ok (x, r) else b = r" by blast
    with dec_value_exact [OF that(1) f(1)] reader.array_items_exact [OF u8, of b s _ r] show ?thesis
      by (auto simp: value_post_def split: if_splits)
  qed
qed

interpretation rd_bytes: reader "read_bytes gt" for gt
  unfolding read_bytes_def by (rule rd_bytes_opt.mapped)

section \<open>Maps into structs\<close>

lemma skip_loops_total:
  assumes "\<And>b. suffix b bs \<Longrightarrow> \<exists>s. one b = Ok s \<and> suffix s b \<and> (b \<noteq> [] \<longrightarrow> length s < length b)"
  shows "\<exists>r. skip_items one n bs = Ok r \<and> suffix r bs"
    and "length bs < k \<Longrightarrow> \<exists>r. skip_chunks one k bs = Ok r \<and> suffix r bs"
  using assms
proof (atomize (full), goal_cases)
  case 1
  have items: "\<exists>r. skip_items one n b = Ok r \<and> suffix r b" if "suffix b bs" for b n
    using that
  proof (induction n arbitrary: b)
    case (Suc n)
    from assms [OF Suc.prems] obtain s where s: "one b = Ok s" "suffix s b" by blast
    with Suc.IH [of s] Suc.prems obtain r where "skip_items one n s = Ok r" "suffix r s"
      by (meson suffix_order.trans)
    with s show ?case by (auto simp: at_end_def intro: suffix_order.trans)
  qed simp
  have chunks: "\<exists>r. skip_chunks one k b = Ok r \<and> suffix r b" if "suffix b bs" "length b < k" for b k
    using that
  proof (induction k arbitrary: b)
    case (Suc k)
    obtain stop b1 where fb: "found_break b = (stop, b1)" by fastforce
    show ?case
    proof (cases stop)
      case True
      with fb found_break_True show ?thesis by auto
    next
      case False
      with fb found_break_False have b1: "b1 = b" "b \<noteq> []" by auto
      from assms [OF Suc.prems(1)] b1 obtain s where s: "one b = Ok s" "suffix s b" "length s < length b"
        by blast
      have "suffix s bs" "length s < k" using s Suc.prems by (auto intro: suffix_order.trans)
      from Suc.IH [OF this] obtain r where "skip_chunks one k s = Ok r" "suffix r s" by blast
      with s fb b1 False show ?thesis by (auto intro: suffix_order.trans)
    qed
  qed simp
  show ?case using items [of bs n] chunks [of bs k] by blast
qed

lemma skip_item_total:
  "length bs < f \<Longrightarrow> \<exists>r. skip_item f bs = Ok r \<and> suffix r bs \<and> (bs \<noteq> [] \<longrightarrow> length r < length bs)"
proof (induction f arbitrary: bs)
  case (Suc f)
  obtain m ai val b where h: "dec_head bs = (m, ai, val, b)" by (metis prod_cases4)
  have sb: "suffix b bs" using dec_head_suffix [OF h] suffix_tl by (rule suffix_order.trans)
  have up: "suffix r bs \<and> (bs \<noteq> [] \<longrightarrow> length r < length bs)" if "suffix r b" for r
    using that sb dec_head_shorter [OF h] suffix_length_le [OF that] by (auto intro: suffix_order.trans)
  show ?case
  proof (cases "bs = []")
    case True
    with h have "b = []" "m = 0" using sb dec_head_major [OF h] by (auto simp: peek_major_def cur_def)
    with h True show ?thesis by simp
  next
    case False
    have sub: "\<exists>s. skip_item f b' = Ok s \<and> suffix s b' \<and> (b' \<noteq> [] \<longrightarrow> length s < length b')"
      if "suffix b' b" for b'
      using Suc.prems dec_head_shorter [OF h False] suffix_length_le [OF that] by (intro Suc.IH) auto
    note loops = skip_loops_total [of b "skip_item f", OF sub]
    from sub [of b] obtain s where s: "skip_item f b = Ok s" "suffix s b" by auto
    from loops(2) [of "Suc (length b)"] obtain c where
      c: "skip_chunks (skip_item f) (Suc (length b)) b = Ok c" "suffix c b" by auto
    from loops(1) have i: "\<exists>r. skip_items (skip_item f) n b = Ok r \<and> suffix r b" for n by auto
    show ?thesis
      using h s c i [of "unat val"] i [of "unat (u64_saturating_mul val 2)"] up [of b] up [of s] up [of c]
        up [of "drop (unat val) b"]
      by (auto simp: dec_take_def suffix_drop simp del: skip_chunks.simps dest: up)
  qed
qed simp

lemma skip_total: "\<exists>r. skip bs = Ok r \<and> suffix r bs \<and> (bs \<noteq> [] \<longrightarrow> length r < length bs)"
  unfolding skip_def by (rule skip_item_total) simp

text \<open>
  A field closure never runs out of its step bound; when the key matches, it consumes exactly the
  value; when not, it leaves the cursor where it was, for \<^verbatim>\<open>skip\<close>.
\<close>

locale field_reader =
  fixes field :: "u64 \<Rightarrow> 'st \<Rightarrow> bytes \<Rightarrow> (decode_error, bool \<times> 'st \<times> bytes) outcome"
  assumes field_total: "field key st bs \<noteq> Stuck"
    and field_suffix: "field key st bs = Ok (hit, st1, r) \<Longrightarrow> suffix r bs"
    and field_exact: "item bs s \<Longrightarrow> field key st bs = Ok (True, st1, r) \<Longrightarrow> r = s"
    and field_miss: "field key st bs = Ok (False, st1, r) \<Longrightarrow> r = bs"
begin

lemma entry_total: "map_entry field gt seen st bs \<noteq> Stuck"
proof -
  have "skip b \<noteq> Stuck" for b using skip_total [of b] by auto
  then show ?thesis
    by (auto simp: map_entry_def obind_eq_Stuck field_total text_body_facts(1) split: prod.split)
qed

lemma skip_suffix: "skip b = Ok r \<Longrightarrow> suffix r b"
  using skip_total [of b] by auto

lemma entry_suffix:
  assumes "map_entry field gt seen st bs = Ok (seen1, st1, r)" and "bs \<noteq> []"
  shows "suffix r bs" and "length r < length bs"
proof -
  obtain m ai val b where h: "dec_head bs = (m, ai, val, b)" by (metis prod_cases4)
  have "suffix r b"
    using assms(1) h
    by (auto simp: map_entry_def split: if_splits
        dest!: skip_suffix field_suffix text_body_facts(2) intro: suffix_order.trans)
  moreover have "suffix b bs" using dec_head_suffix [OF h] suffix_tl by (rule suffix_order.trans)
  ultimately show "suffix r bs" "length r < length bs"
    using dec_head_shorter [OF h assms(2)] suffix_length_le [OF \<open>suffix r b\<close>]
    by (auto intro: suffix_order.trans)
qed

lemma entry_exact:
  assumes "item bs b" and "item b s" and "map_entry field gt seen st bs = Ok (seen1, st1, r)"
  shows "r = s"
proof -
  obtain m ai val b' where h: "dec_head bs = (m, ai, val, b')" by (metis prod_cases4)
  have m: "m = peek_major bs" using dec_head_major [OF h] by simp
  note sk = skip_exact [OF assms(2)]
  consider "m = 0 \<or> m = 1" | "m = 3"
    using assms(3) m by (auto simp: map_entry_def split: if_splits)
  then show ?thesis
  proof cases
    case 1
    then have "b' = b" using item_plain [OF assms(1) h] by auto
    with assms(3) h m 1 sk show ?thesis
      by (auto simp: map_entry_def split: if_splits dest: field_exact [OF assms(2)] dest!: field_miss)
  next
    case 2
    with assms(3) h m obtain t b2 where "text_string_body ai val b' = Ok (t, b2)" "skip b2 = Ok r"
      by (auto simp: map_entry_def)
    with text_body_exact [OF assms(1) h] 2 sk show ?thesis by auto
  qed
qed

lemma loop_facts:
  "length bs < k \<Longrightarrow> map_loop field gt ind k left seen st bs \<noteq> Stuck \<and>
    (map_loop field gt ind k left seen st bs = Ok (st1, r) \<longrightarrow> suffix r bs)"
proof (induction k arbitrary: left seen st bs)
  case (Suc k)
  obtain stop b where fb: "(if ind then found_break bs else (left = 0 \<or> at_end bs, bs)) = (stop, b)"
    by fastforce
  show ?case
  proof (cases stop)
    case True
    with fb found_break_True [of bs b] show ?thesis by (auto split: if_splits)
  next
    case False
    with fb found_break_False [of bs b] have b: "b = bs" "bs \<noteq> []" by (auto simp: at_end_def split: if_splits)
    show ?thesis
    proof (cases "map_entry field gt seen st bs")
      case (Ok x)
      obtain seen1 st2 r1 where x: "x = (seen1, st2, r1)" by (metis prod_cases3)
      note e = entry_suffix [OF Ok [unfolded x] b(2)]
      have rec: "map_loop field gt ind k l seen1 st2 r1 \<noteq> Stuck \<and>
          (map_loop field gt ind k l seen1 st2 r1 = Ok (st1, r) \<longrightarrow> suffix r bs)" for l
        using Suc.IH [of r1 l seen1 st2] e Suc.prems suffix_order.trans [of r r1 bs] by auto
      from rec fb False b Ok x show ?thesis by auto
    qed (use fb False b entry_total in auto)
  qed
qed simp

lemma loop_exact:
  "(if ind then \<exists>n. until_break (2 * n) bs s else items (2 * unat left) bs s) \<Longrightarrow>
    map_loop field gt ind k left seen st bs = Ok (st1, r) \<Longrightarrow> r = s"
proof (induction k arbitrary: left seen st bs)
  case (Suc k)
  show ?case
  proof (cases ind)
    case True
    with Suc.prems obtain n where n: "until_break (2 * n) bs s" by auto
    show ?thesis
    proof (cases n)
      case 0
      with n Suc.prems(2) True show ?thesis by (auto elim!: break_0E simp: found_break_break)
    next
      case (Suc n')
      with n obtain b1 b2 where b: "cur bs \<noteq> 0xff" "item bs b1" "item b1 b2" "until_break (2 * n') b2 s"
        by (auto elim!: break_SucE)
      from Suc.prems(2) True obtain seen1 st2 r1 where
        e: "map_entry field gt seen st bs = Ok (seen1, st2, r1)"
           "map_loop field gt ind k left seen1 st2 r1 = Ok (st1, r)"
        by (auto simp: found_break_item [OF b(2,1)])
      with entry_exact [OF b(2,3) e(1)] Suc.IH [OF _ e(2)] b(4) True show ?thesis by auto
    qed
  next
    case False
    show ?thesis
    proof (cases "left = 0")
      case True
      with False Suc.prems show ?thesis by (auto elim: items_0E)
    next
      case ne: False
      then obtain j where j: "unat left = Suc j" "unat (left - 1) = j"
        using unat_gt_0 [of left] unat_minus_one [of left] by (cases "unat left") auto
      with Suc.prems(1) False obtain b1 b2 where b: "item bs b1" "item b1 b2" "items (2 * j) b2 s"
        by (auto elim!: items_SucE)
      from Suc.prems(2) False ne item_nonempty [OF b(1)] obtain seen1 st2 r1 where
        e: "map_entry field gt seen st bs = Ok (seen1, st2, r1)"
           "map_loop field gt ind k (left - 1) seen1 st2 r1 = Ok (st1, r)"
        by (auto simp: at_end_def)
      with entry_exact [OF b(1,2) e(1)] Suc.IH [OF _ e(2)] b(3) j False show ?thesis by auto
    qed
  qed
qed simp

lemma read_map_struct_reader: "reader (read_map_struct gt field st)"
proof
  show "read_map_struct gt field st bs \<noteq> Stuck" for bs
    using loop_facts
    by (auto simp: read_map_struct_def obind_eq_Stuck dec_value_total simp del: map_loop.simps
        split: prod.split)
  have unfold: "\<exists>f b. dec_value KStruct gt bs = Ok (f, b) \<and> f \<noteq> FArray \<and>
      (if f = FMap then \<exists>m ai n b1. dec_head b = (m, ai, n, b1) \<and>
          map_loop field gt (ai = 31) (Suc (length b1)) n seen_default st b1 = Ok (v, r) else b = r)"
    if "read_map_struct gt field st bs = Ok (v, r)" for bs v r
  proof -
    from that obtain f b where f: "dec_value KStruct gt bs = Ok (f, b)"
      by (auto simp: read_map_struct_def simp del: map_loop.simps)
    obtain m ai n b1 where h: "dec_head b = (m, ai, n, b1)" by (metis prod_cases4)
    have "f \<noteq> FArray" using dec_value_post [OF f] by auto
    with that f h show ?thesis
      by (intro exI [of _ f] exI [of _ b]) (auto simp: read_map_struct_def simp del: map_loop.simps)
  qed
  show "suffix r bs \<and> (bs \<noteq> [] \<longrightarrow> length r < length bs)"
    if "read_map_struct gt field st bs = Ok (v, r)" for bs v r
  proof -
    from unfold [OF that] obtain f b where f: "dec_value KStruct gt bs = Ok (f, b)" "f \<noteq> FArray"
      and r: "if f = FMap then \<exists>m ai n b1. dec_head b = (m, ai, n, b1) \<and>
          map_loop field gt (ai = 31) (Suc (length b1)) n seen_default st b1 = Ok (v, r) else b = r"
      by blast
    show ?thesis
    proof (cases "f = FMap")
      case True
      with r obtain m ai n b1 where h: "dec_head b = (m, ai, n, b1)"
        and l: "map_loop field gt (ai = 31) (Suc (length b1)) n seen_default st b1 = Ok (v, r)" by auto
      have "suffix r b1" using loop_facts [of b1 "Suc (length b1)"] l by blast
      moreover have "suffix b1 b" using dec_head_suffix [OF h] suffix_tl by (rule suffix_order.trans)
      moreover have "suffix b bs" "b \<noteq> []"
        using True dec_value_post [OF f(1)] peek_major_nonempty [of b] by auto
      ultimately show ?thesis
        using dec_head_shorter [OF h] suffix_order.trans [of r b1 b] suffix_order.trans [of r b bs]
          suffix_length_le [of r b1] suffix_length_le [of b bs] by auto
    next
      case False
      with dec_value_post [OF f(1)] f(2) r show ?thesis by (auto split: if_splits)
    qed
  qed
  show "r = s" if "item bs s" "read_map_struct gt field st bs = Ok (v, r)" for bs s v r
  proof -
    from unfold [OF that(2)] obtain f b where f: "dec_value KStruct gt bs = Ok (f, b)" "f \<noteq> FArray"
      and r: "if f = FMap then \<exists>m ai n b1. dec_head b = (m, ai, n, b1) \<and>
          map_loop field gt (ai = 31) (Suc (length b1)) n seen_default st b1 = Ok (v, r) else b = r"
      by blast
    note p = dec_value_exact [OF that(1) f(1), unfolded value_post_def]
    show ?thesis
    proof (cases "f = FMap")
      case True
      with p have it: "item b s" "peek_major b = 5" by auto
      from True r obtain m ai n b1 where h: "dec_head b = (m, ai, n, b1)"
        and l: "map_loop field gt (ai = 31) (Suc (length b1)) n seen_default st b1 = Ok (v, r)" by auto
      have "m = 5" using dec_head_major [OF h] it(2) by simp
      with item_map [OF it(1) h] show ?thesis by (intro loop_exact [OF _ l]) auto
    next
      case False
      with p f(2) r show ?thesis by simp
    qed
  qed
qed

end

end
