(* ===== verification/Cbor_Struct.thy ===== *)
theory Cbor_Struct
  imports Cbor_Agree
begin

text \<open>
  \<^verbatim>\<open>crates/codec/src/field.rs\<close> and \<^verbatim>\<open>crates/codec/src/macros.rs\<close>: the field types of keyasint structs
  and the code that \<^verbatim>\<open>cbor_struct!\<close> generates. A declaration is a \<open>schema\<close>: the Go name and the
  fields with key, field type, Go type and \<^verbatim>\<open>omitempty\<close>. A struct value is the list of its field
  values in declaration order; a field type selects the \<^verbatim>\<open>impl Field\<close>.
\<close>

datatype fty =
    TBool
  | TUint u64
  | TInt
  | TF64
  | TText
  | TBytes
  | TBytesOpt
  | TBytesList
  | TBytesOptList
  | TTextList
  | TU16List
  | TStructs schema
  | TStructsOpt schema
  | TStructPtr schema
and schema = Schema string "fld list"
and fld = Fld u64 fty string bool

text \<open>\<^verbatim>\<open>TUint\<close> carries the maximum of \<^verbatim>\<open>u8\<close>, \<^verbatim>\<open>u16\<close>, \<^verbatim>\<open>u32\<close> and \<^verbatim>\<open>u64\<close>.\<close>

abbreviation TU8 :: fty where "TU8 \<equiv> TUint 0xff"
abbreviation TU16 :: fty where "TU16 \<equiv> TUint 0xffff"
abbreviation TU32 :: fty where "TU32 \<equiv> TUint 0xffffffff"
abbreviation TU64 :: fty where "TU64 \<equiv> TUint 0xffffffffffffffff"

abbreviation I64_MIN_int :: int where "I64_MIN_int \<equiv> - 0x8000000000000000"
abbreviation I64_MAX_int :: int where "I64_MAX_int \<equiv> 0x7fffffffffffffff"

datatype fval =
    VBool bool
  | VUint u64
  | VInt int
  | VF64 u64
  | VText bytes
  | VBytes bytes
  | VBytesOpt "bytes option"
  | VBytesList "bytes list"
  | VBytesOptList "bytes option list"
  | VTextList "bytes list"
  | VU16List "u16 list"
  | VStructs "fval list list"
  | VStructsOpt "fval list list option"
  | VStructPtr "fval list option"

fun fld_key :: "fld \<Rightarrow> u64" where "fld_key (Fld key ty gt omit) = key"
fun fld_ty :: "fld \<Rightarrow> fty" where "fld_ty (Fld key ty gt omit) = ty"
fun fld_omit :: "fld \<Rightarrow> bool" where "fld_omit (Fld key ty gt omit) = omit"
fun schema_fields :: "schema \<Rightarrow> fld list" where "schema_fields (Schema n fs) = fs"

text \<open>\<^verbatim>\<open>Default::default()\<close> of a field.\<close>

fun default_val :: "fty \<Rightarrow> fval" where
  "default_val TBool = VBool False"
| "default_val (TUint mx) = VUint 0"
| "default_val TInt = VInt 0"
| "default_val TF64 = VF64 0"
| "default_val TText = VText []"
| "default_val TBytes = VBytes []"
| "default_val TBytesOpt = VBytesOpt None"
| "default_val TBytesList = VBytesList []"
| "default_val TBytesOptList = VBytesOptList []"
| "default_val TTextList = VTextList []"
| "default_val TU16List = VU16List []"
| "default_val (TStructs S) = VStructs []"
| "default_val (TStructsOpt S) = VStructsOpt None"
| "default_val (TStructPtr S) = VStructPtr None"

fun is_empty_field :: "fval \<Rightarrow> bool" where
  "is_empty_field (VBool b) = (\<not> b)"
| "is_empty_field (VUint v) = (v = 0)"
| "is_empty_field (VInt i) = (i = 0)"
| "is_empty_field (VF64 v) = f64_is_zero v"
| "is_empty_field (VText s) = (s = [])"
| "is_empty_field (VBytes s) = (s = [])"
| "is_empty_field (VBytesOpt s) = (s = None \<or> s = Some [])"
| "is_empty_field (VBytesList l) = (l = [])"
| "is_empty_field (VBytesOptList l) = (l = [])"
| "is_empty_field (VTextList l) = (l = [])"
| "is_empty_field (VU16List l) = (l = [])"
| "is_empty_field (VStructs l) = (l = [])"
| "is_empty_field (VStructsOpt l) = (l = None \<or> l = Some [])"
| "is_empty_field (VStructPtr p) = (p = None)"

section \<open>Encoding\<close>

definition enc_bytes_opt :: "append_head \<Rightarrow> bytes option \<Rightarrow> bytes \<Rightarrow> bytes" where
  "enc_bytes_opt ah b e = (case b of None \<Rightarrow> enc_null e | Some b \<Rightarrow> enc_bytes ah e b)"

text \<open>\<^verbatim>\<open>e.head(4, self.len() as u64); for x in self { ... }\<close>\<close>

definition enc_list :: "append_head \<Rightarrow> ('a \<Rightarrow> bytes \<Rightarrow> bytes) \<Rightarrow> 'a list \<Rightarrow> bytes \<Rightarrow> bytes" where
  "enc_list ah one xs e = foldl (\<lambda>e x. one x e) (enc_head ah e 4 (of_nat (length xs))) xs"

text \<open>The two passes of the generated \<^verbatim>\<open>encode\<close>: \<^verbatim>\<open>@count\<close> and \<^verbatim>\<open>@field\<close>.\<close>

fun count_present :: "bool list \<Rightarrow> fval list \<Rightarrow> u64" where
  "count_present (omit # os) (v # vs) =
     (if omit \<and> is_empty_field v then 0 else 1) + count_present os vs"
| "count_present os vs = 0"

fun encode_present :: "append_head \<Rightarrow> (u64 \<times> bool \<times> (fval \<Rightarrow> bytes \<Rightarrow> bytes)) list \<Rightarrow> fval list \<Rightarrow>
    bytes \<Rightarrow> bytes" where
  "encode_present ah ((key, omit, enc) # fs) (v # vs) e =
     encode_present ah fs vs (if omit \<and> is_empty_field v then e else enc v (enc_uint ah e key))"
| "encode_present ah fs vs e = e"

primrec encode_field :: "append_head \<Rightarrow> fty \<Rightarrow> fval \<Rightarrow> bytes \<Rightarrow> bytes"
  and encode_struct :: "append_head \<Rightarrow> schema \<Rightarrow> fval list \<Rightarrow> bytes \<Rightarrow> bytes"
  and encode_fld :: "append_head \<Rightarrow> fld \<Rightarrow> u64 \<times> bool \<times> (fval \<Rightarrow> bytes \<Rightarrow> bytes)"
where
  "encode_field ah TBool = (\<lambda>v e. case v of VBool b \<Rightarrow> enc_bool e b | _ \<Rightarrow> e)"
| "encode_field ah (TUint mx) = (\<lambda>v e. case v of VUint n \<Rightarrow> enc_uint ah e n | _ \<Rightarrow> e)"
| "encode_field ah TInt = (\<lambda>v e. case v of VInt i \<Rightarrow> enc_int ah e i | _ \<Rightarrow> e)"
| "encode_field ah TF64 = (\<lambda>v e. case v of VF64 f \<Rightarrow> f64_canonical e f | _ \<Rightarrow> e)"
| "encode_field ah TText = (\<lambda>v e. case v of VText s \<Rightarrow> enc_text ah e s | _ \<Rightarrow> e)"
| "encode_field ah TBytes = (\<lambda>v e. case v of VBytes s \<Rightarrow> enc_bytes ah e s | _ \<Rightarrow> e)"
| "encode_field ah TBytesOpt = (\<lambda>v e. case v of VBytesOpt s \<Rightarrow> enc_bytes_opt ah s e | _ \<Rightarrow> e)"
| "encode_field ah TBytesList =
     (\<lambda>v e. case v of VBytesList l \<Rightarrow> enc_list ah (\<lambda>b e. enc_bytes ah e b) l e | _ \<Rightarrow> e)"
| "encode_field ah TBytesOptList =
     (\<lambda>v e. case v of VBytesOptList l \<Rightarrow> enc_list ah (enc_bytes_opt ah) l e | _ \<Rightarrow> e)"
| "encode_field ah TTextList =
     (\<lambda>v e. case v of VTextList l \<Rightarrow> enc_list ah (\<lambda>s e. enc_text ah e s) l e | _ \<Rightarrow> e)"
| "encode_field ah TU16List =
     (\<lambda>v e. case v of VU16List l \<Rightarrow> enc_list ah (\<lambda>n e. enc_uint ah e (ucast n)) l e | _ \<Rightarrow> e)"
| "encode_field ah (TStructs S) =
     (\<lambda>v e. case v of VStructs l \<Rightarrow> enc_list ah (encode_struct ah S) l e | _ \<Rightarrow> e)"
| "encode_field ah (TStructsOpt S) =
     (\<lambda>v e. case v of VStructsOpt l \<Rightarrow>
        (case l of None \<Rightarrow> enc_null e | Some l \<Rightarrow> enc_list ah (encode_struct ah S) l e) | _ \<Rightarrow> e)"
| "encode_field ah (TStructPtr S) =
     (\<lambda>v e. case v of VStructPtr p \<Rightarrow>
        (case p of None \<Rightarrow> enc_null e | Some s \<Rightarrow> encode_struct ah S s e) | _ \<Rightarrow> e)"
| "encode_struct ah (Schema name fs) =
     (\<lambda>vs e. encode_present ah (map (encode_fld ah) fs) vs
        (enc_head ah e 5 (count_present (map (fst \<circ> snd) (map (encode_fld ah) fs)) vs)))"
| "encode_fld ah (Fld key ty gt omit) = (key, omit, encode_field ah ty)"

text \<open>\<^verbatim>\<open>codec::marshal\<close>: encode into an empty buffer.\<close>

definition marshal :: "append_head \<Rightarrow> schema \<Rightarrow> fval list \<Rightarrow> bytes" where
  "marshal ah S vs = encode_struct ah S vs []"

section \<open>Decoding\<close>

text \<open>The closure that the macro passes to \<^verbatim>\<open>read_map_struct\<close>: \<^verbatim>\<open>match key { ... }\<close>.\<close>

fun match_key :: "(u64 \<times> (bytes \<Rightarrow> (decode_error, fval \<times> bytes) outcome)) list \<Rightarrow> nat \<Rightarrow>
    u64 \<Rightarrow> fval list \<Rightarrow> bytes \<Rightarrow> (decode_error, bool \<times> fval list \<times> bytes) outcome" where
  "match_key [] i key st bs = Ok (False, st, bs)"
| "match_key ((k, dec) # ds) i key st bs =
     (if key = k then obind (dec bs) (\<lambda>(v, r). Ok (True, st[i := v], r))
      else match_key ds (Suc i) key st bs)"

definition rmap :: "('a \<Rightarrow> 'b) \<Rightarrow> (bytes \<Rightarrow> (decode_error, 'a \<times> bytes) outcome) \<Rightarrow>
    bytes \<Rightarrow> (decode_error, 'b \<times> bytes) outcome" where
  "rmap f rd = (\<lambda>bs. obind (rd bs) (\<lambda>(v, r). Ok (f v, r)))"

primrec decode_field :: "fty \<Rightarrow> string \<Rightarrow> bytes \<Rightarrow> (decode_error, fval \<times> bytes) outcome"
  and decode_struct :: "schema \<Rightarrow> bytes \<Rightarrow> (decode_error, fval list \<times> bytes) outcome"
  and decode_fld :: "fld \<Rightarrow> u64 \<times> (bytes \<Rightarrow> (decode_error, fval \<times> bytes) outcome)"
where
  "decode_field TBool = (\<lambda>gt. rmap VBool (read_bool gt))"
| "decode_field (TUint mx) = (\<lambda>gt. rmap VUint (read_uint gt mx))"
| "decode_field TInt = (\<lambda>gt. rmap VInt (read_int gt I64_MIN_int I64_MAX_int))"
| "decode_field TF64 = (\<lambda>gt. rmap VF64 (read_f64 gt))"
| "decode_field TText = (\<lambda>gt. rmap VText (read_text gt))"
| "decode_field TBytes = (\<lambda>gt. rmap VBytes (read_bytes gt))"
| "decode_field TBytesOpt = (\<lambda>gt. rmap VBytesOpt (read_bytes_opt gt))"
| "decode_field TBytesList = (\<lambda>gt. rmap VBytesList (read_array gt (read_bytes (elem_type gt))))"
| "decode_field TBytesOptList =
     (\<lambda>gt. rmap VBytesOptList (read_array gt (read_bytes_opt (elem_type gt))))"
| "decode_field TTextList = (\<lambda>gt. rmap VTextList (read_array gt (read_text (elem_type gt))))"
| "decode_field TU16List =
     (\<lambda>gt. rmap VU16List (read_array gt (rmap ucast (read_uint (elem_type gt) 0xffff))))"
| "decode_field (TStructs S) = (\<lambda>gt. rmap VStructs (read_array gt (decode_struct S)))"
| "decode_field (TStructsOpt S) = (\<lambda>gt. rmap VStructsOpt (read_array_opt gt (decode_struct S)))"
| "decode_field (TStructPtr S) =
     (\<lambda>gt bs. case take_null bs of
        (True, r) \<Rightarrow> Ok (VStructPtr None, r)
      | (False, r) \<Rightarrow> rmap (\<lambda>v. VStructPtr (Some v)) (decode_struct S) r)"
| "decode_struct (Schema name fs) =
     read_map_struct name (match_key (map decode_fld fs) 0) (map (default_val \<circ> fld_ty) fs)"
| "decode_fld (Fld key ty gt omit) = (key, decode_field ty gt)"

section \<open>Every generated decoder is a reader\<close>

lemma rmap_reader: "reader rd \<Longrightarrow> reader (rmap f rd)"
  unfolding rmap_def by (rule reader.mapped)

lemma match_key_reader:
  assumes "\<And>k dec. (k, dec) \<in> set ds \<Longrightarrow> reader dec"
  shows "field_reader (match_key ds i)"
  using assms
proof (induction ds arbitrary: i)
  case Nil
  show ?case by unfold_locales auto
next
  case (Cons d ds)
  obtain k dec where d: "d = (k, dec)" by fastforce
  have r: "reader dec" and f: "field_reader (match_key ds (Suc i))" using Cons d by auto
  show ?case
    unfolding d
    by unfold_locales
      (auto simp: obind_eq_Stuck reader.total [OF r] field_reader.field_total [OF f] split: if_splits
        dest: reader.progress [OF r] reader.exact [OF r] field_reader.field_suffix [OF f]
          field_reader.field_exact [OF f] field_reader.field_miss [OF f])
qed

lemma struct_ptr_reader:
  assumes "reader rd"
  shows "reader (\<lambda>bs. case take_null bs of (True, r) \<Rightarrow> Ok (f None, r)
     | (False, r) \<Rightarrow> rmap (\<lambda>v. f (Some v)) rd r)"
proof -
  have r: "reader (rmap (\<lambda>v. f (Some v)) rd)" using assms by (rule rmap_reader)
  have ex: "s = tl bs" if "item bs s" "cur bs = 0xf6 \<or> cur bs = 0xf7" for bs s
  proof -
    obtain m ai val b where h: "dec_head bs = (m, ai, val, b)" by (metis prod_cases4)
    with that(2) have "m = 7" "b = tl bs" by (auto simp: dec_head_def Let_def)
    with item_plain [OF that(1) h] show ?thesis by simp
  qed
  show ?thesis
    by unfold_locales
      (auto simp: take_null_def at_end_def suffix_tl reader.total [OF r] split: if_splits
        dest: reader.progress [OF r] reader.exact [OF r] ex)
qed

lemma generated_reader:
  shows "reader (decode_field ty gt)" and "reader (decode_struct S)"
    and "reader (snd (decode_fld F))"
proof (induction ty and S and F arbitrary: gt rule: fty.induct schema.induct fld.induct)
  case (Schema n fs)
  have "field_reader (match_key (map decode_fld fs) 0)"
    using Schema by (intro match_key_reader) (metis imageE list.set_map snd_conv)
  then show ?case by (auto intro: field_reader.read_map_struct_reader)
qed (auto intro!: rmap_reader reader.read_array_reader reader.read_array_opt_reader struct_ptr_reader
    rd_uint.reader_axioms rd_int.reader_axioms rd_bool.reader_axioms rd_f64.reader_axioms
    rd_text.reader_axioms rd_bytes.reader_axioms rd_bytes_opt.reader_axioms)

interpretation struct: reader "decode_struct S" for S
  by (rule generated_reader(2))

end
