(* ===== verification/Cbor_Item.thy ===== *)
theory Cbor_Item
  imports Cbor_Struct
begin

text \<open>
  The abstract side of the codec: CBOR data items as a datatype, and their canonical encoding
  (shortest heads, definite lengths). Pass 1 accepts every canonical encoding within the decoder's
  limits, and each reader of pass 2 recovers the value from the encoding of its item.
\<close>

datatype citem =
    IUint u64
  | INint u64
  | IBytes bytes
  | IText bytes
  | IArr "citem list"
  | IMap "(u64 \<times> citem) list"
  | IBool bool
  | INull
  | IFloat u64

primrec render :: "citem \<Rightarrow> bytes" where
  "render (IUint n) = cbor_head 0 n"
| "render (INint n) = cbor_head 1 n"
| "render (IBytes b) = cbor_head 2 (of_nat (length b)) @ b"
| "render (IText b) = cbor_head 3 (of_nat (length b)) @ b"
| "render (IArr cs) = cbor_head 4 (of_nat (length cs)) @ concat (map render cs)"
| "render (IMap kvs) = cbor_head 5 (of_nat (length kvs)) @
     concat (map (\<lambda>(k, b). cbor_head 0 k @ b) (map (map_prod id render) kvs))"
| "render (IBool b) = [if b then 0xf5 else 0xf4]"
| "render INull = [0xf6]"
| "render (IFloat v) = f64_canonical [] v"

text \<open>The decoder's limits: string lengths, element counts, pairs, and levels of nesting.\<close>

primrec within_limits :: "citem \<Rightarrow> bool" where
  "within_limits (IUint n) = True"
| "within_limits (INint n) = True"
| "within_limits (IBytes b) = (length b < 2 ^ 63)"
| "within_limits (IText b) = (length b < 2 ^ 63)"
| "within_limits (IArr cs) = (length cs \<le> 131072 \<and> list_all within_limits cs)"
| "within_limits (IMap kvs) =
     (length kvs \<le> 131072 \<and> list_all (\<lambda>(k, ok). ok) (map (map_prod id within_limits) kvs))"
| "within_limits (IBool b) = True"
| "within_limits INull = True"
| "within_limits (IFloat v) = True"

primrec levels :: "citem \<Rightarrow> nat" where
  "levels (IUint n) = 0"
| "levels (INint n) = 0"
| "levels (IBytes b) = 0"
| "levels (IText b) = 0"
| "levels (IArr cs) = Suc (Max (insert 0 (set (map levels cs))))"
| "levels (IMap kvs) = Suc (Max (insert 0 (set (map snd (map (map_prod id levels) kvs)))))"
| "levels (IBool b) = 0"
| "levels INull = 0"
| "levels (IFloat v) = 0"

section \<open>Canonical heads\<close>

lemma of_initial_byte_head:
  assumes "m < 8" and "a < (32::byte)"
  shows "of_initial_byte (push_bit 5 m OR a) = of_initial_byte (push_bit 5 m)"
  using head_byte_major [OF assms] head_byte_major [OF assms(1), of 0]
  by (simp add: of_initial_byte_def)

text \<open>The additional information of a canonical head is never 31.\<close>

lemma canonical_head:
  assumes "m < 8"
  obtains b tl where "cbor_head m n = b # tl" and "drop_bit 5 b = m" and "b AND 0x1f \<noteq> 31"
    and "b AND 0x1f < 24 \<longleftrightarrow> n < 24"
    and "\<And>rest. dec_head (cbor_head m n @ rest) = (m, b AND 0x1f, n, rest)"
    and "\<And>rest. m \<noteq> 7 \<Longrightarrow> wf_head (cbor_head m n @ rest) =
      Ok (\<lparr>h_ty = of_initial_byte (push_bit 5 m), h_ai = b AND 0x1f, h_val = n\<rparr>, rest)"
  using assms
proof (cases rule: cbor_head_cases [of m n])
  case direct
  define a :: byte where "a = ucast n"
  have a: "a < 24" using direct(1) by (simp add: a_def small_ai)
  then have a32: "a < 32" and ac: "a \<le> 23" "a \<noteq> 24" "a \<noteq> 25" "a \<noteq> 26" "a \<noteq> 27" "a \<noteq> 31"
    by (auto simp: word_less_nat_alt word_le_nat_alt)
  have n: "ucast a = n"
    using direct(1) by (simp add: a_def word_less_nat_alt word_unat_eq_iff unsigned_ucast_eq
        unsigned_take_bit_eq take_bit_nat_eq_self)
  note hb = head_byte_major [OF assms a32] head_byte_ai [OF a32, of m] of_initial_byte_head [OF assms a32]
  show thesis
    using direct a n ac hb
    by (intro that [of "push_bit 5 m OR a" "[]"])
       (auto simp: a_def [symmetric] dec_head_def cur_def Let_def wf_head_def)
next
  case (arg k ai)
  have ai: "ai < 32" "\<not> ai < 24" using arg(2) by auto
  have ra: "read_arg k 0 (be_bytes k n @ rest) = (n, rest)" for rest
    using arg(5) by (simp add: read_arg_fold be_fold_def)
  have wa: "m \<noteq> 7 \<Longrightarrow> wf_head_arg k (of_initial_byte (push_bit 5 m)) ai (be_bytes k n @ rest) =
      Ok (\<lparr>h_ty = of_initial_byte (push_bit 5 m), h_ai = ai, h_val = n\<rparr>, rest)" for rest
  proof -
    assume "m \<noteq> 7"
    moreover have "drop_bit 5 (push_bit 5 m) = m" using head_byte_major [OF assms, of 0] by simp
    ultimately have "of_initial_byte (push_bit 5 m) \<noteq> Primitives"
      using byte_below_8 [OF assms] by (auto simp: of_initial_byte_def)
    with arg(5) show ?thesis by (simp add: wf_head_arg_def)
  qed
  note hb = head_byte_major [OF assms ai(1)] head_byte_ai [OF ai(1), of m] of_initial_byte_head [OF assms ai(1)]
  show thesis
  proof (rule that [of "push_bit 5 m OR ai" "be_bytes k n"])
    show "cbor_head m n = (push_bit 5 m OR ai) # be_bytes k n" by (rule arg)
    show "drop_bit 5 (push_bit 5 m OR ai) = m" by (rule hb)
    show "(push_bit 5 m OR ai) AND 0x1f \<noteq> 31" using hb arg(2) by auto
    show "((push_bit 5 m OR ai) AND 0x1f < 24) = (n < 24)" using hb ai arg(3) by simp
    show "dec_head (cbor_head m n @ rest) = (m, (push_bit 5 m OR ai) AND 0x1f, n, rest)" for rest
      using arg(2) ra [of rest] hb unfolding arg(4)
      by (auto simp: dec_head_def cur_def Let_def simp del: read_arg.simps)
    show "m \<noteq> 7 \<Longrightarrow> wf_head (cbor_head m n @ rest) =
      Ok (\<lparr>h_ty = of_initial_byte (push_bit 5 m), h_ai = (push_bit 5 m OR ai) AND 0x1f, h_val = n\<rparr>, rest)"
      for rest
      using arg(2) wa [of rest] hb unfolding arg(4)
      by (auto simp: wf_head_def Let_def)
  qed
qed

text \<open>The same as rewrite rules, with a name for the additional information.\<close>

definition head_ai :: "byte \<Rightarrow> u64 \<Rightarrow> byte" where
  "head_ai m n = hd (cbor_head m n) AND 0x1f"

lemma cbor_head_rules:
  assumes "m < 8"
  shows "head_ai m n \<noteq> 31" and "dec_head (cbor_head m n @ rest) = (m, head_ai m n, n, rest)"
    and "m \<noteq> 7 \<Longrightarrow> wf_head (cbor_head m n @ rest) =
      Ok (\<lparr>h_ty = of_initial_byte (push_bit 5 m), h_ai = head_ai m n, h_val = n\<rparr>, rest)"
  by (rule canonical_head [OF assms, of n], simp add: head_ai_def)+

lemma cbor_head_nonempty [simp]: "m < 8 \<Longrightarrow> cbor_head m n \<noteq> []"
  by (rule canonical_head [of m n]) auto

lemma peek_cbor_head: "m < 8 \<Longrightarrow> peek_major (cbor_head m n @ rest) = m"
  by (rule canonical_head [of m n]) (auto simp: peek_major_def cur_def)

lemma cur_head_not_null: "m < 7 \<Longrightarrow> cur (cbor_head m n @ rest) \<noteq> 0xf6 \<and> cur (cbor_head m n @ rest) \<noteq> 0xf7"
  using peek_cbor_head [of m n rest] order_less_trans [of m 7 8] by (auto simp: peek_major_def)

lemma preamble_untagged: "peek_major bs \<noteq> 6 \<Longrightarrow> tag_preamble bs = Ok bs"
  by (simp add: tag_preamble_def strip_self_described.simps [of bs] check_tag_chain.simps [of bs])

section \<open>Pass 1 accepts canonical encodings\<close>

lemma float_bytes:
  obtains b bs where "f64_canonical [] v = b # bs"
    and "b = 0xf9 \<and> length bs = 2 \<or> b = 0xfa \<and> length bs = 4 \<or> b = 0xfb \<and> length bs = 8"
proof (cases "f64_is_nan v")
  case True
  then show ?thesis by (intro that [of "0xf9" "[0x7e, 0x00]"]) (auto simp: f64_canonical_def)
next
  case False
  then show ?thesis by (cases rule: f64_canonical_forms [of v "[]"]) (auto intro: that)
qed

lemma render_nonempty [simp]: "render c \<noteq> []"
proof (cases c)
  case (IFloat v)
  then show ?thesis by (metis float_bytes list.distinct(1) render.simps(9))
qed auto

lemma wf_items_concat:
  assumes "\<And>x r. x \<in> set xs \<Longrightarrow> length (x @ r) \<le> L \<Longrightarrow> one (x @ r) = Ok r"
    and "length (concat xs @ rest) \<le> L"
  shows "wf_items one (length xs) (concat xs @ rest) = Ok rest"
  using assms by (induction xs) auto

lemma flatten_pairs:
  "concat (map (\<lambda>(k, b). f k @ b) kvs) = concat (concat (map (\<lambda>(k, b). [f k, b]) kvs))"
  "length (concat (map (\<lambda>(k, b). [f k, b]) kvs)) = 2 * length kvs"
  by (induction kvs) auto

lemma unat_small: "n < 2 ^ 64 \<Longrightarrow> unat (of_nat n :: u64) = n"
  by (simp add: unsigned_of_nat take_bit_nat_eq_self)

lemma Max_levels: "Suc (Max (insert 0 (f ` A))) + d \<le> 32 \<Longrightarrow> finite A \<Longrightarrow> x \<in> A \<Longrightarrow> f x + Suc d \<le> 32"
proof -
  assume a: "Suc (Max (insert 0 (f ` A))) + d \<le> 32" "finite A" "x \<in> A"
  then have "f x \<le> Max (insert 0 (f ` A))" by (intro Max_ge) auto
  with a(1) show ?thesis by linarith
qed

lemma wf_render:
  "within_limits c \<Longrightarrow> levels c + d \<le> 32 \<Longrightarrow> length (render c @ rest) < f \<Longrightarrow>
    wf_item f d (render c @ rest) = Ok rest"
proof (induction c arbitrary: d rest f)
  case (IUint n)
  then obtain f' where "f = Suc f'" by (cases f) auto
  then show ?case
    by (auto simp: wf_item.simps cbor_head_rules of_initial_byte_def)
next
  case (INint n)
  then obtain f' where "f = Suc f'" by (cases f) auto
  then show ?case
    by (auto simp: wf_item.simps cbor_head_rules of_initial_byte_def)
next
  case (IBytes b)
  then obtain f' where f: "f = Suc f'" by (cases f) auto
  have "unat (of_nat (length b) :: u64) = length b" using IBytes by (intro unat_small) simp
  with f IBytes show ?case
    by (auto simp: wf_item.simps cbor_head_rules of_initial_byte_def word_less_nat_alt)
next
  case (IText b)
  then obtain f' where f: "f = Suc f'" by (cases f) auto
  have "unat (of_nat (length b) :: u64) = length b" using IText by (intro unat_small) simp
  with f IText show ?case
    by (auto simp: wf_item.simps cbor_head_rules of_initial_byte_def word_less_nat_alt)
next
  case (IArr cs)
  then obtain f' where f: "f = Suc f'" by (cases f) auto
  have n: "unat (of_nat (length cs) :: u64) = length cs" using IArr.prems by (intro unat_small) simp
  have "wf_items (wf_item f' (d + 1)) (length (map render cs)) (concat (map render cs) @ rest) = Ok rest"
  proof (rule wf_items_concat [where L = "f' - 1"])
    fix x r assume "x \<in> set (map render cs)" "length (x @ r) \<le> f' - 1"
    moreover have "0 < f'" using IArr.prems(3) f cbor_head_nonempty [of 4 "of_nat (length cs)"]
      by (cases "cbor_head 4 (of_nat (length cs))") auto
    ultimately show "wf_item f' (d + 1) (x @ r) = Ok r"
      using IArr.prems Max_levels [of levels "set cs" d]
      by (auto simp: list_all_iff intro!: IArr.IH)
  next
    show "length (concat (map render cs) @ rest) \<le> f' - 1"
      using IArr.prems(3) f cbor_head_nonempty [of 4 "of_nat (length cs)"]
      by (cases "cbor_head 4 (of_nat (length cs))") auto
  qed
  with f n IArr.prems show ?case
    by (auto simp: wf_item.simps cbor_head_rules of_initial_byte_def word_less_nat_alt MAX_NESTED_LEVELS_def
         MAX_ARRAY_ELEMENTS_def)
next
  case (IMap kvs)
  then obtain f' where f: "f = Suc f'" by (cases f) auto
  have n: "unat (of_nat (length kvs) :: u64) = length kvs" using IMap.prems by (intro unat_small) simp
  define xs where "xs = concat (map (\<lambda>(k, b). [cbor_head 0 k, b]) (map (map_prod id render) kvs))"
  have body: "render (IMap kvs) = cbor_head 5 (of_nat (length kvs)) @ concat xs"
    unfolding render.simps xs_def flatten_pairs(1) ..
  have L: "length (concat xs @ rest) \<le> f' - 1" "0 < f'"
    using IMap.prems(3) [unfolded body] f cbor_head_nonempty [of 5 "of_nat (length kvs)"]
    by (cases "cbor_head 5 (of_nat (length kvs))"; simp)+
  have "wf_items (wf_item f' (d + 1)) (length xs) (concat xs @ rest) = Ok rest"
  proof (rule wf_items_concat [OF _ L(1)])
    fix x r assume x: "x \<in> set xs" "length (x @ r) \<le> f' - 1"
    then consider k where "x = cbor_head 0 k" | k c where "(k, c) \<in> set kvs" "x = render c"
      by (auto simp: xs_def)
    then show "wf_item f' (d + 1) (x @ r) = Ok r"
    proof cases
      case (1 k)
      obtain f'' where "f' = Suc f''" using L(2) by (cases f') auto
      with 1 show ?thesis
        by (auto simp: wf_item.simps cbor_head_rules of_initial_byte_def)
    next
      case (2 k c)
      then have "c \<in> Basic_BNFs.snds (k, c)" "levels c + Suc d \<le> 32" "within_limits c"
        using IMap.prems Max_levels [of "snd \<circ> map_prod id levels" "set kvs" d "(k, c)"]
        by (auto simp: list_all_iff image_comp prod_set_defs)
      with 2 x L(2) show ?thesis by (auto intro!: IMap.IH)
    qed
  qed
  moreover have "length xs = 2 * length kvs" unfolding xs_def flatten_pairs(2) by simp
  moreover have "unat (of_nat (length kvs) * 2 :: u64) = 2 * length kvs"
    using n IMap.prems(1) by (simp add: unat_word_ariths)
  ultimately show ?case
    using f n IMap.prems(1,2) unfolding body
    by (auto simp: wf_item.simps cbor_head_rules of_initial_byte_def word_less_nat_alt MAX_NESTED_LEVELS_def
         MAX_MAP_PAIRS_def)
next
  case (IFloat v)
  then obtain f' where f: "f = Suc f'" by (cases f) auto
  obtain b bs where e: "f64_canonical [] v = b # bs"
    and b: "b = 0xf9 \<and> length bs = 2 \<or> b = 0xfa \<and> length bs = 4 \<or> b = 0xfb \<and> length bs = 8"
    by (rule float_bytes)
  from b show ?case unfolding f render.simps e
    by (elim disjE conjE; simp add: wf_item.simps wf_head_def wf_head_arg_def of_initial_byte_def)
qed (auto simp: wf_item.simps wf_head_def Let_def of_initial_byte_def gr0_conv_Suc less_Suc_eq_0_disj
      elim!: less_natE)

section \<open>The readers invert the encoding\<close>

text \<open>The item of an \<^verbatim>\<open>i64\<close>, and of an optional one.\<close>

definition int_item :: "int \<Rightarrow> citem" where
  "int_item i = (if i \<ge> 0 then IUint (word_of_int i) else INint (NOT (word_of_int i)))"

definition opt_item :: "('a \<Rightarrow> citem) \<Rightarrow> 'a option \<Rightarrow> citem" where
  "opt_item f x = (case x of None \<Rightarrow> INull | Some y \<Rightarrow> f y)"

lemma dec_value_untagged:
  "m < 6 \<Longrightarrow> dec_value k g (cbor_head m n @ rest) =
     (if m = 0 then obind (fill_positive_int PositiveInteger n k g) (\<lambda>f. Ok (f, rest))
      else if m = 1 then
        (if n > I64_MAX then
            Err (type_detail NegativeInteger g
              (CHR ''-'' # show_nat (unat n + 1) @ '' overflows Go'' @ [CHR 0x27] @ ''s int64''))
         else obind (fill_negative_int NegativeInteger (-1 - sint n) k g) (\<lambda>f. Ok (f, rest)))
      else if m = 2 then
        obind (fill_byte_string ByteString (take (unat n) rest) k g) (\<lambda>f. Ok (f, drop (unat n) rest))
      else if m = 3 then
        (if utf8_valid (take (unat n) rest) then
           obind (fill_text_string TextString (take (unat n) rest) k g) (\<lambda>f. Ok (f, drop (unat n) rest))
         else Err InvalidUtf8)
      else if m = 4 then
        (if k = KSlice \<or> k = KBytes then Ok (FArray, cbor_head m n @ rest)
         else if k = KStruct then
           Err (type_detail CArray g ''cannot decode CBOR array to struct without toarray option'')
         else Err (type_error CArray g))
      else (if k = KStruct then Ok (FMap, cbor_head m n @ rest) else Err (type_error CMap g)))"
proof -
  assume m: "m < 6"
  then have m8: "m < 8" and "m \<noteq> 6" "m \<noteq> 7" by (auto simp: word_less_nat_alt)
  then have "m = 0 \<or> m = 1 \<or> m = 2 \<or> m = 3 \<or> m = 4 \<or> m = 5" using byte_below_8 [OF m8] by auto
  moreover have p: "tag_preamble (cbor_head m n @ rest) = Ok (cbor_head m n @ rest)"
    using peek_cbor_head [OF m8, of n rest] \<open>m \<noteq> 6\<close> by (intro preamble_untagged) simp
  note h = cbor_head_rules(2) [OF m8, of n rest] and pk = peek_cbor_head [OF m8, of n rest]
    and ai = cbor_head_rules(1) [OF m8, of n]
  ultimately show ?thesis
    unfolding dec_value.simps [of k g "cbor_head m n @ rest"] p obind.simps h prod.case pk
    using ai by (elim disjE; simp add: byte_string_body_def text_string_body_def dec_take_def)
qed

lemma dec_value_simple:
  assumes "v < 24"
  shows "dec_value k g ((0xe0 OR v) # rest) = obind (value_primitive k g v (ucast v)) (\<lambda>f. Ok (f, rest))"
proof -
  have v: "v < 32" "\<not> 24 < v" using assms by (auto simp: word_less_nat_alt)
  have eq: "push_bit 5 (7::byte) = 0xe0" by simp
  have b: "drop_bit 5 (0xe0 OR v) = 7" "(0xe0 OR v) AND 0x1f = v"
    using head_byte_major [of 7 v] head_byte_ai [OF v(1), of 7] v unfolding eq by simp_all
  then have "dec_head ((0xe0 OR v) # rest) = (7, v, ucast v, rest)" "peek_major ((0xe0 OR v) # rest) = 7"
    using assms by (auto simp: dec_head_def cur_def Let_def peek_major_def)
  then show ?thesis
    using preamble_untagged [of "(0xe0 OR v) # rest"] by (subst dec_value.simps) simp
qed

lemma dec_value_null: "dec_value k g (0xf6 # rest) = Ok (FNil, rest)"
  using dec_value_simple [of 22 k g rest] by (simp add: value_primitive_def)

lemma read_uint_render: "n \<le> mx \<Longrightarrow> read_uint gt mx (render (IUint n) @ rest) = Ok (n, rest)"
  by (simp add: read_uint_def dec_value_untagged fill_positive_int_def not_less [symmetric])

lemma sint_of_int: "I64_MIN_int \<le> i \<Longrightarrow> i \<le> I64_MAX_int \<Longrightarrow> sint (word_of_int i :: u64) = i"
  by (simp add: sint_word_ariths signed_of_int signed_take_bit_int_eq_self)

lemma unat_of_int: "0 \<le> j \<Longrightarrow> j < 2 ^ 64 \<Longrightarrow> unat (word_of_int j :: u64) = nat j"
  by (simp add: unsigned_of_int take_bit_int_eq_self)

lemma read_int_render:
  assumes "I64_MIN_int \<le> i" and "i \<le> I64_MAX_int"
  shows "read_int gt I64_MIN_int I64_MAX_int (render (int_item i) @ rest) = Ok (i, rest)"
proof (cases "i \<ge> 0")
  case True
  have "unat (word_of_int i :: u64) = nat i"
    using True assms by (intro unat_of_int) auto
  then have "\<not> (word_of_int i :: u64) > I64_MAX" using assms by (simp add: word_less_nat_alt)
  with True assms sint_of_int [OF assms] show ?thesis
    by (simp add: read_int_def int_item_def dec_value_untagged fill_positive_int_def)
next
  case False
  let ?w = "NOT (word_of_int i) :: u64"
  have w: "?w = word_of_int (- i - 1)" by (simp add: not_eq_complement)
  have "unat ?w = nat (- i - 1)"
    using False assms unfolding w by (intro unat_of_int) auto
  then have "\<not> ?w > I64_MAX" using assms by (simp add: word_less_nat_alt)
  moreover have "sint ?w = - i - 1" unfolding w using False assms by (intro sint_of_int) auto
  ultimately show ?thesis
    using False assms by (simp add: read_int_def int_item_def dec_value_untagged fill_negative_int_def)
qed

lemma read_bool_render: "read_bool gt (render (IBool b) @ rest) = Ok (b, rest)"
  using dec_value_simple [of 20 KBool gt rest] dec_value_simple [of 21 KBool gt rest]
  by (simp add: read_bool_def value_primitive_def fill_bool_def)

lemma read_text_render:
  "utf8_valid s \<Longrightarrow> length s < 2 ^ 63 \<Longrightarrow> read_text gt (render (IText s) @ rest) = Ok (s, rest)"
  by (simp add: read_text_def dec_value_untagged fill_text_string_def unat_small)

lemma read_bytes_opt_render:
  "pred_option (\<lambda>b. length b < 2 ^ 63) b \<Longrightarrow>
    read_bytes_opt gt (render (opt_item IBytes b) @ rest) = Ok (b, rest)"
  by (cases b) (simp_all add: read_bytes_opt_def opt_item_def dec_value_untagged fill_byte_string_def
      unat_small dec_value_null)

lemma read_bytes_render: "length b < 2 ^ 63 \<Longrightarrow> read_bytes gt (render (IBytes b) @ rest) = Ok (b, rest)"
  using read_bytes_opt_render [of "Some b" gt rest] by (simp add: read_bytes_def opt_item_def)

lemma dec_value_float:
  assumes "b = (0xf9::byte) \<and> ai = 25 \<and> n = 2 \<or> b = 0xfa \<and> ai = 26 \<and> n = 4 \<or> b = 0xfb \<and> ai = 27 \<and> n = 8"
    and "length arg = n"
  shows "dec_value k g (b # arg @ rest) = obind (value_primitive k g ai (be_fold arg)) (\<lambda>f. Ok (f, rest))"
proof -
  have r: "read_arg n 0 (arg @ rest) = (be_fold arg, rest)"
    using assms(2) by (simp add: read_arg_fold be_fold_def)
  have pk: "peek_major (b # arg @ rest) = 7" using assms(1) by (auto simp: peek_major_def cur_def)
  have h: "dec_head (b # arg @ rest) = (7, ai, be_fold arg, rest)"
    using assms(1) r by (elim disjE conjE; simp add: dec_head_def cur_def del: read_arg.simps)
  have p: "tag_preamble (b # arg @ rest) = Ok (b # arg @ rest)" using pk by (intro preamble_untagged) simp
  show ?thesis
    unfolding dec_value.simps [of k g "b # arg @ rest"] p obind.simps h prod.case pk by simp
qed

text \<open>The fold into a wider word, cut back to the width of the bytes.\<close>

lemma be_fold_wider:
  fixes v :: "'a::len word"
  assumes "8 * n \<le> LENGTH('b::len)" and "LENGTH('a) = 8 * n"
  shows "ucast (be_fold (be_bytes n v) :: 'b word) = v"
proof -
  have "unat (be_fold (be_bytes n v) :: 'b word) = be_nat (be_bytes n v)" using assms by (intro unat_be_fold) simp
  moreover have "unat (be_fold (be_bytes n v) :: 'a word) = be_nat (be_bytes n v)" using assms by (intro unat_be_fold) simp
  moreover have "be_fold (be_bytes n v) = v"
    using unsigned_less [of v, where ?'a = nat] assms(2)
    by (intro be_fold_be_bytes_small) (simp add: power_mult)
  ultimately show ?thesis
    using assms(2) unsigned_less [of v, where ?'a = nat]
    by (simp add: word_unat_eq_iff unsigned_ucast_eq take_bit_nat_eq_self)
qed

lemma read_f64_render:
  assumes "\<not> f64_is_nan v"
  shows "read_f64 gt (render (IFloat v) @ rest) = Ok (v, rest)"
  using assms
proof (cases rule: f64_canonical_forms [of v "[]"])
  case (half h)
  have "ucast (be_fold (be_bytes 2 h) :: u64) = h"
    by (rule be_fold_wider) simp_all
  with half dec_value_float [where b = "0xf9" and ai = 25 and n = 2 and arg = "be_bytes 2 h" and k = KFloat and g = gt and rest = rest] show ?thesis
    by (simp add: read_f64_def value_primitive_def fill_float_def)
next
  case (single w)
  have "ucast (be_fold (be_bytes 4 w) :: u64) = w"
    by (rule be_fold_wider) simp_all
  with single dec_value_float [where b = "0xfa" and ai = 26 and n = 4 and arg = "be_bytes 4 w" and k = KFloat and g = gt and rest = rest] show ?thesis
    by (simp add: read_f64_def value_primitive_def fill_float_def)
next
  case double
  with dec_value_float [where b = "0xfb" and ai = 27 and n = 8 and arg = "be_bytes 8 v" and k = KFloat and g = gt and rest = rest] show ?thesis
    by (simp add: read_f64_def value_primitive_def fill_float_def)
qed

lemma array_def_render:
  assumes "\<And>x r. x \<in> set xs \<Longrightarrow> elem (render (g x) @ r) = Ok (x, r)"
  shows "array_def elem (length xs) out (concat (map render (map g xs)) @ rest) = Ok (out @ xs, rest)"
  using assms
proof (induction xs arbitrary: out)
  case (Cons x xs)
  then show ?case by (simp add: at_end_def)
qed simp

lemma read_array_opt_render:
  assumes "pred_option (\<lambda>xs. length xs \<le> 131072 \<and> (\<forall>x \<in> set xs. \<forall>r. elem (render (g x) @ r) = Ok (x, r))) o1"
  shows "read_array_opt gt elem (render (opt_item (\<lambda>xs. IArr (map g xs)) o1) @ rest) = Ok (o1, rest)"
proof (cases o1)
  case None
  then show ?thesis by (simp add: opt_item_def read_array_opt_def dec_value_null)
next
  case (Some xs)
  have "unat (of_nat (length xs) :: u64) = length xs" using Some assms by (intro unat_small) simp
  then show ?thesis
    using Some assms array_def_render [of xs elem g "[]" rest]
    by (simp add: opt_item_def read_array_opt_def dec_value_untagged array_items_def cbor_head_rules)
qed

lemma read_array_render:
  assumes "length xs \<le> 131072" and "\<And>x r. x \<in> set xs \<Longrightarrow> elem (render (g x) @ r) = Ok (x, r)"
  shows "read_array gt elem (render (IArr (map g xs)) @ rest) = Ok (xs, rest)"
  using read_array_opt_render [of elem g "Some xs" gt rest] assms
  by (simp add: read_array_def opt_item_def)

end
