(* ===== verification/Cbor_Roundtrip.thy ===== *)
theory Cbor_Roundtrip
  imports Cbor_Item
begin

text \<open>
  The generated encoder refines the abstract encoding: the bytes that \<^verbatim>\<open>encode\<close> appends are the
  canonical encoding of the struct's data item. The generated decoder inverts it: for every
  schema with ascending keys, decoding the encoding of a well-typed struct returns the struct.
\<close>

section \<open>The data item of a struct\<close>

fun present :: "(u64 \<times> bool \<times> (fval \<Rightarrow> citem)) list \<Rightarrow> fval list \<Rightarrow> (u64 \<times> citem) list" where
  "present ((key, omit, g) # fs) (v # vs) =
     (if omit \<and> is_empty_field v then present fs vs else (key, g v) # present fs vs)"
| "present fs vs = []"

primrec field_item :: "fty \<Rightarrow> fval \<Rightarrow> citem"
  and struct_item :: "schema \<Rightarrow> fval list \<Rightarrow> citem"
  and fld_item :: "fld \<Rightarrow> u64 \<times> bool \<times> (fval \<Rightarrow> citem)"
where
  "field_item TBool = (\<lambda>v. case v of VBool b \<Rightarrow> IBool b | _ \<Rightarrow> INull)"
| "field_item (TUint mx) = (\<lambda>v. case v of VUint n \<Rightarrow> IUint n | _ \<Rightarrow> INull)"
| "field_item TInt = (\<lambda>v. case v of VInt i \<Rightarrow> int_item i | _ \<Rightarrow> INull)"
| "field_item TF64 = (\<lambda>v. case v of VF64 f \<Rightarrow> IFloat f | _ \<Rightarrow> INull)"
| "field_item TText = (\<lambda>v. case v of VText s \<Rightarrow> IText s | _ \<Rightarrow> INull)"
| "field_item TBytes = (\<lambda>v. case v of VBytes s \<Rightarrow> IBytes s | _ \<Rightarrow> INull)"
| "field_item TBytesOpt = (\<lambda>v. case v of VBytesOpt s \<Rightarrow> opt_item IBytes s | _ \<Rightarrow> INull)"
| "field_item TBytesList = (\<lambda>v. case v of VBytesList l \<Rightarrow> IArr (map IBytes l) | _ \<Rightarrow> INull)"
| "field_item TBytesOptList =
     (\<lambda>v. case v of VBytesOptList l \<Rightarrow> IArr (map (opt_item IBytes) l) | _ \<Rightarrow> INull)"
| "field_item TTextList = (\<lambda>v. case v of VTextList l \<Rightarrow> IArr (map IText l) | _ \<Rightarrow> INull)"
| "field_item TU16List =
     (\<lambda>v. case v of VU16List l \<Rightarrow> IArr (map (\<lambda>n. IUint (ucast n)) l) | _ \<Rightarrow> INull)"
| "field_item (TStructs S) =
     (\<lambda>v. case v of VStructs l \<Rightarrow> IArr (map (struct_item S) l) | _ \<Rightarrow> INull)"
| "field_item (TStructsOpt S) =
     (\<lambda>v. case v of VStructsOpt l \<Rightarrow> opt_item (\<lambda>l. IArr (map (struct_item S) l)) l | _ \<Rightarrow> INull)"
| "field_item (TStructPtr S) =
     (\<lambda>v. case v of VStructPtr p \<Rightarrow> opt_item (struct_item S) p | _ \<Rightarrow> INull)"
| "struct_item (Schema name fs) = (\<lambda>vs. IMap (present (map fld_item fs) vs))"
| "fld_item (Fld key ty gt omit) = (key, omit, field_item ty)"

section \<open>Well-typed structs and well-formed schemas\<close>

text \<open>
  A value of the field's type that a decoder can return: in range, text valid UTF-8, within the
  decoder's limits. A float is not a NaN (every NaN is encoded as the same bits), and a field with
  \<^verbatim>\<open>omitempty\<close> that is empty holds the default (the encoder leaves it out).
\<close>

primrec typed :: "fty \<Rightarrow> fval \<Rightarrow> bool"
  and struct_typed :: "schema \<Rightarrow> fval list \<Rightarrow> bool"
  and fld_typed :: "fld \<Rightarrow> fval \<Rightarrow> bool"
where
  "typed TBool = (\<lambda>v. case v of VBool b \<Rightarrow> True | _ \<Rightarrow> False)"
| "typed (TUint mx) = (\<lambda>v. case v of VUint n \<Rightarrow> n \<le> mx | _ \<Rightarrow> False)"
| "typed TInt = (\<lambda>v. case v of VInt i \<Rightarrow> I64_MIN_int \<le> i \<and> i \<le> I64_MAX_int | _ \<Rightarrow> False)"
| "typed TF64 = (\<lambda>v. case v of VF64 f \<Rightarrow> \<not> f64_is_nan f | _ \<Rightarrow> False)"
| "typed TText = (\<lambda>v. case v of VText s \<Rightarrow> utf8_valid s \<and> length s < 2 ^ 63 | _ \<Rightarrow> False)"
| "typed TBytes = (\<lambda>v. case v of VBytes s \<Rightarrow> length s < 2 ^ 63 | _ \<Rightarrow> False)"
| "typed TBytesOpt = (\<lambda>v. case v of VBytesOpt s \<Rightarrow> pred_option (\<lambda>b. length b < 2 ^ 63) s | _ \<Rightarrow> False)"
| "typed TBytesList = (\<lambda>v. case v of VBytesList l \<Rightarrow>
     length l \<le> 131072 \<and> list_all (\<lambda>b. length b < 2 ^ 63) l | _ \<Rightarrow> False)"
| "typed TBytesOptList = (\<lambda>v. case v of VBytesOptList l \<Rightarrow>
     length l \<le> 131072 \<and> list_all (pred_option (\<lambda>b. length b < 2 ^ 63)) l | _ \<Rightarrow> False)"
| "typed TTextList = (\<lambda>v. case v of VTextList l \<Rightarrow>
     length l \<le> 131072 \<and> list_all (\<lambda>s. utf8_valid s \<and> length s < 2 ^ 63) l | _ \<Rightarrow> False)"
| "typed TU16List = (\<lambda>v. case v of VU16List l \<Rightarrow> length l \<le> 131072 | _ \<Rightarrow> False)"
| "typed (TStructs S) = (\<lambda>v. case v of VStructs l \<Rightarrow>
     length l \<le> 131072 \<and> list_all (struct_typed S) l | _ \<Rightarrow> False)"
| "typed (TStructsOpt S) = (\<lambda>v. case v of VStructsOpt o1 \<Rightarrow>
     pred_option (\<lambda>l. length l \<le> 131072 \<and> list_all (struct_typed S) l) o1 | _ \<Rightarrow> False)"
| "typed (TStructPtr S) = (\<lambda>v. case v of VStructPtr p \<Rightarrow> pred_option (struct_typed S) p | _ \<Rightarrow> False)"
| "struct_typed (Schema name fs) = (\<lambda>vs. length vs = length fs \<and>
     list_all (\<lambda>(p, v). p v) (zip (map fld_typed fs) vs))"
| "fld_typed (Fld key ty gt omit) =
     (\<lambda>v. typed ty v \<and> (omit \<and> is_empty_field v \<longrightarrow> v = default_val ty))"

text \<open>
  The compile-time assertion of the macro: the keys ascend strictly. Keys are at most
  \<^verbatim>\<open>i64::MAX\<close> (the decoder refuses others), and nesting stays within the decoder's limit.
\<close>

primrec fty_ok :: "fty \<Rightarrow> bool"
  and schema_ok :: "schema \<Rightarrow> bool"
  and fld_ok :: "fld \<Rightarrow> bool"
where
  "fty_ok TBool = True"
| "fty_ok (TUint mx) = True"
| "fty_ok TInt = True"
| "fty_ok TF64 = True"
| "fty_ok TText = True"
| "fty_ok TBytes = True"
| "fty_ok TBytesOpt = True"
| "fty_ok TBytesList = True"
| "fty_ok TBytesOptList = True"
| "fty_ok TTextList = True"
| "fty_ok TU16List = True"
| "fty_ok (TStructs S) = schema_ok S"
| "fty_ok (TStructsOpt S) = schema_ok S"
| "fty_ok (TStructPtr S) = schema_ok S"
| "schema_ok (Schema name fs) = (sorted_wrt (<) (map fld_key fs) \<and> length fs \<le> 131072 \<and>
     list_all fld_ok fs)"
| "fld_ok (Fld key ty gt omit) = (key \<le> I64_MAX \<and> fty_ok ty)"

primrec fty_levels :: "fty \<Rightarrow> nat"
  and schema_levels :: "schema \<Rightarrow> nat"
  and fld_levels :: "fld \<Rightarrow> nat"
where
  "fty_levels TBool = 0"
| "fty_levels (TUint mx) = 0"
| "fty_levels TInt = 0"
| "fty_levels TF64 = 0"
| "fty_levels TText = 0"
| "fty_levels TBytes = 0"
| "fty_levels TBytesOpt = 0"
| "fty_levels TBytesList = 1"
| "fty_levels TBytesOptList = 1"
| "fty_levels TTextList = 1"
| "fty_levels TU16List = 1"
| "fty_levels (TStructs S) = Suc (schema_levels S)"
| "fty_levels (TStructsOpt S) = Suc (schema_levels S)"
| "fty_levels (TStructPtr S) = schema_levels S"
| "schema_levels (Schema name fs) = Suc (foldr max (map fld_levels fs) 0)"
| "fld_levels (Fld key ty gt omit) = fty_levels ty"

section \<open>The encoder refines the canonical encoding\<close>

lemma enc_prims:
  assumes "append_head_ok ah"
  shows "enc_uint ah e n = e @ render (IUint n)"
    and "enc_int ah e i = e @ render (int_item i)"
    and "enc_bool e b = e @ render (IBool b)"
    and "enc_null e = e @ render INull"
    and "enc_bytes ah e s = e @ render (IBytes s)"
    and "enc_text ah e s = e @ render (IText s)"
    and "enc_bytes_opt ah o1 e = e @ render (opt_item IBytes o1)"
  using assms
  by (auto simp: enc_uint_def enc_int_def enc_bool_def enc_null_def enc_bytes_def enc_text_def
      enc_head_def enc_bytes_opt_def opt_item_def int_item_def append_head_okD split: option.split)

lemma f64_canonical_append: "f64_canonical e v = e @ f64_canonical [] v"
  by (simp add: f64_canonical_def Let_def)

lemma enc_list_render:
  assumes "append_head_ok ah" and "\<And>x e. x \<in> set xs \<Longrightarrow> one x e = e @ render (g x)"
  shows "enc_list ah one xs e = e @ render (IArr (map g xs))"
proof -
  have "foldl (\<lambda>e x. one x e) e' xs = e' @ concat (map (render \<circ> g) xs)" for e'
    using assms(2) by (induction xs arbitrary: e') auto
  then show ?thesis using assms(1) by (simp add: enc_list_def enc_head_def append_head_okD)
qed

lemma zip_all: "length vs = length fs \<Longrightarrow>
    list_all (\<lambda>(p, v). p v) (zip (map f fs) vs) \<longleftrightarrow> list_all2 (\<lambda>F v. f F v) fs vs"
  by (induction fs vs rule: list_induct2') auto

lemma count_fields:
  "list_all2 P fs vs \<Longrightarrow> count_present (map (fst \<circ> snd) (map (encode_fld ah) fs)) vs
     = of_nat (length (present (map fld_item fs) vs))"
proof (induction rule: list_all2_induct)
  case (Cons F fs v vs)
  then show ?case by (cases F) simp
qed simp

lemma present_length: "length (present fs vs) \<le> length fs"
  by (induction fs vs rule: present.induct) auto

lemma encode_fields:
  assumes "append_head_ok ah"
    and "list_all2 (\<lambda>F v. \<forall>e. encode_field ah (fld_ty F) v e = e @ render (field_item (fld_ty F) v)) fs vs"
  shows "encode_present ah (map (encode_fld ah) fs) vs e =
    e @ concat (map (\<lambda>(k, b). cbor_head 0 k @ b)
      (map (map_prod id render) (present (map fld_item fs) vs)))"
  using assms(2)
proof (induction arbitrary: e rule: list_all2_induct)
  case (Cons F fs v vs)
  then show ?case using enc_prims(1) [OF assms(1)] by (cases F) simp
qed simp

lemma encode_render:
  assumes "append_head_ok ah"
  shows "typed ty v \<Longrightarrow> encode_field ah ty v e = e @ render (field_item ty v)"
    and "struct_typed S vs \<Longrightarrow> encode_struct ah S vs e = e @ render (struct_item S vs)"
    and "fld_typed F v \<Longrightarrow> encode_field ah (fld_ty F) v e = e @ render (field_item (fld_ty F) v)"
proof (induction ty and S and F arbitrary: v e and vs e and v e rule: fty.induct schema.induct fld.induct)
  case (Schema name fs)
  then have t: "list_all2 fld_typed fs vs" using zip_all [of vs fs fld_typed] by simp
  have "list_all2 (\<lambda>F v. \<forall>e. encode_field ah (fld_ty F) v e = e @ render (field_item (fld_ty F) v)) fs vs"
    using Schema.IH by (intro list.rel_mono_strong [OF t]) auto
  with encode_fields [OF assms] count_fields [OF t] show ?case
    using assms by (simp add: enc_head_def append_head_okD del: map_map)
next
  case TBytesList
  then show ?case using enc_list_render [OF assms, of _ "\<lambda>b e. enc_bytes ah e b" IBytes]
    by (auto simp: enc_prims [OF assms] simp del: render.simps split: fval.splits)
next
  case TBytesOptList
  then show ?case using enc_list_render [OF assms, of _ "enc_bytes_opt ah" "opt_item IBytes"]
    by (auto simp: enc_prims [OF assms] simp del: render.simps split: fval.splits)
next
  case TTextList
  then show ?case using enc_list_render [OF assms, of _ "\<lambda>b e. enc_text ah e b" IText]
    by (auto simp: enc_prims [OF assms] simp del: render.simps split: fval.splits)
next
  case TU16List
  then show ?case
    using enc_list_render [OF assms, of _ "\<lambda>n e. enc_uint ah e (ucast n)" "\<lambda>n. IUint (ucast n)"]
    by (auto simp: enc_prims [OF assms] simp del: render.simps split: fval.splits)
next
  case (TStructs S)
  then show ?case using enc_list_render [OF assms, of _ "encode_struct ah S" "struct_item S"]
    by (auto simp: list_all_iff simp del: render.simps split: fval.splits)
next
  case (TStructsOpt S)
  then show ?case using enc_list_render [OF assms, of _ "encode_struct ah S" "struct_item S"]
    by (auto simp: list_all_iff opt_item_def enc_prims [OF assms] simp del: render.simps
        split: fval.splits option.splits)
next
  case (TStructPtr S)
  then show ?case
    by (auto simp: opt_item_def enc_prims [OF assms] simp del: render.simps
        split: fval.splits option.splits)
next
  case TF64
  then show ?case using f64_canonical_append [of e] by (auto split: fval.splits)
qed (auto simp: enc_prims [OF assms] simp del: render.simps split: fval.splits)

section \<open>Limits\<close>

lemma Max_zero: "finite A \<Longrightarrow> (\<And>x. x \<in> A \<Longrightarrow> f x = (0::nat)) \<Longrightarrow> Max (insert 0 (f ` A)) = 0"
proof -
  assume "finite A" "\<And>x. x \<in> A \<Longrightarrow> f x = (0::nat)"
  then have "insert 0 (f ` A) = {0}" by auto
  then show ?thesis by (simp only: Max_singleton)
qed

lemma opt_bytes_limits [simp]:
  "levels (opt_item IBytes b) = 0"
  "within_limits (opt_item IBytes b) \<longleftrightarrow> pred_option (\<lambda>b. length b < 2 ^ 63) b"
  by (auto simp: opt_item_def split: option.split)

lemma field_limits:
  shows "typed ty v \<Longrightarrow> fty_ok ty \<Longrightarrow> within_limits (field_item ty v) \<and> levels (field_item ty v) \<le> fty_levels ty"
    and "struct_typed S vs \<Longrightarrow> schema_ok S \<Longrightarrow>
      within_limits (struct_item S vs) \<and> levels (struct_item S vs) \<le> schema_levels S"
    and "fld_typed F v \<Longrightarrow> fld_ok F \<Longrightarrow>
      within_limits (field_item (fld_ty F) v) \<and> levels (field_item (fld_ty F) v) \<le> fld_levels F"
proof (induction ty and S and F arbitrary: v and vs and v rule: fty.induct schema.induct fld.induct)
  case (Schema name fs)
  then have t: "list_all2 fld_typed fs vs" using zip_all [of vs fs fld_typed] by simp
  have ok: "list_all2 (\<lambda>F v. within_limits (field_item (fld_ty F) v) \<and>
      levels (field_item (fld_ty F) v) \<le> foldr max (map fld_levels fs) 0) fs vs"
  proof (rule list.rel_mono_strong [OF t])
    fix F v assume F: "F \<in> set fs" "fld_typed F v"
    have "fld_levels F \<le> foldr max (map fld_levels fs) 0" using F(1) by (induction fs) auto
    with Schema.IH [OF F] Schema.prems(2) F(1) show "within_limits (field_item (fld_ty F) v) \<and>
        levels (field_item (fld_ty F) v) \<le> foldr max (map fld_levels fs) 0"
      by (auto simp: list_all_iff)
  qed
  have "length (present (map fld_item fs) vs) \<le> length fs \<and>
      (\<forall>(k, c) \<in> set (present (map fld_item fs) vs). within_limits c \<and> levels c \<le> m)"
    if "list_all2 (\<lambda>F v. within_limits (field_item (fld_ty F) v) \<and> levels (field_item (fld_ty F) v) \<le> m) fs vs"
    for m fs vs
    using that
  proof (induction rule: list_all2_induct)
    case (Cons F fs v vs)
    then show ?case by (cases F) auto
  qed simp
  from this [OF ok] Schema.prems(2) show ?case
    by (auto simp: list_all_iff)
next
  case (TStructs S)
  then show ?case by (auto simp: list_all_iff split: fval.splits)
next
  case (TStructsOpt S)
  then show ?case by (auto simp: list_all_iff opt_item_def split: fval.splits option.splits)
next
  case (TStructPtr S)
  then show ?case by (auto simp: opt_item_def split: fval.splits option.splits)
qed (auto simp: int_item_def list_all_iff Max_zero split: fval.splits)

section \<open>The decoder inverts the encoder\<close>

lemma seen_default_contains [simp]: "\<not> seen_contains seen_default k"
  by (simp add: seen_contains_def seen_default_def)

lemma seen_contains_insert: "seen_contains (seen_insert s k) k' \<longleftrightarrow> k' = k \<or> seen_contains s k'"
proof (cases "k < 128 \<and> k' < 128")
  case True
  have bit: "w AND push_bit n 1 \<noteq> 0 \<longleftrightarrow> bit w n" if "n < 128" for w :: "128 word" and n
  proof -
    have "w AND push_bit n 1 = (if bit w n then push_bit n 1 else 0)"
      by (rule bit_word_eqI) (auto simp: bit_simps)
    moreover have "push_bit n (1 :: 128 word) \<noteq> 0" using that by (auto simp: bit_eq_iff bit_simps)
    ultimately show ?thesis by simp
  qed
  have "unat k < 128" "unat k' < 128" using True by (simp_all add: word_less_nat_alt)
  with True bit show ?thesis
    by (auto simp: seen_contains_def seen_insert_def bit_simps word_unat_eq_iff)
next
  case False
  then show ?thesis by (auto simp: seen_contains_def seen_insert_def)
qed

lemma match_key_hit:
  "k \<notin> fst ` set ds \<Longrightarrow> match_key (ds @ (k, dec) # ds') i k st bs =
     obind (dec bs) (\<lambda>(v, r). Ok (True, st[i + length ds := v], r))"
  by (induction ds i k st bs rule: match_key.induct) auto

lemma fld_key_fst: "fst (decode_fld F) = fld_key F" "fst (fld_item F) = fld_key F"
  by (cases F; simp)+

definition entries :: "(u64 \<times> citem) list \<Rightarrow> bytes" where
  "entries kvs = concat (map (\<lambda>(k, b). cbor_head 0 k @ b) (map (map_prod id render) kvs))"

lemma entries_simps [simp]:
  "entries [] = []" "entries ((k, c) # kvs) = cbor_head 0 k @ render c @ entries kvs"
  by (simp_all add: entries_def)

lemma render_IMap: "render (IMap kvs) = cbor_head 5 (of_nat (length kvs)) @ entries kvs"
  by (simp add: entries_def)

lemma entries_length: "length kvs \<le> length (entries kvs)"
proof (induction kvs)
  case (Cons kv kvs)
  obtain k c where "kv = (k, c)" by fastforce
  then show ?case using Cons render_nonempty [of c] by (cases "render c") auto
qed simp

definition default_vals :: "fld list \<Rightarrow> fval list" where
  "default_vals fs = map (default_val \<circ> fld_ty) fs"

lemma default_vals_simps [simp]:
  "default_vals [] = []" "default_vals (F # fs) = default_val (fld_ty F) # default_vals fs"
  by (simp_all add: default_vals_def)

lemma map_entry_hit:
  "\<not> key > I64_MAX \<Longrightarrow> \<not> seen_contains sn key \<Longrightarrow> field key st bs = Ok (True, st1, r) \<Longrightarrow>
    map_entry field name sn st (cbor_head 0 key @ bs) = Ok (seen_insert sn key, st1, r)"
  by (simp add: map_entry_def peek_cbor_head cbor_head_rules)

text \<open>
  The loop over the present fields: what is done is in the struct, what is to do holds the default,
  and only keys that are done have been seen.
\<close>

lemma map_loop_fields:
  assumes "distinct (map fld_key (dn @ td))" and "list_all (\<lambda>F. fld_key F \<le> I64_MAX) td"
    and "list_all2 fld_typed td tv"
    and "list_all2 (\<lambda>F v. \<forall>r. snd (decode_fld F) (render (field_item (fld_ty F) v) @ r) = Ok (v, r)) td tv"
    and "length dv = length dn" and "\<And>k. seen_contains sn k \<Longrightarrow> k \<in> fld_key ` set dn"
    and "length (present (map fld_item td) tv) < k" and "length td \<le> 131072"
  shows "map_loop (match_key (map decode_fld (dn @ td)) 0) name False k
      (of_nat (length (present (map fld_item td) tv))) sn (dv @ default_vals td)
      (entries (present (map fld_item td) tv) @ rest)
    = Ok (dv @ tv, rest)"
  using assms
proof (induction td arbitrary: dn dv tv sn k)
  case Nil
  then show ?case by (cases k) auto
next
  case (Cons F td)
  obtain v tv' where tv: "tv = v # tv'" using Cons.prems(3) by (cases tv) auto
  obtain key ty gt om where F: "F = Fld key ty gt om" by (cases F)
  obtain k1 where k: "k = Suc k1" using Cons.prems(7) by (cases k) auto
  have rec: "map_loop (match_key (map decode_fld ((dn @ [F]) @ td)) 0) name False k'
      (of_nat (length (present (map fld_item td) tv'))) sn' ((dv @ [v]) @ default_vals td)
      (entries (present (map fld_item td) tv') @ rest)
    = Ok ((dv @ [v]) @ tv', rest)"
    if "\<And>k. seen_contains sn' k \<Longrightarrow> k \<in> fld_key ` set (dn @ [F])"
      "length (present (map fld_item td) tv') < k'" for sn' k'
    using Cons.prems that by (intro Cons.IH) (auto simp: tv)
  show ?case
  proof (cases "om \<and> is_empty_field v")
    case True
    then have "v = default_val ty" using Cons.prems(3) by (simp add: tv F)
    with True rec [of sn k] Cons.prems(6,7) show ?thesis by (auto simp: tv F)
  next
    case False
    let ?n = "length (present (map fld_item td) tv')"
    let ?b = "entries (present (map fld_item td) tv') @ rest"
    have "?n \<le> length td"
      using Cons.prems(3) by (simp add: tv) (metis length_map present_length)
    then have n: "of_nat (Suc ?n) \<noteq> (0 :: u64)" using Cons.prems(8)
      by (simp add: word_unat_eq_iff unat_small del: of_nat_Suc)
    have ns: "\<not> seen_contains sn key" using Cons.prems(1,6) by (auto simp: F)
    have key: "\<not> key > I64_MAX" using Cons.prems(2) by (simp add: F not_less)
    have hit: "match_key (map decode_fld (dn @ F # td)) 0 key (dv @ default_vals (F # td))
        (render (field_item ty v) @ ?b) = Ok (True, dv @ v # default_vals td, ?b)"
      using match_key_hit [of key "map decode_fld dn" "decode_field ty gt" "map decode_fld td" 0]
        Cons.prems(1,4,5) by (auto simp: F tv fld_key_fst image_image list_update_append)
    have "map_entry (match_key (map decode_fld (dn @ F # td)) 0) name sn (dv @ default_vals (F # td))
        (cbor_head 0 key @ render (field_item ty v) @ ?b)
      = Ok (seen_insert sn key, dv @ v # default_vals td, ?b)"
      using key ns hit by (rule map_entry_hit)
    moreover have "seen_contains (seen_insert sn key) k' \<Longrightarrow> k' \<in> fld_key ` set (dn @ [F])" for k'
      using Cons.prems(6) [of k'] by (auto simp: seen_contains_insert F)
    ultimately show ?thesis
      using rec [of "seen_insert sn key" k1] Cons.prems(7) n False
      by (auto simp: tv F k at_end_def)
  qed
qed

lemma decode_fields:
  assumes "schema_ok (Schema name fs)" and "struct_typed (Schema name fs) vs"
    and "\<And>F v r. F \<in> set fs \<Longrightarrow> fld_typed F v \<Longrightarrow>
      snd (decode_fld F) (render (field_item (fld_ty F) v) @ r) = Ok (v, r)"
  shows "decode_struct (Schema name fs) (render (struct_item (Schema name fs) vs) @ rest) = Ok (vs, rest)"
proof -
  have t: "list_all2 fld_typed fs vs" using assms(2) zip_all [of vs fs fld_typed] by simp
  let ?p = "present (map fld_item fs) vs"
  have n: "length ?p \<le> 131072" using present_length [of "map fld_item fs" vs] assms(1) by simp
  have d: "distinct (map fld_key fs)" using assms(1) by (auto simp: strict_sorted_iff)
  have keys: "list_all (\<lambda>F. fld_key F \<le> I64_MAX) fs"
    using assms(1) by (auto simp: list_all_iff) (metis fld_key.simps fld_ok.simps fld.exhaust)
  have "map_loop (match_key (map decode_fld ([] @ fs)) 0) name False (Suc (length (entries ?p @ rest)))
      (of_nat (length ?p)) seen_default ([] @ default_vals fs) (entries ?p @ rest) = Ok ([] @ vs, rest)"
    using d keys t assms(1,3) entries_length [of ?p]
    by (intro map_loop_fields list.rel_mono_strong [OF t]) auto
  then show ?thesis
    using cbor_head_rules [of 5 "of_nat (length ?p)"]
    unfolding struct_item.simps render_IMap decode_struct.simps
    by (simp add: read_map_struct_def dec_value_untagged default_vals_def del: map_loop.simps)
qed

lemma decode_render:
  shows "typed ty v \<Longrightarrow> fty_ok ty \<Longrightarrow> decode_field ty gt (render (field_item ty v) @ rest) = Ok (v, rest)"
    and "struct_typed S vs \<Longrightarrow> schema_ok S \<Longrightarrow> decode_struct S (render (struct_item S vs) @ rest) = Ok (vs, rest)"
    and "fld_typed F v \<Longrightarrow> fld_ok F \<Longrightarrow>
      snd (decode_fld F) (render (field_item (fld_ty F) v) @ rest) = Ok (v, rest)"
proof (induction ty and S and F arbitrary: v gt rest and vs rest and v rest
    rule: fty.induct schema.induct fld.induct)
  case (Schema name fs)
  then show ?case by (intro decode_fields) (auto simp: list_all_iff)
next
  case TBytesList
  then show ?case using read_array_render [of _ "read_bytes (elem_type gt)" IBytes]
    by (auto simp: rmap_def list_all_iff read_bytes_render simp del: render.simps split: fval.splits)
next
  case TBytesOptList
  then show ?case using read_array_render [of _ "read_bytes_opt (elem_type gt)" "opt_item IBytes"]
    by (auto simp: rmap_def list_all_iff read_bytes_opt_render simp del: render.simps split: fval.splits)
next
  case TTextList
  then show ?case using read_array_render [of _ "read_text (elem_type gt)" IText]
    by (auto simp: rmap_def list_all_iff read_text_render simp del: render.simps split: fval.splits)
next
  case TU16List
  have "rmap ucast (read_uint (elem_type gt) 0xffff) (render (IUint (ucast n)) @ r) = Ok (n, r)"
    for n :: u16 and r
  proof -
    have "(ucast n :: u64) \<le> 0xffff"
      using unsigned_less [of n, where ?'a = nat] by (simp add: word_le_nat_alt unsigned_ucast_eq take_bit_nat_eq_self)
    moreover have "ucast (ucast n :: u64) = n" by (rule bit_word_eqI) (simp add: bit_simps)
    ultimately show ?thesis by (simp add: rmap_def read_uint_render del: render.simps)
  qed
  with TU16List show ?case
    using read_array_render [of _ "rmap ucast (read_uint (elem_type gt) 0xffff)" "\<lambda>n :: u16. IUint (ucast n)"]
    by (auto simp: rmap_def [of VU16List] simp del: render.simps split: fval.splits)
next
  case (TStructs S)
  then show ?case using read_array_render [of _ "decode_struct S" "struct_item S"]
    by (auto simp: rmap_def list_all_iff simp del: render.simps split: fval.splits)
next
  case (TStructsOpt S)
  then show ?case using read_array_opt_render [of "decode_struct S" "struct_item S"]
    by (auto simp: rmap_def list_all_iff pred_option_def simp del: render.simps split: fval.splits)
next
  case (TStructPtr S)
  from TStructPtr.prems(1) obtain p where v: "v = VStructPtr p" by (auto split: fval.splits)
  show ?case
  proof (cases p)
    case None
    then show ?thesis by (simp add: v opt_item_def take_null_def at_end_def cur_def)
  next
    case (Some vs)
    obtain name fs where S: "S = Schema name fs" by (cases S)
    have "take_null (render (struct_item S vs) @ rest) = (False, render (struct_item S vs) @ rest)"
      using cur_head_not_null [of 5] by (simp add: S render_IMap take_null_def del: render.simps)
    with TStructPtr Some show ?thesis
      by (simp add: v opt_item_def rmap_def del: render.simps)
  qed
qed (auto simp: rmap_def read_uint_render read_int_render read_bool_render read_f64_render read_text_render
    read_bytes_render read_bytes_opt_render simp del: render.simps split: fval.splits)

text \<open>
  A client that stores structs as bytes relies on this interface: what \<^verbatim>\<open>marshal\<close> writes,
  \<^verbatim>\<open>unmarshal\<close> reads back, and nothing else is left over.
\<close>

lemma marshal_render:
  "append_head_ok ah \<Longrightarrow> struct_typed S vs \<Longrightarrow> marshal ah S vs = render (struct_item S vs)"
  by (simp add: marshal_def encode_render)

lemma marshal_well_formed:
  assumes "append_head_ok ah" and "struct_typed S vs" and "schema_ok S" and "schema_levels S \<le> 32"
  shows "well_formed (marshal ah S vs) = Ok ()"
proof -
  let ?b = "render (struct_item S vs)"
  have l: "within_limits (struct_item S vs)" "levels (struct_item S vs) + 0 \<le> 32"
    using field_limits(2) [OF assms(2,3)] assms(4) by auto
  have "wf_item (Suc (length ?b)) 0 (?b @ []) = Ok []" by (rule wf_render [OF l]) simp
  then show ?thesis
    using marshal_render [OF assms(1,2)] by (simp add: well_formed_def del: render.simps)
qed

lemma unmarshal_marshal:
  assumes "append_head_ok ah" and "struct_typed S vs" and "schema_ok S" and "schema_levels S \<le> 32"
  shows "unmarshal (decode_struct S) (marshal ah S vs) = Ok vs"
  using marshal_well_formed [OF assms] decode_render(2) [OF assms(2,3), of "[]"]
    marshal_render [OF assms(1,2)]
  by (simp add: unmarshal_def del: render.simps)

end
