(* ===== verification/Cbor_Record.thy ===== *)
theory Cbor_Record
  imports Cbor_Roundtrip
begin

text \<open>
  Structs as records. A \<^verbatim>\<open>cbor_struct!\<close> declaration gives a record type, its schema, the list of its
  field values and the record back from the values; the locale \<open>cbor_record\<close> is what the wire and
  view layers rely on: the two conversions are inverse and the schema is one the codec accepts.
  Every declaration interprets it.
\<close>

section \<open>Reading a field value\<close>

fun get_bool :: "fval \<Rightarrow> bool" where "get_bool (VBool b) = b" | "get_bool _ = False"
fun get_uint :: "fval \<Rightarrow> u64" where "get_uint (VUint n) = n" | "get_uint _ = 0"
fun get_int :: "fval \<Rightarrow> int" where "get_int (VInt i) = i" | "get_int _ = 0"
fun get_f64 :: "fval \<Rightarrow> u64" where "get_f64 (VF64 f) = f" | "get_f64 _ = 0"
fun get_text :: "fval \<Rightarrow> bytes" where "get_text (VText s) = s" | "get_text _ = []"
fun get_bytes :: "fval \<Rightarrow> bytes" where "get_bytes (VBytes s) = s" | "get_bytes _ = []"
fun get_bytes_opt :: "fval \<Rightarrow> bytes option" where "get_bytes_opt (VBytesOpt s) = s" | "get_bytes_opt _ = None"
fun get_bytes_list :: "fval \<Rightarrow> bytes list" where "get_bytes_list (VBytesList l) = l" | "get_bytes_list _ = []"
fun get_bytes_opt_list :: "fval \<Rightarrow> bytes option list" where
  "get_bytes_opt_list (VBytesOptList l) = l" | "get_bytes_opt_list _ = []"
fun get_text_list :: "fval \<Rightarrow> bytes list" where "get_text_list (VTextList l) = l" | "get_text_list _ = []"
fun get_u16_list :: "fval \<Rightarrow> u16 list" where "get_u16_list (VU16List l) = l" | "get_u16_list _ = []"
fun get_structs :: "(fval list \<Rightarrow> 'a) \<Rightarrow> fval \<Rightarrow> 'a list" where
  "get_structs f (VStructs l) = map f l" | "get_structs f _ = []"
fun get_structs_opt :: "(fval list \<Rightarrow> 'a) \<Rightarrow> fval \<Rightarrow> 'a list option" where
  "get_structs_opt f (VStructsOpt l) = map_option (map f) l" | "get_structs_opt f _ = None"
fun get_struct_ptr :: "(fval list \<Rightarrow> 'a) \<Rightarrow> fval \<Rightarrow> 'a option" where
  "get_struct_ptr f (VStructPtr p) = map_option f p" | "get_struct_ptr f _ = None"

lemma ucast_back [simp]: "ucast (ucast (n :: byte) :: u64) = n" "ucast (ucast (m :: u32) :: u64) = m"
  by (rule bit_word_eqI; simp add: bit_simps)+

lemma ascending_keys:
  "sorted_wrt (<) [x :: u64]" "sorted_wrt (<) ([] :: u64 list)"
  "sorted_wrt (<) (x # y # (ys :: u64 list)) \<longleftrightarrow> x < y \<and> sorted_wrt (<) (y # ys)"
  by (auto intro: order_less_trans)

section \<open>The interface of a struct type\<close>

locale cbor_record =
  fixes S :: schema
    and vals :: "'r \<Rightarrow> fval list"
    and of_vals :: "fval list \<Rightarrow> 'r"
  assumes of_vals_vals: "of_vals (vals x) = x"
    and schema_fits: "schema_ok S \<and> schema_levels S \<le> 32"
begin

lemma decode_encode:
  assumes "append_head_ok ah" and "struct_typed S (vals x)"
  shows "obind (unmarshal (decode_struct S) (marshal ah S (vals x))) (\<lambda>vs. Ok (of_vals vs)) = Ok x"
proof -
  have "unmarshal (decode_struct S) (marshal ah S (vals x)) = Ok (vals x)"
    using schema_fits by (intro unmarshal_marshal [OF assms]) auto
  then show ?thesis by (simp add: of_vals_vals)
qed

text \<open>Equal encodings come from equal structs.\<close>

lemma encode_inject:
  assumes "append_head_ok ah" and "struct_typed S (vals x)" and "struct_typed S (vals y)"
    and "marshal ah S (vals x) = marshal ah S (vals y)"
  shows "x = y"
proof -
  have "Ok x = (Ok y :: (decode_error, 'r) outcome)"
    using decode_encode [OF assms(1,2)] decode_encode [OF assms(1,3)] assms(4) by metis
  then show ?thesis by simp
qed

end

end
