(* ===== verification/Wire_Msg.thy ===== *)
theory Wire_Msg
  imports Cbor_Record
begin

text \<open>
  \<^verbatim>\<open>crates/wire/src/msg.rs\<close>, \<^verbatim>\<open>admin.rs\<close> and the structs of \<^verbatim>\<open>pack.rs\<close>: the messages of the
  protocol, as records with their schemas. Every struct is a \<open>cbor_record\<close>.
\<close>

section \<open>\<^verbatim>\<open>wire.Msg\<close> and its parts\<close>

text \<open>\<^verbatim>\<open>KeyHolders\<close>\<close>

record key_holders =
  kh_key :: "bytes option"
  kh_holders :: "bytes list"

definition key_holders_schema :: schema where
  "key_holders_schema = Schema ''wire.KeyHolders''
    [Fld 0 TBytesOpt ''[]uint8'' False,
     Fld 1 TBytesList ''[][]uint8'' True]"

definition key_holders_vals :: "key_holders \<Rightarrow> fval list" where
  "key_holders_vals x =
    [VBytesOpt (kh_key x),
     VBytesList (kh_holders x)]"

definition key_holders_of_vals :: "fval list \<Rightarrow> key_holders" where
  "key_holders_of_vals vs =
    \<lparr>kh_key = get_bytes_opt (vs ! 0),
     kh_holders = get_bytes_list (vs ! 1)\<rparr>"

lemma key_holders_levels: "schema_levels key_holders_schema = 2"
  by (simp add: key_holders_schema_def)

interpretation key_holders_rec: cbor_record key_holders_schema key_holders_vals key_holders_of_vals
proof
  show "key_holders_of_vals (key_holders_vals x) = x" for x
    by (cases x) (simp add: key_holders_of_vals_def key_holders_vals_def)
  show "schema_ok key_holders_schema \<and> schema_levels key_holders_schema \<le> 32"
    by (simp add: key_holders_schema_def ascending_keys del: sorted_wrt.simps)
qed

text \<open>\<^verbatim>\<open>KeyFailure\<close>\<close>

record key_failure =
  kf_key :: "bytes option"
  kf_node :: "bytes option"
  kf_reason :: bytes
  kf_retry_after :: int

definition key_failure_schema :: schema where
  "key_failure_schema = Schema ''wire.KeyFailure''
    [Fld 0 TBytesOpt ''[]uint8'' False,
     Fld 1 TBytesOpt ''[]uint8'' False,
     Fld 2 TText ''string'' False,
     Fld 3 TInt ''int64'' True]"

definition key_failure_vals :: "key_failure \<Rightarrow> fval list" where
  "key_failure_vals x =
    [VBytesOpt (kf_key x),
     VBytesOpt (kf_node x),
     VText (kf_reason x),
     VInt (kf_retry_after x)]"

definition key_failure_of_vals :: "fval list \<Rightarrow> key_failure" where
  "key_failure_of_vals vs =
    \<lparr>kf_key = get_bytes_opt (vs ! 0),
     kf_node = get_bytes_opt (vs ! 1),
     kf_reason = get_text (vs ! 2),
     kf_retry_after = get_int (vs ! 3)\<rparr>"

lemma key_failure_levels: "schema_levels key_failure_schema = 1"
  by (simp add: key_failure_schema_def)

interpretation key_failure_rec: cbor_record key_failure_schema key_failure_vals key_failure_of_vals
proof
  show "key_failure_of_vals (key_failure_vals x) = x" for x
    by (cases x) (simp add: key_failure_of_vals_def key_failure_vals_def)
  show "schema_ok key_failure_schema \<and> schema_levels key_failure_schema \<le> 32"
    by (simp add: key_failure_schema_def ascending_keys del: sorted_wrt.simps)
qed

text \<open>\<^verbatim>\<open>KeyReject\<close>\<close>

record key_reject =
  kr_key :: "bytes option"
  kr_reason :: bytes

definition key_reject_schema :: schema where
  "key_reject_schema = Schema ''wire.KeyReject''
    [Fld 0 TBytesOpt ''[]uint8'' False,
     Fld 1 TText ''string'' False]"

definition key_reject_vals :: "key_reject \<Rightarrow> fval list" where
  "key_reject_vals x =
    [VBytesOpt (kr_key x),
     VText (kr_reason x)]"

definition key_reject_of_vals :: "fval list \<Rightarrow> key_reject" where
  "key_reject_of_vals vs =
    \<lparr>kr_key = get_bytes_opt (vs ! 0),
     kr_reason = get_text (vs ! 1)\<rparr>"

lemma key_reject_levels: "schema_levels key_reject_schema = 1"
  by (simp add: key_reject_schema_def)

interpretation key_reject_rec: cbor_record key_reject_schema key_reject_vals key_reject_of_vals
proof
  show "key_reject_of_vals (key_reject_vals x) = x" for x
    by (cases x) (simp add: key_reject_of_vals_def key_reject_vals_def)
  show "schema_ok key_reject_schema \<and> schema_levels key_reject_schema \<le> 32"
    by (simp add: key_reject_schema_def ascending_keys del: sorted_wrt.simps)
qed

text \<open>\<^verbatim>\<open>RefInfo\<close>\<close>

record ref_info =
  ri_name :: bytes
  ri_key :: "bytes option"
  ri_version :: "bytes option"
  ri_created_at :: int
  ri_user :: bytes

definition ref_info_schema :: schema where
  "ref_info_schema = Schema ''wire.RefInfo''
    [Fld 0 TText ''string'' False,
     Fld 1 TBytesOpt ''[]uint8'' False,
     Fld 2 TBytesOpt ''[]uint8'' False,
     Fld 3 TInt ''int64'' False,
     Fld 4 TText ''string'' True]"

definition ref_info_vals :: "ref_info \<Rightarrow> fval list" where
  "ref_info_vals x =
    [VText (ri_name x),
     VBytesOpt (ri_key x),
     VBytesOpt (ri_version x),
     VInt (ri_created_at x),
     VText (ri_user x)]"

definition ref_info_of_vals :: "fval list \<Rightarrow> ref_info" where
  "ref_info_of_vals vs =
    \<lparr>ri_name = get_text (vs ! 0),
     ri_key = get_bytes_opt (vs ! 1),
     ri_version = get_bytes_opt (vs ! 2),
     ri_created_at = get_int (vs ! 3),
     ri_user = get_text (vs ! 4)\<rparr>"

lemma ref_info_levels: "schema_levels ref_info_schema = 1"
  by (simp add: ref_info_schema_def)

interpretation ref_info_rec: cbor_record ref_info_schema ref_info_vals ref_info_of_vals
proof
  show "ref_info_of_vals (ref_info_vals x) = x" for x
    by (cases x) (simp add: ref_info_of_vals_def ref_info_vals_def)
  show "schema_ok ref_info_schema \<and> schema_levels ref_info_schema \<le> 32"
    by (simp add: ref_info_schema_def ascending_keys del: sorted_wrt.simps)
qed

text \<open>\<^verbatim>\<open>ScanRow\<close>\<close>

record scan_row =
  sr_reg :: "bytes option"
  sr_promised :: bytes
  sr_accepted :: bytes
  sr_value :: bytes
  sr_has_value :: bool

definition scan_row_schema :: schema where
  "scan_row_schema = Schema ''wire.ScanRow''
    [Fld 0 TBytesOpt ''[]uint8'' False,
     Fld 1 TBytes ''[]uint8'' True,
     Fld 2 TBytes ''[]uint8'' True,
     Fld 3 TBytes ''[]uint8'' True,
     Fld 4 TBool ''bool'' True]"

definition scan_row_vals :: "scan_row \<Rightarrow> fval list" where
  "scan_row_vals x =
    [VBytesOpt (sr_reg x),
     VBytes (sr_promised x),
     VBytes (sr_accepted x),
     VBytes (sr_value x),
     VBool (sr_has_value x)]"

definition scan_row_of_vals :: "fval list \<Rightarrow> scan_row" where
  "scan_row_of_vals vs =
    \<lparr>sr_reg = get_bytes_opt (vs ! 0),
     sr_promised = get_bytes (vs ! 1),
     sr_accepted = get_bytes (vs ! 2),
     sr_value = get_bytes (vs ! 3),
     sr_has_value = get_bool (vs ! 4)\<rparr>"

lemma scan_row_levels: "schema_levels scan_row_schema = 1"
  by (simp add: scan_row_schema_def)

interpretation scan_row_rec: cbor_record scan_row_schema scan_row_vals scan_row_of_vals
proof
  show "scan_row_of_vals (scan_row_vals x) = x" for x
    by (cases x) (simp add: scan_row_of_vals_def scan_row_vals_def)
  show "schema_ok scan_row_schema \<and> schema_levels scan_row_schema \<le> 32"
    by (simp add: scan_row_schema_def ascending_keys del: sorted_wrt.simps)
qed

text \<open>\<^verbatim>\<open>Msg\<close>\<close>

record msg =
  m_typ :: int
  m_cluster_id :: bytes
  m_incarnation :: u64
  m_epoch :: u64
  m_keys :: "bytes list"
  m_pin :: bool
  m_name :: bytes
  m_record :: bytes
  m_data :: bytes
  m_key :: bytes
  m_code :: bytes
  m_text :: bytes
  m_view :: bytes
  m_version :: bytes
  m_expected_version :: bytes
  m_expected_old :: bytes
  m_force :: bool
  m_has_expected :: bool
  m_prefix :: bytes
  m_after :: bytes
  m_limit :: int
  m_refs :: "ref_info list"
  m_next :: bytes
  m_holders :: "key_holders list"
  m_failed :: "key_failure list"
  m_rejected :: "key_reject list"
  m_short :: "key_holders list"
  m_unreachable :: "bytes list"
  m_retry_after :: int
  m_current :: bytes
  m_shortfall :: int
  m_has_current :: bool
  m_reg :: bytes
  m_ballot :: bytes
  m_value :: bytes
  m_has_value :: bool
  m_accepted :: bytes
  m_promised :: bytes
  m_not_after :: int
  m_rows :: "scan_row list"
  m_more :: bool
  m_since :: u64
  m_token :: bytes
  m_weight :: u32
  m_zone :: bytes
  m_addrs :: "bytes list"
  m_no_vote :: bool
  m_g :: u64
  m_nonce :: bytes
  m_seq :: u64
  m_expand :: bool
  m_params :: bytes
  m_sent :: u64
  m_received :: u64
  m_idle :: bool
  m_marked :: u64
  m_missing :: "bytes list"
  m_status :: bytes
  m_node :: bytes
  m_error :: bytes
  m_pattern :: bytes
  m_deleted :: "bytes list"

definition msg_schema :: schema where
  "msg_schema = Schema ''wire.Msg''
    [Fld 0 TInt ''int'' False,
     Fld 1 TBytes ''[]uint8'' True,
     Fld 2 TU64 ''uint64'' True,
     Fld 3 TU64 ''uint64'' True,
     Fld 4 TBytesList ''[][]uint8'' True,
     Fld 5 TBool ''bool'' True,
     Fld 6 TText ''string'' True,
     Fld 7 TBytes ''[]uint8'' True,
     Fld 8 TBytes ''[]uint8'' True,
     Fld 9 TBytes ''[]uint8'' True,
     Fld 10 TText ''string'' True,
     Fld 11 TText ''string'' True,
     Fld 12 TBytes ''[]uint8'' True,
     Fld 13 TBytes ''[]uint8'' True,
     Fld 14 TBytes ''[]uint8'' True,
     Fld 15 TBytes ''[]uint8'' True,
     Fld 16 TBool ''bool'' True,
     Fld 17 TBool ''bool'' True,
     Fld 18 TBytes ''[]uint8'' True,
     Fld 19 TBytes ''[]uint8'' True,
     Fld 20 TInt ''int'' True,
     Fld 21 (TStructs ref_info_schema) ''[]wire.RefInfo'' True,
     Fld 22 TBytes ''[]uint8'' True,
     Fld 23 (TStructs key_holders_schema) ''[]wire.KeyHolders'' True,
     Fld 24 (TStructs key_failure_schema) ''[]wire.KeyFailure'' True,
     Fld 25 (TStructs key_reject_schema) ''[]wire.KeyReject'' True,
     Fld 26 (TStructs key_holders_schema) ''[]wire.KeyHolders'' True,
     Fld 27 TBytesList ''[][]uint8'' True,
     Fld 28 TInt ''int64'' True,
     Fld 29 TBytes ''[]uint8'' True,
     Fld 30 TInt ''int'' True,
     Fld 31 TBool ''bool'' True,
     Fld 32 TBytes ''[]uint8'' True,
     Fld 33 TBytes ''[]uint8'' True,
     Fld 34 TBytes ''[]uint8'' True,
     Fld 35 TBool ''bool'' True,
     Fld 36 TBytes ''[]uint8'' True,
     Fld 37 TBytes ''[]uint8'' True,
     Fld 38 TInt ''int64'' True,
     Fld 39 (TStructs scan_row_schema) ''[]wire.ScanRow'' True,
     Fld 40 TBool ''bool'' True,
     Fld 41 TU64 ''uint64'' True,
     Fld 42 TBytes ''[]uint8'' True,
     Fld 43 TU32 ''uint32'' True,
     Fld 44 TText ''string'' True,
     Fld 45 TTextList ''[]string'' True,
     Fld 46 TBool ''bool'' True,
     Fld 47 TU64 ''uint64'' True,
     Fld 48 TBytes ''[]uint8'' True,
     Fld 49 TU64 ''uint64'' True,
     Fld 50 TBool ''bool'' True,
     Fld 51 TBytes ''[]uint8'' True,
     Fld 52 TU64 ''uint64'' True,
     Fld 53 TU64 ''uint64'' True,
     Fld 54 TBool ''bool'' True,
     Fld 55 TU64 ''uint64'' True,
     Fld 56 TBytesList ''[][]uint8'' True,
     Fld 57 TBytes ''[]uint8'' True,
     Fld 58 TBytes ''[]uint8'' True,
     Fld 59 TText ''string'' True,
     Fld 60 TText ''string'' True,
     Fld 61 TTextList ''[]string'' True]"

definition msg_vals :: "msg \<Rightarrow> fval list" where
  "msg_vals x =
    [VInt (m_typ x),
     VBytes (m_cluster_id x),
     VUint (m_incarnation x),
     VUint (m_epoch x),
     VBytesList (m_keys x),
     VBool (m_pin x),
     VText (m_name x),
     VBytes (m_record x),
     VBytes (m_data x),
     VBytes (m_key x),
     VText (m_code x),
     VText (m_text x),
     VBytes (m_view x),
     VBytes (m_version x),
     VBytes (m_expected_version x),
     VBytes (m_expected_old x),
     VBool (m_force x),
     VBool (m_has_expected x),
     VBytes (m_prefix x),
     VBytes (m_after x),
     VInt (m_limit x),
     VStructs (map ref_info_vals (m_refs x)),
     VBytes (m_next x),
     VStructs (map key_holders_vals (m_holders x)),
     VStructs (map key_failure_vals (m_failed x)),
     VStructs (map key_reject_vals (m_rejected x)),
     VStructs (map key_holders_vals (m_short x)),
     VBytesList (m_unreachable x),
     VInt (m_retry_after x),
     VBytes (m_current x),
     VInt (m_shortfall x),
     VBool (m_has_current x),
     VBytes (m_reg x),
     VBytes (m_ballot x),
     VBytes (m_value x),
     VBool (m_has_value x),
     VBytes (m_accepted x),
     VBytes (m_promised x),
     VInt (m_not_after x),
     VStructs (map scan_row_vals (m_rows x)),
     VBool (m_more x),
     VUint (m_since x),
     VBytes (m_token x),
     VUint (ucast (m_weight x)),
     VText (m_zone x),
     VTextList (m_addrs x),
     VBool (m_no_vote x),
     VUint (m_g x),
     VBytes (m_nonce x),
     VUint (m_seq x),
     VBool (m_expand x),
     VBytes (m_params x),
     VUint (m_sent x),
     VUint (m_received x),
     VBool (m_idle x),
     VUint (m_marked x),
     VBytesList (m_missing x),
     VBytes (m_status x),
     VBytes (m_node x),
     VText (m_error x),
     VText (m_pattern x),
     VTextList (m_deleted x)]"

definition msg_of_vals :: "fval list \<Rightarrow> msg" where
  "msg_of_vals vs =
    \<lparr>m_typ = get_int (vs ! 0),
     m_cluster_id = get_bytes (vs ! 1),
     m_incarnation = get_uint (vs ! 2),
     m_epoch = get_uint (vs ! 3),
     m_keys = get_bytes_list (vs ! 4),
     m_pin = get_bool (vs ! 5),
     m_name = get_text (vs ! 6),
     m_record = get_bytes (vs ! 7),
     m_data = get_bytes (vs ! 8),
     m_key = get_bytes (vs ! 9),
     m_code = get_text (vs ! 10),
     m_text = get_text (vs ! 11),
     m_view = get_bytes (vs ! 12),
     m_version = get_bytes (vs ! 13),
     m_expected_version = get_bytes (vs ! 14),
     m_expected_old = get_bytes (vs ! 15),
     m_force = get_bool (vs ! 16),
     m_has_expected = get_bool (vs ! 17),
     m_prefix = get_bytes (vs ! 18),
     m_after = get_bytes (vs ! 19),
     m_limit = get_int (vs ! 20),
     m_refs = get_structs ref_info_of_vals (vs ! 21),
     m_next = get_bytes (vs ! 22),
     m_holders = get_structs key_holders_of_vals (vs ! 23),
     m_failed = get_structs key_failure_of_vals (vs ! 24),
     m_rejected = get_structs key_reject_of_vals (vs ! 25),
     m_short = get_structs key_holders_of_vals (vs ! 26),
     m_unreachable = get_bytes_list (vs ! 27),
     m_retry_after = get_int (vs ! 28),
     m_current = get_bytes (vs ! 29),
     m_shortfall = get_int (vs ! 30),
     m_has_current = get_bool (vs ! 31),
     m_reg = get_bytes (vs ! 32),
     m_ballot = get_bytes (vs ! 33),
     m_value = get_bytes (vs ! 34),
     m_has_value = get_bool (vs ! 35),
     m_accepted = get_bytes (vs ! 36),
     m_promised = get_bytes (vs ! 37),
     m_not_after = get_int (vs ! 38),
     m_rows = get_structs scan_row_of_vals (vs ! 39),
     m_more = get_bool (vs ! 40),
     m_since = get_uint (vs ! 41),
     m_token = get_bytes (vs ! 42),
     m_weight = ucast (get_uint (vs ! 43)),
     m_zone = get_text (vs ! 44),
     m_addrs = get_text_list (vs ! 45),
     m_no_vote = get_bool (vs ! 46),
     m_g = get_uint (vs ! 47),
     m_nonce = get_bytes (vs ! 48),
     m_seq = get_uint (vs ! 49),
     m_expand = get_bool (vs ! 50),
     m_params = get_bytes (vs ! 51),
     m_sent = get_uint (vs ! 52),
     m_received = get_uint (vs ! 53),
     m_idle = get_bool (vs ! 54),
     m_marked = get_uint (vs ! 55),
     m_missing = get_bytes_list (vs ! 56),
     m_status = get_bytes (vs ! 57),
     m_node = get_bytes (vs ! 58),
     m_error = get_text (vs ! 59),
     m_pattern = get_text (vs ! 60),
     m_deleted = get_text_list (vs ! 61)\<rparr>"

lemma msg_levels: "schema_levels msg_schema = 4"
  by (simp add: msg_schema_def ref_info_levels key_holders_levels key_failure_levels key_reject_levels scan_row_levels)

interpretation msg_rec: cbor_record msg_schema msg_vals msg_of_vals
proof
  show "msg_of_vals (msg_vals x) = x" for x
    by (cases x) (simp add: msg_of_vals_def msg_vals_def comp_def option.map_comp option.map_ident list.map_comp ref_info_rec.of_vals_vals key_holders_rec.of_vals_vals key_failure_rec.of_vals_vals key_reject_rec.of_vals_vals scan_row_rec.of_vals_vals)
  show "schema_ok msg_schema \<and> schema_levels msg_schema \<le> 32"
    using ref_info_rec.schema_fits key_holders_rec.schema_fits key_failure_rec.schema_fits key_reject_rec.schema_fits scan_row_rec.schema_fits
    by (simp add: msg_schema_def ascending_keys ref_info_levels key_holders_levels key_failure_levels key_reject_levels scan_row_levels del: sorted_wrt.simps)
qed

section \<open>Node payloads\<close>

text \<open>\<^verbatim>\<open>AdminRequest\<close>\<close>

record admin_request =
  aq_op :: bytes
  aq_node :: bytes
  aq_weight :: u32
  aq_zone :: bytes
  aq_replicas :: byte
  aq_dead :: bool
  aq_allow_unsafe :: bool
  aq_force :: bool
  aq_key :: bytes
  aq_garbage :: u64
  aq_tolerate :: bool
  aq_forwarded :: bool
  aq_pause :: bool
  aq_rate :: u64
  aq_names :: "bytes list"

definition admin_request_schema :: schema where
  "admin_request_schema = Schema ''node.AdminRequest''
    [Fld 0 TText ''string'' False,
     Fld 1 TBytes ''[]uint8'' True,
     Fld 2 TU32 ''uint32'' True,
     Fld 3 TText ''string'' True,
     Fld 4 TU8 ''uint8'' True,
     Fld 5 TBool ''bool'' True,
     Fld 6 TBool ''bool'' True,
     Fld 7 TBool ''bool'' True,
     Fld 8 TBytes ''[]uint8'' True,
     Fld 9 TF64 ''float64'' True,
     Fld 10 TBool ''bool'' True,
     Fld 11 TBool ''bool'' True,
     Fld 12 TBool ''bool'' True,
     Fld 13 TU64 ''uint64'' True,
     Fld 14 TTextList ''[]string'' True]"

definition admin_request_vals :: "admin_request \<Rightarrow> fval list" where
  "admin_request_vals x =
    [VText (aq_op x),
     VBytes (aq_node x),
     VUint (ucast (aq_weight x)),
     VText (aq_zone x),
     VUint (ucast (aq_replicas x)),
     VBool (aq_dead x),
     VBool (aq_allow_unsafe x),
     VBool (aq_force x),
     VBytes (aq_key x),
     VF64 (aq_garbage x),
     VBool (aq_tolerate x),
     VBool (aq_forwarded x),
     VBool (aq_pause x),
     VUint (aq_rate x),
     VTextList (aq_names x)]"

definition admin_request_of_vals :: "fval list \<Rightarrow> admin_request" where
  "admin_request_of_vals vs =
    \<lparr>aq_op = get_text (vs ! 0),
     aq_node = get_bytes (vs ! 1),
     aq_weight = ucast (get_uint (vs ! 2)),
     aq_zone = get_text (vs ! 3),
     aq_replicas = ucast (get_uint (vs ! 4)),
     aq_dead = get_bool (vs ! 5),
     aq_allow_unsafe = get_bool (vs ! 6),
     aq_force = get_bool (vs ! 7),
     aq_key = get_bytes (vs ! 8),
     aq_garbage = get_f64 (vs ! 9),
     aq_tolerate = get_bool (vs ! 10),
     aq_forwarded = get_bool (vs ! 11),
     aq_pause = get_bool (vs ! 12),
     aq_rate = get_uint (vs ! 13),
     aq_names = get_text_list (vs ! 14)\<rparr>"

lemma admin_request_levels: "schema_levels admin_request_schema = 2"
  by (simp add: admin_request_schema_def)

interpretation admin_request_rec: cbor_record admin_request_schema admin_request_vals admin_request_of_vals
proof
  show "admin_request_of_vals (admin_request_vals x) = x" for x
    by (cases x) (simp add: admin_request_of_vals_def admin_request_vals_def)
  show "schema_ok admin_request_schema \<and> schema_levels admin_request_schema \<le> 32"
    by (simp add: admin_request_schema_def ascending_keys del: sorted_wrt.simps)
qed

text \<open>\<^verbatim>\<open>AdminReply\<close>\<close>

record admin_reply =
  ap_text :: bytes
  ap_token :: bytes
  ap_view :: bytes
  ap_names :: "bytes list"
  ap_key :: bytes
  ap_ticket :: bytes
  ap_gc :: bytes

definition admin_reply_schema :: schema where
  "admin_reply_schema = Schema ''node.AdminReply''
    [Fld 0 TText ''string'' True,
     Fld 1 TBytes ''[]uint8'' True,
     Fld 2 TBytes ''[]uint8'' True,
     Fld 3 TTextList ''[]string'' True,
     Fld 4 TBytes ''[]uint8'' True,
     Fld 5 TText ''string'' True,
     Fld 6 TBytes ''[]uint8'' True]"

definition admin_reply_vals :: "admin_reply \<Rightarrow> fval list" where
  "admin_reply_vals x =
    [VText (ap_text x),
     VBytes (ap_token x),
     VBytes (ap_view x),
     VTextList (ap_names x),
     VBytes (ap_key x),
     VText (ap_ticket x),
     VBytes (ap_gc x)]"

definition admin_reply_of_vals :: "fval list \<Rightarrow> admin_reply" where
  "admin_reply_of_vals vs =
    \<lparr>ap_text = get_text (vs ! 0),
     ap_token = get_bytes (vs ! 1),
     ap_view = get_bytes (vs ! 2),
     ap_names = get_text_list (vs ! 3),
     ap_key = get_bytes (vs ! 4),
     ap_ticket = get_text (vs ! 5),
     ap_gc = get_bytes (vs ! 6)\<rparr>"

lemma admin_reply_levels: "schema_levels admin_reply_schema = 2"
  by (simp add: admin_reply_schema_def)

interpretation admin_reply_rec: cbor_record admin_reply_schema admin_reply_vals admin_reply_of_vals
proof
  show "admin_reply_of_vals (admin_reply_vals x) = x" for x
    by (cases x) (simp add: admin_reply_of_vals_def admin_reply_vals_def)
  show "schema_ok admin_reply_schema \<and> schema_levels admin_reply_schema \<le> 32"
    by (simp add: admin_reply_schema_def ascending_keys del: sorted_wrt.simps)
qed

text \<open>\<^verbatim>\<open>VoterStat\<close>\<close>

record voter_stat =
  vt_id :: "bytes option"
  vt_calls :: u64
  vt_failures :: u64
  vt_p99ms :: int

definition voter_stat_schema :: schema where
  "voter_stat_schema = Schema ''node.VoterStat''
    [Fld 0 TBytesOpt ''[]uint8'' False,
     Fld 1 TU64 ''uint64'' False,
     Fld 2 TU64 ''uint64'' False,
     Fld 3 TInt ''int64'' False]"

definition voter_stat_vals :: "voter_stat \<Rightarrow> fval list" where
  "voter_stat_vals x =
    [VBytesOpt (vt_id x),
     VUint (vt_calls x),
     VUint (vt_failures x),
     VInt (vt_p99ms x)]"

definition voter_stat_of_vals :: "fval list \<Rightarrow> voter_stat" where
  "voter_stat_of_vals vs =
    \<lparr>vt_id = get_bytes_opt (vs ! 0),
     vt_calls = get_uint (vs ! 1),
     vt_failures = get_uint (vs ! 2),
     vt_p99ms = get_int (vs ! 3)\<rparr>"

lemma voter_stat_levels: "schema_levels voter_stat_schema = 1"
  by (simp add: voter_stat_schema_def)

interpretation voter_stat_rec: cbor_record voter_stat_schema voter_stat_vals voter_stat_of_vals
proof
  show "voter_stat_of_vals (voter_stat_vals x) = x" for x
    by (cases x) (simp add: voter_stat_of_vals_def voter_stat_vals_def)
  show "schema_ok voter_stat_schema \<and> schema_levels voter_stat_schema \<le> 32"
    by (simp add: voter_stat_schema_def ascending_keys del: sorted_wrt.simps)
qed

text \<open>\<^verbatim>\<open>Status\<close>\<close>

record status =
  st_id :: "bytes option"
  st_epoch :: u64
  st_incarnation :: u64
  st_packs :: int
  st_records :: u64
  st_bytes :: int
  st_pins :: int
  st_unreachable :: "bytes list"
  st_pending_packs :: int
  st_transition :: bytes
  st_gc :: bytes
  st_lease_holder :: bytes
  st_voters :: "voter_stat list"
  st_writable :: bool
  st_free_bytes :: int
  st_total_bytes :: int
  st_puts :: u64
  st_gets :: u64
  st_ref_puts :: u64
  st_bytes_in :: u64
  st_bytes_out :: u64
  st_amnesiac :: bool
  st_retired :: bool
  st_scrub_age_sec :: int
  st_last_live :: u64
  st_corrupt :: int
  st_is_holder :: bool
  st_unaudited_keys :: int
  st_watchers :: int

definition status_schema :: schema where
  "status_schema = Schema ''node.Status''
    [Fld 0 TBytesOpt ''[]uint8'' False,
     Fld 1 TU64 ''uint64'' False,
     Fld 2 TU64 ''uint64'' False,
     Fld 3 TInt ''int'' False,
     Fld 4 TU64 ''uint64'' False,
     Fld 5 TInt ''int64'' False,
     Fld 6 TInt ''int'' False,
     Fld 7 TBytesList ''[][]uint8'' True,
     Fld 8 TInt ''int'' False,
     Fld 9 TText ''string'' True,
     Fld 10 TText ''string'' True,
     Fld 11 TBytes ''[]uint8'' True,
     Fld 12 (TStructs voter_stat_schema) ''[]node.VoterStat'' True,
     Fld 13 TBool ''bool'' False,
     Fld 14 TInt ''int64'' False,
     Fld 15 TInt ''int64'' False,
     Fld 16 TU64 ''uint64'' False,
     Fld 17 TU64 ''uint64'' False,
     Fld 18 TU64 ''uint64'' False,
     Fld 19 TU64 ''uint64'' False,
     Fld 20 TU64 ''uint64'' False,
     Fld 21 TBool ''bool'' True,
     Fld 22 TBool ''bool'' True,
     Fld 23 TInt ''int64'' True,
     Fld 24 TU64 ''uint64'' True,
     Fld 25 TInt ''int'' True,
     Fld 26 TBool ''bool'' True,
     Fld 27 TInt ''int'' True,
     Fld 28 TInt ''int'' True]"

definition status_vals :: "status \<Rightarrow> fval list" where
  "status_vals x =
    [VBytesOpt (st_id x),
     VUint (st_epoch x),
     VUint (st_incarnation x),
     VInt (st_packs x),
     VUint (st_records x),
     VInt (st_bytes x),
     VInt (st_pins x),
     VBytesList (st_unreachable x),
     VInt (st_pending_packs x),
     VText (st_transition x),
     VText (st_gc x),
     VBytes (st_lease_holder x),
     VStructs (map voter_stat_vals (st_voters x)),
     VBool (st_writable x),
     VInt (st_free_bytes x),
     VInt (st_total_bytes x),
     VUint (st_puts x),
     VUint (st_gets x),
     VUint (st_ref_puts x),
     VUint (st_bytes_in x),
     VUint (st_bytes_out x),
     VBool (st_amnesiac x),
     VBool (st_retired x),
     VInt (st_scrub_age_sec x),
     VUint (st_last_live x),
     VInt (st_corrupt x),
     VBool (st_is_holder x),
     VInt (st_unaudited_keys x),
     VInt (st_watchers x)]"

definition status_of_vals :: "fval list \<Rightarrow> status" where
  "status_of_vals vs =
    \<lparr>st_id = get_bytes_opt (vs ! 0),
     st_epoch = get_uint (vs ! 1),
     st_incarnation = get_uint (vs ! 2),
     st_packs = get_int (vs ! 3),
     st_records = get_uint (vs ! 4),
     st_bytes = get_int (vs ! 5),
     st_pins = get_int (vs ! 6),
     st_unreachable = get_bytes_list (vs ! 7),
     st_pending_packs = get_int (vs ! 8),
     st_transition = get_text (vs ! 9),
     st_gc = get_text (vs ! 10),
     st_lease_holder = get_bytes (vs ! 11),
     st_voters = get_structs voter_stat_of_vals (vs ! 12),
     st_writable = get_bool (vs ! 13),
     st_free_bytes = get_int (vs ! 14),
     st_total_bytes = get_int (vs ! 15),
     st_puts = get_uint (vs ! 16),
     st_gets = get_uint (vs ! 17),
     st_ref_puts = get_uint (vs ! 18),
     st_bytes_in = get_uint (vs ! 19),
     st_bytes_out = get_uint (vs ! 20),
     st_amnesiac = get_bool (vs ! 21),
     st_retired = get_bool (vs ! 22),
     st_scrub_age_sec = get_int (vs ! 23),
     st_last_live = get_uint (vs ! 24),
     st_corrupt = get_int (vs ! 25),
     st_is_holder = get_bool (vs ! 26),
     st_unaudited_keys = get_int (vs ! 27),
     st_watchers = get_int (vs ! 28)\<rparr>"

lemma status_levels: "schema_levels status_schema = 3"
  by (simp add: status_schema_def voter_stat_levels)

interpretation status_rec: cbor_record status_schema status_vals status_of_vals
proof
  show "status_of_vals (status_vals x) = x" for x
    by (cases x) (simp add: status_of_vals_def status_vals_def comp_def option.map_comp option.map_ident list.map_comp voter_stat_rec.of_vals_vals)
  show "schema_ok status_schema \<and> schema_levels status_schema \<le> 32"
    using voter_stat_rec.schema_fits
    by (simp add: status_schema_def ascending_keys voter_stat_levels del: sorted_wrt.simps)
qed

section \<open>\<^verbatim>\<open>protocol.Msg\<close>\<close>

text \<open>\<^verbatim>\<open>ProtocolRefInfo\<close>\<close>

record protocol_ref_info =
  pr_name :: bytes
  pr_key :: "bytes option"
  pr_created_at :: int
  pr_user :: bytes

definition protocol_ref_info_schema :: schema where
  "protocol_ref_info_schema = Schema ''protocol.RefInfo''
    [Fld 0 TText ''string'' False,
     Fld 1 TBytesOpt ''[]uint8'' False,
     Fld 2 TInt ''int64'' False,
     Fld 3 TText ''string'' True]"

definition protocol_ref_info_vals :: "protocol_ref_info \<Rightarrow> fval list" where
  "protocol_ref_info_vals x =
    [VText (pr_name x),
     VBytesOpt (pr_key x),
     VInt (pr_created_at x),
     VText (pr_user x)]"

definition protocol_ref_info_of_vals :: "fval list \<Rightarrow> protocol_ref_info" where
  "protocol_ref_info_of_vals vs =
    \<lparr>pr_name = get_text (vs ! 0),
     pr_key = get_bytes_opt (vs ! 1),
     pr_created_at = get_int (vs ! 2),
     pr_user = get_text (vs ! 3)\<rparr>"

lemma protocol_ref_info_levels: "schema_levels protocol_ref_info_schema = 1"
  by (simp add: protocol_ref_info_schema_def)

interpretation protocol_ref_info_rec: cbor_record protocol_ref_info_schema protocol_ref_info_vals protocol_ref_info_of_vals
proof
  show "protocol_ref_info_of_vals (protocol_ref_info_vals x) = x" for x
    by (cases x) (simp add: protocol_ref_info_of_vals_def protocol_ref_info_vals_def)
  show "schema_ok protocol_ref_info_schema \<and> schema_levels protocol_ref_info_schema \<le> 32"
    by (simp add: protocol_ref_info_schema_def ascending_keys del: sorted_wrt.simps)
qed

text \<open>\<^verbatim>\<open>ProtocolDataEndpointRec\<close>\<close>

record protocol_data_endpoint_rec =
  pe_id :: "bytes option"
  pe_addrs :: "bytes list"

definition protocol_data_endpoint_rec_schema :: schema where
  "protocol_data_endpoint_rec_schema = Schema ''protocol.DataEndpointRec''
    [Fld 0 TBytesOpt ''[]uint8'' False,
     Fld 1 TTextList ''[]string'' True]"

definition protocol_data_endpoint_rec_vals :: "protocol_data_endpoint_rec \<Rightarrow> fval list" where
  "protocol_data_endpoint_rec_vals x =
    [VBytesOpt (pe_id x),
     VTextList (pe_addrs x)]"

definition protocol_data_endpoint_rec_of_vals :: "fval list \<Rightarrow> protocol_data_endpoint_rec" where
  "protocol_data_endpoint_rec_of_vals vs =
    \<lparr>pe_id = get_bytes_opt (vs ! 0),
     pe_addrs = get_text_list (vs ! 1)\<rparr>"

lemma protocol_data_endpoint_rec_levels: "schema_levels protocol_data_endpoint_rec_schema = 2"
  by (simp add: protocol_data_endpoint_rec_schema_def)

interpretation protocol_data_endpoint_rec_rec: cbor_record protocol_data_endpoint_rec_schema protocol_data_endpoint_rec_vals protocol_data_endpoint_rec_of_vals
proof
  show "protocol_data_endpoint_rec_of_vals (protocol_data_endpoint_rec_vals x) = x" for x
    by (cases x) (simp add: protocol_data_endpoint_rec_of_vals_def protocol_data_endpoint_rec_vals_def)
  show "schema_ok protocol_data_endpoint_rec_schema \<and> schema_levels protocol_data_endpoint_rec_schema \<le> 32"
    by (simp add: protocol_data_endpoint_rec_schema_def ascending_keys del: sorted_wrt.simps)
qed

text \<open>\<^verbatim>\<open>ProtocolMsg\<close>\<close>

record protocol_msg =
  pm_typ :: int
  pm_name :: bytes
  pm_root :: bytes
  pm_cas :: bool
  pm_expected_old :: bytes
  pm_record :: bytes
  pm_refs :: "protocol_ref_info list"
  pm_keys :: "bytes list"
  pm_data :: bytes
  pm_key :: bytes
  pm_code :: bytes
  pm_text :: bytes
  pm_current :: bytes
  pm_token :: bytes
  pm_data_conns :: int
  pm_data_ports :: "u16 list"
  pm_data_endpoints :: "protocol_data_endpoint_rec list"
  pm_names :: "bytes list"

definition protocol_msg_schema :: schema where
  "protocol_msg_schema = Schema ''protocol.Msg''
    [Fld 0 TInt ''int'' False,
     Fld 1 TText ''string'' True,
     Fld 2 TBytes ''[]uint8'' True,
     Fld 3 TBool ''bool'' True,
     Fld 4 TBytes ''[]uint8'' True,
     Fld 5 TBytes ''[]uint8'' True,
     Fld 6 (TStructs protocol_ref_info_schema) ''[]protocol.RefInfo'' True,
     Fld 7 TBytesList ''[][]uint8'' True,
     Fld 8 TBytes ''[]uint8'' True,
     Fld 9 TBytes ''[]uint8'' True,
     Fld 10 TText ''string'' True,
     Fld 11 TText ''string'' True,
     Fld 12 TBytes ''[]uint8'' True,
     Fld 13 TBytes ''[]uint8'' True,
     Fld 14 TInt ''int'' True,
     Fld 15 TU16List ''[]uint16'' True,
     Fld 16 (TStructs protocol_data_endpoint_rec_schema) ''[]protocol.DataEndpointRec'' True,
     Fld 17 TTextList ''[]string'' True]"

definition protocol_msg_vals :: "protocol_msg \<Rightarrow> fval list" where
  "protocol_msg_vals x =
    [VInt (pm_typ x),
     VText (pm_name x),
     VBytes (pm_root x),
     VBool (pm_cas x),
     VBytes (pm_expected_old x),
     VBytes (pm_record x),
     VStructs (map protocol_ref_info_vals (pm_refs x)),
     VBytesList (pm_keys x),
     VBytes (pm_data x),
     VBytes (pm_key x),
     VText (pm_code x),
     VText (pm_text x),
     VBytes (pm_current x),
     VBytes (pm_token x),
     VInt (pm_data_conns x),
     VU16List (pm_data_ports x),
     VStructs (map protocol_data_endpoint_rec_vals (pm_data_endpoints x)),
     VTextList (pm_names x)]"

definition protocol_msg_of_vals :: "fval list \<Rightarrow> protocol_msg" where
  "protocol_msg_of_vals vs =
    \<lparr>pm_typ = get_int (vs ! 0),
     pm_name = get_text (vs ! 1),
     pm_root = get_bytes (vs ! 2),
     pm_cas = get_bool (vs ! 3),
     pm_expected_old = get_bytes (vs ! 4),
     pm_record = get_bytes (vs ! 5),
     pm_refs = get_structs protocol_ref_info_of_vals (vs ! 6),
     pm_keys = get_bytes_list (vs ! 7),
     pm_data = get_bytes (vs ! 8),
     pm_key = get_bytes (vs ! 9),
     pm_code = get_text (vs ! 10),
     pm_text = get_text (vs ! 11),
     pm_current = get_bytes (vs ! 12),
     pm_token = get_bytes (vs ! 13),
     pm_data_conns = get_int (vs ! 14),
     pm_data_ports = get_u16_list (vs ! 15),
     pm_data_endpoints = get_structs protocol_data_endpoint_rec_of_vals (vs ! 16),
     pm_names = get_text_list (vs ! 17)\<rparr>"

lemma protocol_msg_levels: "schema_levels protocol_msg_schema = 4"
  by (simp add: protocol_msg_schema_def protocol_ref_info_levels protocol_data_endpoint_rec_levels)

interpretation protocol_msg_rec: cbor_record protocol_msg_schema protocol_msg_vals protocol_msg_of_vals
proof
  show "protocol_msg_of_vals (protocol_msg_vals x) = x" for x
    by (cases x) (simp add: protocol_msg_of_vals_def protocol_msg_vals_def comp_def option.map_comp option.map_ident list.map_comp protocol_ref_info_rec.of_vals_vals protocol_data_endpoint_rec_rec.of_vals_vals)
  show "schema_ok protocol_msg_schema \<and> schema_levels protocol_msg_schema \<le> 32"
    using protocol_ref_info_rec.schema_fits protocol_data_endpoint_rec_rec.schema_fits
    by (simp add: protocol_msg_schema_def ascending_keys protocol_ref_info_levels protocol_data_endpoint_rec_levels del: sorted_wrt.simps)
qed

end
