(* ===== verification/Io.thy ===== *)
theory Io
  imports Prelude
begin

text \<open>
  The byte streams that the code is written against (tokio's \<^verbatim>\<open>AsyncRead\<close> and \<^verbatim>\<open>AsyncWrite\<close>), as
  scripts: what each \<^verbatim>\<open>read\<close> call delivers and how each \<^verbatim>\<open>write_all\<close> ends. \<open>stream\<close> forgets how a reader
  is cut into calls; \<open>read_full_stream\<close> shows that \<^verbatim>\<open>read_full\<close> depends on the stream only.
\<close>

text \<open>State-passing operations that may fail: \<^verbatim>\<open>self.op().await?\<close> in a method with \<^verbatim>\<open>&mut self\<close>.\<close>

type_synonym ('s, 'e, 'a) op = "'s \<Rightarrow> ('e, 'a) outcome \<times> 's"

definition sret :: "'a \<Rightarrow> ('s, 'e, 'a) op" where
  "sret x = (\<lambda>s. (Ok x, s))"

definition serr :: "'e \<Rightarrow> ('s, 'e, 'a) op" where
  "serr e = (\<lambda>s. (Err e, s))"

definition sbind :: "('s, 'e, 'a) op \<Rightarrow> ('a \<Rightarrow> ('s, 'e, 'b) op) \<Rightarrow> ('s, 'e, 'b) op" where
  "sbind m f = (\<lambda>s. case m s of
     (Ok x, s1) \<Rightarrow> f x s1
   | (Err e, s1) \<Rightarrow> (Err e, s1)
   | (Stuck, s1) \<Rightarrow> (Stuck, s1))"

lemma sbind_cong [fundef_cong]:
  "m s = m' s' \<Longrightarrow> (\<And>x s1. m' s' = (Ok x, s1) \<Longrightarrow> f x s1 = f' x s1) \<Longrightarrow> sbind m f s = sbind m' f' s'"
  by (auto simp: sbind_def split: prod.split outcome.split)

lemma sbind_Ok: "m s = (Ok x, s1) \<Longrightarrow> sbind m f s = f x s1"
  by (simp add: sbind_def)

lemma sret_simp [simp]: "sret x s = (Ok x, s)"
  by (simp add: sret_def)

section \<open>I/O errors\<close>

datatype io_kind = KUnexpectedEof | KInterrupted | KOther

text \<open>\<^verbatim>\<open>std::io::Error\<close>: its kind and the text that \<^verbatim>\<open>errno::io_error_text\<close> renders.\<close>

record io_error =
  io_kind :: io_kind
  io_text :: bytes

section \<open>Readers\<close>

datatype read_event = RData bytes | RErr io_error

type_synonym reader_state = "read_event list"

text \<open>One \<^verbatim>\<open>read\<close> call with room for \<open>k\<close> bytes; no data is the end of the stream.\<close>

fun rd_read :: "nat \<Rightarrow> (reader_state, io_error, bytes) op" where
  "rd_read k [] = (Ok [], [])"
| "rd_read k (RData d # r) = (Ok (take k d), if length d \<le> k then r else RData (drop k d) # r)"
| "rd_read k (RErr e # r) = (Err e, r)"

text \<open>The bytes and events that a reader has left: what a loop over reads decreases.\<close>

fun event_size :: "read_event \<Rightarrow> nat" where
  "event_size (RData d) = Suc (length d)"
| "event_size (RErr e) = 1"

definition rsize :: "reader_state \<Rightarrow> nat" where
  "rsize r = sum_list (map event_size r)"

lemma rsize_simps [simp]: "rsize [] = 0" "rsize (ev # r) = event_size ev + rsize r"
  by (simp_all add: rsize_def)

text \<open>Why \<^verbatim>\<open>read_full\<close> stopped before its buffer was full.\<close>

datatype partial = PEof | PUnexpectedEof | PIo io_error

function read_full :: "nat \<Rightarrow> bytes \<Rightarrow> (reader_state, partial, bytes) op" where
  "read_full n got r =
     (if n = 0 then (Ok got, r)
      else case rd_read n r of
        (Ok d, r1) \<Rightarrow>
          (if d = [] then (Err (if got = [] then PEof else PUnexpectedEof), r1)
           else read_full (n - length d) (got @ d) r1)
      | (Err e, r1) \<Rightarrow>
          (if io_kind e = KInterrupted then read_full n got r1 else (Err (PIo e), r1))
      | (Stuck, r1) \<Rightarrow> (Stuck, r1))"
  by pat_completeness auto
termination
proof (relation "measure (\<lambda>(n, got, r). n + length r)", goal_cases)
  case (2 n got r x r1 d)
  have "length r1 \<le> length r" using 2 by (cases "(n, r)" rule: rd_read.cases) (auto split: if_splits)
  with 2 show ?case by (cases d) auto
next
  case (3 n got r x r1 e)
  then show ?case by (cases "(n, r)" rule: rd_read.cases) auto
qed simp

declare read_full.simps [simp del]

lemma rd_read_size:
  "rd_read k r = (res, r1) \<Longrightarrow> rsize r1 \<le> rsize r"
  "rd_read k r = (Ok d, r1) \<Longrightarrow> d \<noteq> [] \<Longrightarrow> rsize r1 < rsize r"
  by (cases "(k, r)" rule: rd_read.cases; auto split: if_splits)+

lemma read_full_size:
  "read_full n got r = (res, r') \<Longrightarrow> rsize r' \<le> rsize r \<and> (0 < n \<longrightarrow> (\<exists>d. res = Ok d) \<longrightarrow> rsize r' < rsize r)"
proof (induction n got r arbitrary: res r' rule: read_full.induct)
  case (1 n got r)
  show ?case
  proof (cases "n = 0")
    case True
    with "1.prems" show ?thesis by (simp add: read_full.simps [of 0])
  next
    case n: False
    obtain x r1 where rd: "rd_read n r = (x, r1)" by (cases "rd_read n r")
    note size = rd_read_size(1) [OF rd]
    note step = "1.prems" [unfolded read_full.simps [of n got r] rd]
    show ?thesis
    proof (cases x)
      case (Ok d)
      show ?thesis
      proof (cases "d = []")
        case True
        with step Ok n size show ?thesis by auto
      next
        case False
        have "read_full (n - length d) (got @ d) r1 = (res, r')" using step Ok n False by simp
        from "1.IH"(1) [OF n rd [symmetric] Ok False this]
          rd_read_size(2) [OF rd [unfolded Ok] False] show ?thesis by linarith
      qed
    next
      case (Err e)
      show ?thesis
      proof (cases "io_kind e = KInterrupted")
        case True
        have "read_full n got r1 = (res, r')" using step Err n True by simp
        from "1.IH"(2) [OF n rd [symmetric] Err True this] size n show ?thesis by auto
      next
        case False
        with step Err n size show ?thesis by auto
      qed
    next
      case Stuck
      with step n size show ?thesis by auto
    qed
  qed
qed

section \<open>Streams\<close>

text \<open>The bytes that come before the stream ends, and how it ends.\<close>

datatype ending = EndEof | EndErr io_error

fun stream :: "reader_state \<Rightarrow> bytes \<times> ending" where
  "stream [] = ([], EndEof)"
| "stream (RData d # r) = (if d = [] then ([], EndEof) else case stream r of (b, e) \<Rightarrow> (d @ b, e))"
| "stream (RErr e # r) = (if io_kind e = KInterrupted then stream r else ([], EndErr e))"

text \<open>What \<^verbatim>\<open>read_full\<close> does, as a function of the stream.\<close>

definition short_of :: "bytes \<Rightarrow> ending \<Rightarrow> partial" where
  "short_of got e = (case e of EndEof \<Rightarrow> if got = [] then PEof else PUnexpectedEof | EndErr e \<Rightarrow> PIo e)"

lemma read_full_stream:
  "stream r = (b, e) \<Longrightarrow>
    (if n \<le> length b then fst (read_full n got r) = Ok (got @ take n b) \<and>
        stream (snd (read_full n got r)) = (drop n b, e)
     else fst (read_full n got r) = Err (short_of (got @ b) e))"
proof (induction n got r arbitrary: b rule: read_full.induct)
  case (1 n got r)
  show ?case
  proof (cases "n = 0")
    case True
    with 1 show ?thesis by (simp add: read_full.simps [of 0])
  next
    case False
    show ?thesis
    proof (cases r)
      case Nil
      with 1 False show ?thesis by (auto simp: read_full.simps [of n] short_of_def)
    next
      case (Cons ev r')
      show ?thesis
      proof (cases ev)
        case (RErr io)
        show ?thesis
        proof (cases "io_kind io = KInterrupted")
          case True
          have "stream r' = (b, e)" using "1.prems" Cons RErr True by simp
          moreover have "read_full n got r = read_full n got r'"
            using False Cons RErr True by (subst read_full.simps) simp
          ultimately show ?thesis using "1.IH"(2) [OF False _ refl True, of r' b] Cons RErr by simp
        next
          case k: False
          then have "b = []" "e = EndErr io" using "1.prems" Cons RErr by auto
          with False k Cons RErr show ?thesis by (simp add: read_full.simps [of n] short_of_def)
        qed
      next
        case (RData d)
        show ?thesis
        proof (cases "d = []")
          case True
          then have "b = []" "e = EndEof" using "1.prems" Cons RData by auto
          with False True Cons RData show ?thesis by (simp add: read_full.simps [of n] short_of_def)
        next
          case d: False
          obtain b' where b: "stream r' = (b', e)" "b = d @ b'"
            using "1.prems" Cons RData d by (auto split: prod.splits)
          define r1 where "r1 = (if length d \<le> n then r' else RData (drop n d) # r')"
          have rd: "rd_read n r = (Ok (take n d), r1)" by (simp add: Cons RData r1_def)
          have ne: "take n d \<noteq> []" using d False by auto
          have s1: "stream r1 = (drop n b, e) \<and> n < length d \<or> stream r1 = (b', e) \<and> length d \<le> n"
            using b d by (auto simp: r1_def)
          note step = read_full.simps [of n got r, unfolded rd]
          show ?thesis
          proof (cases "length d \<le> n")
            case True
            then have "stream r1 = (b', e)" using s1 by auto
            moreover have td: "take n d = d" using True by simp
            ultimately show ?thesis
              using "1.IH"(1) [OF False rd [symmetric] refl ne, of b'] True False ne b
              by (auto simp: step td split: if_splits)
          next
            case n: False
            then have "stream r1 = (drop n b, e)" using s1 by auto
            with n False ne b show ?thesis by (simp add: step read_full.simps [of 0])
          qed
        qed
      qed
    qed
  qed
qed

lemma read_full_Ok:
  "stream r = (b, e) \<Longrightarrow> n \<le> length b \<Longrightarrow>
    \<exists>r'. read_full n [] r = (Ok (take n b), r') \<and> stream r' = (drop n b, e)"
  using read_full_stream [of r b e n "[]"] by (metis append_Nil prod.collapse)

lemma read_full_total: "fst (read_full n got r) \<noteq> Stuck"
  by (cases "stream r") (use read_full_stream [of r _ _ n got] in \<open>fastforce split: if_splits\<close>)

section \<open>Writers\<close>

text \<open>How successive \<^verbatim>\<open>write_all\<close> calls end; a failing call has written a prefix. After the script: success.\<close>

datatype write_event = WOk | WFail io_error nat

record writer =
  w_out :: bytes
  w_script :: "write_event list"

fun write_all :: "bytes \<Rightarrow> (writer, io_error, unit) op" where
  "write_all b w = (case w_script w of
     [] \<Rightarrow> (Ok (), w\<lparr>w_out := w_out w @ b\<rparr>)
   | WOk # s \<Rightarrow> (Ok (), w\<lparr>w_out := w_out w @ b, w_script := s\<rparr>)
   | WFail e n # s \<Rightarrow> (Err e, w\<lparr>w_out := w_out w @ take n b, w_script := s\<rparr>))"

end
