(* ===== verification/Wire_Frame.thy ===== *)
theory Wire_Frame
  imports Wire_Msg Io
begin

text \<open>
  \<^verbatim>\<open>crates/wire/src/frame.rs\<close>, \<^verbatim>\<open>error.rs\<close> and \<^verbatim>\<open>keys.rs\<close>: frames of a 32-bit big-endian length and a
  CBOR payload, remote errors, and key lists. A frame read depends only on the byte stream, not on
  how it is cut into reads; what \<^verbatim>\<open>write_msg\<close> puts on a stream, \<^verbatim>\<open>read_msg\<close> takes off it.
\<close>

definition MAX_FRAME :: nat where "MAX_FRAME = 16777216"
definition T_ERR :: int where "T_ERR = 10"

section \<open>Remote errors\<close>

record remote_error =
  re_code :: bytes
  re_text :: bytes
  re_view :: bytes
  re_retry_after :: nat

definition remote_message :: "remote_error \<Rightarrow> bytes" where
  "remote_message e =
     (if re_text e = [] then ascii ''remote: '' @ re_code e
      else ascii ''remote: '' @ re_code e @ ascii '': '' @ re_text e)"

definition remote_is :: "remote_error \<Rightarrow> remote_error \<Rightarrow> bool" where
  "remote_is e target \<longleftrightarrow> re_code target = re_code e \<and> (re_text target = [] \<or> re_text target = re_text e)"

text \<open>\<^verbatim>\<open>i64::wrapping_mul\<close>; \<^verbatim>\<open>re_retry_after\<close> is in nanoseconds.\<close>

definition i64_wrapping_mul :: "int \<Rightarrow> int \<Rightarrow> int" where
  "i64_wrapping_mul a b = sint (word_of_int a * word_of_int b :: u64)"

definition error_from_msg :: "msg \<Rightarrow> remote_error" where
  "error_from_msg m =
     (let ns = i64_wrapping_mul (m_retry_after m) 1000000 in
      \<lparr>re_code = m_code m, re_text = m_text m, re_view = m_view m,
       re_retry_after = (if ns \<ge> 0 then nat ns else 0)\<rparr>)"

definition msg_default :: msg where
  "msg_default = msg_of_vals (map (default_val \<circ> fld_ty) (schema_fields msg_schema))"

definition err_msg :: "bytes \<Rightarrow> bytes \<Rightarrow> msg" where
  "err_msg code txt = msg_default\<lparr>m_typ := T_ERR, m_code := code, m_text := txt\<rparr>"

text \<open>An error with its \<^verbatim>\<open>source()\<close> chain: what each link is, as far as \<^verbatim>\<open>remote_of\<close> can tell.\<close>

datatype err_link = LRemote remote_error | LBox remote_error | LArc remote_error | LOther

fun remote_of :: "err_link \<Rightarrow> remote_error option" where
  "remote_of (LRemote e) = Some e"
| "remote_of (LBox e) = Some e"
| "remote_of (LArc e) = Some e"
| "remote_of LOther = None"

fun as_remote :: "err_link list \<Rightarrow> remote_error option" where
  "as_remote [] = None"
| "as_remote (e # src) = (case remote_of e of Some r \<Rightarrow> Some r | None \<Rightarrow> as_remote src)"

definition is_code :: "err_link list \<Rightarrow> bytes \<Rightarrow> bool" where
  "is_code err code = (case as_remote err of Some e \<Rightarrow> re_code e = code | None \<Rightarrow> False)"

section \<open>Frames\<close>

datatype wire_error =
    WEof
  | WUnexpectedEof
  | WTooLarge nat
  | WShort partial
  | WDecode decode_error
  | WIo io_error
  | WRemote remote_error
  | WProtocol int int
  | WKeyLen nat nat

fun short_text :: "partial \<Rightarrow> bytes" where
  "short_text PEof = ascii ''EOF''"
| "short_text PUnexpectedEof = ascii ''unexpected EOF''"
| "short_text (PIo e) = io_text e"

fun wire_error_text :: "wire_error \<Rightarrow> bytes" where
  "wire_error_text WEof = ascii ''EOF''"
| "wire_error_text WUnexpectedEof = ascii ''unexpected EOF''"
| "wire_error_text (WTooLarge n) =
     ascii (''wire: frame of '' @ show_nat n @ '' bytes exceeds limit 16777216'')"
| "wire_error_text (WShort c) = ascii ''wire: short frame: '' @ short_text c"
| "wire_error_text (WDecode e) = ascii (''wire: decode frame: '' @ decode_error_text e)"
| "wire_error_text (WIo e) = io_text e"
| "wire_error_text (WRemote e) = remote_message e"
| "wire_error_text (WProtocol got want) =
     ascii (''wire: unexpected frame: type '' @ show_int got @ '', want '' @ show_int want)"
| "wire_error_text (WKeyLen index len) =
     ascii (''wire: key '' @ show_nat index @ '' has '' @ show_nat len @ '' bytes'')"

definition encode_frame :: "append_head \<Rightarrow> msg \<Rightarrow> (wire_error, bytes) outcome" where
  "encode_frame ah m =
     (let payload = marshal ah msg_schema (msg_vals m) in
      if length payload < 2 ^ 32 \<and> length payload \<le> MAX_FRAME
      then Ok (be_bytes 4 (of_nat (length payload) :: u32) @ payload)
      else Err (WTooLarge (length payload)))"

definition write_msg :: "append_head \<Rightarrow> msg \<Rightarrow> (writer, wire_error, unit) op" where
  "write_msg ah m w = (case encode_frame ah m of
     Ok frame \<Rightarrow> (case write_all frame w of (res, w1) \<Rightarrow> (omap_err WIo res, w1))
   | Err e \<Rightarrow> (Err e, w)
   | Stuck \<Rightarrow> (Stuck, w))"

definition decode_msg :: "bytes \<Rightarrow> (decode_error, msg) outcome" where
  "decode_msg b = obind (unmarshal (decode_struct msg_schema) b) (\<lambda>vs. Ok (msg_of_vals vs))"

definition read_msg :: "(reader_state, wire_error, msg) op" where
  "read_msg r = (case read_full 4 [] r of
     (Err PEof, r1) \<Rightarrow> (Err WEof, r1)
   | (Err PUnexpectedEof, r1) \<Rightarrow> (Err WUnexpectedEof, r1)
   | (Err (PIo e), r1) \<Rightarrow> (Err (if io_kind e = KUnexpectedEof then WUnexpectedEof else WIo e), r1)
   | (Stuck, r1) \<Rightarrow> (Stuck, r1)
   | (Ok hdr, r1) \<Rightarrow>
       (let n = unat (be_fold hdr :: u32) in
        if n > MAX_FRAME then (Err (WTooLarge n), r1)
        else case read_full n [] r1 of
          (Err p, r2) \<Rightarrow> (Err (WShort p), r2)
        | (Stuck, r2) \<Rightarrow> (Stuck, r2)
        | (Ok payload, r2) \<Rightarrow> (omap_err WDecode (decode_msg payload), r2)))"

definition expect :: "int \<Rightarrow> (reader_state, wire_error, msg) op" where
  "expect want r = (case read_msg r of
     (Ok m, r1) \<Rightarrow>
       (if m_typ m = T_ERR then (Err (WRemote (error_from_msg m)), r1)
        else if want \<noteq> 0 \<and> m_typ m \<noteq> want then (Err (WProtocol (m_typ m) want), r1)
        else (Ok m, r1))
   | (Err e, r1) \<Rightarrow> (Err e, r1)
   | (Stuck, r1) \<Rightarrow> (Stuck, r1))"

definition write_err :: "append_head \<Rightarrow> bytes \<Rightarrow> bytes \<Rightarrow> (writer, wire_error, unit) op" where
  "write_err ah code txt = write_msg ah (err_msg code txt)"

section \<open>Keys\<close>

text \<open>The loop of \<^verbatim>\<open>keys32\<close>; a \<^verbatim>\<open>[u8; 32]\<close> is a list of 32 bytes.\<close>

fun keys32_from :: "nat \<Rightarrow> bytes list \<Rightarrow> (wire_error, bytes list) outcome" where
  "keys32_from index [] = Ok []"
| "keys32_from index (b # bs) =
     (if length b \<noteq> 32 then Err (WKeyLen index (length b))
      else obind (keys32_from (Suc index) bs) (\<lambda>ks. Ok (b # ks)))"

definition keys32 :: "bytes list \<Rightarrow> (wire_error, bytes list) outcome" where
  "keys32 raw = keys32_from 0 raw"

definition raw_keys :: "bytes list \<Rightarrow> bytes list" where
  "raw_keys keys = keys"

section \<open>Frames and streams\<close>

lemma decode_msg_total: "decode_msg b \<noteq> Stuck"
proof -
  have "well_formed b \<noteq> Stuck"
    using wf_item_total [of b "Suc (length b)" 0] by (simp add: well_formed_def obind_eq_Stuck)
  then show ?thesis by (auto simp: decode_msg_def unmarshal_def obind_eq_Stuck struct.total)
qed

text \<open>A frame read as a function of the stream.\<close>

definition frame_of_stream :: "bytes \<Rightarrow> ending \<Rightarrow> (wire_error, msg) outcome" where
  "frame_of_stream b e =
     (if length b < 4 then
        (case short_of b e of
           PEof \<Rightarrow> Err WEof
         | PUnexpectedEof \<Rightarrow> Err WUnexpectedEof
         | PIo io \<Rightarrow> Err (if io_kind io = KUnexpectedEof then WUnexpectedEof else WIo io))
      else let n = unat (be_fold (take 4 b) :: u32); p = drop 4 b in
        if n > MAX_FRAME then Err (WTooLarge n)
        else if length p < n then Err (WShort (short_of p e))
        else omap_err WDecode (decode_msg (take n p)))"

lemma read_msg_stream:
  assumes "stream r = (b, e)"
  shows "fst (read_msg r) = frame_of_stream b e"
    and "read_msg r = (Ok m, r') \<Longrightarrow> stream r' = (drop (4 + unat (be_fold (take 4 b) :: u32)) b, e)"
proof -
  have "fst (read_msg r) = frame_of_stream b e \<and>
    (\<forall>m r'. read_msg r = (Ok m, r') \<longrightarrow> stream r' = (drop (4 + unat (be_fold (take 4 b) :: u32)) b, e))"
  proof (cases "4 \<le> length b")
    case False
    then have "fst (read_full 4 [] r) = Err (short_of b e)"
      using read_full_stream [OF assms, of 4 "[]"] by simp
    then obtain r1 where "read_full 4 [] r = (Err (short_of b e), r1)" by (metis prod.collapse)
    with False show ?thesis
      by (auto simp: read_msg_def frame_of_stream_def split: partial.split)
  next
    case True
    from read_full_Ok [OF assms True] obtain r1 where
      h: "read_full 4 [] r = (Ok (take 4 b), r1)" and s1: "stream r1 = (drop 4 b, e)" by blast
    define n where "n = unat (be_fold (take 4 b) :: u32)"
    show ?thesis
    proof (cases "n > MAX_FRAME")
      case big: True
      with h True show ?thesis by (simp add: read_msg_def frame_of_stream_def Let_def n_def)
    next
      case fits: False
      show ?thesis
      proof (cases "n \<le> length (drop 4 b)")
        case False
        then have "fst (read_full n [] r1) = Err (short_of (drop 4 b) e)"
          using read_full_stream [OF s1, of n "[]"] by simp
        then obtain r2 where "read_full n [] r1 = (Err (short_of (drop 4 b) e), r2)" by (metis prod.collapse)
        with h True fits False show ?thesis
          by (auto simp: read_msg_def frame_of_stream_def Let_def simp flip: n_def)
      next
        case enough: True
        from read_full_Ok [OF s1 enough] obtain r2 where
          p: "read_full n [] r1 = (Ok (take n (drop 4 b)), r2)" and s2: "stream r2 = (drop n (drop 4 b), e)"
          by blast
        have "drop n (drop 4 b) = drop (4 + n) b" by (simp add: add.commute)
        with h True fits enough p s2 show ?thesis
          by (auto simp: read_msg_def frame_of_stream_def Let_def simp flip: n_def)
      qed
    qed
  qed
  then show "fst (read_msg r) = frame_of_stream b e"
    "read_msg r = (Ok m, r') \<Longrightarrow> stream r' = (drop (4 + unat (be_fold (take 4 b) :: u32)) b, e)"
    by blast+
qed

lemma frame_header:
  assumes "n < 2 ^ 32"
  shows "unat (be_fold (take 4 (be_bytes 4 (of_nat n :: u32) @ b)) :: u32) = n"
    and "drop 4 (be_bytes 4 (of_nat n :: u32) @ b) = b"
  using assms by (simp_all add: unsigned_of_nat take_bit_nat_eq_self)

lemma decode_frame:
  assumes "append_head_ok ah" and "struct_typed msg_schema (msg_vals m)" and "encode_frame ah m = Ok f"
  shows "frame_of_stream (f @ rest) e = Ok m"
    and "drop (4 + unat (be_fold (take 4 (f @ rest)) :: u32)) (f @ rest) = rest"
proof -
  define p where "p = marshal ah msg_schema (msg_vals m)"
  have f: "f = be_bytes 4 (of_nat (length p) :: u32) @ p" and len: "length p < 2 ^ 32" "length p \<le> MAX_FRAME"
    using assms(3) by (auto simp: encode_frame_def Let_def p_def split: if_splits)
  note h = frame_header [OF len(1), of "p @ rest"]
  have "decode_msg p = Ok m"
    unfolding decode_msg_def p_def by (rule msg_rec.decode_encode [OF assms(1,2)])
  with h len show "frame_of_stream (f @ rest) e = Ok m"
    by (simp add: frame_of_stream_def Let_def f)
  show "drop (4 + unat (be_fold (take 4 (f @ rest)) :: u32)) (f @ rest) = rest"
    using h by (simp add: f)
qed

section \<open>Keys and retry delays\<close>

lemma keys32_from_first_bad:
  "keys32_from k raw = (case filter (\<lambda>i. length (raw ! i) \<noteq> 32) [0..<length raw] of
     [] \<Rightarrow> Ok raw | i # _ \<Rightarrow> Err (WKeyLen (k + i) (length (raw ! i))))"
proof (induction raw arbitrary: k)
  case (Cons b bs)
  have f: "filter (\<lambda>i. length ((b # bs) ! i) \<noteq> 32) [0..<length (b # bs)] =
      (if length b \<noteq> 32 then [0] else []) @ map Suc (filter (\<lambda>i. length (bs ! i) \<noteq> 32) [0..<length bs])"
    by (simp add: upt_conv_Cons filter_map comp_def flip: map_Suc_upt del: upt_Suc)
  show ?case unfolding f using Cons.IH [of "Suc k"]
    by (auto split: list.splits)
qed simp

lemma keys32_first_bad:
  "keys32 raw = (case filter (\<lambda>i. length (raw ! i) \<noteq> 32) [0..<length raw] of
     [] \<Rightarrow> Ok raw | i # _ \<Rightarrow> Err (WKeyLen i (length (raw ! i))))"
  using keys32_from_first_bad [of 0 raw] by (simp add: keys32_def split: list.split)

lemma i64_wrapping_mul_exact:
  assumes "- (2 ^ 63) \<le> a * b" and "a * b < 2 ^ 63"
  shows "i64_wrapping_mul a b = a * b"
proof -
  have "sint (word_of_int a * word_of_int b :: u64) = signed_take_bit 63 (a * b)"
    by (simp add: signed_of_int flip: of_int_mult)
  also have "\<dots> = a * b" using assms by (intro signed_take_bit_int_eq_self) auto
  finally show ?thesis by (simp add: i64_wrapping_mul_def)
qed

lemma error_retry_after:
  "re_retry_after (error_from_msg m) < 2 ^ 63 \<and>
   (\<bar>m_retry_after m\<bar> \<le> 9223372036854 \<longrightarrow>
     re_retry_after (error_from_msg m) = nat (m_retry_after m) * 1000000)"
proof -
  define ns where "ns = i64_wrapping_mul (m_retry_after m) 1000000"
  have ns: "re_retry_after (error_from_msg m) = (if ns \<ge> 0 then nat ns else 0)"
    by (simp add: error_from_msg_def ns_def Let_def)
  have "ns < 2 ^ 63" using sint_lt [of "word_of_int (m_retry_after m) * word_of_int 1000000 :: u64"]
    by (simp add: ns_def i64_wrapping_mul_def)
  moreover have "ns = m_retry_after m * 1000000" if "\<bar>m_retry_after m\<bar> \<le> 9223372036854"
    unfolding ns_def using that by (intro i64_wrapping_mul_exact) auto
  ultimately show ?thesis by (auto simp: ns nat_mult_distrib split: if_splits)
qed

end
