(* ===== verification/Wire_Pack.thy ===== *)
theory Wire_Pack
  imports Wire_Frame
begin

text \<open>
  \<^verbatim>\<open>crates/wire/src/pack.rs\<close>: the pack sender (a 4096-byte buffer over a 1 MiB chunk writer), the pack
  reader and the record stream over it. A pack that a sender finished is the magic, the records and
  the end marker, cut into frames of exactly 1 MiB, whatever the buffering did; a reader of those
  frames gets the same bytes back.
\<close>

definition PACK_MAGIC :: bytes where "PACK_MAGIC = ascii ''AMBERPK'' @ [3]"
definition TAG_END :: byte where "TAG_END = 0"
definition TAG_CHUNK :: byte where "TAG_CHUNK = 1"
definition BUFIO_SIZE :: nat where "BUFIO_SIZE = 4096"
definition CHUNK_SIZE :: nat where "CHUNK_SIZE = 1048576"
definition TDATA_END_FRAME :: bytes where
  "TDATA_END_FRAME = [0x00, 0x00, 0x00, 0x03, 0xa1, 0x00, 0x08]"
definition T_DATA :: int where "T_DATA = 7"
definition T_DATA_END :: int where "T_DATA_END = 8"

section \<open>The sender\<close>

record pack_sender =
  ps_w :: writer
  ps_buf :: bytes
  ps_wrote_magic :: bool
  ps_bw :: bytes
  ps_err :: "io_error option"

definition pack_sender_new :: "writer \<Rightarrow> pack_sender" where
  "pack_sender_new w = \<lparr>ps_w = w, ps_buf = [], ps_wrote_magic = False, ps_bw = [], ps_err = None\<rparr>"

text \<open>The CBOR head of a TData frame: keys 0 and 8, and the head of the byte string.\<close>

definition tdata_head :: "append_head \<Rightarrow> nat \<Rightarrow> bytes" where
  "tdata_head ah n =
     enc_head ah (enc_uint ah (enc_int ah (enc_uint ah (enc_head ah [] 5 2) 0) T_DATA) 8) 2 (of_nat n)"

definition write_tdata :: "append_head \<Rightarrow> bytes \<Rightarrow> (writer, io_error, unit) op" where
  "write_tdata ah data =
     (let head = tdata_head ah (length data); len = of_nat (length head + length data) :: u32 in
      sbind (write_all (be_bytes 4 len @ head)) (\<lambda>_. write_all data))"

text \<open>An operation on the writer that the sender holds.\<close>

definition with_w :: "(writer, 'e, 'a) op \<Rightarrow> (pack_sender, 'e, 'a) op" where
  "with_w f st = (case f (ps_w st) of (res, w1) \<Rightarrow> (res, st\<lparr>ps_w := w1\<rparr>))"

definition chunk_flush :: "append_head \<Rightarrow> (pack_sender, io_error, unit) op" where
  "chunk_flush ah st =
     (if ps_buf st = [] then (Ok (), st)
      else case with_w (write_tdata ah (ps_buf st)) st of (res, st1) \<Rightarrow> (res, st1\<lparr>ps_buf := []\<rparr>))"

text \<open>
  \<^verbatim>\<open>chunk_write\<close>. A buffer of \<^verbatim>\<open>CHUNK_SIZE\<close> bytes or more between iterations would leave no room
  (\<open>Stuck\<close> here); the invariant below excludes it.
\<close>

function chunk_write :: "append_head \<Rightarrow> bytes \<Rightarrow> (pack_sender, io_error, unit) op" where
  "chunk_write ah p st =
     (if p = [] then (Ok (), st)
      else if ps_buf st = [] \<and> length p \<ge> CHUNK_SIZE then
        sbind (with_w (write_tdata ah (take CHUNK_SIZE p))) (\<lambda>_. chunk_write ah (drop CHUNK_SIZE p)) st
      else if length (ps_buf st) \<ge> CHUNK_SIZE then (Stuck, st)
      else
        let n = min (CHUNK_SIZE - length (ps_buf st)) (length p);
            st1 = st\<lparr>ps_buf := ps_buf st @ take n p\<rparr>
        in if length (ps_buf st1) = CHUNK_SIZE
           then sbind (chunk_flush ah) (\<lambda>_. chunk_write ah (drop n p)) st1
           else chunk_write ah (drop n p) st1)"
  by pat_completeness auto
termination
  by (relation "measure (\<lambda>(ah, p, st). length p)") (auto simp: CHUNK_SIZE_def)

declare chunk_write.simps [simp del]

definition sticky :: "(pack_sender, wire_error, unit) op" where
  "sticky st = (case ps_err st of Some e \<Rightarrow> (Err (WIo e), st) | None \<Rightarrow> (Ok (), st))"

definition keep_error :: "(io_error, unit) outcome \<Rightarrow> (pack_sender, wire_error, unit) op" where
  "keep_error res st = (case res of
     Ok u \<Rightarrow> (Ok u, st)
   | Err e \<Rightarrow> (Err (WIo e), st\<lparr>ps_err := Some e\<rparr>)
   | Stuck \<Rightarrow> (Stuck, st))"

definition buffered_flush :: "append_head \<Rightarrow> (pack_sender, wire_error, unit) op" where
  "buffered_flush ah = sbind sticky (\<lambda>_ st.
     if ps_bw st = [] then (Ok (), st)
     else case chunk_write ah (ps_bw st) (st\<lparr>ps_bw := []\<rparr>) of
       (res, st1) \<Rightarrow> keep_error res (st1\<lparr>ps_bw := []\<rparr>))"

text \<open>The loop of \<^verbatim>\<open>buffered_write\<close>: after a flush the buffer is empty, so it goes round at most twice.\<close>

fun bw_loop :: "append_head \<Rightarrow> nat \<Rightarrow> bytes \<Rightarrow> (pack_sender, wire_error, unit) op" where
  "bw_loop ah 0 p st = (Stuck, st)"
| "bw_loop ah (Suc k) p st =
     (if length p > BUFIO_SIZE - length (ps_bw st) then
        (if ps_bw st = [] then (case chunk_write ah p st of (res, st1) \<Rightarrow> keep_error res st1)
         else let n = BUFIO_SIZE - length (ps_bw st) in
           sbind (buffered_flush ah) (\<lambda>_. bw_loop ah k (drop n p)) (st\<lparr>ps_bw := ps_bw st @ take n p\<rparr>))
      else (Ok (), st\<lparr>ps_bw := ps_bw st @ p\<rparr>))"

definition buffered_write :: "append_head \<Rightarrow> bytes \<Rightarrow> (pack_sender, wire_error, unit) op" where
  "buffered_write ah p = sbind sticky (\<lambda>_. bw_loop ah 2 p)"

definition ensure_magic :: "append_head \<Rightarrow> (pack_sender, wire_error, unit) op" where
  "ensure_magic ah st =
     (if ps_wrote_magic st then (Ok (), st)
      else sbind (buffered_write ah PACK_MAGIC) (\<lambda>_ st1. (Ok (), st1\<lparr>ps_wrote_magic := True\<rparr>)) st)"

definition add_record :: "append_head \<Rightarrow> bytes \<Rightarrow> (pack_sender, wire_error, unit) op" where
  "add_record ah rec = sbind (ensure_magic ah) (\<lambda>_. buffered_write ah rec)"

definition io_op :: "('s, io_error, 'a) op \<Rightarrow> ('s, wire_error, 'a) op" where
  "io_op f st = (case f st of (res, st1) \<Rightarrow> (omap_err WIo res, st1))"

text \<open>\<^verbatim>\<open>finish\<close>; the final \<^verbatim>\<open>flush\<close> is a write of nothing.\<close>

definition pack_finish :: "append_head \<Rightarrow> (pack_sender, wire_error, unit) op" where
  "pack_finish ah =
     sbind (ensure_magic ah) (\<lambda>_.
     sbind sticky (\<lambda>_.
     sbind (\<lambda>st. if length (ps_bw st) \<ge> BUFIO_SIZE then buffered_flush ah st else (Ok (), st)) (\<lambda>_.
     sbind (\<lambda>st. (Ok (), st\<lparr>ps_bw := ps_bw st @ [TAG_END]\<rparr>)) (\<lambda>_.
     sbind (buffered_flush ah) (\<lambda>_.
     sbind (io_op (chunk_flush ah)) (\<lambda>_.
     sbind (io_op (with_w (write_all TDATA_END_FRAME))) (\<lambda>_.
     io_op (with_w (write_all [])))))))))"

section \<open>What a finished sender wrote\<close>

text \<open>A TData frame, and a byte string cut into chunks of at most \<open>n\<close> bytes.\<close>

definition tdata_frame :: "append_head \<Rightarrow> bytes \<Rightarrow> bytes" where
  "tdata_frame ah c =
     be_bytes 4 (of_nat (length (tdata_head ah (length c)) + length c) :: u32) @ tdata_head ah (length c) @ c"

function chunks_of :: "nat \<Rightarrow> bytes \<Rightarrow> bytes list" where
  "chunks_of n b = (if b = [] \<or> n = 0 then [] else take n b # chunks_of n (drop n b))"
  by pat_completeness auto
termination by (relation "measure (\<lambda>(n, b). length b)") auto

declare chunks_of.simps [simp del]

definition pack_frames :: "append_head \<Rightarrow> bytes \<Rightarrow> bytes" where
  "pack_frames ah b = concat (map (tdata_frame ah) (chunks_of CHUNK_SIZE b)) @ TDATA_END_FRAME"

lemma chunks_of_full:
  assumes "0 < n" and "\<forall>c \<in> set cs. length c = n" and "length b < n"
  shows "chunks_of n (concat cs @ b) = cs @ (if b = [] then [] else [b])"
  using assms(2)
proof (induction cs)
  case Nil
  with assms(1,3) show ?case by (simp add: chunks_of.simps [of n b] chunks_of.simps [of n "[]"])
next
  case (Cons c cs)
  then have "c \<noteq> []" using assms(1) by auto
  with Cons assms(1) show ?case by (simp add: chunks_of.simps [of n "c @ concat cs @ b"])
qed

text \<open>
  The sender's state after it took the bytes \<open>d\<close>: full chunks are on the wire, a partial chunk is in
  \<^verbatim>\<open>buf\<close> and the tail in \<^verbatim>\<open>bw\<close>.
\<close>

definition chunk_inv :: "append_head \<Rightarrow> bytes \<Rightarrow> bytes \<Rightarrow> pack_sender \<Rightarrow> bool" where
  "chunk_inv ah w0 d st \<longleftrightarrow> w_script (ps_w st) = [] \<and> ps_err st = None \<and> length (ps_buf st) < CHUNK_SIZE \<and>
     (\<exists>cs. (\<forall>c \<in> set cs. length c = CHUNK_SIZE) \<and> concat cs @ ps_buf st = d \<and>
       w_out (ps_w st) = w0 @ concat (map (tdata_frame ah) cs))"

lemma write_tdata_ok:
  "w_script w = [] \<Longrightarrow> write_tdata ah d w = (Ok (), w\<lparr>w_out := w_out w @ tdata_frame ah d\<rparr>)"
  by (simp add: write_tdata_def Let_def sbind_def tdata_frame_def)

lemma chunk_inv_frame:
  assumes "chunk_inv ah w0 d st" and "length (ps_buf st @ c) = CHUNK_SIZE"
  shows "chunk_inv ah w0 (d @ c)
    (st\<lparr>ps_w := (ps_w st)\<lparr>w_out := w_out (ps_w st) @ tdata_frame ah (ps_buf st @ c)\<rparr>, ps_buf := []\<rparr>)"
proof -
  from assms(1) obtain cs where "\<forall>c \<in> set cs. length c = CHUNK_SIZE" "concat cs @ ps_buf st = d"
    "w_out (ps_w st) = w0 @ concat (map (tdata_frame ah) cs)" by (auto simp: chunk_inv_def)
  with assms show ?thesis
    unfolding chunk_inv_def by (auto simp: CHUNK_SIZE_def intro!: exI [of _ "cs @ [ps_buf st @ c]"])
qed

lemma empty_buf: "ps_buf st = [] \<Longrightarrow> st\<lparr>ps_w := w, ps_buf := []\<rparr> = st\<lparr>ps_w := w\<rparr>"
  by (cases st) simp

lemma chunk_write_ok:
  "chunk_inv ah w0 d st \<Longrightarrow>
    \<exists>st'. chunk_write ah p st = (Ok (), st') \<and> chunk_inv ah w0 (d @ p) st' \<and>
      ps_bw st' = ps_bw st \<and> ps_wrote_magic st' = ps_wrote_magic st"
proof (induction "length p" arbitrary: p st d rule: less_induct)
  case less
  have inv: "w_script (ps_w st) = []" "length (ps_buf st) < CHUNK_SIZE" "0 < CHUNK_SIZE"
    using less.prems by (auto simp: chunk_inv_def)
  show ?case
  proof (cases "p = []")
    case True
    with less.prems show ?thesis by (simp add: chunk_write.simps [of ah "[]" st])
  next
    case ne: False
    define n where "n = min (CHUNK_SIZE - length (ps_buf st)) (length p)"
    define st1 where "st1 = st\<lparr>ps_buf := ps_buf st @ take n p\<rparr>"
    have n: "0 < n" "n \<le> length p" using ne inv by (auto simp: n_def)
    have shorter: "length (drop n p) < length p" using n by auto
    define full where "full = (length (ps_buf st) + n = CHUNK_SIZE)"
    define st2 where "st2 = (if full then st\<lparr>ps_w := (ps_w st)\<lparr>w_out := w_out (ps_w st) @
        tdata_frame ah (ps_buf st @ take n p)\<rparr>, ps_buf := []\<rparr> else st1)"
    have inv2: "chunk_inv ah w0 (d @ take n p) st2"
    proof (cases full)
      case True
      with n show ?thesis unfolding st2_def
        using chunk_inv_frame [OF less.prems, of "take n p"] by (simp add: full_def)
    next
      case False
      then show ?thesis using less.prems n inv
        by (auto simp: st2_def st1_def chunk_inv_def full_def n_def split: if_splits)
    qed
    have step: "chunk_write ah p st = chunk_write ah (drop n p) st2"
    proof (cases "ps_buf st = [] \<and> length p \<ge> CHUNK_SIZE")
      case True
      then have "n = CHUNK_SIZE" "full" by (auto simp: n_def full_def)
      with True ne inv show ?thesis
        by (simp add: chunk_write.simps [of ah p st] sbind_def with_w_def write_tdata_ok st2_def empty_buf)
    next
      case False
      have b: "\<not> CHUNK_SIZE \<le> length (ps_buf st)" using inv by simp
      have flush: "chunk_flush ah st1 = (Ok (), st2)" if full
        using that inv n by (simp add: chunk_flush_def st1_def st2_def with_w_def write_tdata_ok)
          (use ne in auto)
      have f: "length (ps_buf st1) = CHUNK_SIZE \<longleftrightarrow> full" using n by (simp add: st1_def full_def)
      have "chunk_write ah p st =
          (if length (ps_buf st1) = CHUNK_SIZE then sbind (chunk_flush ah) (\<lambda>_. chunk_write ah (drop n p)) st1
           else chunk_write ah (drop n p) st1)"
        using False ne b unfolding st1_def n_def by (simp only: chunk_write.simps [of ah p st] if_False Let_def)
      also have "\<dots> = chunk_write ah (drop n p) st2"
        using flush by (simp only: f) (simp add: sbind_def st2_def)
      finally show ?thesis .
    qed
    from less.hyps [OF shorter inv2] step show ?thesis by (auto simp: st2_def st1_def)
  qed
qed

definition sender_inv :: "append_head \<Rightarrow> bytes \<Rightarrow> bytes \<Rightarrow> pack_sender \<Rightarrow> bool" where
  "sender_inv ah w0 d st \<longleftrightarrow>
     (\<exists>x. chunk_inv ah w0 x st \<and> x @ ps_bw st = d) \<and> length (ps_bw st) \<le> BUFIO_SIZE"

lemma chunk_inv_bw [simp]:
  "chunk_inv ah w0 d (st\<lparr>ps_bw := b\<rparr>) = chunk_inv ah w0 d st"
  "chunk_inv ah w0 d (st\<lparr>ps_wrote_magic := m\<rparr>) = chunk_inv ah w0 d st"
  by (simp_all add: chunk_inv_def)

lemma sticky_ok: "chunk_inv ah w0 d st \<Longrightarrow> sticky st = (Ok (), st)"
  by (simp add: sticky_def chunk_inv_def)

lemma buffered_flush_ok:
  assumes "chunk_inv ah w0 x st"
  shows "\<exists>st'. buffered_flush ah st = (Ok (), st') \<and> chunk_inv ah w0 (x @ ps_bw st) st' \<and>
    ps_bw st' = [] \<and> ps_wrote_magic st' = ps_wrote_magic st"
proof (cases "ps_bw st = []")
  case True
  with assms show ?thesis by (simp add: buffered_flush_def sbind_def sticky_ok)
next
  case False
  from assms have "chunk_inv ah w0 x (st\<lparr>ps_bw := []\<rparr>)" by simp
  from chunk_write_ok [OF this, of "ps_bw st"] obtain st' where
    "chunk_write ah (ps_bw st) (st\<lparr>ps_bw := []\<rparr>) = (Ok (), st')"
    "chunk_inv ah w0 (x @ ps_bw st) st'" "ps_bw st' = []" "ps_wrote_magic st' = ps_wrote_magic st" by auto
  with False assms show ?thesis by (simp add: buffered_flush_def sbind_def sticky_ok keep_error_def)
qed

lemma bw_loop_empty:
  assumes "chunk_inv ah w0 x st" and "ps_bw st = []"
  shows "\<exists>st'. bw_loop ah (Suc k) p st = (Ok (), st') \<and> sender_inv ah w0 (x @ p) st' \<and>
    ps_wrote_magic st' = ps_wrote_magic st"
proof (cases "length p > BUFIO_SIZE")
  case True
  from chunk_write_ok [OF assms(1), of p] obtain st' where
    "chunk_write ah p st = (Ok (), st')" "chunk_inv ah w0 (x @ p) st'" "ps_bw st' = []"
    "ps_wrote_magic st' = ps_wrote_magic st" using assms(2) by auto
  with True assms(2) show ?thesis by (simp add: keep_error_def sender_inv_def)
next
  case False
  with assms show ?thesis by (auto simp: sender_inv_def)
qed

lemma buffered_write_ok:
  assumes "sender_inv ah w0 d st"
  shows "\<exists>st'. buffered_write ah p st = (Ok (), st') \<and> sender_inv ah w0 (d @ p) st' \<and>
    ps_wrote_magic st' = ps_wrote_magic st"
proof -
  from assms obtain x where x: "chunk_inv ah w0 x st" "x @ ps_bw st = d" "length (ps_bw st) \<le> BUFIO_SIZE"
    by (auto simp: sender_inv_def)
  have two: "(2::nat) = Suc (Suc 0)" by simp
  have eq: "buffered_write ah p st = bw_loop ah (Suc (Suc 0)) p st"
    unfolding buffered_write_def two using sticky_ok [OF x(1)] by (simp only: sbind_Ok)
  show ?thesis
  proof (cases "ps_bw st = []")
    case True
    with bw_loop_empty [OF x(1) True, of "Suc 0" p] x show ?thesis unfolding eq by auto
  next
    case ne: False
    define n where "n = BUFIO_SIZE - length (ps_bw st)"
    show ?thesis
    proof (cases "length p > n")
      case False
      with x show ?thesis unfolding eq by (auto simp: sender_inv_def n_def)
    next
      case True
      define st1 where "st1 = st\<lparr>ps_bw := ps_bw st @ take n p\<rparr>"
      have "chunk_inv ah w0 x st1" using x by (simp add: st1_def)
      from buffered_flush_ok [OF this] obtain st2 where
        f: "buffered_flush ah st1 = (Ok (), st2)" "chunk_inv ah w0 (x @ ps_bw st1) st2" "ps_bw st2 = []"
        "ps_wrote_magic st2 = ps_wrote_magic st" by (auto simp: st1_def)
      have "x @ ps_bw st1 @ drop n p = d @ p"
        using x(2) [symmetric] by (simp add: st1_def flip: append_assoc)
          (simp add: append_assoc)
      with bw_loop_empty [OF f(2,3), of 0 "drop n p"] f(4) obtain st3 where
        l: "bw_loop ah (Suc 0) (drop n p) st2 = (Ok (), st3)" "sender_inv ah w0 (d @ p) st3"
        "ps_wrote_magic st3 = ps_wrote_magic st" by auto
      have "bw_loop ah (Suc (Suc 0)) p st = sbind (buffered_flush ah) (\<lambda>_. bw_loop ah (Suc 0) (drop n p)) st1"
        using True ne by (simp add: n_def st1_def Let_def del: bw_loop.simps(2) add: bw_loop.simps(2) [of ah "Suc 0"])
      with f(1) l show ?thesis unfolding eq by (simp only: sbind_Ok) blast
    qed
  qed
qed

lemma ensure_magic_ok:
  assumes "sender_inv ah w0 (if ps_wrote_magic st then PACK_MAGIC @ d else []) st" and "ps_wrote_magic st \<or> d = []"
  shows "\<exists>st'. ensure_magic ah st = (Ok (), st') \<and> sender_inv ah w0 (PACK_MAGIC @ d) st' \<and> ps_wrote_magic st'"
proof (cases "ps_wrote_magic st")
  case True
  with assms show ?thesis by (simp add: ensure_magic_def)
next
  case False
  with buffered_write_ok [of ah w0 "[]" st PACK_MAGIC] assms obtain st' where
    "buffered_write ah PACK_MAGIC st = (Ok (), st')" "sender_inv ah w0 PACK_MAGIC st'" by auto
  with False assms(2) show ?thesis by (simp add: ensure_magic_def sbind_def sender_inv_def)
qed

text \<open>The state after some records: nothing yet, or the magic and the records.\<close>

definition pack_inv :: "append_head \<Rightarrow> bytes \<Rightarrow> bytes list \<Rightarrow> pack_sender \<Rightarrow> bool" where
  "pack_inv ah w0 recs st \<longleftrightarrow>
     (if ps_wrote_magic st then sender_inv ah w0 (PACK_MAGIC @ concat recs) st
      else recs = [] \<and> sender_inv ah w0 [] st)"

lemma pack_new: "w_script w = [] \<Longrightarrow> pack_inv ah (w_out w) [] (pack_sender_new w)"
  by (auto simp: pack_inv_def sender_inv_def chunk_inv_def pack_sender_new_def CHUNK_SIZE_def
      intro!: exI [of _ "[]"])

lemma pack_magic:
  assumes "pack_inv ah w0 recs st"
  shows "\<exists>st'. ensure_magic ah st = (Ok (), st') \<and> sender_inv ah w0 (PACK_MAGIC @ concat recs) st' \<and> ps_wrote_magic st'"
  using assms by (intro ensure_magic_ok) (auto simp: pack_inv_def)

lemma add_record_ok:
  assumes "pack_inv ah w0 recs st"
  shows "\<exists>st'. add_record ah rec st = (Ok (), st') \<and> pack_inv ah w0 (recs @ [rec]) st'"
proof -
  from pack_magic [OF assms] obtain st1 where
    m: "ensure_magic ah st = (Ok (), st1)" "sender_inv ah w0 (PACK_MAGIC @ concat recs) st1" "ps_wrote_magic st1"
    by blast
  from buffered_write_ok [OF m(2), of rec] obtain st2 where
    "buffered_write ah rec st1 = (Ok (), st2)" "sender_inv ah w0 ((PACK_MAGIC @ concat recs) @ rec) st2"
    "ps_wrote_magic st2" using m(3) by auto
  with m(1) show ?thesis by (auto simp: add_record_def sbind_def pack_inv_def)
qed

lemma pack_finish_ok:
  assumes "pack_inv ah w0 recs st"
  shows "\<exists>st'. pack_finish ah st = (Ok (), st') \<and>
    w_out (ps_w st') = w0 @ pack_frames ah (PACK_MAGIC @ concat recs @ [TAG_END])"
proof -
  let ?d = "PACK_MAGIC @ concat recs"
  from pack_magic [OF assms] obtain st1 where
    m: "ensure_magic ah st = (Ok (), st1)" "sender_inv ah w0 ?d st1" by blast
  from m(2) obtain x where x: "chunk_inv ah w0 x st1" "x @ ps_bw st1 = ?d" by (auto simp: sender_inv_def)
  obtain st2 y where f: "(if length (ps_bw st1) \<ge> BUFIO_SIZE then buffered_flush ah st1 else (Ok (), st1)) = (Ok (), st2)"
    and y: "chunk_inv ah w0 y st2" "y @ ps_bw st2 = ?d"
    using buffered_flush_ok [OF x(1)] x by (cases "length (ps_bw st1) \<ge> BUFIO_SIZE") auto
  define st3 where "st3 = st2\<lparr>ps_bw := ps_bw st2 @ [TAG_END]\<rparr>"
  have "chunk_inv ah w0 y st3" using y by (simp add: st3_def)
  from buffered_flush_ok [OF this] y(2) obtain st4 where
    g: "buffered_flush ah st3 = (Ok (), st4)" "chunk_inv ah w0 (?d @ [TAG_END]) st4"
    by (auto simp: st3_def simp flip: append_assoc)
  from g(2) obtain cs where cs: "\<forall>c \<in> set cs. length c = CHUNK_SIZE" "concat cs @ ps_buf st4 = ?d @ [TAG_END]"
    "w_out (ps_w st4) = w0 @ concat (map (tdata_frame ah) cs)"
    and st4: "w_script (ps_w st4) = []" "length (ps_buf st4) < CHUNK_SIZE"
    by (auto simp: chunk_inv_def)
  define tail where "tail = (if ps_buf st4 = [] then [] else [ps_buf st4])"
  have ch: "chunks_of CHUNK_SIZE (?d @ [TAG_END]) = cs @ tail"
    using chunks_of_full [OF _ cs(1) st4(2)] cs(2) by (simp add: CHUNK_SIZE_def tail_def)
  obtain st5 where h: "chunk_flush ah st4 = (Ok (), st5)" "w_script (ps_w st5) = []"
    "w_out (ps_w st5) = w0 @ concat (map (tdata_frame ah) (cs @ tail))"
    using cs(3) st4(1) by (cases "ps_buf st4 = []")
      (auto simp: chunk_flush_def tail_def with_w_def write_tdata_ok)
  have io: "io_op (chunk_flush ah) st4 = (Ok (), st5)" by (simp add: io_op_def h)
  define st6 where "st6 = st5\<lparr>ps_w := (ps_w st5)\<lparr>w_out := w_out (ps_w st5) @ TDATA_END_FRAME\<rparr>\<rparr>"
  have e: "io_op (with_w (write_all TDATA_END_FRAME)) st5 = (Ok (), st6)"
    "io_op (with_w (write_all [])) st6 = (Ok (), st6)"
    using h(2) by (simp_all add: io_op_def with_w_def st6_def)
  have "sticky st1 = (Ok (), st1)" using x(1) by (rule sticky_ok)
  then have "pack_finish ah st = (Ok (), st6)"
    unfolding pack_finish_def using m(1) f g(1) io e by (simp add: sbind_def flip: st3_def)
  with h(3) ch show ?thesis by (auto simp: st6_def pack_frames_def)
qed

section \<open>The reader\<close>

datatype protocol_frame_error =
    PfEof
  | PfUnexpectedEof
  | PfTooLarge nat
  | PfShort partial
  | PfDecode decode_error
  | PfIo io_error

fun protocol_frame_error_text :: "protocol_frame_error \<Rightarrow> bytes" where
  "protocol_frame_error_text PfEof = ascii ''EOF''"
| "protocol_frame_error_text PfUnexpectedEof = ascii ''unexpected EOF''"
| "protocol_frame_error_text (PfTooLarge n) =
     ascii (''protocol: frame of '' @ show_nat n @ '' bytes exceeds limit 16777216'')"
| "protocol_frame_error_text (PfShort c) = ascii ''protocol: short frame: '' @ short_text c"
| "protocol_frame_error_text (PfDecode e) = ascii (''protocol: decode frame: '' @ decode_error_text e)"
| "protocol_frame_error_text (PfIo e) = io_text e"

definition decode_protocol_msg :: "bytes \<Rightarrow> (decode_error, protocol_msg) outcome" where
  "decode_protocol_msg b =
     obind (unmarshal (decode_struct protocol_msg_schema) b) (\<lambda>vs. Ok (protocol_msg_of_vals vs))"

definition read_protocol_msg :: "(reader_state, protocol_frame_error, protocol_msg) op" where
  "read_protocol_msg r = (case read_full 4 [] r of
     (Err PEof, r1) \<Rightarrow> (Err PfEof, r1)
   | (Err PUnexpectedEof, r1) \<Rightarrow> (Err PfUnexpectedEof, r1)
   | (Err (PIo e), r1) \<Rightarrow> (Err (if io_kind e = KUnexpectedEof then PfUnexpectedEof else PfIo e), r1)
   | (Stuck, r1) \<Rightarrow> (Stuck, r1)
   | (Ok hdr, r1) \<Rightarrow>
       (let n = unat (be_fold hdr :: u32) in
        if n > MAX_FRAME then (Err (PfTooLarge n), r1)
        else case read_full n [] r1 of
          (Err p, r2) \<Rightarrow> (Err (PfShort p), r2)
        | (Stuck, r2) \<Rightarrow> (Stuck, r2)
        | (Ok payload, r2) \<Rightarrow> (omap_err PfDecode (decode_protocol_msg payload), r2)))"

record protocol_remote_error =
  pre_code :: bytes
  pre_text :: bytes
  pre_current :: bytes

definition protocol_remote_text :: "protocol_remote_error \<Rightarrow> bytes" where
  "protocol_remote_text e = ascii ''remote: '' @ pre_code e @ ascii '': '' @ pre_text e"

definition remote_from_msg :: "protocol_msg \<Rightarrow> protocol_remote_error" where
  "remote_from_msg m = \<lparr>pre_code = pm_code m, pre_text = pm_text m, pre_current = pm_current m\<rparr>"

datatype pack_read_error =
    PrFrame protocol_frame_error
  | PrRemote protocol_remote_error
  | PrUnexpected int

fun pack_read_error_text :: "pack_read_error \<Rightarrow> bytes" where
  "pack_read_error_text (PrFrame e) = protocol_frame_error_text e"
| "pack_read_error_text (PrRemote e) = protocol_remote_text e"
| "pack_read_error_text (PrUnexpected t) =
     ascii (''protocol: unexpected frame: type '' @ show_int t @ '' during pack transfer'')"

fun is_eof :: "pack_read_error \<Rightarrow> bool" where
  "is_eof (PrFrame PfEof) = True"
| "is_eof _ = False"

record pack_reader =
  pk_r :: reader_state
  pk_cur :: bytes
  pk_pos :: nat
  pk_done :: bool
  pk_err :: "pack_read_error option"

definition pack_reader_new :: "reader_state \<Rightarrow> pack_reader" where
  "pack_reader_new r = \<lparr>pk_r = r, pk_cur = [], pk_pos = 0, pk_done = False, pk_err = None\<rparr>"

definition stick :: "pack_read_error \<Rightarrow> (pack_reader, pack_read_error, bool) op" where
  "stick e pr = (if is_eof e then Ok False else Err e, pr\<lparr>pk_err := Some e\<rparr>)"

lemma read_protocol_msg_size: "read_protocol_msg r = (Ok m, r2) \<Longrightarrow> rsize r2 < rsize r"
proof -
  assume a: "read_protocol_msg r = (Ok m, r2)"
  obtain h r1 where h: "read_full 4 [] r = (h, r1)" by (cases "read_full 4 [] r")
  from a h have "\<exists>hdr n. h = Ok hdr \<and> snd (read_full n [] r1) = r2"
    by (auto simp: read_protocol_msg_def Let_def split: outcome.splits partial.splits if_splits prod.splits)
      (metis snd_conv)
  then obtain hdr n where "h = Ok hdr" "snd (read_full n [] r1) = r2" by blast
  with read_full_size [OF h] read_full_size [of n "[]" r1, OF surjective_pairing] show ?thesis by fastforce
qed

text \<open>\<^verbatim>\<open>PackReader::fill\<close>: reads frames until the current chunk has an unread byte.\<close>

function pack_fill :: "(pack_reader, pack_read_error, bool) op" where
  "pack_fill pr =
     (if pk_pos pr < length (pk_cur pr) then (Ok True, pr)
      else case pk_err pr of
        Some e \<Rightarrow> (if is_eof e then Ok False else Err e, pr)
      | None \<Rightarrow>
          (if pk_done pr then (Ok False, pr)
           else case read_protocol_msg (pk_r pr) of
             (Err e, r1) \<Rightarrow> stick (PrFrame e) (pr\<lparr>pk_r := r1\<rparr>)
           | (Stuck, r1) \<Rightarrow> (Stuck, pr\<lparr>pk_r := r1\<rparr>)
           | (Ok m, r1) \<Rightarrow>
               (if pm_typ m = T_DATA then pack_fill (pr\<lparr>pk_r := r1, pk_cur := pm_data m, pk_pos := 0\<rparr>)
                else if pm_typ m = T_DATA_END then pack_fill (pr\<lparr>pk_r := r1, pk_done := True\<rparr>)
                else if pm_typ m = T_ERR then stick (PrRemote (remote_from_msg m)) (pr\<lparr>pk_r := r1\<rparr>)
                else stick (PrUnexpected (pm_typ m)) (pr\<lparr>pk_r := r1\<rparr>))))"
  by pat_completeness auto
termination
  by (relation "measure (\<lambda>pr. rsize (pk_r pr))") (auto dest: sym read_protocol_msg_size)

declare pack_fill.simps [simp del]

text \<open>\<^verbatim>\<open>PackReader::read\<close> into a buffer of \<open>k\<close> bytes: the bytes copied, none at the end.\<close>

definition pack_read :: "nat \<Rightarrow> (pack_reader, pack_read_error, bytes) op" where
  "pack_read k = sbind pack_fill (\<lambda>more pr.
     if \<not> more then (Ok [], pr)
     else let avail = drop (pk_pos pr) (pk_cur pr); n = min (length avail) k in
       (Ok (take n avail), pr\<lparr>pk_pos := pk_pos pr + n\<rparr>))"

lemma pack_fill_size:
  "pack_fill pr = (Ok True, pr1) \<Longrightarrow> pk_pos pr1 < length (pk_cur pr1) \<and> (pr1 = pr \<or> rsize (pk_r pr1) < rsize (pk_r pr))"
proof (induction pr rule: pack_fill.induct)
  case (1 pr)
  show ?case
  proof (cases "pk_pos pr < length (pk_cur pr) \<or> pk_err pr \<noteq> None \<or> pk_done pr")
    case True
    with "1.prems" show ?thesis by (auto simp: pack_fill.simps [of pr] split: if_splits option.splits)
  next
    case False
    obtain x r1 where rd: "read_protocol_msg (pk_r pr) = (x, r1)" by (cases "read_protocol_msg (pk_r pr)")
    have c: "\<not> pk_pos pr < length (pk_cur pr)" "pk_err pr = None" "\<not> pk_done pr" using False by auto
    show ?thesis
    proof (cases x)
      case (Ok m)
      have lt: "rsize r1 < rsize (pk_r pr)" using read_protocol_msg_size rd Ok by blast
      consider (data) "pm_typ m = T_DATA" | (fin) "pm_typ m \<noteq> T_DATA" "pm_typ m = T_DATA_END"
        | (other) "pm_typ m \<noteq> T_DATA" "pm_typ m \<noteq> T_DATA_END" by blast
      then show ?thesis
      proof cases
        case data
        then have "pack_fill (pr\<lparr>pk_r := r1, pk_cur := pm_data m, pk_pos := 0\<rparr>) = (Ok True, pr1)"
          using "1.prems" c rd Ok by (simp add: pack_fill.simps [of pr])
        with "1.IH"(1) [OF c rd [symmetric] Ok data] lt show ?thesis by auto
      next
        case fin
        then have "pack_fill (pr\<lparr>pk_r := r1, pk_done := True\<rparr>) = (Ok True, pr1)"
          using "1.prems" c rd Ok by (simp add: pack_fill.simps [of pr])
        with "1.IH"(2) [OF c rd [symmetric] Ok fin] lt show ?thesis by auto
      next
        case other
        with "1.prems" c rd Ok show ?thesis by (simp add: pack_fill.simps [of pr] stick_def split: if_splits)
      qed
    qed (use "1.prems" c rd in \<open>simp_all add: pack_fill.simps [of pr] stick_def split: if_splits\<close>)
  qed
qed

text \<open>\<^verbatim>\<open>PackReader::drain\<close>; the count is a \<^verbatim>\<open>u64\<close>.\<close>

function drain_loop :: "u64 \<Rightarrow> (pack_reader, pack_read_error, u64) op" where
  "drain_loop n pr = (case pack_fill pr of
     (Ok True, pr1) \<Rightarrow>
       drain_loop (n + of_nat (length (pk_cur pr1) - pk_pos pr1)) (pr1\<lparr>pk_pos := length (pk_cur pr1)\<rparr>)
   | (Ok False, pr1) \<Rightarrow> (Ok n, pr1)
   | (Err e, pr1) \<Rightarrow> (Err e, pr1)
   | (Stuck, pr1) \<Rightarrow> (Stuck, pr1))"
  by pat_completeness auto
termination
  by (relation "measure (\<lambda>(n, pr). 2 * rsize (pk_r pr) + (if pk_pos pr < length (pk_cur pr) then 1 else 0))")
    (auto dest!: sym [THEN pack_fill_size])

declare drain_loop.simps [simp del]

definition drain :: "(pack_reader, pack_read_error, u64) op" where
  "drain = drain_loop 0"

section \<open>The records of a pack\<close>

text \<open>
  What the record stream takes from core's \<^verbatim>\<open>amberpack\<close>: \<^verbatim>\<open>REC_HEADER_SIZE\<close>, \<^verbatim>\<open>MAX_PAYLOAD\<close> and
  \<^verbatim>\<open>parse_record\<close>, whose error is kept as text.
\<close>

record 'rec amberpack =
  rec_header_size :: nat
  max_payload :: nat
  parse_record :: "bytes \<Rightarrow> (bytes, 'rec) outcome"

datatype records_state = RsMagic | RsRecords | RsDone

datatype read_short = RsEof | RsUnexpectedEof | RsPack pack_read_error

fun read_short_text :: "read_short \<Rightarrow> bytes" where
  "read_short_text RsEof = ascii ''EOF''"
| "read_short_text RsUnexpectedEof = ascii ''unexpected EOF''"
| "read_short_text (RsPack e) = pack_read_error_text e"

datatype pack_records_error = PackRead pack_read_error | PackStream bytes | PackRecord bytes

definition malformed :: "string \<Rightarrow> read_short \<Rightarrow> pack_records_error" where
  "malformed step e = PackStream (ascii step @ ascii '': '' @ read_short_text e)"

record pack_records =
  rs_pr :: pack_reader
  rs_state :: records_state

definition pack_records_new :: "pack_reader \<Rightarrow> pack_records" where
  "pack_records_new pr = \<lparr>rs_pr = pr, rs_state = RsMagic\<rparr>"

lemma pack_read_size:
  "pack_read k pr = (Ok d, pr1) \<Longrightarrow> d \<noteq> [] \<Longrightarrow> length d \<le> k"
  by (auto simp: pack_read_def sbind_def Let_def split: prod.splits outcome.splits if_splits)

text \<open>\<^verbatim>\<open>PackRecords::read_full\<close> of \<open>n\<close> more bytes onto \<open>got\<close>.\<close>

function pack_read_full :: "nat \<Rightarrow> bytes \<Rightarrow> (pack_reader, read_short, bytes) op" where
  "pack_read_full n got pr =
     (if n = 0 then (Ok got, pr)
      else case pack_read n pr of
        (Ok d, pr1) \<Rightarrow>
          (if d = [] then (Err (if got = [] then RsEof else RsUnexpectedEof), pr1)
           else pack_read_full (n - length d) (got @ d) pr1)
      | (Err e, pr1) \<Rightarrow> (Err (RsPack e), pr1)
      | (Stuck, pr1) \<Rightarrow> (Stuck, pr1))"
  by pat_completeness auto
termination by (relation "measure (\<lambda>(n, got, pr). n)") (auto dest: sym pack_read_size)

declare pack_read_full.simps [simp del]

definition pack_read_byte :: "(pack_reader, read_short, byte) op" where
  "pack_read_byte pr = (case pack_read 1 pr of
     (Ok [], pr1) \<Rightarrow> (Err RsEof, pr1)
   | (Ok (b # bs), pr1) \<Rightarrow> (Ok b, pr1)
   | (Err e, pr1) \<Rightarrow> (Err (RsPack e), pr1)
   | (Stuck, pr1) \<Rightarrow> (Stuck, pr1))"

text \<open>\<^verbatim>\<open>read_append\<close>: the bytes appended to \<open>out\<close>; \<open>got\<close> counts them.\<close>

function read_append :: "nat \<Rightarrow> nat \<Rightarrow> bytes \<Rightarrow> (pack_reader, read_short, bytes) op" where
  "read_append n got out pr =
     (if got < n then
        (case pack_fill pr of
           (Ok True, pr1) \<Rightarrow>
             (let avail = drop (pk_pos pr1) (pk_cur pr1); k = min (length avail) (n - got) in
              read_append n (got + k) (out @ take k avail) (pr1\<lparr>pk_pos := pk_pos pr1 + k\<rparr>))
         | (Ok False, pr1) \<Rightarrow> (Err (if got = 0 then RsEof else RsUnexpectedEof), pr1)
         | (Err e, pr1) \<Rightarrow> (Err (RsPack e), pr1)
         | (Stuck, pr1) \<Rightarrow> (Stuck, pr1))
      else (Ok out, pr))"
  by pat_completeness auto
termination
  by (relation "measure (\<lambda>(n, got, out, pr). n - got)") (auto dest!: sym [THEN pack_fill_size] simp: min_def)

declare read_append.simps [simp del]

text \<open>An operation of the pack reader in a method of \<^verbatim>\<open>PackRecords\<close>, its error mapped.\<close>

definition with_pr :: "(pack_reader, 'e, 'a) op \<Rightarrow> ('e \<Rightarrow> 'f) \<Rightarrow> (pack_records, 'f, 'a) op" where
  "with_pr f g st = (case f (rs_pr st) of (res, pr1) \<Rightarrow> (omap_err g res, st\<lparr>rs_pr := pr1\<rparr>))"

definition read_magic :: "(pack_records, pack_records_error, unit) op" where
  "read_magic st =
     (if rs_state st = RsMagic then
        sbind (with_pr (pack_read_full (length PACK_MAGIC) []) (malformed ''reading magic''))
          (\<lambda>magic st1. if magic \<noteq> PACK_MAGIC then (Err (PackStream (ascii ''bad magic'')), st1)
            else (Ok (), st1\<lparr>rs_state := RsRecords\<rparr>)) st
      else (Ok (), st))"

definition hex_digit :: "nat \<Rightarrow> char" where "hex_digit d = ''0123456789abcdef'' ! d"

text \<open>\<^verbatim>\<open>format!("{tag:#x}")\<close>\<close>

definition hex_tag :: "byte \<Rightarrow> string" where
  "hex_tag tag = (let n = unat tag in
     ''0x'' @ (if n < 16 then [hex_digit n] else [hex_digit (n div 16), hex_digit (n mod 16)]))"

definition next_record :: "'rec amberpack \<Rightarrow> (pack_records, pack_records_error, ('rec \<times> bytes) option) op" where
  "next_record core =
     sbind read_magic (\<lambda>_.
     sbind (with_pr pack_read_byte (malformed ''truncated before end marker'')) (\<lambda>tag.
       if tag = TAG_END then sret None
       else if tag = TAG_CHUNK then
         sbind (with_pr (pack_read_full (rec_header_size core - 1) []) (malformed ''truncated record header'')) (\<lambda>tail.
           let hdr = tag # tail; slen = unat (be_fold (take 4 (drop 38 hdr)) :: u32) in
           if slen > max_payload core
           then serr (PackStream (ascii (''record payload '' @ show_nat slen @ '' exceeds limit '' @ show_nat (max_payload core))))
           else
             sbind (with_pr (read_append slen 0 hdr) (malformed ''truncated record payload'')) (\<lambda>full.
               case parse_record core full of
                 Ok rec \<Rightarrow> sret (Some (rec, full))
               | Err e \<Rightarrow> serr (PackRecord e)
               | Stuck \<Rightarrow> (\<lambda>st. (Stuck, st))))
       else serr (PackStream (ascii (''bad record tag '' @ hex_tag tag)))))"

text \<open>\<^verbatim>\<open>PackRecords::next\<close>: \<open>None\<close> is the end of the iteration.\<close>

definition next_rec :: "'rec amberpack \<Rightarrow> pack_records \<Rightarrow>
    (pack_records_error, 'rec \<times> bytes) outcome option \<times> pack_records" where
  "next_rec core st =
     (if rs_state st = RsDone then (None, st)
      else case next_record core st of
        (Ok (Some rec), st1) \<Rightarrow> (Some (Ok rec), st1)
      | (Ok None, st1) \<Rightarrow> (None, st1\<lparr>rs_state := RsDone\<rparr>)
      | (Err e, st1) \<Rightarrow> (Some (Err e), st1\<lparr>rs_state := RsDone\<rparr>)
      | (Stuck, st1) \<Rightarrow> (Some Stuck, st1))"

definition records_drain :: "(pack_records, pack_read_error, u64) op" where
  "records_drain = with_pr drain id"

end
