(* ===== verification/Pack_Stream.thy ===== *)
theory Pack_Stream
  imports Wire_Pack
begin

text \<open>
  What a pack reader delivers: for a stream of TData frames closed by TDataEnd it returns the bytes of
  the frames, whatever the frames' sizes and however the transport cuts them, and it leaves the stream
  right after TDataEnd. On top of that, the records that a sender was given come out of \<^verbatim>\<open>PackRecords\<close>.
\<close>

section \<open>Frames of a pack\<close>

definition protocol_msg_default :: protocol_msg where
  "protocol_msg_default = protocol_msg_of_vals (map (default_val \<circ> fld_ty) (schema_fields protocol_msg_schema))"

lemma protocol_msg_default_simps:
  "protocol_msg_vals (protocol_msg_default\<lparr>pm_typ := t, pm_data := c\<rparr>) =
    [VInt t, VText [], VBytes [], VBool False, VBytes [], VBytes [], VStructs [], VBytesList [], VBytes c,
     VBytes [], VText [], VText [], VBytes [], VBytes [], VInt 0, VU16List [], VStructs [], VTextList []]"
  by (simp add: protocol_msg_vals_def protocol_msg_default_def protocol_msg_of_vals_def protocol_msg_schema_def)

lemma data_msg_typed:
  "length c < 2 ^ 63 \<Longrightarrow> 0 \<le> t \<Longrightarrow> t < 100 \<Longrightarrow>
    struct_typed protocol_msg_schema (protocol_msg_vals (protocol_msg_default\<lparr>pm_typ := t, pm_data := c\<rparr>))"
  by (auto simp: protocol_msg_default_simps protocol_msg_schema_def)

lemma data_msg_marshal:
  assumes "append_head_ok ah"
  shows "marshal ah protocol_msg_schema (protocol_msg_vals (protocol_msg_default\<lparr>pm_typ := T_DATA, pm_data := c\<rparr>))
      = (if c = [] then [0xa1, 0x00, 0x07] else tdata_head ah (length c) @ c)"
    and "marshal ah protocol_msg_schema (protocol_msg_vals (protocol_msg_default\<lparr>pm_typ := T_DATA_END, pm_data := []\<rparr>))
      = [0xa1, 0x00, 0x08]"
  using assms
  by (simp_all add: protocol_msg_default_simps protocol_msg_schema_def marshal_def tdata_head_def
      enc_head_def enc_uint_def enc_int_def enc_bytes_def append_head_okD cbor_head_def T_DATA_def T_DATA_END_def)

lemma read_frame:
  assumes "stream r = (be_bytes 4 (of_nat (length p) :: u32) @ p @ rest, e)" and "length p \<le> MAX_FRAME"
  shows "\<exists>r'. read_protocol_msg r = (omap_err PfDecode (decode_protocol_msg p), r') \<and> stream r' = (rest, e)"
proof -
  have n: "length p < 2 ^ 32" using assms(2) by (simp add: MAX_FRAME_def)
  note h = frame_header [OF n, of "p @ rest"]
  let ?b = "be_bytes 4 (of_nat (length p) :: u32) @ p @ rest"
  from read_full_Ok [OF assms(1), of 4] obtain r1 where
    r1: "read_full 4 [] r = (Ok (take 4 ?b), r1)" "stream r1 = (p @ rest, e)" by auto
  from read_full_Ok [OF r1(2), of "length p"] obtain r2 where
    r2: "read_full (length p) [] r1 = (Ok p, r2)" "stream r2 = (rest, e)" by auto
  have "read_protocol_msg r = (omap_err PfDecode (decode_protocol_msg p), r2)"
    unfolding read_protocol_msg_def r1(1) using r2(1) assms(2) by (simp only: prod.case outcome.case Let_def h(1)) simp
  with r2(2) show ?thesis by blast
qed

lemma decode_data:
  assumes "append_head_ok ah" and "c \<noteq> []" and "length c < 2 ^ 63"
  shows "decode_protocol_msg (tdata_head ah (length c) @ c) = Ok (protocol_msg_default\<lparr>pm_typ := T_DATA, pm_data := c\<rparr>)"
proof -
  have "0 \<le> T_DATA" "T_DATA < 100" by (simp_all add: T_DATA_def)
  from protocol_msg_rec.decode_encode [OF assms(1) data_msg_typed [OF assms(3) this]] assms(2)
  show ?thesis by (simp add: decode_protocol_msg_def data_msg_marshal [OF assms(1)])
qed

lemma decode_data_end:
  "decode_protocol_msg [0xa1, 0x00, 0x08] = Ok (protocol_msg_default\<lparr>pm_typ := T_DATA_END, pm_data := []\<rparr>)"
proof -
  have "append_head_ok (\<lambda>buf m n. buf @ cbor_head m n)" by (simp add: append_head_ok_def)
  note ok = this
  have "length ([] :: bytes) < 2 ^ 63" "0 \<le> T_DATA_END" "T_DATA_END < 100" by (simp_all add: T_DATA_END_def)
  from protocol_msg_rec.decode_encode [OF ok data_msg_typed [OF this]]
  show ?thesis by (simp add: decode_protocol_msg_def data_msg_marshal [OF ok])
qed

lemma tdata_head_length:
  assumes "append_head_ok ah"
  shows "length (tdata_head ah n) \<le> 13"
  using assms by (simp add: tdata_head_def enc_head_def enc_uint_def enc_int_def append_head_okD cbor_head_def
      T_DATA_def Let_def)

lemma read_tdata:
  assumes "append_head_ok ah" and "c \<noteq> []" and "length c \<le> CHUNK_SIZE"
    and "stream r = (tdata_frame ah c @ rest, e)"
  shows "\<exists>r'. read_protocol_msg r = (Ok (protocol_msg_default\<lparr>pm_typ := T_DATA, pm_data := c\<rparr>), r') \<and> stream r' = (rest, e)"
proof -
  have "length (tdata_head ah (length c) @ c) \<le> MAX_FRAME"
    using tdata_head_length [OF assms(1), of "length c"] assms(3) by (simp add: CHUNK_SIZE_def MAX_FRAME_def)
  from read_frame [OF _ this, of r rest e] decode_data [OF assms(1,2)] assms(3,4) show ?thesis
    by (simp add: tdata_frame_def CHUNK_SIZE_def)
qed

lemma read_tdata_end:
  assumes "stream r = (TDATA_END_FRAME @ rest, e)"
  shows "\<exists>r'. read_protocol_msg r = (Ok (protocol_msg_default\<lparr>pm_typ := T_DATA_END, pm_data := []\<rparr>), r') \<and> stream r' = (rest, e)"
proof -
  have "be_bytes 4 (of_nat (length [0xa1, 0x00, 0x08 :: byte]) :: u32) = [0, 0, 0, 3]" by code_simp
  with read_frame [of r "[0xa1, 0x00, 0x08]" rest e] assms decode_data_end show ?thesis
    by (simp add: TDATA_END_FRAME_def MAX_FRAME_def)
qed

section \<open>The bytes of a pack\<close>

text \<open>
  A reader in front of the pack bytes \<open>b\<close>, with \<open>rest\<close> on the stream after the pack: the unread part of
  the current chunk, then frames with the other bytes, then TDataEnd unless it was read already.
\<close>

definition pack_stream :: "append_head \<Rightarrow> bytes \<Rightarrow> bytes \<Rightarrow> ending \<Rightarrow> pack_reader \<Rightarrow> bool" where
  "pack_stream ah b rest e pr \<longleftrightarrow> pk_err pr = None \<and> pk_pos pr \<le> length (pk_cur pr) \<and>
     (if pk_done pr then b = drop (pk_pos pr) (pk_cur pr) \<and> stream (pk_r pr) = (rest, e)
      else \<exists>cs. (\<forall>c \<in> set cs. c \<noteq> [] \<and> length c \<le> CHUNK_SIZE) \<and> b = drop (pk_pos pr) (pk_cur pr) @ concat cs \<and>
        stream (pk_r pr) = (concat (map (tdata_frame ah) cs) @ TDATA_END_FRAME @ rest, e))"

lemma pack_fill_pack:
  assumes ah: "append_head_ok ah" and inv: "pack_stream ah b rest e pr"
  shows "\<exists>pr'. pack_fill pr = (Ok (b \<noteq> []), pr') \<and> pack_stream ah b rest e pr' \<and>
    (if b = [] then pk_done pr' else pk_pos pr' < length (pk_cur pr'))"
proof (cases "pk_pos pr < length (pk_cur pr) \<or> pk_done pr")
  case True
  with inv show ?thesis by (auto simp: pack_fill.simps [of pr] pack_stream_def)
next
  case False
  then obtain cs where cs: "\<forall>c \<in> set cs. c \<noteq> [] \<and> length c \<le> CHUNK_SIZE" "b = concat cs"
    "stream (pk_r pr) = (concat (map (tdata_frame ah) cs) @ TDATA_END_FRAME @ rest, e)"
    using inv by (auto simp: pack_stream_def)
  have c: "\<not> pk_pos pr < length (pk_cur pr)" "pk_err pr = None" "\<not> pk_done pr"
    using False inv by (auto simp: pack_stream_def)
  show ?thesis
  proof (cases cs)
    case Nil
    from read_tdata_end [of "pk_r pr" rest e] cs(3) Nil obtain r' where
      r: "read_protocol_msg (pk_r pr) = (Ok (protocol_msg_default\<lparr>pm_typ := T_DATA_END, pm_data := []\<rparr>), r')"
      "stream r' = (rest, e)" by auto
    have "pack_fill pr = (Ok False, pr\<lparr>pk_r := r', pk_done := True\<rparr>)"
      using c r(1) by (simp add: pack_fill.simps [of pr] pack_fill.simps [of "pr\<lparr>pk_r := r', pk_done := True\<rparr>"] T_DATA_def T_DATA_END_def)
    with c cs(2) Nil r(2) inv show ?thesis by (auto simp: pack_stream_def)
  next
    case (Cons d ds)
    have d: "d \<noteq> []" "length d \<le> CHUNK_SIZE" using cs(1) Cons by auto
    from read_tdata [OF ah d, of "pk_r pr"] cs(3) Cons obtain r' where
      r: "read_protocol_msg (pk_r pr) = (Ok (protocol_msg_default\<lparr>pm_typ := T_DATA, pm_data := d\<rparr>), r')"
      "stream r' = (concat (map (tdata_frame ah) ds) @ TDATA_END_FRAME @ rest, e)" by auto
    let ?pr = "pr\<lparr>pk_r := r', pk_cur := d, pk_pos := 0\<rparr>"
    have "pack_fill pr = (Ok True, ?pr)"
      using c r(1) d by (simp add: pack_fill.simps [of pr] pack_fill.simps [of ?pr])
    with c cs(1,2) Cons r(2) d inv show ?thesis
      by (intro exI [of _ ?pr]) (auto simp: pack_stream_def intro!: exI [of _ ds])
  qed
qed

lemma pack_stream_advance:
  assumes "pack_stream ah b rest e pr" and "k \<le> length (pk_cur pr) - pk_pos pr"
  shows "take k (drop (pk_pos pr) (pk_cur pr)) = take k b" and "k \<le> length b"
    and "pack_stream ah (drop k b) rest e (pr\<lparr>pk_pos := pk_pos pr + k\<rparr>)"
  using assms by (auto simp: pack_stream_def add.commute split: if_splits)

lemma pack_read_pack:
  assumes "append_head_ok ah" and "pack_stream ah b rest e pr"
  shows "\<exists>k pr'. pack_read n pr = (Ok (take k b), pr') \<and> pack_stream ah (drop k b) rest e pr' \<and> k \<le> n \<and>
    k \<le> length b \<and> (0 < n \<longrightarrow> b \<noteq> [] \<longrightarrow> 0 < k)"
proof -
  from pack_fill_pack [OF assms] obtain pr1 where f: "pack_fill pr = (Ok (b \<noteq> []), pr1)" "pack_stream ah b rest e pr1"
    "if b = [] then pk_done pr1 else pk_pos pr1 < length (pk_cur pr1)" by blast
  show ?thesis
  proof (cases "b = []")
    case True
    with f(1) have "pack_read n pr = (Ok (take 0 b), pr1)" by (simp add: pack_read_def sbind_def)
    with f(2) True show ?thesis by (intro exI [of _ 0] exI [of _ pr1]) simp
  next
    case False
    define k where "k = min (length (pk_cur pr1) - pk_pos pr1) n"
    note adv = pack_stream_advance [OF f(2), of k]
    have "pack_read n pr = (Ok (take k b), pr1\<lparr>pk_pos := pk_pos pr1 + k\<rparr>)"
      using f(1) False adv(1) by (simp add: pack_read_def sbind_def Let_def k_def)
    with adv f(3) False show ?thesis
      by (intro exI [of _ k] exI [of _ "pr1\<lparr>pk_pos := pk_pos pr1 + k\<rparr>"]) (simp add: k_def)
  qed
qed

lemma pack_read_full_pack:
  assumes "append_head_ok ah"
  shows "pack_stream ah b rest e pr \<Longrightarrow> n \<le> length b \<Longrightarrow>
    \<exists>pr'. pack_read_full n got pr = (Ok (got @ take n b), pr') \<and> pack_stream ah (drop n b) rest e pr'"
proof (induction n arbitrary: b got pr rule: less_induct)
  case (less n)
  show ?case
  proof (cases "n = 0")
    case True
    with less.prems show ?thesis by (simp add: pack_read_full.simps [of 0])
  next
    case False
    from pack_read_pack [OF assms less.prems(1), of n] obtain k pr1 where
      k: "pack_read n pr = (Ok (take k b), pr1)" "pack_stream ah (drop k b) rest e pr1" "k \<le> n" "k \<le> length b" "0 < k"
      using False less.prems(2) by auto
    have "n - k < n" "n - k \<le> length (drop k b)" using k less.prems by auto
    from less.IH [OF this(1) k(2) this(2), of "got @ take k b"] obtain pr' where
      "pack_read_full (n - k) (got @ take k b) pr1 = (Ok (got @ take k b @ take (n - k) (drop k b)), pr')"
      "pack_stream ah (drop (n - k) (drop k b)) rest e pr'" by auto
    moreover have "take k b @ take (n - k) (drop k b) = take n b"
      using k(3) take_add [of k "n - k" b] by simp
    ultimately show ?thesis using k False by (auto simp: pack_read_full.simps [of n got pr])
  qed
qed

lemma read_append_pack:
  assumes "append_head_ok ah"
  shows "pack_stream ah b rest e pr \<Longrightarrow> got \<le> n \<Longrightarrow> n - got \<le> length b \<Longrightarrow>
    \<exists>pr'. read_append n got out pr = (Ok (out @ take (n - got) b), pr') \<and> pack_stream ah (drop (n - got) b) rest e pr'"
proof (induction "n - got" arbitrary: b got out pr rule: less_induct)
  case less
  show ?case
  proof (cases "got < n")
    case False
    with less.prems show ?thesis by (auto simp: read_append.simps [of n n out pr])
  next
    case True
    then have "b \<noteq> []" using less.prems by auto
    with pack_fill_pack [OF assms less.prems(1)] obtain pr1 where f: "pack_fill pr = (Ok True, pr1)"
      "pack_stream ah b rest e pr1" "pk_pos pr1 < length (pk_cur pr1)" by auto
    define k where "k = min (length (pk_cur pr1) - pk_pos pr1) (n - got)"
    define pr2 where "pr2 = pr1\<lparr>pk_pos := pk_pos pr1 + k\<rparr>"
    have "k \<le> length (pk_cur pr1) - pk_pos pr1" by (simp add: k_def)
    note adv = pack_stream_advance [OF f(2) this]
    have k: "0 < k" "k \<le> n - got" using f(3) True by (auto simp: k_def)
    have "n - (got + k) < n - got" "got + k \<le> n" "n - (got + k) \<le> length (drop k b)"
      using k less.prems adv(2) True by auto
    from less.hyps [OF this(1) adv(3) this(2,3), of "out @ take k b"] obtain pr' where
      ih: "read_append n (got + k) (out @ take k b) pr2 = (Ok (out @ take k b @ take (n - (got + k)) (drop k b)), pr')"
      "pack_stream ah (drop (n - (got + k)) (drop k b)) rest e pr'" by (auto simp: pr2_def)
    have split: "take k b @ take (n - (got + k)) (drop k b) = take (n - got) b"
      using k take_add [of k "n - (got + k)" b] by simp
    have len: "n - (got + k) + k = n - got" using k by simp
    have "read_append n got out pr = read_append n (got + k) (out @ take k b) pr2"
      using True f(1) adv(1) by (simp add: read_append.simps [of n got out pr] Let_def pr2_def k_def)
    with ih split len show ?thesis by auto
  qed
qed

lemma drain_pack:
  assumes "append_head_ok ah"
  shows "pack_stream ah b rest e pr \<Longrightarrow>
    \<exists>pr'. drain_loop n pr = (Ok (n + of_nat (length b)), pr') \<and> stream (pk_r pr') = (rest, e)"
proof (induction "length b" arbitrary: b n pr rule: less_induct)
  case less
  from pack_fill_pack [OF assms less.prems] obtain pr1 where f: "pack_fill pr = (Ok (b \<noteq> []), pr1)" "pack_stream ah b rest e pr1"
    "if b = [] then pk_done pr1 else pk_pos pr1 < length (pk_cur pr1)" by blast
  show ?case
  proof (cases "b = []")
    case True
    with f show ?thesis by (auto simp: drain_loop.simps [of n pr] pack_stream_def)
  next
    case False
    define k where "k = length (pk_cur pr1) - pk_pos pr1"
    have "k \<le> length (pk_cur pr1) - pk_pos pr1" by (simp add: k_def)
    note adv = pack_stream_advance [OF f(2) this]
    have k: "0 < k" "pk_pos pr1 + k = length (pk_cur pr1)" using f(3) False by (auto simp: k_def)
    have "length (drop k b) < length b" using k False by simp
    from less.hyps [OF this adv(3), of "n + of_nat k"] obtain pr' where
      "drain_loop (n + of_nat k) (pr1\<lparr>pk_pos := length (pk_cur pr1)\<rparr>) = (Ok (n + of_nat k + of_nat (length b - k)), pr')"
      "stream (pk_r pr') = (rest, e)" using k by auto
    moreover have "n + of_nat k + of_nat (length b - k) = n + (of_nat (length b) :: u64)"
      using adv(2) by (simp add: of_nat_diff)
    ultimately show ?thesis using f(1) False by (simp add: drain_loop.simps [of n pr] flip: k_def)
  qed
qed

section \<open>The records of a pack\<close>

text \<open>A record that core's \<^verbatim>\<open>parse_record\<close> accepts, framed as the record stream expects it.\<close>

definition valid_record :: "'rec amberpack \<Rightarrow> bytes \<Rightarrow> 'rec \<Rightarrow> bool" where
  "valid_record core rec x \<longleftrightarrow> rec_header_size core \<le> length rec \<and> take 1 rec = [TAG_CHUNK] \<and>
     unat (be_fold (take 4 (drop 38 rec)) :: u32) = length rec - rec_header_size core \<and>
     length rec - rec_header_size core \<le> max_payload core \<and> parse_record core rec = Ok x"

text \<open>The record stream in front of the bytes \<open>b\<close>, the magic apart.\<close>

definition records_at :: "append_head \<Rightarrow> bytes \<Rightarrow> bytes \<Rightarrow> ending \<Rightarrow> pack_records \<Rightarrow> bool" where
  "records_at ah b rest e st \<longleftrightarrow>
     rs_state st = RsMagic \<and> pack_stream ah (PACK_MAGIC @ b) rest e (rs_pr st) \<or>
     rs_state st = RsRecords \<and> pack_stream ah b rest e (rs_pr st)"

lemma read_magic_pack:
  assumes "append_head_ok ah" and "records_at ah b rest e st"
  shows "\<exists>pr'. read_magic st = (Ok (), \<lparr>rs_pr = pr', rs_state = RsRecords\<rparr>) \<and> pack_stream ah b rest e pr'"
proof (cases "rs_state st = RsMagic")
  case True
  then have "pack_stream ah (PACK_MAGIC @ b) rest e (rs_pr st)" using assms(2) by (simp add: records_at_def)
  from pack_read_full_pack [OF assms(1) this, of "length PACK_MAGIC" "[]"] obtain pr' where
    "pack_read_full (length PACK_MAGIC) [] (rs_pr st) = (Ok PACK_MAGIC, pr')" "pack_stream ah b rest e pr'" by auto
  with True show ?thesis by (cases st) (simp add: read_magic_def sbind_def with_pr_def)
next
  case False
  with assms(2) show ?thesis by (cases st) (auto simp: records_at_def read_magic_def)
qed

lemma pack_read_byte_pack:
  assumes "append_head_ok ah" and "pack_stream ah (x # b) rest e pr"
  shows "\<exists>pr'. pack_read_byte pr = (Ok x, pr') \<and> pack_stream ah b rest e pr'"
proof -
  from pack_read_pack [OF assms, of 1] obtain k pr' where
    "pack_read 1 pr = (Ok (take k (x # b)), pr')" "pack_stream ah (drop k (x # b)) rest e pr'" "k \<le> 1" "0 < k" by auto
  moreover from this have "k = 1" by simp
  ultimately show ?thesis by (auto simp: pack_read_byte_def)
qed

lemma next_record_end:
  assumes "append_head_ok ah" and "records_at ah (TAG_END # b) rest e st"
  shows "\<exists>pr'. next_record core st = (Ok None, \<lparr>rs_pr = pr', rs_state = RsRecords\<rparr>) \<and> pack_stream ah b rest e pr'"
proof -
  from read_magic_pack [OF assms] obtain pr1 where
    m: "read_magic st = (Ok (), \<lparr>rs_pr = pr1, rs_state = RsRecords\<rparr>)" "pack_stream ah (TAG_END # b) rest e pr1" by blast
  from pack_read_byte_pack [OF assms(1) m(2)] obtain pr2 where
    "pack_read_byte pr1 = (Ok TAG_END, pr2)" "pack_stream ah b rest e pr2" by blast
  with m(1) show ?thesis by (simp add: next_record_def sbind_def with_pr_def)
qed

lemma next_record_pack:
  assumes "append_head_ok ah" and "valid_record core rec x" and "records_at ah (rec @ b) rest e st"
    and "42 \<le> rec_header_size core"
  shows "\<exists>pr'. next_record core st = (Ok (Some (x, rec)), \<lparr>rs_pr = pr', rs_state = RsRecords\<rparr>) \<and>
    pack_stream ah b rest e pr'"
proof -
  define h where "h = rec_header_size core"
  define s where "s = length rec - h"
  obtain t where t: "rec = TAG_CHUNK # t" using assms(2) by (cases rec) (auto simp: valid_record_def)
  have h: "42 \<le> h" "h \<le> length rec" using assms(2,4) by (auto simp: valid_record_def h_def)
  have hdr: "TAG_CHUNK # take (h - 1) t = take h rec" using h t by (cases h) auto
  have field: "unat (be_fold (take 4 (drop 38 (take h rec))) :: u32) = s"
  proof -
    have "take 4 (drop 38 (take h rec)) = take 4 (drop 38 rec)" using h by (simp add: drop_take)
    then show ?thesis using assms(2) by (simp add: valid_record_def s_def h_def)
  qed
  have lens: "h - 1 \<le> length t" "s \<le> length (drop (h - 1) t)" using h t by (auto simp: s_def)
  have body: "take h rec @ take s (drop (h - 1) t) = rec" using h t by (cases h) (auto simp: s_def)
  from read_magic_pack [OF assms(1,3)] obtain pr1 where
    m: "read_magic st = (Ok (), \<lparr>rs_pr = pr1, rs_state = RsRecords\<rparr>)" "pack_stream ah (rec @ b) rest e pr1" by blast
  from pack_read_byte_pack [OF assms(1), of TAG_CHUNK "t @ b" rest e pr1] m(2) t obtain pr2 where
    b: "pack_read_byte pr1 = (Ok TAG_CHUNK, pr2)" "pack_stream ah (t @ b) rest e pr2" by auto
  from pack_read_full_pack [OF assms(1) b(2), of "h - 1" "[]"] lens(1) obtain pr3 where
    r: "pack_read_full (h - 1) [] pr2 = (Ok (take (h - 1) t), pr3)" "pack_stream ah (drop (h - 1) t @ b) rest e pr3"
    by auto
  from read_append_pack [OF assms(1) r(2), of 0 s "take h rec"] lens(2) body obtain pr4 where
    a: "read_append s 0 (take h rec) pr3 = (Ok rec, pr4)" "pack_stream ah (drop s (drop (h - 1) t) @ b) rest e pr4"
    by auto
  have "drop s (drop (h - 1) t) = []" using h t by (simp add: s_def)
  with a(2) have a2: "pack_stream ah b rest e pr4" by simp
  have s: "\<not> s > max_payload core" "parse_record core rec = Ok x"
    using assms(2) by (simp_all add: valid_record_def s_def h_def)
  have "TAG_CHUNK \<noteq> TAG_END" by (simp add: TAG_CHUNK_def TAG_END_def)
  then have "next_record core st = (Ok (Some (x, rec)), \<lparr>rs_pr = pr4, rs_state = RsRecords\<rparr>)"
    using m(1) b(1) r(1) a(1) s
    by (simp add: next_record_def sbind_def with_pr_def Let_def hdr [simplified] field field [folded hdr, simplified]
        flip: h_def)
  with a2 show ?thesis by blast
qed

text \<open>The results of the first \<open>k\<close> calls of \<^verbatim>\<open>next\<close>.\<close>

fun next_n :: "'rec amberpack \<Rightarrow> nat \<Rightarrow> pack_records \<Rightarrow>
    (pack_records_error, 'rec \<times> bytes) outcome option list \<times> pack_records" where
  "next_n core 0 st = ([], st)"
| "next_n core (Suc k) st = (case next_rec core st of (x, st1) \<Rightarrow>
     (case next_n core k st1 of (xs, st2) \<Rightarrow> (x # xs, st2)))"

lemma next_n_pack:
  assumes "append_head_ok ah" and "42 \<le> rec_header_size core"
  shows "list_all2 (valid_record core) recs xs \<Longrightarrow> records_at ah (concat recs @ [TAG_END]) rest e st \<Longrightarrow>
    \<exists>st'. next_n core (Suc (length recs)) st = (map (Some \<circ> Ok) (zip xs recs) @ [None], st') \<and>
      rs_state st' = RsDone \<and> pack_stream ah [] rest e (rs_pr st')"
proof (induction recs xs arbitrary: st rule: list_all2_induct)
  case Nil
  then have "rs_state st \<noteq> RsDone" by (auto simp: records_at_def)
  with next_record_end [OF assms(1), of "[]" rest e st core] Nil show ?case by (auto simp: next_rec_def)
next
  case (Cons rec recs x xs)
  have "rs_state st \<noteq> RsDone" using Cons.prems by (auto simp: records_at_def)
  moreover from next_record_pack [OF assms(1) Cons.hyps(1) _ assms(2), of "concat recs @ [TAG_END]" rest e st] Cons.prems
  obtain pr' where "next_record core st = (Ok (Some (x, rec)), \<lparr>rs_pr = pr', rs_state = RsRecords\<rparr>)"
    "pack_stream ah (concat recs @ [TAG_END]) rest e pr'" by auto
  ultimately show ?case using Cons.IH [of "\<lparr>rs_pr = pr', rs_state = RsRecords\<rparr>"]
    by (auto simp: next_rec_def records_at_def simp del: next_n.simps(2) simp add: next_n.simps(2) [of core "Suc (length recs)"])
qed

section \<open>From the sender to the receiver\<close>

fun add_records :: "append_head \<Rightarrow> bytes list \<Rightarrow> (pack_sender, wire_error, unit) op" where
  "add_records ah [] = sret ()"
| "add_records ah (rec # recs) = sbind (add_record ah rec) (\<lambda>_. add_records ah recs)"

lemma add_records_ok:
  "pack_inv ah w0 done st \<Longrightarrow> \<exists>st'. add_records ah recs st = (Ok (), st') \<and> pack_inv ah w0 (done @ recs) st'"
proof (induction recs arbitrary: "done" st)
  case (Cons rec recs)
  from add_record_ok [OF Cons.prems, of rec] obtain st1 where
    "add_record ah rec st = (Ok (), st1)" "pack_inv ah w0 (done @ [rec]) st1" by blast
  with Cons.IH [of "done @ [rec]" st1] show ?case by (simp add: sbind_def)
qed auto

text \<open>\<^verbatim>\<open>SendPackRecords\<close>: a sender, its records, and \<^verbatim>\<open>finish\<close>.\<close>

definition send_pack :: "append_head \<Rightarrow> bytes list \<Rightarrow> writer \<Rightarrow> (wire_error, unit) outcome \<times> pack_sender" where
  "send_pack ah recs w = sbind (add_records ah recs) (\<lambda>_. pack_finish ah) (pack_sender_new w)"

lemma send_pack_ok:
  assumes "w_script w = []"
  shows "\<exists>st'. send_pack ah recs w = (Ok (), st') \<and>
    w_out (ps_w st') = w_out w @ pack_frames ah (PACK_MAGIC @ concat recs @ [TAG_END])"
proof -
  from add_records_ok [OF pack_new [OF assms], of ah recs] obtain st1 where
    "add_records ah recs (pack_sender_new w) = (Ok (), st1)" "pack_inv ah (w_out w) recs st1" by auto
  with pack_finish_ok [of ah "w_out w" recs st1] show ?thesis by (simp add: send_pack_def sbind_def)
qed

lemma chunks_concat: "0 < n \<Longrightarrow> concat (chunks_of n b) = b"
  by (induction n b rule: chunks_of.induct) (subst chunks_of.simps, simp)

lemma chunks_bounded: "c \<in> set (chunks_of n b) \<Longrightarrow> c \<noteq> [] \<and> length c \<le> n"
proof (induction n b rule: chunks_of.induct)
  case (1 n b)
  then show ?case by (subst (asm) chunks_of.simps) (auto split: if_splits)
qed

lemma pack_stream_new:
  assumes "stream r = (pack_frames ah b @ rest, e)"
  shows "pack_stream ah b rest e (pack_reader_new r)"
  using assms chunks_concat [of CHUNK_SIZE b] chunks_bounded [of _ CHUNK_SIZE b]
  by (auto simp: pack_stream_def pack_reader_new_def pack_frames_def CHUNK_SIZE_def
      intro!: exI [of _ "chunks_of 1048576 b"])

end
