(* ===== verification/Gosort.thy ===== *)
theory Gosort
  imports Prelude "HOL-Library.Multiset" "HOL-Library.Monad_Syntax"
begin

text \<open>
  \<^verbatim>\<open>crates/view/src/gosort.rs\<close> (and the same code in \<^verbatim>\<open>crates/udiff/src/gosort.rs\<close>): the port of Go's
  \<^verbatim>\<open>sort.Slice\<close>, a pattern-defeating quicksort. The slice is a list, \<^verbatim>\<open>less\<close> a function of two elements.
  Every access is checked: an index out of range, which panics in Rust, gives \<open>None\<close>, and so does a loop
  that does not end. Indices are natural numbers: each \<^verbatim>\<open>isize\<close> of the code that is decremented is compared
  with its lower bound first.
\<close>

section \<open>Access\<close>

definition lt_at :: "('a \<Rightarrow> 'a \<Rightarrow> bool) \<Rightarrow> 'a list \<Rightarrow> nat \<Rightarrow> nat \<Rightarrow> bool option" where
  "lt_at lt xs i j = (if i < length xs \<and> j < length xs then Some (lt (xs ! i) (xs ! j)) else None)"

definition swap_at :: "'a list \<Rightarrow> nat \<Rightarrow> nat \<Rightarrow> 'a list option" where
  "swap_at xs i j = (if i < length xs \<and> j < length xs then Some (xs[i := xs ! j, j := xs ! i]) else None)"

section \<open>Insertion sort and heap sort\<close>

partial_function (option) insertion_shift :: "('a \<Rightarrow> 'a \<Rightarrow> bool) \<Rightarrow> 'a list \<Rightarrow> nat \<Rightarrow> nat \<Rightarrow> 'a list option" where
  "insertion_shift lt xs a j =
     (if j > a then do {
        c \<leftarrow> lt_at lt xs j (j - 1);
        if c then do { xs1 \<leftarrow> swap_at xs j (j - 1); insertion_shift lt xs1 a (j - 1) } else Some xs
      } else Some xs)"

partial_function (option) insertion_loop :: "('a \<Rightarrow> 'a \<Rightarrow> bool) \<Rightarrow> 'a list \<Rightarrow> nat \<Rightarrow> nat \<Rightarrow> nat \<Rightarrow> 'a list option" where
  "insertion_loop lt xs a i b =
     (if i < b then do { xs1 \<leftarrow> insertion_shift lt xs a i; insertion_loop lt xs1 a (i + 1) b } else Some xs)"

definition insertion_sort_func :: "('a \<Rightarrow> 'a \<Rightarrow> bool) \<Rightarrow> 'a list \<Rightarrow> nat \<Rightarrow> nat \<Rightarrow> 'a list option" where
  "insertion_sort_func lt xs a b = insertion_loop lt xs a (a + 1) b"

partial_function (option) sift_down_func :: "('a \<Rightarrow> 'a \<Rightarrow> bool) \<Rightarrow> 'a list \<Rightarrow> nat \<Rightarrow> nat \<Rightarrow> nat \<Rightarrow> 'a list option" where
  "sift_down_func lt xs root hi first =
     (let child = 2 * root + 1 in
      if child \<ge> hi then Some xs
      else do {
        right \<leftarrow> (if child + 1 < hi then lt_at lt xs (first + child) (first + child + 1) else Some False);
        let child = (if right then child + 1 else child);
        c \<leftarrow> lt_at lt xs (first + root) (first + child);
        if \<not> c then Some xs
        else do { xs1 \<leftarrow> swap_at xs (first + root) (first + child); sift_down_func lt xs1 child hi first }
      })"

text \<open>The two loops of \<^verbatim>\<open>heap_sort_func\<close>; the argument is \<^verbatim>\<open>i + 1\<close>.\<close>

fun heap_build :: "('a \<Rightarrow> 'a \<Rightarrow> bool) \<Rightarrow> nat \<Rightarrow> nat \<Rightarrow> nat \<Rightarrow> 'a list \<Rightarrow> 'a list option" where
  "heap_build lt 0 hi first xs = Some xs"
| "heap_build lt (Suc i) hi first xs =
     do { xs1 \<leftarrow> sift_down_func lt xs i hi first; heap_build lt i hi first xs1 }"

fun heap_pop :: "('a \<Rightarrow> 'a \<Rightarrow> bool) \<Rightarrow> nat \<Rightarrow> nat \<Rightarrow> 'a list \<Rightarrow> 'a list option" where
  "heap_pop lt 0 first xs = Some xs"
| "heap_pop lt (Suc i) first xs =
     do { xs1 \<leftarrow> swap_at xs first (first + i); xs2 \<leftarrow> sift_down_func lt xs1 0 i first; heap_pop lt i first xs2 }"

definition heap_sort_func :: "('a \<Rightarrow> 'a \<Rightarrow> bool) \<Rightarrow> 'a list \<Rightarrow> nat \<Rightarrow> nat \<Rightarrow> 'a list option" where
  "heap_sort_func lt xs a b =
     (let hi = b - a in
      do { xs1 \<leftarrow> heap_build lt (Suc ((hi - 1) div 2)) hi a xs; heap_pop lt hi a xs1 })"

section \<open>Partitioning\<close>

text \<open>\<^verbatim>\<open>while i <= j && p(i) { i += 1 }\<close> and \<^verbatim>\<open>while i <= j && p(j) { j -= 1 }\<close>\<close>

partial_function (option) scan_up :: "(nat \<Rightarrow> bool option) \<Rightarrow> nat \<Rightarrow> nat \<Rightarrow> nat option" where
  "scan_up p i j = (if i \<le> j then do { c \<leftarrow> p i; if c then scan_up p (i + 1) j else Some i } else Some i)"

partial_function (option) scan_down :: "(nat \<Rightarrow> bool option) \<Rightarrow> nat \<Rightarrow> nat \<Rightarrow> nat option" where
  "scan_down p i j = (if i \<le> j then do { c \<leftarrow> p j; if c then scan_down p i (j - 1) else Some j } else Some j)"

partial_function (option) partition_loop :: "('a \<Rightarrow> 'a \<Rightarrow> bool) \<Rightarrow> 'a list \<Rightarrow> nat \<Rightarrow> nat \<Rightarrow> nat \<Rightarrow> ('a list \<times> nat) option" where
  "partition_loop lt xs a i j = do {
     i \<leftarrow> scan_up (\<lambda>k. lt_at lt xs k a) i j;
     j \<leftarrow> scan_down (\<lambda>k. map_option Not (lt_at lt xs k a)) i j;
     if i > j then Some (xs, j)
     else do { xs1 \<leftarrow> swap_at xs i j; partition_loop lt xs1 a (i + 1) (j - 1) }
   }"

definition partition_func :: "('a \<Rightarrow> 'a \<Rightarrow> bool) \<Rightarrow> 'a list \<Rightarrow> nat \<Rightarrow> nat \<Rightarrow> nat \<Rightarrow> ('a list \<times> nat \<times> bool) option" where
  "partition_func lt xs a b pivot = do {
     xs \<leftarrow> swap_at xs a pivot;
     i \<leftarrow> scan_up (\<lambda>k. lt_at lt xs k a) (a + 1) (b - 1);
     j \<leftarrow> scan_down (\<lambda>k. map_option Not (lt_at lt xs k a)) i (b - 1);
     if i > j then do { xs \<leftarrow> swap_at xs j a; Some (xs, j, True) }
     else do {
       xs \<leftarrow> swap_at xs i j;
       (xs, j) \<leftarrow> partition_loop lt xs a (i + 1) (j - 1);
       xs \<leftarrow> swap_at xs j a;
       Some (xs, j, False)
     }
   }"

partial_function (option) partition_equal_loop :: "('a \<Rightarrow> 'a \<Rightarrow> bool) \<Rightarrow> 'a list \<Rightarrow> nat \<Rightarrow> nat \<Rightarrow> nat \<Rightarrow> ('a list \<times> nat) option" where
  "partition_equal_loop lt xs a i j = do {
     i \<leftarrow> scan_up (\<lambda>k. map_option Not (lt_at lt xs a k)) i j;
     j \<leftarrow> scan_down (\<lambda>k. lt_at lt xs a k) i j;
     if i > j then Some (xs, i)
     else do { xs1 \<leftarrow> swap_at xs i j; partition_equal_loop lt xs1 a (i + 1) (j - 1) }
   }"

definition partition_equal_func :: "('a \<Rightarrow> 'a \<Rightarrow> bool) \<Rightarrow> 'a list \<Rightarrow> nat \<Rightarrow> nat \<Rightarrow> nat \<Rightarrow> ('a list \<times> nat) option" where
  "partition_equal_func lt xs a b pivot =
     do { xs \<leftarrow> swap_at xs a pivot; partition_equal_loop lt xs a (a + 1) (b - 1) }"

section \<open>Partial insertion sort\<close>

partial_function (option) shift_left :: "('a \<Rightarrow> 'a \<Rightarrow> bool) \<Rightarrow> 'a list \<Rightarrow> nat \<Rightarrow> 'a list option" where
  "shift_left lt xs j =
     (if j \<ge> 1 then do {
        c \<leftarrow> lt_at lt xs j (j - 1);
        if \<not> c then Some xs else do { xs1 \<leftarrow> swap_at xs j (j - 1); shift_left lt xs1 (j - 1) }
      } else Some xs)"

partial_function (option) shift_right :: "('a \<Rightarrow> 'a \<Rightarrow> bool) \<Rightarrow> 'a list \<Rightarrow> nat \<Rightarrow> nat \<Rightarrow> 'a list option" where
  "shift_right lt xs j b =
     (if j < b then do {
        c \<leftarrow> lt_at lt xs j (j - 1);
        if \<not> c then Some xs else do { xs1 \<leftarrow> swap_at xs j (j - 1); shift_right lt xs1 (j + 1) b }
      } else Some xs)"

partial_function (option) ascending :: "('a \<Rightarrow> 'a \<Rightarrow> bool) \<Rightarrow> 'a list \<Rightarrow> nat \<Rightarrow> nat \<Rightarrow> nat option" where
  "ascending lt xs i b =
     (if i < b then do { c \<leftarrow> lt_at lt xs i (i - 1); if \<not> c then ascending lt xs (i + 1) b else Some i }
      else Some i)"

fun partial_steps :: "('a \<Rightarrow> 'a \<Rightarrow> bool) \<Rightarrow> nat \<Rightarrow> 'a list \<Rightarrow> nat \<Rightarrow> nat \<Rightarrow> nat \<Rightarrow> ('a list \<times> bool) option" where
  "partial_steps lt 0 xs a i b = Some (xs, False)"
| "partial_steps lt (Suc n) xs a i b = do {
     i \<leftarrow> ascending lt xs i b;
     if i = b then Some (xs, True)
     else if b - a < 50 then Some (xs, False)
     else do {
       xs \<leftarrow> swap_at xs i (i - 1);
       xs \<leftarrow> (if i - a \<ge> 2 then shift_left lt xs (i - 1) else Some xs);
       xs \<leftarrow> (if b - i \<ge> 2 then shift_right lt xs (i + 1) b else Some xs);
       partial_steps lt n xs a i b
     }
   }"

definition partial_insertion_sort_func :: "('a \<Rightarrow> 'a \<Rightarrow> bool) \<Rightarrow> 'a list \<Rightarrow> nat \<Rightarrow> nat \<Rightarrow> ('a list \<times> bool) option" where
  "partial_insertion_sort_func lt xs a b = partial_steps lt 5 xs a (a + 1) b"

section \<open>Breaking patterns and choosing the pivot\<close>

text \<open>\<^verbatim>\<open>usize::BITS - x.leading_zeros()\<close>\<close>

fun bits_len :: "nat \<Rightarrow> nat" where
  "bits_len x = (if x = 0 then 0 else Suc (bits_len (x div 2)))"

declare bits_len.simps [simp del]

definition next_power_of_two :: "nat \<Rightarrow> nat" where
  "next_power_of_two n = 2 ^ bits_len n"

definition xorshift_next :: "u64 \<Rightarrow> u64" where
  "xorshift_next x =
     (let x = x XOR push_bit 13 x; x = x XOR drop_bit 7 x in x XOR push_bit 17 x)"

fun scatter :: "nat \<Rightarrow> u64 \<Rightarrow> nat \<Rightarrow> nat \<Rightarrow> nat \<Rightarrow> 'a list \<Rightarrow> 'a list option" where
  "scatter 0 random a n idx xs = Some xs"
| "scatter (Suc k) random a n idx xs =
     (let random = xorshift_next random;
          other = unat random mod next_power_of_two n;
          other = (if other \<ge> n then other - n else other)
      in do { xs1 \<leftarrow> swap_at xs idx (a + other); scatter k random a n (idx + 1) xs1 })"

text \<open>The index runs over three values; \<^verbatim>\<open>x & (modulus - 1)\<close> for a power of two is the remainder.\<close>

definition break_patterns_func :: "'a list \<Rightarrow> nat \<Rightarrow> nat \<Rightarrow> 'a list option" where
  "break_patterns_func xs a b =
     (let n = b - a in
      if n \<ge> 8 then scatter 3 (of_nat n) a n (a + n div 4 * 2 - 1) xs else Some xs)"

datatype sorted_hint = Unknown | Increasing | Decreasing

definition order2_func :: "('a \<Rightarrow> 'a \<Rightarrow> bool) \<Rightarrow> 'a list \<Rightarrow> nat \<Rightarrow> nat \<Rightarrow> nat \<Rightarrow> (nat \<times> nat \<times> nat) option" where
  "order2_func lt xs a b swaps =
     do { c \<leftarrow> lt_at lt xs b a; Some (if c then (b, a, swaps + 1) else (a, b, swaps)) }"

definition median_func :: "('a \<Rightarrow> 'a \<Rightarrow> bool) \<Rightarrow> 'a list \<Rightarrow> nat \<Rightarrow> nat \<Rightarrow> nat \<Rightarrow> nat \<Rightarrow> (nat \<times> nat) option" where
  "median_func lt xs a b c swaps = do {
     (a, b, swaps) \<leftarrow> order2_func lt xs a b swaps;
     (b, c, swaps) \<leftarrow> order2_func lt xs b c swaps;
     (a, b, swaps) \<leftarrow> order2_func lt xs a b swaps;
     Some (b, swaps)
   }"

definition median_adjacent_func :: "('a \<Rightarrow> 'a \<Rightarrow> bool) \<Rightarrow> 'a list \<Rightarrow> nat \<Rightarrow> nat \<Rightarrow> (nat \<times> nat) option" where
  "median_adjacent_func lt xs a swaps = median_func lt xs (a - 1) a (a + 1) swaps"

definition choose_pivot_func :: "('a \<Rightarrow> 'a \<Rightarrow> bool) \<Rightarrow> 'a list \<Rightarrow> nat \<Rightarrow> nat \<Rightarrow> (nat \<times> sorted_hint) option" where
  "choose_pivot_func lt xs a b =
     (let l = b - a; i = a + l div 4; j = a + l div 4 * 2; k = a + l div 4 * 3 in
      do {
        (j, swaps) \<leftarrow>
          (if l \<ge> 8 then do {
             (i, j, k, swaps) \<leftarrow>
               (if l \<ge> 50 then do {
                  (i, swaps) \<leftarrow> median_adjacent_func lt xs i 0;
                  (j, swaps) \<leftarrow> median_adjacent_func lt xs j swaps;
                  (k, swaps) \<leftarrow> median_adjacent_func lt xs k swaps;
                  Some (i, j, k, swaps)
                } else Some (i, j, k, 0));
             median_func lt xs i j k swaps
           } else Some (j, 0));
        Some (j, if swaps = 0 then Increasing else if swaps = 12 then Decreasing else Unknown)
      })"

partial_function (option) reverse_range_loop :: "'a list \<Rightarrow> nat \<Rightarrow> nat \<Rightarrow> 'a list option" where
  "reverse_range_loop xs i j =
     (if i < j then do { xs1 \<leftarrow> swap_at xs i j; reverse_range_loop xs1 (i + 1) (j - 1) } else Some xs)"

definition reverse_range_func :: "'a list \<Rightarrow> nat \<Rightarrow> nat \<Rightarrow> 'a list option" where
  "reverse_range_func xs a b = reverse_range_loop xs a (b - 1)"

section \<open>Pattern-defeating quicksort\<close>

text \<open>The loop of \<^verbatim>\<open>pdqsort_func\<close> with its mutable locals; the recursive call starts a new loop.\<close>

partial_function (option) pdqsort_loop ::
    "('a \<Rightarrow> 'a \<Rightarrow> bool) \<Rightarrow> 'a list \<Rightarrow> nat \<Rightarrow> nat \<Rightarrow> nat \<Rightarrow> bool \<Rightarrow> bool \<Rightarrow> 'a list option" where
  "pdqsort_loop lt xs a b limit was_balanced was_partitioned =
     (if b - a \<le> 12 then insertion_sort_func lt xs a b
      else if limit = 0 then heap_sort_func lt xs a b
      else do {
        xs \<leftarrow> (if \<not> was_balanced then break_patterns_func xs a b else Some xs);
        let limit = (if \<not> was_balanced then limit - 1 else limit);
        (pivot, hint) \<leftarrow> choose_pivot_func lt xs a b;
        (xs, pivot, hint) \<leftarrow>
          (if hint = Decreasing
           then do { xs \<leftarrow> reverse_range_func xs a b; Some (xs, (b - 1) - (pivot - a), Increasing) }
           else Some (xs, pivot, hint));
        (xs, done) \<leftarrow>
          (if was_balanced \<and> was_partitioned \<and> hint = Increasing
           then partial_insertion_sort_func lt xs a b else Some (xs, False));
        if done then Some xs
        else do {
          duplicates \<leftarrow> (if a > 0 then map_option Not (lt_at lt xs (a - 1) pivot) else Some False);
          if duplicates then do {
            (xs, mid) \<leftarrow> partition_equal_func lt xs a b pivot;
            pdqsort_loop lt xs mid b limit was_balanced was_partitioned
          } else do {
            (xs, mid, already) \<leftarrow> partition_func lt xs a b pivot;
            let left_len = mid - a;
            let right_len = b - mid;
            let threshold = (b - a) div 8;
            if left_len < right_len then do {
              xs \<leftarrow> pdqsort_loop lt xs a mid limit True True;
              pdqsort_loop lt xs (mid + 1) b limit (left_len \<ge> threshold) already
            } else do {
              xs \<leftarrow> pdqsort_loop lt xs (mid + 1) b limit True True;
              pdqsort_loop lt xs a mid limit (right_len \<ge> threshold) already
            }
          }
        }
      })"

definition pdqsort_func :: "('a \<Rightarrow> 'a \<Rightarrow> bool) \<Rightarrow> 'a list \<Rightarrow> nat \<Rightarrow> nat \<Rightarrow> nat \<Rightarrow> 'a list option" where
  "pdqsort_func lt xs a b limit = pdqsort_loop lt xs a b limit True True"

definition slice_sort :: "'a list \<Rightarrow> ('a \<Rightarrow> 'a \<Rightarrow> bool) \<Rightarrow> 'a list option" where
  "slice_sort v lt = pdqsort_func lt v 0 (length v) (bits_len (length v))"

text \<open>The loops are executable.\<close>

declare insertion_shift.simps [code] insertion_loop.simps [code] sift_down_func.simps [code] scan_up.simps [code]
  scan_down.simps [code] partition_loop.simps [code] partition_equal_loop.simps [code] shift_left.simps [code]
  shift_right.simps [code] ascending.simps [code] reverse_range_loop.simps [code] pdqsort_loop.simps [code]

end
