(* ===== verification/Gosort_Correct.thy ===== *)
theory Gosort_Correct
  imports Gosort
begin

text \<open>
  Correctness of the pattern-defeating quicksort: for every strict weak order it returns (no index is
  ever out of range, every loop ends), the result is a permutation of the input and it is sorted.
\<close>

section \<open>Total correctness of an option computation\<close>

definition yields :: "'a option \<Rightarrow> ('a \<Rightarrow> bool) \<Rightarrow> bool" where
  "yields m P \<longleftrightarrow> (\<exists>y. m = Some y \<and> P y)"

lemma yields_Some [simp]: "yields (Some x) P \<longleftrightarrow> P x"
  by (simp add: yields_def)

lemma yields_bind: "yields m (\<lambda>x. yields (f x) P) \<Longrightarrow> yields (Option.bind m f) P"
  by (auto simp: yields_def)

lemma yields_mono: "yields m P \<Longrightarrow> (\<And>x. P x \<Longrightarrow> Q x) \<Longrightarrow> yields m Q"
  by (auto simp: yields_def)

lemma yields_bindI: "yields m P \<Longrightarrow> (\<And>x. P x \<Longrightarrow> yields (f x) Q) \<Longrightarrow> yields (Option.bind m f) Q"
  by (auto simp: yields_def)

section \<open>Changes within a range\<close>

text \<open>\<open>ys\<close> is \<open>xs\<close> with the elements at positions \<open>a\<close> to \<open>b\<close> (exclusive) permuted.\<close>

definition rng :: "nat \<Rightarrow> nat \<Rightarrow> 'a list \<Rightarrow> 'a list \<Rightarrow> bool" where
  "rng a b xs ys \<longleftrightarrow> length ys = length xs \<and> take a ys = take a xs \<and> drop b ys = drop b xs \<and> mset ys = mset xs"

lemma rng_refl [simp]: "rng a b xs xs"
  by (simp add: rng_def)

lemma rng_trans [trans]: "rng a b xs ys \<Longrightarrow> rng a b ys zs \<Longrightarrow> rng a b xs zs"
  by (simp add: rng_def)

lemma rng_length: "rng a b xs ys \<Longrightarrow> length ys = length xs"
  by (simp add: rng_def)

lemma rng_mset: "rng a b xs ys \<Longrightarrow> mset ys = mset xs"
  by (simp add: rng_def)

lemma rng_weaken:
  assumes "rng a b xs ys" and "a' \<le> a" and "b \<le> b'"
  shows "rng a' b' xs ys"
proof -
  have "take a' ys = take a' xs" using assms by (metis min.absorb1 rng_def take_take)
  moreover have "drop b' ys = drop b' xs" using assms by (metis drop_drop le_add_diff_inverse2 rng_def)
  ultimately show ?thesis using assms by (simp add: rng_def)
qed

lemma rng_outside: "rng a b xs ys \<Longrightarrow> i < a \<or> b \<le> i \<Longrightarrow> i < length xs \<Longrightarrow> ys ! i = xs ! i"
proof -
  assume r: "rng a b xs ys" and i: "i < a \<or> b \<le> i" "i < length xs"
  from i(1) show ?thesis
  proof
    assume "i < a"
    then have "ys ! i = take a ys ! i" "xs ! i = take a xs ! i" by simp_all
    with r show ?thesis by (simp add: rng_def)
  next
    assume b: "b \<le> i"
    then have "ys ! i = drop b ys ! (i - b)" "xs ! i = drop b xs ! (i - b)" using i(2) rng_length [OF r] by simp_all
    with r show ?thesis by (simp add: rng_def)
  qed
qed

lemma rng_all:
  assumes "rng a b xs ys" and "\<And>k. a \<le> k \<Longrightarrow> k < b \<Longrightarrow> k < length xs \<Longrightarrow> P (xs ! k)"
    and "a \<le> k" and "k < b" and "k < length xs"
  shows "P (ys ! k)"
proof -
  have split: "mset zs = mset (take a zs) + mset (take (b - a) (drop a zs)) + mset (drop b zs)" for zs :: "'a list"
  proof -
    have "drop b zs = drop (b - a) (drop a zs)" using assms(3,4) by simp
    then have "zs = take a zs @ take (b - a) (drop a zs) @ drop b zs" by (metis append_take_drop_id)
    then show ?thesis by (metis add.assoc mset_append)
  qed
  have "mset (take (b - a) (drop a ys)) = mset (take (b - a) (drop a xs))"
    using assms(1) split [of xs] split [of ys] unfolding rng_def by (metis add_left_cancel add_right_cancel)
  then have s: "set (take (b - a) (drop a ys)) = set (take (b - a) (drop a xs))" by (rule mset_eq_setD)
  have "ys ! k = take (b - a) (drop a ys) ! (k - a)" using assms(3-5) rng_length [OF assms(1)] by simp
  moreover have "k - a < length (take (b - a) (drop a ys))"
    using assms(3-5) rng_length [OF assms(1)] by (simp add: diff_less_mono)
  ultimately have "ys ! k \<in> set (take (b - a) (drop a xs))" unfolding s [symmetric] by (metis nth_mem)
  then obtain m where "m < b - a" "a + m < length xs" "ys ! k = xs ! (a + m)"
    by (auto simp: in_set_conv_nth)
  with assms(2) [of "a + m"] show ?thesis by simp
qed

lemma nth_swap: "i < length xs \<Longrightarrow> j < length xs \<Longrightarrow>
    xs[i := xs ! j, j := xs ! i] ! k = (if k = j then xs ! i else if k = i then xs ! j else xs ! k)"
  by (cases "k < length xs") (auto simp: nth_list_update)

lemma swap_rng:
  assumes "a \<le> i" "i < b" "a \<le> j" "j < b" "b \<le> length xs"
  shows "rng a b xs (xs[i := xs ! j, j := xs ! i])"
  using assms mset_swap [of j xs i] by (auto simp: rng_def)

lemma yields_swap:
  assumes "a \<le> i" "i < b" "a \<le> j" "j < b" "b \<le> length xs"
  shows "yields (swap_at xs i j) (\<lambda>ys. ys = xs[i := xs ! j, j := xs ! i] \<and> rng a b xs ys)"
  using assms swap_rng [OF assms] by (simp add: swap_at_def)

lemma lt_at_Some [simp]: "i < length xs \<Longrightarrow> j < length xs \<Longrightarrow> lt_at lt xs i j = Some (lt (xs ! i) (xs ! j))"
  by (simp add: lt_at_def)

definition sorted_rng :: "('a \<Rightarrow> 'a \<Rightarrow> bool) \<Rightarrow> 'a list \<Rightarrow> nat \<Rightarrow> nat \<Rightarrow> bool" where
  "sorted_rng lt xs a b \<longleftrightarrow> (\<forall>p q. a \<le> p \<longrightarrow> p < q \<longrightarrow> q < b \<longrightarrow> \<not> lt (xs ! q) (xs ! p))"

lemma sorted_rngD: "sorted_rng lt xs a b \<Longrightarrow> a \<le> p \<Longrightarrow> p < q \<Longrightarrow> q < b \<Longrightarrow> \<not> lt (xs ! q) (xs ! p)"
  by (simp add: sorted_rng_def)

lemma sorted_rng_cong:
  "sorted_rng lt xs a b \<Longrightarrow> (\<And>k. a \<le> k \<Longrightarrow> k < b \<Longrightarrow> ys ! k = xs ! k) \<Longrightarrow> sorted_rng lt ys a b"
  by (simp add: sorted_rng_def)

section \<open>Strict weak orders\<close>

locale strict_weak =
  fixes lt :: "'a \<Rightarrow> 'a \<Rightarrow> bool"
  assumes asym: "lt x y \<Longrightarrow> \<not> lt y x"
    and negtrans: "\<not> lt x y \<Longrightarrow> \<not> lt y z \<Longrightarrow> \<not> lt x z"
begin

lemma irrefl [simp]: "\<not> lt x x"
  using asym by blast

lemma insertion_shift_ok:
  assumes "a \<le> j" "j < hi" "hi \<le> length xs"
    and "\<And>p q. a \<le> p \<Longrightarrow> p < q \<Longrightarrow> q < hi \<Longrightarrow> p \<noteq> j \<Longrightarrow> q \<noteq> j \<Longrightarrow> \<not> lt (xs ! q) (xs ! p)"
    and "\<And>q. j < q \<Longrightarrow> q < hi \<Longrightarrow> \<not> lt (xs ! q) (xs ! j)"
  shows "yields (insertion_shift lt xs a j) (\<lambda>ys. rng a hi xs ys \<and> sorted_rng lt ys a hi)"
  using assms
proof (induction j arbitrary: xs)
  case 0
  have "sorted_rng lt xs a hi" unfolding sorted_rng_def
  proof (intro allI impI)
    fix p q assume "a \<le> p" "p < q" "q < hi"
    then show "\<not> lt (xs ! q) (xs ! p)" using "0.prems"(4) [of p q] "0.prems"(5) [of q] by (cases p) auto
  qed
  then show ?case by (simp add: insertion_shift.simps [of lt xs a 0])
next
  case (Suc j)
  show ?case
  proof (cases "a < Suc j \<and> lt (xs ! Suc j) (xs ! j)")
    case False
    have "sorted_rng lt xs a hi"
      unfolding sorted_rng_def
    proof (intro allI impI)
      fix p q assume pq: "a \<le> p" "p < q" "q < hi"
      consider "p \<noteq> Suc j" "q \<noteq> Suc j" | "p = Suc j" | "q = Suc j" "p = j" | "q = Suc j" "p < j" using pq by linarith
      then show "\<not> lt (xs ! q) (xs ! p)"
      proof cases
        case 4
        have "\<not> lt (xs ! j) (xs ! p)" using Suc.prems 4 pq by simp
        moreover have "\<not> lt (xs ! Suc j) (xs ! j)" using False 4 pq by simp
        ultimately show ?thesis using negtrans 4 by blast
      qed (use Suc.prems pq False in auto)
    qed
    with False Suc.prems show ?thesis by (auto simp: insertion_shift.simps [of lt xs a "Suc j"])
  next
    case True
    define ys where "ys = xs[Suc j := xs ! j, j := xs ! Suc j]"
    have len: "Suc j < length xs" "j < length xs" using Suc.prems by auto
    have nth: "ys ! k = (if k = j then xs ! Suc j else if k = Suc j then xs ! j else xs ! k)" for k
      unfolding ys_def using nth_swap [OF len] by simp
    have r: "rng a hi xs ys" unfolding ys_def using True Suc.prems by (intro swap_rng) auto
    have "yields (insertion_shift lt ys a j) (\<lambda>zs. rng a hi ys zs \<and> sorted_rng lt zs a hi)"
    proof (rule Suc.IH)
      show "hi \<le> length ys" using Suc.prems by (simp add: ys_def)
      fix p q assume "a \<le> p" "p < q" "q < hi" "p \<noteq> j" "q \<noteq> j"
      then show "\<not> lt (ys ! q) (ys ! p)" using Suc.prems(4) [of p q] Suc.prems(4) [of p j] Suc.prems(4) [of j q] True
        by (auto simp: nth)
    next
      fix q assume "j < q" "q < hi"
      then show "\<not> lt (ys ! q) (ys ! j)" using Suc.prems(5) [of q] True asym by (auto simp: nth)
    qed (use True Suc.prems in auto)
    then have "yields (insertion_shift lt ys a j) (\<lambda>zs. rng a hi xs zs \<and> sorted_rng lt zs a hi)"
      using r by (auto elim!: yields_mono intro: rng_trans)
    with True len show ?thesis
      by (simp add: insertion_shift.simps [of lt xs a "Suc j"] swap_at_def ys_def)
  qed
qed

lemma insertion_loop_ok:
  "sorted_rng lt xs a i \<Longrightarrow> a < i \<Longrightarrow> i \<le> b \<Longrightarrow> b \<le> length xs \<Longrightarrow>
    yields (insertion_loop lt xs a i b) (\<lambda>ys. rng a b xs ys \<and> sorted_rng lt ys a b)"
proof (induction "b - i" arbitrary: i xs)
  case 0
  then show ?case by (subst insertion_loop.simps) simp
next
  case (Suc n)
  have i: "i < b" using Suc.hyps(2) by simp
  have "yields (insertion_shift lt xs a i) (\<lambda>ys. rng a (Suc i) xs ys \<and> sorted_rng lt ys a (Suc i))"
    using Suc.prems i by (intro insertion_shift_ok) (auto simp: sorted_rng_def)
  then have "yields (insertion_shift lt xs a i \<bind> (\<lambda>xs1. insertion_loop lt xs1 a (i + 1) b))
      (\<lambda>ys. rng a b xs ys \<and> sorted_rng lt ys a b)"
  proof (rule yields_bindI)
    fix ys assume ys: "rng a (Suc i) xs ys \<and> sorted_rng lt ys a (Suc i)"
    then have r: "rng a b xs ys" using i by (auto intro: rng_weaken)
    have "yields (insertion_loop lt ys a (Suc i) b) (\<lambda>zs. rng a b ys zs \<and> sorted_rng lt zs a b)"
      using Suc.hyps(1) [of "Suc i" ys] Suc.hyps(2) Suc.prems ys i rng_length [OF r] by simp
    then show "yields (insertion_loop lt ys a (i + 1) b) (\<lambda>ys. rng a b xs ys \<and> sorted_rng lt ys a b)"
      using r by (auto elim!: yields_mono intro: rng_trans)
  qed
  with i show ?case by (simp add: insertion_loop.simps [of lt xs a i b])
qed

lemma insertion_sort_ok:
  assumes "a \<le> b" and "b \<le> length xs"
  shows "yields (insertion_sort_func lt xs a b) (\<lambda>ys. rng a b xs ys \<and> sorted_rng lt ys a b)"
proof (cases "a < b")
  case True
  with assms show ?thesis
    unfolding insertion_sort_func_def by (intro insertion_loop_ok) (auto simp: sorted_rng_def)
next
  case False
  with assms show ?thesis
    unfolding insertion_sort_func_def by (subst insertion_loop.simps) (auto simp: sorted_rng_def)
qed

end

section \<open>Heap sort\<close>

definition heap_rng :: "('a \<Rightarrow> 'a \<Rightarrow> bool) \<Rightarrow> 'a list \<Rightarrow> nat \<Rightarrow> nat \<Rightarrow> nat \<Rightarrow> bool" where
  "heap_rng lt xs first lo hi \<longleftrightarrow>
     (\<forall>i c. lo \<le> i \<longrightarrow> c = 2 * i + 1 \<or> c = 2 * i + 2 \<longrightarrow> c < hi \<longrightarrow> \<not> lt (xs ! (first + i)) (xs ! (first + c)))"

lemma heap_rngD:
  "heap_rng lt xs first lo hi \<Longrightarrow> lo \<le> i \<Longrightarrow> c = 2 * i + 1 \<or> c = 2 * i + 2 \<Longrightarrow> c < hi \<Longrightarrow>
    \<not> lt (xs ! (first + i)) (xs ! (first + c))"
  by (auto simp: heap_rng_def)

context strict_weak
begin

lemma sift_down_ok:
  assumes "first + hi \<le> length xs" and "lo \<le> root" and "root < hi"
    and "\<And>i c. lo \<le> i \<Longrightarrow> i \<noteq> root \<Longrightarrow> c = 2 * i + 1 \<or> c = 2 * i + 2 \<Longrightarrow> c < hi \<Longrightarrow>
      \<not> lt (xs ! (first + i)) (xs ! (first + c))"
    and "\<And>p c. lo \<le> p \<Longrightarrow> root = 2 * p + 1 \<or> root = 2 * p + 2 \<Longrightarrow> c = 2 * root + 1 \<or> c = 2 * root + 2 \<Longrightarrow> c < hi \<Longrightarrow>
      \<not> lt (xs ! (first + p)) (xs ! (first + c))"
  shows "yields (sift_down_func lt xs root hi first)
    (\<lambda>ys. rng (first + lo) (first + hi) xs ys \<and> heap_rng lt ys first lo hi)"
  using assms
proof (induction "hi - root" arbitrary: root xs rule: less_induct)
  case less
  note pre = less.prems
  show ?case
  proof (cases "hi \<le> 2 * root + 1")
    case True
    have "heap_rng lt xs first lo hi" unfolding heap_rng_def
    proof (intro allI impI)
      fix i c assume c: "lo \<le> i" "c = 2 * i + 1 \<or> c = 2 * i + 2" "c < hi"
      then have "i \<noteq> root" using True by auto
      with c show "\<not> lt (xs ! (first + i)) (xs ! (first + c))" using pre(4) by blast
    qed
    with True show ?thesis by (simp add: sift_down_func.simps [of lt xs root] Let_def)
  next
    case False
    define right where "right = (2 * root + 2 < hi \<and> lt (xs ! (first + (2 * root + 1))) (xs ! (first + (2 * root + 2))))"
    define c where "c = (if right then 2 * root + 2 else 2 * root + 1)"
    have c: "c < hi" "c = 2 * root + 1 \<or> c = 2 * root + 2" using False by (auto simp: c_def right_def)
    have best: "\<not> lt (xs ! (first + c)) (xs ! (first + d))" if "d = 2 * root + 1 \<or> d = 2 * root + 2" "d < hi" for d
      using that asym by (auto simp: c_def right_def)
    have rd: "(if 2 * root + 1 + 1 < hi then lt_at lt xs (first + (2 * root + 1)) (first + (2 * root + 1) + 1) else Some False)
        = Some right"
      using pre(1) False by (auto simp: right_def)
    have step: "sift_down_func lt xs root hi first =
        do { l \<leftarrow> lt_at lt xs (first + root) (first + c);
             if \<not> l then Some xs
             else do { xs1 \<leftarrow> swap_at xs (first + root) (first + c); sift_down_func lt xs1 c hi first } }"
    proof -
      have "(if right then 2 * root + 1 + 1 else 2 * root + 1) = c" by (simp add: c_def)
      with False show ?thesis
        unfolding sift_down_func.simps [of lt xs root] Let_def rd by (simp only: if_False Option.bind.simps)
    qed
    have len: "first + root < length xs" "first + c < length xs" using pre(1,3) c by auto
    show ?thesis
    proof (cases "lt (xs ! (first + root)) (xs ! (first + c))")
      case ok: False
      have "heap_rng lt xs first lo hi"
        unfolding heap_rng_def
      proof (intro allI impI)
        fix i d assume d: "lo \<le> i" "d = 2 * i + 1 \<or> d = 2 * i + 2" "d < hi"
        show "\<not> lt (xs ! (first + i)) (xs ! (first + d))"
        proof (cases "i = root")
          case True
          with d best [of d] ok show ?thesis by (metis negtrans)
        qed (use d pre(4) in blast)
      qed
      with ok len show ?thesis by (simp add: step)
    next
      case swap: True
      define ys where "ys = xs[first + root := xs ! (first + c), first + c := xs ! (first + root)]"
      have nth: "ys ! (first + k) = (if k = c then xs ! (first + root) else if k = root then xs ! (first + c) else xs ! (first + k))" for k
        unfolding ys_def nth_swap [OF len] by simp
      have ne: "c \<noteq> root" "lo \<le> c" using c pre(2) by auto
      have r: "rng (first + lo) (first + hi) xs ys"
        unfolding ys_def using pre c ne by (intro swap_rng) auto
      have "yields (sift_down_func lt ys c hi first) (\<lambda>zs. rng (first + lo) (first + hi) ys zs \<and> heap_rng lt zs first lo hi)"
      proof (rule less.hyps)
        show "hi - c < hi - root" using c pre(3) by auto
        show "first + hi \<le> length ys" using pre(1) by (simp add: ys_def)
        fix i d assume d: "lo \<le> i" "i \<noteq> c" "d = 2 * i + 1 \<or> d = 2 * i + 2" "d < hi"
        show "\<not> lt (ys ! (first + i)) (ys ! (first + d))"
        proof (cases "i = root")
          case True
          with d best [of d] swap asym c ne show ?thesis by (auto simp: nth)
        next
          case i: False
          then have "d \<noteq> c" using d c by auto
          with i d ne pre(4) [of i d] pre(5) [of i c] c show ?thesis by (auto simp: nth)
        qed
      next
        fix p d assume d: "lo \<le> p" "c = 2 * p + 1 \<or> c = 2 * p + 2" "d = 2 * c + 1 \<or> d = 2 * c + 2" "d < hi"
        then have "p = root" using c by auto
        with d ne c pre(4) [of c d] show "\<not> lt (ys ! (first + p)) (ys ! (first + d))" by (auto simp: nth)
      qed (use ne c in auto)
      with r have "yields (sift_down_func lt ys c hi first) (\<lambda>zs. rng (first + lo) (first + hi) xs zs \<and> heap_rng lt zs first lo hi)"
        by (auto elim!: yields_mono intro: rng_trans)
      with swap len show ?thesis by (simp add: step swap_at_def ys_def)
    qed
  qed
qed

lemma heap_build_ok:
  "heap_rng lt xs first n hi \<Longrightarrow> n \<le> hi \<Longrightarrow> first + hi \<le> length xs \<Longrightarrow>
    yields (heap_build lt n hi first xs) (\<lambda>ys. rng first (first + hi) xs ys \<and> heap_rng lt ys first 0 hi)"
proof (induction n arbitrary: xs)
  case (Suc n)
  have "yields (sift_down_func lt xs n hi first) (\<lambda>ys. rng (first + n) (first + hi) xs ys \<and> heap_rng lt ys first n hi)"
  proof (rule sift_down_ok)
    fix i c assume "n \<le> i" "i \<noteq> n" "c = 2 * i + 1 \<or> c = 2 * i + 2" "c < hi"
    then show "\<not> lt (xs ! (first + i)) (xs ! (first + c))" using heap_rngD [OF Suc.prems(1), of i c] by simp
  qed (use Suc.prems in auto)
  then show ?case unfolding heap_build.simps
  proof (rule yields_bindI)
    fix ys assume ys: "rng (first + n) (first + hi) xs ys \<and> heap_rng lt ys first n hi"
    then have r: "rng first (first + hi) xs ys" by (auto intro: rng_weaken)
    have "yields (heap_build lt n hi first ys) (\<lambda>zs. rng first (first + hi) ys zs \<and> heap_rng lt zs first 0 hi)"
      using Suc.IH [of ys] ys Suc.prems rng_length [OF r] by simp
    with r show "yields (heap_build lt n hi first ys) (\<lambda>zs. rng first (first + hi) xs zs \<and> heap_rng lt zs first 0 hi)"
      by (auto elim!: yields_mono intro: rng_trans)
  qed
qed simp

lemma heap_max:
  assumes "heap_rng lt xs first 0 n"
  shows "k < n \<Longrightarrow> \<not> lt (xs ! first) (xs ! (first + k))"
proof (induction k rule: less_induct)
  case (less k)
  show ?case
  proof (cases k)
    case (Suc m)
    define p where "p = m div 2"
    have p: "p < k" "k = 2 * p + 1 \<or> k = 2 * p + 2" using Suc by (auto simp: p_def)
    have "\<not> lt (xs ! (first + p)) (xs ! (first + k))" using heap_rngD [OF assms _ p(2) less.prems] by simp
    with less.IH [OF p(1)] p less.prems show ?thesis by (metis negtrans less_trans)
  qed simp
qed

lemma heap_pop_ok:
  "heap_rng lt xs first 0 n \<Longrightarrow> n \<le> N \<Longrightarrow> first + N \<le> length xs \<Longrightarrow> sorted_rng lt xs (first + n) (first + N) \<Longrightarrow>
   (\<And>p q. p < n \<Longrightarrow> n \<le> q \<Longrightarrow> q < N \<Longrightarrow> \<not> lt (xs ! (first + q)) (xs ! (first + p))) \<Longrightarrow>
    yields (heap_pop lt n first xs) (\<lambda>ys. rng first (first + N) xs ys \<and> sorted_rng lt ys first (first + N))"
proof (induction n arbitrary: xs)
  case (Suc i)
  note pre = Suc.prems
  define ys where "ys = xs[first := xs ! (first + i), first + i := xs ! first]"
  have len: "first < length xs" "first + i < length xs" using pre by auto
  have nth: "ys ! (first + k) = (if k = i then xs ! first else if k = 0 then xs ! (first + i) else xs ! (first + k))" for k
    unfolding ys_def nth_swap [OF len] by simp
  have r1: "rng first (first + N) xs ys" unfolding ys_def using pre by (intro swap_rng) auto
  have max: "\<not> lt (xs ! first) (xs ! (first + k))" if "k \<le> i" for k using heap_max [OF pre(1), of k] that by simp
  have "yields (sift_down_func lt ys 0 i first) (\<lambda>zs. rng (first + 0) (first + i) ys zs \<and> heap_rng lt zs first 0 i)"
  proof (cases "i = 0")
    case True
    then show ?thesis by (simp add: sift_down_func.simps [of lt ys 0 0] heap_rng_def Let_def)
  next
    case False
    show ?thesis
    proof (rule sift_down_ok)
      fix k c assume "0 \<le> k" "k \<noteq> 0" "c = 2 * k + 1 \<or> c = 2 * k + 2" "c < i"
      then show "\<not> lt (ys ! (first + k)) (ys ! (first + c))" using heap_rngD [OF pre(1), of k c] by (auto simp: nth)
    qed (use pre False in \<open>auto simp: ys_def\<close>)
  qed
  moreover have "swap_at xs first (first + i) = Some ys" using len by (simp add: swap_at_def ys_def)
  ultimately show ?case
    unfolding heap_pop.simps
  proof (simp, elim yields_bindI)
    fix zs assume zs: "rng first (first + i) ys zs \<and> heap_rng lt zs first 0 i"
    have out: "zs ! (first + k) = ys ! (first + k)" if "i \<le> k" "k < N" for k
      using rng_outside [of first "first + i" ys zs "first + k"] zs that pre by (simp add: ys_def)
    have below: "\<not> lt (xs ! first) (zs ! (first + p)) \<and> (\<forall>q. i < q \<longrightarrow> q < N \<longrightarrow> \<not> lt (xs ! (first + q)) (zs ! (first + p)))"
      if "p < i" for p
    proof (rule rng_all [of first "first + i" ys zs])
      fix k assume k: "first \<le> k" "k < first + i" "k < length ys"
      then obtain m where m: "k = first + m" "m < i" by (metis le_Suc_ex nat_add_left_cancel_less)
      show "\<not> lt (xs ! first) (ys ! k) \<and> (\<forall>q. i < q \<longrightarrow> q < N \<longrightarrow> \<not> lt (xs ! (first + q)) (ys ! k))"
        using m max [of m] max [of i] pre(5) [of m] pre(5) [of i] by (auto simp: nth m(1))
    qed (use zs that pre in \<open>auto simp: ys_def\<close>)
    have "rng first (first + N) ys zs" by (rule rng_weaken [of first "first + i"]) (use zs pre in auto)
    with r1 have r: "rng first (first + N) xs zs" by (rule rng_trans)
    have "yields (heap_pop lt i first zs) (\<lambda>us. rng first (first + N) zs us \<and> sorted_rng lt us first (first + N))"
    proof (rule Suc.IH)
      show "sorted_rng lt zs (first + i) (first + N)"
        unfolding sorted_rng_def
      proof (intro allI impI)
        fix p q assume pq: "first + i \<le> p" "p < q" "q < first + N"
        define p' q' where "p' = p - first" and "q' = q - first"
        have e: "p = first + p'" "q = first + q'" "i \<le> p'" "p' < q'" "q' < N"
          using pq by (auto simp: p'_def q'_def)
        show "\<not> lt (zs ! q) (zs ! p)"
          using out [of p'] out [of q'] e pre(5) [of 0 q'] sorted_rngD [OF pre(4), of p q] by (auto simp: nth)
      qed
      fix p q assume "p < i" "i \<le> q" "q < N"
      then show "\<not> lt (zs ! (first + q)) (zs ! (first + p))"
        using below [of p] out [of q] by (cases "q = i") (auto simp: nth)
    qed (use zs pre rng_length [OF r] in auto)
    with r show "yields (heap_pop lt i first zs) (\<lambda>us. rng first (first + N) xs us \<and> sorted_rng lt us first (first + N))"
      by (auto elim!: yields_mono intro: rng_trans)
  qed
qed simp

lemma heap_sort_ok:
  assumes "a < b" and "b \<le> length xs"
  shows "yields (heap_sort_func lt xs a b) (\<lambda>ys. rng a b xs ys \<and> sorted_rng lt ys a b)"
proof -
  define hi where "hi = b - a"
  have hi: "0 < hi" "a + hi = b" using assms by (auto simp: hi_def)
  have "heap_rng lt xs a (Suc ((hi - 1) div 2)) hi" using hi by (auto simp: heap_rng_def)
  moreover have "Suc ((hi - 1) div 2) \<le> hi" using hi by simp
  ultimately have "yields (heap_build lt (Suc ((hi - 1) div 2)) hi a xs) (\<lambda>ys. rng a b xs ys \<and> heap_rng lt ys a 0 hi)"
    using heap_build_ok [of xs a _ hi] assms hi by (simp del: heap_build.simps)
  then show ?thesis unfolding heap_sort_func_def Let_def hi_def [symmetric]
  proof (rule yields_bindI)
    fix ys assume ys: "rng a b xs ys \<and> heap_rng lt ys a 0 hi"
    have "yields (heap_pop lt hi a ys) (\<lambda>zs. rng a (a + hi) ys zs \<and> sorted_rng lt zs a (a + hi))"
      using ys assms hi rng_length [of a b xs ys] by (intro heap_pop_ok) (auto simp: sorted_rng_def)
    with ys hi show "yields (heap_pop lt hi a ys) (\<lambda>zs. rng a b xs zs \<and> sorted_rng lt zs a b)"
      by (auto elim!: yields_mono intro: rng_trans)
  qed
qed

end

section \<open>Partitioning\<close>

lemma scan_up_ok:
  assumes "\<And>k. i \<le> k \<Longrightarrow> k \<le> j \<Longrightarrow> p k = Some (f k)" and "i \<le> Suc j"
  shows "yields (scan_up p i j) (\<lambda>i'. i \<le> i' \<and> i' \<le> Suc j \<and> (\<forall>k. i \<le> k \<longrightarrow> k < i' \<longrightarrow> f k) \<and> (i' \<le> j \<longrightarrow> \<not> f i'))"
  using assms
proof (induction "Suc j - i" arbitrary: i)
  case 0
  then show ?case by (subst scan_up.simps) auto
next
  case (Suc n)
  have ih: "yields (scan_up p (Suc i) j) (\<lambda>i'. Suc i \<le> i' \<and> i' \<le> Suc j \<and> (\<forall>k. Suc i \<le> k \<longrightarrow> k < i' \<longrightarrow> f k) \<and> (i' \<le> j \<longrightarrow> \<not> f i'))"
    by (rule Suc.hyps(1)) (use Suc in auto)
  show ?case
  proof (cases "f i")
    case True
    have "yields (scan_up p (Suc i) j) (\<lambda>i'. i \<le> i' \<and> i' \<le> Suc j \<and> (\<forall>k. i \<le> k \<longrightarrow> k < i' \<longrightarrow> f k) \<and> (i' \<le> j \<longrightarrow> \<not> f i'))"
    proof (rule yields_mono [OF ih], elim conjE, intro conjI allI impI)
      fix m k assume "\<forall>k. Suc i \<le> k \<longrightarrow> k < m \<longrightarrow> f k" "i \<le> k" "k < m"
      with True show "f k" by (cases "k = i") auto
    qed auto
    with True Suc.prems Suc.hyps(2) show ?thesis by (subst scan_up.simps) simp
  next
    case False
    with Suc.prems Suc.hyps(2) show ?thesis by (subst scan_up.simps) auto
  qed
qed

lemma scan_down_ok:
  assumes "\<And>k. i \<le> k \<Longrightarrow> k \<le> j \<Longrightarrow> p k = Some (f k)" and "i \<le> Suc j" and "0 < i"
  shows "yields (scan_down p i j) (\<lambda>j'. j' \<le> j \<and> i \<le> Suc j' \<and> (\<forall>k. j' < k \<longrightarrow> k \<le> j \<longrightarrow> f k) \<and> (i \<le> j' \<longrightarrow> \<not> f j'))"
  using assms
proof (induction "Suc j - i" arbitrary: j)
  case 0
  then show ?case by (subst scan_down.simps) auto
next
  case (Suc n)
  have j: "i \<le> j" "Suc (j - 1) = j" using Suc by auto
  have ih: "yields (scan_down p i (j - 1)) (\<lambda>j'. j' \<le> j - 1 \<and> i \<le> Suc j' \<and> (\<forall>k. j' < k \<longrightarrow> k \<le> j - 1 \<longrightarrow> f k) \<and> (i \<le> j' \<longrightarrow> \<not> f j'))"
    by (rule Suc.hyps(1)) (use Suc j in auto)
  show ?case
  proof (cases "f j")
    case True
    have "yields (scan_down p i (j - 1)) (\<lambda>j'. j' \<le> j \<and> i \<le> Suc j' \<and> (\<forall>k. j' < k \<longrightarrow> k \<le> j \<longrightarrow> f k) \<and> (i \<le> j' \<longrightarrow> \<not> f j'))"
    proof (rule yields_mono [OF ih], elim conjE, intro conjI allI impI)
      fix m k assume "\<forall>k. m < k \<longrightarrow> k \<le> j - 1 \<longrightarrow> f k" "m < k" "k \<le> j"
      with True show "f k" by (cases "k = j") auto
    qed (use j in auto)
    with True Suc.prems j show ?thesis by (subst scan_down.simps) simp
  next
    case False
    with Suc.prems j show ?thesis by (subst scan_down.simps) auto
  qed
qed

text \<open>
  Both partition loops move the elements that satisfy \<open>up\<close> before those that do not; \<open>sweep\<close> is their
  common body.
\<close>

lemma sweep_ok:
  fixes up :: "'a \<Rightarrow> bool"
  assumes step: "\<And>xs i j. a < length xs \<Longrightarrow> xs ! a = v \<Longrightarrow> loop xs i j = do {
      i \<leftarrow> scan_up (\<lambda>k. if k < length xs then Some (up (xs ! k)) else None) i j;
      j \<leftarrow> scan_down (\<lambda>k. if k < length xs then Some (\<not> up (xs ! k)) else None) i j;
      if i > j then Some (xs, out i j)
      else do { xs1 \<leftarrow> swap_at xs i j; loop xs1 (i + 1) (j - 1) } }"
    and "a < i" "i \<le> Suc j" "j < b" "b \<le> length xs"
    and "\<And>k. a < k \<Longrightarrow> k < i \<Longrightarrow> up (xs ! k)" and "\<And>k. j < k \<Longrightarrow> k < b \<Longrightarrow> \<not> up (xs ! k)"
    and "xs ! a = v"
  shows "yields (loop xs i j) (\<lambda>(ys, o1). \<exists>m. o1 = out (Suc m) m \<and> rng (Suc a) b xs ys \<and> a \<le> m \<and> m < b \<and>
    (\<forall>k. a < k \<longrightarrow> k \<le> m \<longrightarrow> up (ys ! k)) \<and> (\<forall>k. m < k \<longrightarrow> k < b \<longrightarrow> \<not> up (ys ! k)))"
  using assms(2-)
proof (induction "Suc j - i" arbitrary: xs i j rule: less_induct)
  case less
  note pre = less.prems
  have a: "a < length xs" using pre by simp
  show ?case unfolding step [OF a pre(7)]
  proof (rule yields_bindI [OF scan_up_ok [where f = "\<lambda>k. up (xs ! k)"]])
    fix i' assume i': "i \<le> i' \<and> i' \<le> Suc j \<and> (\<forall>k. i \<le> k \<longrightarrow> k < i' \<longrightarrow> up (xs ! k)) \<and> (i' \<le> j \<longrightarrow> \<not> up (xs ! i'))"
    then have ups: "up (xs ! k)" if "a < k" "k < i'" for k using pre(5) [of k] that by (cases "k < i") auto
    show "yields (scan_down (\<lambda>k. if k < length xs then Some (\<not> up (xs ! k)) else None) i' j \<bind>
       (\<lambda>j. if j < i' then Some (xs, out i' j) else swap_at xs i' j \<bind> (\<lambda>xs1. loop xs1 (i' + 1) (j - 1))))
     (\<lambda>(ys, o1). \<exists>m. o1 = out (Suc m) m \<and> rng (Suc a) b xs ys \<and> a \<le> m \<and> m < b \<and>
        (\<forall>k. a < k \<longrightarrow> k \<le> m \<longrightarrow> up (ys ! k)) \<and> (\<forall>k. m < k \<longrightarrow> k < b \<longrightarrow> \<not> up (ys ! k)))"
    proof (rule yields_bindI [OF scan_down_ok [where f = "\<lambda>k. \<not> up (xs ! k)"]])
      fix j' assume j': "j' \<le> j \<and> i' \<le> Suc j' \<and> (\<forall>k. j' < k \<longrightarrow> k \<le> j \<longrightarrow> \<not> up (xs ! k)) \<and> (i' \<le> j' \<longrightarrow> \<not> \<not> up (xs ! j'))"
      then have downs: "\<not> up (xs ! k)" if "j' < k" "k < b" for k using pre(6) [of k] that by (cases "j < k") auto
      show "yields (if j' < i' then Some (xs, out i' j') else swap_at xs i' j' \<bind> (\<lambda>xs1. loop xs1 (i' + 1) (j' - 1)))
         (\<lambda>(ys, o1). \<exists>m. o1 = out (Suc m) m \<and> rng (Suc a) b xs ys \<and> a \<le> m \<and> m < b \<and>
            (\<forall>k. a < k \<longrightarrow> k \<le> m \<longrightarrow> up (ys ! k)) \<and> (\<forall>k. m < k \<longrightarrow> k < b \<longrightarrow> \<not> up (ys ! k)))"
      proof (cases "j' < i'")
        case True
        then have "i' = Suc j'" using j' by simp
        with ups downs pre i' j' show ?thesis by (auto intro!: exI [of _ j'])
      next
        case False
        then have lt: "i' < j'" using i' j' by (metis le_neq_implies_less not_less order_trans)
        define ys where "ys = xs[i' := xs ! j', j' := xs ! i']"
        have len: "i' < length xs" "j' < length xs" using lt j' pre by auto
        have nth: "ys ! k = (if k = j' then xs ! i' else if k = i' then xs ! j' else xs ! k)" for k
          unfolding ys_def by (rule nth_swap [OF len])
        have r: "rng (Suc a) b xs ys" unfolding ys_def using lt i' j' pre by (intro swap_rng) auto
        have "yields (loop ys (i' + 1) (j' - 1)) (\<lambda>(zs, o1). \<exists>m. o1 = out (Suc m) m \<and> rng (Suc a) b ys zs \<and> a \<le> m \<and> m < b \<and>
            (\<forall>k. a < k \<longrightarrow> k \<le> m \<longrightarrow> up (zs ! k)) \<and> (\<forall>k. m < k \<longrightarrow> k < b \<longrightarrow> \<not> up (zs ! k)))"
        proof (rule less.hyps)
          fix k assume "a < k" "k < i' + 1"
          then show "up (ys ! k)" using ups [of k] j' False lt by (auto simp: nth less_Suc_eq)
        next
          fix k assume k: "j' - 1 < k" "k < b"
          then show "\<not> up (ys ! k)" using downs [of k] i' j' lt False by (cases "k = j'") (auto simp: nth)
        qed (use pre i' j' lt rng_outside [OF r, of a] in \<open>auto simp: ys_def\<close>)
        then have "yields (loop ys (i' + 1) (j' - 1)) (\<lambda>(zs, o1). \<exists>m. o1 = out (Suc m) m \<and> rng (Suc a) b xs zs \<and> a \<le> m \<and> m < b \<and>
            (\<forall>k. a < k \<longrightarrow> k \<le> m \<longrightarrow> up (zs ! k)) \<and> (\<forall>k. m < k \<longrightarrow> k < b \<longrightarrow> \<not> up (zs ! k)))"
          by (rule yields_mono) (use r in \<open>auto intro: rng_trans\<close>)
        with False len show ?thesis by (simp add: swap_at_def ys_def)
      qed
    qed (use i' pre in auto)
  qed (use pre in auto)
qed

context strict_weak
begin

lemma trans: "lt x y \<Longrightarrow> lt y z \<Longrightarrow> lt x z"
  using asym negtrans by blast

lemma partition_loop_ok:
  assumes "a < i" "i \<le> Suc j" "j < b" "b \<le> length xs"
    and "\<And>k. a < k \<Longrightarrow> k < i \<Longrightarrow> lt (xs ! k) (xs ! a)" and "\<And>k. j < k \<Longrightarrow> k < b \<Longrightarrow> \<not> lt (xs ! k) (xs ! a)"
  shows "yields (partition_loop lt xs a i j) (\<lambda>(ys, m). rng (Suc a) b xs ys \<and> a \<le> m \<and> m < b \<and>
    (\<forall>k. a < k \<longrightarrow> k \<le> m \<longrightarrow> lt (ys ! k) (xs ! a)) \<and> (\<forall>k. m < k \<longrightarrow> k < b \<longrightarrow> \<not> lt (ys ! k) (xs ! a)))"
proof -
  have step: "partition_loop lt ys a i j = do {
      i \<leftarrow> scan_up (\<lambda>k. if k < length ys then Some (lt (ys ! k) (xs ! a)) else None) i j;
      j \<leftarrow> scan_down (\<lambda>k. if k < length ys then Some (\<not> lt (ys ! k) (xs ! a)) else None) i j;
      if i > j then Some (ys, j)
      else do { ys1 \<leftarrow> swap_at ys i j; partition_loop lt ys1 a (i + 1) (j - 1) } }"
    if "a < length ys" "ys ! a = xs ! a" for ys i j
  proof -
    have "(\<lambda>k. lt_at lt ys k a) = (\<lambda>k. if k < length ys then Some (lt (ys ! k) (xs ! a)) else None)"
      "(\<lambda>k. map_option Not (lt_at lt ys k a)) = (\<lambda>k. if k < length ys then Some (\<not> lt (ys ! k) (xs ! a)) else None)"
      using that by (auto simp: lt_at_def)
    then show ?thesis by (subst partition_loop.simps) (simp only:)
  qed
  have "yields (partition_loop lt xs a i j) (\<lambda>(ys, o1). \<exists>m. o1 = m \<and> rng (Suc a) b xs ys \<and> a \<le> m \<and> m < b \<and>
    (\<forall>k. a < k \<longrightarrow> k \<le> m \<longrightarrow> lt (ys ! k) (xs ! a)) \<and> (\<forall>k. m < k \<longrightarrow> k < b \<longrightarrow> \<not> lt (ys ! k) (xs ! a)))"
    by (rule sweep_ok [where loop = "\<lambda>xs i j. partition_loop lt xs a i j" and v = "xs ! a" and out = "\<lambda>i j. j", OF step])
      (use assms in auto)
  then show ?thesis by simp
qed

lemma partition_equal_loop_ok:
  assumes "a < i" "i \<le> Suc j" "j < b" "b \<le> length xs"
    and "\<And>k. a < k \<Longrightarrow> k < i \<Longrightarrow> \<not> lt (xs ! a) (xs ! k)" and "\<And>k. j < k \<Longrightarrow> k < b \<Longrightarrow> lt (xs ! a) (xs ! k)"
  shows "yields (partition_equal_loop lt xs a i j) (\<lambda>(ys, m). rng (Suc a) b xs ys \<and> a < m \<and> m \<le> b \<and>
    (\<forall>k. a < k \<longrightarrow> k < m \<longrightarrow> \<not> lt (xs ! a) (ys ! k)) \<and> (\<forall>k. m \<le> k \<longrightarrow> k < b \<longrightarrow> lt (xs ! a) (ys ! k)))"
proof -
  have step: "partition_equal_loop lt ys a i j = do {
      i \<leftarrow> scan_up (\<lambda>k. if k < length ys then Some (\<not> lt (xs ! a) (ys ! k)) else None) i j;
      j \<leftarrow> scan_down (\<lambda>k. if k < length ys then Some (\<not> \<not> lt (xs ! a) (ys ! k)) else None) i j;
      if i > j then Some (ys, i)
      else do { ys1 \<leftarrow> swap_at ys i j; partition_equal_loop lt ys1 a (i + 1) (j - 1) } }"
    if "a < length ys" "ys ! a = xs ! a" for ys i j
  proof -
    have "(\<lambda>k. lt_at lt ys a k) = (\<lambda>k. if k < length ys then Some (\<not> \<not> lt (xs ! a) (ys ! k)) else None)"
      "(\<lambda>k. map_option Not (lt_at lt ys a k)) = (\<lambda>k. if k < length ys then Some (\<not> lt (xs ! a) (ys ! k)) else None)"
      using that by (auto simp: lt_at_def)
    then show ?thesis by (subst partition_equal_loop.simps) (simp only:)
  qed
  have "yields (partition_equal_loop lt xs a i j) (\<lambda>(ys, o1). \<exists>m. o1 = Suc m \<and> rng (Suc a) b xs ys \<and> a \<le> m \<and> m < b \<and>
    (\<forall>k. a < k \<longrightarrow> k \<le> m \<longrightarrow> \<not> lt (xs ! a) (ys ! k)) \<and> (\<forall>k. m < k \<longrightarrow> k < b \<longrightarrow> \<not> \<not> lt (xs ! a) (ys ! k)))"
    by (rule sweep_ok [where loop = "\<lambda>xs i j. partition_equal_loop lt xs a i j" and v = "xs ! a" and out = "\<lambda>i j. i", OF step])
      (use assms in auto)
  then show ?thesis by (rule yields_mono) (auto simp: less_Suc_eq_le Suc_le_eq)
qed

lemma partition_equal_ok:
  assumes "a \<le> pivot" "pivot < b" "b \<le> length xs" and "\<And>k. a \<le> k \<Longrightarrow> k < b \<Longrightarrow> \<not> lt (xs ! k) (xs ! pivot)"
  shows "yields (partition_equal_func lt xs a b pivot) (\<lambda>(ys, m). rng a b xs ys \<and> a < m \<and> m \<le> b \<and>
    (\<forall>k. a \<le> k \<longrightarrow> k < m \<longrightarrow> \<not> lt (xs ! pivot) (ys ! k)) \<and> (\<forall>k. m \<le> k \<longrightarrow> k < b \<longrightarrow> lt (xs ! pivot) (ys ! k)))"
  unfolding partition_equal_func_def
proof (rule yields_bindI [OF yields_swap [of a a b pivot xs]])
  fix ys assume ys: "ys = xs[a := xs ! pivot, pivot := xs ! a] \<and> rng a b xs ys"
  have v: "ys ! a = xs ! pivot" using ys assms by (auto simp: nth_swap)
  have "yields (partition_equal_loop lt ys a (a + 1) (b - 1)) (\<lambda>(zs, m). rng (Suc a) b ys zs \<and> a < m \<and> m \<le> b \<and>
    (\<forall>k. a < k \<longrightarrow> k < m \<longrightarrow> \<not> lt (ys ! a) (zs ! k)) \<and> (\<forall>k. m \<le> k \<longrightarrow> k < b \<longrightarrow> lt (ys ! a) (zs ! k)))"
    using assms ys by (intro partition_equal_loop_ok) (auto simp: rng_def)
  then show "yields (partition_equal_loop lt ys a (a + 1) (b - 1)) (\<lambda>(ys, m). rng a b xs ys \<and> a < m \<and> m \<le> b \<and>
    (\<forall>k. a \<le> k \<longrightarrow> k < m \<longrightarrow> \<not> lt (xs ! pivot) (ys ! k)) \<and> (\<forall>k. m \<le> k \<longrightarrow> k < b \<longrightarrow> lt (xs ! pivot) (ys ! k)))"
  proof (rule yields_mono, clarsimp simp del: rng_def)
    fix zs m assume z: "rng (Suc a) b ys zs" "a < m" "m \<le> b"
      "\<forall>k>a. k < m \<longrightarrow> \<not> lt (ys ! a) (zs ! k)" "\<forall>k\<ge>m. k < b \<longrightarrow> lt (ys ! a) (zs ! k)"
    have "rng a b ys zs" using rng_weaken [OF z(1), of a b] by simp
    moreover have "zs ! a = ys ! a" using rng_outside [OF z(1), of a] assms ys rng_length by fastforce
    ultimately show "rng a b xs zs \<and> (\<forall>k\<ge>a. k < m \<longrightarrow> \<not> lt (xs ! pivot) (zs ! k)) \<and> (\<forall>k\<ge>m. k < b \<longrightarrow> lt (xs ! pivot) (zs ! k))"
      using z ys v by (metis irrefl le_neq_implies_less rng_trans)
  qed
qed (use assms in auto)

text \<open>The first sweep of \<^verbatim>\<open>partition_func\<close> is an iteration of the loop, apart from the flag.\<close>

lemma partition_func_loop:
  "map_option (\<lambda>(ys, m, f). (ys, m)) (partition_func lt xs a b pivot) = do {
     xs \<leftarrow> swap_at xs a pivot;
     (xs, j) \<leftarrow> partition_loop lt xs a (a + 1) (b - 1);
     xs \<leftarrow> swap_at xs j a;
     Some (xs, j) }"
  unfolding partition_func_def partition_loop.simps [of lt _ a "a + 1" "b - 1"]
  by (auto split: Option.bind_split prod.split)

lemma yields_map_option: "yields (map_option f m) P \<longleftrightarrow> yields m (\<lambda>x. P (f x))"
  by (cases m) (auto simp: yields_def)

lemma partition_ok:
  assumes "a \<le> pivot" "pivot < b" "b \<le> length xs"
  shows "yields (partition_func lt xs a b pivot) (\<lambda>(ys, m, f). rng a b xs ys \<and> a \<le> m \<and> m < b \<and>
    (\<forall>k. a \<le> k \<longrightarrow> k < m \<longrightarrow> lt (ys ! k) (ys ! m)) \<and> (\<forall>k. m < k \<longrightarrow> k < b \<longrightarrow> \<not> lt (ys ! k) (ys ! m)))"
proof -
  let ?Q = "\<lambda>(ys, m). rng a b xs ys \<and> a \<le> m \<and> m < b \<and>
    (\<forall>k. a \<le> k \<longrightarrow> k < m \<longrightarrow> lt (ys ! k) (ys ! m)) \<and> (\<forall>k. m < k \<longrightarrow> k < b \<longrightarrow> \<not> lt (ys ! k) (ys ! m))"
  have "yields (map_option (\<lambda>(ys, m, f). (ys, m)) (partition_func lt xs a b pivot)) ?Q"
    unfolding partition_func_loop
  proof (rule yields_bindI [OF yields_swap [of a a b pivot xs]])
    fix ys assume ys: "ys = xs[a := xs ! pivot, pivot := xs ! a] \<and> rng a b xs ys"
    have "yields (partition_loop lt ys a (a + 1) (b - 1)) (\<lambda>(zs, m). rng (Suc a) b ys zs \<and> a \<le> m \<and> m < b \<and>
        (\<forall>k. a < k \<longrightarrow> k \<le> m \<longrightarrow> lt (zs ! k) (ys ! a)) \<and> (\<forall>k. m < k \<longrightarrow> k < b \<longrightarrow> \<not> lt (zs ! k) (ys ! a)))"
      using assms ys by (intro partition_loop_ok) (auto simp: rng_def)
    then show "yields (partition_loop lt ys a (a + 1) (b - 1) \<bind> (\<lambda>(xs, j). swap_at xs j a \<bind> (\<lambda>xs. Some (xs, j)))) ?Q"
    proof (rule yields_bindI, clarsimp)
      fix zs m assume z: "rng (Suc a) b ys zs" "a \<le> m" "m < b"
        "\<forall>k>a. k \<le> m \<longrightarrow> lt (zs ! k) (ys ! a)" "\<forall>k>m. k < b \<longrightarrow> \<not> lt (zs ! k) (ys ! a)"
      have len: "length zs = length xs" using z(1) ys by (simp add: rng_def)
      have za: "zs ! a = ys ! a" using rng_outside [OF z(1), of a] assms ys by (simp add: rng_def)
      have r: "rng a b xs zs" using rng_weaken [OF z(1), of a b] ys rng_trans by fastforce
      define us where "us = zs[m := zs ! a, a := zs ! m]"
      have ma: "m < length zs" "a < length zs" using assms z len by auto
      have nth: "us ! k = (if k = a then zs ! m else if k = m then zs ! a else zs ! k)" for k
        unfolding us_def by (rule nth_swap [OF ma])
      have um: "us ! m = ys ! a" using nth [of m] za by simp
      have "rng a b zs us" unfolding us_def using z assms len by (intro swap_rng) auto
      with r have "rng a b xs us" by (rule rng_trans)
      moreover have "lt (us ! k) (us ! m)" if "a \<le> k" "k < m" for k
        using that z(2,4) unfolding um by (auto simp: nth)
      moreover have "\<not> lt (us ! k) (us ! m)" if "m < k" "k < b" for k
        using that z(2,5) unfolding um by (auto simp: nth)
      ultimately show "yields (swap_at zs m a \<bind> (\<lambda>xs. Some (xs, m))) ?Q"
        using ma z(2,3) by (simp add: swap_at_def flip: us_def)
    qed
  qed (use assms in auto)
  then show ?thesis unfolding yields_map_option by (rule yields_mono) auto
qed

end

end
