(* ===== verification/Gosort_Pdq.thy ===== *)
theory Gosort_Pdq
  imports Gosort_Correct
begin

text \<open>
  The rest of the correctness of \<^verbatim>\<open>sort.Slice\<close>: the partial insertion sort, the pivot choice and the
  scattering stay within their range, and the quicksort sorts.
\<close>

section \<open>Partial insertion sort\<close>

text \<open>Below \<open>a\<close> there is nothing, or an element that is not above any of the range.\<close>

definition low_bound :: "('a \<Rightarrow> 'a \<Rightarrow> bool) \<Rightarrow> 'a list \<Rightarrow> nat \<Rightarrow> nat \<Rightarrow> bool" where
  "low_bound lt xs a b \<longleftrightarrow> a = 0 \<or> (\<forall>k. a \<le> k \<longrightarrow> k < b \<longrightarrow> \<not> lt (xs ! k) (xs ! (a - 1)))"

lemma low_bound_rng:
  assumes "low_bound lt xs a b" and "rng a b xs ys" and "b \<le> length xs"
  shows "low_bound lt ys a b"
proof (cases "a = 0")
  case False
  show ?thesis unfolding low_bound_def
  proof (intro disjI2 allI impI)
    fix k assume k: "a \<le> k" "k < b"
    have "ys ! (a - 1) = xs ! (a - 1)" using rng_outside [OF assms(2), of "a - 1"] False k assms(3) by simp
    moreover have "\<not> lt (ys ! k) (xs ! (a - 1))"
      by (rule rng_all [OF assms(2)]) (use assms k False in \<open>auto simp: low_bound_def\<close>)
    ultimately show "\<not> lt (ys ! k) (ys ! (a - 1))" by simp
  qed
qed (simp add: low_bound_def)

lemma low_bound_mono: "low_bound lt xs a b \<Longrightarrow> b' \<le> b \<Longrightarrow> low_bound lt xs a b'"
  by (auto simp: low_bound_def)

lemma shift_left_insertion:
  "low_bound lt xs a b \<Longrightarrow> a \<le> j \<Longrightarrow> j < b \<Longrightarrow> b \<le> length xs \<Longrightarrow> shift_left lt xs j = insertion_shift lt xs a j"
proof (induction j arbitrary: xs)
  case 0
  then show ?case by (subst shift_left.simps, subst insertion_shift.simps) simp
next
  case (Suc j)
  show ?case
  proof (cases "a < Suc j")
    case True
    have "shift_left lt (xs[Suc j := xs ! j, j := xs ! Suc j]) j =
        insertion_shift lt (xs[Suc j := xs ! j, j := xs ! Suc j]) a j"
      using True Suc.prems low_bound_rng [OF Suc.prems(1) swap_rng [of a "Suc j" b j xs]] by (intro Suc.IH) auto
    with True Suc.prems show ?thesis
      by (subst shift_left.simps, subst insertion_shift.simps) (simp add: swap_at_def)
  next
    case False
    with Suc.prems have "\<not> lt (xs ! Suc j) (xs ! j)" by (auto simp: low_bound_def)
    with False Suc.prems show ?thesis by (subst shift_left.simps, subst insertion_shift.simps) simp
  qed
qed

lemma shift_right_rng: "i < j \<Longrightarrow> b \<le> length xs \<Longrightarrow> yields (shift_right lt xs j b) (rng i b xs)"
proof (induction "b - j" arbitrary: j xs)
  case 0
  then show ?case by (subst shift_right.simps) simp
next
  case (Suc n)
  let ?ys = "xs[j := xs ! (j - 1), j - 1 := xs ! j]"
  have r: "rng i b xs ?ys" using Suc by (intro swap_rng) auto
  have "yields (shift_right lt ?ys (j + 1) b) (rng i b ?ys)" using Suc by (intro Suc.hyps(1)) auto
  then have "yields (shift_right lt ?ys (j + 1) b) (rng i b xs)" by (rule yields_mono) (rule rng_trans [OF r])
  with Suc show ?case by (subst shift_right.simps) (auto simp: swap_at_def)
qed

context strict_weak
begin

lemma sorted_rng_extend:
  assumes "sorted_rng lt xs a i" and "a < i" and "\<not> lt (xs ! i) (xs ! (i - 1))"
  shows "sorted_rng lt xs a (Suc i)"
  unfolding sorted_rng_def
proof (intro allI impI)
  fix p q assume pq: "a \<le> p" "p < q" "q < Suc i"
  show "\<not> lt (xs ! q) (xs ! p)"
  proof (cases "q < i")
    case True
    with pq assms(1) show ?thesis by (auto simp: sorted_rng_def)
  next
    case False
    then have q: "q = i" using pq by simp
    show ?thesis
    proof (cases "p = i - 1")
      case False
      then have "\<not> lt (xs ! (i - 1)) (xs ! p)" using pq q assms(1,2) by (auto simp: sorted_rng_def)
      with assms(3) negtrans q show ?thesis by blast
    qed (use assms(3) q in simp)
  qed
qed

lemma ascending_ok:
  "a < i \<Longrightarrow> i \<le> b \<Longrightarrow> b \<le> length xs \<Longrightarrow> sorted_rng lt xs a i \<Longrightarrow>
    yields (ascending lt xs i b) (\<lambda>i'. i \<le> i' \<and> i' \<le> b \<and> sorted_rng lt xs a i' \<and> (i' < b \<longrightarrow> lt (xs ! i') (xs ! (i' - 1))))"
proof (induction "b - i" arbitrary: i)
  case 0
  then show ?case by (subst ascending.simps) simp
next
  case (Suc n)
  show ?case
  proof (cases "lt (xs ! i) (xs ! (i - 1))")
    case True
    with Suc show ?thesis by (subst ascending.simps) auto
  next
    case False
    have "yields (ascending lt xs (Suc i) b) (\<lambda>i'. Suc i \<le> i' \<and> i' \<le> b \<and> sorted_rng lt xs a i' \<and> (i' < b \<longrightarrow> lt (xs ! i') (xs ! (i' - 1))))"
      using Suc sorted_rng_extend [OF Suc.prems(4,1) False] by (intro Suc.hyps(1)) auto
    then have "yields (ascending lt xs (Suc i) b) (\<lambda>i'. i \<le> i' \<and> i' \<le> b \<and> sorted_rng lt xs a i' \<and> (i' < b \<longrightarrow> lt (xs ! i') (xs ! (i' - 1))))"
      by (rule yields_mono) auto
    with False Suc show ?thesis by (subst ascending.simps) auto
  qed
qed

text \<open>One step after the scan stopped at \<open>i\<close>: the prefix below \<open>i\<close> is sorted again.\<close>

lemma partial_step_ok:
  assumes "a < i" "i < b" "b \<le> length xs" "sorted_rng lt xs a i" "low_bound lt xs a b"
  shows "yields (do {
       xs \<leftarrow> swap_at xs i (i - 1);
       xs \<leftarrow> (if i - a \<ge> 2 then shift_left lt xs (i - 1) else Some xs);
       (if b - i \<ge> 2 then shift_right lt xs (i + 1) b else Some xs) })
    (\<lambda>ys. rng a b xs ys \<and> sorted_rng lt ys a i)"
proof (rule yields_bindI [OF yields_swap [of a i b "i - 1" xs]])
  fix ys assume ys: "ys = xs[i := xs ! (i - 1), i - 1 := xs ! i] \<and> rng a b xs ys"
  then have r: "rng a b xs ys" and len: "length ys = length xs" by (auto simp: rng_def)
  have low: "low_bound lt ys a b" using low_bound_rng [OF assms(5) r assms(3)] .
  have old: "ys ! k = xs ! k" if "k < i - 1" for k using ys that assms by (auto simp: nth_swap)
  have left: "yields (if i - a \<ge> 2 then shift_left lt ys (i - 1) else Some ys) (\<lambda>zs. rng a i ys zs \<and> sorted_rng lt zs a i)"
  proof (cases "i - a \<ge> 2")
    case True
    have "yields (insertion_shift lt ys a (i - 1)) (\<lambda>zs. rng a i ys zs \<and> sorted_rng lt zs a i)"
      using assms len sorted_rngD [OF assms(4)] by (intro insertion_shift_ok) (auto simp: old)
    with True shift_left_insertion [OF low, of "i - 1"] assms len show ?thesis by simp
  next
    case False
    with assms show ?thesis by (auto simp: sorted_rng_def)
  qed
  show "yields (do { xs \<leftarrow> (if i - a \<ge> 2 then shift_left lt ys (i - 1) else Some ys);
       (if b - i \<ge> 2 then shift_right lt xs (i + 1) b else Some xs) }) (\<lambda>ys. rng a b xs ys \<and> sorted_rng lt ys a i)"
  proof (rule yields_bindI [OF left])
    fix zs assume z: "rng a i ys zs \<and> sorted_rng lt zs a i"
    have r2: "rng a b xs zs" using r z assms(2) by (meson less_imp_le order_refl rng_trans rng_weaken)
    have "yields (if b - i \<ge> 2 then shift_right lt zs (i + 1) b else Some zs) (rng i b zs)"
      using shift_right_rng [of i "i + 1" b zs lt] assms rng_length [OF r2] by simp
    then show "yields (if b - i \<ge> 2 then shift_right lt zs (i + 1) b else Some zs) (\<lambda>ys. rng a b xs ys \<and> sorted_rng lt ys a i)"
    proof (rule yields_mono)
      fix us assume u: "rng i b zs us"
      have "rng a b zs us" using u assms by (auto intro: rng_weaken)
      moreover have "sorted_rng lt us a i"
      proof (rule sorted_rng_cong [of lt zs])
        fix k assume "a \<le> k" "k < i"
        then show "us ! k = zs ! k" using rng_outside [OF u, of k] assms(2,3) rng_length [OF r2] by simp
      qed (use z in simp)
      ultimately show "rng a b xs us \<and> sorted_rng lt us a i" using r2 rng_trans by blast
    qed
  qed
qed (use assms in auto)

lemma partial_steps_ok:
  "a < i \<Longrightarrow> i \<le> b \<Longrightarrow> b \<le> length xs \<Longrightarrow> sorted_rng lt xs a i \<Longrightarrow> low_bound lt xs a b \<Longrightarrow>
    yields (partial_steps lt n xs a i b) (\<lambda>(ys, f). rng a b xs ys \<and> (f \<longrightarrow> sorted_rng lt ys a b))"
proof (induction n arbitrary: xs i)
  case (Suc n)
  note pre = Suc.prems
  show ?case unfolding partial_steps.simps
  proof (rule yields_bindI [OF ascending_ok [OF pre(1-4)]], elim conjE)
    fix k assume k: "i \<le> k" "k \<le> b" "sorted_rng lt xs a k"
    have ak: "a < k" using pre(1) k(1) by simp
    let ?tail = "do {
       xs \<leftarrow> swap_at xs k (k - 1);
       xs \<leftarrow> (if 2 \<le> k - a then shift_left lt xs (k - 1) else Some xs);
       (if 2 \<le> b - k then shift_right lt xs (k + 1) b else Some xs) }"
    have tail: "yields (?tail \<bind> (\<lambda>xs. partial_steps lt n xs a k b)) (\<lambda>(ys, f). rng a b xs ys \<and> (f \<longrightarrow> sorted_rng lt ys a b))"
      if "k \<noteq> b"
    proof (rule yields_bindI [OF partial_step_ok [OF ak _ pre(3) k(3) pre(5)]])
      show "k < b" using that k by simp
      fix ys assume y: "rng a b xs ys \<and> sorted_rng lt ys a k"
      then have "low_bound lt ys a b" "b \<le> length ys" using low_bound_rng [OF pre(5)] pre(3) rng_length by fastforce+
      with Suc.IH [OF ak k(2), of ys] y
      show "yields (partial_steps lt n ys a k b) (\<lambda>(ys, f). rng a b xs ys \<and> (f \<longrightarrow> sorted_rng lt ys a b))"
        by (auto elim!: yields_mono intro: rng_trans)
    qed
    show "yields
        (if k = b then Some (xs, True) else if b - a < 50 then Some (xs, False)
         else swap_at xs k (k - 1) \<bind> (\<lambda>xs. (if 2 \<le> k - a then shift_left lt xs (k - 1) else Some xs) \<bind>
           (\<lambda>xs. (if 2 \<le> b - k then shift_right lt xs (k + 1) b else Some xs) \<bind> (\<lambda>xs. partial_steps lt n xs a k b))))
        (\<lambda>(ys, f). rng a b xs ys \<and> (f \<longrightarrow> sorted_rng lt ys a b))"
      using k(3) tail by (auto simp: Option.bind_assoc)
  qed
qed simp

lemma partial_insertion_ok:
  assumes "a < b" "b \<le> length xs" "low_bound lt xs a b"
  shows "yields (partial_insertion_sort_func lt xs a b) (\<lambda>(ys, f). rng a b xs ys \<and> (f \<longrightarrow> sorted_rng lt ys a b))"
  unfolding partial_insertion_sort_func_def using assms by (intro partial_steps_ok) (auto simp: sorted_rng_def)

end

section \<open>Pivot and patterns\<close>

lemma order2_ok:
  "a < length xs \<Longrightarrow> b < length xs \<Longrightarrow>
    yields (order2_func lt xs a b s) (\<lambda>(x, y, s'). (x = a \<and> y = b) \<or> (x = b \<and> y = a))"
  by (simp add: order2_func_def)

lemma median_ok:
  assumes "a < length xs" "b < length xs" "c < length xs"
  shows "yields (median_func lt xs a b c s) (\<lambda>(m, s'). m = a \<or> m = b \<or> m = c)"
  unfolding median_func_def using assms
  by (auto intro!: yields_bindI [OF order2_ok])

lemma choose_pivot_ok:
  assumes "12 < b - a" and "b \<le> length xs"
  shows "yields (choose_pivot_func lt xs a b) (\<lambda>(p, h). a \<le> p \<and> p < b)"
proof -
  define q where "q = (b - a) div 4"
  have q: "3 \<le> q" "4 * q \<le> b - a" using assms by (auto simp: q_def)
  have med: "yields (do { (i, j, k, swaps) \<leftarrow>
       (if b - a \<ge> 50 then do {
          (i, swaps) \<leftarrow> median_adjacent_func lt xs (a + q) 0;
          (j, swaps) \<leftarrow> median_adjacent_func lt xs (a + q * 2) swaps;
          (k, swaps) \<leftarrow> median_adjacent_func lt xs (a + q * 3) swaps;
          Some (i, j, k, swaps)
        } else Some (a + q, a + q * 2, a + q * 3, 0));
      median_func lt xs i j k swaps }) (\<lambda>(m, s). a \<le> m \<and> m < b)"
  proof (rule yields_bindI [where P = "\<lambda>(i, j, k, s). (a \<le> i \<and> i < b) \<and> (a \<le> j \<and> j < b) \<and> (a \<le> k \<and> k < b)"])
    have adj: "yields (median_adjacent_func lt xs x s) (\<lambda>(m, s). a \<le> m \<and> m < b)" if "a < x" "x + 1 < b" for x s
      unfolding median_adjacent_func_def using that assms
      by (intro yields_mono [OF median_ok]) auto
    have "yields (do {
          (i, swaps) \<leftarrow> median_adjacent_func lt xs (a + q) 0;
          (j, swaps) \<leftarrow> median_adjacent_func lt xs (a + q * 2) swaps;
          (k, swaps) \<leftarrow> median_adjacent_func lt xs (a + q * 3) swaps;
          Some (i, j, k, swaps) }) (\<lambda>(i, j, k, s). (a \<le> i \<and> i < b) \<and> (a \<le> j \<and> j < b) \<and> (a \<le> k \<and> k < b))"
    proof (rule yields_bindI [OF adj], goal_cases)
      case (3 x)
      note outer = this
      obtain i s1 where x: "x = (i, s1)" by (cases x)
      show ?case unfolding x prod.case
      proof (rule yields_bindI [OF adj], goal_cases)
        case (3 y)
        obtain j s2 where y: "y = (j, s2)" by (cases y)
        show ?case unfolding y prod.case
          by (rule yields_bindI [OF adj]) (use q outer 3 x y in auto)
      qed (use q in auto)
    qed (use q in auto)
    then show "yields (if b - a \<ge> 50 then do {
          (i, swaps) \<leftarrow> median_adjacent_func lt xs (a + q) 0;
          (j, swaps) \<leftarrow> median_adjacent_func lt xs (a + q * 2) swaps;
          (k, swaps) \<leftarrow> median_adjacent_func lt xs (a + q * 3) swaps;
          Some (i, j, k, swaps) } else Some (a + q, a + q * 2, a + q * 3, 0))
        (\<lambda>(i, j, k, s). (a \<le> i \<and> i < b) \<and> (a \<le> j \<and> j < b) \<and> (a \<le> k \<and> k < b))"
      using q by auto
  next
    fix t :: "nat \<times> nat \<times> nat \<times> nat" assume "case t of (i, j, k, s) \<Rightarrow> (a \<le> i \<and> i < b) \<and> (a \<le> j \<and> j < b) \<and> (a \<le> k \<and> k < b)"
    then show "yields (case t of (i, j, k, swaps) \<Rightarrow> median_func lt xs i j k swaps) (\<lambda>(m, s). a \<le> m \<and> m < b)"
      using assms by (cases t) (auto intro!: yields_mono [OF median_ok])
  qed
  have "8 \<le> b - a" using assms by simp
  then show ?thesis
    unfolding choose_pivot_func_def Let_def q_def [symmetric]
    by (simp only: if_True) (rule yields_bindI [OF med], auto)
qed

lemma bits_len_bounds: "0 < n \<Longrightarrow> n < 2 ^ bits_len n \<and> 2 ^ bits_len n \<le> 2 * n"
proof (induction n rule: bits_len.induct)
  case (1 n)
  show ?case
  proof (cases "n = 1")
    case False
    then have "n div 2 < 2 ^ bits_len (n div 2) \<and> 2 ^ bits_len (n div 2) \<le> 2 * (n div 2)" using 1 by auto
    moreover define m where "m = (2 :: nat) ^ bits_len (n div 2)"
    ultimately have "n < 2 * m \<and> m \<le> n" by auto
    then show ?thesis using 1(2) by (simp add: bits_len.simps [of n] m_def)
  qed (simp add: bits_len.simps)
qed

lemma scatter_rng:
  "n = b - a \<Longrightarrow> b \<le> length xs \<Longrightarrow> a \<le> idx \<Longrightarrow> idx + k \<le> b \<Longrightarrow> a < b \<Longrightarrow> yields (scatter k r a n idx xs) (rng a b xs)"
proof (induction k arbitrary: r idx xs)
  case (Suc k)
  define x where "x = unat (xorshift_next r) mod next_power_of_two n"
  define other where "other = (if x \<ge> n then x - n else x)"
  have "x < 2 * n" using bits_len_bounds [of n] Suc.prems
    by (auto simp: x_def next_power_of_two_def intro: order.strict_trans2 [OF mod_less_divisor])
  then have o: "a + other < b" using Suc.prems by (auto simp: other_def)
  have "yields (swap_at xs idx (a + other) \<bind> scatter k (xorshift_next r) a n (idx + 1)) (rng a b xs)"
  proof (rule yields_bindI [OF yields_swap [of a idx b "a + other" xs]])
    fix ys assume y: "ys = xs[idx := xs ! (a + other), a + other := xs ! idx] \<and> rng a b xs ys"
    then have "yields (scatter k (xorshift_next r) a n (idx + 1) ys) (rng a b ys)"
      using Suc.prems by (intro Suc.IH) auto
    then show "yields (scatter k (xorshift_next r) a n (idx + 1) ys) (rng a b xs)"
      by (rule yields_mono) (use y rng_trans in blast)
  qed (use Suc.prems o in auto)
  then show ?case unfolding scatter.simps Let_def x_def [symmetric] other_def [symmetric] .
qed simp

lemma break_patterns_rng:
  assumes "a \<le> b" "b \<le> length xs"
  shows "yields (break_patterns_func xs a b) (rng a b xs)"
proof (cases "b - a \<ge> 8")
  case True
  define q where "q = (b - a) div 4"
  have q: "2 \<le> q" "4 * q \<le> b - a" using True by (auto simp: q_def)
  have "yields (scatter 3 (of_nat (b - a)) a (b - a) (a + q * 2 - 1) xs) (rng a b xs)"
    by (rule scatter_rng) (use assms q in auto)
  with True show ?thesis by (simp add: break_patterns_func_def Let_def flip: q_def del: scatter.simps)
qed (simp add: break_patterns_func_def Let_def)

lemma reverse_range_rng:
  "a \<le> i \<Longrightarrow> j < b \<Longrightarrow> b \<le> length xs \<Longrightarrow> yields (reverse_range_loop xs i j) (rng a b xs)"
proof (induction "j - i" arbitrary: i j xs rule: less_induct)
  case less
  show ?case
  proof (cases "i < j")
    case True
    let ?ys = "xs[i := xs ! j, j := xs ! i]"
    have r: "rng a b xs ?ys" using less.prems True by (intro swap_rng) auto
    have "yields (reverse_range_loop ?ys (i + 1) (j - 1)) (rng a b ?ys)" using less.prems True by (intro less.hyps) auto
    then have "yields (reverse_range_loop ?ys (i + 1) (j - 1)) (rng a b xs)" by (rule yields_mono) (rule rng_trans [OF r])
    with True less.prems show ?thesis by (subst reverse_range_loop.simps) (simp add: swap_at_def)
  next
    case False
    then show ?thesis by (subst reverse_range_loop.simps) simp
  qed
qed

section \<open>The quicksort\<close>

lemma yields_if: "(c \<Longrightarrow> yields m P) \<Longrightarrow> (\<not> c \<Longrightarrow> yields n P) \<Longrightarrow> yields (if c then m else n) P"
  by simp

context strict_weak
begin

lemma sorted_join:
  assumes "sorted_rng lt xs a m" "sorted_rng lt xs (Suc m) b"
    and "\<And>k. a \<le> k \<Longrightarrow> k < m \<Longrightarrow> \<not> lt (xs ! m) (xs ! k)" and "\<And>k. m < k \<Longrightarrow> k < b \<Longrightarrow> \<not> lt (xs ! k) (xs ! m)"
  shows "sorted_rng lt xs a b"
  unfolding sorted_rng_def
proof (intro allI impI)
  fix p q assume pq: "a \<le> p" "p < q" "q < b"
  consider "q < m" | "q = m" | "p = m" | "m < p" | "p < m" "m < q" using pq by linarith
  then show "\<not> lt (xs ! q) (xs ! p)"
  proof cases
    case 1 then show ?thesis using sorted_rngD [OF assms(1)] pq by simp
  next
    case 4 then show ?thesis using sorted_rngD [OF assms(2)] pq by simp
  next
    case 5 then show ?thesis using assms(3) [of p] assms(4) [of q] pq negtrans by blast
  qed (use assms(3,4) pq in auto)
qed

text \<open>\<open>m\<close> splits the range: nothing before it is above, nothing after it is below the element there.\<close>

definition split_at :: "'a list \<Rightarrow> nat \<Rightarrow> nat \<Rightarrow> nat \<Rightarrow> bool" where
  "split_at xs a m b \<longleftrightarrow> (\<forall>k. a \<le> k \<longrightarrow> k < m \<longrightarrow> \<not> lt (xs ! m) (xs ! k)) \<and> (\<forall>k. m < k \<longrightarrow> k < b \<longrightarrow> \<not> lt (xs ! k) (xs ! m))"

lemma split_at_rng:
  assumes "split_at xs a m b" "m < b" "b \<le> length xs" and "rng a m xs ys \<or> rng (Suc m) b xs ys"
  shows "split_at ys a m b"
proof -
  have m: "ys ! m = xs ! m" using assms rng_outside [of a m xs ys m] rng_outside [of "Suc m" b xs ys m] by auto
  have l: "\<not> lt (xs ! m) (ys ! k)" if "a \<le> k" "k < m" for k
    using assms(4)
  proof
    assume r: "rng a m xs ys"
    show ?thesis by (rule rng_all [OF r]) (use that assms in \<open>auto simp: split_at_def\<close>)
  next
    assume "rng (Suc m) b xs ys"
    then show ?thesis using rng_outside [of "Suc m" b xs ys k] that assms by (auto simp: split_at_def)
  qed
  have u: "\<not> lt (ys ! k) (xs ! m)" if "m < k" "k < b" for k
    using assms(4)
  proof
    assume r: "rng (Suc m) b xs ys"
    show ?thesis by (rule rng_all [OF r]) (use that assms in \<open>auto simp: split_at_def\<close>)
  next
    assume "rng a m xs ys"
    then show ?thesis using rng_outside [of a m xs ys k] that assms by (auto simp: split_at_def)
  qed
  show ?thesis using l u by (simp add: split_at_def m)
qed

text \<open>Two sorts of the two sides of a split, in either order, sort the whole range.\<close>

lemma split_sorts:
  assumes "split_at xs a m b" "a \<le> m" "m < b" "b \<le> length xs"
    and "(a1 = a \<and> b1 = m \<and> a2 = Suc m \<and> b2 = b) \<or> (a1 = Suc m \<and> b1 = b \<and> a2 = a \<and> b2 = m)"
    and f: "yields first (\<lambda>ys. rng a1 b1 xs ys \<and> sorted_rng lt ys a1 b1)"
    and g: "\<And>ys. rng a b xs ys \<Longrightarrow> split_at ys a m b \<Longrightarrow> yields (g ys) (\<lambda>zs. rng a2 b2 ys zs \<and> sorted_rng lt zs a2 b2)"
  shows "yields (first \<bind> g) (\<lambda>zs. rng a b xs zs \<and> sorted_rng lt zs a b)"
proof (rule yields_bindI [OF f])
  fix ys assume y: "rng a1 b1 xs ys \<and> sorted_rng lt ys a1 b1"
  have ry: "rng a b xs ys" using y assms(2,3,5) rng_weaken [of a1 b1 xs ys a b] by auto
  have sy: "split_at ys a m b" using split_at_rng [OF assms(1,3,4), of ys] y assms(5) by auto
  have len: "b \<le> length ys" using rng_length [OF ry] assms(4) by simp
  show "yields (g ys) (\<lambda>zs. rng a b xs zs \<and> sorted_rng lt zs a b)"
  proof (rule yields_mono [OF g [OF ry sy]])
    fix zs assume z: "rng a2 b2 ys zs \<and> sorted_rng lt zs a2 b2"
    have "rng a b ys zs" using z assms(2,3,5) rng_weaken [of a2 b2 ys zs a b] by auto
    moreover have "sorted_rng lt zs a1 b1"
    proof (rule sorted_rng_cong [of lt ys])
      fix k assume "a1 \<le> k" "k < b1"
      then show "zs ! k = ys ! k" using rng_outside [of a2 b2 ys zs k] z assms(2,3,5) len by auto
    qed (use y in simp)
    moreover have "split_at zs a m b" using split_at_rng [OF sy assms(3) len, of zs] z assms(5) by auto
    ultimately show "rng a b xs zs \<and> sorted_rng lt zs a b"
      using ry z assms(5) rng_trans sorted_join [of zs a m b] by (auto simp: split_at_def)
  qed
qed

text \<open>What the loop needs of the range and what it makes of it.\<close>

lemma equal_prefix:
  assumes "a < m" "m \<le> b" "b \<le> length ys"
    and "\<And>k. a \<le> k \<Longrightarrow> k < m \<Longrightarrow> \<not> lt v (ys ! k)" and "\<And>k. a \<le> k \<Longrightarrow> k < b \<Longrightarrow> \<not> lt (ys ! k) v"
    and "\<And>k. m \<le> k \<Longrightarrow> k < b \<Longrightarrow> lt v (ys ! k)"
  shows "low_bound lt ys m b"
    and "rng m b ys zs \<Longrightarrow> sorted_rng lt zs m b \<Longrightarrow> sorted_rng lt zs a b"
proof -
  show "low_bound lt ys m b" unfolding low_bound_def
  proof (intro disjI2 allI impI notI)
    fix k assume k: "m \<le> k" "k < b" "lt (ys ! k) (ys ! (m - 1))"
    then have "lt v (ys ! (m - 1))" using assms(6) [of k] trans by blast
    with assms(4) [of "m - 1"] assms(1) show False by auto
  qed
  assume r: "rng m b ys zs" and s: "sorted_rng lt zs m b"
  have lo: "zs ! k = ys ! k" if "k < m" for k using rng_outside [OF r, of k] that assms by simp
  have hi: "\<not> lt (zs ! k) v" if "m \<le> k" "k < b" for k
    by (rule rng_all [OF r]) (use that assms in auto)
  show "sorted_rng lt zs a b" unfolding sorted_rng_def
  proof (intro allI impI)
    fix p q assume pq: "a \<le> p" "p < q" "q < b"
    show "\<not> lt (zs ! q) (zs ! p)"
    proof (cases "m \<le> p")
      case True
      with pq sorted_rngD [OF s] show ?thesis by simp
    next
      case False
      have "\<not> lt (zs ! q) v" using hi [of q] lo [of q] assms(5) [of q] pq by (cases "m \<le> q") auto
      moreover have "\<not> lt v (zs ! p)" using False lo [of p] assms(4) [of p] pq by simp
      ultimately show ?thesis using negtrans by blast
    qed
  qed
qed

text \<open>
  The two branches of the loop after the pivot is chosen, for any \<open>srt\<close> that sorts smaller ranges.
\<close>

definition sorts_smaller :: "('a list \<Rightarrow> nat \<Rightarrow> nat \<Rightarrow> nat \<Rightarrow> bool \<Rightarrow> bool \<Rightarrow> 'a list option) \<Rightarrow> nat \<Rightarrow> bool" where
  "sorts_smaller srt n \<longleftrightarrow> (\<forall>xs a b limit bal part. b - a < n \<longrightarrow> a \<le> b \<longrightarrow> b \<le> length xs \<longrightarrow> low_bound lt xs a b \<longrightarrow>
     yields (srt xs a b limit bal part) (\<lambda>ys. rng a b xs ys \<and> sorted_rng lt ys a b))"

lemma pdq_equal_ok:
  assumes p: "a \<le> pivot" "pivot < b" "b \<le> length zs" and low: "low_bound lt zs a b"
    and dup: "a > 0" "\<not> lt (zs ! (a - 1)) (zs ! pivot)" and srt: "sorts_smaller srt (b - a)"
  shows "yields (partition_equal_func lt zs a b pivot \<bind> (\<lambda>(xs, mid). srt xs mid b lim bal part))
    (\<lambda>ys. rng a b zs ys \<and> sorted_rng lt ys a b)"
proof -
  have least: "\<not> lt (zs ! k) (zs ! pivot)" if "a \<le> k" "k < b" for k
    using dup low that negtrans [of "zs ! k" "zs ! (a - 1)" "zs ! pivot"] by (auto simp: low_bound_def)
  show ?thesis
  proof (rule yields_bindI [OF partition_equal_ok [OF p]], rule least, assumption+, clarsimp)
    fix ys m assume y: "rng a b zs ys" "a < m" "m \<le> b"
      "\<forall>k\<ge>a. k < m \<longrightarrow> \<not> lt (zs ! pivot) (ys ! k)" "\<forall>k\<ge>m. k < b \<longrightarrow> lt (zs ! pivot) (ys ! k)"
    have yl: "b \<le> length ys" using rng_length [OF y(1)] p by simp
    have "\<not> lt (ys ! k) (zs ! pivot)" if "a \<le> k" "k < b" for k
      by (rule rng_all [OF y(1)]) (use that least p in auto)
    note eq = equal_prefix [where v = "zs ! pivot", OF y(2,3) yl _ this]
    have "low_bound lt ys m b" using y by (intro eq(1)) auto
    then have "yields (srt ys m b lim bal part) (\<lambda>us. rng m b ys us \<and> sorted_rng lt us m b)"
      using srt y yl by (auto simp: sorts_smaller_def)
    then show "yields (srt ys m b lim bal part) (\<lambda>us. rng a b zs us \<and> sorted_rng lt us a b)"
    proof (rule yields_mono)
      fix us assume u: "rng m b ys us \<and> sorted_rng lt us m b"
      have "rng a b ys us" using u y(2) rng_weaken [of m b ys us a b] by simp
      moreover have "sorted_rng lt us a b" using y u by (intro eq(2)) auto
      ultimately show "rng a b zs us \<and> sorted_rng lt us a b" using y(1) rng_trans by blast
    qed
  qed
qed

lemma pdq_split_ok:
  assumes p: "a \<le> pivot" "pivot < b" "b \<le> length zs" and low: "low_bound lt zs a b"
    and srt: "sorts_smaller srt (b - a)"
  shows "yields (partition_func lt zs a b pivot \<bind> (\<lambda>(xs, mid, already).
      if mid - a < b - mid then
        srt xs a mid lim True True \<bind> (\<lambda>xs. srt xs (mid + 1) b lim ((b - a) div 8 \<le> mid - a) already)
      else
        srt xs (mid + 1) b lim True True \<bind> (\<lambda>xs. srt xs a mid lim ((b - a) div 8 \<le> b - mid) already)))
    (\<lambda>ys. rng a b zs ys \<and> sorted_rng lt ys a b)"
proof (rule yields_bindI [OF partition_ok [OF p]], elim case_prodE, simp only: prod.case)
  fix ys m already assume y: "rng a b zs ys \<and> a \<le> m \<and> m < b \<and>
      (\<forall>k. a \<le> k \<longrightarrow> k < m \<longrightarrow> lt (ys ! k) (ys ! m)) \<and> (\<forall>k. m < k \<longrightarrow> k < b \<longrightarrow> \<not> lt (ys ! k) (ys ! m))"
  then have m: "a \<le> m" "m < b" and ry: "rng a b zs ys" by auto
  have yl: "b \<le> length ys" using rng_length [OF ry] p by simp
  have sp: "split_at ys a m b" using y asym by (auto simp: split_at_def)
  have lowy: "low_bound lt us a m" if "rng a b ys us" for us
    using low_bound_mono [OF low_bound_rng [OF low_bound_rng [OF low ry] that], of m] yl p(3) m(2) by simp
  have left: "yields (srt us a m lim f g) (\<lambda>vs. rng a m us vs \<and> sorted_rng lt vs a m)" if "rng a b ys us" for us f g
    using srt lowy [OF that] m yl rng_length [OF that] by (auto simp: sorts_smaller_def)
  have right: "yields (srt us (Suc m) b lim f g) (\<lambda>vs. rng (Suc m) b us vs \<and> sorted_rng lt vs (Suc m) b)"
    if "rng a b ys us" "split_at us a m b" for us f g
    using srt that m yl rng_length [OF that(1)] by (auto simp: sorts_smaller_def low_bound_def split_at_def)
  have "yields (if m - a < b - m then
        srt ys a m lim True True \<bind> (\<lambda>xs. srt xs (m + 1) b lim ((b - a) div 8 \<le> m - a) already)
      else
        srt ys (m + 1) b lim True True \<bind> (\<lambda>xs. srt xs a m lim ((b - a) div 8 \<le> b - m) already))
    (\<lambda>us. rng a b ys us \<and> sorted_rng lt us a b)"
  proof (cases "m - a < b - m")
    case True
    then show ?thesis
      by (simp only: if_True) (rule split_sorts [OF sp m yl disjI1], auto intro: left right)
  next
    case False
    then show ?thesis
      by (simp only: if_False) (rule split_sorts [OF sp m yl disjI2], auto intro: left right sp)
  qed
  then show "yields (if m - a < b - m then
        srt ys a m lim True True \<bind> (\<lambda>xs. srt xs (m + 1) b lim ((b - a) div 8 \<le> m - a) already)
      else
        srt ys (m + 1) b lim True True \<bind> (\<lambda>xs. srt xs a m lim ((b - a) div 8 \<le> b - m) already))
    (\<lambda>us. rng a b zs us \<and> sorted_rng lt us a b)"
    by (rule yields_mono) (use ry rng_trans in blast)
qed

text \<open>The loop body, from the choice of the pivot on.\<close>

lemma pdq_body_ok:
  assumes len: "12 < b - a" "b \<le> length ys" and low: "low_bound lt ys a b" and srt: "sorts_smaller srt (b - a)"
  shows "yields (choose_pivot_func lt ys a b \<bind> (\<lambda>(pivot, hint).
      (if hint = Decreasing then reverse_range_func ys a b \<bind> (\<lambda>xs. Some (xs, b - 1 - (pivot - a), Increasing))
       else Some (ys, pivot, hint)) \<bind> (\<lambda>(xs, pivot, hint).
      (if bal \<and> part \<and> hint = Increasing then partial_insertion_sort_func lt xs a b else Some (xs, False)) \<bind> (\<lambda>(xs, done).
      if done then Some xs
      else (if 0 < a then map_option Not (lt_at lt xs (a - 1) pivot) else Some False) \<bind> (\<lambda>duplicates.
        if duplicates then partition_equal_func lt xs a b pivot \<bind> (\<lambda>(xs, mid). srt xs mid b lim bal part)
        else partition_func lt xs a b pivot \<bind> (\<lambda>(xs, mid, already).
          if mid - a < b - mid then
            srt xs a mid lim True True \<bind> (\<lambda>xs. srt xs (mid + 1) b lim ((b - a) div 8 \<le> mid - a) already)
          else
            srt xs (mid + 1) b lim True True \<bind> (\<lambda>xs. srt xs a mid lim ((b - a) div 8 \<le> b - mid) already)))))))
    (\<lambda>zs. rng a b ys zs \<and> sorted_rng lt zs a b)" (is "yields (_ \<bind> (\<lambda>(pivot, hint). _ \<bind> ?rest)) ?Q")
proof -
  have ab: "a < b" using len by simp
  have ins: "yields (if c then partial_insertion_sort_func lt zs a b else Some (zs, False))
      (\<lambda>(us, f). rng a b ys us \<and> (f \<longrightarrow> sorted_rng lt us a b))" if z: "rng a b ys zs" for c zs
  proof -
    have "b \<le> length zs" "low_bound lt zs a b" using z low len rng_length [OF z] low_bound_rng by auto
    from partial_insertion_ok [OF ab this]
    have "yields (partial_insertion_sort_func lt zs a b) (\<lambda>(us, f). rng a b ys us \<and> (f \<longrightarrow> sorted_rng lt us a b))"
      by (rule yields_mono) (use z rng_trans in \<open>auto split: prod.splits\<close>)
    with z show ?thesis by simp
  qed
  have rev: "yields (if h = Decreasing
         then do { zs \<leftarrow> reverse_range_func ys a b; Some (zs, b - 1 - (p - a), Increasing) }
         else Some (ys, p, h)) (\<lambda>(zs, p, h). rng a b ys zs \<and> a \<le> p \<and> p < b)"
    if "a \<le> p" "p < b" for p h
  proof -
    have "yields (reverse_range_func ys a b) (rng a b ys)"
      unfolding reverse_range_func_def using ab len by (intro reverse_range_rng) auto
    then have "yields (reverse_range_func ys a b \<bind> (\<lambda>zs. Some (zs, b - 1 - (p - a), Increasing)))
        (\<lambda>(zs, p, h). rng a b ys zs \<and> a \<le> p \<and> p < b)"
      by (rule yields_bindI) (use that in auto)
    with that show ?thesis by simp
  qed
  have rest: "yields ((if 0 < a then map_option Not (lt_at lt zs (a - 1) p) else Some False) \<bind> (\<lambda>duplicates.
        if duplicates then partition_equal_func lt zs a b p \<bind> (\<lambda>(xs, mid). srt xs mid b lim bal part)
        else partition_func lt zs a b p \<bind> (\<lambda>(xs, mid, already).
          if mid - a < b - mid then
            srt xs a mid lim True True \<bind> (\<lambda>xs. srt xs (mid + 1) b lim ((b - a) div 8 \<le> mid - a) already)
          else
            srt xs (mid + 1) b lim True True \<bind> (\<lambda>xs. srt xs a mid lim ((b - a) div 8 \<le> b - mid) already)))) ?Q"
    if z: "rng a b ys zs" and p: "a \<le> p" "p < b" for zs p
  proof -
    have zl: "b \<le> length zs" "low_bound lt zs a b" using z len rng_length [OF z] low_bound_rng [OF low z] by auto
    have to_ys: "yields m (\<lambda>us. rng a b zs us \<and> sorted_rng lt us a b) \<Longrightarrow> yields m ?Q" for m
      by (erule yields_mono) (use z rng_trans in blast)
    show ?thesis
    proof (cases "0 < a \<and> \<not> lt (zs ! (a - 1)) (zs ! p)")
      case True
      with to_ys [OF pdq_equal_ok [OF p zl _ _ srt]] p zl show ?thesis by simp
    next
      case False
      then have d: "(if 0 < a then map_option Not (lt_at lt zs (a - 1) p) else Some False) = Some False" using p zl by auto
      show ?thesis unfolding d Option.bind.simps if_False by (rule to_ys [OF pdq_split_ok [OF p zl srt]])
    qed
  qed
  show ?thesis
    by (rule yields_bindI [OF choose_pivot_ok [OF len, of lt]], elim case_prodE, simp only: prod.case,
        rule yields_bindI [OF rev], simp, simp, elim case_prodE, simp only: prod.case,
        rule yields_bindI [OF ins], simp, elim case_prodE, simp only: prod.case, rule yields_if, simp, rule rest)
      simp_all
qed

lemma pdqsort_ok:
  "a \<le> b \<Longrightarrow> b \<le> length xs \<Longrightarrow> low_bound lt xs a b \<Longrightarrow>
    yields (pdqsort_loop lt xs a b limit bal part) (\<lambda>ys. rng a b xs ys \<and> sorted_rng lt ys a b)"
proof (induction "b - a" arbitrary: a b xs limit bal part rule: less_induct)
  case less
  note pre = less.prems
  consider (ins) "b - a \<le> 12" | (heap) "\<not> b - a \<le> 12" "limit = 0" | (quick) "\<not> b - a \<le> 12" "limit \<noteq> 0" by blast
  then show ?case
  proof cases
    case ins
    then show ?thesis using insertion_sort_ok [OF pre(1,2)] by (subst pdqsort_loop.simps) simp
  next
    case heap
    then show ?thesis using heap_sort_ok [of a b xs] pre(2) by (subst pdqsort_loop.simps) simp
  next
    case quick
    have srt: "sorts_smaller (pdqsort_loop lt) (b - a)" using less.hyps by (simp add: sorts_smaller_def)
    have pat: "yields (if \<not> bal then break_patterns_func xs a b else Some xs) (rng a b xs)"
      using break_patterns_rng [OF pre(1,2)] by simp
    show ?thesis
      unfolding pdqsort_loop.simps [of lt xs a b limit bal part] Let_def if_not_P [OF quick(1)] if_not_P [OF quick(2)]
    proof (rule yields_bindI [OF pat])
      fix ys assume y: "rng a b xs ys"
      have "12 < b - a" "b \<le> length ys" "low_bound lt ys a b"
        using quick pre rng_length [OF y] low_bound_rng [OF pre(3) y] by auto
      from yields_mono [OF pdq_body_ok [OF this srt], of "\<lambda>zs. rng a b xs zs \<and> sorted_rng lt zs a b"] y rng_trans
      show "yields (choose_pivot_func lt ys a b \<bind> (\<lambda>(pivot, hint).
          (if hint = Decreasing then reverse_range_func ys a b \<bind> (\<lambda>xs. Some (xs, b - 1 - (pivot - a), Increasing))
           else Some (ys, pivot, hint)) \<bind> (\<lambda>(xs, pivot, hint).
          (if bal \<and> part \<and> hint = Increasing then partial_insertion_sort_func lt xs a b else Some (xs, False)) \<bind> (\<lambda>(xs, done).
          if done then Some xs
          else (if 0 < a then map_option Not (lt_at lt xs (a - 1) pivot) else Some False) \<bind> (\<lambda>duplicates.
            if duplicates then partition_equal_func lt xs a b pivot \<bind>
              (\<lambda>(xs, mid). pdqsort_loop lt xs mid b (if \<not> bal then limit - 1 else limit) bal part)
            else partition_func lt xs a b pivot \<bind> (\<lambda>(xs, mid, already).
              if mid - a < b - mid then
                pdqsort_loop lt xs a mid (if \<not> bal then limit - 1 else limit) True True \<bind>
                (\<lambda>xs. pdqsort_loop lt xs (mid + 1) b (if \<not> bal then limit - 1 else limit) ((b - a) div 8 \<le> mid - a) already)
              else
                pdqsort_loop lt xs (mid + 1) b (if \<not> bal then limit - 1 else limit) True True \<bind>
                (\<lambda>xs. pdqsort_loop lt xs a mid (if \<not> bal then limit - 1 else limit) ((b - a) div 8 \<le> b - mid) already)))))))
        (\<lambda>zs. rng a b xs zs \<and> sorted_rng lt zs a b)" by blast
    qed
  qed
qed

lemma slice_sort_ok:
  "\<exists>ys. slice_sort xs lt = Some ys \<and> mset ys = mset xs \<and> sorted_wrt (\<lambda>x y. \<not> lt y x) ys"
proof -
  have "yields (slice_sort xs lt) (\<lambda>ys. rng 0 (length xs) xs ys \<and> sorted_rng lt ys 0 (length xs))"
    unfolding slice_sort_def pdqsort_func_def by (rule pdqsort_ok) (auto simp: low_bound_def)
  then show ?thesis
    by (auto simp: yields_def rng_def sorted_rng_def sorted_wrt_iff_nth_less)
qed

end

end
