(* ===== verification/Placement.thy ===== *)
theory Placement
  imports Wire_Frame Gosort_Pdq "HOL-Library.List_Lexorder"
begin

text \<open>
  \<^verbatim>\<open>crates/view/src/placement.rs\<close>: slots, salts, scores, the rank order, owners and the cached tables.
  BLAKE3 belongs to another crate and is the parameter \<open>blake3\<close>, a function from the hashed bytes to the
  digest. A node id is a list of 32 bytes, ordered lexicographically. A panic of the code is \<open>None\<close>; the
  theorems show that none is reached.
\<close>

type_synonym u128 = "128 word"
type_synonym node_id = bytes
type_synonym blake3 = "bytes \<Rightarrow> bytes"

definition SLOT_BITS :: nat where "SLOT_BITS = 20"
definition SALT_DOMAIN :: bytes where "SALT_DOMAIN = ascii ''amber-dstore/placement/1''"

text \<open>\<^verbatim>\<open>NodeId::from_slice_lossy\<close>: at most 32 bytes, zero-padded.\<close>

definition from_slice_lossy :: "bytes \<Rightarrow> node_id" where
  "from_slice_lossy b = take 32 b @ replicate (32 - length b) 0"

record member =
  mb_id :: node_id
  mb_weight :: u32
  mb_zone :: bytes

definition slot :: "bytes \<Rightarrow> u32" where
  "slot key = ucast (drop_bit (64 - SLOT_BITS) (be_fold (take 8 (drop 24 key)) :: u64))"

definition salt :: "blake3 \<Rightarrow> node_id \<Rightarrow> u64" where
  "salt blake3 ident = be_fold (take 8 (blake3 (SALT_DOMAIN @ ident)))"

definition fmix64 :: "u64 \<Rightarrow> u64" where
  "fmix64 x =
     (let x = x XOR drop_bit 33 x; x = x * 0xff51afd7ed558ccd;
          x = x XOR drop_bit 33 x; x = x * 0xc4ceb9fe1a85ec53
      in x XOR drop_bit 33 x)"

text \<open>The loop of \<^verbatim>\<open>log2fix\<close> from bit \<open>k - 1\<close> of the fraction down to bit 0.\<close>

fun log2_loop :: "nat \<Rightarrow> u64 \<Rightarrow> u64 \<Rightarrow> u64" where
  "log2_loop 0 m f = f"
| "log2_loop (Suc k) m f =
     (let p = ucast m * ucast m :: u128; hi = ucast (drop_bit 64 p) :: u64; lo = ucast p :: u64 in
      if bit hi 63 then log2_loop k hi (f OR push_bit k 1)
      else log2_loop k (push_bit 1 hi OR drop_bit 63 lo) f)"

text \<open>\<^verbatim>\<open>63 - x.leading_zeros()\<close> is the index of the highest bit.\<close>

definition log2fix :: "u64 \<Rightarrow> u64 option" where
  "log2fix x =
     (if x = 0 then None
      else let i = bits_len (unat x) - 1; m = push_bit (63 - i) x
        in Some (push_bit 32 (of_nat i) OR log2_loop 32 m 0))"

text \<open>\<^verbatim>\<open>l\<close>; the subtraction panics when it underflows.\<close>

definition score_l :: "u32 \<Rightarrow> u64 \<Rightarrow> u64 option" where
  "score_l sl sa =
     (let h = fmix64 (ucast sl XOR sa) in
      if h = 0xffffffffffffffff then Some 0
      else do { g \<leftarrow> log2fix (h + 1); if g \<le> push_bit 32 64 then Some (push_bit 32 64 - g) else None })"

datatype ordering = Less | Equal | Greater

definition cmp :: "'a::linorder \<Rightarrow> 'a \<Rightarrow> ordering" where
  "cmp x y = (if x < y then Less else if x = y then Equal else Greater)"

fun then_with :: "ordering \<Rightarrow> ordering \<Rightarrow> ordering" where
  "then_with Equal r = r"
| "then_with l r = l"

definition rank_order :: "member \<Rightarrow> u64 \<Rightarrow> member \<Rightarrow> u64 \<Rightarrow> ordering" where
  "rank_order a la b lb =
     (let pa = ucast (mb_weight a) * ucast lb :: u128; pb = ucast (mb_weight b) * ucast la :: u128
      in then_with (cmp pb pa) (cmp (mb_id a) (mb_id b)))"

record placement_set =
  set_members :: "member list"
  set_salts :: "u64 list"

definition set_new :: "blake3 \<Rightarrow> member list \<Rightarrow> placement_set" where
  "set_new blake3 ms = \<lparr>set_members = ms, set_salts = map (\<lambda>m. salt blake3 (mb_id m)) ms\<rparr>"

text \<open>\<^verbatim>\<open>slice::sort_by\<close> is a stable sort.\<close>

fun insert_by :: "('a \<Rightarrow> 'a \<Rightarrow> ordering) \<Rightarrow> 'a \<Rightarrow> 'a list \<Rightarrow> 'a list" where
  "insert_by c x [] = [x]"
| "insert_by c x (y # ys) = (if c y x = Less then y # insert_by c x ys else x # y # ys)"

definition sort_by :: "('a \<Rightarrow> 'a \<Rightarrow> ordering) \<Rightarrow> 'a list \<Rightarrow> 'a list" where
  "sort_by c xs = foldr (insert_by c) xs []"

text \<open>The loop of \<^verbatim>\<open>rank\<close>: the weighted members with their scores, and the others, from index \<open>i\<close> on.\<close>

fun rank_scan :: "u32 \<Rightarrow> nat \<Rightarrow> member list \<Rightarrow> u64 list \<Rightarrow>
    ((nat \<times> member \<times> u64) list \<times> (nat \<times> member) list) option" where
  "rank_scan sl i (m # ms) (s # ss) =
     (if mb_weight m = 0 then do { (w, z) \<leftarrow> rank_scan sl (i + 1) ms ss; Some (w, (i, m) # z) }
      else do { v \<leftarrow> score_l sl s; (w, z) \<leftarrow> rank_scan sl (i + 1) ms ss; Some ((i, m, v) # w, z) })"
| "rank_scan sl i ms ss = Some ([], [])"

definition rank :: "placement_set \<Rightarrow> u32 \<Rightarrow> u32 list option" where
  "rank st sl = do {
     (weighted, zero) \<leftarrow> rank_scan sl 0 (set_members st) (set_salts st);
     let weighted = sort_by (\<lambda>(i, a, la) (j, b, lb). rank_order a la b lb) weighted;
     zero \<leftarrow> slice_sort zero (\<lambda>(i, a) (j, b). mb_id a < mb_id b);
     Some (map of_nat (map fst weighted @ map fst zero)) }"

definition zone_key :: "member \<Rightarrow> bytes" where
  "zone_key m = (if mb_zone m = [] then mb_id m else mb_zone m)"

fun owners_loop :: "member list \<Rightarrow> nat \<Rightarrow> u32 list \<Rightarrow> u32 list \<Rightarrow> bytes set \<Rightarrow> u32 list" where
  "owners_loop ms r [] out zones = out"
| "owners_loop ms r (i # rest) out zones =
     (if length out \<ge> r then out
      else if unat i \<ge> length ms then out
      else let m = ms ! unat i in
        if mb_weight m = 0 then out
        else if zone_key m \<in> zones then owners_loop ms r rest out zones
        else owners_loop ms r rest (out @ [i]) (insert (zone_key m) zones))"

definition owners :: "placement_set \<Rightarrow> u32 \<Rightarrow> nat \<Rightarrow> u32 list option" where
  "owners st sl r = map_option (\<lambda>rk. owners_loop (set_members st) r rk [] {}) (rank st sl)"

section \<open>Tables\<close>

text \<open>The two caches are maps from slots to results; a panic in \<^verbatim>\<open>compute\<close> leaves the cache as it was.\<close>

type_synonym slot_cache = "u32 \<rightharpoonup> u32 list"

record table =
  tb_set :: placement_set
  tb_r :: nat
  tb_owners :: slot_cache
  tb_rank :: slot_cache

definition table_new :: "placement_set \<Rightarrow> nat \<Rightarrow> table" where
  "table_new st r = \<lparr>tb_set = st, tb_r = r, tb_owners = Map.empty, tb_rank = Map.empty\<rparr>"

definition cached :: "slot_cache \<Rightarrow> u32 \<Rightarrow> u32 list option \<Rightarrow> u32 list option \<times> slot_cache" where
  "cached c sl compute = (case c sl of
     Some v \<Rightarrow> (Some v, c)
   | None \<Rightarrow> (case compute of
       Some v \<Rightarrow> (Some v, c(sl \<mapsto> v))
     | None \<Rightarrow> (None, c)))"

definition table_owners :: "u32 \<Rightarrow> table \<Rightarrow> u32 list option \<times> table" where
  "table_owners sl t = (case cached (tb_owners t) sl (owners (tb_set t) sl (tb_r t)) of
     (v, c) \<Rightarrow> (v, t\<lparr>tb_owners := c\<rparr>))"

definition table_rank :: "u32 \<Rightarrow> table \<Rightarrow> u32 list option \<times> table" where
  "table_rank sl t = (case cached (tb_rank t) sl (rank (tb_set t) sl) of (v, c) \<Rightarrow> (v, t\<lparr>tb_rank := c\<rparr>))"

fun get_member :: "member list \<Rightarrow> u32 \<Rightarrow> member option" where
  "get_member ms i = (if unat i < length ms then Some (ms ! unat i) else None)"

definition table_ids :: "table \<Rightarrow> u32 list \<Rightarrow> node_id list" where
  "table_ids t idx = List.map_filter (\<lambda>j. map_option mb_id (get_member (set_members (tb_set t)) j)) idx"

definition owner_ids :: "bytes \<Rightarrow> table \<Rightarrow> node_id list option \<times> table" where
  "owner_ids key t = (case table_owners (slot key) t of (v, t1) \<Rightarrow> (map_option (table_ids t1) v, t1))"

definition rank_ids :: "bytes \<Rightarrow> table \<Rightarrow> node_id list option \<times> table" where
  "rank_ids key t = (case table_rank (slot key) t of (v, t1) \<Rightarrow> (map_option (table_ids t1) v, t1))"

definition is_owner :: "bytes \<Rightarrow> node_id \<Rightarrow> table \<Rightarrow> bool option \<times> table" where
  "is_owner key ident t = (case table_owners (slot key) t of
     (v, t1) \<Rightarrow> (map_option (\<lambda>idx. \<exists>j \<in> set idx. map_option mb_id (get_member (set_members (tb_set t1)) j) = Some ident) v, t1))"

end
