(* ===== verification/Placement_Correct.thy ===== *)
theory Placement_Correct
  imports Placement Complex_Main
begin

text \<open>
  Placement is total, ranks every member exactly once, depends on the set of members and not on their
  order, and the owners are the best-ranked weighted members of distinct zones; the cached tables return
  what the uncached functions return.
\<close>

section \<open>Scores\<close>

lemma log2_loop_bits: "k \<le> n \<Longrightarrow> bit (log2_loop k m f) n = bit f n"
proof (induction k arbitrary: m f)
  case (Suc k)
  then show ?case by (simp add: Let_def bit_or_iff bit_exp_iff)
qed simp

lemma unat_less_power: "(\<And>n. k \<le> n \<Longrightarrow> \<not> bit (v :: u64) n) \<Longrightarrow> unat v < 2 ^ k"
proof -
  assume "\<And>n. k \<le> n \<Longrightarrow> \<not> bit v n"
  then have "take_bit k v = v" by (intro bit_word_eqI) (auto simp: bit_take_bit_iff intro: leI)
  then have "unat v = take_bit k (unat v)" by (metis unsigned_take_bit_eq)
  then show ?thesis by (metis take_bit_nat_less_exp)
qed

lemma bits_len_le: "x < 2 ^ k \<Longrightarrow> bits_len x \<le> k"
proof (induction x arbitrary: k rule: bits_len.induct)
  case (1 x)
  show ?case
  proof (cases "x = 0")
    case False
    then obtain k' where k: "k = Suc k'" using "1.prems" by (cases k) auto
    have "x div 2 < 2 ^ k'" using "1.prems" k by simp
    with "1.IH" [OF False, of k'] False k show ?thesis by (simp add: bits_len.simps [of x])
  qed (simp add: bits_len.simps)
qed

lemma unat_bounds: "unat (x :: u64) < 2 ^ 64" "unat (w :: u32) < 2 ^ 32"
  by (rule order.strict_trans2 [OF unsigned_less], simp)+

lemma log2fix_range:
  assumes "x \<noteq> 0"
  shows "\<exists>v. log2fix x = Some v \<and> unat v < 2 ^ 38"
proof -
  define i where "i = bits_len (unat x) - 1"
  have i: "i < 64" using bits_len_le [of "unat x" 64] unat_bounds(1) [of x] by (simp add: i_def)
  have b: "\<not> bit (of_nat i :: u64) n" if "6 \<le> n" for n
  proof -
    have "i < 2 ^ n" using i that power_increasing [of 6 n "2 :: nat"] by simp
    then have "\<not> bit i n" by (simp add: bit_iff_odd)
    then show ?thesis by (simp add: bit_of_nat_iff)
  qed
  define v where "v = (push_bit 32 (of_nat i) OR log2_loop 32 (push_bit (63 - i) x) 0 :: u64)"
  have "\<not> bit v n" if "38 \<le> n" for n
    using that b [of "n - 32"] log2_loop_bits [of 32 n _ 0] by (simp add: v_def bit_or_iff bit_push_bit_iff)
  then have "unat v < 2 ^ 38" by (rule unat_less_power)
  moreover have "log2fix x = Some v" using assms by (simp add: log2fix_def Let_def v_def i_def)
  ultimately show ?thesis by blast
qed

lemma score_l_total: "\<exists>v. score_l sl sa = Some v"
proof -
  define h where "h = fmix64 (ucast sl XOR sa)"
  show ?thesis
  proof (cases "h = 0xffffffffffffffff")
    case False
    have "h + 1 \<noteq> 0"
    proof
      assume "h + 1 = 0"
      then have "h = - 1" by (simp add: eq_neg_iff_add_eq_0)
      with False show False by simp
    qed
    with log2fix_range obtain g where g: "log2fix (h + 1) = Some g" "unat g < 2 ^ 38" by blast
    have "g \<le> push_bit 32 64" using g(2) by (simp add: word_le_nat_alt)
    with g False show ?thesis by (simp add: score_l_def Let_def flip: h_def)
  qed (simp add: score_l_def Let_def flip: h_def)
qed

section \<open>The rank order\<close>

lemma unat_product: "unat (ucast (w :: u32) * ucast (v :: u64) :: u128) = unat w * unat v"
proof -
  have "unat w * unat v < 2 ^ 32 * 2 ^ 64"
    using unat_bounds(2) [of w] unat_bounds(1) [of v] by (intro mult_strict_mono) auto
  moreover have "unat (ucast w :: u128) = unat w" "unat (ucast v :: u128) = unat v"
    using unat_bounds(2) [of w] unat_bounds(1) [of v] by (simp_all add: unsigned_ucast_eq take_bit_nat_eq_self)
  ultimately show ?thesis by (simp add: unat_mult_lem [THEN iffD1])
qed

text \<open>
  The score of a member is \<open>w/L\<close>. Its inverse \<open>L/w\<close> exists for every weighted member, also where \<open>L\<close> is zero, and a greater
  score is a smaller inverse.
\<close>

definition inverse_score :: "member \<Rightarrow> u64 \<Rightarrow> real" where
  "inverse_score m v = real (unat v) / real (unat (mb_weight m))"

lemma rank_order_Less:
  assumes "mb_weight a \<noteq> 0" and "mb_weight b \<noteq> 0"
  shows "rank_order a la b lb = Less \<longleftrightarrow> inverse_score a la < inverse_score b lb \<or> inverse_score a la = inverse_score b lb \<and> mb_id a < mb_id b"
proof -
  define wa wb where "wa = unat (mb_weight a)" and "wb = unat (mb_weight b)"
  have pos: "0 < wa" "0 < wb" using assms by (simp_all add: wa_def wb_def unat_gt_0)
  have lt: "wb * unat la < wa * unat lb \<longleftrightarrow> inverse_score a la < inverse_score b lb"
  proof -
    have "wb * unat la < wa * unat lb \<longleftrightarrow> real wb * real (unat la) < real wa * real (unat lb)"
      by (metis of_nat_less_iff of_nat_mult)
    also have "\<dots> \<longleftrightarrow> inverse_score a la < inverse_score b lb"
      using pos by (simp add: inverse_score_def divide_less_eq less_divide_eq mult.commute flip: wa_def wb_def)
    finally show ?thesis .
  qed
  have eq: "wb * unat la = wa * unat lb \<longleftrightarrow> inverse_score a la = inverse_score b lb"
  proof -
    have "wb * unat la = wa * unat lb \<longleftrightarrow> real wb * real (unat la) = real wa * real (unat lb)"
      by (metis of_nat_eq_iff of_nat_mult)
    also have "\<dots> \<longleftrightarrow> inverse_score a la = inverse_score b lb"
      using pos by (simp add: inverse_score_def divide_eq_eq eq_divide_eq mult.commute flip: wa_def wb_def)
    finally show ?thesis .
  qed
  show ?thesis
    by (auto simp: rank_order_def Let_def cmp_def word_less_nat_alt unat_product word_unat_eq_iff lt eq
        simp flip: wa_def wb_def)
qed

section \<open>Sorting\<close>

lemma mset_insert_by [simp]: "mset (insert_by c x xs) = add_mset x (mset xs)"
  by (induction xs) auto

lemma mset_sort_by [simp]: "mset (sort_by c xs) = mset xs"
  by (induction xs) (simp_all add: sort_by_def)

lemma set_sort_by [simp]: "set (sort_by c xs) = set xs"
  by (metis mset_sort_by mset_eq_setD)

text \<open>For an order on \<open>A\<close> given by a strict key comparison the result is sorted.\<close>

lemma sorted_insert_by:
  assumes "\<And>a b d. a \<in> A \<Longrightarrow> b \<in> A \<Longrightarrow> d \<in> A \<Longrightarrow> c b a \<noteq> Less \<Longrightarrow> c d b \<noteq> Less \<Longrightarrow> c d a \<noteq> Less"
    and "\<And>a b. a \<in> A \<Longrightarrow> b \<in> A \<Longrightarrow> c a b = Less \<Longrightarrow> c b a \<noteq> Less"
  shows "set xs \<subseteq> A \<Longrightarrow> x \<in> A \<Longrightarrow> sorted_wrt (\<lambda>a b. c b a \<noteq> Less) xs \<Longrightarrow> sorted_wrt (\<lambda>a b. c b a \<noteq> Less) (insert_by c x xs)"
proof (induction xs)
  case (Cons y ys)
  have s: "set (insert_by c x ys) = insert x (set ys)" by (metis mset_insert_by set_mset_add_mset_insert set_mset_mset)
  show ?case
  proof (cases "c y x = Less")
    case True
    with Cons assms(2) [of y x] show ?thesis by (auto simp: s)
  next
    case False
    with Cons.prems assms(1) [of x y] show ?thesis by (auto simp: subset_iff)
  qed
qed simp

lemma sorted_sort_by:
  assumes "\<And>a b d. a \<in> A \<Longrightarrow> b \<in> A \<Longrightarrow> d \<in> A \<Longrightarrow> c b a \<noteq> Less \<Longrightarrow> c d b \<noteq> Less \<Longrightarrow> c d a \<noteq> Less"
    and "\<And>a b. a \<in> A \<Longrightarrow> b \<in> A \<Longrightarrow> c a b = Less \<Longrightarrow> c b a \<noteq> Less"
  shows "set xs \<subseteq> A \<Longrightarrow> sorted_wrt (\<lambda>a b. c b a \<noteq> Less) (sort_by c xs)"
proof (induction xs)
  case Nil
  then show ?case by (simp add: sort_by_def)
next
  case (Cons x xs)
  have "sort_by c (x # xs) = insert_by c x (sort_by c xs)" by (simp add: sort_by_def)
  moreover have "sorted_wrt (\<lambda>a b. c b a \<noteq> Less) (insert_by c x (sort_by c xs))"
  proof (rule sorted_insert_by [where A = A])
    show "c d a \<noteq> Less" if "a \<in> A" "b \<in> A" "d \<in> A" "c b a \<noteq> Less" "c d b \<noteq> Less" for a b d
      using that by (rule assms(1))
    show "c b a \<noteq> Less" if "a \<in> A" "b \<in> A" "c a b = Less" for a b using that by (rule assms(2))
  qed (use Cons in simp_all)
  ultimately show ?case by simp
qed

text \<open>A list that is sorted by an asymmetric relation is determined by its elements.\<close>

lemma sorted_unique:
  assumes "mset xs = mset ys" and "sorted_wrt R xs" and "sorted_wrt R ys"
    and "\<And>a b. a \<in> set xs \<Longrightarrow> b \<in> set xs \<Longrightarrow> R a b \<Longrightarrow> R b a \<Longrightarrow> a = b"
  shows "xs = ys"
  using assms
proof (induction xs arbitrary: ys)
  case (Cons x xs)
  then obtain y zs where ys: "ys = y # zs" by (cases ys) auto
  have set: "set (x # xs) = set (y # zs)" using Cons.prems(1) ys by (metis mset_eq_setD)
  have "x = y"
  proof (rule ccontr)
    assume ne: "x \<noteq> y"
    then have mem: "y \<in> set xs" "x \<in> set zs" using set by auto
    then have "R x y" "R y x" using Cons.prems(2,3) ys by auto
    with Cons.prems(4) [of x y] ne mem show False by auto
  qed
  with Cons.IH [of zs] Cons.prems ys show ?case by auto
qed simp

section \<open>The ranking\<close>

definition member_l :: "blake3 \<Rightarrow> u32 \<Rightarrow> member \<Rightarrow> u64" where
  "member_l blake3 sl m = the (score_l sl (salt blake3 (mb_id m)))"

lemma rank_scan_ok:
  "rank_scan sl i ms (map (\<lambda>m. salt blake3 (mb_id m)) ms) =
    Some (map (\<lambda>(j, m). (j, m, member_l blake3 sl m)) (filter (\<lambda>(j, m). mb_weight m \<noteq> 0) (enumerate i ms)),
      filter (\<lambda>(j, m). mb_weight m = 0) (enumerate i ms))"
proof (induction ms arbitrary: i)
  case (Cons m ms)
  obtain v where v: "score_l sl (salt blake3 (mb_id m)) = Some v" using score_l_total by blast
  then have "member_l blake3 sl m = v" by (simp add: member_l_def)
  with v Cons show ?case by simp
qed simp

interpretation by_id: strict_weak "\<lambda>x y. case x of (i :: nat, a :: member) \<Rightarrow> case y of (j :: nat, b :: member) \<Rightarrow> mb_id a < mb_id b"
  by unfold_locales (auto split: prod.splits)

text \<open>
  The specification of the ranking, over scores, ids and weights alone: a weighted member stands before another one when its
  score is greater, and at equal scores the smaller id is first; a weighted member stands before one of weight zero, and these
  stand by id.
\<close>

definition rank_before :: "blake3 \<Rightarrow> u32 \<Rightarrow> member \<Rightarrow> member \<Rightarrow> bool" where
  "rank_before blake3 sl a b \<longleftrightarrow>
     (if mb_weight a \<noteq> 0 \<and> mb_weight b \<noteq> 0
      then inverse_score a (member_l blake3 sl a) < inverse_score b (member_l blake3 sl b) \<or>
        inverse_score a (member_l blake3 sl a) = inverse_score b (member_l blake3 sl b) \<and> mb_id a \<le> mb_id b
      else if mb_weight a = 0 \<and> mb_weight b = 0 then mb_id a \<le> mb_id b
      else mb_weight a \<noteq> 0)"

lemma rank_before_order:
  assumes "mb_weight a \<noteq> 0" and "mb_weight b \<noteq> 0"
  shows "rank_before blake3 sl a b \<longleftrightarrow> rank_order b (member_l blake3 sl b) a (member_l blake3 sl a) \<noteq> Less"
  using assms by (auto simp: rank_before_def rank_order_Less)

lemma rank_order_chain:
  assumes "mb_weight a \<noteq> 0" "mb_weight b \<noteq> 0" "mb_weight d \<noteq> 0"
    and "rank_order b lb a la \<noteq> Less" "rank_order d ld b lb \<noteq> Less"
  shows "rank_order d ld a la \<noteq> Less"
  using assms by (auto simp: rank_order_Less)

lemma rank_order_asym:
  assumes "mb_weight a \<noteq> 0" "mb_weight b \<noteq> 0" "rank_order a la b lb = Less"
  shows "rank_order b lb a la \<noteq> Less"
  using assms by (auto simp: rank_order_Less)

lemma rank_ok:
  "\<exists>idx. rank (set_new blake3 ms) sl = Some (map of_nat idx) \<and> mset idx = mset [0..<length ms] \<and>
    sorted_wrt (rank_before blake3 sl) (map (\<lambda>i. ms ! i) idx)"
proof -
  let ?en = "enumerate 0 ms"
  let ?c = "\<lambda>(i :: nat, a, la) (j :: nat, b, lb). rank_order a la b lb"
  define w where "w = map (\<lambda>(j, m). (j, m, member_l blake3 sl m)) (filter (\<lambda>(j, m). mb_weight m \<noteq> 0) ?en)"
  define z where "z = filter (\<lambda>(j, m). mb_weight m = 0) ?en"
  obtain z' where z': "slice_sort z (\<lambda>(i, a) (j, b). mb_id a < mb_id b) = Some z'" "mset z' = mset z"
    "sorted_wrt (\<lambda>x y. \<not> (case y of (i, a) \<Rightarrow> case x of (j, b) \<Rightarrow> mb_id a < mb_id b)) z'"
    using by_id.slice_sort_ok [of z] by (auto simp: case_prod_unfold)
  let ?w = "sort_by ?c w"
  define idx where "idx = map fst ?w @ map fst z'"
  have en: "(j, m) \<in> set ?en \<Longrightarrow> j < length ms \<and> m = ms ! j" for j m
    by (auto simp: in_set_enumerate_eq)
  have wset: "(j, m, v) \<in> set w \<Longrightarrow> mb_weight m \<noteq> 0 \<and> v = member_l blake3 sl m \<and> m = ms ! j" for j m v
    using en by (auto simp: w_def)
  have zset: "(j, m) \<in> set z' \<Longrightarrow> mb_weight m = 0 \<and> m = ms ! j" for j m
    using en mset_eq_setD [OF z'(2)] by (auto simp: z_def)
  have "rank (set_new blake3 ms) sl = Some (map of_nat idx)"
    by (simp add: rank_def set_new_def rank_scan_ok z'(1) idx_def flip: w_def z_def)
  moreover have "mset idx = mset [0..<length ms]"
  proof -
    have "map fst w = map fst (filter (\<lambda>(j, m). mb_weight m \<noteq> 0) ?en)" by (simp add: w_def case_prod_unfold)
    moreover have "mset (map fst ?w) = mset (map fst w)" "mset (map fst z') = mset (map fst z)"
      by (simp_all only: mset_map mset_sort_by z'(2))
    ultimately have "mset idx = mset (map fst (filter (\<lambda>(j, m). mb_weight m \<noteq> 0) ?en)) + mset (map fst z)"
      by (simp only: idx_def mset_append)
    also have "\<dots> = image_mset fst (filter_mset (\<lambda>(j, m). mb_weight m \<noteq> 0) (mset ?en) + filter_mset (\<lambda>(j, m). mb_weight m = 0) (mset ?en))"
      by (simp only: z_def mset_map mset_filter image_mset_union)
    also have "\<dots> = image_mset fst (mset ?en)"
      using multiset_partition [of "mset ?en" "\<lambda>(j, m). mb_weight m \<noteq> 0"] by (simp add: case_prod_unfold)
    also have "\<dots> = mset [0..<length ms]" by (simp flip: mset_map)
    finally show ?thesis .
  qed
  moreover have "sorted_wrt (rank_before blake3 sl) (map (\<lambda>i. ms ! i) idx)"
  proof -
    have "sorted_wrt (\<lambda>a b. ?c b a \<noteq> Less) ?w"
    proof (rule sorted_sort_by [where A = "set w"])
      show "?c d a \<noteq> Less" if "a \<in> set w" "b \<in> set w" "d \<in> set w" "?c b a \<noteq> Less" "?c d b \<noteq> Less" for a b d
      proof -
        obtain i ma la j mb lb k md ld where e: "a = (i, ma, la)" "b = (j, mb, lb)" "d = (k, md, ld)"
          by (cases a; cases b; cases d)
        with that wset [of i ma la] wset [of j mb lb] wset [of k md ld] rank_order_chain [of ma mb md lb la ld]
        show ?thesis by auto
      qed
      show "?c b a \<noteq> Less" if "a \<in> set w" "b \<in> set w" "?c a b = Less" for a b
      proof -
        obtain i ma la j mb lb where e: "a = (i, ma, la)" "b = (j, mb, lb)" by (cases a; cases b)
        with that wset [of i ma la] wset [of j mb lb] rank_order_asym [of ma mb la lb] show ?thesis by auto
      qed
    qed simp
    then have "sorted_wrt (\<lambda>x y. rank_before blake3 sl (ms ! fst x) (ms ! fst y)) ?w"
      by (rule sorted_wrt_mono_rel [rotated]) (use wset in \<open>auto simp: rank_before_order\<close>)
    moreover have "sorted_wrt (\<lambda>x y. rank_before blake3 sl (ms ! fst x) (ms ! fst y)) z'"
      by (rule sorted_wrt_mono_rel [OF _ z'(3)]) (use zset in \<open>auto simp: rank_before_def\<close>)
    moreover have "rank_before blake3 sl (ms ! fst x) (ms ! fst y)" if "x \<in> set ?w" "y \<in> set z'" for x y
    proof -
      obtain i m v j n where e: "x = (i, m, v)" "y = (j, n)" by (cases x; cases y)
      with that wset [of i m v] zset [of j n] show ?thesis by (auto simp: rank_before_def)
    qed
    ultimately show ?thesis by (simp add: idx_def sorted_wrt_append sorted_wrt_map comp_def)
  qed
  ultimately show ?thesis by blast
qed

section \<open>Owners\<close>

text \<open>The specification: the first of every zone, in order.\<close>

fun first_of :: "('a \<Rightarrow> 'k) \<Rightarrow> 'k set \<Rightarrow> 'a list \<Rightarrow> 'a list" where
  "first_of f seen [] = []"
| "first_of f seen (x # xs) = (if f x \<in> seen then first_of f seen xs else x # first_of f (insert (f x) seen) xs)"

lemma first_of_distinct: "distinct (map f (first_of f seen xs)) \<and> f ` set (first_of f seen xs) \<inter> seen = {}"
  by (induction f seen xs rule: first_of.induct) auto

lemma first_of_subset: "set (first_of f seen xs) \<subseteq> set xs"
  by (induction f seen xs rule: first_of.induct) auto

lemma first_of_complete: "x \<in> set xs \<Longrightarrow> f x \<notin> seen \<Longrightarrow> \<exists>y \<in> set (first_of f seen xs). f y = f x"
proof (induction f seen xs rule: first_of.induct)
  case (2 f seen y ys)
  then show ?case by (cases "f x = f y") auto
qed simp

lemma first_of_map: "first_of f seen (map g xs) = map g (first_of (f \<circ> g) seen xs)"
  by (induction "f \<circ> g" seen xs rule: first_of.induct) auto

text \<open>The weighted members in rank order.\<close>

definition weighted_prefix :: "member list \<Rightarrow> member list" where
  "weighted_prefix = takeWhile (\<lambda>m. mb_weight m \<noteq> 0)"

lemma owners_loop_spec:
  "\<forall>i \<in> set rk. i < length ms \<and> i < 2 ^ 32 \<Longrightarrow>
    owners_loop ms r (map of_nat rk) out zones =
      out @ take (r - length out) (map of_nat (first_of (\<lambda>i. zone_key (ms ! i)) zones
        (takeWhile (\<lambda>i. mb_weight (ms ! i) \<noteq> 0) rk)))"
proof (induction rk arbitrary: out zones)
  case (Cons i rk)
  have i: "unat (of_nat i :: u32) = i" "i < length ms" using Cons.prems by (auto simp: unsigned_of_nat take_bit_nat_eq_self)
  consider (full) "r \<le> length out" | (room) "length out < r" by linarith
  then show ?case
  proof cases
    case room
    then have s: "r - length out = Suc (r - Suc (length out))" by simp
    show ?thesis using room i Cons.prems Cons.IH [of out zones] Cons.IH [of "out @ [of_nat i]" "insert (zone_key (ms ! i)) zones"]
      by (auto simp: Let_def s)
  qed simp
qed simp

lemma rank_members:
  assumes "length ms \<le> 2 ^ 32" and "rank (set_new blake3 ms) sl = Some idx"
  shows "mset (map (\<lambda>i. ms ! unat i) idx) = mset ms"
    and "sorted_wrt (rank_before blake3 sl) (map (\<lambda>i. ms ! unat i) idx)"
    and "\<exists>ks. idx = map of_nat ks \<and> (\<forall>i \<in> set ks. i < length ms \<and> i < 2 ^ 32) \<and> map unat idx = ks"
proof -
  obtain ks where ks: "idx = map of_nat ks" "mset ks = mset [0..<length ms]"
    "sorted_wrt (rank_before blake3 sl) (map (\<lambda>i. ms ! i) ks)"
    using rank_ok [of blake3 ms sl] assms(2) by auto
  have bound: "i < length ms \<and> i < 2 ^ 32" if "i \<in> set ks" for i
    using that mset_eq_setD [OF ks(2)] assms(1) by auto
  have rt: "unat (of_nat i :: u32) = i" if "i \<in> set ks" for i
    using bound [OF that] by (auto simp: unsigned_of_nat take_bit_nat_eq_self)
  have m: "map (\<lambda>i. ms ! unat i) idx = map (\<lambda>i. ms ! i) ks" using rt by (simp add: ks(1))
  have "mset (map (\<lambda>i. ms ! i) ks) = mset (map (\<lambda>i. ms ! i) [0..<length ms])"
    by (simp only: mset_map ks(2))
  then show "mset (map (\<lambda>i. ms ! unat i) idx) = mset ms" by (simp add: m map_nth)
  show "sorted_wrt (rank_before blake3 sl) (map (\<lambda>i. ms ! unat i) idx)" using ks(3) by (simp add: m)
  show "\<exists>ks. idx = map of_nat ks \<and> (\<forall>i \<in> set ks. i < length ms \<and> i < 2 ^ 32) \<and> map unat idx = ks"
    using bound rt ks(1) by (intro exI [of _ ks]) (auto simp: map_idI)
qed

lemma rank_total: "\<exists>idx. rank (set_new blake3 ms) sl = Some idx"
  using rank_ok by blast

lemma owners_members:
  assumes "length ms \<le> 2 ^ 32" and "rank (set_new blake3 ms) sl = Some idx"
  shows "\<exists>own. owners (set_new blake3 ms) sl r = Some own \<and> (\<forall>i \<in> set own. unat i < length ms) \<and>
    map (\<lambda>i. ms ! unat i) own = take r (first_of zone_key {} (weighted_prefix (map (\<lambda>i. ms ! unat i) idx)))"
proof -
  from rank_members(3) [OF assms] obtain ks where ks: "idx = map of_nat ks" "\<forall>i \<in> set ks. i < length ms \<and> i < 2 ^ 32"
    "map unat idx = ks" by blast
  define own where "own = first_of (\<lambda>i. zone_key (ms ! i)) {} (takeWhile (\<lambda>i. mb_weight (ms ! i) \<noteq> 0) ks)"
  have o: "owners (set_new blake3 ms) sl r = Some (take r (map of_nat own))"
    using owners_loop_spec [OF ks(2), of r "[]" "{}"] assms(2) by (simp add: owners_def set_new_def ks(1) own_def)
  have sub: "i < length ms \<and> unat (of_nat i :: u32) = i" if "i \<in> set own" for i
  proof -
    have "i \<in> set ks" using that first_of_subset set_takeWhileD unfolding own_def by fastforce
    with ks(2) show ?thesis by (auto simp: unsigned_of_nat take_bit_nat_eq_self)
  qed
  have e: "map (\<lambda>i. ms ! unat i) idx = map (\<lambda>i. ms ! i) ks" using ks(3) by (metis (no_types, lifting) list.map_comp comp_def map_eq_conv)
  have "map (\<lambda>i. ms ! unat i) (take r (map of_nat own :: u32 list)) = take r (map (\<lambda>i. ms ! i) own)"
    using sub by (simp add: take_map comp_def) (metis (no_types, lifting) in_set_takeD map_eq_conv)
  also have "map (\<lambda>i. ms ! i) own = first_of zone_key {} (weighted_prefix (map (\<lambda>i. ms ! unat i) idx))"
    by (simp add: own_def weighted_prefix_def e first_of_map takeWhile_map comp_def)
  finally show ?thesis using o sub by (auto dest!: in_set_takeD)
qed

section \<open>Placement is a function of the set of members\<close>

lemma rank_before_antisym:
  assumes "distinct (map mb_id ms)" and "a \<in> set ms" "b \<in> set ms"
    and "rank_before blake3 sl a b" "rank_before blake3 sl b a"
  shows "a = b"
proof -
  have "mb_id a = mb_id b"
    using assms(4,5) by (auto simp: rank_before_def split: if_splits)
  then show ?thesis using assms(1-3) by (auto simp: distinct_map dest: inj_onD)
qed

lemma rank_unique:
  assumes "length ms \<le> 2 ^ 32" "mset ms = mset ms'" "distinct (map mb_id ms)"
    and "rank (set_new blake3 ms) sl = Some idx" "rank (set_new blake3 ms') sl = Some idx'"
  shows "map (\<lambda>i. ms ! unat i) idx = map (\<lambda>i. ms' ! unat i) idx'"
proof (rule sorted_unique)
  have len: "length ms' \<le> 2 ^ 32" using assms(1,2) by (metis size_mset)
  note m = rank_members [OF assms(1,4)] and m' = rank_members [OF len assms(5)]
  show "mset (map (\<lambda>i. ms ! unat i) idx) = mset (map (\<lambda>i. ms' ! unat i) idx')" using m(1) m'(1) assms(2) by simp
  show "sorted_wrt (rank_before blake3 sl) (map (\<lambda>i. ms ! unat i) idx)"
    "sorted_wrt (rank_before blake3 sl) (map (\<lambda>i. ms' ! unat i) idx')" by (rule m(2), rule m'(2))
  fix a b assume ab: "a \<in> set (map (\<lambda>i. ms ! unat i) idx)" "b \<in> set (map (\<lambda>i. ms ! unat i) idx)"
    "rank_before blake3 sl a b" "rank_before blake3 sl b a"
  have "set (map (\<lambda>i. ms ! unat i) idx) = set ms" by (rule mset_eq_setD [OF m(1)])
  with ab rank_before_antisym [OF assms(3)] show "a = b" by blast
qed

lemma table_ids_map:
  assumes "\<forall>i \<in> set idx. unat i < length (set_members (tb_set t))"
  shows "table_ids t idx = map mb_id (map (\<lambda>i. set_members (tb_set t) ! unat i) idx)"
  using assms by (induction idx) (simp_all add: table_ids_def List.map_filter_simps)

lemma rank_ids_new:
  assumes "length ms \<le> 2 ^ 32" and "rank (set_new blake3 ms) (slot key) = Some idx"
  shows "fst (rank_ids key (table_new (set_new blake3 ms) r)) = Some (map mb_id (map (\<lambda>i. ms ! unat i) idx))"
proof -
  from rank_members(3) [OF assms] obtain ks where "map unat idx = ks" "\<forall>i \<in> set ks. i < length ms" by blast
  then have "\<forall>i \<in> set idx. unat i < length ms" by auto
  with assms(2) show ?thesis
    by (simp add: rank_ids_def table_rank_def table_new_def cached_def table_ids_map set_new_def)
qed

lemma owner_ids_new:
  assumes "length ms \<le> 2 ^ 32" and "rank (set_new blake3 ms) (slot key) = Some idx"
  shows "fst (owner_ids key (table_new (set_new blake3 ms) r)) =
    Some (map mb_id (take r (first_of zone_key {} (weighted_prefix (map (\<lambda>i. ms ! unat i) idx)))))"
proof -
  from owners_members [OF assms, of r] obtain own where
    "owners (set_new blake3 ms) (slot key) r = Some own" "\<forall>i \<in> set own. unat i < length ms"
    "map (\<lambda>i. ms ! unat i) own = take r (first_of zone_key {} (weighted_prefix (map (\<lambda>i. ms ! unat i) idx)))" by blast
  then show ?thesis
    by (simp add: owner_ids_def table_owners_def table_new_def cached_def table_ids_map set_new_def)
qed

lemma order_independent:
  assumes "length ms \<le> 2 ^ 32" "mset ms = mset ms'" "distinct (map mb_id ms)"
  shows "fst (owner_ids key (table_new (set_new blake3 ms) r)) = fst (owner_ids key (table_new (set_new blake3 ms') r)) \<and>
    fst (rank_ids key (table_new (set_new blake3 ms) r)) = fst (rank_ids key (table_new (set_new blake3 ms') r))"
proof -
  obtain idx idx' where r: "rank (set_new blake3 ms) (slot key) = Some idx" "rank (set_new blake3 ms') (slot key) = Some idx'"
    using rank_total by blast
  have len: "length ms' \<le> 2 ^ 32" using assms(1,2) by (metis size_mset)
  show ?thesis
    using rank_unique [OF assms r] owner_ids_new [OF assms(1) r(1)] owner_ids_new [OF len r(2)]
      rank_ids_new [OF assms(1) r(1)] rank_ids_new [OF len r(2)] by simp
qed

section \<open>What owners are\<close>

lemma weighted_prefix_all:
  assumes "sorted_wrt (rank_before blake3 sl) ms" and "m \<in> set ms" and "mb_weight m \<noteq> 0"
  shows "m \<in> set (weighted_prefix ms)"
  using assms
proof (induction ms)
  case (Cons x ms)
  show ?case
  proof (cases "mb_weight x = 0")
    case True
    then have "m \<in> set ms" using Cons.prems by auto
    then have "rank_before blake3 sl x m" using Cons.prems(1) by simp
    with True Cons.prems(3) show ?thesis by (simp add: rank_before_def)
  qed (use Cons in \<open>auto simp: weighted_prefix_def\<close>)
qed simp

lemma owners_ok:
  assumes "length ms \<le> 2 ^ 32" and "owners (set_new blake3 ms) sl r = Some own"
  shows "length own \<le> r" and "\<forall>i \<in> set own. unat i < length ms \<and> mb_weight (ms ! unat i) \<noteq> 0"
    and "distinct (map (\<lambda>i. zone_key (ms ! unat i)) own)"
    and "length own < r \<Longrightarrow> \<forall>m \<in> set ms. mb_weight m \<noteq> 0 \<longrightarrow> (\<exists>i \<in> set own. zone_key (ms ! unat i) = zone_key m)"
proof -
  obtain idx where idx: "rank (set_new blake3 ms) sl = Some idx" using rank_total by blast
  define rk where "rk = map (\<lambda>i. ms ! unat i) idx"
  define fo where "fo = first_of zone_key {} (weighted_prefix rk)"
  from owners_members [OF assms(1) idx, of r] assms(2)
  have o: "\<forall>i \<in> set own. unat i < length ms" "map (\<lambda>i. ms ! unat i) own = take r fo"
    by (auto simp: fo_def rk_def)
  have len: "length own = min (length fo) r" using arg_cong [OF o(2), of length] by simp
  then show "length own \<le> r" by simp
  have w: "mb_weight m \<noteq> 0" if "m \<in> set fo" for m
    using that first_of_subset [of zone_key "{}" "weighted_prefix rk"] by (auto simp: fo_def weighted_prefix_def dest: set_takeWhileD)
  have mem: "ms ! unat i \<in> set fo" if "i \<in> set own" for i
  proof -
    from that have "ms ! unat i \<in> set (map (\<lambda>i. ms ! unat i) own)" by simp
    then show ?thesis unfolding o(2) by (rule in_set_takeD)
  qed
  with w o(1) show "\<forall>i \<in> set own. unat i < length ms \<and> mb_weight (ms ! unat i) \<noteq> 0" by blast
  have "map (\<lambda>i. zone_key (ms ! unat i)) own = take r (map zone_key fo)"
    using arg_cong [OF o(2), of "map zone_key"] by (simp add: take_map comp_def)
  then show "distinct (map (\<lambda>i. zone_key (ms ! unat i)) own)"
    using first_of_distinct [of zone_key "{}" "weighted_prefix rk"] by (simp add: fo_def distinct_take)
  assume "length own < r"
  then have all: "map (\<lambda>i. ms ! unat i) own = fo" using o(2) len by simp
  show "\<forall>m \<in> set ms. mb_weight m \<noteq> 0 \<longrightarrow> (\<exists>i \<in> set own. zone_key (ms ! unat i) = zone_key m)"
  proof (intro ballI impI)
    fix m assume m: "m \<in> set ms" "mb_weight m \<noteq> 0"
    note rm = rank_members [OF assms(1) idx, folded rk_def]
    have "m \<in> set rk" using m(1) mset_eq_setD [OF rm(1)] by simp
    then have "m \<in> set (weighted_prefix rk)" by (rule weighted_prefix_all [OF rm(2) _ m(2)])
    then obtain y where y: "y \<in> set (map (\<lambda>i. ms ! unat i) own)" "zone_key y = zone_key m"
      unfolding all using first_of_complete [of m "weighted_prefix rk" zone_key "{}"] by (auto simp: fo_def)
    then show "\<exists>i \<in> set own. zone_key (ms ! unat i) = zone_key m" by auto
  qed
qed

section \<open>The caches\<close>

text \<open>Every cached entry is what the uncached function returns.\<close>

definition table_ok :: "placement_set \<Rightarrow> nat \<Rightarrow> table \<Rightarrow> bool" where
  "table_ok st r t \<longleftrightarrow> tb_set t = st \<and> tb_r t = r \<and>
     (\<forall>sl v. tb_owners t sl = Some v \<longrightarrow> owners st sl r = Some v) \<and>
     (\<forall>sl v. tb_rank t sl = Some v \<longrightarrow> rank st sl = Some v)"

lemma table_ok_new: "table_ok st r (table_new st r)"
  by (simp add: table_ok_def table_new_def)

lemma table_owners_ok:
  assumes "table_ok st r t"
  shows "fst (table_owners sl t) = owners st sl r \<and> table_ok st r (snd (table_owners sl t))"
  using assms by (auto simp: table_owners_def table_ok_def cached_def split: option.splits)

lemma table_rank_ok:
  assumes "table_ok st r t"
  shows "fst (table_rank sl t) = rank st sl \<and> table_ok st r (snd (table_rank sl t))"
  using assms by (auto simp: table_rank_def table_ok_def cached_def split: option.splits)

text \<open>The tables that lookups can produce from a new one.\<close>

inductive table_reach :: "placement_set \<Rightarrow> nat \<Rightarrow> table \<Rightarrow> bool" for st r where
  new: "table_reach st r (table_new st r)"
| owners_step: "table_reach st r t \<Longrightarrow> table_reach st r (snd (table_owners sl t))"
| rank_step: "table_reach st r t \<Longrightarrow> table_reach st r (snd (table_rank sl t))"

inductive_cases table_reachE: "table_reach st r t"

lemma table_reach_ok: "table_reach st r t \<Longrightarrow> table_ok st r t"
  by (induction rule: table_reach.induct) (auto simp: table_ok_new table_owners_ok table_rank_ok)

text \<open>A lookup object with a cache, as an interface: every reachable state answers like the function.\<close>

locale transparent_cache =
  fixes reach :: "'s \<Rightarrow> bool" and look :: "'k \<Rightarrow> 's \<Rightarrow> 'v \<times> 's" and spec :: "'k \<Rightarrow> 'v"
  assumes answers: "reach s \<Longrightarrow> fst (look k s) = spec k"
    and reach_look: "reach s \<Longrightarrow> reach (snd (look k s))"
begin

fun look_all :: "'k list \<Rightarrow> 's \<Rightarrow> 'v list \<times> 's" where
  "look_all [] s = ([], s)"
| "look_all (k # ks) s = (case look k s of (v, s1) \<Rightarrow> case look_all ks s1 of (vs, s2) \<Rightarrow> (v # vs, s2))"

lemma look_all_spec: "reach s \<Longrightarrow> fst (look_all ks s) = map spec ks \<and> reach (snd (look_all ks s))"
proof (induction ks arbitrary: s)
  case (Cons k ks)
  obtain v s1 where l: "look k s = (v, s1)" by (cases "look k s")
  from answers [OF Cons.prems, of k] reach_look [OF Cons.prems, of k] Cons.IH [of s1] l
  show ?case by (auto split: prod.splits)
qed simp

end

interpretation owners_cache: transparent_cache "table_reach st r" table_owners "\<lambda>sl. owners st sl r" for st r
  by unfold_locales (use table_owners_ok [OF table_reach_ok] in \<open>blast intro: table_reach.intros\<close>)+

interpretation rank_cache: transparent_cache "table_reach st r" table_rank "\<lambda>sl. rank st sl" for st r
  by unfold_locales (use table_rank_ok [OF table_reach_ok] in \<open>blast intro: table_reach.intros\<close>)+

end
