(* ===== verification/Log2fix.thy ===== *)
theory Log2fix
  imports Placement_Correct
begin

text \<open>
  How close \<^verbatim>\<open>log2fix\<close> of \<^verbatim>\<open>crates/view/src/placement.rs\<close> is to the logarithm. Each squaring drops the low
  half of the product, so the result is at most \<open>2\<^sup>3\<^sup>2 \<cdot> log 2 x\<close> and less than one unit and \<open>2\<^sup>-\<^sup>3\<^sup>0\<close> below it;
  it is not always the floor.
\<close>

section \<open>The loop on natural numbers\<close>

fun frac_bits :: "nat \<Rightarrow> nat \<Rightarrow> nat" where
  "frac_bits 0 m = 0"
| "frac_bits (Suc k) m =
     (if m * m \<ge> 2 ^ 127 then 2 ^ k + frac_bits k (m * m div 2 ^ 64) else frac_bits k (m * m div 2 ^ 63))"

lemma unat_or_disjoint: "(\<And>n. \<not> bit a n \<or> \<not> bit b n) \<Longrightarrow> unat (a OR b :: u64) = unat a + unat b"
  by (subst unsigned_or_eq, subst disjunctive_add) (auto simp: bit_unsigned_iff)

lemma unat_square:
  fixes m :: u64
  defines "p \<equiv> ucast m * ucast m :: u128"
  shows "unat p = unat m * unat m"
    and "unat (ucast (drop_bit 64 p) :: u64) = unat m * unat m div 2 ^ 64"
    and "unat m * unat m < 2 ^ 127 \<Longrightarrow>
      unat (push_bit 1 (ucast (drop_bit 64 p)) OR drop_bit 63 (ucast p) :: u64) = unat m * unat m div 2 ^ 63"
proof -
  have m: "unat m < 2 ^ 64" by (rule unat_bounds)
  have "unat m * unat m < 2 ^ 64 * 2 ^ 64" using m by (intro mult_strict_mono) auto
  then have lt: "unat m * unat m < 2 ^ 128" by simp
  have u: "unat (ucast m :: u128) = unat m" using m by (simp add: unsigned_ucast_eq take_bit_nat_eq_self)
  show p: "unat p = unat m * unat m"
    using lt by (simp add: p_def unat_word_ariths u)
  have d: "unat (drop_bit k p) = unat m * unat m div 2 ^ k" for k
    using unat_drop_bit_eq [of k p] by (simp add: p drop_bit_eq_div)
  have "unat m * unat m div 2 ^ 64 < 2 ^ 64" using lt by simp
  then show "unat (ucast (drop_bit 64 p) :: u64) = unat m * unat m div 2 ^ 64"
    by (simp only: unsigned_ucast_eq d) (simp add: take_bit_nat_eq_self)
  assume s: "unat m * unat m < 2 ^ 127"
  have "push_bit 1 (ucast (drop_bit 64 p)) OR drop_bit 63 (ucast p) = (ucast (drop_bit 63 p) :: u64)"
  proof (rule bit_word_eqI)
    fix n assume n: "n < LENGTH(64)"
    show "bit (push_bit 1 (ucast (drop_bit 64 p)) OR drop_bit 63 (ucast p) :: u64) n = bit (ucast (drop_bit 63 p) :: u64) n"
      unfolding bit_or_iff bit_push_bit_iff bit_ucast_iff bit_drop_bit_eq using n by (cases n) auto
  qed
  moreover have "unat m * unat m div 2 ^ 63 < 2 ^ 64" using s by simp
  ultimately show "unat (push_bit 1 (ucast (drop_bit 64 p)) OR drop_bit 63 (ucast p) :: u64) = unat m * unat m div 2 ^ 63"
    by (simp only: unsigned_ucast_eq d) (simp add: take_bit_nat_eq_self)
qed

lemma bit_63: "bit (h :: u64) 63 \<longleftrightarrow> 2 ^ 63 \<le> unat h"
proof -
  have "bit h 63 \<longleftrightarrow> bit (unat h) 63" by (simp add: bit_unsigned_iff)
  also have "\<dots> \<longleftrightarrow> odd (unat h div 2 ^ 63)" by (rule bit_iff_odd)
  also have "\<dots> \<longleftrightarrow> 2 ^ 63 \<le> unat h"
  proof -
    have "unat h div 2 ^ 63 < 2" using unat_bounds(1) [of h] by simp
    then have "unat h div 2 ^ 63 = 0 \<or> unat h div 2 ^ 63 = 1" by linarith
    then show ?thesis by (auto simp: div_eq_0_iff)
  qed
  finally show ?thesis .
qed

lemma unat_push_bit_1: "k < 64 \<Longrightarrow> unat (push_bit k 1 :: u64) = 2 ^ k"
proof -
  assume k: "k < 64"
  moreover have "(push_bit k 1 :: u64) = of_nat (2 ^ k)" by simp
  ultimately show ?thesis by (simp only: unsigned_of_nat) (simp add: take_bit_nat_eq_self)
qed

lemma log2_loop_frac:
  "k \<le> 32 \<Longrightarrow> (\<And>n. n < k \<Longrightarrow> \<not> bit f n) \<Longrightarrow> unat (log2_loop k m f) = unat f + frac_bits k (unat m)"
proof (induction k arbitrary: m f)
  case (Suc k)
  define p where "p = (ucast m * ucast m :: u128)"
  define hi where "hi = (ucast (drop_bit 64 p) :: u64)"
  define lo where "lo = (ucast p :: u64)"
  note sq = unat_square [of m, folded p_def, folded hi_def lo_def]
  have b: "bit hi 63 \<longleftrightarrow> 2 ^ 127 \<le> unat m * unat m"
    unfolding bit_63 sq(2) by (simp add: less_eq_div_iff_mult_less_eq)
  show ?case
  proof (cases "bit hi 63")
    case True
    have f: "unat (f OR push_bit k 1) = unat f + 2 ^ k"
    proof (subst unat_or_disjoint)
      show "\<not> bit f n \<or> \<not> bit (push_bit k 1 :: u64) n" for n
        using Suc.prems(2) [of k] by (auto simp: bit_exp_iff)
      show "unat f + unat (push_bit k 1 :: u64) = unat f + 2 ^ k"
        using unat_push_bit_1 [of k] Suc.prems(1) by simp
    qed
    have "unat (log2_loop (Suc k) m f) = unat (log2_loop k hi (f OR push_bit k 1))"
      using True by (simp add: Let_def p_def hi_def lo_def)
    also have "\<dots> = unat (f OR push_bit k 1) + frac_bits k (unat hi)"
      using Suc.prems by (intro Suc.IH) (auto simp: bit_or_iff bit_exp_iff)
    finally show ?thesis using True b f by (simp add: sq(2))
  next
    case False
    then have lt: "unat m * unat m < 2 ^ 127" using b by simp
    have "unat (log2_loop (Suc k) m f) = unat (log2_loop k (push_bit 1 hi OR drop_bit 63 lo) f)"
      using False by (simp add: Let_def p_def hi_def lo_def)
    also have "\<dots> = unat f + frac_bits k (unat (push_bit 1 hi OR drop_bit 63 lo))"
      using Suc.prems by (intro Suc.IH) auto
    finally show ?thesis using lt sq(3) [OF lt] by simp
  qed
qed simp

section \<open>Against the logarithm\<close>

lemma ln2_half: "1 / 2 \<le> ln (2 :: real)"
  using ln_le_minus_one [of "1 / 2"] by (simp add: ln_div)

lemma floor_log:
  fixes P :: real
  assumes "2 ^ 63 \<le> n" and "real n \<le> P" "P < real n + 1"
  shows "log 2 (real n / 2 ^ 63) \<le> log 2 (P / 2 ^ 63)" and "log 2 (P / 2 ^ 63) < log 2 (real n / 2 ^ 63) + 1 / 2 ^ 62"
proof -
  have n: "(2 :: real) ^ 63 \<le> real n" using assms(1) by (metis of_nat_le_iff of_nat_numeral of_nat_power)
  then have pos: "0 < real n" by (rule less_le_trans [rotated]) simp
  show "log 2 (real n / 2 ^ 63) \<le> log 2 (P / 2 ^ 63)"
    using assms(2) pos by (intro log_le_cancel_iff [THEN iffD2]) (auto simp: divide_right_mono)
  have "log 2 (P / 2 ^ 63) < log 2 ((real n + 1) / 2 ^ 63)"
    using assms(2,3) pos by (intro log_less_cancel_iff [THEN iffD2]) (auto simp: divide_strict_right_mono)
  also have "(real n + 1) / 2 ^ 63 = (real n / 2 ^ 63) * (1 + 1 / real n)" using pos by (simp add: field_simps)
  also have "log 2 \<dots> = log 2 (real n / 2 ^ 63) + log 2 (1 + 1 / real n)"
    using pos by (subst log_mult) (auto intro!: add_pos_pos simp: add_nonneg_eq_0_iff)
  also have "log 2 (1 + 1 / real n) \<le> 1 / 2 ^ 62"
  proof -
    have "ln (1 + 1 / real n) \<le> 1 / real n" using pos by (intro ln_add_one_self_le_self) simp
    also have "\<dots> \<le> 1 / 2 ^ 63" using n by (intro divide_left_mono) auto
    also have "\<dots> \<le> (1 / 2 ^ 62) * ln 2" using ln2_half by simp
    finally show ?thesis by (simp add: log_def divide_le_eq)
  qed
  finally show "log 2 (P / 2 ^ 63) < log 2 (real n / 2 ^ 63) + 1 / 2 ^ 62" by simp
qed

lemma log_square:
  fixes m :: nat
  assumes "0 < m"
  shows "log 2 (real (m * m) / 2 ^ 126) = 2 * log 2 (real m / 2 ^ 63)"
proof -
  have "real (m * m) / 2 ^ 126 = (real m / 2 ^ 63) ^ 2" by (simp add: power2_eq_square field_simps)
  then show ?thesis using assms by (simp add: log_nat_power)
qed

lemma frac_bits_log:
  assumes "2 ^ 63 \<le> m" "m < 2 ^ 64"
  shows "real (frac_bits k m) \<le> 2 ^ k * log 2 (real m / 2 ^ 63) \<and>
    2 ^ k * log 2 (real m / 2 ^ 63) < real (frac_bits k m) + 1 + 2 ^ k / 2 ^ 62"
  using assms
proof (induction k arbitrary: m)
  case 0
  have "(2 :: real) ^ 63 \<le> real m" "real m < 2 ^ 64"
    using 0 by (metis of_nat_le_iff of_nat_less_iff of_nat_numeral of_nat_power)+
  then have "1 \<le> real m / 2 ^ 63" "real m / 2 ^ 63 < 2" by (simp_all add: le_divide_eq divide_less_eq)
  then have "0 \<le> log 2 (real m / 2 ^ 63)" "log 2 (real m / 2 ^ 63) < 1" by (simp_all add: log_less_iff)
  then show ?case by simp
next
  case (Suc k)
  have step: "real b * 2 ^ k + real (frac_bits k m') \<le> 2 ^ Suc k * L \<and>
      2 ^ Suc k * L < real b * 2 ^ k + real (frac_bits k m') + 1 + 2 ^ Suc k / 2 ^ 62"
    if "2 * L = real b + log 2 (P / 2 ^ 63)" "2 ^ 63 \<le> m'" "m' < 2 ^ 64" "real m' \<le> P" "P < real m' + 1" for b m' L P
  proof -
    note f = floor_log [OF that(2,4,5)] and ih = Suc.IH [OF that(2,3)]
    have "2 ^ Suc k * L = 2 ^ k * (2 * L)" by simp
    then have e: "2 ^ Suc k * L = real b * 2 ^ k + 2 ^ k * log 2 (P / 2 ^ 63)"
      unfolding that(1) by (simp only: distrib_left mult.commute)
    define A where "A = 2 ^ k * log 2 (real m' / 2 ^ 63)"
    define B where "B = 2 ^ k * log 2 (P / 2 ^ 63)"
    have "A \<le> B" unfolding A_def B_def using f(1) by (intro mult_left_mono) auto
    moreover have "B < 2 ^ k * (log 2 (real m' / 2 ^ 63) + 1 / 2 ^ 62)"
      unfolding B_def using f(2) by (intro mult_strict_left_mono) auto
    then have "B < A + 2 ^ k / 2 ^ 62" unfolding A_def by (simp add: distrib_left)
    moreover have "(2 :: real) ^ Suc k / 2 ^ 62 = 2 ^ k / 2 ^ 62 + 2 ^ k / 2 ^ 62" by simp
    ultimately show ?thesis using ih unfolding e A_def [symmetric] B_def [symmetric] by linarith
  qed
  define L where "L = log 2 (real m / 2 ^ 63)"
  have pos: "0 < m" using Suc.prems by (auto intro: gr0I)
  have sq: "2 ^ 126 \<le> m * m" "m * m < 2 ^ 128"
    using mult_mono [OF Suc.prems(1) Suc.prems(1)] mult_strict_mono [OF Suc.prems(2) Suc.prems(2)] by simp_all
  have L: "2 * L = log 2 (real (m * m) / 2 ^ 126)" using log_square [OF pos] by (simp add: L_def)
  have fl: "real (m * m div 2 ^ j) \<le> real (m * m) / 2 ^ j" "real (m * m) / 2 ^ j < real (m * m div 2 ^ j) + 1" for j
  proof -
    have e: "\<lfloor>real (m * m) / 2 ^ j\<rfloor> = int (m * m div 2 ^ j)"
      using floor_divide_of_nat_eq [of "m * m" "2 ^ j", where 'a = real] by simp
    show "real (m * m div 2 ^ j) \<le> real (m * m) / 2 ^ j" "real (m * m) / 2 ^ j < real (m * m div 2 ^ j) + 1"
      using of_int_floor_le [of "real (m * m) / 2 ^ j"] real_of_int_floor_add_one_gt [of "real (m * m) / 2 ^ j"]
      unfolding e of_int_of_nat_eq by simp_all
  qed
  show ?case
  proof (cases "2 ^ 127 \<le> m * m")
    case True
    have "real (m * m) / 2 ^ 126 = 2 * (real (m * m) / 2 ^ 64 / 2 ^ 63)" by simp
    moreover have "log 2 (2 * (real (m * m) / 2 ^ 64 / 2 ^ 63)) = log 2 2 + log 2 (real (m * m) / 2 ^ 64 / 2 ^ 63)"
      using pos by (intro log_mult_pos) auto
    ultimately have "2 * L = real 1 + log 2 (real (m * m) / 2 ^ 64 / 2 ^ 63)" unfolding L by simp
    moreover have "2 ^ 63 \<le> m * m div 2 ^ 64" "m * m div 2 ^ 64 < 2 ^ 64"
      using True sq(2) by (simp_all add: less_eq_div_iff_mult_less_eq)
    ultimately show ?thesis using step [OF _ _ _ fl [of 64], of L 1] True by (simp add: L_def)
  next
    case False
    have "2 * L = real 0 + log 2 (real (m * m) / 2 ^ 63 / 2 ^ 63)" unfolding L by simp
    moreover have "2 ^ 63 \<le> m * m div 2 ^ 63" "m * m div 2 ^ 63 < 2 ^ 64"
      using False sq(1) by (simp_all add: less_eq_div_iff_mult_less_eq)
    ultimately show ?thesis using step [OF _ _ _ fl [of 63], of L 0] False by (simp add: L_def)
  qed
qed

lemma bits_len_pos: "x \<noteq> 0 \<Longrightarrow> 2 ^ (bits_len x - 1) \<le> x \<and> x < 2 ^ bits_len x \<and> 0 < bits_len x"
proof (induction x rule: bits_len.induct)
  case (1 x)
  show ?case
  proof (cases "x div 2 = 0")
    case True
    then have "x = 1" using "1.prems" by linarith
    then show ?thesis by (simp add: bits_len.simps)
  next
    case False
    then obtain n where n: "bits_len (x div 2) = Suc n" "2 ^ n \<le> x div 2" "x div 2 < 2 ^ Suc n"
      using "1.IH" "1.prems" by (metis Suc_pred diff_Suc_1)
    have "bits_len x = Suc (Suc n)" using n(1) "1.prems" by (simp add: bits_len.simps [of x])
    then show ?thesis using n(2,3) by auto
  qed
qed

lemma log2fix_value:
  assumes "x \<noteq> 0"
  defines "i \<equiv> bits_len (unat x) - 1"
  shows "\<exists>v. log2fix x = Some v \<and> unat v = i * 2 ^ 32 + frac_bits 32 (unat x * 2 ^ (63 - i))"
    and "2 ^ 63 \<le> unat x * 2 ^ (63 - i)" "unat x * 2 ^ (63 - i) < 2 ^ 64" "i < 64"
proof -
  have x: "unat x \<noteq> 0" using assms by (simp add: unat_eq_zero)
  define m where "m = push_bit (63 - i) x"
  have b: "2 ^ i \<le> unat x" "unat x < 2 ^ Suc i" using bits_len_pos [OF x] by (simp_all add: i_def)
  show i: "i < 64" using bits_len_le [of "unat x" 64] unat_bounds(1) [of x] by (simp add: i_def)
  have pw: "2 ^ i * 2 ^ (63 - i) = (2 :: nat) ^ 63" "2 ^ Suc i * 2 ^ (63 - i) = (2 :: nat) ^ 64"
    using i by (simp_all flip: power_add power_Suc)
  show lim: "2 ^ 63 \<le> unat x * 2 ^ (63 - i)" "unat x * 2 ^ (63 - i) < 2 ^ 64"
    unfolding pw [symmetric] using b by (intro mult_le_mono1 mult_strict_right_mono; simp)+
  have m: "unat m = unat x * 2 ^ (63 - i)"
  proof -
    have "m = of_nat (unat x * 2 ^ (63 - i))" by (simp add: m_def push_bit_eq_mult)
    then show ?thesis using lim(2) by (simp only: unsigned_of_nat) (simp add: take_bit_nat_eq_self)
  qed
  have low: "\<not> bit (log2_loop 32 m 0) n" if "32 \<le> n" for n using log2_loop_bits [OF that, of m 0] by simp
  have hi: "unat (push_bit 32 (of_nat i) :: u64) = i * 2 ^ 32"
  proof -
    have "push_bit 32 (of_nat i) = (of_nat (i * 2 ^ 32) :: u64)" by (simp add: push_bit_eq_mult)
    then show ?thesis using i by (simp only: unsigned_of_nat) (simp add: take_bit_nat_eq_self)
  qed
  have "unat (push_bit 32 (of_nat i) OR log2_loop 32 m 0) = i * 2 ^ 32 + frac_bits 32 (unat m)"
    using low log2_loop_frac [of 32 0 m] by (subst unat_or_disjoint) (auto simp: bit_push_bit_iff hi)
  moreover have "log2fix x = Some (push_bit 32 (of_nat i) OR log2_loop 32 m 0)"
    using assms by (simp add: log2fix_def Let_def m_def)
  ultimately show "\<exists>v. log2fix x = Some v \<and> unat v = i * 2 ^ 32 + frac_bits 32 (unat x * 2 ^ (63 - i))"
    by (simp add: m)
qed

lemma log_scale:
  fixes n i :: nat
  assumes "0 < n" "i \<le> 63"
  shows "log 2 (real (n * 2 ^ (63 - i)) / 2 ^ 63) = log 2 (real n) - real i"
proof -
  have "(2 :: real) ^ 63 = 2 ^ i * 2 ^ (63 - i)" using assms(2) by (simp flip: power_add)
  moreover have "real (n * 2 ^ (63 - i)) / (2 ^ i * 2 ^ (63 - i)) = real n / 2 ^ i" by simp
  ultimately have "real (n * 2 ^ (63 - i)) / 2 ^ 63 = real n / 2 ^ i" by metis
  then show ?thesis using assms(1) by (simp add: log_divide_pos log_nat_power)
qed

lemma log2fix_near:
  assumes "log2fix x = Some v"
  shows "real (unat v) \<le> 2 ^ 32 * log 2 (real (unat x)) \<and>
    2 ^ 32 * log 2 (real (unat x)) < real (unat v) + 1 + 1 / 2 ^ 30"
proof -
  have x: "x \<noteq> 0" "0 < unat x" using assms by (auto simp: log2fix_def unat_gt_0 split: if_splits)
  define i where "i = bits_len (unat x) - 1"
  note l = log2fix_value [OF x(1), folded i_def]
  have "real (unat v) = real i * 2 ^ 32 + real (frac_bits 32 (unat x * 2 ^ (63 - i)))" using l(1) assms by auto
  moreover have "log 2 (real (unat x * 2 ^ (63 - i)) / 2 ^ 63) = log 2 (real (unat x)) - real i"
    using x(2) l(4) by (intro log_scale) auto
  ultimately show ?thesis using frac_bits_log [OF l(2,3), of 32] by (simp only:) (simp add: algebra_simps)
qed

text \<open>The documented value, the floor of \<open>2\<^sup>3\<^sup>2 \<cdot> log 2 x\<close>, is missed at the eighth root of \<open>2\<^sup>5\<^sup>0\<^sup>5\<close> rounded up.\<close>

lemma frac_bits_numeral:
  "frac_bits (numeral k) m = (if m * m \<ge> 2 ^ 127 then 2 ^ pred_numeral k + frac_bits (pred_numeral k) (m * m div 2 ^ 64)
     else frac_bits (pred_numeral k) (m * m div 2 ^ 63))"
  by (simp only: numeral_eq_Suc [of k] frac_bits.simps)

lemma frac_bits_sample: "frac_bits 32 0x8b95c1e3ea8bd6e7 = 0x1fffffff"
  by (simp add: frac_bits_numeral frac_bits.simps(2) [of 0])

lemma bits_len_sample: "bits_len 0x8b95c1e3ea8bd6e7 = 64"
  by (simp add: bits_len.simps)

lemma log2fix_not_floor:
  "log2fix 0x8b95c1e3ea8bd6e7 = Some 0x3f1fffffff \<and>
   \<lfloor>2 ^ 32 * log 2 (real (unat (0x8b95c1e3ea8bd6e7 :: u64)))\<rfloor> = 0x3f20000000"
proof -
  let ?x = "0x8b95c1e3ea8bd6e7 :: u64"
  have u: "unat ?x = 0x8b95c1e3ea8bd6e7" by simp
  have "?x \<noteq> 0" by simp
  from log2fix_value(1) [OF this, unfolded u bits_len_sample] obtain v where
    v: "log2fix ?x = Some v" "unat v = 63 * 2 ^ 32 + frac_bits 32 0x8b95c1e3ea8bd6e7" by auto
  have w: "unat v = 0x3f1fffffff" using v(2) by (simp add: frac_bits_sample)
  have "v = of_nat (unat v)" by simp
  then have "v = 0x3f1fffffff" unfolding w by simp
  moreover have "505 \<le> 8 * log 2 (real (unat ?x))"
  proof -
    have "log 2 (2 ^ 505) \<le> log 2 (real (unat ?x) ^ 8)" by (intro log_le_cancel_iff [THEN iffD2]) (simp_all add: u)
    moreover have "log 2 (real (unat ?x) ^ 8) = 8 * log 2 (real (unat ?x))"
      using log_nat_power [of "real (unat ?x)" 2 8] by (simp only: u)
    moreover have "log 2 ((2 :: real) ^ 505) = 505" using log_nat_power [of "2 :: real" 2 505] by simp
    ultimately show ?thesis by linarith
  qed
  then have "63 * 2 ^ 32 + 2 ^ 29 \<le> 2 ^ 32 * log 2 (real (unat ?x))" by simp
  moreover have "2 ^ 32 * log 2 (real (unat ?x)) < 0x3f1fffffff + 1 + 1 / 2 ^ 30"
    using log2fix_near [OF v(1)] w by simp
  ultimately show ?thesis using v(1) by (simp add: floor_eq_iff)
qed

end
