(* ===== verification/Ticket_Msg.thy ===== *)
theory Ticket_Msg
  imports Cbor_Record
begin

text \<open>The structs of \<^verbatim>\<open>crates/ticket/src/lib.rs\<close>, as records with their schemas.\<close>

text \<open>\<^verbatim>\<open>Member\<close>\<close>

record ticket_member =
  tm_id :: "bytes option"
  tm_addrs :: "bytes list"

definition ticket_member_schema :: schema where
  "ticket_member_schema = Schema ''ticket.Member''
    [Fld 0 TBytesOpt ''[]uint8'' False,
     Fld 1 TTextList ''[]string'' True]"

definition ticket_member_vals :: "ticket_member \<Rightarrow> fval list" where
  "ticket_member_vals x =
    [VBytesOpt (tm_id x),
     VTextList (tm_addrs x)]"

definition ticket_member_of_vals :: "fval list \<Rightarrow> ticket_member" where
  "ticket_member_of_vals vs =
    \<lparr>tm_id = get_bytes_opt (vs ! 0),
     tm_addrs = get_text_list (vs ! 1)\<rparr>"

lemma ticket_member_levels: "schema_levels ticket_member_schema = 2"
  by (simp add: ticket_member_schema_def)

interpretation ticket_member_rec: cbor_record ticket_member_schema ticket_member_vals ticket_member_of_vals
proof
  show "ticket_member_of_vals (ticket_member_vals x) = x" for x
    by (cases x) (simp add: ticket_member_of_vals_def ticket_member_vals_def)
  show "schema_ok ticket_member_schema \<and> schema_levels ticket_member_schema \<le> 32"
    by (simp add: ticket_member_schema_def ascending_keys del: sorted_wrt.simps)
qed

text \<open>\<^verbatim>\<open>Ticket\<close>\<close>

record ticket =
  tk_cluster_id :: "bytes option"
  tk_incarnation :: u64
  tk_members :: "ticket_member list option"

definition ticket_schema :: schema where
  "ticket_schema = Schema ''ticket.Ticket''
    [Fld 0 TBytesOpt ''[]uint8'' False,
     Fld 1 TU64 ''uint64'' False,
     Fld 2 (TStructsOpt ticket_member_schema) ''[]ticket.Member'' False]"

definition ticket_vals :: "ticket \<Rightarrow> fval list" where
  "ticket_vals x =
    [VBytesOpt (tk_cluster_id x),
     VUint (tk_incarnation x),
     VStructsOpt (map_option (map ticket_member_vals) (tk_members x))]"

definition ticket_of_vals :: "fval list \<Rightarrow> ticket" where
  "ticket_of_vals vs =
    \<lparr>tk_cluster_id = get_bytes_opt (vs ! 0),
     tk_incarnation = get_uint (vs ! 1),
     tk_members = get_structs_opt ticket_member_of_vals (vs ! 2)\<rparr>"

lemma ticket_levels: "schema_levels ticket_schema = 4"
  by (simp add: ticket_schema_def ticket_member_levels)

interpretation ticket_rec: cbor_record ticket_schema ticket_vals ticket_of_vals
proof
  show "ticket_of_vals (ticket_vals x) = x" for x
    by (cases x) (simp add: ticket_of_vals_def ticket_vals_def comp_def option.map_comp option.map_ident list.map_comp ticket_member_rec.of_vals_vals)
  show "schema_ok ticket_schema \<and> schema_levels ticket_schema \<le> 32"
    using ticket_member_rec.schema_fits
    by (simp add: ticket_schema_def ascending_keys ticket_member_levels del: sorted_wrt.simps)
qed

end
