(* ===== verification/Encodings.thy ===== *)
theory Encodings
  imports Prelude
begin

text \<open>
  \<^verbatim>\<open>crates/gocompat/src/hex.rs\<close>, \<^verbatim>\<open>base32.rs\<close> and \<^verbatim>\<open>fmt.rs\<close>: the hexadecimal and base32 encodings of Go,
  with Go's decoding loops. Decoding what was encoded returns the bytes, for every input and for any
  base32 alphabet of 32 distinct ASCII symbols.
\<close>

section \<open>Hexadecimal\<close>

definition HEXTABLE :: bytes where "HEXTABLE = map of_char ''0123456789abcdef''"

definition hex_encode :: "bytes \<Rightarrow> bytes" where
  "hex_encode b = concat (map (\<lambda>c. [HEXTABLE ! unat (drop_bit 4 c), HEXTABLE ! unat (c AND 0x0f)]) b)"

definition hex_lower :: "bytes \<Rightarrow> bytes" where
  "hex_lower b = concat (map (\<lambda>c. [HEXTABLE ! unat (drop_bit 4 c), HEXTABLE ! unat (c AND 0x0f)]) b)"

datatype hex_error = OddLength | InvalidByte byte

text \<open>The byte literals \<^verbatim>\<open>b'0'\<close>, \<^verbatim>\<open>b'9'\<close>, \<^verbatim>\<open>b'a'\<close>, \<^verbatim>\<open>b'f'\<close>, \<^verbatim>\<open>b'A'\<close>, \<^verbatim>\<open>b'F'\<close> are 0x30, 0x39, 0x61, 0x66, 0x41, 0x46.\<close>

definition nibble :: "byte \<Rightarrow> byte option" where
  "nibble c =
     (if 0x30 \<le> c \<and> c \<le> 0x39 then Some (c - 0x30)
      else if 0x61 \<le> c \<and> c \<le> 0x66 then Some (c - 0x61 + 10)
      else if 0x41 \<le> c \<and> c \<le> 0x46 then Some (c - 0x41 + 10)
      else None)"

fun decode_string :: "bytes \<Rightarrow> (hex_error, bytes) outcome" where
  "decode_string (p # q # rest) = (case nibble p of
     None \<Rightarrow> Err (InvalidByte p)
   | Some a \<Rightarrow> (case nibble q of
       None \<Rightarrow> Err (InvalidByte q)
     | Some b \<Rightarrow> obind (decode_string rest) (\<lambda>out. Ok ((push_bit 4 a OR b) # out))))"
| "decode_string [c] = (if nibble c = None then Err (InvalidByte c) else Err OddLength)"
| "decode_string [] = Ok []"

definition latin1_is_print :: "byte \<Rightarrow> bool" where
  "latin1_is_print b \<longleftrightarrow> 0x20 \<le> b \<and> b \<le> 0x7e \<or> b \<ge> 0xa1 \<and> b \<noteq> 0xad"

text \<open>\<^verbatim>\<open>fmt_u\<close>: the text in UTF-8, where \<^verbatim>\<open>char::from(b)\<close> takes two bytes from 0x80 on.\<close>

definition UPPER_HEXTABLE :: bytes where "UPPER_HEXTABLE = map of_char ''0123456789ABCDEF''"

definition latin1_utf8 :: "byte \<Rightarrow> bytes" where
  "latin1_utf8 b = (if b < 0x80 then [b] else [0xc0 OR drop_bit 6 b, 0x80 OR (b AND 0x3f)])"

definition fmt_u :: "byte \<Rightarrow> bytes" where
  "fmt_u b = map of_char ''U+00'' @ [UPPER_HEXTABLE ! unat (drop_bit 4 b), UPPER_HEXTABLE ! unat (b AND 0x0f)] @
     (if latin1_is_print b then [0x20, 0x27] @ latin1_utf8 b @ [0x27] else [])"

lemma unat_nibbles: "unat (drop_bit 4 (c :: byte)) < 16" "unat (c AND 0x0f) < 16"
proof -
  have "c AND 0x0f = take_bit 4 c" using take_bit_eq_mask [of 4 c] by (simp add: mask_eq_exp_minus_1)
  then have "unat (c AND 0x0f) = take_bit 4 (unat c)" by (metis unsigned_take_bit_eq)
  then show "unat (c AND 0x0f) < 16" using take_bit_nat_less_exp [of 4 "unat c"] by simp
  have "unat c < 256" by (rule order.strict_trans2 [OF unsigned_less]) simp
  then have "unat c div 2 ^ 4 < 16" by simp
  moreover have "unat (drop_bit 4 c) = unat c div 2 ^ 4" unfolding unat_drop_bit_eq by (rule drop_bit_eq_div)
  ultimately show "unat (drop_bit 4 c) < 16" by simp
qed

lemma nibble_table: "n < 16 \<Longrightarrow> nibble (HEXTABLE ! n) = Some (of_nat n)"
proof -
  have "list_all (\<lambda>n. nibble (HEXTABLE ! n) = Some (of_nat n)) [0..<16]" by code_simp
  then show "n < 16 \<Longrightarrow> ?thesis" by (simp add: list_all_iff)
qed

lemma nibbles_join: "push_bit 4 (drop_bit 4 c) OR c AND 0x0f = (c :: byte)"
proof -
  have m: "c AND 0x0f = take_bit 4 c" using take_bit_eq_mask [of 4 c] by (simp add: mask_eq_exp_minus_1)
  show ?thesis by (rule bit_word_eqI) (auto simp: m bit_simps)
qed

lemma hex_decode_encode: "decode_string (hex_encode b) = Ok b"
  by (induction b) (simp_all add: hex_encode_def nibble_table unat_nibbles nibbles_join)

lemma hex_encode_length [simp]: "length (hex_encode b) = 2 * length b"
  by (induction b) (simp_all add: hex_encode_def)

section \<open>Base32\<close>

definition STD_ALPHABET :: bytes where "STD_ALPHABET = map of_char ''ABCDEFGHIJKLMNOPQRSTUVWXYZ234567''"
definition ZBASE32_ALPHABET :: bytes where "ZBASE32_ALPHABET = map of_char ''ybndrfg8ejkmcpqxot1uwisza345h769''"

abbreviation NO_PADDING_BYTE :: byte where "NO_PADDING_BYTE \<equiv> 0xff"
abbreviation INVALID_INDEX :: byte where "INVALID_INDEX \<equiv> 0xff"

text \<open>The table starts with \<^verbatim>\<open>INVALID_INDEX\<close> everywhere; a later symbol overwrites an earlier one.\<close>

fun decode_map_from :: "byte \<Rightarrow> bytes \<Rightarrow> (byte \<Rightarrow> byte) \<Rightarrow> byte \<Rightarrow> byte" where
  "decode_map_from i [] tab = tab"
| "decode_map_from i (c # cs) tab = decode_map_from (i + 1) cs (tab(c := i))"

definition decode_map :: "bytes \<Rightarrow> byte \<Rightarrow> byte" where
  "decode_map alphabet = decode_map_from 0 alphabet (\<lambda>_. INVALID_INDEX)"

text \<open>
  Go's padding check, over the bytes after the padding byte: the first of the \<^verbatim>\<open>7 - j\<close> that is there and is
  not a padding byte.
\<close>

fun bad_padding :: "nat \<Rightarrow> nat \<Rightarrow> bytes \<Rightarrow> nat option" where
  "bad_padding k 0 src = None"
| "bad_padding k (Suc n) [] = None"
| "bad_padding k (Suc n) (c # src) = (if c \<noteq> NO_PADDING_BYTE then Some k else bad_padding (k + 1) n src)"

text \<open>The inner loop of \<^verbatim>\<open>decode_nopad\<close> from symbol \<open>j\<close> on: \<^verbatim>\<open>dlen\<close>, \<^verbatim>\<open>end\<close>, \<^verbatim>\<open>dbuf\<close> and the rest of the input.\<close>

function read_quantum :: "(byte \<Rightarrow> byte) \<Rightarrow> nat \<Rightarrow> nat \<Rightarrow> bytes \<Rightarrow> bytes \<Rightarrow> (nat, nat \<times> bool \<times> bytes \<times> bytes) outcome" where
  "read_quantum tab olen j dbuf src =
     (if j \<ge> 8 then Ok (8, False, dbuf, src)
      else case src of
        [] \<Rightarrow> Ok (j, True, dbuf, [])
      | c # rest \<Rightarrow>
          if c = NO_PADDING_BYTE \<and> j \<ge> 2 \<and> length rest < 8 then
            (if length rest + j < 8 - 1 then Err olen
             else case bad_padding 0 (8 - 1 - j) rest of
               Some k \<Rightarrow> Err (olen - length rest + k - 1)
             | None \<Rightarrow>
                 if j = 1 \<or> j = 3 \<or> j = 6 then Err (olen - length rest - 1)
                 else Ok (j, True, dbuf, rest))
          else if tab c = INVALID_INDEX then Err (olen - length rest - 1)
          else read_quantum tab olen (j + 1) (dbuf[j := tab c]) rest)"
  by pat_completeness auto
termination by (relation "measure (\<lambda>(tab, olen, j, dbuf, src). 8 - j)") auto

declare read_quantum.simps [simp del]

definition quantum_len :: "nat \<Rightarrow> nat" where
  "quantum_len dlen = (if dlen = 8 then 5 else if dlen = 7 then 4 else if dlen = 5 then 3
     else if dlen = 4 then 2 else if dlen = 2 then 1 else 0)"

definition quantum_bytes :: "nat \<Rightarrow> bytes \<Rightarrow> bytes" where
  "quantum_bytes dlen d = take (quantum_len dlen)
     [push_bit 3 (d ! 0) OR drop_bit 2 (d ! 1),
      push_bit 6 (d ! 1) OR push_bit 1 (d ! 2) OR drop_bit 4 (d ! 3),
      push_bit 4 (d ! 3) OR drop_bit 1 (d ! 4),
      push_bit 7 (d ! 4) OR push_bit 2 (d ! 5) OR drop_bit 3 (d ! 6),
      push_bit 5 (d ! 6) OR d ! 7]"

lemma read_quantum_shorter:
  "read_quantum tab olen j dbuf src = Ok (dlen, e, d, rest) \<Longrightarrow> length rest \<le> length src \<and> (j < 8 \<longrightarrow> src \<noteq> [] \<longrightarrow> length rest < length src)"
proof (induction tab olen j dbuf src rule: read_quantum.induct)
  case (1 tab olen j dbuf src)
  show ?case
  proof (cases "j \<ge> 8 \<or> src = []")
    case True
    with "1.prems" show ?thesis by (auto simp: read_quantum.simps [of tab olen j dbuf src] split: if_splits)
  next
    case False
    then obtain c r where s: "src = c # r" by (cases src) auto
    show ?thesis
    proof (cases "c = NO_PADDING_BYTE \<and> j \<ge> 2 \<and> length r < 8 \<or> tab c = INVALID_INDEX")
      case True
      with False s "1.prems" show ?thesis
        by (auto simp: read_quantum.simps [of tab olen j dbuf "c # r"] split: if_splits option.splits)
    next
      case go: False
      with False s "1.prems" have "read_quantum tab olen (j + 1) (dbuf[j := tab c]) r = Ok (dlen, e, d, rest)"
        by (auto simp: read_quantum.simps [of tab olen j dbuf "c # r"] split: if_splits)
      with "1.IH" [OF _ s] False go s show ?thesis by fastforce
    qed
  qed
qed

function decode_loop :: "(byte \<Rightarrow> byte) \<Rightarrow> nat \<Rightarrow> bytes \<Rightarrow> (nat, bytes) outcome" where
  "decode_loop tab olen src =
     (if src = [] then Ok []
      else case read_quantum tab olen 0 (replicate 8 0) src of
        Ok (dlen, fin, d, rest) \<Rightarrow>
          (if fin then Ok (quantum_bytes dlen d)
           else obind (decode_loop tab olen rest) (\<lambda>out. Ok (quantum_bytes dlen d @ out)))
      | Err e \<Rightarrow> Err e
      | Stuck \<Rightarrow> Stuck)"
  by pat_completeness auto
termination
  by (relation "measure (\<lambda>(tab, olen, src). length src)") (auto dest: read_quantum_shorter)

declare decode_loop.simps [simp del]

definition decode_nopad :: "bytes \<Rightarrow> bytes \<Rightarrow> (nat, bytes) outcome" where
  "decode_nopad alphabet s =
     (let src = filter (\<lambda>b. b \<noteq> 0x0d \<and> b \<noteq> 0x0a) s in decode_loop (decode_map alphabet) (length src) src)"

definition symbol :: "bytes \<Rightarrow> u32 \<Rightarrow> byte" where
  "symbol alphabet v = alphabet ! unat (v AND 0x1f)"

definition block_symbols :: "byte \<Rightarrow> byte \<Rightarrow> byte \<Rightarrow> byte \<Rightarrow> byte \<Rightarrow> u32 list" where
  "block_symbols q0 q1 q2 q3 q4 =
     (let hi = push_bit 24 (ucast q0) OR push_bit 16 (ucast q1) OR push_bit 8 (ucast q2) OR ucast q3 :: u32;
          lo = push_bit 8 hi OR ucast q4
      in [drop_bit 27 hi, drop_bit 22 hi, drop_bit 17 hi, drop_bit 12 hi, drop_bit 7 hi, drop_bit 2 hi, drop_bit 5 lo, lo])"

text \<open>
  The symbols of the last one to four bytes: \<open>val\<close> collects the bytes from the last to the first, and a byte
  that is not there leaves \<open>val\<close> and the symbols of \<open>dst\<close> at zero.
\<close>

definition tail_symbols :: "bytes \<Rightarrow> u32 list" where
  "tail_symbols rem =
     (let v4 = (if length rem \<ge> 4 then ucast (rem ! 3) else 0);
          v3 = (if length rem \<ge> 3 then v4 OR push_bit 8 (ucast (rem ! 2)) else v4);
          v2 = (if length rem \<ge> 2 then v3 OR push_bit 16 (ucast (rem ! 1)) else v3);
          v1 = v2 OR push_bit 24 (ucast (rem ! 0));
          dst = [drop_bit 27 v1, drop_bit 22 v1, drop_bit 17 v2, drop_bit 12 v2, drop_bit 7 v3, drop_bit 2 v4,
                 push_bit 3 v4, 0]
      in take ((length rem * 8 + 4) div 5) dst)"

fun encode_nopad :: "bytes \<Rightarrow> bytes \<Rightarrow> bytes" where
  "encode_nopad alphabet (q0 # q1 # q2 # q3 # q4 # b) =
     map (symbol alphabet) (block_symbols q0 q1 q2 q3 q4) @ encode_nopad alphabet b"
| "encode_nopad alphabet [] = []"
| "encode_nopad alphabet rem = map (symbol alphabet) (tail_symbols rem)"

subsection \<open>Decoding what was encoded\<close>

definition good_alphabet :: "bytes \<Rightarrow> bool" where
  "good_alphabet alph \<longleftrightarrow> list_all (\<lambda>n. decode_map alph (alph ! n) = of_nat n \<and> alph ! n < 0x80 \<and>
     alph ! n \<noteq> 0x0d \<and> alph ! n \<noteq> 0x0a) [0..<32]"

lemma good_alphabets: "good_alphabet STD_ALPHABET" "good_alphabet ZBASE32_ALPHABET"
  by code_simp+

lemma unat_and_1f: "unat ((v :: u32) AND 0x1f) < 32"
proof -
  have "v AND 0x1f = take_bit 5 v" using take_bit_eq_mask [of 5 v] by (simp add: mask_eq_exp_minus_1)
  then have "unat (v AND 0x1f) = take_bit 5 (unat v)" by (metis unsigned_take_bit_eq)
  then show ?thesis using take_bit_nat_less_exp [of 5 "unat v"] by simp
qed

lemma symbol_decodes:
  assumes "good_alphabet alph"
  shows "decode_map alph (symbol alph v) = ucast (v AND 0x1f)" "symbol alph v \<noteq> 0xff"
    "symbol alph v \<noteq> 0x0d" "symbol alph v \<noteq> 0x0a"
proof -
  have g: "decode_map alph (symbol alph v) = of_nat (unat (v AND 0x1f)) \<and> symbol alph v < 0x80 \<and>
    symbol alph v \<noteq> 0x0d \<and> symbol alph v \<noteq> 0x0a"
    using assms unat_and_1f [of v] by (simp add: good_alphabet_def list_all_iff symbol_def)
  then show "decode_map alph (symbol alph v) = ucast (v AND 0x1f)" by simp
  show "symbol alph v \<noteq> 0xff" using g by auto
  show "symbol alph v \<noteq> 0x0d" "symbol alph v \<noteq> 0x0a" using g by auto
qed

lemma read_quantum_symbols:
  assumes "good_alphabet alph"
  shows "\<lbrakk>length dbuf = 8; j + length vs \<le> 8\<rbrakk> \<Longrightarrow>
    read_quantum (decode_map alph) olen j dbuf (map (symbol alph) vs @ rest) =
    read_quantum (decode_map alph) olen (j + length vs)
      (take j dbuf @ map (\<lambda>v. ucast (v AND 0x1f)) vs @ drop (j + length vs) dbuf) rest"
proof (induction vs arbitrary: j dbuf)
  case Nil
  then show ?case by simp
next
  case (Cons v vs)
  let ?w = "ucast (v AND 0x1f) :: byte"
  have w: "?w \<noteq> INVALID_INDEX"
  proof
    assume "?w = INVALID_INDEX"
    then have "bit ?w 5 = bit INVALID_INDEX 5" by simp
    then show False by (simp add: bit_simps)
  qed
  have "read_quantum (decode_map alph) olen j dbuf (map (symbol alph) (v # vs) @ rest) =
    read_quantum (decode_map alph) olen (j + 1) (dbuf[j := ?w]) (map (symbol alph) vs @ rest)"
    using Cons.prems w by (simp add: read_quantum.simps [of _ _ j] symbol_decodes [OF assms])
  also have "\<dots> = read_quantum (decode_map alph) olen (j + 1 + length vs)
      (take (j + 1) (dbuf[j := ?w]) @ map (\<lambda>v. ucast (v AND 0x1f)) vs @ drop (j + 1 + length vs) (dbuf[j := ?w])) rest"
    using Cons.prems by (intro Cons.IH) auto
  also have "take (j + 1) (dbuf[j := ?w]) = take j dbuf @ [?w]"
    using Cons.prems by (simp add: take_Suc_conv_app_nth)
  finally show ?case using Cons.prems by simp
qed

lemma read_quantum_block:
  assumes "good_alphabet alph" "length vs = 8"
  shows "read_quantum (decode_map alph) olen 0 (replicate 8 0) (map (symbol alph) vs @ rest) =
    Ok (8, False, map (\<lambda>v. ucast (v AND 0x1f)) vs, rest)"
  using assms by (simp add: read_quantum_symbols read_quantum.simps [of _ _ 8])

lemma read_quantum_tail:
  assumes "good_alphabet alph" "length vs < 8"
  shows "read_quantum (decode_map alph) olen 0 (replicate 8 0) (map (symbol alph) vs) =
    Ok (length vs, True, map (\<lambda>v. ucast (v AND 0x1f)) vs @ replicate (8 - length vs) 0, [])"
proof -
  have "read_quantum (decode_map alph) olen 0 (replicate 8 0) (map (symbol alph) vs @ []) =
    read_quantum (decode_map alph) olen (length vs) (map (\<lambda>v. ucast (v AND 0x1f)) vs @ replicate (8 - length vs) 0) []"
    using assms by (subst read_quantum_symbols) auto
  also have "\<dots> = Ok (length vs, True, map (\<lambda>v. ucast (v AND 0x1f)) vs @ replicate (8 - length vs) 0, [])"
    using assms by (simp add: read_quantum.simps)
  finally show ?thesis by simp
qed

lemma and_1f: "(v :: u32) AND 0x1f = take_bit 5 v"
  using take_bit_eq_mask [of 5 v] by (simp add: mask_eq_exp_minus_1)

lemma byte_bit_high: "8 \<le> n \<Longrightarrow> \<not> bit (b :: byte) n"
  using bit_imp_le_length [of b n] by auto

lemma bit_times_2: "bit (x * 2 :: byte) n \<longleftrightarrow> 1 \<le> n \<and> n < 8 \<and> bit x (n - 1)"
proof -
  have "x * 2 = push_bit 1 x" by simp
  then show ?thesis by (simp only: bit_push_bit_iff) auto
qed

lemma byte_eqI:
  fixes a b :: byte
  assumes "bit a 0 = bit b 0" "bit a 1 = bit b 1" "bit a 2 = bit b 2" "bit a 3 = bit b 3"
    "bit a 4 = bit b 4" "bit a 5 = bit b 5" "bit a 6 = bit b 6" "bit a 7 = bit b 7"
  shows "a = b"
proof (rule bit_word_eqI)
  fix n assume "n < LENGTH(8)"
  then consider "n = 0" | "n = 1" | "n = 2" | "n = 3" | "n = 4" | "n = 5" | "n = 6" | "n = 7" by fastforce
  then show "bit a n = bit b n" by cases (simp_all only: assms)
qed

lemma block_bytes:
  "quantum_bytes 8 (map (\<lambda>v. ucast (v AND 0x1f)) (block_symbols q0 q1 q2 q3 q4)) = [q0, q1, q2, q3, q4]"
proof -
  define hi :: u32 where "hi = push_bit 24 (ucast q0) OR push_bit 16 (ucast q1) OR push_bit 8 (ucast q2) OR ucast q3"
  define lo :: u32 where "lo = push_bit 8 hi OR ucast q4"
  let ?u = "\<lambda>v :: u32. ucast (v AND 0x1f) :: byte"
  note b = and_1f hi_def lo_def bit_simps byte_bit_high bit_times_2
  have "push_bit 3 (?u (drop_bit 27 hi)) OR drop_bit 2 (?u (drop_bit 22 hi)) = q0"
    by (rule byte_eqI; simp add: b)
  moreover have "push_bit 6 (?u (drop_bit 22 hi)) OR push_bit 1 (?u (drop_bit 17 hi)) OR drop_bit 4 (?u (drop_bit 12 hi)) = q1"
    by (rule byte_eqI; simp add: b)
  moreover have "push_bit 4 (?u (drop_bit 12 hi)) OR drop_bit 1 (?u (drop_bit 7 hi)) = q2"
    by (rule byte_eqI; simp add: b)
  moreover have "push_bit 7 (?u (drop_bit 7 hi)) OR push_bit 2 (?u (drop_bit 2 hi)) OR drop_bit 3 (?u (drop_bit 5 lo)) = q3"
    by (rule byte_eqI; simp add: b)
  moreover have "push_bit 5 (?u (drop_bit 5 lo)) OR ?u lo = q4"
    by (rule byte_eqI; simp add: b)
  moreover have "block_symbols q0 q1 q2 q3 q4 = [drop_bit 27 hi, drop_bit 22 hi, drop_bit 17 hi, drop_bit 12 hi,
      drop_bit 7 hi, drop_bit 2 hi, drop_bit 5 lo, lo]"
    by (simp add: block_symbols_def hi_def lo_def)
  ultimately show ?thesis by (simp add: quantum_bytes_def quantum_len_def)
qed

lemma tail_bytes_1: "quantum_bytes 2 (map (\<lambda>v. ucast (v AND 0x1f)) (tail_symbols [a]) @ replicate 6 0) = [a]"
proof -
  note b = and_1f bit_simps byte_bit_high bit_times_2
  define v1 :: u32 where "v1 = push_bit 24 (ucast a)"
  let ?u = "\<lambda>v :: u32. ucast (v AND 0x1f) :: byte"
  have "push_bit 3 (?u (drop_bit 27 v1)) OR drop_bit 2 (?u (drop_bit 22 v1)) = a"
    by (rule byte_eqI; simp add: b v1_def)
  then show ?thesis by (simp add: quantum_bytes_def quantum_len_def tail_symbols_def Let_def v1_def)
qed

lemma tail_bytes_2: "quantum_bytes 4 (map (\<lambda>v. ucast (v AND 0x1f)) (tail_symbols [a, b]) @ replicate 4 0) = [a, b]"
proof -
  define v2 :: u32 where "v2 = push_bit 16 (ucast b)"
  define v1 :: u32 where "v1 = v2 OR push_bit 24 (ucast a)"
  let ?u = "\<lambda>v :: u32. ucast (v AND 0x1f) :: byte"
  note b = and_1f bit_simps byte_bit_high bit_times_2 v1_def v2_def
  have "push_bit 3 (?u (drop_bit 27 v1)) OR drop_bit 2 (?u (drop_bit 22 v1)) = a"
    by (rule byte_eqI; simp add: b)
  moreover have "push_bit 6 (?u (drop_bit 22 v1)) OR push_bit 1 (?u (drop_bit 17 v2)) OR drop_bit 4 (?u (drop_bit 12 v2)) = b"
    by (rule byte_eqI; simp add: b)
  ultimately show ?thesis by (simp add: quantum_bytes_def quantum_len_def tail_symbols_def Let_def v1_def v2_def)
qed

lemma tail_bytes_3: "quantum_bytes 5 (map (\<lambda>v. ucast (v AND 0x1f)) (tail_symbols [a, b, c]) @ replicate 3 0) = [a, b, c]"
proof -
  define v3 :: u32 where "v3 = push_bit 8 (ucast c)"
  define v2 :: u32 where "v2 = v3 OR push_bit 16 (ucast b)"
  define v1 :: u32 where "v1 = v2 OR push_bit 24 (ucast a)"
  let ?u = "\<lambda>v :: u32. ucast (v AND 0x1f) :: byte"
  note b = and_1f bit_simps byte_bit_high bit_times_2 v1_def v2_def v3_def
  have "push_bit 3 (?u (drop_bit 27 v1)) OR drop_bit 2 (?u (drop_bit 22 v1)) = a"
    by (rule byte_eqI; simp add: b)
  moreover have "push_bit 6 (?u (drop_bit 22 v1)) OR push_bit 1 (?u (drop_bit 17 v2)) OR drop_bit 4 (?u (drop_bit 12 v2)) = b"
    by (rule byte_eqI; simp add: b)
  moreover have "push_bit 4 (?u (drop_bit 12 v2)) OR drop_bit 1 (?u (drop_bit 7 v3)) = c"
    by (rule byte_eqI; simp add: b)
  ultimately show ?thesis by (simp add: quantum_bytes_def quantum_len_def tail_symbols_def Let_def v1_def v2_def v3_def)
qed

lemma tail_bytes_4: "quantum_bytes 7 (map (\<lambda>v. ucast (v AND 0x1f)) (tail_symbols [a, b, c, d]) @ replicate (Suc 0) 0) = [a, b, c, d]"
proof -
  define v4 :: u32 where "v4 = ucast d"
  define v3 :: u32 where "v3 = v4 OR push_bit 8 (ucast c)"
  define v2 :: u32 where "v2 = v3 OR push_bit 16 (ucast b)"
  define v1 :: u32 where "v1 = v2 OR push_bit 24 (ucast a)"
  let ?u = "\<lambda>v :: u32. ucast (v AND 0x1f) :: byte"
  note b = and_1f bit_simps byte_bit_high bit_times_2 v1_def v2_def v3_def v4_def
  have "push_bit 3 (?u (drop_bit 27 v1)) OR drop_bit 2 (?u (drop_bit 22 v1)) = a"
    by (rule byte_eqI; simp add: b)
  moreover have "push_bit 6 (?u (drop_bit 22 v1)) OR push_bit 1 (?u (drop_bit 17 v2)) OR drop_bit 4 (?u (drop_bit 12 v2)) = b"
    by (rule byte_eqI; simp add: b)
  moreover have "push_bit 4 (?u (drop_bit 12 v2)) OR drop_bit 1 (?u (drop_bit 7 v3)) = c"
    by (rule byte_eqI; simp add: b)
  moreover have "push_bit 7 (?u (drop_bit 7 v3)) OR push_bit 2 (?u (drop_bit 2 v4)) OR drop_bit 3 (?u (push_bit 3 v4)) = d"
    by (rule byte_eqI; simp add: b)
  ultimately show ?thesis
    by (simp add: quantum_bytes_def quantum_len_def tail_symbols_def Let_def v1_def v2_def v3_def v4_def)
qed

lemmas tail_bytes = tail_bytes_1 tail_bytes_2 tail_bytes_3 tail_bytes_4

lemma tail_symbols_length: "rem \<noteq> [] \<Longrightarrow> length rem < 5 \<Longrightarrow> length (tail_symbols rem) = (length rem * 8 + 4) div 5"
  by (auto simp: tail_symbols_def Let_def)

lemma decode_block:
  assumes "good_alphabet alph"
  shows "decode_loop (decode_map alph) olen (map (symbol alph) (block_symbols q0 q1 q2 q3 q4) @ src) =
    obind (decode_loop (decode_map alph) olen src) (\<lambda>out. Ok ([q0, q1, q2, q3, q4] @ out))"
proof -
  have l: "length (block_symbols q0 q1 q2 q3 q4) = 8" by (simp add: block_symbols_def Let_def)
  then have "map (symbol alph) (block_symbols q0 q1 q2 q3 q4) @ src \<noteq> []" by auto
  then show ?thesis by (subst decode_loop.simps) (simp add: read_quantum_block [OF assms l] block_bytes del: append_is_Nil_conv)
qed

lemma decode_tail:
  assumes "good_alphabet alph" "rem \<noteq> []" "length rem < 5"
    "quantum_bytes (length (tail_symbols rem))
      (map (\<lambda>v. ucast (v AND 0x1f)) (tail_symbols rem) @ replicate (8 - length (tail_symbols rem)) 0) = rem"
  shows "decode_loop (decode_map alph) olen (map (symbol alph) (tail_symbols rem)) = Ok rem"
proof -
  have l: "length (tail_symbols rem) = (length rem * 8 + 4) div 5" by (rule tail_symbols_length) fact+
  have "0 < length (tail_symbols rem)" "length (tail_symbols rem) < 8"
    using assms(2,3) unfolding l length_greater_0_conv [symmetric] by linarith+
  then show ?thesis using assms(4)
    by (subst decode_loop.simps) (auto simp: read_quantum_tail [OF assms(1)])
qed

lemma decode_loop_encode:
  assumes "good_alphabet alph"
  shows "decode_loop (decode_map alph) olen (encode_nopad alph b) = Ok b"
  using assms
proof (induction alph b rule: encode_nopad.induct)
  case (1 alphabet q0 q1 q2 q3 q4 b)
  then show ?case by (simp add: decode_block)
next
  case (2 alphabet)
  show ?case by (simp add: decode_loop.simps)
qed (simp_all add: decode_tail tail_symbols_length tail_bytes del: replicate.simps)

lemma encode_nopad_symbols: "good_alphabet alph \<Longrightarrow> c \<in> set (encode_nopad alph b) \<Longrightarrow> \<exists>v. c = symbol alph v"
  by (induction alph b rule: encode_nopad.induct) auto

lemma base32_decode_encode:
  assumes "good_alphabet alph"
  shows "decode_nopad alph (encode_nopad alph b) = Ok b"
proof -
  have "filter (\<lambda>b. b \<noteq> 0x0d \<and> b \<noteq> 0x0a) (encode_nopad alph b) = encode_nopad alph b"
    using encode_nopad_symbols [OF assms] symbol_decodes(3,4) [OF assms] by (intro filter_True) metis
  then show ?thesis by (simp add: decode_nopad_def decode_loop_encode [OF assms])
qed

end
