(* ===== verification/Strings.thy ===== *)
theory Strings
  imports Encodings
begin

text \<open>
  \<^verbatim>\<open>crates/gocompat/src/strings.rs\<close> and \<^verbatim>\<open>is_space\<close> of \<^verbatim>\<open>quote.rs\<close>: Go's UTF-8 decoding and the string
  functions built on it. A rune is its code point. The case tables of \<^verbatim>\<open>tables.rs\<close> are generated data and a
  parameter, a record of two association lists; ASCII text never consults them.
\<close>

type_synonym rune = u32

record case_tables =
  TO_LOWER :: "(rune \<times> rune) list"
  TO_UPPER :: "(rune \<times> rune) list"

definition RUNE_ERROR :: rune where "RUNE_ERROR = 0xfffd"
definition UTF_MAX :: nat where "UTF_MAX = 4"

section \<open>The standard library's characters\<close>

definition from_u32 :: "u32 \<Rightarrow> rune option" where
  "from_u32 v = (if 0xd800 \<le> v \<and> v \<le> 0xdfff \<or> v > 0x10ffff then None else Some v)"

definition encode_utf8 :: "rune \<Rightarrow> bytes" where
  "encode_utf8 c =
     (if c < 0x80 then [ucast c]
      else if c < 0x800 then [0xc0 OR ucast (drop_bit 6 c), 0x80 OR (ucast c AND 0x3f)]
      else if c < 0x10000 then
        [0xe0 OR ucast (drop_bit 12 c), 0x80 OR (ucast (drop_bit 6 c) AND 0x3f), 0x80 OR (ucast c AND 0x3f)]
      else [0xf0 OR ucast (drop_bit 18 c), 0x80 OR (ucast (drop_bit 12 c) AND 0x3f),
            0x80 OR (ucast (drop_bit 6 c) AND 0x3f), 0x80 OR (ucast c AND 0x3f)])"

definition is_ascii :: "bytes \<Rightarrow> bool" where "is_ascii s \<longleftrightarrow> list_all (\<lambda>b. b < 0x80) s"

definition ascii_lower :: "byte \<Rightarrow> byte" where
  "ascii_lower b = (if 0x41 \<le> b \<and> b \<le> 0x5a then b + 0x20 else b)"

definition ascii_upper :: "byte \<Rightarrow> byte" where
  "ascii_upper b = (if 0x61 \<le> b \<and> b \<le> 0x7a then b - 0x20 else b)"

definition rune_lower :: "rune \<Rightarrow> rune" where
  "rune_lower r = (if 0x41 \<le> r \<and> r \<le> 0x5a then r + 0x20 else r)"

definition rune_upper :: "rune \<Rightarrow> rune" where
  "rune_upper r = (if 0x61 \<le> r \<and> r \<le> 0x7a then r - 0x20 else r)"

section \<open>UTF-8\<close>

text \<open>The length of a sequence and the range of its second byte.\<close>

definition first_byte :: "byte \<Rightarrow> (nat \<times> byte \<times> byte) option" where
  "first_byte b0 =
     (if 0xc2 \<le> b0 \<and> b0 \<le> 0xdf then Some (2, 0x80, 0xbf)
      else if b0 = 0xe0 then Some (3, 0xa0, 0xbf)
      else if 0xe1 \<le> b0 \<and> b0 \<le> 0xec \<or> 0xee \<le> b0 \<and> b0 \<le> 0xef then Some (3, 0x80, 0xbf)
      else if b0 = 0xed then Some (3, 0x80, 0x9f)
      else if b0 = 0xf0 then Some (4, 0x90, 0xbf)
      else if 0xf1 \<le> b0 \<and> b0 \<le> 0xf3 then Some (4, 0x80, 0xbf)
      else if b0 = 0xf4 then Some (4, 0x80, 0x8f)
      else None)"

definition cont_byte :: "byte \<Rightarrow> bool" where "cont_byte b \<longleftrightarrow> 0x80 \<le> b \<and> b \<le> 0xbf"

definition rune_value :: "nat \<Rightarrow> byte \<Rightarrow> byte \<Rightarrow> byte \<Rightarrow> bytes \<Rightarrow> u32 option" where
  "rune_value sz lo hi b0 rest =
     (let second = (\<lambda>b. lo \<le> b \<and> b \<le> hi) in
      case rest of
        b1 # r1 \<Rightarrow>
          if sz = 2 then
            (if second b1 then Some (push_bit 6 (ucast (b0 AND 0x1f)) OR ucast (b1 AND 0x3f)) else None)
          else (case r1 of
            b2 # r2 \<Rightarrow>
              if sz = 3 then
                (if second b1 \<and> cont_byte b2
                 then Some (push_bit 12 (ucast (b0 AND 0x0f)) OR push_bit 6 (ucast (b1 AND 0x3f)) OR ucast (b2 AND 0x3f))
                 else None)
              else (case r2 of
                b3 # _ \<Rightarrow>
                  if sz = 4 \<and> second b1 \<and> cont_byte b2 \<and> cont_byte b3
                  then Some (push_bit 18 (ucast (b0 AND 0x07)) OR push_bit 12 (ucast (b1 AND 0x3f)) OR
                             push_bit 6 (ucast (b2 AND 0x3f)) OR ucast (b3 AND 0x3f))
                  else None
              | [] \<Rightarrow> None)
          | [] \<Rightarrow> None)
      | [] \<Rightarrow> None)"

fun decode_rune :: "bytes \<Rightarrow> rune \<times> nat" where
  "decode_rune [] = (RUNE_ERROR, 0)"
| "decode_rune (b0 # rest) =
     (if b0 < 0x80 then (ucast b0, 1)
      else case first_byte b0 of
        None \<Rightarrow> (RUNE_ERROR, 1)
      | Some (sz, lo, hi) \<Rightarrow> (case rune_value sz lo hi b0 rest of
          None \<Rightarrow> (RUNE_ERROR, 1)
        | Some v \<Rightarrow> (case from_u32 v of
            Some c \<Rightarrow> (c, sz)
          | None \<Rightarrow> (RUNE_ERROR, 1))))"

definition rune_start :: "byte \<Rightarrow> bool" where "rune_start b \<longleftrightarrow> b AND 0xc0 \<noteq> 0x80"

definition rposition :: "('a \<Rightarrow> bool) \<Rightarrow> 'a list \<Rightarrow> nat option" where
  "rposition P xs = (case filter (\<lambda>i. P (xs ! i)) [0..<length xs] of [] \<Rightarrow> None | is \<Rightarrow> Some (last is))"

definition decode_last_rune :: "bytes \<Rightarrow> rune \<times> nat" where
  "decode_last_rune s =
     (if s = [] then (RUNE_ERROR, 0)
      else let end = length s; lst = last s in
        if lst < 0x80 then (ucast lst, 1)
        else let lim = end - UTF_MAX; before = drop lim (take (end - 1) s);
               start = (case rposition rune_start before of Some p \<Rightarrow> lim + p | None \<Rightarrow> lim - 1);
               (r, sz) = decode_rune (drop start s)
             in if start + sz \<noteq> end then (RUNE_ERROR, 1) else (r, sz))"

text \<open>The items of \<^verbatim>\<open>Runes\<close> from offset \<open>off\<close> on, where \<open>s\<close> is the rest of the string.\<close>

function runes_from :: "nat \<Rightarrow> bytes \<Rightarrow> (nat \<times> rune \<times> nat) list" where
  "runes_from off s =
     (if s = [] then []
      else let (r, width) = decode_rune s in (off, r, width) # runes_from (off + max width 1) (drop (max width 1) s))"
  by pat_completeness auto
termination by (relation "measure (\<lambda>(off, s). length s)") auto

declare runes_from.simps [simp del]

definition runes :: "bytes \<Rightarrow> (nat \<times> rune \<times> nat) list" where "runes s = runes_from 0 s"

section \<open>Case\<close>

text \<open>\<^verbatim>\<open>lookup\<close>: the tables ascend strictly, so the binary search finds the entry of the rune when it has one.\<close>

definition lookup_case :: "(rune \<times> rune) list \<Rightarrow> rune \<Rightarrow> rune" where
  "lookup_case table r = (case map_of table r of Some to \<Rightarrow> to | None \<Rightarrow> r)"

definition unicode_to_lower :: "case_tables \<Rightarrow> rune \<Rightarrow> rune" where
  "unicode_to_lower tb r = (if r < 0x80 then rune_lower r else lookup_case (TO_LOWER tb) r)"

definition unicode_to_upper :: "case_tables \<Rightarrow> rune \<Rightarrow> rune" where
  "unicode_to_upper tb r = (if r < 0x80 then rune_upper r else lookup_case (TO_UPPER tb) r)"

definition map_runes :: "bytes \<Rightarrow> (rune \<Rightarrow> rune) \<Rightarrow> bytes" where
  "map_runes s mapping = concat (map (\<lambda>(_, r, _). encode_utf8 (mapping r)) (runes s))"

definition to_lower :: "case_tables \<Rightarrow> bytes \<Rightarrow> bytes" where
  "to_lower tb s = (if is_ascii s then map ascii_lower s else map_runes s (unicode_to_lower tb))"

definition to_upper :: "case_tables \<Rightarrow> bytes \<Rightarrow> bytes" where
  "to_upper tb s = (if is_ascii s then map ascii_upper s else map_runes s (unicode_to_upper tb))"

section \<open>Space\<close>

definition WHITE_SPACE :: "rune list" where
  "WHITE_SPACE = [0x0009, 0x000a, 0x000b, 0x000c, 0x000d, 0x0020, 0x0085, 0x00a0, 0x1680, 0x2000, 0x2001, 0x2002,
     0x2003, 0x2004, 0x2005, 0x2006, 0x2007, 0x2008, 0x2009, 0x200a, 0x2028, 0x2029, 0x202f, 0x205f, 0x3000]"

definition is_space :: "rune \<Rightarrow> bool" where
  "is_space r \<longleftrightarrow> (if r \<le> 0xff then r \<in> {0x09, 0x0a, 0x0b, 0x0c, 0x0d, 0x20, 0x85, 0xa0} else r \<in> set WHITE_SPACE)"

definition is_ascii_space :: "byte \<Rightarrow> bool" where
  "is_ascii_space c \<longleftrightarrow> c \<in> {0x09, 0x0a, 0x0b, 0x0c, 0x0d, 0x20}"

definition index_func :: "bytes \<Rightarrow> (rune \<Rightarrow> bool) \<Rightarrow> bool \<Rightarrow> nat option" where
  "index_func s f truth = map_option fst (find (\<lambda>(_, r, _). f r = truth) (runes s))"

function last_index_from :: "bytes \<Rightarrow> (rune \<Rightarrow> bool) \<Rightarrow> bool \<Rightarrow> nat \<Rightarrow> nat option" where
  "last_index_from s f truth i =
     (if i = 0 then None
      else let (r, sz) = decode_last_rune (take i s); i = i - max sz 1 in
        if f r = truth then Some i else last_index_from s f truth i)"
  by pat_completeness auto
termination by (relation "measure (\<lambda>(s, f, truth, i). i)") auto

declare last_index_from.simps [simp del]

definition last_index_func :: "bytes \<Rightarrow> (rune \<Rightarrow> bool) \<Rightarrow> bool \<Rightarrow> nat option" where
  "last_index_func s f truth = last_index_from s f truth (length s)"

text \<open>\<^verbatim>\<open>tail\<close> and \<^verbatim>\<open>head\<close> give the empty slice out of range.\<close>

definition slice_tail :: "bytes \<Rightarrow> nat \<Rightarrow> bytes" where "slice_tail s i = (if i \<le> length s then drop i s else [])"
definition slice_head :: "bytes \<Rightarrow> nat \<Rightarrow> bytes" where "slice_head s i = (if i \<le> length s then take i s else [])"

definition trim_left_func :: "bytes \<Rightarrow> (rune \<Rightarrow> bool) \<Rightarrow> bytes" where
  "trim_left_func s f = (case index_func s f False of Some i \<Rightarrow> slice_tail s i | None \<Rightarrow> [])"

definition trim_right_func :: "bytes \<Rightarrow> (rune \<Rightarrow> bool) \<Rightarrow> bytes" where
  "trim_right_func s f =
     slice_head s (case last_index_func s f False of Some i \<Rightarrow> i + snd (decode_rune (slice_tail s i)) | None \<Rightarrow> 0)"

definition trim_func :: "bytes \<Rightarrow> (rune \<Rightarrow> bool) \<Rightarrow> bytes" where
  "trim_func s f = trim_right_func (trim_left_func s f) f"

text \<open>The second loop of \<^verbatim>\<open>trim_space\<close>, over the first \<open>n\<close> bytes from the last one down; \<open>None\<close> when it ends.\<close>

fun trim_end :: "bytes \<Rightarrow> nat \<Rightarrow> bytes option" where
  "trim_end s 0 = None"
| "trim_end s (Suc hi) =
     (let c = s ! hi in
      if c \<ge> 0x80 then Some (trim_right_func (slice_head s (hi + 1)) is_space)
      else if \<not> is_ascii_space c then Some (slice_head s (hi + 1))
      else trim_end s hi)"

fun trim_space :: "bytes \<Rightarrow> bytes" where
  "trim_space [] = []"
| "trim_space (c # rest) =
     (if c \<ge> 0x80 then trim_func (c # rest) is_space
      else if is_ascii_space c then trim_space rest
      else case trim_end (c # rest) (length (c # rest)) of Some t \<Rightarrow> t | None \<Rightarrow> trim_space rest)"

section \<open>Fields\<close>

fun field_spans :: "(rune \<Rightarrow> bool) \<Rightarrow> (nat \<times> rune \<times> nat) list \<Rightarrow> nat option \<Rightarrow> nat \<Rightarrow> (nat \<times> nat) list" where
  "field_spans is_sep [] start len = (case start of Some st \<Rightarrow> [(st, len)] | None \<Rightarrow> [])"
| "field_spans is_sep ((end, r, w) # rs) start len =
     (if is_sep r then (case start of
        Some st \<Rightarrow> (st, end) # field_spans is_sep rs None len
      | None \<Rightarrow> field_spans is_sep rs None len)
      else (case start of
        None \<Rightarrow> field_spans is_sep rs (Some end) len
      | Some st \<Rightarrow> field_spans is_sep rs (Some st) len))"

definition get_range :: "bytes \<Rightarrow> nat \<times> nat \<Rightarrow> bytes option" where
  "get_range s = (\<lambda>(st, end). if st \<le> end \<and> end \<le> length s then Some (drop st (take end s)) else None)"

definition fields_func :: "bytes \<Rightarrow> (rune \<Rightarrow> bool) \<Rightarrow> bytes list" where
  "fields_func s is_sep = List.map_filter (get_range s) (field_spans is_sep (runes s) None (length s))"

section \<open>Decoding stays within the string\<close>

lemma rune_value_length: "rune_value sz lo hi b0 rest = Some v \<Longrightarrow> sz \<in> {2, 3, 4} \<Longrightarrow> sz \<le> Suc (length rest)"
  by (auto simp: rune_value_def Let_def split: list.splits if_splits)

lemma first_byte_sizes: "first_byte b0 = Some (sz, lo, hi) \<Longrightarrow> sz \<in> {2, 3, 4}"
  by (auto simp: first_byte_def split: if_splits)

lemma decode_rune_width:
  assumes "s \<noteq> []"
  shows "1 \<le> snd (decode_rune s) \<and> snd (decode_rune s) \<le> length s"
proof -
  obtain b0 rest where s: "s = b0 # rest" using assms by (cases s) auto
  show ?thesis
    using first_byte_sizes [of b0] rune_value_length [of _ _ _ b0 rest]
    by (fastforce simp: s split: option.splits)
qed

text \<open>The runes cut the string into consecutive pieces and lose no byte.\<close>

lemma runes_from_offset: "(i, r, w) \<in> set (runes_from off s) \<Longrightarrow> off \<le> i"
proof (induction off s rule: runes_from.induct)
  case (1 off s)
  obtain r' w' where "decode_rune s = (r', w')" by (cases "decode_rune s")
  with 1 show ?case by (subst (asm) (2) runes_from.simps) (fastforce split: if_splits)
qed

lemma runes_from_cover:
  "concat (map (\<lambda>(i, r, w). take w (drop (i - off) s)) (runes_from off s)) = s"
proof (induction off s rule: runes_from.induct)
  case (1 off s)
  show ?case
  proof (cases "s = []")
    case False
    obtain r w where rw: "decode_rune s = (r, w)" by (cases "decode_rune s")
    have w: "1 \<le> w" "w \<le> length s" using decode_rune_width [OF False] rw by simp_all
    note later = runes_from_offset [of _ _ _ "off + w" "drop w s"]
    have "concat (map (\<lambda>(i, r, w). take w (drop (i - off) s)) (runes_from (off + w) (drop w s))) =
      concat (map (\<lambda>(i, r, w'). take w' (drop (i - (off + w)) (drop w s))) (runes_from (off + w) (drop w s)))"
      using later by (intro arg_cong [where f = concat] map_cong) (auto simp: add.commute)
    then show ?thesis using 1 [OF False rw [symmetric]] False rw w
      by (subst runes_from.simps) (simp add: max_def)
  qed (simp add: runes_from.simps)
qed

section \<open>ASCII text\<close>

lemma is_ascii_simps [simp]:
  "is_ascii []" "is_ascii (c # s) \<longleftrightarrow> c < 0x80 \<and> is_ascii s" "is_ascii (s @ t) \<longleftrightarrow> is_ascii s \<and> is_ascii t"
  by (simp_all add: is_ascii_def)

lemma ascii_runes_Cons: "c < 0x80 \<Longrightarrow> runes_from off (c # s) = (off, ucast c, 1) # runes_from (off + 1) s"
  by (subst runes_from.simps) simp

lemma trim_end_ascii:
  assumes "is_ascii s" and "n \<le> length s"
  shows "trim_end s n = (if \<exists>i < n. \<not> is_ascii_space (s ! i)
    then Some (rev (dropWhile is_ascii_space (rev (take n s)))) else None)"
  using assms(2)
proof (induction n)
  case (Suc n)
  have c: "s ! n < 0x80" using assms(1) Suc.prems by (simp add: is_ascii_def list_all_length)
  have t: "take (Suc n) s = take n s @ [s ! n]" using Suc.prems by (simp add: take_Suc_conv_app_nth)
  show ?case
  proof (cases "is_ascii_space (s ! n)")
    case True
    then show ?thesis using Suc c t by (auto simp: Let_def less_Suc_eq)
  next
    case False
    then show ?thesis using Suc.prems c t by (auto simp: Let_def slice_head_def)
  qed
qed simp

lemma trim_space_ascii:
  "is_ascii s \<Longrightarrow> trim_space s = rev (dropWhile is_ascii_space (rev (dropWhile is_ascii_space s)))"
proof (induction s rule: trim_space.induct)
  case (2 c rest)
  show ?case
  proof (cases "is_ascii_space c")
    case False
    then have "\<exists>i < length (c # rest). \<not> is_ascii_space ((c # rest) ! i)" by (intro exI [of _ 0]) simp
    moreover have "\<not> c \<ge> 0x80" using "2.prems" by (simp add: not_le)
    ultimately show ?thesis using "2.prems" False trim_end_ascii [of "c # rest" "length (c # rest)"]
      by (simp del: trim_end.simps)
  qed (use 2 in auto)
qed simp

text \<open>The fields of ASCII text, one byte at a time; \<open>acc\<close> is the field that is open.\<close>

fun ascii_fields :: "(byte \<Rightarrow> bool) \<Rightarrow> bytes \<Rightarrow> bytes \<Rightarrow> bytes list" where
  "ascii_fields sep acc [] = (if acc = [] then [] else [acc])"
| "ascii_fields sep acc (c # s) =
     (if sep c then (if acc = [] then [] else [acc]) @ ascii_fields sep [] s
      else ascii_fields sep (acc @ [c]) s)"

lemma field_spans_ascii:
  assumes "is_ascii t" and "case start of None \<Rightarrow> acc = [] | Some st \<Rightarrow> st < length pre \<and> acc = drop st pre"
  shows "List.map_filter (get_range (pre @ t)) (field_spans is_sep (runes_from (length pre) t) start (length pre + length t)) =
    ascii_fields (\<lambda>b. is_sep (ucast b)) acc t"
  using assms
proof (induction t arbitrary: pre start acc)
  case Nil
  then show ?case
    by (auto simp: runes_from.simps List.map_filter_simps get_range_def split: option.splits)
next
  case (Cons c t)
  have IH: "List.map_filter (get_range (pre @ c # t)) (field_spans is_sep (runes_from (length pre + 1) t) start' (length pre + Suc (length t))) =
    ascii_fields (\<lambda>b. is_sep (ucast b)) acc' t"
    if "case start' of None \<Rightarrow> acc' = [] | Some st \<Rightarrow> st < length (pre @ [c]) \<and> acc' = drop st (pre @ [c])" for start' acc'
    using Cons.IH [of acc' "pre @ [c]" start'] Cons.prems(1) that by simp
  show ?case using Cons.prems IH [of "[]" None] IH [of "acc @ [c]" start] IH [of "[c]" "Some (length pre)"]
    by (cases start) (auto simp: ascii_runes_Cons List.map_filter_simps get_range_def)
qed

lemma fields_func_ascii: "is_ascii s \<Longrightarrow> fields_func s is_sep = ascii_fields (\<lambda>b. is_sep (ucast b)) [] s"
  using field_spans_ascii [of s "[]" "[]" None is_sep] by (simp add: fields_func_def runes_def)

end
