(* ===== verification/View_Msg.thy ===== *)
theory View_Msg
  imports Cbor_Record
begin

text \<open>
  The structs of \<^verbatim>\<open>crates/view/src/view.rs\<close>: the cluster view and its parts, as records with their
  schemas. Every struct is a \<open>cbor_record\<close>.
\<close>

text \<open>\<^verbatim>\<open>Voter\<close>\<close>

record voter =
  vo_id :: "bytes option"
  vo_since :: u64

definition voter_schema :: schema where
  "voter_schema = Schema ''view.Voter''
    [Fld 0 TBytesOpt ''[]uint8'' False,
     Fld 1 TU64 ''uint64'' False]"

definition voter_vals :: "voter \<Rightarrow> fval list" where
  "voter_vals x =
    [VBytesOpt (vo_id x),
     VUint (vo_since x)]"

definition voter_of_vals :: "fval list \<Rightarrow> voter" where
  "voter_of_vals vs =
    \<lparr>vo_id = get_bytes_opt (vs ! 0),
     vo_since = get_uint (vs ! 1)\<rparr>"

lemma voter_levels: "schema_levels voter_schema = 1"
  by (simp add: voter_schema_def)

interpretation voter_rec: cbor_record voter_schema voter_vals voter_of_vals
proof
  show "voter_of_vals (voter_vals x) = x" for x
    by (cases x) (simp add: voter_of_vals_def voter_vals_def)
  show "schema_ok voter_schema \<and> schema_levels voter_schema \<le> 32"
    by (simp add: voter_schema_def ascending_keys del: sorted_wrt.simps)
qed

text \<open>\<^verbatim>\<open>Former\<close>\<close>

record former =
  fo_id :: "bytes option"
  fo_until :: int

definition former_schema :: schema where
  "former_schema = Schema ''view.Former''
    [Fld 0 TBytesOpt ''[]uint8'' False,
     Fld 1 TInt ''int64'' False]"

definition former_vals :: "former \<Rightarrow> fval list" where
  "former_vals x =
    [VBytesOpt (fo_id x),
     VInt (fo_until x)]"

definition former_of_vals :: "fval list \<Rightarrow> former" where
  "former_of_vals vs =
    \<lparr>fo_id = get_bytes_opt (vs ! 0),
     fo_until = get_int (vs ! 1)\<rparr>"

lemma former_levels: "schema_levels former_schema = 1"
  by (simp add: former_schema_def)

interpretation former_rec: cbor_record former_schema former_vals former_of_vals
proof
  show "former_of_vals (former_vals x) = x" for x
    by (cases x) (simp add: former_of_vals_def former_vals_def)
  show "schema_ok former_schema \<and> schema_levels former_schema \<le> 32"
    by (simp add: former_schema_def ascending_keys del: sorted_wrt.simps)
qed

text \<open>\<^verbatim>\<open>DataEndpoint\<close>\<close>

record data_endpoint =
  de_id :: "bytes option"
  de_addrs :: "bytes list"

definition data_endpoint_schema :: schema where
  "data_endpoint_schema = Schema ''view.DataEndpoint''
    [Fld 0 TBytesOpt ''[]uint8'' False,
     Fld 1 TTextList ''[]string'' True]"

definition data_endpoint_vals :: "data_endpoint \<Rightarrow> fval list" where
  "data_endpoint_vals x =
    [VBytesOpt (de_id x),
     VTextList (de_addrs x)]"

definition data_endpoint_of_vals :: "fval list \<Rightarrow> data_endpoint" where
  "data_endpoint_of_vals vs =
    \<lparr>de_id = get_bytes_opt (vs ! 0),
     de_addrs = get_text_list (vs ! 1)\<rparr>"

lemma data_endpoint_levels: "schema_levels data_endpoint_schema = 2"
  by (simp add: data_endpoint_schema_def)

interpretation data_endpoint_rec: cbor_record data_endpoint_schema data_endpoint_vals data_endpoint_of_vals
proof
  show "data_endpoint_of_vals (data_endpoint_vals x) = x" for x
    by (cases x) (simp add: data_endpoint_of_vals_def data_endpoint_vals_def)
  show "schema_ok data_endpoint_schema \<and> schema_levels data_endpoint_schema \<le> 32"
    by (simp add: data_endpoint_schema_def ascending_keys del: sorted_wrt.simps)
qed

text \<open>\<^verbatim>\<open>Node\<close>\<close>

record node =
  nd_id :: "bytes option"
  nd_weight :: u32
  nd_addrs :: "bytes list"
  nd_data :: "data_endpoint list"
  nd_token :: bytes
  nd_zone :: bytes
  nd_incarnation :: u64
  nd_writable :: bool

definition node_schema :: schema where
  "node_schema = Schema ''view.Node''
    [Fld 0 TBytesOpt ''[]uint8'' False,
     Fld 1 TU32 ''uint32'' False,
     Fld 2 TTextList ''[]string'' True,
     Fld 3 (TStructs data_endpoint_schema) ''[]view.DataEndpoint'' True,
     Fld 4 TBytes ''[]uint8'' True,
     Fld 5 TText ''string'' True,
     Fld 6 TU64 ''uint64'' True,
     Fld 7 TBool ''bool'' False]"

definition node_vals :: "node \<Rightarrow> fval list" where
  "node_vals x =
    [VBytesOpt (nd_id x),
     VUint (ucast (nd_weight x)),
     VTextList (nd_addrs x),
     VStructs (map data_endpoint_vals (nd_data x)),
     VBytes (nd_token x),
     VText (nd_zone x),
     VUint (nd_incarnation x),
     VBool (nd_writable x)]"

definition node_of_vals :: "fval list \<Rightarrow> node" where
  "node_of_vals vs =
    \<lparr>nd_id = get_bytes_opt (vs ! 0),
     nd_weight = ucast (get_uint (vs ! 1)),
     nd_addrs = get_text_list (vs ! 2),
     nd_data = get_structs data_endpoint_of_vals (vs ! 3),
     nd_token = get_bytes (vs ! 4),
     nd_zone = get_text (vs ! 5),
     nd_incarnation = get_uint (vs ! 6),
     nd_writable = get_bool (vs ! 7)\<rparr>"

lemma node_levels: "schema_levels node_schema = 4"
  by (simp add: node_schema_def data_endpoint_levels)

interpretation node_rec: cbor_record node_schema node_vals node_of_vals
proof
  show "node_of_vals (node_vals x) = x" for x
    by (cases x) (simp add: node_of_vals_def node_vals_def comp_def option.map_comp option.map_ident list.map_comp data_endpoint_rec.of_vals_vals)
  show "schema_ok node_schema \<and> schema_levels node_schema \<le> 32"
    using data_endpoint_rec.schema_fits
    by (simp add: node_schema_def ascending_keys data_endpoint_levels del: sorted_wrt.simps)
qed

text \<open>\<^verbatim>\<open>Ramp\<close>\<close>

record ramp =
  ra_node :: "bytes option"
  ra_target :: u32
  ra_step :: int

definition ramp_schema :: schema where
  "ramp_schema = Schema ''view.Ramp''
    [Fld 0 TBytesOpt ''[]uint8'' False,
     Fld 1 TU32 ''uint32'' False,
     Fld 2 TInt ''int'' False]"

definition ramp_vals :: "ramp \<Rightarrow> fval list" where
  "ramp_vals x =
    [VBytesOpt (ra_node x),
     VUint (ucast (ra_target x)),
     VInt (ra_step x)]"

definition ramp_of_vals :: "fval list \<Rightarrow> ramp" where
  "ramp_of_vals vs =
    \<lparr>ra_node = get_bytes_opt (vs ! 0),
     ra_target = ucast (get_uint (vs ! 1)),
     ra_step = get_int (vs ! 2)\<rparr>"

lemma ramp_levels: "schema_levels ramp_schema = 1"
  by (simp add: ramp_schema_def)

interpretation ramp_rec: cbor_record ramp_schema ramp_vals ramp_of_vals
proof
  show "ramp_of_vals (ramp_vals x) = x" for x
    by (cases x) (simp add: ramp_of_vals_def ramp_vals_def)
  show "schema_ok ramp_schema \<and> schema_levels ramp_schema \<le> 32"
    by (simp add: ramp_schema_def ascending_keys del: sorted_wrt.simps)
qed

text \<open>\<^verbatim>\<open>Acl\<close>\<close>

record acl =
  ac_allowed :: "bytes option list"
  ac_admins :: "bytes option list"

definition acl_schema :: schema where
  "acl_schema = Schema ''view.ACL''
    [Fld 0 TBytesOptList ''[][]uint8'' True,
     Fld 1 TBytesOptList ''[][]uint8'' True]"

definition acl_vals :: "acl \<Rightarrow> fval list" where
  "acl_vals x =
    [VBytesOptList (ac_allowed x),
     VBytesOptList (ac_admins x)]"

definition acl_of_vals :: "fval list \<Rightarrow> acl" where
  "acl_of_vals vs =
    \<lparr>ac_allowed = get_bytes_opt_list (vs ! 0),
     ac_admins = get_bytes_opt_list (vs ! 1)\<rparr>"

lemma acl_levels: "schema_levels acl_schema = 2"
  by (simp add: acl_schema_def)

interpretation acl_rec: cbor_record acl_schema acl_vals acl_of_vals
proof
  show "acl_of_vals (acl_vals x) = x" for x
    by (cases x) (simp add: acl_of_vals_def acl_vals_def)
  show "schema_ok acl_schema \<and> schema_levels acl_schema \<le> 32"
    by (simp add: acl_schema_def ascending_keys del: sorted_wrt.simps)
qed

text \<open>\<^verbatim>\<open>Pending\<close>\<close>

record pending =
  pd_nodes :: "node list option"
  pd_replicas :: byte
  pd_id :: u64
  pd_participants_ack :: "bytes option list"
  pd_participants :: "bytes option list"
  pd_frozen :: bool
  pd_round :: u32
  pd_primary_done :: "bytes option list"
  pd_done :: "bytes option list"
  pd_frozen_at :: int
  pd_reason :: bytes
  pd_ramp :: "ramp option"
  pd_since :: int

definition pending_schema :: schema where
  "pending_schema = Schema ''view.Pending''
    [Fld 0 (TStructsOpt node_schema) ''[]view.Node'' False,
     Fld 1 TU8 ''uint8'' False,
     Fld 2 TU64 ''uint64'' False,
     Fld 3 TBytesOptList ''[][]uint8'' True,
     Fld 4 TBytesOptList ''[][]uint8'' True,
     Fld 5 TBool ''bool'' True,
     Fld 6 TU32 ''uint32'' True,
     Fld 7 TBytesOptList ''[][]uint8'' True,
     Fld 8 TBytesOptList ''[][]uint8'' True,
     Fld 9 TInt ''int64'' True,
     Fld 10 TText ''string'' True,
     Fld 11 (TStructPtr ramp_schema) ''view.Ramp'' True,
     Fld 12 TInt ''int64'' True]"

definition pending_vals :: "pending \<Rightarrow> fval list" where
  "pending_vals x =
    [VStructsOpt (map_option (map node_vals) (pd_nodes x)),
     VUint (ucast (pd_replicas x)),
     VUint (pd_id x),
     VBytesOptList (pd_participants_ack x),
     VBytesOptList (pd_participants x),
     VBool (pd_frozen x),
     VUint (ucast (pd_round x)),
     VBytesOptList (pd_primary_done x),
     VBytesOptList (pd_done x),
     VInt (pd_frozen_at x),
     VText (pd_reason x),
     VStructPtr (map_option ramp_vals (pd_ramp x)),
     VInt (pd_since x)]"

definition pending_of_vals :: "fval list \<Rightarrow> pending" where
  "pending_of_vals vs =
    \<lparr>pd_nodes = get_structs_opt node_of_vals (vs ! 0),
     pd_replicas = ucast (get_uint (vs ! 1)),
     pd_id = get_uint (vs ! 2),
     pd_participants_ack = get_bytes_opt_list (vs ! 3),
     pd_participants = get_bytes_opt_list (vs ! 4),
     pd_frozen = get_bool (vs ! 5),
     pd_round = ucast (get_uint (vs ! 6)),
     pd_primary_done = get_bytes_opt_list (vs ! 7),
     pd_done = get_bytes_opt_list (vs ! 8),
     pd_frozen_at = get_int (vs ! 9),
     pd_reason = get_text (vs ! 10),
     pd_ramp = get_struct_ptr ramp_of_vals (vs ! 11),
     pd_since = get_int (vs ! 12)\<rparr>"

lemma pending_levels: "schema_levels pending_schema = 6"
  by (simp add: pending_schema_def node_levels ramp_levels)

interpretation pending_rec: cbor_record pending_schema pending_vals pending_of_vals
proof
  show "pending_of_vals (pending_vals x) = x" for x
    by (cases x) (simp add: pending_of_vals_def pending_vals_def comp_def option.map_comp option.map_ident list.map_comp node_rec.of_vals_vals ramp_rec.of_vals_vals)
  show "schema_ok pending_schema \<and> schema_levels pending_schema \<le> 32"
    using node_rec.schema_fits ramp_rec.schema_fits
    by (simp add: pending_schema_def ascending_keys node_levels ramp_levels del: sorted_wrt.simps)
qed

text \<open>\<^verbatim>\<open>View\<close>\<close>

record view =
  v_cluster_id :: "bytes option"
  v_incarnation :: u64
  v_epoch :: u64
  v_version :: u64
  v_placement_epoch :: u64
  v_replicas :: byte
  v_min_replicas :: byte
  v_voters :: "voter list option"
  v_voter_sync :: int
  v_voter_sync_cursor :: bytes
  v_nodes :: "node list option"
  v_pending :: "pending option"
  v_former :: "former list"
  v_fenced :: "bytes option list"
  v_recovered_inc :: u64
  v_recovered_epoch :: u64
  v_rebalance_pause :: bool
  v_rate_cap :: u64
  v_voter_sync_target :: bytes
  v_voter_sync_add :: bool
  v_deferred_voters :: "bytes option list"
  v_acl :: "acl option"
  v_ramps :: "ramp list"
  v_remove_voters :: "bytes option list"

definition view_schema :: schema where
  "view_schema = Schema ''view.View''
    [Fld 0 TBytesOpt ''[]uint8'' False,
     Fld 1 TU64 ''uint64'' False,
     Fld 2 TU64 ''uint64'' False,
     Fld 3 TU64 ''uint64'' False,
     Fld 4 TU64 ''uint64'' False,
     Fld 5 TU8 ''uint8'' False,
     Fld 6 TU8 ''uint8'' False,
     Fld 7 (TStructsOpt voter_schema) ''[]view.Voter'' False,
     Fld 8 TInt ''int'' False,
     Fld 9 TBytes ''[]uint8'' True,
     Fld 10 (TStructsOpt node_schema) ''[]view.Node'' False,
     Fld 11 (TStructPtr pending_schema) ''view.Pending'' True,
     Fld 12 (TStructs former_schema) ''[]view.Former'' True,
     Fld 13 TBytesOptList ''[][]uint8'' True,
     Fld 14 TU64 ''uint64'' True,
     Fld 15 TU64 ''uint64'' True,
     Fld 16 TBool ''bool'' True,
     Fld 17 TU64 ''uint64'' True,
     Fld 18 TBytes ''[]uint8'' True,
     Fld 19 TBool ''bool'' True,
     Fld 20 TBytesOptList ''[][]uint8'' True,
     Fld 21 (TStructPtr acl_schema) ''view.ACL'' True,
     Fld 22 (TStructs ramp_schema) ''[]view.Ramp'' True,
     Fld 23 TBytesOptList ''[][]uint8'' True]"

definition view_vals :: "view \<Rightarrow> fval list" where
  "view_vals x =
    [VBytesOpt (v_cluster_id x),
     VUint (v_incarnation x),
     VUint (v_epoch x),
     VUint (v_version x),
     VUint (v_placement_epoch x),
     VUint (ucast (v_replicas x)),
     VUint (ucast (v_min_replicas x)),
     VStructsOpt (map_option (map voter_vals) (v_voters x)),
     VInt (v_voter_sync x),
     VBytes (v_voter_sync_cursor x),
     VStructsOpt (map_option (map node_vals) (v_nodes x)),
     VStructPtr (map_option pending_vals (v_pending x)),
     VStructs (map former_vals (v_former x)),
     VBytesOptList (v_fenced x),
     VUint (v_recovered_inc x),
     VUint (v_recovered_epoch x),
     VBool (v_rebalance_pause x),
     VUint (v_rate_cap x),
     VBytes (v_voter_sync_target x),
     VBool (v_voter_sync_add x),
     VBytesOptList (v_deferred_voters x),
     VStructPtr (map_option acl_vals (v_acl x)),
     VStructs (map ramp_vals (v_ramps x)),
     VBytesOptList (v_remove_voters x)]"

definition view_of_vals :: "fval list \<Rightarrow> view" where
  "view_of_vals vs =
    \<lparr>v_cluster_id = get_bytes_opt (vs ! 0),
     v_incarnation = get_uint (vs ! 1),
     v_epoch = get_uint (vs ! 2),
     v_version = get_uint (vs ! 3),
     v_placement_epoch = get_uint (vs ! 4),
     v_replicas = ucast (get_uint (vs ! 5)),
     v_min_replicas = ucast (get_uint (vs ! 6)),
     v_voters = get_structs_opt voter_of_vals (vs ! 7),
     v_voter_sync = get_int (vs ! 8),
     v_voter_sync_cursor = get_bytes (vs ! 9),
     v_nodes = get_structs_opt node_of_vals (vs ! 10),
     v_pending = get_struct_ptr pending_of_vals (vs ! 11),
     v_former = get_structs former_of_vals (vs ! 12),
     v_fenced = get_bytes_opt_list (vs ! 13),
     v_recovered_inc = get_uint (vs ! 14),
     v_recovered_epoch = get_uint (vs ! 15),
     v_rebalance_pause = get_bool (vs ! 16),
     v_rate_cap = get_uint (vs ! 17),
     v_voter_sync_target = get_bytes (vs ! 18),
     v_voter_sync_add = get_bool (vs ! 19),
     v_deferred_voters = get_bytes_opt_list (vs ! 20),
     v_acl = get_struct_ptr acl_of_vals (vs ! 21),
     v_ramps = get_structs ramp_of_vals (vs ! 22),
     v_remove_voters = get_bytes_opt_list (vs ! 23)\<rparr>"

lemma view_levels: "schema_levels view_schema = 7"
  by (simp add: view_schema_def voter_levels node_levels pending_levels former_levels acl_levels ramp_levels)

interpretation view_rec: cbor_record view_schema view_vals view_of_vals
proof
  show "view_of_vals (view_vals x) = x" for x
    by (cases x) (simp add: view_of_vals_def view_vals_def comp_def option.map_comp option.map_ident list.map_comp voter_rec.of_vals_vals node_rec.of_vals_vals pending_rec.of_vals_vals former_rec.of_vals_vals acl_rec.of_vals_vals ramp_rec.of_vals_vals)
  show "schema_ok view_schema \<and> schema_levels view_schema \<le> 32"
    using voter_rec.schema_fits node_rec.schema_fits pending_rec.schema_fits former_rec.schema_fits acl_rec.schema_fits ramp_rec.schema_fits
    by (simp add: view_schema_def ascending_keys voter_levels node_levels pending_levels former_levels acl_levels ramp_levels del: sorted_wrt.simps)
qed

end
