(* ===== verification/View.thy ===== *)
theory View
  imports View_Msg Ticket_Msg Placement_Correct Encodings
begin

text \<open>
  \<^verbatim>\<open>crates/view/src/view.rs\<close> and \<^verbatim>\<open>lib.rs\<close>: the operations of the cluster view. Membership, voters and
  quorums, the change check, and \<^verbatim>\<open>Placement\<close>, which pairs the placement table of the current nodes with the
  table of the pending ones. A method that may fill a cache returns the placement with it.
\<close>

section \<open>Encoding and comparing\<close>

datatype view_error = Decode decode_error | BadNodeId bytes | ChangeDropsTooMany nat int | NotMember

definition id_equal :: "bytes option \<Rightarrow> node_id \<Rightarrow> bool" where
  "id_equal b ident \<longleftrightarrow> b = Some ident"

abbreviation or_empty :: "bytes option \<Rightarrow> bytes" where
  "or_empty b \<equiv> (case b of None \<Rightarrow> [] | Some b \<Rightarrow> b)"

definition bytes_equal :: "bytes option \<Rightarrow> bytes option \<Rightarrow> bool" where
  "bytes_equal a b \<longleftrightarrow> or_empty a = or_empty b"

definition view_encode :: "append_head \<Rightarrow> view \<Rightarrow> bytes" where
  "view_encode ah v = marshal ah view_schema (view_vals v)"

definition view_decode :: "bytes \<Rightarrow> (view_error, view) outcome" where
  "view_decode b = omap_err Decode (obind (unmarshal (decode_struct view_schema) b) (\<lambda>vs. Ok (view_of_vals vs)))"

definition compare_view :: "view \<Rightarrow> u64 \<Rightarrow> u64 \<Rightarrow> ordering" where
  "compare_view v incarnation epoch = then_with (cmp (v_incarnation v) incarnation) (cmp (v_epoch v) epoch)"

section \<open>Members and voters\<close>

definition view_nodes :: "view \<Rightarrow> node list" where
  "view_nodes v = (case v_nodes v of None \<Rightarrow> [] | Some ns \<Rightarrow> ns)"

definition pending_nodes :: "view \<Rightarrow> node list" where
  "pending_nodes v = (case v_pending v of
     Some p \<Rightarrow> (case pd_nodes p of None \<Rightarrow> [] | Some ns \<Rightarrow> ns)
   | None \<Rightarrow> [])"

definition voter_list :: "view \<Rightarrow> voter list" where
  "voter_list v = (case v_voters v of None \<Rightarrow> [] | Some vs \<Rightarrow> vs)"

definition nid :: "node \<Rightarrow> node_id" where
  "nid n = from_slice_lossy (or_empty (nd_id n))"

definition zone_or_id :: "node \<Rightarrow> bytes" where
  "zone_or_id n = (if nd_zone n = [] then or_empty (nd_id n) else nd_zone n)"

definition view_node :: "view \<Rightarrow> node_id \<Rightarrow> node option" where
  "view_node v ident = find (\<lambda>n. id_equal (nd_id n) ident) (view_nodes v @ pending_nodes v)"

definition check_data :: "node list \<Rightarrow> node_id \<Rightarrow> node_id option" where
  "check_data nodes ident =
     map_option nid (find (\<lambda>n. list_ex (\<lambda>d. id_equal (de_id d) ident) (nd_data n)) nodes)"

definition data_endpoint_owner :: "view \<Rightarrow> node_id \<Rightarrow> node_id option" where
  "data_endpoint_owner v ident = (case check_data (view_nodes v) ident of
     Some o1 \<Rightarrow> Some o1
   | None \<Rightarrow> check_data (pending_nodes v) ident)"

definition is_member :: "view \<Rightarrow> node_id \<Rightarrow> bool" where
  "is_member v ident \<longleftrightarrow> view_node v ident \<noteq> None \<or> data_endpoint_owner v ident \<noteq> None"

definition is_former :: "view \<Rightarrow> node_id \<Rightarrow> bool" where
  "is_former v ident \<longleftrightarrow> list_ex (\<lambda>f. id_equal (fo_id f) ident) (v_former v)"

definition is_voter :: "view \<Rightarrow> node_id \<Rightarrow> bool" where
  "is_voter v ident \<longleftrightarrow> list_ex (\<lambda>vo. id_equal (vo_id vo) ident) (voter_list v)"

definition voter_ids :: "view \<Rightarrow> node_id list" where
  "voter_ids v = map (\<lambda>vo. from_slice_lossy (or_empty (vo_id vo))) (voter_list v)"

definition quorum :: "view \<Rightarrow> nat" where
  "quorum v = length (voter_list v) div 2 + 1"

fun all_members_loop :: "node list \<Rightarrow> node_id set \<Rightarrow> node_id list \<Rightarrow> node_id list" where
  "all_members_loop [] seen out = out"
| "all_members_loop (n # ns) seen out =
     (let i = nid n in
      if i \<in> seen then all_members_loop ns seen out
      else all_members_loop ns (insert i seen) (out @ [i]))"

definition all_members :: "view \<Rightarrow> node_id list" where
  "all_members v = all_members_loop (view_nodes v @ pending_nodes v) {} []"

section \<open>Node ids\<close>

definition to_hex :: "node_id \<Rightarrow> bytes" where
  "to_hex ident = hex_encode ident"

definition node_short :: "node_id \<Rightarrow> bytes" where
  "node_short ident = hex_encode (take 4 ident)"

definition parse_node_id :: "bytes \<Rightarrow> (view_error, node_id) outcome" where
  "parse_node_id s = (case decode_string s of
     Ok b \<Rightarrow> (if length b = 32 then Ok (from_slice_lossy b) else Err (BadNodeId s))
   | _ \<Rightarrow> Err (BadNodeId s))"

definition id_string :: "node_id \<Rightarrow> bytes" where
  "id_string ident = to_hex ident"

definition short_id :: "node_id \<Rightarrow> bytes" where
  "short_id ident = node_short ident"

definition node_short_id :: "bytes \<Rightarrow> bytes" where
  "node_short_id b = (if length b = 32 then node_short (from_slice_lossy b) else [0x3f])"

definition contains_id :: "bytes option list \<Rightarrow> node_id \<Rightarrow> bool" where
  "contains_id ids ident \<longleftrightarrow> list_ex (\<lambda>b. id_equal b ident) ids"

definition add_id :: "bytes option list \<Rightarrow> node_id \<Rightarrow> bytes option list" where
  "add_id ids ident = (if \<not> contains_id ids ident then ids @ [Some ident] else ids)"

definition ids_of :: "bytes list \<Rightarrow> node_id list" where
  "ids_of raw = map from_slice_lossy raw"

definition node_less :: "node \<Rightarrow> node \<Rightarrow> bool" where
  "node_less a b \<longleftrightarrow> or_empty (nd_id a) < or_empty (nd_id b)"

definition sort_nodes :: "node list \<Rightarrow> node list option" where
  "sort_nodes nodes = slice_sort nodes node_less"

section \<open>Changes\<close>

text \<open>The computation is in \<^verbatim>\<open>i64\<close>, where neither step can overflow.\<close>

definition default_min_replicas :: "byte \<Rightarrow> byte" where
  "default_min_replicas r0 =
     (let r = uint r0; m = r - 1; m = (if m < 2 then 2 else m); m = (if m > r then r else m) in word_of_int m)"

fun count_dropped :: "node list \<Rightarrow> node list \<Rightarrow> nat \<Rightarrow> nat" where
  "count_dropped [] target dropped = dropped"
| "count_dropped (n # current) target dropped =
     (let found = list_ex (\<lambda>t. bytes_equal (nd_id n) (nd_id t) \<and> nd_weight t > 0) target in
      count_dropped current target (if \<not> found \<and> nd_weight n > 0 then dropped + 1 else dropped))"

definition validate_change :: "node list \<Rightarrow> node list \<Rightarrow> int \<Rightarrow> bool \<Rightarrow> (view_error, unit) outcome" where
  "validate_change current target replicas force =
     (if force then Ok ()
      else let dropped = count_dropped current target 0 in
        if int dropped \<ge> replicas \<and> replicas > 0 then Err (ChangeDropsTooMany dropped replicas) else Ok ())"

fun ticket_members_loop :: "node list \<Rightarrow> ticket_member list option \<Rightarrow> ticket_member list option" where
  "ticket_members_loop [] members = members"
| "ticket_members_loop (nd # nds) members =
     (let lst = (case members of None \<Rightarrow> [] | Some l \<Rightarrow> l) @ [\<lparr>tm_id = nd_id nd, tm_addrs = nd_addrs nd\<rparr>] in
      if length lst \<ge> 4 then Some lst else ticket_members_loop nds (Some lst))"

definition ticket_from_view :: "view \<Rightarrow> ticket" where
  "ticket_from_view v =
     \<lparr>tk_cluster_id = v_cluster_id v, tk_incarnation = v_incarnation v,
      tk_members = ticket_members_loop (view_nodes v) None\<rparr>"

section \<open>Placement of a view\<close>

record view_placement =
  vp_view :: view
  vp_cur :: table
  vp_pending :: "table option"

definition placement_members :: "node list \<Rightarrow> member list" where
  "placement_members nodes = map (\<lambda>n. \<lparr>mb_id = nid n, mb_weight = nd_weight n, mb_zone = zone_or_id n\<rparr>) nodes"

definition placement_new :: "blake3 \<Rightarrow> view \<Rightarrow> view_placement" where
  "placement_new blake3 v =
     \<lparr>vp_view = v,
      vp_cur = table_new (set_new blake3 (placement_members (view_nodes v))) (unat (v_replicas v)),
      vp_pending = map_option (\<lambda>p. table_new (set_new blake3 (placement_members
        (case pd_nodes p of None \<Rightarrow> [] | Some ns \<Rightarrow> ns))) (unat (pd_replicas p))) (v_pending v)\<rparr>"

definition placement_owners :: "bytes \<Rightarrow> view_placement \<Rightarrow> node_id list option \<times> view_placement" where
  "placement_owners key p = (case owner_ids key (vp_cur p) of (ids, t) \<Rightarrow> (ids, p\<lparr>vp_cur := t\<rparr>))"

text \<open>The outer option is the panic of the table, the inner one the result of the code.\<close>

definition pending_owners :: "bytes \<Rightarrow> view_placement \<Rightarrow> node_id list option option \<times> view_placement" where
  "pending_owners key p = (case vp_pending p of
     None \<Rightarrow> (Some None, p)
   | Some t \<Rightarrow> (case owner_ids key t of (ids, t1) \<Rightarrow> (map_option Some ids, p\<lparr>vp_pending := Some t1\<rparr>)))"

definition write_set :: "bytes \<Rightarrow> view_placement \<Rightarrow> node_id list option \<times> view_placement" where
  "write_set key p = (case placement_owners key p of
     (None, p1) \<Rightarrow> (None, p1)
   | (Some out, p1) \<Rightarrow> (case pending_owners key p1 of
       (None, p2) \<Rightarrow> (None, p2)
     | (Some None, p2) \<Rightarrow> (Some out, p2)
     | (Some (Some pending), p2) \<Rightarrow> (Some (out @ filter (\<lambda>i. i \<notin> set out) pending), p2)))"

definition read_order :: "bytes \<Rightarrow> view_placement \<Rightarrow> node_id list option \<times> view_placement" where
  "read_order key p = (case rank_ids key (vp_cur p) of (v, t) \<Rightarrow>
     let p1 = p\<lparr>vp_cur := t\<rparr> in
     case v of
       None \<Rightarrow> (None, p1)
     | Some out \<Rightarrow> (case vp_pending p1 of
         None \<Rightarrow> (Some out, p1)
       | Some pt \<Rightarrow> (case rank_ids key pt of (v2, pt1) \<Rightarrow>
           (map_option (\<lambda>ids. out @ filter (\<lambda>i. i \<notin> set out) ids) v2, p1\<lparr>vp_pending := Some pt1\<rparr>))))"

definition placement_is_owner :: "bytes \<Rightarrow> node_id \<Rightarrow> view_placement \<Rightarrow> bool option \<times> view_placement" where
  "placement_is_owner key ident p = (case is_owner key ident (vp_cur p) of (b, t) \<Rightarrow> (b, p\<lparr>vp_cur := t\<rparr>))"

definition is_pending_owner :: "bytes \<Rightarrow> node_id \<Rightarrow> view_placement \<Rightarrow> bool option \<times> view_placement" where
  "is_pending_owner key ident p = (case vp_pending p of
     None \<Rightarrow> (Some False, p)
   | Some t \<Rightarrow> (case is_owner key ident t of (b, t1) \<Rightarrow> (b, p\<lparr>vp_pending := Some t1\<rparr>)))"

definition in_write_set :: "bytes \<Rightarrow> node_id \<Rightarrow> view_placement \<Rightarrow> bool option \<times> view_placement" where
  "in_write_set key ident p = (case placement_is_owner key ident p of
     (None, p1) \<Rightarrow> (None, p1)
   | (Some True, p1) \<Rightarrow> (Some True, p1)
   | (Some False, p1) \<Rightarrow> is_pending_owner key ident p1)"

end
