(* ===== verification/View_Correct.thy ===== *)
theory View_Correct
  imports View
begin

text \<open>
  What the view operations promise: views survive encoding, quorums intersect, the change check keeps an
  owner of every fully replicated key, and a placement answers from the view alone, whatever its caches hold.
\<close>

section \<open>Membership\<close>

lemma view_decode_encode:
  assumes "append_head_ok ah" and "struct_typed view_schema (view_vals v)"
  shows "view_decode (view_encode ah v) = Ok v"
  using view_rec.decode_encode [OF assms] by (simp add: view_decode_def view_encode_def)

lemma compare_view_Less:
  "compare_view v inc ep = Less \<longleftrightarrow> v_incarnation v < inc \<or> v_incarnation v = inc \<and> v_epoch v < ep"
  by (auto simp: compare_view_def cmp_def)

lemma compare_view_Equal: "compare_view v inc ep = Equal \<longleftrightarrow> v_incarnation v = inc \<and> v_epoch v = ep"
  by (auto simp: compare_view_def cmp_def)

lemma quorum_meets:
  assumes "A \<subseteq> {..<length (voter_list v)}" "B \<subseteq> {..<length (voter_list v)}"
    and "quorum v \<le> card A" "quorum v \<le> card B"
  shows "A \<inter> B \<noteq> {}"
proof
  assume "A \<inter> B = {}"
  moreover have "finite A" "finite B" using assms(1,2) by (auto intro: finite_subset)
  ultimately have "card A + card B = card (A \<union> B)" by (simp add: card_Un_disjoint)
  also have "\<dots> \<le> length (voter_list v)" using card_mono [of "{..<length (voter_list v)}" "A \<union> B"] assms(1,2) by auto
  finally show False using assms(3,4) by (simp add: quorum_def)
qed

lemma all_members_loop_spec: "all_members_loop ns seen out = out @ first_of id seen (map nid ns)"
  by (induction ns arbitrary: seen out) (auto simp: Let_def)

lemma all_members_spec: "all_members v = first_of id {} (map nid (view_nodes v @ pending_nodes v))"
  by (simp add: all_members_def all_members_loop_spec)

lemma all_members_set: "distinct (all_members v) \<and> set (all_members v) = nid ` set (view_nodes v @ pending_nodes v)"
proof -
  let ?l = "map nid (view_nodes v @ pending_nodes v)"
  have "set (first_of id {} ?l) = set ?l"
    using first_of_subset [of id "{}" ?l] first_of_complete [of _ ?l id "{}"] by auto
  then show ?thesis using first_of_distinct [of id "{}" ?l] by (simp add: all_members_spec image_Un)
qed

lemma ticket_members_loop_spec:
  "length l < 4 \<Longrightarrow> ticket_members_loop ns (Some l) =
     Some (l @ map (\<lambda>nd. \<lparr>tm_id = nd_id nd, tm_addrs = nd_addrs nd\<rparr>) (take (4 - length l) ns))"
proof (induction ns arbitrary: l)
  case (Cons n ns)
  show ?case
  proof (cases "length l = 3")
    case False
    then have "4 - length l = Suc (4 - Suc (length l))" using Cons.prems by simp
    with Cons False show ?thesis by (simp add: Let_def)
  qed (simp add: Let_def)
qed simp

section \<open>Node ids\<close>

lemma from_slice_lossy_id [simp]: "length b = 32 \<Longrightarrow> from_slice_lossy b = b"
  by (simp add: from_slice_lossy_def)

lemma from_slice_lossy_length [simp]: "length (from_slice_lossy b) = 32"
  by (simp add: from_slice_lossy_def)

lemma parse_node_id_hex: "length ident = 32 \<Longrightarrow> parse_node_id (to_hex ident) = Ok ident"
  by (simp add: parse_node_id_def to_hex_def hex_decode_encode)

lemma add_id_contains: "contains_id (add_id ids ident) i \<longleftrightarrow> contains_id ids i \<or> i = ident"
  by (auto simp: add_id_def contains_id_def list_ex_iff id_equal_def)

lemma add_id_distinct: "distinct ids \<Longrightarrow> distinct (add_id ids ident)"
  by (auto simp: add_id_def contains_id_def list_ex_iff id_equal_def)

interpretation node_order: strict_weak node_less
  by unfold_locales (auto simp: node_less_def)

section \<open>The change check\<close>

definition survives :: "node list \<Rightarrow> node \<Rightarrow> bool" where
  "survives target n \<longleftrightarrow> (\<exists>t \<in> set target. bytes_equal (nd_id n) (nd_id t) \<and> nd_weight t > 0)"

lemma count_dropped_spec:
  "count_dropped current target d = d + length (filter (\<lambda>n. \<not> survives target n \<and> nd_weight n > 0) current)"
  by (induction current arbitrary: d) (auto simp: survives_def list_ex_iff Let_def)

lemma survives_nid: "survives target n \<Longrightarrow> \<exists>t \<in> set target. nid t = nid n \<and> nd_weight t > 0"
  by (auto simp: survives_def bytes_equal_def nid_def)

lemma validate_change_spec:
  "validate_change current target replicas force =
     (let dropped = length (filter (\<lambda>n. \<not> survives target n \<and> nd_weight n > 0) current) in
      if \<not> force \<and> 0 < replicas \<and> replicas \<le> int dropped then Err (ChangeDropsTooMany dropped replicas) else Ok ())"
  by (simp add: validate_change_def count_dropped_spec Let_def)

lemma owners_survive:
  assumes "validate_change current target replicas False = Ok ()" and "0 < replicas" and "length current \<le> 2 ^ 32"
    and "owners (set_new blake3 (placement_members current)) sl (nat replicas) = Some own" and "length own = nat replicas"
  shows "\<exists>i \<in> set own. \<exists>t \<in> set target. nid t = nid (current ! unat i) \<and> nd_weight t > 0"
proof (rule ccontr)
  assume no: "\<not> ?thesis"
  let ?ms = "placement_members current" and ?lost = "\<lambda>n. \<not> survives target n \<and> nd_weight n > 0"
  have len: "length ?ms \<le> 2 ^ 32" "length ?ms = length current" using assms(3) by (simp_all add: placement_members_def)
  note o = owners_ok [OF len(1) assms(4)]
  have at: "unat i < length current \<and> nd_weight (current ! unat i) \<noteq> 0" if "i \<in> set own" for i
    using that o(2) len(2) by (auto simp: placement_members_def)
  have lost: "unat ` set own \<subseteq> {i. i < length current \<and> ?lost (current ! i)}"
    using at no survives_nid [of target] by (force simp: word_gt_0)
  have "distinct (map unat own)"
    using o(3) by (auto simp: distinct_map inj_on_def) 
  then have "card (unat ` set own) = nat replicas" using assms(5) by (metis distinct_card length_map list.set_map)
  moreover have "card {i. i < length current \<and> ?lost (current ! i)} = length (filter ?lost current)"
    by (simp add: length_filter_conv_card)
  ultimately have "nat replicas \<le> length (filter ?lost current)" using card_mono [OF _ lost] by simp
  then show False using assms(1,2) by (simp add: validate_change_spec Let_def split: if_splits)
qed

section \<open>Placements\<close>

text \<open>A table that agrees with its set answers as a fresh one.\<close>

lemma table_ids_cong: "tb_set t = tb_set t' \<Longrightarrow> table_ids t = table_ids t'"
  by (simp add: table_ids_def fun_eq_iff)

lemma owner_ids_ok:
  assumes "table_ok st r t"
  shows "fst (owner_ids key t) = fst (owner_ids key (table_new st r)) \<and> table_ok st r (snd (owner_ids key t))"
  using table_owners_ok [OF assms, of "slot key"] table_owners_ok [OF table_ok_new, of "slot key" st r]
  by (auto simp: owner_ids_def table_ok_def split: prod.splits cong: table_ids_cong)

lemma rank_ids_ok:
  assumes "table_ok st r t"
  shows "fst (rank_ids key t) = fst (rank_ids key (table_new st r)) \<and> table_ok st r (snd (rank_ids key t))"
  using table_rank_ok [OF assms, of "slot key"] table_rank_ok [OF table_ok_new, of "slot key" st r]
  by (auto simp: rank_ids_def table_ok_def split: prod.splits cong: table_ids_cong)

lemma is_owner_ok:
  assumes "table_ok st r t"
  shows "fst (is_owner key ident t) = map_option (\<lambda>ids. ident \<in> set ids) (fst (owner_ids key t)) \<and>
    table_ok st r (snd (is_owner key ident t))"
  using table_owners_ok [OF assms, of "slot key"]
  by (auto simp: is_owner_def owner_ids_def table_ids_def List.map_filter_def option.map_comp comp_def
      split: prod.splits option.splits intro!: map_option_cong)

lemma owner_ids_total: "\<exists>ids. fst (owner_ids key (table_new (set_new blake3 ms) r)) = Some ids"
proof -
  obtain idx where "rank (set_new blake3 ms) (slot key) = Some idx" using rank_total by blast
  then show ?thesis by (simp add: owner_ids_def table_owners_def table_new_def cached_def owners_def)
qed

lemma rank_ids_total: "\<exists>ids. fst (rank_ids key (table_new (set_new blake3 ms) r)) = Some ids"
proof -
  obtain idx where "rank (set_new blake3 ms) (slot key) = Some idx" using rank_total by blast
  then show ?thesis by (simp add: rank_ids_def table_rank_def table_new_def cached_def)
qed

text \<open>The answers of a view, with no caches: what every placement of the view has to give.\<close>

definition own_spec :: "blake3 \<Rightarrow> node list \<Rightarrow> byte \<Rightarrow> bytes \<Rightarrow> node_id list" where
  "own_spec blake3 nodes r key = the (fst (owner_ids key (table_new (set_new blake3 (placement_members nodes)) (unat r))))"

definition rank_spec :: "blake3 \<Rightarrow> node list \<Rightarrow> byte \<Rightarrow> bytes \<Rightarrow> node_id list" where
  "rank_spec blake3 nodes r key = the (fst (rank_ids key (table_new (set_new blake3 (placement_members nodes)) (unat r))))"

definition view_table_ok :: "blake3 \<Rightarrow> node list \<Rightarrow> byte \<Rightarrow> table \<Rightarrow> bool" where
  "view_table_ok blake3 nodes r t \<longleftrightarrow> table_ok (set_new blake3 (placement_members nodes)) (unat r) t"

lemma view_table_ops:
  assumes "view_table_ok blake3 nodes r t"
  shows "\<exists>t1. owner_ids key t = (Some (own_spec blake3 nodes r key), t1) \<and> view_table_ok blake3 nodes r t1"
    and "\<exists>t1. rank_ids key t = (Some (rank_spec blake3 nodes r key), t1) \<and> view_table_ok blake3 nodes r t1"
    and "\<exists>t1. is_owner key ident t = (Some (ident \<in> set (own_spec blake3 nodes r key)), t1) \<and> view_table_ok blake3 nodes r t1"
proof -
  note a = assms [unfolded view_table_ok_def]
  obtain os where os: "fst (owner_ids key (table_new (set_new blake3 (placement_members nodes)) (unat r))) = Some os"
    using owner_ids_total by blast
  obtain rs where rs: "fst (rank_ids key (table_new (set_new blake3 (placement_members nodes)) (unat r))) = Some rs"
    using rank_ids_total by blast
  show "\<exists>t1. owner_ids key t = (Some (own_spec blake3 nodes r key), t1) \<and> view_table_ok blake3 nodes r t1"
    using owner_ids_ok [OF a, of key] os by (cases "owner_ids key t") (simp add: own_spec_def view_table_ok_def)
  show "\<exists>t1. rank_ids key t = (Some (rank_spec blake3 nodes r key), t1) \<and> view_table_ok blake3 nodes r t1"
    using rank_ids_ok [OF a, of key] rs by (cases "rank_ids key t") (simp add: rank_spec_def view_table_ok_def)
  show "\<exists>t1. is_owner key ident t = (Some (ident \<in> set (own_spec blake3 nodes r key)), t1) \<and> view_table_ok blake3 nodes r t1"
    using is_owner_ok [OF a, of key ident] owner_ids_ok [OF a, of key] os
    by (cases "is_owner key ident t") (simp add: own_spec_def view_table_ok_def)
qed

definition pending_replicas :: "view \<Rightarrow> byte" where
  "pending_replicas v = (case v_pending v of None \<Rightarrow> 0 | Some p \<Rightarrow> pd_replicas p)"

definition placement_ok :: "blake3 \<Rightarrow> view \<Rightarrow> view_placement \<Rightarrow> bool" where
  "placement_ok blake3 v p \<longleftrightarrow> vp_view p = v \<and> view_table_ok blake3 (view_nodes v) (v_replicas v) (vp_cur p) \<and>
     (vp_pending p = None \<longleftrightarrow> v_pending v = None) \<and>
     (\<forall>t. vp_pending p = Some t \<longrightarrow> view_table_ok blake3 (pending_nodes v) (pending_replicas v) t)"

lemma placement_new_ok: "placement_ok blake3 v (placement_new blake3 v)"
  by (auto simp: placement_ok_def placement_new_def view_table_ok_def table_ok_new pending_nodes_def pending_replicas_def)

definition write_spec :: "blake3 \<Rightarrow> view \<Rightarrow> bytes \<Rightarrow> node_id list" where
  "write_spec blake3 v key =
     (let out = own_spec blake3 (view_nodes v) (v_replicas v) key in
      if v_pending v = None then out
      else out @ filter (\<lambda>i. i \<notin> set out) (own_spec blake3 (pending_nodes v) (pending_replicas v) key))"

definition read_spec :: "blake3 \<Rightarrow> view \<Rightarrow> bytes \<Rightarrow> node_id list" where
  "read_spec blake3 v key =
     (let out = rank_spec blake3 (view_nodes v) (v_replicas v) key in
      if v_pending v = None then out
      else out @ filter (\<lambda>i. i \<notin> set out) (rank_spec blake3 (pending_nodes v) (pending_replicas v) key))"

lemma placement_owners_ok:
  assumes "placement_ok blake3 v p"
  shows "\<exists>p1. placement_owners key p = (Some (own_spec blake3 (view_nodes v) (v_replicas v) key), p1) \<and> placement_ok blake3 v p1"
  using assms view_table_ops(1) [of blake3 "view_nodes v" "v_replicas v" "vp_cur p" key]
  by (auto simp: placement_owners_def placement_ok_def)

lemma pending_owners_ok:
  assumes "placement_ok blake3 v p"
  shows "\<exists>p1. pending_owners key p =
      (Some (if v_pending v = None then None else Some (own_spec blake3 (pending_nodes v) (pending_replicas v) key)), p1) \<and>
    placement_ok blake3 v p1"
proof (cases "vp_pending p")
  case None
  then show ?thesis using assms by (simp add: pending_owners_def placement_ok_def)
next
  case (Some t)
  then show ?thesis
    using assms view_table_ops(1) [of blake3 "pending_nodes v" "pending_replicas v" t key]
    by (auto simp: pending_owners_def placement_ok_def)
qed

lemma write_set_ok:
  assumes "placement_ok blake3 v p"
  shows "\<exists>p1. write_set key p = (Some (write_spec blake3 v key), p1) \<and> placement_ok blake3 v p1"
proof -
  obtain p1 where p1: "placement_owners key p = (Some (own_spec blake3 (view_nodes v) (v_replicas v) key), p1)"
    "placement_ok blake3 v p1" using placement_owners_ok [OF assms] by blast
  show ?thesis using pending_owners_ok [OF p1(2), of key] by (auto simp: write_set_def p1(1) write_spec_def Let_def)
qed

lemma read_order_ok:
  assumes "placement_ok blake3 v p"
  shows "\<exists>p1. read_order key p = (Some (read_spec blake3 v key), p1) \<and> placement_ok blake3 v p1"
proof -
  obtain t1 where t1: "rank_ids key (vp_cur p) = (Some (rank_spec blake3 (view_nodes v) (v_replicas v) key), t1)"
    "view_table_ok blake3 (view_nodes v) (v_replicas v) t1"
    using assms view_table_ops(2) [of blake3 "view_nodes v" "v_replicas v" "vp_cur p" key] by (auto simp: placement_ok_def)
  show ?thesis
  proof (cases "vp_pending p")
    case None
    then show ?thesis using assms t1 by (simp add: read_order_def placement_ok_def read_spec_def)
  next
    case (Some t)
    then show ?thesis
      using assms t1 view_table_ops(2) [of blake3 "pending_nodes v" "pending_replicas v" t key]
      by (auto simp: read_order_def placement_ok_def read_spec_def Let_def)
  qed
qed

lemma placement_is_owner_ok:
  assumes "placement_ok blake3 v p"
  shows "\<exists>p1. placement_is_owner key ident p =
      (Some (ident \<in> set (own_spec blake3 (view_nodes v) (v_replicas v) key)), p1) \<and> placement_ok blake3 v p1"
  using assms view_table_ops(3) [of blake3 "view_nodes v" "v_replicas v" "vp_cur p" key ident]
  by (auto simp: placement_is_owner_def placement_ok_def)

lemma is_pending_owner_ok:
  assumes "placement_ok blake3 v p"
  shows "\<exists>p1. is_pending_owner key ident p =
      (Some (v_pending v \<noteq> None \<and> ident \<in> set (own_spec blake3 (pending_nodes v) (pending_replicas v) key)), p1) \<and>
    placement_ok blake3 v p1"
proof (cases "vp_pending p")
  case None
  then show ?thesis using assms by (simp add: is_pending_owner_def placement_ok_def)
next
  case (Some t)
  then show ?thesis
    using assms view_table_ops(3) [of blake3 "pending_nodes v" "pending_replicas v" t key ident]
    by (auto simp: is_pending_owner_def placement_ok_def)
qed

lemma in_write_set_ok:
  assumes "placement_ok blake3 v p"
  shows "\<exists>p1. in_write_set key ident p = (Some (ident \<in> set (write_spec blake3 v key)), p1) \<and> placement_ok blake3 v p1"
proof -
  obtain p1 where p1: "placement_is_owner key ident p = (Some (ident \<in> set (own_spec blake3 (view_nodes v) (v_replicas v) key)), p1)"
    "placement_ok blake3 v p1" using placement_is_owner_ok [OF assms] by blast
  show ?thesis using p1(2) is_pending_owner_ok [OF p1(2), of key ident]
    by (cases "ident \<in> set (own_spec blake3 (view_nodes v) (v_replicas v) key)")
      (auto simp: in_write_set_def p1(1) write_spec_def Let_def)
qed

text \<open>The placements that any sequence of queries can leave behind.\<close>

inductive placement_reach :: "blake3 \<Rightarrow> view \<Rightarrow> view_placement \<Rightarrow> bool" for blake3 v where
  new: "placement_reach blake3 v (placement_new blake3 v)"
| owners: "placement_reach blake3 v p \<Longrightarrow> placement_reach blake3 v (snd (placement_owners key p))"
| pending_owners: "placement_reach blake3 v p \<Longrightarrow> placement_reach blake3 v (snd (pending_owners key p))"
| write_set: "placement_reach blake3 v p \<Longrightarrow> placement_reach blake3 v (snd (write_set key p))"
| read_order: "placement_reach blake3 v p \<Longrightarrow> placement_reach blake3 v (snd (read_order key p))"
| is_owner: "placement_reach blake3 v p \<Longrightarrow> placement_reach blake3 v (snd (placement_is_owner key ident p))"
| is_pending_owner: "placement_reach blake3 v p \<Longrightarrow> placement_reach blake3 v (snd (is_pending_owner key ident p))"
| in_write_set: "placement_reach blake3 v p \<Longrightarrow> placement_reach blake3 v (snd (in_write_set key ident p))"

inductive_cases placement_reachE: "placement_reach blake3 v p"

lemma placement_reach_ok: "placement_reach blake3 v p \<Longrightarrow> placement_ok blake3 v p"
proof (induction rule: placement_reach.induct)
  case new
  show ?case by (rule placement_new_ok)
qed (use placement_owners_ok pending_owners_ok write_set_ok read_order_ok placement_is_owner_ok is_pending_owner_ok
    in_write_set_ok in \<open>metis snd_conv\<close>)+

interpretation write_cache: transparent_cache "placement_reach blake3 v" write_set "\<lambda>key. Some (write_spec blake3 v key)" for blake3 v
proof
  fix s k assume "placement_reach blake3 v s"
  then show "fst (write_set k s) = Some (write_spec blake3 v k)" "placement_reach blake3 v (snd (write_set k s))"
    using write_set_ok [OF placement_reach_ok, of blake3 v s k] by (auto intro: placement_reach.write_set)
qed

interpretation read_cache: transparent_cache "placement_reach blake3 v" read_order "\<lambda>key. Some (read_spec blake3 v key)" for blake3 v
proof
  fix s k assume "placement_reach blake3 v s"
  then show "fst (read_order k s) = Some (read_spec blake3 v k)" "placement_reach blake3 v (snd (read_order k s))"
    using read_order_ok [OF placement_reach_ok, of blake3 v s k] by (auto intro: placement_reach.read_order)
qed

section \<open>Who is in the answers\<close>

lemma placement_members_simps [simp]:
  "length (placement_members nodes) = length nodes" "map mb_id (placement_members nodes) = map nid nodes"
  by (simp_all add: placement_members_def comp_def)

lemma rank_spec_mset: "length nodes \<le> 2 ^ 32 \<Longrightarrow> mset (rank_spec blake3 nodes r key) = mset (map nid nodes)"
proof -
  assume len: "length nodes \<le> 2 ^ 32"
  let ?ms = "placement_members nodes"
  have len': "length ?ms \<le> 2 ^ 32" using len by simp
  obtain idx where idx: "rank (set_new blake3 ?ms) (slot key) = Some idx" using rank_total by blast
  have "rank_spec blake3 nodes r key = map mb_id (map (\<lambda>i. ?ms ! unat i) idx)"
    using rank_ids_new [OF len' idx] by (simp add: rank_spec_def)
  then have "mset (rank_spec blake3 nodes r key) = image_mset mb_id (mset (map (\<lambda>i. ?ms ! unat i) idx))" by (simp only: mset_map)
  also have "\<dots> = mset (map mb_id ?ms)" unfolding rank_members(1) [OF len' idx] by (simp only: mset_map)
  finally show ?thesis by simp
qed

lemma own_spec_owners:
  assumes "length nodes \<le> 2 ^ 32" and "owners (set_new blake3 (placement_members nodes)) (slot key) (unat r) = Some own"
  shows "own_spec blake3 nodes r key = map (\<lambda>i. nid (nodes ! unat i)) own"
proof -
  let ?ms = "placement_members nodes"
  have len: "length ?ms \<le> 2 ^ 32" using assms(1) by simp
  have b: "\<forall>i \<in> set own. unat i < length nodes" using owners_ok(2) [OF len assms(2)] by simp
  have "own_spec blake3 nodes r key = map mb_id (map (\<lambda>i. ?ms ! unat i) own)"
    using assms(2) b
    by (simp add: own_spec_def owner_ids_def table_owners_def table_new_def cached_def table_ids_map set_new_def)
  also have "\<dots> = map (\<lambda>i. nid (nodes ! unat i)) own" using b by (auto simp: placement_members_def)
  finally show ?thesis .
qed

lemma own_spec_weighted:
  assumes "length nodes \<le> 2 ^ 32"
  shows "length (own_spec blake3 nodes r key) \<le> unat r \<and>
    set (own_spec blake3 nodes r key) \<subseteq> nid ` {n \<in> set nodes. nd_weight n > 0}"
proof -
  let ?ms = "placement_members nodes"
  have len: "length ?ms \<le> 2 ^ 32" using assms by simp
  obtain idx where "rank (set_new blake3 ?ms) (slot key) = Some idx" using rank_total by blast
  then obtain own where own: "owners (set_new blake3 ?ms) (slot key) (unat r) = Some own" by (simp add: owners_def)
  note o = owners_ok(1,2) [OF len own]
  have "\<forall>i \<in> set own. unat i < length nodes \<and> nd_weight (nodes ! unat i) > 0"
    using o(2) by (auto simp: placement_members_def word_gt_0)
  with o(1) show ?thesis by (auto simp: own_spec_owners [OF assms own])
qed

lemma read_spec_members:
  assumes "length (view_nodes v) \<le> 2 ^ 32" "length (pending_nodes v) \<le> 2 ^ 32"
  shows "set (read_spec blake3 v key) = set (all_members v)"
proof -
  have "set (rank_spec blake3 (view_nodes v) r key) = nid ` set (view_nodes v)"
    "set (rank_spec blake3 (pending_nodes v) r key) = nid ` set (pending_nodes v)" for r
    using rank_spec_mset [OF assms(1)] rank_spec_mset [OF assms(2)] by (metis list.set_map mset_eq_setD)+
  moreover have "v_pending v = None \<Longrightarrow> pending_nodes v = []" by (simp add: pending_nodes_def)
  ultimately show ?thesis using all_members_set [of v] by (auto simp: read_spec_def Let_def)
qed

lemma write_spec_subset_read:
  assumes "length (view_nodes v) \<le> 2 ^ 32" "length (pending_nodes v) \<le> 2 ^ 32"
  shows "set (write_spec blake3 v key) \<subseteq> set (read_spec blake3 v key)"
proof -
  have "set (own_spec blake3 (view_nodes v) r key) \<subseteq> nid ` set (view_nodes v)"
    "set (own_spec blake3 (pending_nodes v) r key) \<subseteq> nid ` set (pending_nodes v)" for r
    using own_spec_weighted [OF assms(1), of blake3 r key] own_spec_weighted [OF assms(2), of blake3 r key] by auto
  then have "set (write_spec blake3 v key) \<subseteq> nid ` set (view_nodes v) \<union> nid ` set (pending_nodes v)"
    by (auto simp: write_spec_def Let_def subset_iff)
  then show ?thesis using read_spec_members [OF assms] all_members_set [of v] by auto
qed

section \<open>Replicas\<close>

lemma default_min_replicas_value: "unat (default_min_replicas r) = min (unat r) (max (unat r - 1) 2)"
proof -
  have "list_all (\<lambda>n. unat (default_min_replicas (of_nat n)) = min n (max (n - 1) 2)) [0..<256]" by code_simp
  moreover have "unat r < 256" using unsigned_less [of r] by simp
  ultimately have "unat (default_min_replicas (of_nat (unat r))) = min (unat r) (max (unat r - 1) 2)"
    by (simp only: list_all_iff set_upt) (meson atLeastLessThan_iff zero_le)
  then show ?thesis by simp
qed

end
