(* ===== verification/Ticket.thy ===== *)
theory Ticket
  imports Ticket_Msg Strings View_Correct
begin

text \<open>
  \<^verbatim>\<open>crates/ticket/src/lib.rs\<close>: tickets as text and the parsing of node ids. The curve check of
  \<^verbatim>\<open>is_valid_public_key\<close> belongs to another crate and is the parameter \<open>valid_key\<close>; the Unicode case tables
  are the parameter \<open>tb\<close>.
\<close>

definition PREFIX :: bytes where "PREFIX = ascii ''dstore1''"
definition PUBLIC_KEY_SIZE :: nat where "PUBLIC_KEY_SIZE = 32"

datatype key_error = KeyHex | KeyBase32 | KeyLength | KeyData | Z32 key_error

datatype ticket_error = TicketEmpty | TicketBase32 nat | TicketCbor decode_error | NoMembers | NotId bytes key_error

definition ticket_encode :: "append_head \<Rightarrow> ticket \<Rightarrow> bytes" where
  "ticket_encode ah t =
     PREFIX @ map ascii_lower (encode_nopad STD_ALPHABET (marshal ah ticket_schema (ticket_vals t)))"

definition ticket_members :: "ticket \<Rightarrow> ticket_member list" where
  "ticket_members t = (case tk_members t of None \<Rightarrow> [] | Some ms \<Rightarrow> ms)"

fun ids_loop :: "ticket_member list \<Rightarrow> bytes set \<Rightarrow> bytes list \<Rightarrow> bytes list" where
  "ids_loop [] seen ids = ids"
| "ids_loop (m # ms) seen ids =
     (let raw = or_empty (tm_id m); i = hex_encode raw in
      if length raw = PUBLIC_KEY_SIZE \<and> i \<notin> seen then ids_loop ms (insert i seen) (ids @ [i])
      else ids_loop ms seen ids)"

fun join_with :: "byte \<Rightarrow> bytes list \<Rightarrow> bytes" where
  "join_with sep [] = []"
| "join_with sep [x] = x"
| "join_with sep (x # y # xs) = x @ sep # join_with sep (y # xs)"

definition ticket_ids :: "ticket \<Rightarrow> bytes" where
  "ticket_ids t = join_with 0x2c (ids_loop (ticket_members t) {} [])"

definition copy32 :: "bytes \<Rightarrow> bytes" where
  "copy32 b = take 32 b @ replicate (32 - length b) 0"

definition decode_base32_or_hex :: "case_tables \<Rightarrow> bytes \<Rightarrow> (key_error, bytes) outcome" where
  "decode_base32_or_hex tb s =
     (if length s = PUBLIC_KEY_SIZE * 2
      then obind (omap_err (\<lambda>_. KeyHex) (decode_string s)) (\<lambda>b. Ok (copy32 b))
      else obind (omap_err (\<lambda>_. KeyBase32) (decode_nopad STD_ALPHABET (to_upper tb s))) (\<lambda>b.
        if length b \<noteq> PUBLIC_KEY_SIZE then Err KeyLength else Ok (copy32 b)))"

definition parse_public_key :: "case_tables \<Rightarrow> (bytes \<Rightarrow> bool) \<Rightarrow> bytes \<Rightarrow> (key_error, bytes) outcome" where
  "parse_public_key tb valid_key s =
     obind (decode_base32_or_hex tb s) (\<lambda>b. if \<not> valid_key b then Err KeyData else Ok b)"

definition parse_endpoint_id :: "case_tables \<Rightarrow> (bytes \<Rightarrow> bool) \<Rightarrow> bytes \<Rightarrow> (key_error, bytes) outcome" where
  "parse_endpoint_id tb valid_key s =
     omap_err (\<lambda>e. case decode_nopad ZBASE32_ALPHABET s of
         Ok b \<Rightarrow> (if length b = PUBLIC_KEY_SIZE then Z32 e else e)
       | _ \<Rightarrow> e) (parse_public_key tb valid_key s)"

definition is_field_sep :: "rune \<Rightarrow> bool" where
  "is_field_sep r \<longleftrightarrow> r \<in> {0x2c, 0x20, 0x09, 0x0a, 0x0d}"

fun parse_fields :: "case_tables \<Rightarrow> (bytes \<Rightarrow> bool) \<Rightarrow> bytes list \<Rightarrow> (ticket_error, ticket_member list) outcome" where
  "parse_fields tb valid_key [] = Ok []"
| "parse_fields tb valid_key (f # fs) =
     obind (omap_err (NotId f) (parse_endpoint_id tb valid_key (to_lower tb f))) (\<lambda>i.
     obind (parse_fields tb valid_key fs) (\<lambda>ms. Ok (\<lparr>tm_id = Some i, tm_addrs = []\<rparr> # ms)))"

definition parse_ids :: "case_tables \<Rightarrow> (bytes \<Rightarrow> bool) \<Rightarrow> bytes \<Rightarrow> (ticket_error, ticket) outcome" where
  "parse_ids tb valid_key s =
     obind (parse_fields tb valid_key (fields_func s is_field_sep)) (\<lambda>ms.
       if ms = [] then Err NoMembers
       else Ok \<lparr>tk_cluster_id = None, tk_incarnation = 0, tk_members = Some ms\<rparr>)"

definition parse_ticket :: "case_tables \<Rightarrow> (bytes \<Rightarrow> bool) \<Rightarrow> bytes \<Rightarrow> (ticket_error, ticket) outcome" where
  "parse_ticket tb valid_key s0 =
     (let s = trim_space s0 in
      if s = [] then Err TicketEmpty
      else if take (length PREFIX) (to_lower tb s) \<noteq> PREFIX then parse_ids tb valid_key s
      else let body = slice_tail s (length PREFIX) in
        obind (omap_err TicketBase32 (decode_nopad STD_ALPHABET (to_upper tb body))) (\<lambda>b.
        obind (omap_err TicketCbor (obind (unmarshal (decode_struct ticket_schema) b) (\<lambda>vs. Ok (ticket_of_vals vs)))) (\<lambda>t.
          if ticket_members t = [] then Err NoMembers else Ok t)))"

section \<open>Tickets survive their text\<close>

text \<open>What the encoders print: symbols of the base32 alphabet in lower case and hexadecimal digits.\<close>

lemma lower_std_symbol:
  "ascii_upper (ascii_lower (symbol STD_ALPHABET v)) = symbol STD_ALPHABET v \<and>
   ascii_lower (symbol STD_ALPHABET v) < 0x80 \<and> \<not> is_ascii_space (ascii_lower (symbol STD_ALPHABET v))"
proof -
  have "list_all (\<lambda>n. ascii_upper (ascii_lower (STD_ALPHABET ! n)) = STD_ALPHABET ! n \<and>
    ascii_lower (STD_ALPHABET ! n) < 0x80 \<and> \<not> is_ascii_space (ascii_lower (STD_ALPHABET ! n))) [0..<32]"
    by code_simp
  then show ?thesis using unat_and_1f [of v] by (simp add: list_all_iff symbol_def)
qed

lemma trim_space_solid:
  "is_ascii s \<Longrightarrow> list_all (\<lambda>b. \<not> is_ascii_space b) s \<Longrightarrow> trim_space s = s"
proof -
  assume a: "is_ascii s" "list_all (\<lambda>b. \<not> is_ascii_space b) s"
  have d: "dropWhile is_ascii_space t = t" if "list_all (\<lambda>b. \<not> is_ascii_space b) t" for t
    using that by (cases t) auto
  show ?thesis using a d [of s] d [of "rev s"] by (simp add: trim_space_ascii)
qed

lemma prefix_facts:
  "is_ascii PREFIX" "list_all (\<lambda>b. \<not> is_ascii_space b) PREFIX" "map ascii_lower PREFIX = PREFIX" "PREFIX \<noteq> []"
  by (code_simp+)

lemma parse_encode:
  assumes "append_head_ok ah" and "struct_typed ticket_schema (ticket_vals t)" and "ticket_members t \<noteq> []"
  shows "parse_ticket tb valid_key (ticket_encode ah t) = Ok t"
proof -
  let ?m = "marshal ah ticket_schema (ticket_vals t)"
  let ?e = "encode_nopad STD_ALPHABET ?m"
  let ?body = "map ascii_lower ?e" and ?s = "ticket_encode ah t"
  have sym: "\<exists>v. c = symbol STD_ALPHABET v" if "c \<in> set ?e" for c
    using that by (rule encode_nopad_symbols [OF good_alphabets(1)])
  have body: "is_ascii ?body" "list_all (\<lambda>b. \<not> is_ascii_space b) ?body" "map ascii_upper ?body = ?e"
    using sym lower_std_symbol by (fastforce simp: is_ascii_def list_all_iff intro: map_idI)+
  have s: "?s = PREFIX @ ?body" by (simp add: ticket_encode_def)
  have ascii: "is_ascii ?s" using body(1) prefix_facts(1) by (simp add: s)
  have trim: "trim_space ?s = ?s" using ascii body(2) prefix_facts(2) by (intro trim_space_solid) (simp_all add: s)
  have low: "take (length PREFIX) (to_lower tb ?s) = PREFIX"
    using ascii prefix_facts(3) by (simp add: to_lower_def s)
  have "to_upper tb (slice_tail ?s (length PREFIX)) = ?e"
    using body by (simp add: slice_tail_def s to_upper_def)
  moreover have "obind (unmarshal (decode_struct ticket_schema) ?m) (\<lambda>vs. Ok (ticket_of_vals vs)) = Ok t"
    by (rule ticket_rec.decode_encode [OF assms(1,2)])
  ultimately show ?thesis
    using prefix_facts(4) assms(3) trim low
    by (simp add: parse_ticket_def Let_def base32_decode_encode [OF good_alphabets(1)]) (auto simp: s)
qed

lemma parse_has_members:
  assumes "parse_ticket tb valid_key s = Ok t"
  shows "ticket_members t \<noteq> []"
  using assms by (auto simp: parse_ticket_def parse_ids_def Let_def ticket_members_def split: if_splits)

section \<open>Lists of node ids\<close>

text \<open>The ids of a ticket: the 32-byte ones, each once, in order.\<close>

definition valid_ids :: "ticket \<Rightarrow> bytes list" where
  "valid_ids t = first_of id {} (filter (\<lambda>b. length b = PUBLIC_KEY_SIZE) (map (\<lambda>m. or_empty (tm_id m)) (ticket_members t)))"

lemma hex_encode_inject: "hex_encode a = hex_encode b \<longleftrightarrow> a = b"
  using hex_decode_encode [of a] hex_decode_encode [of b] by (metis outcome.inject(1))

lemma hex_encode_Nil [simp]: "hex_encode b = [] \<longleftrightarrow> b = []"
  by (cases b) (simp_all add: hex_encode_def)

lemma ids_loop_spec:
  "ids_loop ms (hex_encode ` seen) ids = ids @ map hex_encode (first_of id seen
     (filter (\<lambda>b. length b = PUBLIC_KEY_SIZE) (map (\<lambda>m. or_empty (tm_id m)) ms)))"
proof (induction ms arbitrary: seen ids)
  case (Cons m ms)
  let ?raw = "or_empty (tm_id m)"
  have e: "hex_encode ?raw \<in> hex_encode ` seen \<longleftrightarrow> ?raw \<in> seen" by (auto simp: hex_encode_inject)
  show ?case using e Cons.IH [of seen ids] Cons.IH [of "insert ?raw seen" "ids @ [hex_encode ?raw]"]
    by (simp add: Let_def)
qed simp

lemma hex_char: "c \<in> set (hex_encode b) \<Longrightarrow>
  c < 0x80 \<and> \<not> is_ascii_space c \<and> \<not> is_field_sep (ucast c) \<and> ascii_lower c = c \<and> c \<noteq> 0x73 \<and> c \<noteq> 0x2c"
proof -
  have t: "list_all (\<lambda>c. c < 0x80 \<and> \<not> is_ascii_space c \<and> \<not> is_field_sep (ucast c) \<and> ascii_lower c = c \<and> c \<noteq> 0x73 \<and> c \<noteq> 0x2c)
    HEXTABLE" by code_simp
  have l: "length HEXTABLE = 16" by code_simp
  assume "c \<in> set (hex_encode b)"
  then have "c \<in> set HEXTABLE" using unat_nibbles by (auto simp: hex_encode_def l)
  with t show ?thesis by (simp add: list_all_iff)
qed

lemma ascii_fields_run: "list_all (\<lambda>b. \<not> sep b) x \<Longrightarrow> ascii_fields sep acc (x @ s) = ascii_fields sep (acc @ x) s"
  by (induction x arbitrary: acc) auto

lemma ascii_fields_join:
  assumes "\<forall>x \<in> set xs. x \<noteq> [] \<and> list_all (\<lambda>b. \<not> sep b) x" and "sep c"
  shows "ascii_fields sep [] (join_with c xs) = xs"
  using assms
proof (induction c xs rule: join_with.induct)
  case (2 c x)
  then show ?case using ascii_fields_run [of sep x "[]" "[]"] by simp
next
  case (3 c x y xs)
  then show ?case using ascii_fields_run [of sep x "[]" "c # join_with c (y # xs)"] by simp
qed simp

lemma join_chars: "c \<in> set (join_with sep xs) \<Longrightarrow> c = sep \<or> (\<exists>x \<in> set xs. c \<in> set x)"
  by (induction sep xs rule: join_with.induct) auto

lemma join_start: "\<exists>rest. join_with sep (x # xs) = x @ rest"
  by (cases xs) auto

lemma parse_hex_id:
  assumes "length k = PUBLIC_KEY_SIZE" and "valid_key k"
  shows "parse_endpoint_id tb valid_key (to_lower tb (hex_encode k)) = Ok k"
proof -
  have "map ascii_lower (hex_encode k) = hex_encode k" "is_ascii (hex_encode k)"
    using hex_char by (auto simp: is_ascii_def list_all_iff intro: map_idI)
  then have "to_lower tb (hex_encode k) = hex_encode k" by (simp add: to_lower_def)
  moreover have "copy32 k = k" using assms(1) by (simp add: copy32_def PUBLIC_KEY_SIZE_def)
  ultimately show ?thesis
    using assms by (simp add: parse_endpoint_id_def parse_public_key_def decode_base32_or_hex_def hex_decode_encode)
qed

lemma parse_fields_hex:
  assumes "\<forall>k \<in> set ks. length k = PUBLIC_KEY_SIZE \<and> valid_key k"
  shows "parse_fields tb valid_key (map hex_encode ks) = Ok (map (\<lambda>k. \<lparr>tm_id = Some k, tm_addrs = []\<rparr>) ks)"
  using assms by (induction ks) (simp_all add: parse_hex_id)

lemma parse_ids_text:
  assumes "valid_ids t \<noteq> []" and "\<forall>k \<in> set (valid_ids t). valid_key k"
  shows "parse_ticket tb valid_key (ticket_ids t) =
    Ok \<lparr>tk_cluster_id = None, tk_incarnation = 0, tk_members = Some (map (\<lambda>k. \<lparr>tm_id = Some k, tm_addrs = []\<rparr>) (valid_ids t))\<rparr>"
proof -
  define ks where "ks = valid_ids t"
  define s where "s = ticket_ids t"
  have sz: "\<forall>k \<in> set ks. length k = PUBLIC_KEY_SIZE"
    using first_of_subset [of id "{}"] by (fastforce simp: ks_def valid_ids_def)
  have s: "s = join_with 0x2c (map hex_encode ks)"
    using ids_loop_spec [of "ticket_members t" "{}" "[]"] by (simp add: s_def ticket_ids_def ks_def valid_ids_def)
  have sep: "(0x2c :: byte) < 0x80 \<and> \<not> is_ascii_space 0x2c \<and> ascii_lower 0x2c = 0x2c" by code_simp
  have ch: "c < 0x80 \<and> \<not> is_ascii_space c \<and> ascii_lower c = c" if "c \<in> set s" for c
    using join_chars [of c "0x2c" "map hex_encode ks"] that s sep hex_char by auto
  have ascii: "is_ascii s" "list_all (\<lambda>b. \<not> is_ascii_space b) s" "map ascii_lower s = s"
    using ch by (auto simp: is_ascii_def list_all_iff intro: map_idI)
  have trim: "trim_space s = s" by (rule trim_space_solid [OF ascii(1,2)])
  have low: "to_lower tb s = s" using ascii by (simp add: to_lower_def)
  obtain k ks' where k: "ks = k # ks'" using assms(1) by (cases ks) (auto simp: ks_def)
  obtain rest where rest: "s = hex_encode k @ rest" using join_start [of "0x2c" "hex_encode k" "map hex_encode ks'"] s k by auto
  have l: "length (hex_encode k) = 64" using sz k by (simp add: PUBLIC_KEY_SIZE_def)
  have "s ! 1 = hex_encode k ! 1" using l by (simp add: rest nth_append)
  moreover have "hex_encode k ! 1 \<in> set (hex_encode k)" using l by (intro nth_mem) simp
  ultimately have s1: "s ! 1 \<noteq> 0x73" using hex_char by metis
  have p: "PREFIX ! 1 = 0x73" "length PREFIX = 7" by code_simp+
  have "take (length PREFIX) s ! 1 \<noteq> PREFIX ! 1" using s1 p by simp
  then have np: "take (length PREFIX) s \<noteq> PREFIX" by metis
  have "hex_encode k \<noteq> [] \<and> list_all (\<lambda>b. \<not> is_field_sep (ucast b)) (hex_encode k)" if "k \<in> set ks" for k
  proof -
    have "k \<noteq> []" using sz that by (force simp: PUBLIC_KEY_SIZE_def)
    then show ?thesis using hex_char [of _ k] by (auto simp: list_all_iff)
  qed
  then have "ascii_fields (\<lambda>b. is_field_sep (ucast b)) [] s = map hex_encode ks"
    unfolding s by (intro ascii_fields_join) (auto simp: is_field_sep_def)
  then have "fields_func s is_field_sep = map hex_encode ks" by (simp add: fields_func_ascii [OF ascii(1)])
  moreover have "\<forall>k \<in> set ks. length k = PUBLIC_KEY_SIZE \<and> valid_key k" using sz assms(2) ks_def by blast
  ultimately have "parse_ids tb valid_key s =
      Ok \<lparr>tk_cluster_id = None, tk_incarnation = 0, tk_members = Some (map (\<lambda>k. \<lparr>tm_id = Some k, tm_addrs = []\<rparr>) ks)\<rparr>"
    using parse_fields_hex [of ks valid_key tb] k by (simp add: parse_ids_def)
  moreover have "s \<noteq> []" using l rest by auto
  ultimately show ?thesis using trim np low unfolding s_def [symmetric] ks_def [symmetric] by (simp add: parse_ticket_def Let_def)
qed

end
