(* ===== verification/Wt_Change.thy ===== *)
theory Wt_Change
  imports Prelude "HOL-Library.List_Lexorder"
begin

text \<open>
  \<^verbatim>\<open>crates/worktree/src/change.rs\<close>: the classification of changes and the diff of two trees. The object store and
  its tree format belong to another crate and are a parameter, the record \<open>fstree\<close>: the entries of a directory
  object and the parser of keys. The recursion follows the nesting of directories and takes a bound on it.
\<close>

section \<open>Entries\<close>

definition S_IFMT :: u64 where "S_IFMT = 0xf000"
definition S_IFSOCK :: u64 where "S_IFSOCK = 0xc000"
definition S_IFLNK :: u64 where "S_IFLNK = 0xa000"
definition S_IFREG :: u64 where "S_IFREG = 0x8000"
definition S_IFBLK :: u64 where "S_IFBLK = 0x6000"
definition S_IFDIR :: u64 where "S_IFDIR = 0x4000"
definition S_IFCHR :: u64 where "S_IFCHR = 0x2000"
definition S_IFIFO :: u64 where "S_IFIFO = 0x1000"

text \<open>The fields of \<^verbatim>\<open>fstree::Entry\<close> that the program reads.\<close>

record entry =
  en_name :: bytes
  en_mode :: u64
  en_uid :: u64
  en_gid :: u64
  en_mtime :: int
  en_content_key :: bytes
  en_link_target :: bytes
  en_rdev :: "u64 list"
  en_xattrs_in :: bytes
  en_xattrs_key :: bytes

datatype change_kind = Added | Deleted | Modified | TypeChanged | ModeChanged | MetaChanged

fun kind_text :: "change_kind \<Rightarrow> string" where
  "kind_text Added = ''new''"
| "kind_text Deleted = ''deleted''"
| "kind_text Modified = ''modified''"
| "kind_text TypeChanged = ''type''"
| "kind_text ModeChanged = ''mode''"
| "kind_text MetaChanged = ''meta''"

record change =
  ch_path :: bytes
  ch_kind :: change_kind
  ch_old :: "entry option"
  ch_new :: "entry option"

definition is_dir :: "entry option \<Rightarrow> bool" where
  "is_dir e = (case e of None \<Rightarrow> False | Some e \<Rightarrow> en_mode e AND S_IFMT = S_IFDIR)"

definition same_content :: "entry \<Rightarrow> entry \<Rightarrow> bool" where
  "same_content a b =
     (let t = en_mode a AND S_IFMT in
      if t = S_IFREG then en_content_key a = en_content_key b
      else if t = S_IFLNK then en_link_target a = en_link_target b
      else if t = S_IFCHR \<or> t = S_IFBLK then en_rdev a = en_rdev b
      else True)"

definition equivalent :: "entry \<Rightarrow> entry \<Rightarrow> bool" where
  "equivalent a b \<longleftrightarrow> en_mode a AND S_IFMT = en_mode b AND S_IFMT \<and> same_content a b \<and>
     en_mode a AND 0xfff = en_mode b AND 0xfff"

definition compare_entries :: "entry \<Rightarrow> entry \<Rightarrow> change_kind option" where
  "compare_entries old new =
     (if en_mode old AND S_IFMT \<noteq> en_mode new AND S_IFMT then Some TypeChanged
      else if \<not> same_content old new then Some Modified
      else if en_mode old AND 0xfff \<noteq> en_mode new AND 0xfff then Some ModeChanged
      else if en_uid old \<noteq> en_uid new \<or> en_gid old \<noteq> en_gid new \<or> en_mtime old \<noteq> en_mtime new \<or>
         en_xattrs_in old \<noteq> en_xattrs_in new \<or> en_xattrs_key old \<noteq> en_xattrs_key new then Some MetaChanged
      else None)"

definition join_path :: "bytes \<Rightarrow> bytes \<Rightarrow> bytes" where
  "join_path pre name = (if pre = [] then name else pre @ [0x2f] @ name)"

section \<open>The diff of two trees\<close>

record ('w, 'k) fstree =
  collect_entries :: "bytes \<Rightarrow> ('w, entry list) outcome"
  key_parse :: "bytes \<Rightarrow> ('k, bytes) outcome"

datatype ('w, 'k) wt_error = Walk 'w | KeyError 'k

definition collect :: "('w, 'k) fstree \<Rightarrow> bytes \<Rightarrow> (('w, 'k) wt_error, entry list) outcome" where
  "collect fs k = omap_err Walk (collect_entries fs k)"

definition side :: "change_kind \<Rightarrow> bytes \<Rightarrow> entry \<Rightarrow> change" where
  "side k p e =
     (if k = Added then \<lparr>ch_path = p, ch_kind = k, ch_old = None, ch_new = Some e\<rparr>
      else \<lparr>ch_path = p, ch_kind = k, ch_old = Some e, ch_new = None\<rparr>)"

text \<open>The loop of \<^verbatim>\<open>expand_children\<close>: \<open>below\<close> is the recursive call on a child, with the path of the child.\<close>

fun expand_each :: "(bytes \<Rightarrow> entry \<Rightarrow> ('e, change list) outcome) \<Rightarrow> bytes \<Rightarrow> change_kind \<Rightarrow> entry list \<Rightarrow>
    ('e, change list) outcome" where
  "expand_each below p k [] = Ok []"
| "expand_each below p k (e # es) =
     (let q = join_path p (en_name e) in
      obind (below q e) (\<lambda>cs. obind (expand_each below p k es) (\<lambda>rest. Ok ((side k q e # cs) @ rest))))"

primrec expand_children :: "nat \<Rightarrow> ('w, 'k) fstree \<Rightarrow> bytes \<Rightarrow> entry \<Rightarrow> change_kind \<Rightarrow>
    (('w, 'k) wt_error, change list) outcome" where
  "expand_children 0 = (\<lambda>fs p e k. Stuck)"
| "expand_children (Suc n) = (\<lambda>fs p e k.
     if \<not> is_dir (Some e) then Ok []
     else obind (omap_err KeyError (key_parse fs (en_content_key e))) (\<lambda>key.
       obind (collect fs key) (expand_each (\<lambda>q c. expand_children n fs q c k) p k)))"

definition expand :: "nat \<Rightarrow> ('w, 'k) fstree \<Rightarrow> bytes \<Rightarrow> entry \<Rightarrow> change_kind \<Rightarrow>
    (('w, 'k) wt_error, change list) outcome" where
  "expand n fs pre e k =
     (let p = join_path pre (en_name e) in
      obind (expand_children n fs p e k) (\<lambda>cs. Ok (side k p e # cs)))"

text \<open>One common name: the change of the entry itself, what a change of type adds and removes, and the recursion.\<close>

definition diff_same :: "nat \<Rightarrow> ('w, 'k) fstree \<Rightarrow> (bytes \<Rightarrow> bytes \<Rightarrow> bytes \<Rightarrow> (('w, 'k) wt_error, change list) outcome) \<Rightarrow>
    bytes \<Rightarrow> entry \<Rightarrow> entry \<Rightarrow> (('w, 'k) wt_error, change list) outcome" where
  "diff_same n fs sub pre x y =
     (let p = join_path pre (en_name x) in
      obind (case compare_entries x y of
          None \<Rightarrow> Ok []
        | Some k \<Rightarrow>
            let c = \<lparr>ch_path = p, ch_kind = k, ch_old = Some x, ch_new = Some y\<rparr> in
            if k = TypeChanged then
              obind (expand_children n fs p x Deleted) (\<lambda>d. obind (expand_children n fs p y Added) (\<lambda>a. Ok (c # d @ a)))
            else Ok [c]) (\<lambda>own.
      obind (if is_dir (Some x) \<and> is_dir (Some y) \<and> en_content_key x \<noteq> en_content_key y then
          obind (omap_err KeyError (key_parse fs (en_content_key x))) (\<lambda>kx.
          obind (omap_err KeyError (key_parse fs (en_content_key y))) (\<lambda>ky. sub p kx ky))
        else Ok []) (\<lambda>below. Ok (own @ below))))"

fun diff_loop :: "nat \<Rightarrow> ('w, 'k) fstree \<Rightarrow> (bytes \<Rightarrow> bytes \<Rightarrow> bytes \<Rightarrow> (('w, 'k) wt_error, change list) outcome) \<Rightarrow>
    bytes \<Rightarrow> entry list \<Rightarrow> entry list \<Rightarrow> (('w, 'k) wt_error, change list) outcome" where
  "diff_loop n fs sub pre [] [] = Ok []"
| "diff_loop n fs sub pre (x # xs) [] =
     obind (expand n fs pre x Deleted) (\<lambda>cs. obind (diff_loop n fs sub pre xs []) (\<lambda>rest. Ok (cs @ rest)))"
| "diff_loop n fs sub pre [] (y # ys) =
     obind (expand n fs pre y Added) (\<lambda>cs. obind (diff_loop n fs sub pre [] ys) (\<lambda>rest. Ok (cs @ rest)))"
| "diff_loop n fs sub pre (x # xs) (y # ys) =
     (if en_name x < en_name y then
        obind (expand n fs pre x Deleted) (\<lambda>cs. obind (diff_loop n fs sub pre xs (y # ys)) (\<lambda>rest. Ok (cs @ rest)))
      else if en_name y < en_name x then
        obind (expand n fs pre y Added) (\<lambda>cs. obind (diff_loop n fs sub pre (x # xs) ys) (\<lambda>rest. Ok (cs @ rest)))
      else
        obind (diff_same n fs sub pre x y) (\<lambda>cs. obind (diff_loop n fs sub pre xs ys) (\<lambda>rest. Ok (cs @ rest))))"

primrec diff_dirs :: "nat \<Rightarrow> ('w, 'k) fstree \<Rightarrow> bytes \<Rightarrow> bytes \<Rightarrow> bytes \<Rightarrow> (('w, 'k) wt_error, change list) outcome" where
  "diff_dirs 0 = (\<lambda>fs pre a b. Stuck)"
| "diff_dirs (Suc n) = (\<lambda>fs pre a b.
     obind (collect fs a) (\<lambda>ea. obind (collect fs b) (\<lambda>eb. diff_loop n fs (diff_dirs n fs) pre ea eb)))"

definition diff_trees :: "nat \<Rightarrow> ('w, 'k) fstree \<Rightarrow> bytes \<Rightarrow> bytes \<Rightarrow> (('w, 'k) wt_error, change list) outcome" where
  "diff_trees n fs a b = (if a = b then Ok [] else diff_dirs n fs [] a b)"

section \<open>Trees as lists of paths\<close>

text \<open>
  The trees of at most \<open>n\<close> levels of directories: every directory object is there, its names ascend strictly
  (\<^verbatim>\<open>collect_entries\<close> checks this) and are path components.
\<close>

definition name_ok :: "bytes \<Rightarrow> bool" where "name_ok s \<longleftrightarrow> s \<noteq> [] \<and> 0x2f \<notin> set s"

fun tree_ok :: "nat \<Rightarrow> ('w, 'k) fstree \<Rightarrow> bytes \<Rightarrow> bool" where
  "tree_ok 0 fs k = False"
| "tree_ok (Suc n) fs k = (case collect_entries fs k of
     Ok es \<Rightarrow> sorted_wrt (<) (map en_name es) \<and> list_all (\<lambda>e. name_ok (en_name e) \<and>
       (is_dir (Some e) \<longrightarrow> (case key_parse fs (en_content_key e) of Ok k' \<Rightarrow> tree_ok n fs k' | _ \<Rightarrow> False))) es
   | _ \<Rightarrow> False)"

definition okv :: "('e, 'a) outcome \<Rightarrow> 'a" where
  "okv m = (case m of Ok x \<Rightarrow> x)"

text \<open>The tree under a key: every path with its entry, in walk order.\<close>

fun listing :: "nat \<Rightarrow> ('w, 'k) fstree \<Rightarrow> bytes \<Rightarrow> bytes \<Rightarrow> (bytes \<times> entry) list" where
  "listing 0 fs pre k = []"
| "listing (Suc n) fs pre k = concat (map (\<lambda>e.
     (join_path pre (en_name e), e) #
     (if is_dir (Some e) then listing n fs (join_path pre (en_name e)) (okv (key_parse fs (en_content_key e))) else []))
     (okv (collect_entries fs k)))"

text \<open>What a change at a path has to say, from the entries of the two trees there.\<close>

fun classify :: "entry option \<Rightarrow> entry option \<Rightarrow> change_kind option" where
  "classify None None = None"
| "classify None (Some y) = Some Added"
| "classify (Some x) None = Some Deleted"
| "classify (Some x) (Some y) = compare_entries x y"

definition correct_diff :: "(bytes \<times> entry) list \<Rightarrow> (bytes \<times> entry) list \<Rightarrow> change list \<Rightarrow> bool" where
  "correct_diff A B cs \<longleftrightarrow> distinct (map ch_path cs) \<and>
     (\<forall>p k x y. \<lparr>ch_path = p, ch_kind = k, ch_old = x, ch_new = y\<rparr> \<in> set cs \<longleftrightarrow>
        x = map_of A p \<and> y = map_of B p \<and> classify x y = Some k)"

end
