(* ===== verification/Wt_Change_Correct.thy ===== *)
theory Wt_Change_Correct
  imports Wt_Change
begin

text \<open>
  The diff of two trees lists exactly the paths where they differ, each once, with the entries of both sides and
  the kind of the change. The proof goes through the listings of the trees: the changes of two disjoint parts of
  the path space concatenate.
\<close>

section \<open>Paths\<close>

definition under :: "bytes \<Rightarrow> bytes \<Rightarrow> bool" where
  "under p q \<longleftrightarrow> q = p \<or> (\<exists>s. q = p @ 0x2f # s)"

lemma join_path_ne: "name_ok m \<Longrightarrow> join_path pre m \<noteq> []"
  by (simp add: join_path_def name_ok_def)

lemma component_unique:
  assumes "name_ok m" "name_ok n" and "u = [] \<or> hd u = 0x2f" "v = [] \<or> hd v = 0x2f" and "m @ u = n @ v"
  shows "m = n"
proof -
  have tw: "takeWhile (\<lambda>b. b \<noteq> 0x2f) (x @ w) = x" if "name_ok x" "w = [] \<or> hd w = 0x2f" for x w :: bytes
  proof -
    have "takeWhile (\<lambda>b. b \<noteq> 0x2f) w = []" using that(2) by (cases w) auto
    moreover have "takeWhile (\<lambda>b. b \<noteq> 0x2f) (x @ w) = x @ takeWhile (\<lambda>b. b \<noteq> 0x2f) w"
      using that(1) by (intro takeWhile_append2) (auto simp: name_ok_def)
    ultimately show ?thesis by simp
  qed
  show ?thesis using tw [OF assms(1,3)] tw [OF assms(2,4)] assms(5) by simp
qed

lemma under_disjoint:
  assumes "name_ok m" "name_ok n" "under (join_path pre m) q" "under (join_path pre n) q"
  shows "m = n"
proof -
  obtain u v where "q = join_path pre m @ u" "u = [] \<or> hd u = 0x2f" "q = join_path pre n @ v" "v = [] \<or> hd v = 0x2f"
    using assms(3,4) by (fastforce simp: under_def)
  moreover from this have "m @ u = n @ v" by (auto simp: join_path_def split: if_splits)
  ultimately show ?thesis using component_unique [OF assms(1,2)] by blast
qed

section \<open>Listings\<close>

definition entry_listing :: "nat \<Rightarrow> ('w, 'k) fstree \<Rightarrow> bytes \<Rightarrow> entry \<Rightarrow> (bytes \<times> entry) list" where
  "entry_listing n fs p e = (if is_dir (Some e) then listing n fs p (okv (key_parse fs (en_content_key e))) else [])"

definition entry_block :: "nat \<Rightarrow> ('w, 'k) fstree \<Rightarrow> bytes \<Rightarrow> entry \<Rightarrow> (bytes \<times> entry) list" where
  "entry_block n fs pre e = (join_path pre (en_name e), e) # entry_listing n fs (join_path pre (en_name e)) e"

lemma listing_blocks: "listing (Suc n) fs pre k = concat (map (entry_block n fs pre) (okv (collect_entries fs k)))"
  unfolding listing.simps
  by (intro arg_cong [where f = concat] map_cong refl) (simp add: entry_block_def entry_listing_def)

text \<open>An entry of a tree of at most \<open>n\<close> further levels.\<close>

definition entry_ok :: "nat \<Rightarrow> ('w, 'k) fstree \<Rightarrow> entry \<Rightarrow> bool" where
  "entry_ok n fs e \<longleftrightarrow> name_ok (en_name e) \<and>
     (is_dir (Some e) \<longrightarrow> (\<exists>k'. key_parse fs (en_content_key e) = Ok k' \<and> tree_ok n fs k'))"

lemma tree_okD:
  assumes "tree_ok (Suc n) fs k"
  shows "\<exists>es. collect_entries fs k = Ok es \<and> sorted_wrt (<) (map en_name es) \<and> (\<forall>e \<in> set es. entry_ok n fs e)"
proof (cases "collect_entries fs k")
  case (Ok es)
  have "entry_ok n fs e" if "e \<in> set es" for e
    using assms that Ok by (cases "key_parse fs (en_content_key e)") (auto simp: entry_ok_def list_all_iff)
  then show ?thesis using assms Ok by auto
qed (use assms in auto)

lemma listing_below: "pre \<noteq> [] \<Longrightarrow> (q, e) \<in> set (listing n fs pre k) \<Longrightarrow> \<exists>s. q = pre @ 0x2f # s"
proof (induction n arbitrary: pre k)
  case (Suc n)
  from Suc.prems(2) obtain d where d: "(q, e) \<in> set (entry_block n fs pre d)" unfolding listing_blocks by auto
  have j: "join_path pre (en_name d) = pre @ 0x2f # en_name d" using Suc.prems(1) by (simp add: join_path_def)
  from d consider "q = pre @ 0x2f # en_name d"
    | "(q, e) \<in> set (listing n fs (pre @ 0x2f # en_name d) (okv (key_parse fs (en_content_key d))))"
    by (auto simp: entry_block_def entry_listing_def j split: if_splits)
  then show ?case
  proof cases
    case 2
    from Suc.IH [OF _ 2] show ?thesis by auto
  qed simp
qed simp

lemma block_under: "name_ok (en_name e) \<Longrightarrow> p \<in> fst ` set (entry_block n fs pre e) \<Longrightarrow> under (join_path pre (en_name e)) p"
  using listing_below [OF join_path_ne, of "en_name e" p _ n fs pre]
  by (auto simp: entry_block_def entry_listing_def under_def split: if_splits)

lemma blocks_disjoint:
  assumes "\<forall>e \<in> set es. name_ok (en_name e) \<and> en_name e \<noteq> en_name x" and "name_ok (en_name x)"
  shows "fst ` set (entry_block n fs pre x) \<inter> fst ` set (concat (map (entry_block m fs' pre) es)) = {}"
proof -
  have False if "p \<in> fst ` set (entry_block n fs pre x)" "e \<in> set es" "p \<in> fst ` set (entry_block m fs' pre e)" for p e
  proof -
    have n: "name_ok (en_name e)" "en_name e \<noteq> en_name x" using assms(1) that(2) by auto
    show False
      using under_disjoint [OF assms(2) n(1) block_under [OF assms(2) that(1)] block_under [OF n(1) that(3)]] n(2) by simp
  qed
  moreover have "\<exists>e \<in> set es. p \<in> fst ` set (entry_block m fs' pre e)" if "p \<in> fst ` set (concat (map (entry_block m fs' pre) es))" for p
    using that by auto
  ultimately show ?thesis by (meson disjoint_iff)
qed

lemma listing_distinct: "tree_ok n fs k \<Longrightarrow> distinct (map fst (listing n fs pre k))"
proof (induction n arbitrary: pre k)
  case (Suc n)
  from tree_okD [OF Suc.prems] obtain es where es: "collect_entries fs k = Ok es" "sorted_wrt (<) (map en_name es)"
    "\<forall>e \<in> set es. entry_ok n fs e" by blast
  have block: "distinct (map fst (entry_block n fs pre e))" if "entry_ok n fs e" for e
  proof -
    have "join_path pre (en_name e) \<noteq> []" using that by (intro join_path_ne) (simp add: entry_ok_def)
    from listing_below [OF this] have "join_path pre (en_name e) \<notin> fst ` set (entry_listing n fs (join_path pre (en_name e)) e)"
      by (fastforce simp: entry_listing_def split: if_splits)
    moreover have "distinct (map fst (entry_listing n fs (join_path pre (en_name e)) e))"
      using that Suc.IH by (auto simp: entry_listing_def entry_ok_def okv_def)
    ultimately show ?thesis by (simp add: entry_block_def)
  qed
  have "distinct (map fst (concat (map (entry_block n fs pre) es)))" using es(2,3)
  proof (induction es)
    case (Cons e es)
    then have "fst ` set (entry_block n fs pre e) \<inter> fst ` set (concat (map (entry_block n fs pre) es)) = {}"
      by (intro blocks_disjoint) (auto simp: entry_ok_def)
    with Cons block show ?case by simp
  qed simp
  then show ?case using es(1) by (simp only: listing_blocks) (simp add: okv_def)
qed simp

section \<open>Correct diffs\<close>

lemma correct_diff_path: "correct_diff A B cs \<Longrightarrow> c \<in> set cs \<Longrightarrow> ch_path c \<in> fst ` set A \<union> fst ` set B"
proof (cases c)
  case (fields p k x y)
  assume "correct_diff A B cs" "c \<in> set cs"
  then have "x = map_of A p" "y = map_of B p" "classify x y = Some k" using fields by (auto simp: correct_diff_def)
  then have "map_of A p \<noteq> None \<or> map_of B p \<noteq> None" by (metis classify.simps(1) option.distinct(1))
  then show ?thesis using fields by (auto simp: map_of_eq_None_iff)
qed

lemma correct_diff_append:
  assumes "correct_diff A B cs" "correct_diff A' B' cs'"
    and "(fst ` set A \<union> fst ` set B) \<inter> (fst ` set A' \<union> fst ` set B') = {}"
  shows "correct_diff (A @ A') (B @ B') (cs @ cs')"
proof -
  let ?K = "fst ` set A \<union> fst ` set B" and ?K' = "fst ` set A' \<union> fst ` set B'"
  have none: "map_of A p = None \<and> map_of B p = None" if "p \<notin> ?K" for p using that by (simp add: map_of_eq_None_iff)
  have none': "map_of A' p = None \<and> map_of B' p = None" if "p \<notin> ?K'" for p using that by (simp add: map_of_eq_None_iff)
  have "distinct (map ch_path (cs @ cs'))"
  proof -
    have "ch_path ` set cs \<subseteq> ?K" "ch_path ` set cs' \<subseteq> ?K'"
      using correct_diff_path [OF assms(1)] correct_diff_path [OF assms(2)] by blast+
    then have "ch_path ` set cs \<inter> ch_path ` set cs' = {}" using assms(3) by blast
    then show ?thesis using assms(1,2) by (simp add: correct_diff_def)
  qed
  moreover have "\<lparr>ch_path = p, ch_kind = k, ch_old = x, ch_new = y\<rparr> \<in> set (cs @ cs') \<longleftrightarrow>
      x = map_of (A @ A') p \<and> y = map_of (B @ B') p \<and> classify x y = Some k" for p k x y
  proof (cases "p \<in> ?K")
    case True
    then have "p \<notin> ?K'" using assms(3) by blast
    then have "\<lparr>ch_path = p, ch_kind = k, ch_old = x, ch_new = y\<rparr> \<notin> set cs'"
      using correct_diff_path [OF assms(2), of "\<lparr>ch_path = p, ch_kind = k, ch_old = x, ch_new = y\<rparr>"] by auto
    moreover have "map_of (A @ A') p = map_of A p" "map_of (B @ B') p = map_of B p"
      using none' [OF \<open>p \<notin> ?K'\<close>] by (simp_all add: map_add_def split: option.splits)
    ultimately show ?thesis using assms(1) unfolding correct_diff_def by simp
  next
    case False
    then have "\<lparr>ch_path = p, ch_kind = k, ch_old = x, ch_new = y\<rparr> \<notin> set cs"
      using correct_diff_path [OF assms(1), of "\<lparr>ch_path = p, ch_kind = k, ch_old = x, ch_new = y\<rparr>"] by auto
    moreover have "map_of (A @ A') p = map_of A' p" "map_of (B @ B') p = map_of B' p"
      using none [OF False] by (simp_all add: map_add_def split: option.splits)
    ultimately show ?thesis using assms(2) unfolding correct_diff_def by simp
  qed
  ultimately show ?thesis unfolding correct_diff_def by blast
qed

lemma compare_refl [simp]: "compare_entries e e = None"
  by (simp add: compare_entries_def same_content_def Let_def)

lemma correct_diff_refl: "correct_diff A A []"
proof -
  have "classify x x = None" for x by (cases x) auto
  then show ?thesis by (auto simp: correct_diff_def)
qed

lemma correct_diff_sides:
  assumes "distinct (map fst L)"
  shows "correct_diff L [] (map (\<lambda>(p, e). side Deleted p e) L)" "correct_diff [] L (map (\<lambda>(p, e). side Added p e) L)"
proof -
  have m: "map_of L p = Some e \<longleftrightarrow> (p, e) \<in> set L" for p e using assms by (rule map_of_eq_Some_iff)
  have c1: "classify x None = Some k \<longleftrightarrow> k = Deleted \<and> x \<noteq> None" for x k by (cases x) auto
  have c2: "classify None x = Some k \<longleftrightarrow> k = Added \<and> x \<noteq> None" for x k by (cases x) auto
  show "correct_diff L [] (map (\<lambda>(p, e). side Deleted p e) L)"
    using assms by (auto simp: correct_diff_def side_def comp_def case_prod_beta c1 m image_iff eq_commute [of "Some _"] map_idI; force)
  show "correct_diff [] L (map (\<lambda>(p, e). side Added p e) L)"
    using assms by (auto simp: correct_diff_def side_def comp_def case_prod_beta c2 m image_iff eq_commute [of "Some _"] map_idI; force)
qed

section \<open>The functions of the code\<close>

lemma expand_each_ok:
  assumes "\<forall>e \<in> set es. below (join_path p (en_name e)) e =
      Ok (map (\<lambda>(q, c). side k q c) (entry_listing n fs (join_path p (en_name e)) e))"
  shows "expand_each below p k es = Ok (map (\<lambda>(q, c). side k q c) (concat (map (entry_block n fs p) es)))"
  using assms by (induction es) (simp_all add: Let_def entry_block_def)

lemma expand_children_ok:
  "entry_ok n fs e \<Longrightarrow> expand_children (Suc n) fs p e k = Ok (map (\<lambda>(q, c). side k q c) (entry_listing n fs p e))"
proof (induction n arbitrary: p e)
  case 0
  then show ?case by (simp add: entry_ok_def entry_listing_def)
next
  case (Suc n)
  show ?case
  proof (cases "is_dir (Some e)")
    case True
    then obtain k' where k': "key_parse fs (en_content_key e) = Ok k'" "tree_ok (Suc n) fs k'"
      using Suc.prems by (auto simp: entry_ok_def)
    from tree_okD [OF k'(2)] obtain es where es: "collect_entries fs k' = Ok es" "\<forall>d \<in> set es. entry_ok n fs d" by blast
    have "expand_each (\<lambda>q c. expand_children (Suc n) fs q c k) p k es =
        Ok (map (\<lambda>(q, c). side k q c) (concat (map (entry_block n fs p) es)))"
      using es(2) Suc.IH by (intro expand_each_ok) blast
    then show ?thesis using True k' es(1)
      by (simp add: collect_def entry_listing_def okv_def listing_blocks del: listing.simps expand_children.simps(2))
        (simp add: collect_def)
  qed (simp add: entry_listing_def)
qed

lemma expand_ok:
  "entry_ok n fs e \<Longrightarrow> expand (Suc n) fs pre e k = Ok (map (\<lambda>(q, c). side k q c) (entry_block n fs pre e))"
  by (simp add: expand_def expand_children_ok entry_block_def Let_def del: expand_children.simps)

lemma entry_listing_distinct: "entry_ok n fs e \<Longrightarrow> distinct (map fst (entry_listing n fs p e))"
  using listing_distinct by (auto simp: entry_listing_def entry_ok_def okv_def)

lemma entry_listing_below: "p \<noteq> [] \<Longrightarrow> p \<notin> fst ` set (entry_listing n fs p e)"
  using listing_below [of p] by (fastforce simp: entry_listing_def split: if_splits)

lemma correct_diff_head:
  assumes "p \<noteq> []" and "correct_diff (entry_listing n fs p x) (entry_listing n fs p y) rest"
    and "own = (case compare_entries x y of None \<Rightarrow> [] | Some k \<Rightarrow> [\<lparr>ch_path = p, ch_kind = k, ch_old = Some x, ch_new = Some y\<rparr>])"
  shows "correct_diff ((p, x) # entry_listing n fs p x) ((p, y) # entry_listing n fs p y) (own @ rest)"
proof -
  have "correct_diff [(p, x)] [(p, y)] own"
    using assms(3) by (auto simp: correct_diff_def split: option.splits if_splits)
  from correct_diff_append [OF this assms(2)] entry_listing_below [OF assms(1)] show ?thesis by auto
qed

text \<open>The contract of the recursive call.\<close>

definition diff_contract :: "nat \<Rightarrow> ('w, 'k) fstree \<Rightarrow>
    (bytes \<Rightarrow> bytes \<Rightarrow> bytes \<Rightarrow> (('w, 'k) wt_error, change list) outcome) \<Rightarrow> bool" where
  "diff_contract n fs sub \<longleftrightarrow> (\<forall>p a b. tree_ok n fs a \<longrightarrow> tree_ok n fs b \<longrightarrow>
     (\<exists>cs. sub p a b = Ok cs \<and> correct_diff (listing n fs p a) (listing n fs p b) cs))"

lemma same_type: "compare_entries x y \<noteq> Some TypeChanged \<longleftrightarrow> en_mode x AND S_IFMT = en_mode y AND S_IFMT"
  by (auto simp: compare_entries_def)

lemma diff_same_ok:
  assumes "entry_ok n fs x" "entry_ok n fs y" "en_name x = en_name y" "diff_contract n fs sub"
  shows "\<exists>cs. diff_same (Suc n) fs sub pre x y = Ok cs \<and> correct_diff (entry_block n fs pre x) (entry_block n fs pre y) cs"
proof -
  define p where "p = join_path pre (en_name x)"
  define own where "own = (case compare_entries x y of None \<Rightarrow> [] | Some k \<Rightarrow>
    [\<lparr>ch_path = p, ch_kind = k, ch_old = Some x, ch_new = Some y\<rparr>])"
  have p: "p \<noteq> []" "join_path pre (en_name y) = p"
    using assms(1,3) join_path_ne [of "en_name x" pre] by (simp_all add: p_def entry_ok_def)
  have fin: "correct_diff (entry_block n fs pre x) (entry_block n fs pre y) (own @ rest)"
    if "correct_diff (entry_listing n fs p x) (entry_listing n fs p y) rest" for rest
    using correct_diff_head [OF p(1) that own_def] p(2) by (simp add: entry_block_def p_def)
  show ?thesis
  proof (cases "compare_entries x y = Some TypeChanged")
    case True
    then have "en_mode x AND S_IFMT \<noteq> en_mode y AND S_IFMT" by (metis same_type)
    then have nd: "\<not> (is_dir (Some x) \<and> is_dir (Some y))" by (auto simp: is_dir_def)
    let ?d = "map (\<lambda>(q, c). side Deleted q c) (entry_listing n fs p x)"
    let ?a = "map (\<lambda>(q, c). side Added q c) (entry_listing n fs p y)"
    have "entry_listing n fs p x = [] \<or> entry_listing n fs p y = []" using nd by (auto simp: entry_listing_def)
    then have "correct_diff (entry_listing n fs p x @ []) ([] @ entry_listing n fs p y) (?d @ ?a)"
      using correct_diff_sides [OF entry_listing_distinct [OF assms(1)]] correct_diff_sides [OF entry_listing_distinct [OF assms(2)]]
      by (intro correct_diff_append) auto
    then have "correct_diff (entry_block n fs pre x) (entry_block n fs pre y) (own @ ?d @ ?a)" by (intro fin) simp
    moreover have "diff_same (Suc n) fs sub pre x y = Ok (own @ ?d @ ?a)"
      using True nd by (auto simp: diff_same_def own_def p_def [symmetric] expand_children_ok [OF assms(1)]
          expand_children_ok [OF assms(2)] Let_def simp del: expand_children.simps)
    ultimately show ?thesis by blast
  next
    case False
    then have ty: "is_dir (Some x) \<longleftrightarrow> is_dir (Some y)" using same_type [of x y] by (auto simp: is_dir_def)
    have step: "diff_same (Suc n) fs sub pre x y =
      obind (if is_dir (Some x) \<and> is_dir (Some y) \<and> en_content_key x \<noteq> en_content_key y then
          obind (omap_err KeyError (key_parse fs (en_content_key x))) (\<lambda>kx.
          obind (omap_err KeyError (key_parse fs (en_content_key y))) (\<lambda>ky. sub p kx ky))
        else Ok []) (\<lambda>below. Ok (own @ below))"
      using False by (auto simp: diff_same_def own_def p_def [symmetric] Let_def split: option.splits)
    show ?thesis
    proof (cases "is_dir (Some x) \<and> en_content_key x \<noteq> en_content_key y")
      case True
      then obtain kx ky where k: "key_parse fs (en_content_key x) = Ok kx" "tree_ok n fs kx"
        "key_parse fs (en_content_key y) = Ok ky" "tree_ok n fs ky" using assms(1,2) ty by (auto simp: entry_ok_def)
      then obtain cs where cs: "sub p kx ky = Ok cs" "correct_diff (listing n fs p kx) (listing n fs p ky) cs"
        using assms(4) unfolding diff_contract_def by blast
      have "correct_diff (entry_listing n fs p x) (entry_listing n fs p y) cs"
        using cs(2) True ty k by (simp add: entry_listing_def okv_def)
      with fin step True ty k cs(1) show ?thesis by simp
    next
      case False
      then have "entry_listing n fs p x = entry_listing n fs p y" using ty by (auto simp: entry_listing_def)
      then have "correct_diff (entry_listing n fs p x) (entry_listing n fs p y) []" using correct_diff_refl by metis
      with fin [of "[]"] step False show ?thesis by auto
    qed
  qed
qed

abbreviation blocks :: "nat \<Rightarrow> ('w, 'k) fstree \<Rightarrow> bytes \<Rightarrow> entry list \<Rightarrow> (bytes \<times> entry) list" where
  "blocks n fs pre es \<equiv> concat (map (entry_block n fs pre) es)"

definition entries_ok :: "nat \<Rightarrow> ('w, 'k) fstree \<Rightarrow> entry list \<Rightarrow> bool" where
  "entries_ok n fs es \<longleftrightarrow> sorted_wrt (<) (map en_name es) \<and> (\<forall>e \<in> set es. entry_ok n fs e)"

lemma entries_ok_Cons:
  "entries_ok n fs (e # es) \<longleftrightarrow> entry_ok n fs e \<and> entries_ok n fs es \<and> (\<forall>d \<in> set es. en_name e < en_name d)"
  by (auto simp: entries_ok_def)

lemma later_disjoint:
  assumes "entry_ok n fs x" "entries_ok n fs xs" "entries_ok n fs ys"
    and "\<forall>d \<in> set xs. en_name x < en_name d" "\<forall>d \<in> set ys. en_name x < en_name d"
  shows "fst ` set (entry_block n fs pre x) \<inter> (fst ` set (blocks n fs pre xs) \<union> fst ` set (blocks n fs pre ys)) = {}"
proof -
  have "fst ` set (entry_block n fs pre x) \<inter> fst ` set (blocks n fs pre es) = {}"
    if "entries_ok n fs es" "\<forall>d \<in> set es. en_name x < en_name d" for es
    using that assms(1) by (intro blocks_disjoint) (auto simp: entries_ok_def entry_ok_def)
  then show ?thesis using assms by blast
qed

lemma block_sides:
  assumes "entry_ok n fs x"
  shows "correct_diff (entry_block n fs pre x) [] (map (\<lambda>(p, e). side Deleted p e) (entry_block n fs pre x))"
    "correct_diff [] (entry_block n fs pre x) (map (\<lambda>(p, e). side Added p e) (entry_block n fs pre x))"
proof -
  have "join_path pre (en_name x) \<noteq> []" using assms by (intro join_path_ne) (simp add: entry_ok_def)
  then have "distinct (map fst (entry_block n fs pre x))"
    using entry_listing_below [of "join_path pre (en_name x)"] entry_listing_distinct [OF assms] by (simp add: entry_block_def)
  then show "correct_diff (entry_block n fs pre x) [] (map (\<lambda>(p, e). side Deleted p e) (entry_block n fs pre x))"
    "correct_diff [] (entry_block n fs pre x) (map (\<lambda>(p, e). side Added p e) (entry_block n fs pre x))"
    by (rule correct_diff_sides)+
qed

lemma correct_deleted:
  assumes "entries_ok n fs (x # xs)" "entries_ok n fs ys" "\<forall>d \<in> set ys. en_name x < en_name d"
    and "correct_diff (blocks n fs pre xs) (blocks n fs pre ys) rest"
  shows "correct_diff (blocks n fs pre (x # xs)) (blocks n fs pre ys)
    (map (\<lambda>(p, e). side Deleted p e) (entry_block n fs pre x) @ rest)"
proof -
  have x: "entry_ok n fs x" "entries_ok n fs xs" "\<forall>d \<in> set xs. en_name x < en_name d" using assms(1) by (simp_all add: entries_ok_Cons)
  from correct_diff_append [OF block_sides(1) [OF x(1)] assms(4)] later_disjoint [OF x(1,2) assms(2) x(3) assms(3)]
  show ?thesis by simp
qed

lemma correct_added:
  assumes "entries_ok n fs xs" "entries_ok n fs (y # ys)" "\<forall>d \<in> set xs. en_name y < en_name d"
    and "correct_diff (blocks n fs pre xs) (blocks n fs pre ys) rest"
  shows "correct_diff (blocks n fs pre xs) (blocks n fs pre (y # ys))
    (map (\<lambda>(p, e). side Added p e) (entry_block n fs pre y) @ rest)"
proof -
  have y: "entry_ok n fs y" "entries_ok n fs ys" "\<forall>d \<in> set ys. en_name y < en_name d" using assms(2) by (simp_all add: entries_ok_Cons)
  from correct_diff_append [OF block_sides(2) [OF y(1)] assms(4)] later_disjoint [OF y(1) assms(1) y(2) assms(3) y(3)]
  show ?thesis by simp
qed

lemma correct_same:
  assumes "entries_ok n fs (x # xs)" "entries_ok n fs (y # ys)" "en_name x = en_name y"
    and "correct_diff (entry_block n fs pre x) (entry_block n fs pre y) cs" "correct_diff (blocks n fs pre xs) (blocks n fs pre ys) rest"
  shows "correct_diff (blocks n fs pre (x # xs)) (blocks n fs pre (y # ys)) (cs @ rest)"
proof -
  have o: "entry_ok n fs x" "entries_ok n fs xs" "entry_ok n fs y" "entries_ok n fs ys"
    "\<forall>d \<in> set xs. en_name x < en_name d" "\<forall>d \<in> set ys. en_name y < en_name d"
    using assms(1,2) by (simp_all add: entries_ok_Cons)
  note d = later_disjoint [OF o(1,2,4,5)] later_disjoint [OF o(3,2,4)]
  show ?thesis using correct_diff_append [OF assms(4,5)] d o assms(3) by (simp add: Int_Un_distrib2)
qed

lemma diff_loop_ok:
  "diff_contract n fs sub \<Longrightarrow> entries_ok n fs xs \<Longrightarrow> entries_ok n fs ys \<Longrightarrow>
    \<exists>cs. diff_loop (Suc n) fs sub pre xs ys = Ok cs \<and> correct_diff (blocks n fs pre xs) (blocks n fs pre ys) cs"
proof (induction "Suc n" fs sub pre xs ys rule: diff_loop.induct)
  case (1 fs sub pre)
  then show ?case by (simp add: correct_diff_refl)
next
  case (2 fs sub pre x xs)
  then have x: "entry_ok n fs x" "entries_ok n fs xs" by (simp_all add: entries_ok_Cons)
  with 2 obtain rest where "diff_loop (Suc n) fs sub pre xs [] = Ok rest"
    "correct_diff (blocks n fs pre xs) (blocks n fs pre []) rest" by (auto simp: expand_ok)
  with correct_deleted [OF "2.prems"(2,3)] x show ?case by (simp add: expand_ok)
next
  case (3 fs sub pre y ys)
  then have y: "entry_ok n fs y" "entries_ok n fs ys" by (simp_all add: entries_ok_Cons)
  with 3 obtain rest where "diff_loop (Suc n) fs sub pre [] ys = Ok rest"
    "correct_diff (blocks n fs pre []) (blocks n fs pre ys) rest" by (auto simp: expand_ok)
  with correct_added [OF "3.prems"(2,3)] y show ?case by (simp add: expand_ok)
next
  case (4 fs sub pre x xs y ys)
  have o: "entry_ok n fs x" "entries_ok n fs xs" "entry_ok n fs y" "entries_ok n fs ys"
    "\<forall>d \<in> set xs. en_name x < en_name d" "\<forall>d \<in> set ys. en_name y < en_name d"
    using "4.prems" by (simp_all add: entries_ok_Cons)
  consider (lt) "en_name x < en_name y" | (gt) "en_name y < en_name x" | (eq) "en_name x = en_name y" by (metis linorder_less_linear)
  then show ?case
  proof cases
    case lt
    with 4 o obtain rest where r: "diff_loop (Suc n) fs sub pre xs (y # ys) = Ok rest"
      "correct_diff (blocks n fs pre xs) (blocks n fs pre (y # ys)) rest" by (auto simp: expand_ok)
    have "\<forall>d \<in> set (y # ys). en_name x < en_name d" using lt o(6) by auto
    from correct_deleted [OF "4.prems"(2,3) this r(2)] lt r(1) o(1) show ?thesis by (simp add: expand_ok)
  next
    case gt
    then have ng: "\<not> en_name x < en_name y" by simp
    with gt 4 o obtain rest where r: "diff_loop (Suc n) fs sub pre (x # xs) ys = Ok rest"
      "correct_diff (blocks n fs pre (x # xs)) (blocks n fs pre ys) rest" by (auto simp: expand_ok)
    have "\<forall>d \<in> set (x # xs). en_name y < en_name d" using gt o(5) by auto
    from correct_added [OF "4.prems"(2,3) this r(2)] gt ng r(1) o(3) show ?thesis by (simp add: expand_ok)
  next
    case eq
    obtain cs where cs: "diff_same (Suc n) fs sub pre x y = Ok cs"
      "correct_diff (entry_block n fs pre x) (entry_block n fs pre y) cs" using diff_same_ok [OF o(1,3) eq "4.prems"(1)] by blast
    with eq 4 o obtain rest where r: "diff_loop (Suc n) fs sub pre xs ys = Ok rest"
      "correct_diff (blocks n fs pre xs) (blocks n fs pre ys) rest" by auto
    from correct_same [OF "4.prems"(2,3) eq cs(2) r(2)] eq cs(1) r(1) show ?thesis by simp
  qed
qed

lemma diff_dirs_contract: "diff_contract n fs (diff_dirs (Suc n) fs)"
proof (induction n)
  case 0
  then show ?case by (simp add: diff_contract_def)
next
  case (Suc n)
  have "\<exists>cs. diff_dirs (Suc (Suc n)) fs p a b = Ok cs \<and> correct_diff (listing (Suc n) fs p a) (listing (Suc n) fs p b) cs"
    if ok: "tree_ok (Suc n) fs a" "tree_ok (Suc n) fs b" for p a b
  proof -
    obtain ea eb where e: "collect_entries fs a = Ok ea" "entries_ok n fs ea" "collect_entries fs b = Ok eb" "entries_ok n fs eb"
      using tree_okD [OF ok(1)] tree_okD [OF ok(2)] by (auto simp: entries_ok_def)
    have "diff_dirs (Suc (Suc n)) fs p a b = diff_loop (Suc n) fs (diff_dirs (Suc n) fs) p ea eb"
      by (simp only: diff_dirs.simps(2) [of "Suc n"]) (simp add: collect_def e)
    then show ?thesis using diff_loop_ok [OF Suc e(2,4), of p] by (simp only: listing_blocks) (simp add: okv_def e)
  qed
  then show ?case unfolding diff_contract_def by blast
qed

lemma diff_trees_ok:
  assumes "tree_ok n fs a" "tree_ok n fs b"
  shows "\<exists>cs. diff_trees (Suc n) fs a b = Ok cs \<and> correct_diff (listing n fs [] a) (listing n fs [] b) cs"
proof (cases "a = b")
  case True
  then show ?thesis by (simp add: diff_trees_def correct_diff_refl)
next
  case False
  then show ?thesis using diff_dirs_contract [of n fs] assms by (simp add: diff_trees_def diff_contract_def del: diff_dirs.simps)
qed

end
