(* ===== verification/Wt_Merge.thy ===== *)
theory Wt_Merge
  imports Wt_Change Strings "HOL-Library.Sublist"
begin

text \<open>
  \<^verbatim>\<open>crates/worktree/src/merge.rs\<close>: which incoming changes can be applied over the local ones. The specification
  sorts every incoming change into safe, moot or conflicting by what the local changes say about its path, the
  directories above it and the paths below it; \<^verbatim>\<open>merge\<close> computes exactly that partition, in order.
\<close>

record conflict =
  cf_path :: bytes
  cf_local :: change
  cf_incoming :: change

type_synonym by_path = "bytes \<rightharpoonup> change"

fun index_changes :: "change list \<Rightarrow> by_path \<Rightarrow> by_path" where
  "index_changes [] m = m"
| "index_changes (c # cs) m = index_changes cs (m(ch_path c \<mapsto> c))"

definition takes_away :: "change \<Rightarrow> bool" where
  "takes_away l \<longleftrightarrow> ch_kind l = Deleted \<or> ch_kind l = TypeChanged \<and> is_dir (ch_old l)"

lemma rposition_less: "rposition P xs = Some i \<Longrightarrow> i < length xs \<and> P (xs ! i) \<and> (\<forall>j. i < j \<longrightarrow> j < length xs \<longrightarrow> \<not> P (xs ! j))"
proof -
  assume r: "rposition P xs = Some i"
  define hits where "hits = filter (\<lambda>i. P (xs ! i)) [0..<length xs]"
  have ne: "hits \<noteq> []" "i = last hits" using r by (auto simp: rposition_def hits_def split: list.splits)
  have s: "sorted hits" unfolding hits_def by (rule sorted_wrt_filter) simp
  have "i \<in> set hits" using ne by simp
  moreover have "j \<le> i" if "j \<in> set hits" for j
    using s that sorted_append [of "butlast hits" "[i]"] ne
    by (metis Un_iff append_butlast_last_id list.set_intros(1) order_refl set_append set_ConsD list.set(1) empty_iff)
  ultimately show ?thesis by (force simp: hits_def)
qed

lemma rposition_None: "rposition P xs = None \<longleftrightarrow> (\<forall>x \<in> set xs. \<not> P x)"
proof -
  have "rposition P xs = None \<longleftrightarrow> filter (\<lambda>i. P (xs ! i)) [0..<length xs] = []"
    by (simp add: rposition_def split: list.splits)
  then show ?thesis by (auto simp: filter_empty_conv all_set_conv_all_nth)
qed

function gone_above :: "by_path \<Rightarrow> bytes \<Rightarrow> change option" where
  "gone_above m p = (case rposition (\<lambda>b. b = 0x2f) p of
     None \<Rightarrow> None
   | Some idx \<Rightarrow>
       if idx > 0 then
         let ancestor = take idx p in
         case m ancestor of
           Some l \<Rightarrow> (if takes_away l then Some l else gone_above m ancestor)
         | None \<Rightarrow> gone_above m ancestor
       else None)"
  by pat_completeness auto
termination by (relation "measure (\<lambda>(m, p). length p)") (auto dest: rposition_less)

declare gone_above.simps [simp del]

text \<open>\<^verbatim>\<open>partition_point\<close> of a sorted slice: the number of elements that come before.\<close>

definition first_below :: "by_path \<Rightarrow> bytes list \<Rightarrow> bytes \<Rightarrow> change option" where
  "first_below m paths p =
     (let dir = p @ [0x2f]; i = length (takeWhile (\<lambda>x. x < dir) paths) in
      if i < length paths \<and> take (length dir) (paths ! i) = dir then m (paths ! i) else None)"

definition merge_one :: "by_path \<Rightarrow> bytes list \<Rightarrow> change \<Rightarrow> change list \<times> conflict list" where
  "merge_one m paths inc =
     (let conflict = (\<lambda>l. \<lparr>cf_path = ch_path inc, cf_local = l, cf_incoming = inc\<rparr>) in
      case m (ch_path inc) of
        Some l \<Rightarrow>
          if ch_kind l = MetaChanged then ([inc], [])
          else if ch_kind l = Deleted \<and> ch_kind inc = Deleted then ([], [])
          else if ch_kind l = Deleted \<or> ch_kind inc = Deleted then ([], [conflict l])
          else (case (ch_new l, ch_new inc) of
              (Some a, Some b) \<Rightarrow> if equivalent a b then ([inc], []) else ([], [conflict l])
            | _ \<Rightarrow> ([], [conflict l]))
      | None \<Rightarrow> (case gone_above m (ch_path inc) of
          Some l \<Rightarrow> (if ch_kind inc \<noteq> Deleted then ([], [conflict l]) else ([], []))
        | None \<Rightarrow>
            (if ch_kind inc = TypeChanged \<and> is_dir (ch_old inc) then
               (case first_below m paths (ch_path inc) of
                  Some l \<Rightarrow> ([], [conflict l])
                | None \<Rightarrow> ([inc], []))
             else ([inc], []))))"

fun merge_loop :: "by_path \<Rightarrow> bytes list \<Rightarrow> change list \<Rightarrow> change list \<times> conflict list" where
  "merge_loop m paths [] = ([], [])"
| "merge_loop m paths (inc # incs) =
     (case merge_one m paths inc of (a, c) \<Rightarrow> case merge_loop m paths incs of (as, cs) \<Rightarrow> (a @ as, c @ cs))"

definition merge_changes :: "change list \<Rightarrow> change list \<Rightarrow> change list \<times> conflict list" where
  "merge_changes lcl incoming =
     merge_loop (index_changes lcl Map.empty) (sort (map ch_path lcl)) incoming"

section \<open>The specification\<close>

text \<open>What the local changes say at a path: the last one counts.\<close>

definition local_at :: "change list \<Rightarrow> bytes \<Rightarrow> change option" where
  "local_at lcl p = find (\<lambda>c. ch_path c = p) (rev lcl)"

definition above :: "bytes \<Rightarrow> bytes \<Rightarrow> bool" where
  "above a p \<longleftrightarrow> a \<noteq> [] \<and> (\<exists>s. p = a @ 0x2f # s)"

definition taken_above :: "change list \<Rightarrow> bytes \<Rightarrow> bool" where
  "taken_above lcl p \<longleftrightarrow> (\<exists>a l. above a p \<and> local_at lcl a = Some l \<and> takes_away l)"

definition touched_below :: "change list \<Rightarrow> bytes \<Rightarrow> bool" where
  "touched_below lcl p \<longleftrightarrow> (\<exists>l \<in> set lcl. \<exists>s. ch_path l = p @ 0x2f # s)"

definition agrees :: "change \<Rightarrow> change \<Rightarrow> bool" where
  "agrees l inc \<longleftrightarrow> ch_kind l \<noteq> Deleted \<and> ch_kind inc \<noteq> Deleted \<and>
     (\<exists>a b. ch_new l = Some a \<and> ch_new inc = Some b \<and> equivalent a b)"

definition safe :: "change list \<Rightarrow> change \<Rightarrow> bool" where
  "safe lcl inc = (case local_at lcl (ch_path inc) of
     Some l \<Rightarrow> ch_kind l = MetaChanged \<or> agrees l inc
   | None \<Rightarrow> \<not> taken_above lcl (ch_path inc) \<and>
       \<not> (ch_kind inc = TypeChanged \<and> is_dir (ch_old inc) \<and> touched_below lcl (ch_path inc)))"

definition moot :: "change list \<Rightarrow> change \<Rightarrow> bool" where
  "moot lcl inc \<longleftrightarrow> ch_kind inc = Deleted \<and> (case local_at lcl (ch_path inc) of
     Some l \<Rightarrow> ch_kind l = Deleted
   | None \<Rightarrow> taken_above lcl (ch_path inc))"

section \<open>The lookups\<close>

lemma index_changes_spec: "index_changes lcl m p = (case local_at lcl p of Some l \<Rightarrow> Some l | None \<Rightarrow> m p)"
proof (induction lcl arbitrary: m)
  case (Cons c lcl)
  have "find P (xs @ [x]) = (case find P xs of Some y \<Rightarrow> Some y | None \<Rightarrow> if P x then Some x else None)" for P xs and x :: change
    by (induction xs) auto
  then show ?case using Cons by (auto simp: local_at_def split: option.splits)
qed (simp add: local_at_def)

lemma gone_above_spec:
  "(\<forall>l. gone_above m p = Some l \<longrightarrow> (\<exists>a. above a p \<and> m a = Some l \<and> takes_away l)) \<and>
   (gone_above m p = None \<longrightarrow> \<not> (\<exists>a l. above a p \<and> m a = Some l \<and> takes_away l))"
proof (induction m p rule: gone_above.induct)
  case (1 m p)
  show ?case
  proof (cases "rposition (\<lambda>b. b = 0x2f) p")
    case None
    then have "0x2f \<notin> set p" by (auto simp: rposition_None)
    then show ?thesis using None by (auto simp: gone_above.simps [of m p] above_def)
  next
    case (Some idx)
    note r = rposition_less [OF Some]
    have split: "p = take idx p @ 0x2f # drop (Suc idx) p" using r id_take_nth_drop [of idx p] by simp
    have anc: "above a p \<longleftrightarrow> idx > 0 \<and> (a = take idx p \<or> above a (take idx p))" for a
    proof
      assume "above a p"
      then obtain s where s: "a \<noteq> []" "p = a @ 0x2f # s" by (auto simp: above_def)
      then have l: "length a \<le> idx" "length a < length p" using r by (auto simp: not_less [symmetric] nth_append)
      show "idx > 0 \<and> (a = take idx p \<or> above a (take idx p))"
      proof (cases "length a = idx")
        case True
        then show ?thesis using s by auto
      next
        case False
        then have "take idx p = a @ 0x2f # take (idx - Suc (length a)) s" using s l by (simp add: take_Cons')
        then show ?thesis using s(1) l False by (auto simp: above_def)
      qed
    next
      assume "idx > 0 \<and> (a = take idx p \<or> above a (take idx p))"
      then show "above a p" using split r by (auto simp: above_def) ((metis append.assoc append_Cons)+)?
    qed
    show ?thesis
    proof (cases "idx > 0")
      case True
      then show ?thesis using 1 [OF Some True refl] Some anc
        by (cases "m (take idx p)") (auto simp: gone_above.simps [of m p] Let_def)
    next
      case False
      then show ?thesis using Some anc by (auto simp: gone_above.simps [of m p])
    qed
  qed
qed

lemma prefix_between:
  fixes s t d :: "'a::linorder list"
  assumes "d \<le> s" "s \<le> d @ t"
  shows "take (length d) s = d"
  using assms
proof (induction d arbitrary: s)
  case (Cons x d)
  then obtain y s' where s: "s = y # s'" by (cases s) auto
  with Cons.prems have "y = x" "d \<le> s'" "s' \<le> d @ t" by auto
  then show ?case using Cons.IH s by simp
qed simp

lemma first_below_spec:
  assumes "sorted paths"
  shows "(\<exists>q. first_below m paths p = m q \<and> q \<in> set paths \<and> (\<exists>s. q = p @ 0x2f # s)) \<or>
    first_below m paths p = None \<and> \<not> (\<exists>q \<in> set paths. \<exists>s. q = p @ 0x2f # s)"
proof -
  define dir where "dir = p @ [0x2f]"
  define i where "i = length (takeWhile (\<lambda>x. x < dir) paths)"
  have pre: "\<not> x < dir" if "x = p @ 0x2f # s" for x s
  proof -
    have "dir \<le> dir @ s" by (induction dir) auto
    then show ?thesis using that by (simp add: dir_def)
  qed
  show ?thesis
  proof (cases "i < length paths \<and> take (length dir) (paths ! i) = dir")
    case True
    then have "paths ! i = dir @ drop (length dir) (paths ! i)" by (metis append_take_drop_id)
    then show ?thesis using True by (intro disjI1 exI [of _ "paths ! i"]) (auto simp: first_below_def Let_def dir_def i_def)
  next
    case False
    have "\<not> (\<exists>q \<in> set paths. \<exists>s. q = p @ 0x2f # s)"
    proof
      assume "\<exists>q \<in> set paths. \<exists>s. q = p @ 0x2f # s"
      then obtain j s where j: "j < length paths" "paths ! j = p @ 0x2f # s" by (auto simp: in_set_conv_nth)
      have ij: "i \<le> j"
      proof (rule ccontr)
        assume "\<not> i \<le> j"
        then have "paths ! j < dir" unfolding i_def by (metis nth_mem not_le set_takeWhileD takeWhile_nth)
        then show False using pre j(2) by blast
      qed
      have "paths ! i \<le> paths ! j" by (rule sorted_nth_mono [OF assms ij j(1)])
      moreover have "i < length paths" using ij j(1) by simp
      moreover from this have "\<not> paths ! i < dir" unfolding i_def by (rule nth_length_takeWhile)
      ultimately have "i < length paths" "paths ! i \<le> dir @ s" "\<not> paths ! i < dir" using j(2) by (simp_all add: dir_def)
      then show False using False prefix_between [of dir "paths ! i" s] by auto
    qed
    then show ?thesis using False by (auto simp: first_below_def Let_def dir_def i_def)
  qed
qed

section \<open>The partition\<close>

lemma local_at_mem: "local_at lcl p = Some l \<Longrightarrow> l \<in> set lcl \<and> ch_path l = p"
  by (auto simp: local_at_def find_Some_iff) (metis length_rev nth_mem set_rev)

lemma local_at_path: "p \<in> ch_path ` set lcl \<Longrightarrow> \<exists>l. local_at lcl p = Some l"
  using find_None_iff [of "\<lambda>c. ch_path c = p" "rev lcl"] by (fastforce simp: local_at_def)

lemma merge_one_spec:
  fixes lcl inc
  defines "m \<equiv> index_changes lcl Map.empty"
  shows "\<exists>cf. merge_one m (sort (map ch_path lcl)) inc =
      (if safe lcl inc then [inc] else [], if safe lcl inc \<or> moot lcl inc then [] else [cf]) \<and>
    (\<not> safe lcl inc \<and> \<not> moot lcl inc \<longrightarrow> cf_path cf = ch_path inc \<and> cf_incoming cf = inc \<and> cf_local cf \<in> set lcl)"
proof -
  have m: "m = local_at lcl" by (auto simp: m_def index_changes_spec split: option.splits)
  show ?thesis
  proof (cases "local_at lcl (ch_path inc)")
    case (Some l)
    then show ?thesis using local_at_mem [OF Some]
      by (auto simp: merge_one_def Let_def m safe_def moot_def agrees_def split: option.splits)
  next
    case None
    show ?thesis
    proof (cases "gone_above m (ch_path inc)")
      case (Some l)
      then have "taken_above lcl (ch_path inc)" "l \<in> set lcl"
        using gone_above_spec [of m "ch_path inc"] local_at_mem by (auto simp: taken_above_def m)
      then show ?thesis using None Some by (auto simp: merge_one_def Let_def m safe_def moot_def)
    next
      case gone: None
      then have nt: "\<not> taken_above lcl (ch_path inc)"
        using gone_above_spec [of m "ch_path inc"] by (auto simp: taken_above_def m)
      have "(\<exists>l. first_below m (sort (map ch_path lcl)) (ch_path inc) = Some l \<and> l \<in> set lcl \<and> touched_below lcl (ch_path inc)) \<or>
        first_below m (sort (map ch_path lcl)) (ch_path inc) = None \<and> \<not> touched_below lcl (ch_path inc)"
        using first_below_spec [OF sorted_sort, of m "map ch_path lcl" "ch_path inc"]
      proof (elim disjE exE conjE)
        fix q s assume q: "first_below m (sort (map ch_path lcl)) (ch_path inc) = m q" "q \<in> set (sort (map ch_path lcl))"
          "q = ch_path inc @ 0x2f # s"
        then obtain l where "local_at lcl q = Some l" using local_at_path [of q lcl] by auto
        with q local_at_mem [OF this] show ?thesis by (auto simp: touched_below_def m)
      qed (auto simp: touched_below_def image_iff)
      then show ?thesis using None gone nt by (auto simp: merge_one_def Let_def m safe_def moot_def split: option.splits)
    qed
  qed
qed

lemma merge_partition:
  "\<exists>cfs. merge_changes lcl incoming = (filter (safe lcl) incoming, cfs) \<and>
    map cf_incoming cfs = filter (\<lambda>c. \<not> safe lcl c \<and> \<not> moot lcl c) incoming \<and>
    (\<forall>f \<in> set cfs. cf_path f = ch_path (cf_incoming f) \<and> cf_local f \<in> set lcl)"
  unfolding merge_changes_def
proof (induction incoming)
  case (Cons inc incs)
  from merge_one_spec [of lcl inc] obtain cf where
    "merge_one (index_changes lcl Map.empty) (sort (map ch_path lcl)) inc =
      (if safe lcl inc then [inc] else [], if safe lcl inc \<or> moot lcl inc then [] else [cf])"
    "\<not> safe lcl inc \<and> \<not> moot lcl inc \<longrightarrow> cf_path cf = ch_path inc \<and> cf_incoming cf = inc \<and> cf_local cf \<in> set lcl" by blast
  with Cons show ?case by auto
qed simp

end
