(* ===== verification/Udiff_Lcs.thy ===== *)
theory Udiff_Lcs
  imports Gosort_Pdq "HOL-Library.Signed_Division"
begin

text \<open>
  \<^verbatim>\<open>crates/udiff/src/lcs.rs\<close>: the common subsequence behind a line diff, by Myers' algorithm from both ends with a
  bound on the search. Every \<^verbatim>\<open>isize\<close> is an integer (the lengths of slices keep the sums in range); an index or a
  slice out of range, a panic and a loop that does not end are \<open>None\<close>. The sort is \<open>slice_sort\<close>:
  \<^verbatim>\<open>udiff/src/gosort.rs\<close> has the same \<^verbatim>\<open>slice\<close>.
\<close>

section \<open>Labels\<close>

text \<open>Row \<open>d\<close> has \<open>d + 1\<close> entries; the label of \<open>(d, k)\<close> is at \<open>(d + k) / 2\<close>.\<close>

type_synonym label = "int list list"

definition usize_index :: "int \<Rightarrow> 'a list \<Rightarrow> nat option" where
  "usize_index i xs = (if 0 \<le> i \<and> nat i < length xs then Some (nat i) else None)"

definition newtriang :: "int \<Rightarrow> label" where
  "newtriang limit = (if limit < 100 then replicate (nat limit) [] else [])"

definition grow :: "nat \<Rightarrow> label \<Rightarrow> label" where
  "grow row v = v @ replicate (Suc row - length v) []"

definition label_set :: "label \<Rightarrow> int \<Rightarrow> int \<Rightarrow> int \<Rightarrow> label option" where
  "label_set v d k x = (if d < 0 then None else
     (let row = nat d; v1 = grow row v; r = (if v1 ! row = [] then replicate (Suc row) 0 else v1 ! row) in
      do { i \<leftarrow> usize_index ((d + k) sdiv 2) r; Some (v1[row := r[i := x]]) }))"

definition label_get :: "label \<Rightarrow> int \<Rightarrow> int \<Rightarrow> int option" where
  "label_get v d k = do {
     row \<leftarrow> usize_index d v;
     i \<leftarrow> usize_index ((d + k) sdiv 2) (v ! row);
     Some (v ! row ! i)
   }"

section \<open>Sequences\<close>

definition slice_range :: "'a list \<Rightarrow> int \<Rightarrow> int \<Rightarrow> 'a list option" where
  "slice_range xs i j =
     (if 0 \<le> i \<and> i \<le> j \<and> j \<le> int (length xs) then Some (take (nat (j - i)) (drop (nat i) xs)) else None)"

fun common_prefix_len :: "'a list \<Rightarrow> 'a list \<Rightarrow> int" where
  "common_prefix_len (x # xs) (y # ys) = (if x = y then 1 + common_prefix_len xs ys else 0)"
| "common_prefix_len _ _ = 0"

definition common_suffix_len :: "'a list \<Rightarrow> 'a list \<Rightarrow> int" where
  "common_suffix_len xs ys = common_prefix_len (rev xs) (rev ys)"

section \<open>Diagonals\<close>

record diag =
  dg_x :: int
  dg_y :: int
  dg_len :: int

type_synonym lcs = "diag list"

definition diag_less :: "diag \<Rightarrow> diag \<Rightarrow> bool" where
  "diag_less a b = (if dg_x a \<noteq> dg_x b then dg_x a < dg_x b else dg_len a > dg_len b)"

definition lcs_sort :: "lcs \<Rightarrow> lcs option" where
  "lcs_sort l = slice_sort l diag_less"

fun lcs_prepend :: "int \<Rightarrow> int \<Rightarrow> lcs \<Rightarrow> lcs" where
  "lcs_prepend x y (d # l) =
     (if dg_x d = x + 1 \<and> dg_y d = y + 1 then d\<lparr>dg_x := x, dg_y := y, dg_len := dg_len d + 1\<rparr> # l
      else \<lparr>dg_x = x, dg_y = y, dg_len = 1\<rparr> # d # l)"
| "lcs_prepend x y [] = [\<lparr>dg_x = x, dg_y = y, dg_len = 1\<rparr>]"

definition lcs_append :: "int \<Rightarrow> int \<Rightarrow> lcs \<Rightarrow> lcs" where
  "lcs_append x y l =
     (if l \<noteq> [] \<and> dg_x (last l) + dg_len (last l) = x \<and> dg_y (last l) + dg_len (last l) = y
      then butlast l @ [(last l)\<lparr>dg_len := dg_len (last l) + 1\<rparr>]
      else l @ [\<lparr>dg_x = x, dg_y = y, dg_len = 1\<rparr>])"

definition ok_dk :: "int \<Rightarrow> int \<Rightarrow> bool" where
  "ok_dk d k \<longleftrightarrow> d \<ge> 0 \<and> - d \<le> k \<and> k \<le> d"

section \<open>The edit graph\<close>

record 'a edit_graph =
  eg_a :: "'a list"
  eg_b :: "'a list"
  eg_vf :: label
  eg_vb :: label
  eg_limit :: int
  eg_lx :: int
  eg_ly :: int
  eg_ux :: int
  eg_uy :: int
  eg_delta :: int

abbreviation get_forward :: "'a edit_graph \<Rightarrow> int \<Rightarrow> int \<Rightarrow> int option" where
  "get_forward e d k \<equiv> label_get (eg_vf e) d k"

abbreviation get_backward :: "'a edit_graph \<Rightarrow> int \<Rightarrow> int \<Rightarrow> int option" where
  "get_backward e d k \<equiv> label_get (eg_vb e) d k"

definition look_forward :: "'a edit_graph \<Rightarrow> int \<Rightarrow> int \<Rightarrow> int option" where
  "look_forward e k relx =
     (let rely = relx - k; x = relx + eg_lx e; y = rely + eg_ly e in
      if x < eg_ux e \<and> y < eg_uy e then do {
        sa \<leftarrow> slice_range (eg_a e) x (eg_ux e);
        sb \<leftarrow> slice_range (eg_b e) y (eg_uy e);
        Some (x + common_prefix_len sa sb)
      } else Some x)"

definition set_forward :: "int \<Rightarrow> int \<Rightarrow> int \<Rightarrow> 'a edit_graph \<Rightarrow> 'a edit_graph option" where
  "set_forward d k relx e = do {
     x \<leftarrow> look_forward e k relx;
     v \<leftarrow> label_set (eg_vf e) d k (x - eg_lx e);
     Some (e\<lparr>eg_vf := v\<rparr>)
   }"

definition look_backward :: "'a edit_graph \<Rightarrow> int \<Rightarrow> int \<Rightarrow> int option" where
  "look_backward e k relx =
     (let rely = relx - (k + eg_delta e); x = relx + eg_lx e; y = rely + eg_ly e in
      if x > 0 \<and> y > 0 then do {
        sa \<leftarrow> slice_range (eg_a e) 0 x;
        sb \<leftarrow> slice_range (eg_b e) 0 y;
        Some (x - common_suffix_len sa sb)
      } else Some x)"

definition set_backward :: "int \<Rightarrow> int \<Rightarrow> int \<Rightarrow> 'a edit_graph \<Rightarrow> 'a edit_graph option" where
  "set_backward d k relx e = do {
     x \<leftarrow> look_backward e k relx;
     v \<leftarrow> label_set (eg_vb e) d k (x - eg_lx e);
     Some (e\<lparr>eg_vb := v\<rparr>)
   }"

section \<open>Backtracking\<close>

text \<open>A test of the form \<^verbatim>\<open>ok(d, k) && x == label(d, k)\<close>.\<close>

definition labelled :: "label \<Rightarrow> int \<Rightarrow> int \<Rightarrow> int \<Rightarrow> bool option" where
  "labelled v d k x = (if ok_dk d k then do { z \<leftarrow> label_get v d k; Some (x = z) } else Some False)"

partial_function (option) forwardlcs_loop :: "'a edit_graph \<Rightarrow> int \<Rightarrow> int \<Rightarrow> int \<Rightarrow> lcs \<Rightarrow> lcs option" where
  "forwardlcs_loop e d k x ans =
     (if x \<noteq> 0 \<or> x - k \<noteq> 0 then do {
        h \<leftarrow> labelled (eg_vf e) (d - 1) (k - 1) (x - 1);
        if h then forwardlcs_loop e (d - 1) (k - 1) (x - 1) ans
        else do {
          v \<leftarrow> labelled (eg_vf e) (d - 1) (k + 1) x;
          if v then forwardlcs_loop e (d - 1) (k + 1) x ans
          else forwardlcs_loop e d k (x - 1) (lcs_prepend (x + eg_lx e - 1) (x - k + eg_ly e - 1) ans)
        }
      } else Some ans)"

definition forwardlcs :: "'a edit_graph \<Rightarrow> int \<Rightarrow> int \<Rightarrow> lcs option" where
  "forwardlcs e d k = do { x \<leftarrow> get_forward e d k; forwardlcs_loop e d k x [] }"

definition fdone :: "'a edit_graph \<Rightarrow> int \<Rightarrow> int \<Rightarrow> lcs option option" where
  "fdone e d k = do {
     x \<leftarrow> get_forward e d k;
     if x = eg_ux e \<and> x - k = eg_uy e then do { l \<leftarrow> forwardlcs e d k; Some (Some l) } else Some None
   }"

partial_function (option) backwardlcs_loop :: "'a edit_graph \<Rightarrow> int \<Rightarrow> int \<Rightarrow> int \<Rightarrow> lcs \<Rightarrow> lcs option" where
  "backwardlcs_loop e d k x ans =
     (if x \<noteq> eg_ux e \<or> x - (k + eg_delta e) \<noteq> eg_uy e then do {
        v \<leftarrow> labelled (eg_vb e) (d - 1) (k - 1) x;
        if v then backwardlcs_loop e (d - 1) (k - 1) x ans
        else do {
          h \<leftarrow> labelled (eg_vb e) (d - 1) (k + 1) (x + 1);
          if h then backwardlcs_loop e (d - 1) (k + 1) (x + 1) ans
          else backwardlcs_loop e d k (x + 1) (lcs_append (x + eg_lx e) (x - (k + eg_delta e) + eg_ly e) ans)
        }
      } else Some ans)"

definition backwardlcs :: "'a edit_graph \<Rightarrow> int \<Rightarrow> int \<Rightarrow> lcs option" where
  "backwardlcs e d k = do { x \<leftarrow> get_backward e d k; backwardlcs_loop e d k x [] }"

section \<open>Forward and backward passes\<close>

text \<open>The inner loop of a forward pass from \<open>d\<close> to \<open>d + 1\<close>; \<open>check\<close> is what is tried after each label.\<close>

partial_function (option) forward_inner :: "('a edit_graph \<Rightarrow> int \<Rightarrow> 'r option option) \<Rightarrow> int \<Rightarrow> int \<Rightarrow> 'a edit_graph \<Rightarrow>
    ('r + 'a edit_graph) option" where
  "forward_inner check d k e =
     (if k < d then do {
        pv \<leftarrow> get_forward e d (k - 1);
        lookv \<leftarrow> look_forward e k (pv + 1);
        ph \<leftarrow> get_forward e d (k + 1);
        lookh \<leftarrow> look_forward e k ph;
        e1 \<leftarrow> set_forward (d + 1) k (if lookv > lookh then lookv else lookh) e;
        r \<leftarrow> check e1 k;
        case r of Some ans \<Rightarrow> Some (Inl ans) | None \<Rightarrow> forward_inner check d (k + 2) e1
      } else Some (Inr e))"

definition forward_pass :: "('a edit_graph \<Rightarrow> int \<Rightarrow> 'r option option) \<Rightarrow> int \<Rightarrow> 'a edit_graph \<Rightarrow> ('r + 'a edit_graph) option" where
  "forward_pass check d e = do {
     p \<leftarrow> get_forward e d (- d);
     e1 \<leftarrow> set_forward (d + 1) (- (d + 1)) p e;
     r1 \<leftarrow> check e1 (- (d + 1));
     case r1 of Some ans \<Rightarrow> Some (Inl ans) | None \<Rightarrow> do {
       q \<leftarrow> get_forward e1 d d;
       e2 \<leftarrow> set_forward (d + 1) (d + 1) (q + 1) e1;
       r2 \<leftarrow> check e2 (d + 1);
       case r2 of Some ans \<Rightarrow> Some (Inl ans) | None \<Rightarrow> forward_inner check d (- d + 1) e2
     }
   }"

partial_function (option) backward_inner :: "int \<Rightarrow> int \<Rightarrow> 'a edit_graph \<Rightarrow> 'a edit_graph option" where
  "backward_inner d k e =
     (if k < d then do {
        pv \<leftarrow> get_backward e d (k - 1);
        lookv \<leftarrow> look_backward e k pv;
        ph \<leftarrow> get_backward e d (k + 1);
        lookh \<leftarrow> look_backward e k (ph - 1);
        e1 \<leftarrow> set_backward (d + 1) k (if lookv < lookh then lookv else lookh) e;
        backward_inner d (k + 2) e1
      } else Some e)"

definition backward_pass :: "int \<Rightarrow> 'a edit_graph \<Rightarrow> 'a edit_graph option" where
  "backward_pass d e = do {
     p \<leftarrow> get_backward e d (- d);
     e1 \<leftarrow> set_backward (d + 1) (- (d + 1)) (p - 1) e;
     q \<leftarrow> get_backward e1 d d;
     e2 \<leftarrow> set_backward (d + 1) (d + 1) q e1;
     backward_inner d (- d + 1) e2
   }"

text \<open>The search for the furthest label of the last row inside the rectangle, and its backward counterpart.\<close>

partial_function (option) best_forward :: "'a edit_graph \<Rightarrow> int \<Rightarrow> int \<Rightarrow> int \<Rightarrow> int option" where
  "best_forward e k diagmax kmax =
     (if k \<le> eg_limit e then do {
        x \<leftarrow> get_forward e (eg_limit e) k;
        (if x + (x - k) > diagmax \<and> x \<le> eg_ux e \<and> x - k \<le> eg_uy e
         then best_forward e (k + 2) (x + (x - k)) k else best_forward e (k + 2) diagmax kmax)
      } else Some kmax)"

partial_function (option) best_backward :: "'a edit_graph \<Rightarrow> int \<Rightarrow> int \<Rightarrow> int \<Rightarrow> int option" where
  "best_backward e k diagmin kmax =
     (if k \<le> eg_limit e then do {
        x \<leftarrow> get_backward e (eg_limit e) k;
        let y = x - (k + eg_delta e);
        (if x + y < diagmin \<and> x \<ge> 0 \<and> y \<ge> 0
         then best_backward e (k + 2) (x + y) k else best_backward e (k + 2) diagmin kmax)
      } else Some kmax)"

partial_function (option) forward_rows :: "int \<Rightarrow> 'a edit_graph \<Rightarrow> lcs option" where
  "forward_rows d e =
     (if d < eg_limit e then do {
        r \<leftarrow> forward_pass (\<lambda>e k. fdone e (d + 1) k) d e;
        case r of Inl ans \<Rightarrow> Some ans | Inr e1 \<Rightarrow> forward_rows (d + 1) e1
      } else do {
        kmax \<leftarrow> best_forward e (- eg_limit e) (- 1) (- eg_limit e - 1);
        forwardlcs e (eg_limit e) kmax
      })"

definition forward :: "'a edit_graph \<Rightarrow> lcs option" where
  "forward e = do {
     e0 \<leftarrow> set_forward 0 0 (eg_lx e) e;
     r \<leftarrow> fdone e0 0 0;
     case r of Some ans \<Rightarrow> Some ans | None \<Rightarrow> forward_rows 0 e0
   }"

section \<open>From both ends\<close>

partial_function (option) done_other :: "'a edit_graph \<Rightarrow> int \<Rightarrow> int \<Rightarrow> int \<Rightarrow> int \<Rightarrow> int \<Rightarrow> int option" where
  "done_other e df db k l kmax =
     (if l \<le> kmax then do {
        x \<leftarrow> get_forward e df l;
        u \<leftarrow> get_backward e db (l - eg_delta e);
        if x = u \<or> u = 0 \<or> u - l = 0 \<or> x - l = eg_uy e \<or> x = eg_ux e then Some l
        else done_other e df db k (l + 2) kmax
      } else Some k)"

partial_function (option) done_scan :: "'a edit_graph \<Rightarrow> int \<Rightarrow> int \<Rightarrow> int \<Rightarrow> int \<Rightarrow> int option option" where
  "done_scan e df db k kmax =
     (if k \<le> kmax then do {
        x \<leftarrow> get_forward e df k;
        u \<leftarrow> get_backward e db (k - eg_delta e);
        if u \<le> x then do { l \<leftarrow> done_other e df db k k kmax; Some (Some l) }
        else done_scan e df db (k + 2) kmax
      } else Some None)"

definition two_done :: "'a edit_graph \<Rightarrow> int \<Rightarrow> int \<Rightarrow> int option option" where
  "two_done e df db =
     (if (df + db + eg_delta e) smod 2 \<noteq> 0 then Some None
      else done_scan e df db (max (- df) (- db + eg_delta e)) (min df (db + eg_delta e)))"

definition join_sorted :: "lcs option \<Rightarrow> lcs option \<Rightarrow> lcs option" where
  "join_sorted p q = do { l \<leftarrow> p; m \<leftarrow> q; lcs_sort (l @ m) }"

definition twolcs :: "'a edit_graph \<Rightarrow> int \<Rightarrow> int \<Rightarrow> int \<Rightarrow> lcs option" where
  "twolcs e df db kf = do {
     x \<leftarrow> get_forward e df kf;
     let y = x - kf;
     let kb = kf - eg_delta e;
     u \<leftarrow> get_backward e db kb;
     let v = u - kf;
     if x = u then join_sorted (forwardlcs e df kf) (backwardlcs e db kb)
     else do {
       c1 \<leftarrow> (if u > 0 then labelled (eg_vf e) (df - 1) (u - 1 - v) (u - 1) else Some False);
       if c1 then join_sorted (forwardlcs e (df - 1) (u - 1 - v)) (backwardlcs e db kb)
       else do {
         c2 \<leftarrow> (if v > 0 then labelled (eg_vf e) (df - 1) (u - (v - 1)) u else Some False);
         if c2 then join_sorted (forwardlcs e (df - 1) (u - (v - 1))) (backwardlcs e db kb)
         else if u = 0 \<or> v = 0 \<or> x = eg_ux e \<or> y = eg_uy e then
           (if u = 0 \<or> v = 0 then backwardlcs e db kb else forwardlcs e df kf)
         else do {
           c3 \<leftarrow> (if x < eg_ux e then labelled (eg_vb e) (db - 1) (x + 1 - y - eg_delta e) (x + 1) else Some False);
           if c3 then join_sorted (backwardlcs e (db - 1) (kb + 1)) (forwardlcs e df kf)
           else do {
             c4 \<leftarrow> (if y < eg_uy e then labelled (eg_vb e) (db - 1) (x - (y + 1) - eg_delta e) x else Some False);
             if c4 then join_sorted (backwardlcs e (db - 1) (kb - 1)) (forwardlcs e df kf)
             else join_sorted (backwardlcs e db kb) (forward (e\<lparr>eg_ux := u, eg_uy := v\<rparr>))
           }
         }
       }
     }
   }"

section \<open>Repair of overlapping diagonals\<close>

datatype direction = DEmpty | Leftdown | Rightup | Bad

definition cut_end :: "int \<Rightarrow> int \<Rightarrow> diag \<Rightarrow> diag" where
  "cut_end at_prop at_exist prop = prop\<lparr>dg_len := dg_len prop - (at_prop + dg_len prop - at_exist)\<rparr>"

definition cut_begin :: "int \<Rightarrow> diag \<Rightarrow> diag" where
  "cut_begin delta prop = prop\<lparr>dg_x := dg_x prop + delta, dg_y := dg_y prop + delta, dg_len := dg_len prop - delta\<rparr>"

text \<open>
  The four trims of \<^verbatim>\<open>overlap\<close> in order; \<open>Inl\<close> is an early return with \<^verbatim>\<open>Direction::Empty\<close>. That return leaves \<open>x\<close> and \<open>y\<close>
  as they were, so the second and the fourth trim move them only when something is left.
\<close>

definition cut_tail :: "int \<Rightarrow> int \<Rightarrow> diag \<Rightarrow> diag + diag" where
  "cut_tail pc ec prop =
     (if pc \<le> ec \<and> ec < pc + dg_len prop then
        (let p1 = cut_end pc ec prop in if dg_len p1 \<le> 0 then Inl p1 else Inr p1)
      else Inr prop)"

definition cut_head :: "int \<Rightarrow> int \<Rightarrow> int \<Rightarrow> diag \<Rightarrow> diag + diag" where
  "cut_head pc ec elen prop =
     (if ec \<le> pc \<and> pc < ec + elen then
        (let delta = ec + elen - pc in
         if dg_len prop - delta \<le> 0 then Inl (prop\<lparr>dg_len := dg_len prop - delta\<rparr>) else Inr (cut_begin delta prop))
      else Inr prop)"

definition overlap :: "diag \<Rightarrow> diag \<Rightarrow> direction \<times> diag" where
  "overlap exist prop =
     (case cut_tail (dg_x prop) (dg_x exist) prop of Inl p \<Rightarrow> (DEmpty, p) | Inr p1 \<Rightarrow>
      case cut_head (dg_x p1) (dg_x exist) (dg_len exist) p1 of Inl p \<Rightarrow> (DEmpty, p) | Inr p2 \<Rightarrow>
      case cut_tail (dg_y p2) (dg_y exist) p2 of Inl p \<Rightarrow> (DEmpty, p) | Inr p3 \<Rightarrow>
      case cut_head (dg_y p3) (dg_y exist) (dg_len exist) p3 of Inl p \<Rightarrow> (DEmpty, p) | Inr p4 \<Rightarrow>
      if dg_x p4 + dg_len p4 \<le> dg_x exist \<and> dg_y p4 + dg_len p4 \<le> dg_y exist then (Leftdown, p4)
      else if dg_x exist + dg_len exist \<le> dg_x p4 \<and> dg_y exist + dg_len exist \<le> dg_y p4 then (Rightup, p4)
      else (Bad, p4))"

fun fit :: "lcs \<Rightarrow> direction \<Rightarrow> diag \<Rightarrow> direction \<times> diag" where
  "fit [] dir nxt = (dir, nxt)"
| "fit (exist # tmp) dir nxt = (case overlap exist nxt of
     (dir1, nxt1) \<Rightarrow> if dir1 = DEmpty \<or> dir1 = Bad then (dir1, nxt1) else fit tmp dir1 nxt1)"

fun fix_loop :: "lcs \<Rightarrow> lcs \<Rightarrow> lcs" where
  "fix_loop [] tmp = tmp"
| "fix_loop (item # l) tmp = (case fit tmp DEmpty item of
     (dir, nxt) \<Rightarrow> fix_loop l (if dg_len nxt > 0 \<and> dir \<noteq> Bad then tmp @ [nxt] else tmp))"

definition lcs_fix :: "lcs \<Rightarrow> lcs option" where
  "lcs_fix l = (if l = [] then Some [] else do {
     l1 \<leftarrow> slice_sort l (\<lambda>a b. dg_len a > dg_len b);
     case l1 of [] \<Rightarrow> None | first # rest \<Rightarrow> lcs_sort (fix_loop rest [first])
   })"

section \<open>The diff\<close>

partial_function (option) two_rows :: "int \<Rightarrow> 'a edit_graph \<Rightarrow> (lcs + 'a edit_graph) option" where
  "two_rows d e =
     (if d < eg_limit e then do {
        r \<leftarrow> two_done e d d;
        case r of
          Some got \<Rightarrow> do { l \<leftarrow> twolcs e d d got; Some (Inl l) }
        | None \<Rightarrow> do {
            f \<leftarrow> forward_pass (\<lambda>e k. Some (None :: unit option)) d e;
            case f of
              Inl u \<Rightarrow> None
            | Inr e1 \<Rightarrow> do {
                r1 \<leftarrow> two_done e1 (d + 1) d;
                case r1 of
                  Some got \<Rightarrow> do { l \<leftarrow> twolcs e1 (d + 1) d got; Some (Inl l) }
                | None \<Rightarrow> do { e2 \<leftarrow> backward_pass d e1; two_rows (d + 1) e2 }
              }
          }
      } else Some (Inr e))"

definition twosided :: "'a edit_graph \<Rightarrow> lcs option" where
  "twosided e = do {
     e0 \<leftarrow> set_forward 0 0 (eg_lx e) e;
     e1 \<leftarrow> set_backward 0 0 (eg_ux e0) e0;
     r \<leftarrow> two_rows 0 e1;
     case r of
       Inl l \<Rightarrow> Some l
     | Inr e2 \<Rightarrow> do {
         kmax \<leftarrow> best_forward e2 (- eg_limit e2) (- 1) (- eg_limit e2 - 1);
         if kmax < - eg_limit e2 then None
         else do {
           l \<leftarrow> forwardlcs e2 (eg_limit e2) kmax;
           kmax1 \<leftarrow> best_backward e2 (- eg_limit e2) (2 ^ 25) kmax;
           if kmax1 < - eg_limit e2 then None
           else do { m \<leftarrow> backwardlcs e2 (eg_limit e2) kmax1; lcs_fix (l @ m) }
         }
       }
   }"

record line_diff =
  df_start :: nat
  df_end :: nat
  df_repl_start :: nat
  df_repl_end :: nat

definition new_diff :: "int \<Rightarrow> int \<Rightarrow> int \<Rightarrow> int \<Rightarrow> line_diff" where
  "new_diff s e rs re = \<lparr>df_start = nat s, df_end = nat e, df_repl_start = nat rs, df_repl_end = nat re\<rparr>"

fun to_diffs_loop :: "lcs \<Rightarrow> int \<Rightarrow> int \<Rightarrow> int \<Rightarrow> int \<Rightarrow> line_diff list" where
  "to_diffs_loop [] pa pb alen blen = (if pa < alen \<or> pb < blen then [new_diff pa alen pb blen] else [])"
| "to_diffs_loop (l # ls) pa pb alen blen =
     (if pa < dg_x l \<or> pb < dg_y l then [new_diff pa (dg_x l) pb (dg_y l)] else []) @
     to_diffs_loop ls (dg_x l + dg_len l) (dg_y l + dg_len l) alen blen"

definition to_diffs :: "lcs \<Rightarrow> int \<Rightarrow> int \<Rightarrow> line_diff list" where
  "to_diffs ls alen blen = to_diffs_loop ls 0 0 alen blen"

definition MAX_DIFFS :: int where "MAX_DIFFS = 100"

definition new_graph :: "int \<Rightarrow> 'a list \<Rightarrow> 'a list \<Rightarrow> 'a edit_graph" where
  "new_graph limit a b =
     \<lparr>eg_a = a, eg_b = b, eg_vf = newtriang limit, eg_vb = newtriang limit, eg_limit = limit, eg_lx = 0, eg_ly = 0,
      eg_ux = int (length a), eg_uy = int (length b), eg_delta = int (length a) - int (length b)\<rparr>"

definition compute :: "('a edit_graph \<Rightarrow> lcs option) \<Rightarrow> int \<Rightarrow> 'a list \<Rightarrow> 'a list \<Rightarrow> (line_diff list \<times> lcs) option" where
  "compute algo limit0 a b =
     (let limit = (if limit0 \<le> 0 then 2 ^ 25 else limit0) in do {
        l \<leftarrow> algo (new_graph limit a b);
        Some (to_diffs l (int (length a)) (int (length b)), l)
      })"

definition diff_lines :: "'a list \<Rightarrow> 'a list \<Rightarrow> line_diff list option" where
  "diff_lines a b = map_option fst (compute twosided (MAX_DIFFS sdiv 2) a b)"

text \<open>The loops are executable.\<close>

declare forwardlcs_loop.simps [code] backwardlcs_loop.simps [code] forward_inner.simps [code] backward_inner.simps
  [code] best_forward.simps [code] best_backward.simps [code] forward_rows.simps [code] done_other.simps [code]
  done_scan.simps [code] two_rows.simps [code]

end
