(* ===== verification/Udiff_Path.thy ===== *)
theory Udiff_Path
  imports Udiff_Lcs
begin

text \<open>
  The edit graph behind \<^verbatim>\<open>lcs.rs\<close>. A walk goes right, down, or along a diagonal where the sequences agree, and costs one
  for every step that is not diagonal. The plane has no bounds, as the labels of the code have none; what a walk gains
  outside the rectangle of the two sequences is bounded by \<open>walk_exit\<close>. \<open>furthest\<close> is the recurrence of the forward
  labels, and \<open>nearest\<close> the one of the backward labels, by reversal.
\<close>

section \<open>Walks\<close>

definition agree :: "'a list \<Rightarrow> 'a list \<Rightarrow> int \<Rightarrow> int \<Rightarrow> bool" where
  "agree a b x y \<longleftrightarrow> 0 \<le> x \<and> x < int (length a) \<and> 0 \<le> y \<and> y < int (length b) \<and> a ! nat x = b ! nat y"

inductive walk :: "'a list \<Rightarrow> 'a list \<Rightarrow> int \<Rightarrow> int \<Rightarrow> nat \<Rightarrow> int \<Rightarrow> int \<Rightarrow> bool" for a b x0 y0 where
  stay: "walk a b x0 y0 0 x0 y0"
| right: "walk a b x0 y0 d x y \<Longrightarrow> walk a b x0 y0 (Suc d) (x + 1) y"
| down: "walk a b x0 y0 d x y \<Longrightarrow> walk a b x0 y0 (Suc d) x (y + 1)"
| along: "walk a b x0 y0 d x y \<Longrightarrow> agree a b x y \<Longrightarrow> walk a b x0 y0 d (x + 1) (y + 1)"

lemmas walk_intros = walk.intros

lemma walk_mono: "walk a b x0 y0 d x y \<Longrightarrow> x0 \<le> x \<and> y0 \<le> y"
  by (induction rule: walk.induct) auto

lemma walk_range: "walk a b x0 y0 d x y \<Longrightarrow> \<bar>x - y - (x0 - y0)\<bar> \<le> int d \<and> even (int d + (x - y - (x0 - y0)))"
  by (induction rule: walk.induct) auto

lemma walk_append:
  assumes "walk a b x1 y1 e x2 y2" and "walk a b x0 y0 d x1 y1"
  shows "walk a b x0 y0 (d + e) x2 y2"
  using assms by (induction rule: walk.induct) (auto intro: walk_intros)

lemma walk_split:
  "walk a b x0 y0 d x y \<Longrightarrow> e \<le> d \<Longrightarrow> \<exists>x1 y1. walk a b x0 y0 e x1 y1 \<and> walk a b x1 y1 (d - e) x y"
proof (induction arbitrary: rule: walk.induct)
  case stay
  then show ?case by (auto intro: walk.stay)
next
  case (right d x y)
  show ?case
  proof (cases "e = Suc d")
    case True
    then show ?thesis using walk.right [OF right.hyps] by (auto intro: walk.stay)
  next
    case False
    then show ?thesis using right by (fastforce simp: Suc_diff_le intro: walk.right)
  qed
next
  case (down d x y)
  show ?case
  proof (cases "e = Suc d")
    case True
    then show ?thesis using walk.down [OF down.hyps] by (auto intro: walk.stay)
  next
    case False
    then show ?thesis using down by (fastforce simp: Suc_diff_le intro: walk.down)
  qed
next
  case (along d x y)
  then show ?case by (meson walk.along)
qed

lemma walk_right: "walk a b x0 y0 n (x0 + int n) y0"
proof (induction n)
  case (Suc n)
  then show ?case using walk.right [OF Suc] by (simp add: algebra_simps)
qed (simp add: walk.stay)

lemma walk_down: "walk a b x0 y0 n x0 (y0 + int n)"
proof (induction n)
  case (Suc n)
  then show ?case using walk.down [OF Suc] by (simp add: algebra_simps)
qed (simp add: walk.stay)

lemma walk_straight: "x0 \<le> x \<Longrightarrow> y0 \<le> y \<Longrightarrow> walk a b x0 y0 (nat (x - x0) + nat (y - y0)) x y"
  using walk_append [OF walk_down [of a b x y0 "nat (y - y0)"]] walk_right [of a b x0 y0 "nat (x - x0)"] by simp

lemma agree_rev:
  "agree (rev a) (rev b) (int (length a) - x - 1) (int (length b) - y - 1) \<longleftrightarrow> agree a b x y"
  by (auto simp: agree_def rev_nth nat_diff_distrib Suc_diff_le [symmetric] intro!: arg_cong2 [of _ _ _ _ "(=)"] arg_cong [of _ _ "(!) _"])

lemma walk_cons:
  assumes "walk a b x1 y1 d x y"
  shows "walk a b (x1 - 1) y1 (Suc d) x y" "walk a b x1 (y1 - 1) (Suc d) x y"
    "agree a b (x1 - 1) (y1 - 1) \<Longrightarrow> walk a b (x1 - 1) (y1 - 1) d x y"
proof -
  show "walk a b (x1 - 1) y1 (Suc d) x y"
    using walk_append [OF assms, of "x1 - 1" y1 1] walk.right [OF walk.stay, of a b "x1 - 1" y1] by simp
  show "walk a b x1 (y1 - 1) (Suc d) x y"
    using walk_append [OF assms, of x1 "y1 - 1" 1] walk.down [OF walk.stay, of a b x1 "y1 - 1"] by simp
  show "walk a b (x1 - 1) (y1 - 1) d x y" if "agree a b (x1 - 1) (y1 - 1)"
    using walk_append [OF assms, of "x1 - 1" "y1 - 1" 0] walk.along [OF walk.stay that] by simp
qed

lemma walk_rev:
  "walk a b x0 y0 d x y \<Longrightarrow>
   walk (rev a) (rev b) (int (length a) - x) (int (length b) - y) d (int (length a) - x0) (int (length b) - y0)"
proof (induction rule: walk.induct)
  case (along d x y)
  then show ?case using walk_cons(3) [OF along.IH] agree_rev [of a b x y] by (simp add: algebra_simps)
qed (auto intro: walk.stay dest: walk_cons(1,2) simp: algebra_simps)

lemma walk_rev_iff:
  "walk (rev a) (rev b) x y d x' y' \<longleftrightarrow>
   walk a b (int (length a) - x') (int (length b) - y') d (int (length a) - x) (int (length b) - y)"
  using walk_rev [of "rev a" "rev b" x y d x' y']
    walk_rev [of a b "int (length a) - x'" "int (length b) - y'" d "int (length a) - x" "int (length b) - y"] by auto

text \<open>The cost of a point never falls along a diagonal.\<close>

lemma walk_shorten:
  "walk a b 0 0 d x y \<Longrightarrow> (0 < y \<longrightarrow> (\<exists>d' \<le> Suc d. walk a b 0 0 d' x (y - 1))) \<and> (0 < x \<longrightarrow> (\<exists>d' \<le> Suc d. walk a b 0 0 d' (x - 1) y))"
proof (induction rule: walk.induct)
  case (right d x y)
  then have "walk a b 0 0 d (x + 1 - 1) y" by simp
  then show ?case using right.IH by (metis Suc_le_mono le_Suc_eq walk.right)
next
  case (down d x y)
  then have "walk a b 0 0 d x (y + 1 - 1)" by simp
  then show ?case using down.IH by (metis Suc_le_mono le_Suc_eq walk.down)
next
  case (along d x y)
  have "walk a b 0 0 (Suc d) (x + 1) (y + 1 - 1)" "walk a b 0 0 (Suc d) (x + 1 - 1) (y + 1)"
    using walk.right [OF along.hyps(1)] walk.down [OF along.hyps(1)] by simp_all
  then show ?case by blast
qed simp

lemma walk_diagonal_step:
  assumes "walk a b 0 0 d x y" and "0 < x" and "0 < y"
  shows "\<exists>d' \<le> d. walk a b 0 0 d' (x - 1) (y - 1)"
  using assms
proof (cases rule: walk.cases)
  case (right d' x')
  then show ?thesis using walk_shorten [OF right(3)] assms(3) by auto
next
  case (down d' y')
  then show ?thesis using walk_shorten [OF down(3)] assms(2) by auto
qed auto

lemma walk_diagonal:
  "walk a b 0 0 d (u + int n) (v + int n) \<Longrightarrow> 0 \<le> u \<Longrightarrow> 0 \<le> v \<Longrightarrow> \<exists>d' \<le> d. walk a b 0 0 d' u v"
proof (induction n arbitrary: d)
  case (Suc n)
  from walk_diagonal_step [OF Suc.prems(1)] Suc.prems(2,3) obtain d' where
    "d' \<le> d" "walk a b 0 0 d' (u + int n) (v + int n)" by (auto simp: algebra_simps)
  then show ?case using Suc.IH [of d'] Suc.prems(2,3) by (meson le_trans)
qed auto

text \<open>A walk that touches the far edges can be bent to the corner.\<close>

lemma walk_exit:
  "walk a b 0 0 d x y \<Longrightarrow> int (length a) \<le> x \<or> int (length b) \<le> y \<Longrightarrow>
   \<exists>d0. walk a b 0 0 d0 (int (length a)) (int (length b)) \<and> int d0 + x + y = int d + int (length a) + int (length b)"
proof (induction rule: walk.induct)
  case stay
  then show ?case using walk_straight [of 0 "int (length a)" 0 "int (length b)" a b] by fastforce
next
  case (right d x y)
  show ?case
  proof (cases "int (length a) \<le> x \<or> int (length b) \<le> y")
    case False
    then have "x + 1 = int (length a)" "y < int (length b)" using right.prems by auto
    then have "walk a b (x + 1) y (nat (int (length b) - y)) (int (length a)) (int (length b))"
      using walk_straight [of "x + 1" "int (length a)" y "int (length b)" a b] by simp
    from walk_append [OF this walk.right [OF right.hyps]] \<open>x + 1 = _\<close> \<open>y < _\<close> show ?thesis by (intro exI conjI) auto
  qed (use right.IH in fastforce)
next
  case (down d x y)
  show ?case
  proof (cases "int (length a) \<le> x \<or> int (length b) \<le> y")
    case False
    then have "y + 1 = int (length b)" "x < int (length a)" using down.prems by auto
    then have "walk a b x (y + 1) (nat (int (length a) - x)) (int (length a)) (int (length b))"
      using walk_straight [of x "int (length a)" "y + 1" "int (length b)" a b] by simp
    from walk_append [OF this walk.down [OF down.hyps]] \<open>y + 1 = _\<close> \<open>x < _\<close> show ?thesis by (intro exI conjI) auto
  qed (use down.IH in fastforce)
next
  case (along d x y)
  then have le: "x + 1 \<le> int (length a)" "y + 1 \<le> int (length b)" by (auto simp: agree_def)
  from walk_append [OF walk_straight [OF this] walk.along [OF along.hyps]] le show ?case by (intro exI conjI) auto
qed

lemma walk_enter:
  assumes "walk a b u v d (int (length a)) (int (length b))" and "u \<le> 0 \<or> v \<le> 0"
  shows "\<exists>d0. walk a b 0 0 d0 (int (length a)) (int (length b)) \<and> int d0 = int d + u + v"
  using walk_exit [of "rev a" "rev b" d "int (length a) - u" "int (length b) - v"] walk_rev [OF assms(1)] assms(2)
  by (auto simp: walk_rev_iff)

lemma agree_take: "agree a b x y \<Longrightarrow> x < int u \<Longrightarrow> y < int v \<Longrightarrow> agree (take u a) (take v b) x y"
  by (auto simp: agree_def)

lemma agree_takeD: "agree (take u a) (take v b) x y \<Longrightarrow> agree a b x y"
  by (auto simp: agree_def)

lemma walk_take: "walk a b 0 0 d x y \<Longrightarrow> x \<le> int u \<Longrightarrow> y \<le> int v \<Longrightarrow> walk (take u a) (take v b) 0 0 d x y"
proof (induction rule: walk.induct)
  case (along d x y)
  then show ?case using walk.along [of "take u a" "take v b"] agree_take [OF along.hyps(2), of u v] by auto
qed (auto intro: walk_intros)

section \<open>Snakes\<close>

definition snake :: "'a list \<Rightarrow> 'a list \<Rightarrow> int \<Rightarrow> int \<Rightarrow> int" where
  "snake a b k x =
     (if x < int (length a) \<and> x - k < int (length b)
      then x + common_prefix_len (drop (nat x) a) (drop (nat (x - k)) b) else x)"

lemma common_prefix_len_spec:
  "0 \<le> common_prefix_len xs ys \<and> common_prefix_len xs ys \<le> int (length xs) \<and> common_prefix_len xs ys \<le> int (length ys) \<and>
   (\<forall>i < nat (common_prefix_len xs ys). xs ! i = ys ! i) \<and>
   (let n = nat (common_prefix_len xs ys) in n < length xs \<longrightarrow> n < length ys \<longrightarrow> xs ! n \<noteq> ys ! n)"
proof (induction xs ys rule: common_prefix_len.induct)
  case (1 x xs y ys)
  then show ?case by (auto simp: Let_def nth_Cons nat_add_distrib split: nat.splits)
qed auto

lemma snake_ge: "x \<le> snake a b k x"
  using common_prefix_len_spec [of "drop (nat x) a" "drop (nat (x - k)) b"] by (simp add: snake_def)

lemma snake_agree:
  assumes "0 \<le> x" and "0 \<le> x - k" and "x \<le> i" and "i < snake a b k x"
  shows "agree a b i (i - k)"
proof -
  let ?n = "common_prefix_len (drop (nat x) a) (drop (nat (x - k)) b)"
  have b: "x < int (length a)" "x - k < int (length b)" "snake a b k x = x + ?n"
    using assms(3,4) by (auto simp: snake_def split: if_splits)
  note s = common_prefix_len_spec [of "drop (nat x) a" "drop (nat (x - k)) b"]
  have i: "nat (i - x) < nat ?n" using assms b by linarith
  then have "drop (nat x) a ! nat (i - x) = drop (nat (x - k)) b ! nat (i - x)" using s by blast
  moreover have "nat x + nat (i - x) = nat i" "nat (x - k) + nat (i - x) = nat (i - k)" using assms by linarith+
  ultimately have "a ! nat i = b ! nat (i - k)" by (metis add.commute b(1,2) nth_drop nat_le_iff less_imp_le)
  moreover have "i < int (length a)" "i - k < int (length b)" using s i assms(1,2) b(1,2) by (auto simp: length_drop)
  ultimately show ?thesis using assms(1-3) by (simp add: agree_def)
qed

lemma snake_stops:
  assumes "0 \<le> x" and "0 \<le> x - k"
  shows "\<not> agree a b (snake a b k x) (snake a b k x - k)"
proof (cases "x < int (length a) \<and> x - k < int (length b)")
  case True
  let ?n = "common_prefix_len (drop (nat x) a) (drop (nat (x - k)) b)"
  note s = common_prefix_len_spec [of "drop (nat x) a" "drop (nat (x - k)) b"]
  have e: "snake a b k x = x + ?n" using True by (simp add: snake_def)
  show ?thesis
  proof
    assume ag: "agree a b (snake a b k x) (snake a b k x - k)"
    then have n: "x + ?n < int (length a)" "x + ?n - k < int (length b)" "a ! nat (x + ?n) = b ! nat (x + ?n - k)"
      unfolding e agree_def by blast+
    have l: "nat ?n < length (drop (nat x) a)" "nat ?n < length (drop (nat (x - k)) b)"
      using n(1,2) assms s by simp_all linarith+
    have "nat x + nat ?n = nat (x + ?n)" "nat (x - k) + nat ?n = nat (x + ?n - k)" using assms s by linarith+
    then have "drop (nat x) a ! nat ?n = drop (nat (x - k)) b ! nat ?n"
      using n(3) True by (metis add.commute nth_drop nat_le_iff less_imp_le)
    then show False using s l unfolding Let_def by blast
  qed
qed (auto simp: snake_def agree_def)

section \<open>Furthest points\<close>

definition on_row :: "nat \<Rightarrow> int \<Rightarrow> bool" where
  "on_row d k \<longleftrightarrow> \<bar>k\<bar> \<le> int d \<and> even (int d + k)"

lemma on_row_0 [simp]: "on_row 0 k \<longleftrightarrow> k = 0"
  by (auto simp: on_row_def)

lemma on_row_step: "on_row (Suc d) k \<Longrightarrow>
  (k = - int (Suc d) \<or> on_row d (k - 1)) \<and> (k = int (Suc d) \<or> on_row d (k + 1))"
  by (auto simp: on_row_def) presburger+

lemma on_row_next: "on_row d k \<Longrightarrow> on_row (Suc d) (k + 1) \<and> on_row (Suc d) (k - 1)"
  by (auto simp: on_row_def)

lemma on_row_walk: "walk a b x0 y0 d x y \<Longrightarrow> on_row d (x - y - (x0 - y0))"
  using walk_range by (simp add: on_row_def)

text \<open>Where the snake of label \<open>(d, k)\<close> starts, from the labels of the row before.\<close>

definition entry_point :: "(int \<Rightarrow> int) \<Rightarrow> nat \<Rightarrow> int \<Rightarrow> int" where
  "entry_point row d k =
     (if k = - int (Suc d) then row (k + 1) else if k = int (Suc d) then row (k - 1) + 1 else max (row (k - 1) + 1) (row (k + 1)))"

fun furthest :: "'a list \<Rightarrow> 'a list \<Rightarrow> nat \<Rightarrow> int \<Rightarrow> int" where
  "furthest a b 0 k = snake a b k 0"
| "furthest a b (Suc d) k = snake a b k (entry_point (furthest a b d) d k)"

definition snake_entry :: "'a list \<Rightarrow> 'a list \<Rightarrow> nat \<Rightarrow> int \<Rightarrow> int" where
  "snake_entry a b d k = (case d of 0 \<Rightarrow> 0 | Suc d' \<Rightarrow> entry_point (furthest a b d') d' k)"

lemma furthest_snake: "furthest a b d k = snake a b k (snake_entry a b d k)"
  by (cases d) (auto simp: snake_entry_def)

lemma walk_snake:
  assumes "walk a b x0 y0 d x (x - k)" and "0 \<le> x" and "0 \<le> x - k" and "x \<le> i" and "i \<le> snake a b k x"
  shows "walk a b x0 y0 d i (i - k)"
proof -
  have "int n \<le> snake a b k x - x \<Longrightarrow> walk a b x0 y0 d (x + int n) (x + int n - k)" for n
  proof (induction n)
    case (Suc n)
    have "agree a b (x + int n) (x + int n - k)" 
      by (rule snake_agree [OF assms(2,3)]) (use Suc.prems in auto)
    from walk.along [OF _ this] Suc show ?case by (simp add: algebra_simps)
  qed (use assms in simp)
  from this [of "nat (i - x)"] assms show ?thesis by simp
qed

lemma entry_sound:
  assumes "on_row d k"
  shows "walk a b 0 0 d (snake_entry a b d k) (snake_entry a b d k - k)"
  using assms
proof (induction d arbitrary: k)
  case 0
  then show ?case by (simp add: snake_entry_def walk.stay)
next
  case (Suc d)
  have f: "walk a b 0 0 d (furthest a b d l) (furthest a b d l - l)" if "on_row d l" for l
    unfolding furthest_snake
    by (rule walk_snake [OF Suc.IH [OF that]]) (use walk_mono [OF Suc.IH [OF that]] snake_ge in blast)+
  have r: "walk a b 0 0 (Suc d) (furthest a b d (k - 1) + 1) (furthest a b d (k - 1) + 1 - k)" if "on_row d (k - 1)"
    using walk.right [OF f [OF that]] by (simp add: algebra_simps)
  have w: "walk a b 0 0 (Suc d) (furthest a b d (k + 1)) (furthest a b d (k + 1) - k)" if "on_row d (k + 1)"
    using walk.down [OF f [OF that]] by (simp add: algebra_simps)
  show ?case using on_row_step [OF Suc.prems] r w by (auto simp: snake_entry_def entry_point_def max_def)
qed

lemma entry_nonneg: "on_row d k \<Longrightarrow> 0 \<le> snake_entry a b d k \<and> 0 \<le> snake_entry a b d k - k"
  using walk_mono [OF entry_sound] by blast

lemma entry_le: "snake_entry a b d k \<le> furthest a b d k"
  by (simp add: furthest_snake snake_ge)

lemma furthest_nonneg: "on_row d k \<Longrightarrow> 0 \<le> furthest a b d k \<and> 0 \<le> furthest a b d k - k"
  using entry_nonneg [of d k a b] entry_le [of a b d k] by auto

lemma furthest_agree: "on_row d k \<Longrightarrow> snake_entry a b d k \<le> i \<Longrightarrow> i < furthest a b d k \<Longrightarrow> agree a b i (i - k)"
  unfolding furthest_snake by (rule snake_agree) (use entry_nonneg in auto)

lemma furthest_sound: "on_row d k \<Longrightarrow> walk a b 0 0 d (furthest a b d k) (furthest a b d k - k)"
  unfolding furthest_snake by (rule walk_snake [OF entry_sound]) (use entry_nonneg [of d k a b] snake_ge in auto)

lemma entry_cases:
  assumes "on_row (Suc d) k"
  obtains "on_row d (k - 1)" "snake_entry a b (Suc d) k = furthest a b d (k - 1) + 1"
  | "on_row d (k + 1)" "snake_entry a b (Suc d) k = furthest a b d (k + 1)"
proof (cases "k = - int (Suc d) \<or> k \<noteq> int (Suc d) \<and> furthest a b d (k - 1) + 1 \<le> furthest a b d (k + 1)")
  case True
  then have "on_row d (k + 1)" "snake_entry a b (Suc d) k = furthest a b d (k + 1)"
    using on_row_step [OF assms] by (auto simp: snake_entry_def entry_point_def)
  then show ?thesis by (rule that(2))
next
  case False
  then have "on_row d (k - 1)" "snake_entry a b (Suc d) k = furthest a b d (k - 1) + 1"
    using on_row_step [OF assms] by (auto simp: snake_entry_def entry_point_def)
  then show ?thesis by (rule that(1))
qed

lemma furthest_step:
  assumes "on_row d k"
  shows "furthest a b d k + 1 \<le> furthest a b (Suc d) (k + 1)" "furthest a b d k \<le> furthest a b (Suc d) (k - 1)"
proof -
  have "furthest a b d k + 1 \<le> entry_point (furthest a b d) d (k + 1)"
    "furthest a b d k \<le> entry_point (furthest a b d) d (k - 1)"
    using assms by (auto simp: entry_point_def on_row_def)
  then show "furthest a b d k + 1 \<le> furthest a b (Suc d) (k + 1)" "furthest a b d k \<le> furthest a b (Suc d) (k - 1)"
    using order_trans [OF _ snake_ge] by auto
qed

lemma furthest_complete: "walk a b 0 0 d x y \<Longrightarrow> x \<le> furthest a b d (x - y)"
proof (induction rule: walk.induct)
  case (right d x y)
  then show ?case using furthest_step(1) [OF on_row_walk [OF right.hyps], of a b] by (simp add: algebra_simps)
next
  case (down d x y)
  then show ?case using furthest_step(2) [OF on_row_walk [OF down.hyps], of a b] by (simp add: algebra_simps)
next
  case (along d x y)
  have r: "on_row d (x - y)" using on_row_walk [OF along.hyps(1)] by simp
  have "x \<noteq> furthest a b d (x - y)"
    using along.hyps(2) snake_stops [OF entry_nonneg [OF r, THEN conjunct1] entry_nonneg [OF r, THEN conjunct2], of a b a b]
    by (metis add_diff_cancel_left' diff_diff_eq2 furthest_snake diff_add_cancel)
  then show ?case using along.IH by simp
qed (simp add: snake_ge)

section \<open>Nearest points of the way back\<close>

abbreviation skew :: "'a list \<Rightarrow> 'a list \<Rightarrow> int" where
  "skew a b \<equiv> int (length a) - int (length b)"

definition nearest :: "'a list \<Rightarrow> 'a list \<Rightarrow> nat \<Rightarrow> int \<Rightarrow> int" where
  "nearest a b d k = int (length a) - furthest (rev a) (rev b) d (- k)"

definition leave :: "'a list \<Rightarrow> 'a list \<Rightarrow> nat \<Rightarrow> int \<Rightarrow> int" where
  "leave a b d k = int (length a) - snake_entry (rev a) (rev b) d (- k)"

lemma on_row_minus [simp]: "on_row d (- k) \<longleftrightarrow> on_row d k"
  by (auto simp: on_row_def)

lemma nearest_le_leave: "nearest a b d k \<le> leave a b d k"
  using entry_le [of "rev a" "rev b" d "- k"] by (simp add: nearest_def leave_def)

lemma leave_inside: "on_row d k \<Longrightarrow> leave a b d k \<le> int (length a) \<and> leave a b d k - (k + skew a b) \<le> int (length b)"
  using entry_nonneg [of d "- k" "rev a" "rev b"] by (simp add: leave_def)

lemma leave_0 [simp]: "leave a b 0 k = int (length a)"
  by (simp add: leave_def snake_entry_def)

lemma nearest_sound:
  assumes "on_row d k"
  shows "walk a b (nearest a b d k) (nearest a b d k - (k + skew a b)) d (int (length a)) (int (length b))"
  using furthest_sound [of d "- k" "rev a" "rev b"] assms by (simp add: walk_rev_iff nearest_def algebra_simps)

lemma nearest_complete:
  assumes "walk a b x y d (int (length a)) (int (length b))"
  shows "nearest a b d (x - y - skew a b) \<le> x"
  using furthest_complete [OF walk_rev [OF assms, simplified]] by (simp add: nearest_def algebra_simps)

lemma nearest_agree:
  assumes "on_row d k" and "nearest a b d k \<le> i" and "i < leave a b d k"
  shows "agree a b i (i - (k + skew a b))"
proof -
  have "agree (rev a) (rev b) (int (length a) - i - 1) (int (length a) - i - 1 - - k)"
    by (rule furthest_agree [of d]) (use assms in \<open>auto simp: nearest_def leave_def\<close>)
  moreover have "int (length a) - i - 1 - - k = int (length b) - (i - (k + skew a b)) - 1" by simp
  ultimately have "agree (rev a) (rev b) (int (length a) - i - 1) (int (length b) - (i - (k + skew a b)) - 1)" by (simp only:)
  then show ?thesis by (simp only: agree_rev)
qed

lemma leave_cases:
  assumes "on_row (Suc d) k"
  obtains "on_row d (k + 1)" "leave a b (Suc d) k = nearest a b d (k + 1) - 1"
  | "on_row d (k - 1)" "leave a b (Suc d) k = nearest a b d (k - 1)"
proof -
  have r: "on_row (Suc d) (- k)" using assms by simp
  show ?thesis
  proof (rule entry_cases [OF r, of "rev a" "rev b"])
    assume "on_row d (- k - 1)" "snake_entry (rev a) (rev b) (Suc d) (- k) = furthest (rev a) (rev b) d (- k - 1) + 1"
    then show ?thesis using that(1) on_row_minus [of d "k + 1"] by (simp add: leave_def nearest_def)
  next
    assume "on_row d (- k + 1)" "snake_entry (rev a) (rev b) (Suc d) (- k) = furthest (rev a) (rev b) d (- k + 1)"
    then show ?thesis using that(2) on_row_minus [of d "k - 1"] by (simp add: leave_def nearest_def)
  qed
qed

section \<open>Where the two searches meet\<close>

abbreviation solved :: "'a list \<Rightarrow> 'a list \<Rightarrow> nat \<Rightarrow> bool" where
  "solved a b d \<equiv> walk a b 0 0 d (int (length a)) (int (length b))"

definition meets :: "'a list \<Rightarrow> 'a list \<Rightarrow> nat \<Rightarrow> nat \<Rightarrow> int \<Rightarrow> bool" where
  "meets a b df db k \<longleftrightarrow> on_row df k \<and> on_row db (k - skew a b) \<and> nearest a b db (k - skew a b) \<le> furthest a b df k"

lemma solved_meets:
  assumes "solved a b (df + db)"
  shows "\<exists>k. meets a b df db k"
proof -
  from walk_split [OF assms, of df] obtain x y where
    w: "walk a b 0 0 df x y" "walk a b x y db (int (length a)) (int (length b))" by auto
  have "on_row db (x - y - skew a b)" using on_row_walk [OF w(2)] on_row_minus [of db "x - y - skew a b"] by (simp add: algebra_simps)
  moreover have "nearest a b db (x - y - skew a b) \<le> furthest a b df (x - y)"
    using nearest_complete [OF w(2)] furthest_complete [OF w(1)] by linarith
  ultimately show ?thesis using on_row_walk [OF w(1)] by (auto simp: meets_def)
qed

lemma meet_inside:
  assumes "meets a b df db k" and "\<And>d. solved a b d \<Longrightarrow> df + db \<le> d"
  defines "u \<equiv> nearest a b db (k - skew a b)"
  shows "0 \<le> u \<and> 0 \<le> u - k \<and> u \<le> int (length a) \<and> u - k \<le> int (length b)"
proof (intro conjI)
  have r: "on_row db (k - skew a b)" and k: "\<bar>k\<bar> \<le> int df" using assms(1) by (auto simp: meets_def on_row_def)
  have w: "walk a b u (u - k) db (int (length a)) (int (length b))" using nearest_sound [OF r, of a b] by (simp add: u_def)
  then show "u \<le> int (length a)" "u - k \<le> int (length b)" using walk_mono by blast+
  have "int (df + db) \<le> int db + u + (u - k)" if "u \<le> 0 \<or> u - k \<le> 0"
    using walk_enter [OF w that] assms(2) by force
  then show "0 \<le> u" "0 \<le> u - k" using k by linarith+
qed

lemma meet_walk:
  assumes "meets a b df db k" and "0 \<le> u" and "0 \<le> u - k" and "u \<le> furthest a b df k"
  shows "\<exists>d \<le> df. walk a b 0 0 d u (u - k)"
proof (rule walk_diagonal)
  show "walk a b 0 0 df (u + int (nat (furthest a b df k - u))) (u - k + int (nat (furthest a b df k - u)))"
    using furthest_sound [of df k a b] assms(1,4) by (simp add: meets_def)
qed (use assms in auto)

text \<open>The shortest way arrives exactly at the corner.\<close>

lemma furthest_corner:
  assumes "solved a b d" and "\<And>d'. solved a b d' \<Longrightarrow> d \<le> d'"
  shows "furthest a b d (skew a b) = int (length a)"
proof (rule antisym)
  have r: "on_row d (skew a b)" using on_row_walk [OF assms(1)] by simp
  show "int (length a) \<le> furthest a b d (skew a b)" using furthest_complete [OF assms(1)] by simp
  then show "furthest a b d (skew a b) \<le> int (length a)"
    using walk_exit [OF furthest_sound [OF r, of a b]] assms(2) by force
qed

lemma solved_ex: "\<exists>d. solved a b d"
  using walk_straight [of 0 "int (length a)" 0 "int (length b)" a b] by auto

text \<open>Some furthest point is inside the rectangle as long as the corner is further away.\<close>

lemma furthest_inside:
  assumes "\<And>d. solved a b d \<Longrightarrow> n \<le> d"
  shows "\<exists>k. on_row n k \<and> furthest a b n k \<le> int (length a) \<and> furthest a b n k - k \<le> int (length b)"
proof -
  define l where "l = (LEAST d. solved a b d)"
  have l: "solved a b l" "\<And>d. solved a b d \<Longrightarrow> l \<le> d"
    using solved_ex [of a b] by (auto simp: l_def intro: LeastI Least_le)
  then have n: "n \<le> l" using assms by blast
  from walk_split [OF l(1) n] obtain x y where
    w: "walk a b 0 0 n x y" "walk a b x y (l - n) (int (length a)) (int (length b))" by auto
  define k where "k = x - y"
  have r: "on_row n k" using on_row_walk [OF w(1)] by (simp add: k_def)
  have t: "\<bar>skew a b - k\<bar> \<le> int l - int n" using walk_range [OF w(2)] n by (simp add: k_def)
  let ?x = "furthest a b n k"
  have out: "int l \<le> int n + int (length a) + int (length b) - ?x - (?x - k)" if "int (length a) \<le> ?x \<or> int (length b) \<le> ?x - k"
    using walk_exit [OF furthest_sound [OF r] that] l(2) by force
  have "?x \<le> int (length a)" "?x - k \<le> int (length b)" using out t by linarith+
  then show ?thesis using r by blast
qed

end
