(* ===== verification/Udiff_Labels.thy ===== *)
theory Udiff_Labels
  imports Udiff_Path
begin

text \<open>
  The label arrays of \<^verbatim>\<open>lcs.rs\<close> hold the furthest points: every access of a pass is in range, and a pass completes a row
  of \<open>furthest\<close> (forward) or \<open>nearest\<close> (backward).
\<close>

section \<open>Arrays\<close>

definition triangular :: "label \<Rightarrow> bool" where
  "triangular v \<longleftrightarrow> (\<forall>i < length v. v ! i = [] \<or> length (v ! i) = Suc i)"

definition filled :: "label \<Rightarrow> (nat \<Rightarrow> int \<Rightarrow> int) \<Rightarrow> nat \<Rightarrow> bool" where
  "filled v f n \<longleftrightarrow> triangular v \<and> (\<forall>d < n. \<forall>k. on_row d k \<longrightarrow> label_get v (int d) k = Some (f d k))"

lemma filledD: "filled v f n \<Longrightarrow> d < n \<Longrightarrow> on_row d k \<Longrightarrow> label_get v (int d) k = Some (f d k)"
  by (simp add: filled_def)

lemma filled_Suc:
  "filled v f n \<Longrightarrow> (\<And>k. on_row n k \<Longrightarrow> label_get v (int n) k = Some (f n k)) \<Longrightarrow> filled v f (Suc n)"
  by (auto simp: filled_def less_Suc_eq simp del: of_nat_Suc)

lemma sdiv_half: "0 \<le> z \<Longrightarrow> z sdiv 2 = z div (2 :: int)"
  by (simp add: signed_divide_int_def sgn_if)

lemma row_index:
  assumes "on_row d k"
  shows "usize_index ((int d + k) sdiv 2) r = (if nat ((int d + k) div 2) < length r then Some (nat ((int d + k) div 2)) else None)"
    and "nat ((int d + k) div 2) < Suc d"
proof -
  have "0 \<le> int d + k" "int d + k \<le> 2 * int d" using assms by (auto simp: on_row_def)
  then show "usize_index ((int d + k) sdiv 2) r = (if nat ((int d + k) div 2) < length r then Some (nat ((int d + k) div 2)) else None)"
    "nat ((int d + k) div 2) < Suc d" by (auto simp: usize_index_def sdiv_half)
qed

lemma row_index_inject: "on_row d k \<Longrightarrow> on_row d k' \<Longrightarrow> nat ((int d + k) div 2) = nat ((int d + k') div 2) \<Longrightarrow> k = k'"
proof -
  assume k: "on_row d k" "on_row d k'" and i: "nat ((int d + k) div 2) = nat ((int d + k') div 2)"
  have "0 \<le> (int d + k) div 2" "0 \<le> (int d + k') div 2" using k by (auto simp: on_row_def)
  then have "(int d + k) div 2 = (int d + k') div 2" using i by (simp only: eq_nat_nat_iff)
  moreover have "even (int d + k)" "even (int d + k')" using k by (simp_all only: on_row_def)
  ultimately show "k = k'" by presburger
qed

lemma label_get_row:
  assumes "on_row d k"
  shows "label_get v (int d) k = Some x \<longleftrightarrow>
    d < length v \<and> nat ((int d + k) div 2) < length (v ! d) \<and> v ! d ! nat ((int d + k) div 2) = x"
proof (cases "d < length v")
  case True
  then have "usize_index (int d) v = Some d" by (simp add: usize_index_def)
  then show ?thesis using True row_index(1) [OF assms, of "v ! d"] by (auto simp: label_get_def)
qed (simp add: label_get_def usize_index_def)

lemma triangular_grow: "triangular v \<Longrightarrow> triangular (grow n v)"
  by (auto simp: triangular_def grow_def nth_append)

lemma label_set_ok:
  assumes "triangular v" and "on_row d k"
  obtains v' where "label_set v (int d) k x = Some v'" "triangular v'" "label_get v' (int d) k = Some x"
    "\<And>d' k' z. on_row d' k' \<Longrightarrow> d' \<noteq> d \<or> k' \<noteq> k \<Longrightarrow> label_get v (int d') k' = Some z \<Longrightarrow> label_get v' (int d') k' = Some z"
proof -
  define g r i where "g = grow d v" and "r = (if g ! d = [] then replicate (Suc d) 0 else g ! d)" and "i = nat ((int d + k) div 2)"
  have g: "d < length g" "triangular g" "\<And>j. j < length v \<Longrightarrow> g ! j = v ! j" "length v \<le> length g"
    using triangular_grow [OF assms(1)] by (auto simp: g_def grow_def nth_append)
  then have r: "length r = Suc d" by (auto simp: r_def triangular_def)
  have i: "i < Suc d" using row_index(2) [OF assms(2)] by (simp add: i_def)
  let ?v = "g[d := r[i := x]]"
  have "label_set v (int d) k x = Some ?v"
    unfolding label_set_def Let_def nat_int g_def [symmetric] r_def [symmetric]
    using row_index(1) [OF assms(2), of r] r i by (simp add: i_def [symmetric])
  moreover have "triangular ?v" unfolding triangular_def
  proof (intro allI impI)
    fix j assume "j < length ?v"
    then show "?v ! j = [] \<or> length (?v ! j) = Suc j" using g(2) r by (cases "j = d") (auto simp: triangular_def)
  qed
  moreover have "label_get ?v (int d) k = Some x" using g(1) r i by (simp add: label_get_row [OF assms(2)] i_def [symmetric])
  moreover have "label_get ?v (int d') k' = Some z"
    if k': "on_row d' k'" and ne: "d' \<noteq> d \<or> k' \<noteq> k" and "label_get v (int d') k' = Some z" for d' k' z
  proof -
    let ?j = "nat ((int d' + k') div 2)"
    have v: "d' < length v" "?j < length (v ! d')" "v ! d' ! ?j = z" using that(3) by (simp_all add: label_get_row [OF k'])
    show ?thesis
    proof (cases "d' = d")
      case True
      then have "r = v ! d" using v g(3) [of d] by (auto simp: r_def)
      moreover have "?j \<noteq> i" using row_index_inject [OF k', of k] assms(2) ne True by (auto simp: i_def)
      ultimately show ?thesis using v True g(1) unfolding label_get_row [OF k'] by simp
    qed (use v g(3,4) in \<open>simp add: label_get_row [OF k']\<close>)
  qed
  ultimately show ?thesis by (rule that)
qed

lemma triangular_new: "triangular (newtriang n)"
  by (auto simp: triangular_def newtriang_def)

section \<open>Snakes\<close>

lemma snake_on:
  assumes "0 \<le> x" and "0 \<le> x - k" and "x \<le> y" and "y \<le> snake a b k x"
  shows "snake a b k y = snake a b k x"
proof (rule ccontr)
  assume "snake a b k y \<noteq> snake a b k x"
  then consider "snake a b k y < snake a b k x" | "snake a b k x < snake a b k y" by linarith
  then show False
  proof cases
    case 1
    then have "agree a b (snake a b k y) (snake a b k y - k)"
      by (intro snake_agree [OF assms(1,2)]) (use snake_ge [of y a b k] assms(3) in auto)
    then show False using snake_stops [of y k a b] assms by auto
  next
    case 2
    then have "agree a b (snake a b k x) (snake a b k x - k)" 
      by (intro snake_agree [of y]) (use assms in auto)
    then show False using snake_stops [OF assms(1,2)] by auto
  qed
qed

lemma snake_mono: "0 \<le> x \<Longrightarrow> 0 \<le> x - k \<Longrightarrow> x \<le> y \<Longrightarrow> snake a b k x \<le> snake a b k y"
  using snake_on [of x k y a b] snake_ge [of y a b k] by (cases "y \<le> snake a b k x") auto

lemma snake_max:
  assumes "0 \<le> x" and "0 \<le> x - k" and "0 \<le> y" and "0 \<le> y - k"
  shows "snake a b k (if snake a b k x > snake a b k y then snake a b k x else snake a b k y) = snake a b k (max x y)"
proof -
  have "snake a b k (snake a b k z) = snake a b k z" if "0 \<le> z" "0 \<le> z - k" for z
    by (rule snake_on [OF that]) (simp_all add: snake_ge)
  then show ?thesis
    using assms snake_mono [of x k y a b] snake_mono [of y k x a b] by (cases "x \<le> y") (auto simp: max_def)
qed

section \<open>Forward passes\<close>

text \<open>The rectangle of a graph lies inside the sequences; the search works on the parts inside it.\<close>

definition graph_ok :: "'a edit_graph \<Rightarrow> bool" where
  "graph_ok e \<longleftrightarrow> eg_lx e = 0 \<and> eg_ly e = 0 \<and> 0 \<le> eg_ux e \<and> eg_ux e \<le> int (length (eg_a e)) \<and>
     0 \<le> eg_uy e \<and> eg_uy e \<le> int (length (eg_b e))"

definition seq_a :: "'a edit_graph \<Rightarrow> 'a list" where
  "seq_a e = take (nat (eg_ux e)) (eg_a e)"

definition seq_b :: "'a edit_graph \<Rightarrow> 'a list" where
  "seq_b e = take (nat (eg_uy e)) (eg_b e)"

abbreviation fwd :: "'a edit_graph \<Rightarrow> nat \<Rightarrow> int \<Rightarrow> int" where
  "fwd e \<equiv> furthest (seq_a e) (seq_b e)"

lemma graph_ok_vf [simp]: "graph_ok (e\<lparr>eg_vf := v\<rparr>) = graph_ok e" "graph_ok (e\<lparr>eg_vb := v\<rparr>) = graph_ok e"
  by (simp_all add: graph_ok_def)

lemma seq_vf [simp]: "seq_a (e\<lparr>eg_vf := v\<rparr>) = seq_a e" "seq_b (e\<lparr>eg_vf := v\<rparr>) = seq_b e"
  "seq_a (e\<lparr>eg_vb := v\<rparr>) = seq_a e" "seq_b (e\<lparr>eg_vb := v\<rparr>) = seq_b e"
  by (simp_all add: seq_a_def seq_b_def)

lemma length_seq: "graph_ok e \<Longrightarrow> int (length (seq_a e)) = eg_ux e \<and> int (length (seq_b e)) = eg_uy e"
  by (auto simp: graph_ok_def seq_a_def seq_b_def)

lemma slice_to: "0 \<le> x \<Longrightarrow> x \<le> u \<Longrightarrow> u \<le> int (length a) \<Longrightarrow> slice_range a x u = Some (drop (nat x) (take (nat u) a))"
  by (simp add: slice_range_def drop_take nat_diff_distrib)

lemma look_forward_ok:
  assumes "graph_ok e" and "0 \<le> x" and "0 \<le> x - k"
  shows "look_forward e k x = Some (snake (seq_a e) (seq_b e) k x)"
proof -
  have "slice_range (eg_a e) x (eg_ux e) = Some (drop (nat x) (seq_a e))" if "x < eg_ux e"
    using slice_to [of x "eg_ux e" "eg_a e"] that assms by (simp add: graph_ok_def seq_a_def)
  moreover have "slice_range (eg_b e) (x - k) (eg_uy e) = Some (drop (nat (x - k)) (seq_b e))" if "x - k < eg_uy e"
    using slice_to [of "x - k" "eg_uy e" "eg_b e"] that assms by (simp add: graph_ok_def seq_b_def)
  ultimately show ?thesis
    using assms(1) length_seq [OF assms(1)] by (auto simp: look_forward_def snake_def graph_ok_def Let_def)
qed

text \<open>What a label set in row \<open>d\<close> leaves as it was.\<close>

definition keeps :: "label \<Rightarrow> label \<Rightarrow> nat \<Rightarrow> int \<Rightarrow> bool" where
  "keeps v v' d k \<longleftrightarrow> (\<forall>d' k' z. on_row d' k' \<longrightarrow> d' \<noteq> d \<or> k' \<noteq> k \<longrightarrow>
     label_get v (int d') k' = Some z \<longrightarrow> label_get v' (int d') k' = Some z)"

lemma keepsD:
  "keeps v v' d k \<Longrightarrow> on_row d' k' \<Longrightarrow> d' \<noteq> d \<or> k' \<noteq> k \<Longrightarrow> label_get v (int d') k' = Some z \<Longrightarrow> label_get v' (int d') k' = Some z"
  by (simp add: keeps_def)

lemma filled_keeps: "filled v f n \<Longrightarrow> keeps v v' n k \<Longrightarrow> triangular v' \<Longrightarrow> filled v' f n"
  by (auto simp: filled_def keeps_def)

lemma set_forward_ok:
  assumes "graph_ok e" and "triangular (eg_vf e)" and "on_row d k" and "0 \<le> x" and "0 \<le> x - k"
  obtains v where "set_forward (int d) k x e = Some (e\<lparr>eg_vf := v\<rparr>)" "triangular v" "keeps (eg_vf e) v d k"
    "label_get v (int d) k = Some (snake (seq_a e) (seq_b e) k x)"
proof -
  let ?z = "snake (seq_a e) (seq_b e) k x"
  from label_set_ok [OF assms(2,3), of ?z] obtain v where v: "label_set (eg_vf e) (int d) k ?z = Some v" "triangular v"
    "label_get v (int d) k = Some ?z" "keeps (eg_vf e) v d k" unfolding keeps_def by metis
  have "set_forward (int d) k x e = Some (e\<lparr>eg_vf := v\<rparr>)"
    using look_forward_ok [OF assms(1,4,5)] v(1) assms(1) by (simp add: set_forward_def graph_ok_def)
  then show ?thesis using v(2-4) that by blast
qed

text \<open>The part of row \<open>Suc d\<close> that is done when the inner loop stands at \<open>k\<close>.\<close>

definition row_done :: "'a edit_graph \<Rightarrow> label \<Rightarrow> (int \<Rightarrow> bool) \<Rightarrow> nat \<Rightarrow> int \<Rightarrow> bool" where
  "row_done e v Q d k \<longleftrightarrow> filled v (fwd e) (Suc d) \<and>
     (\<forall>j. on_row (Suc d) j \<longrightarrow> j < k \<or> j = int (Suc d) \<longrightarrow> label_get v (int (Suc d)) j = Some (fwd e (Suc d) j) \<and> Q j)"

text \<open>What the test after a label has to satisfy.\<close>

definition check_ok :: "('a edit_graph \<Rightarrow> int \<Rightarrow> 'r option option) \<Rightarrow> ('r \<Rightarrow> bool) \<Rightarrow> (int \<Rightarrow> bool) \<Rightarrow> 'a edit_graph \<Rightarrow> nat \<Rightarrow> bool" where
  "check_ok check P Q e d \<longleftrightarrow> (\<forall>v k. on_row (Suc d) k \<longrightarrow> filled v (fwd e) (Suc d) \<longrightarrow>
     label_get v (int (Suc d)) k = Some (fwd e (Suc d) k) \<longrightarrow>
     (\<exists>r. check (e\<lparr>eg_vf := v\<rparr>) k = Some r \<and> (case r of Some ans \<Rightarrow> P ans | None \<Rightarrow> Q k)))"

lemma of_nat_Suc': "int (Suc d) = int d + 1"
  by simp

lemma on_row_first: "on_row (Suc d) j \<Longrightarrow> j < - int d + 1 \<Longrightarrow> j = - int (Suc d)"
  unfolding on_row_def by presburger

lemma on_row_adjacent: "on_row d j \<Longrightarrow> on_row d k \<Longrightarrow> j < k + 2 \<Longrightarrow> j = k \<or> j < k"
  unfolding on_row_def by presburger

lemma forward_inner_ok:
  fixes check :: "'a edit_graph \<Rightarrow> int \<Rightarrow> 'r option option"
  assumes "graph_ok e" and "check_ok check P Q e d" and "- int d < k" and "k \<le> int d + 1" and "even (int d + k + 1)"
    and "row_done e v Q d k"
  shows "\<exists>r. forward_inner check (int d) k (e\<lparr>eg_vf := v\<rparr>) = Some r \<and> (case r of Inl ans \<Rightarrow> P ans
    | Inr e1 \<Rightarrow> \<exists>v1. e1 = e\<lparr>eg_vf := v1\<rparr> \<and> filled v1 (fwd e) (Suc (Suc d)) \<and> (\<forall>j. on_row (Suc d) j \<longrightarrow> Q j))"
  using assms(3-6)
proof (induction "nat (int d + 1 - k)" arbitrary: k v rule: less_induct)
  case less
  let ?e = "e\<lparr>eg_vf := v\<rparr>"
  have f: "filled v (fwd e) (Suc d)" using less.prems(4) by (simp add: row_done_def)
  show ?case
  proof (cases "k < int d")
    case True
    have r: "on_row (Suc d) k" "on_row d (k - 1)" "on_row d (k + 1)" using less.prems(1-3) True by (auto simp: on_row_def)
    have n: "0 \<le> fwd e d (k - 1) + 1" "0 \<le> fwd e d (k - 1) + 1 - k" "0 \<le> fwd e d (k + 1)" "0 \<le> fwd e d (k + 1) - k"
      using furthest_nonneg [OF r(2), of "seq_a e" "seq_b e"] furthest_nonneg [OF r(3), of "seq_a e" "seq_b e"] by auto
    let ?lv = "snake (seq_a e) (seq_b e) k (fwd e d (k - 1) + 1)" and ?lh = "snake (seq_a e) (seq_b e) k (fwd e d (k + 1))"
    define x where "x = (if ?lv > ?lh then ?lv else ?lh)"
    have x: "0 \<le> x" "0 \<le> x - k" using n snake_ge [of _ "seq_a e" "seq_b e" k] by (auto simp: x_def intro: order_trans)
    have s: "snake (seq_a e) (seq_b e) k x = fwd e (Suc d) k"
      unfolding x_def snake_max [OF n] using True less.prems(1) by (simp add: entry_point_def)
    from set_forward_ok [of ?e "Suc d" k x] assms(1) f r(1) x obtain v1 where
      v1: "set_forward (int (Suc d)) k x ?e = Some (e\<lparr>eg_vf := v1\<rparr>)" "triangular v1" "keeps v v1 (Suc d) k"
        "label_get v1 (int (Suc d)) k = Some (fwd e (Suc d) k)"
      by (auto simp: filled_def s)
    have f1: "filled v1 (fwd e) (Suc d)" by (rule filled_keeps [OF f v1(3,2)])
    from assms(2) f1 v1(4) r(1) obtain c where c: "check (e\<lparr>eg_vf := v1\<rparr>) k = Some c" "case c of Some ans \<Rightarrow> P ans | None \<Rightarrow> Q k"
      unfolding check_ok_def by blast
    have step: "forward_inner check (int d) k ?e =
        (case c of Some ans \<Rightarrow> Some (Inl ans) | None \<Rightarrow> forward_inner check (int d) (k + 2) (e\<lparr>eg_vf := v1\<rparr>))"
      using True look_forward_ok [of ?e _ k] assms(1) n filledD [OF f, of d] r(2,3) v1(1) c(1)
      by (subst forward_inner.simps) (simp add: x_def [symmetric] of_nat_Suc' del: of_nat_Suc split del: if_split)
    show ?thesis
    proof (cases c)
      case None
      have "row_done e v1 Q d (k + 2)" unfolding row_done_def
      proof (intro conjI allI impI)
        fix j assume j: "on_row (Suc d) j" "j < k + 2 \<or> j = int (Suc d)"
        then have "j = k \<or> j < k \<or> j = int (Suc d)" using r(1) on_row_adjacent by blast
        then have "j = k \<or> j \<noteq> k \<and> label_get v (int (Suc d)) j = Some (fwd e (Suc d) j) \<and> Q j"
          using less.prems(4) j(1) unfolding row_done_def by blast
        then show "label_get v1 (int (Suc d)) j = Some (fwd e (Suc d) j)" "Q j"
          using keepsD [OF v1(3) j(1)] v1(4) c(2) None by (auto simp del: of_nat_Suc)
      qed (rule f1)
      from less.hyps [OF _ _ _ _ this] less.prems(1-3) True show ?thesis using step None by auto
    qed (use step c in auto)
  next
    case False
    then have "k = int d + 1" using less.prems(2,3) by presburger
    then have "j < k \<or> j = int (Suc d)" if "on_row (Suc d) j" for j using that by (auto simp: on_row_def)
    then have all: "\<forall>j. on_row (Suc d) j \<longrightarrow> label_get v (int (Suc d)) j = Some (fwd e (Suc d) j) \<and> Q j"
      using less.prems(4) unfolding row_done_def by blast
    then have "filled v (fwd e) (Suc (Suc d))" by (intro filled_Suc [OF f]) blast
    then show ?thesis using False all by (subst forward_inner.simps) auto
  qed
qed

lemma set_first_ok:
  assumes "graph_ok e" and "check_ok check P Q e d" and "filled (eg_vf e) (fwd e) (Suc d)" and "on_row (Suc d) k"
    and "x = snake_entry (seq_a e) (seq_b e) (Suc d) k"
  obtains v r where "set_forward (int d + 1) k x e = Some (e\<lparr>eg_vf := v\<rparr>)" "filled v (fwd e) (Suc d)" "keeps (eg_vf e) v (Suc d) k"
    "label_get v (int (Suc d)) k = Some (fwd e (Suc d) k)" "check (e\<lparr>eg_vf := v\<rparr>) k = Some r"
    "case r of Some ans \<Rightarrow> P ans | None \<Rightarrow> Q k"
proof -
  have t: "triangular (eg_vf e)" using assms(3) by (simp add: filled_def)
  from set_forward_ok [OF assms(1) t assms(4), of x] entry_nonneg [OF assms(4), of "seq_a e" "seq_b e"] assms(5) obtain v where
    v: "set_forward (int (Suc d)) k x e = Some (e\<lparr>eg_vf := v\<rparr>)" "triangular v" "keeps (eg_vf e) v (Suc d) k"
      "label_get v (int (Suc d)) k = Some (fwd e (Suc d) k)" by (auto simp: furthest_snake [symmetric])
  have f: "filled v (fwd e) (Suc d)" by (rule filled_keeps [OF assms(3) v(3,2)])
  from assms(2,4) f v(4) obtain r where "check (e\<lparr>eg_vf := v\<rparr>) k = Some r" "case r of Some ans \<Rightarrow> P ans | None \<Rightarrow> Q k"
    unfolding check_ok_def by blast
  then show ?thesis using that v f by (simp add: add.commute)
qed

lemma check_ok_vf [simp]: "check_ok check P Q (e\<lparr>eg_vf := v\<rparr>) d = check_ok check P Q e d"
  by (simp add: check_ok_def)

theorem forward_pass_ok:
  assumes "graph_ok e" and "check_ok check P Q e d" and "filled (eg_vf e) (fwd e) (Suc d)"
  shows "\<exists>r. forward_pass check (int d) e = Some r \<and> (case r of Inl ans \<Rightarrow> P ans
    | Inr e1 \<Rightarrow> \<exists>v1. e1 = e\<lparr>eg_vf := v1\<rparr> \<and> filled v1 (fwd e) (Suc (Suc d)) \<and> (\<forall>j. on_row (Suc d) j \<longrightarrow> Q j))"
proof -
  have r: "on_row (Suc d) (- int (Suc d))" "on_row (Suc d) (int (Suc d))" "on_row d (- int d)" "on_row d (int d)"
    by (simp_all add: on_row_def)
  from set_first_ok [OF assms r(1), of "fwd e d (- int d)"] obtain v1 c1 where
    1: "set_forward (int d + 1) (- int (Suc d)) (fwd e d (- int d)) e = Some (e\<lparr>eg_vf := v1\<rparr>)" "filled v1 (fwd e) (Suc d)"
      "keeps (eg_vf e) v1 (Suc d) (- int (Suc d))" "label_get v1 (int (Suc d)) (- int (Suc d)) = Some (fwd e (Suc d) (- int (Suc d)))"
      "check (e\<lparr>eg_vf := v1\<rparr>) (- int (Suc d)) = Some c1" "case c1 of Some ans \<Rightarrow> P ans | None \<Rightarrow> Q (- int (Suc d))"
    by (auto simp: snake_entry_def entry_point_def)
  from set_first_ok [of "e\<lparr>eg_vf := v1\<rparr>" check P Q d "int (Suc d)" "fwd e d (int d) + 1"] assms(1,2) 1(2) r(2) obtain v2 c2 where
    2: "set_forward (int d + 1) (int (Suc d)) (fwd e d (int d) + 1) (e\<lparr>eg_vf := v1\<rparr>) = Some (e\<lparr>eg_vf := v2\<rparr>)"
      "filled v2 (fwd e) (Suc d)" "keeps v1 v2 (Suc d) (int (Suc d))"
      "label_get v2 (int (Suc d)) (int (Suc d)) = Some (fwd e (Suc d) (int (Suc d)))"
      "check (e\<lparr>eg_vf := v2\<rparr>) (int (Suc d)) = Some c2" "case c2 of Some ans \<Rightarrow> P ans | None \<Rightarrow> Q (int (Suc d))"
    by (auto simp: snake_entry_def entry_point_def)
  have pass: "forward_pass check (int d) e = (case c1 of Some ans \<Rightarrow> Some (Inl ans) | None \<Rightarrow>
      (case c2 of Some ans \<Rightarrow> Some (Inl ans) | None \<Rightarrow> forward_inner check (int d) (- int d + 1) (e\<lparr>eg_vf := v2\<rparr>)))"
    using filledD [OF assms(3) _ r(3)] filledD [OF 1(2) _ r(4)] 1(1,5) 2(1,5)
    by (simp add: forward_pass_def add.commute cong: option.case_cong)
  show ?thesis
  proof (cases "c1 = None \<and> c2 = None")
    case True
    have "row_done e v2 Q d (- int d + 1)" unfolding row_done_def
    proof (intro conjI allI impI)
      fix j assume j: "on_row (Suc d) j" "j < - int d + 1 \<or> j = int (Suc d)"
      then have "j = - int (Suc d) \<or> j = int (Suc d)" using on_row_first by blast
      then show "label_get v2 (int (Suc d)) j = Some (fwd e (Suc d) j)" "Q j"
        using keepsD [OF 2(3) r(1) _ 1(4)] 1(6) 2(4,6) True by (auto simp del: of_nat_Suc)
    qed (rule 2(2))
    from forward_inner_ok [OF assms(1,2) _ _ _ this] True pass show ?thesis by auto
  next
    case False
    then show ?thesis using pass 1(6) 2(6) by (cases c1; cases c2) auto
  qed
qed

section \<open>Backward passes\<close>

text \<open>Backward passes run on the whole sequences.\<close>

definition whole :: "'a edit_graph \<Rightarrow> bool" where
  "whole e \<longleftrightarrow> graph_ok e \<and> eg_ux e = int (length (eg_a e)) \<and> eg_uy e = int (length (eg_b e)) \<and> eg_delta e = skew (eg_a e) (eg_b e)"

abbreviation bwd :: "'a edit_graph \<Rightarrow> nat \<Rightarrow> int \<Rightarrow> int" where
  "bwd e \<equiv> nearest (eg_a e) (eg_b e)"

lemma whole_vf [simp]: "whole (e\<lparr>eg_vf := v\<rparr>) = whole e" "whole (e\<lparr>eg_vb := v\<rparr>) = whole e"
  by (simp_all add: whole_def)

lemma whole_seq: "whole e \<Longrightarrow> seq_a e = eg_a e \<and> seq_b e = eg_b e"
  by (simp add: whole_def seq_a_def seq_b_def)

lemma look_backward_ok:
  assumes "whole e" and "x \<le> int (length (eg_a e))" and "x - (k + skew (eg_a e) (eg_b e)) \<le> int (length (eg_b e))"
  shows "look_backward e k x =
    Some (int (length (eg_a e)) - snake (rev (eg_a e)) (rev (eg_b e)) (- k) (int (length (eg_a e)) - x))"
proof -
  let ?a = "eg_a e" and ?b = "eg_b e"
  let ?y = "x - (k + skew ?a ?b)"
  have s: "slice_range ?a 0 x = Some (take (nat x) ?a)" "slice_range ?b 0 ?y = Some (take (nat ?y) ?b)" if "0 < x" "0 < ?y"
    using that assms(2,3) by (simp_all add: slice_range_def)
  have t: "rev (take (nat x) ?a) = drop (nat (int (length ?a) - x)) (rev ?a)"
    "rev (take (nat ?y) ?b) = drop (nat (int (length ?a) - x - - k)) (rev ?b)" if "0 < x" "0 < ?y"
    using that assms(2,3) by (auto simp: rev_take intro!: arg_cong2 [of _ _ _ _ drop])
  show ?thesis
  proof (cases "0 < x \<and> 0 < ?y")
    case True
    then have "int (length ?a) - x < int (length (rev ?a))" "int (length ?a) - x - - k < int (length (rev ?b))" by auto
    then show ?thesis
      using True s t assms(1) by (simp add: look_backward_def whole_def graph_ok_def Let_def common_suffix_len_def snake_def)
  next
    case False
    then have "\<not> (int (length ?a) - x < int (length (rev ?a)) \<and> int (length ?a) - x - - k < int (length (rev ?b)))" by auto
    then show ?thesis
      using False assms(1) by (auto simp: look_backward_def whole_def graph_ok_def Let_def snake_def)
  qed
qed

lemma nearest_leave:
  "nearest a b d k = int (length a) - snake (rev a) (rev b) (- k) (int (length a) - leave a b d k)"
  by (simp add: nearest_def leave_def furthest_snake)

lemma leave_fwd:
  "leave a b (Suc d) (- int (Suc d)) = nearest a b d (- int d) - 1"
  "leave a b (Suc d) (int (Suc d)) = nearest a b d (int d)"
  "k \<noteq> - int (Suc d) \<Longrightarrow> k \<noteq> int (Suc d) \<Longrightarrow> leave a b (Suc d) k = min (nearest a b d (k - 1)) (nearest a b d (k + 1) - 1)"
  by (auto simp: leave_def nearest_def snake_entry_def entry_point_def)

lemma set_backward_ok:
  assumes "whole e" and "triangular (eg_vb e)" and "on_row d k"
    and "x \<le> int (length (eg_a e))" and "x - (k + skew (eg_a e) (eg_b e)) \<le> int (length (eg_b e))"
  obtains v where "set_backward (int d) k x e = Some (e\<lparr>eg_vb := v\<rparr>)" "triangular v" "keeps (eg_vb e) v d k"
    "label_get v (int d) k = Some (int (length (eg_a e)) - snake (rev (eg_a e)) (rev (eg_b e)) (- k) (int (length (eg_a e)) - x))"
proof -
  let ?z = "int (length (eg_a e)) - snake (rev (eg_a e)) (rev (eg_b e)) (- k) (int (length (eg_a e)) - x)"
  from label_set_ok [OF assms(2,3), of ?z] obtain v where v: "label_set (eg_vb e) (int d) k ?z = Some v" "triangular v"
    "label_get v (int d) k = Some ?z" "keeps (eg_vb e) v d k" unfolding keeps_def by metis
  have "set_backward (int d) k x e = Some (e\<lparr>eg_vb := v\<rparr>)"
    using look_backward_ok [OF assms(1,4,5)] v(1) assms(1) by (simp add: set_backward_def whole_def graph_ok_def)
  then show ?thesis using v(2-4) that by blast
qed

lemma nearest_inside:
  assumes "on_row d k"
  shows "nearest a b d k \<le> int (length a) \<and> nearest a b d k - (k + skew a b) \<le> int (length b)"
  using leave_inside [OF assms, of a b] nearest_le_leave [of a b d k] by auto

definition back_done :: "'a edit_graph \<Rightarrow> label \<Rightarrow> nat \<Rightarrow> int \<Rightarrow> bool" where
  "back_done e v d k \<longleftrightarrow> filled v (bwd e) (Suc d) \<and>
     (\<forall>j. on_row (Suc d) j \<longrightarrow> j < k \<or> j = int (Suc d) \<longrightarrow> label_get v (int (Suc d)) j = Some (bwd e (Suc d) j))"

lemma backward_inner_ok:
  assumes "whole e" and "- int d < k" and "k \<le> int d + 1" and "even (int d + k + 1)" and "back_done e v d k"
  shows "\<exists>v1. backward_inner (int d) k (e\<lparr>eg_vb := v\<rparr>) = Some (e\<lparr>eg_vb := v1\<rparr>) \<and> filled v1 (bwd e) (Suc (Suc d))"
  using assms(2-5)
proof (induction "nat (int d + 1 - k)" arbitrary: k v rule: less_induct)
  case less
  let ?e = "e\<lparr>eg_vb := v\<rparr>" and ?a = "eg_a e" and ?b = "eg_b e"
  have f: "filled v (bwd e) (Suc d)" using less.prems(4) by (simp add: back_done_def)
  show ?case
  proof (cases "k < int d")
    case True
    have r: "on_row (Suc d) k" "on_row d (k - 1)" "on_row d (k + 1)" using less.prems(1-3) True by (auto simp: on_row_def)
    let ?p = "bwd e d (k - 1)" and ?q = "bwd e d (k + 1) - 1"
    have n: "?p \<le> int (length ?a)" "?p - (k + skew ?a ?b) \<le> int (length ?b)" "?q \<le> int (length ?a)" "?q - (k + skew ?a ?b) \<le> int (length ?b)"
      using nearest_inside [OF r(2), of ?a ?b] nearest_inside [OF r(3), of ?a ?b] by auto
    let ?s = "\<lambda>x. snake (rev ?a) (rev ?b) (- k) (int (length ?a) - x)"
    define x where "x = (if ?s ?q < ?s ?p then int (length ?a) - ?s ?p else int (length ?a) - ?s ?q)"
    have x: "x \<le> int (length ?a)" "x - (k + skew ?a ?b) \<le> int (length ?b)"
      using n snake_ge [of "int (length ?a) - ?p" "rev ?a" "rev ?b" "- k"] snake_ge [of "int (length ?a) - ?q" "rev ?a" "rev ?b" "- k"]
      by (auto simp: x_def)
    have m: "int (length ?a) - x = (if ?s ?p > ?s ?q then ?s ?p else ?s ?q)" by (simp add: x_def)
    have lv: "int (length ?a) - leave ?a ?b (Suc d) k = max (int (length ?a) - ?p) (int (length ?a) - ?q)"
      using True less.prems(1) by (simp add: leave_fwd(3) min_def max_def)
    have s: "int (length ?a) - ?s x = bwd e (Suc d) k"
      unfolding m nearest_leave [of _ _ "Suc d"] lv by (subst snake_max) (use n in simp_all)
    from set_backward_ok [of ?e "Suc d" k x] assms(1) f r(1) x obtain v1 where
      v1: "set_backward (int (Suc d)) k x ?e = Some (e\<lparr>eg_vb := v1\<rparr>)" "triangular v1" "keeps v v1 (Suc d) k"
        "label_get v1 (int (Suc d)) k = Some (bwd e (Suc d) k)"
      by (auto simp: filled_def s)
    have f1: "filled v1 (bwd e) (Suc d)" by (rule filled_keeps [OF f v1(3,2)])
    have step: "backward_inner (int d) k ?e = backward_inner (int d) (k + 2) (e\<lparr>eg_vb := v1\<rparr>)"
      using True look_backward_ok [of ?e ?p k] look_backward_ok [of ?e ?q k] assms(1) n filledD [OF f, of d] r(2,3) v1(1)
      by (subst backward_inner.simps) (simp add: x_def [symmetric] of_nat_Suc' del: of_nat_Suc split del: if_split)
    have "back_done e v1 d (k + 2)" unfolding back_done_def
    proof (intro conjI allI impI)
      fix j assume j: "on_row (Suc d) j" "j < k + 2 \<or> j = int (Suc d)"
      then have "j = k \<or> j < k \<or> j = int (Suc d)" using r(1) on_row_adjacent by blast
      then have "j = k \<or> j \<noteq> k \<and> label_get v (int (Suc d)) j = Some (bwd e (Suc d) j)"
        using less.prems(4) j(1) unfolding back_done_def by blast
      then show "label_get v1 (int (Suc d)) j = Some (bwd e (Suc d) j)"
        using keepsD [OF v1(3) j(1)] v1(4) by (auto simp del: of_nat_Suc)
    qed (rule f1)
    from less.hyps [OF _ _ _ _ this] less.prems(1-3) True show ?thesis using step by auto
  next
    case False
    then have "k = int d + 1" using less.prems(2,3) by presburger
    then have "j < k \<or> j = int (Suc d)" if "on_row (Suc d) j" for j using that by (auto simp: on_row_def)
    then have "filled v (bwd e) (Suc (Suc d))" 
      using less.prems(4) unfolding back_done_def by (intro filled_Suc [OF f]) blast
    then show ?thesis using False by (subst backward_inner.simps) auto
  qed
qed

lemma set_back_first:
  assumes "whole e" and "filled (eg_vb e) (bwd e) (Suc d)" and "on_row (Suc d) k" and "x = leave (eg_a e) (eg_b e) (Suc d) k"
  obtains v where "set_backward (int d + 1) k x e = Some (e\<lparr>eg_vb := v\<rparr>)" "filled v (bwd e) (Suc d)" "keeps (eg_vb e) v (Suc d) k"
    "label_get v (int (Suc d)) k = Some (bwd e (Suc d) k)"
proof -
  have t: "triangular (eg_vb e)" using assms(2) by (simp add: filled_def)
  from set_backward_ok [OF assms(1) t assms(3), of x] leave_inside [OF assms(3), of "eg_a e" "eg_b e"] assms(4) obtain v where
    v: "set_backward (int (Suc d)) k x e = Some (e\<lparr>eg_vb := v\<rparr>)" "triangular v" "keeps (eg_vb e) v (Suc d) k"
      "label_get v (int (Suc d)) k = Some (bwd e (Suc d) k)" by (auto simp: nearest_leave [symmetric])
  then show ?thesis using that filled_keeps [OF assms(2) v(3,2)] by (simp add: add.commute)
qed

theorem backward_pass_ok:
  assumes "whole e" and "filled (eg_vb e) (bwd e) (Suc d)"
  shows "\<exists>v1. backward_pass (int d) e = Some (e\<lparr>eg_vb := v1\<rparr>) \<and> filled v1 (bwd e) (Suc (Suc d))"
proof -
  have r: "on_row (Suc d) (- int (Suc d))" "on_row (Suc d) (int (Suc d))" "on_row d (- int d)" "on_row d (int d)"
    by (simp_all add: on_row_def)
  from set_back_first [OF assms r(1), of "bwd e d (- int d) - 1"] obtain v1 where
    1: "set_backward (int d + 1) (- int (Suc d)) (bwd e d (- int d) - 1) e = Some (e\<lparr>eg_vb := v1\<rparr>)" "filled v1 (bwd e) (Suc d)"
      "label_get v1 (int (Suc d)) (- int (Suc d)) = Some (bwd e (Suc d) (- int (Suc d)))" by (auto simp only: leave_fwd)
  from set_back_first [of "e\<lparr>eg_vb := v1\<rparr>" d "int (Suc d)" "bwd e d (int d)"] assms(1) 1(2) r(2) obtain v2 where
    2: "set_backward (int d + 1) (int (Suc d)) (bwd e d (int d)) (e\<lparr>eg_vb := v1\<rparr>) = Some (e\<lparr>eg_vb := v2\<rparr>)"
      "filled v2 (bwd e) (Suc d)" "keeps v1 v2 (Suc d) (int (Suc d))"
      "label_get v2 (int (Suc d)) (int (Suc d)) = Some (bwd e (Suc d) (int (Suc d)))" by (auto simp: leave_fwd simp del: of_nat_Suc)
  have pass: "backward_pass (int d) e = backward_inner (int d) (- int d + 1) (e\<lparr>eg_vb := v2\<rparr>)"
    using filledD [OF assms(2) _ r(3)] filledD [OF 1(2) _ r(4)] 1(1) 2(1)
    by (simp add: backward_pass_def of_nat_Suc' del: of_nat_Suc)
  have "back_done e v2 d (- int d + 1)" unfolding back_done_def
  proof (intro conjI allI impI)
    fix j assume j: "on_row (Suc d) j" "j < - int d + 1 \<or> j = int (Suc d)"
    then have "j = - int (Suc d) \<or> j = int (Suc d)" using on_row_first by blast
    then show "label_get v2 (int (Suc d)) j = Some (bwd e (Suc d) j)"
      using keepsD [OF 2(3) r(1) _ 1(3)] 2(4) by (auto simp del: of_nat_Suc)
  qed (rule 2(2))
  from backward_inner_ok [OF assms(1) _ _ _ this] pass show ?thesis by auto
qed

end
