(* ===== verification/Udiff_Diag.thy ===== *)
theory Udiff_Diag
  imports Udiff_Labels
begin

text \<open>
  Lists of diagonals: a chain is a common subsequence of two sequences, cut into runs. Sorting pieces that do not
  conflict gives a chain, and \<^verbatim>\<open>fix\<close> gives one from any diagonals.
\<close>

definition diag_ok :: "'a list \<Rightarrow> 'a list \<Rightarrow> diag \<Rightarrow> bool" where
  "diag_ok a b p \<longleftrightarrow> 0 < dg_len p \<and> (\<forall>i. 0 \<le> i \<longrightarrow> i < dg_len p \<longrightarrow> agree a b (dg_x p + i) (dg_y p + i))"

definition before :: "diag \<Rightarrow> diag \<Rightarrow> bool" where
  "before p q \<longleftrightarrow> dg_x p + dg_len p \<le> dg_x q \<and> dg_y p + dg_len p \<le> dg_y q"

definition compatible :: "diag \<Rightarrow> diag \<Rightarrow> bool" where
  "compatible p q \<longleftrightarrow> before p q \<or> before q p"

definition lcs_chain :: "'a list \<Rightarrow> 'a list \<Rightarrow> lcs \<Rightarrow> bool" where
  "lcs_chain a b l \<longleftrightarrow> (\<forall>p \<in> set l. diag_ok a b p) \<and> sorted_wrt before l"

definition lcs_below :: "lcs \<Rightarrow> int \<Rightarrow> int \<Rightarrow> bool" where
  "lcs_below l x y \<longleftrightarrow> (\<forall>p \<in> set l. dg_x p + dg_len p \<le> x \<and> dg_y p + dg_len p \<le> y)"

definition lcs_above :: "lcs \<Rightarrow> int \<Rightarrow> int \<Rightarrow> bool" where
  "lcs_above l x y \<longleftrightarrow> (\<forall>p \<in> set l. x \<le> dg_x p \<and> y \<le> dg_y p)"

lemma lcs_chain_Nil [simp]: "lcs_chain a b []" "lcs_below [] x y" "lcs_above [] x y"
  by (simp_all add: lcs_chain_def lcs_below_def lcs_above_def)

lemma below_mono: "lcs_below l x y \<Longrightarrow> x \<le> x' \<Longrightarrow> y \<le> y' \<Longrightarrow> lcs_below l x' y'"
  by (auto simp: lcs_below_def)

lemma above_mono: "lcs_above l x y \<Longrightarrow> x' \<le> x \<Longrightarrow> y' \<le> y \<Longrightarrow> lcs_above l x' y'"
  by (auto simp: lcs_above_def)

lemma diag_ok_single: "agree a b x y \<Longrightarrow> diag_ok a b \<lparr>dg_x = x, dg_y = y, dg_len = 1\<rparr>"
proof -
  assume "agree a b x y"
  moreover have "i = 0" if "0 \<le> i" "i < 1" for i :: int using that by simp
  ultimately show ?thesis unfolding diag_ok_def by fastforce
qed

lemma diag_ok_before:
  assumes "diag_ok a b p" and "agree a b (dg_x p - 1) (dg_y p - 1)"
  shows "diag_ok a b (p\<lparr>dg_x := dg_x p - 1, dg_y := dg_y p - 1, dg_len := dg_len p + 1\<rparr>)"
  unfolding diag_ok_def
proof (intro conjI allI impI)
  fix i assume "0 \<le> i" "i < dg_len (p\<lparr>dg_x := dg_x p - 1, dg_y := dg_y p - 1, dg_len := dg_len p + 1\<rparr>)"
  then have "i = 0 \<or> 0 \<le> i - 1 \<and> i - 1 < dg_len p" by auto
  then show "agree a b (dg_x (p\<lparr>dg_x := dg_x p - 1, dg_y := dg_y p - 1, dg_len := dg_len p + 1\<rparr>) + i)
      (dg_y (p\<lparr>dg_x := dg_x p - 1, dg_y := dg_y p - 1, dg_len := dg_len p + 1\<rparr>) + i)"
    using assms by (auto simp: diag_ok_def algebra_simps dest: spec [of _ "i - 1"])
qed (use assms in \<open>auto simp: diag_ok_def\<close>)

lemma diag_ok_after:
  assumes "diag_ok a b p" and "agree a b (dg_x p + dg_len p) (dg_y p + dg_len p)"
  shows "diag_ok a b (p\<lparr>dg_len := dg_len p + 1\<rparr>)"
  unfolding diag_ok_def
proof (intro conjI allI impI)
  fix i assume "0 \<le> i" "i < dg_len (p\<lparr>dg_len := dg_len p + 1\<rparr>)"
  then have "i = dg_len p \<or> i < dg_len p" by auto
  then show "agree a b (dg_x (p\<lparr>dg_len := dg_len p + 1\<rparr>) + i) (dg_y (p\<lparr>dg_len := dg_len p + 1\<rparr>) + i)"
    using assms \<open>0 \<le> i\<close> by (auto simp: diag_ok_def)
qed (use assms in \<open>auto simp: diag_ok_def\<close>)

lemma prepend_ok:
  assumes "lcs_chain a b l" and "lcs_above l (x + 1) (y + 1)" and "agree a b x y" and "lcs_below l u v" and "x < u" and "y < v"
  shows "lcs_chain a b (lcs_prepend x y l) \<and> lcs_above (lcs_prepend x y l) x y \<and> lcs_below (lcs_prepend x y l) u v"
proof (cases l)
  case Nil
  then show ?thesis using assms by (simp add: lcs_chain_def lcs_above_def lcs_below_def diag_ok_single)
next
  case (Cons p l')
  show ?thesis
  proof (cases "dg_x p = x + 1 \<and> dg_y p = y + 1")
    case True
    then have "diag_ok a b (p\<lparr>dg_x := x, dg_y := y, dg_len := dg_len p + 1\<rparr>)"
      using diag_ok_before [of a b p] assms(1,3) Cons by (simp add: lcs_chain_def)
    then show ?thesis using assms Cons True by (auto simp: lcs_chain_def lcs_above_def lcs_below_def before_def)
  next
    case False
    then show ?thesis
      using assms Cons diag_ok_single [OF assms(3)] by (auto simp: lcs_chain_def lcs_above_def lcs_below_def before_def)
  qed
qed

lemma append_ok:
  assumes "lcs_chain a b l" and "lcs_below l x y" and "agree a b x y" and "lcs_above l u v" and "u \<le> x" and "v \<le> y"
  shows "lcs_chain a b (lcs_append x y l) \<and> lcs_below (lcs_append x y l) (x + 1) (y + 1) \<and> lcs_above (lcs_append x y l) u v"
proof (cases l rule: rev_cases)
  case Nil
  then show ?thesis using assms by (simp add: lcs_chain_def lcs_above_def lcs_below_def diag_ok_single lcs_append_def)
next
  case (snoc l' p)
  show ?thesis
  proof (cases "dg_x p + dg_len p = x \<and> dg_y p + dg_len p = y")
    case True
    then have "diag_ok a b (p\<lparr>dg_len := dg_len p + 1\<rparr>)"
      using diag_ok_after [of a b p] assms(1,3) snoc by (simp add: lcs_chain_def)
    then show ?thesis
      using assms snoc True by (auto simp: lcs_chain_def lcs_above_def lcs_below_def before_def lcs_append_def sorted_wrt_append)
  next
    case False
    then show ?thesis
      using assms snoc diag_ok_single [OF assms(3)]
      by (auto simp: lcs_chain_def lcs_above_def lcs_below_def before_def lcs_append_def sorted_wrt_append)
  qed
qed

section \<open>Sorting\<close>

interpretation diag_order: strict_weak diag_less
  by unfold_locales (auto simp: diag_less_def split: if_splits)

interpretation len_order: strict_weak "\<lambda>p q. dg_len p > dg_len q"
  by unfold_locales auto

definition conflict_free :: "lcs \<Rightarrow> bool" where
  "conflict_free l \<longleftrightarrow> sorted_wrt compatible l"

lemma compatible_sym: "compatible p q = compatible q p"
  by (auto simp: compatible_def)

lemma compatible_flip: "compatible p q \<Longrightarrow> compatible q p"
  by (simp add: compatible_sym)

lemma sorted_wrt_sym_mset:
  assumes "\<And>x y. R x y = R y x" and "sorted_wrt R xs" and "mset ys = mset xs"
  shows "sorted_wrt R ys"
  using assms(2,3)
proof (induction xs arbitrary: ys)
  case (Cons x xs)
  then have "x \<in> set ys" by (metis list.set_intros(1) set_mset_mset)
  then obtain us vs where ys: "ys = us @ x # vs" by (auto simp: in_set_conv_decomp)
  then have m: "mset (us @ vs) = mset xs" using Cons.prems(2) by simp
  then have "sorted_wrt R (us @ vs)" using Cons by simp
  moreover have "R x z" if "z \<in> set (us @ vs)" for z
    using that Cons.prems(1) mset_eq_setD [OF m] by auto
  ultimately show ?case using ys assms(1) by (auto simp: sorted_wrt_append)
qed simp

lemma lcs_sort_ok:
  assumes "\<forall>p \<in> set l. diag_ok a b p" and "conflict_free l"
  shows "\<exists>l'. lcs_sort l = Some l' \<and> lcs_chain a b l'"
proof -
  from diag_order.slice_sort_ok [of l] obtain l' where
    l': "lcs_sort l = Some l'" "mset l' = mset l" "sorted_wrt (\<lambda>p q. \<not> diag_less q p) l'" by (auto simp: lcs_sort_def)
  have ok: "\<forall>p \<in> set l'. diag_ok a b p" using assms(1) mset_eq_setD [OF l'(2)] by blast
  have c: "sorted_wrt compatible l'"
    using sorted_wrt_sym_mset [of compatible l l'] compatible_sym assms(2) l'(2) by (simp add: conflict_free_def)
  have "before p q" if "p \<in> set l'" "q \<in> set l'" "compatible p q" "\<not> diag_less q p" for p q
    using that ok by (fastforce simp: compatible_def before_def diag_less_def diag_ok_def split: if_splits)
  then have "sorted_wrt before l'"
    using sorted_wrt_mono_rel [of l' "\<lambda>p q. compatible p q \<and> \<not> diag_less q p" before] c l'(3)
    by (auto simp: sorted_wrt_iff_nth_less)
  then show ?thesis using l'(1) ok by (auto simp: lcs_chain_def)
qed

lemma join_ok:
  assumes "lcs_chain a b l" and "lcs_chain a b m" and "lcs_below l x y" and "lcs_above m u v" and "x \<le> u" and "y \<le> v"
  shows "\<exists>r. join_sorted (Some l) (Some m) = Some r \<and> lcs_chain a b r" and "\<exists>r. join_sorted (Some m) (Some l) = Some r \<and> lcs_chain a b r"
proof -
  have c: "sorted_wrt compatible k" if "lcs_chain a b k" for k
    using that sorted_wrt_mono_rel [of k before compatible] by (auto simp: lcs_chain_def compatible_def)
  have b: "compatible p q" if "p \<in> set l" "q \<in> set m" for p q
    using that assms(3-6) by (fastforce simp: compatible_def before_def lcs_below_def lcs_above_def)
  have "conflict_free (l @ m)" "conflict_free (m @ l)"
    using c assms(1,2) b by (auto simp: conflict_free_def sorted_wrt_append intro: compatible_flip)
  then show "\<exists>r. join_sorted (Some l) (Some m) = Some r \<and> lcs_chain a b r" "\<exists>r. join_sorted (Some m) (Some l) = Some r \<and> lcs_chain a b r"
    using lcs_sort_ok [of "l @ m" a b] lcs_sort_ok [of "m @ l" a b] assms(1,2) by (auto simp: join_sorted_def lcs_chain_def)
qed

section \<open>Repair\<close>

definition part_of :: "diag \<Rightarrow> diag \<Rightarrow> bool" where
  "part_of p q \<longleftrightarrow> dg_x p - dg_y p = dg_x q - dg_y q \<and> dg_x q \<le> dg_x p \<and> dg_x p + dg_len p \<le> dg_x q + dg_len q"

lemma part_of_refl [simp]: "part_of p p"
  by (simp add: part_of_def)

lemma part_of_trans: "part_of p q \<Longrightarrow> part_of q r \<Longrightarrow> part_of p r"
  by (auto simp: part_of_def)

lemma part_of_ok:
  assumes "part_of p q" and "diag_ok a b q" and "0 < dg_len p"
  shows "diag_ok a b p"
  unfolding diag_ok_def
proof (intro conjI allI impI)
  fix i assume "0 \<le> i" "i < dg_len p"
  then have "0 \<le> dg_x p - dg_x q + i" "dg_x p - dg_x q + i < dg_len q" using assms(1) by (auto simp: part_of_def)
  then have "agree a b (dg_x q + (dg_x p - dg_x q + i)) (dg_y q + (dg_x p - dg_x q + i))"
    using assms(2) unfolding diag_ok_def by blast
  moreover have "dg_y q + (dg_x p - dg_x q + i) = dg_y p + i" using assms(1) by (simp add: part_of_def)
  ultimately show "agree a b (dg_x p + i) (dg_y p + i)" by simp
qed (rule assms(3))

lemma part_of_compatible: "part_of p q \<Longrightarrow> compatible q r \<Longrightarrow> compatible p r"
  by (auto simp: part_of_def compatible_def before_def)

lemma cut_tail_cases:
  "case cut_tail pc ec p of Inl q \<Rightarrow> dg_len q \<le> 0 | Inr q \<Rightarrow> part_of q p \<and> (0 < dg_len p \<longrightarrow> 0 < dg_len q)"
  by (auto simp: cut_tail_def cut_end_def part_of_def Let_def)

lemma cut_head_cases:
  "case cut_head pc ec n p of Inl q \<Rightarrow> dg_len q \<le> 0 | Inr q \<Rightarrow> part_of q p \<and> (0 < dg_len p \<longrightarrow> 0 < dg_len q)"
  by (auto simp: cut_head_def cut_begin_def part_of_def Let_def)

lemma overlap_ok:
  assumes "overlap exist p = (dir, q)" and "0 < dg_len p"
  shows "dir = DEmpty \<and> dg_len q \<le> 0 \<or> dir = Bad \<or>
    dir \<noteq> DEmpty \<and> part_of q p \<and> 0 < dg_len q \<and> compatible q exist"
proof -
  consider p1 where "cut_tail (dg_x p) (dg_x exist) p = Inl p1" "dir = DEmpty" "q = p1"
    | p1 p2 where "cut_tail (dg_x p) (dg_x exist) p = Inr p1"
        "cut_head (dg_x p1) (dg_x exist) (dg_len exist) p1 = Inl p2" "dir = DEmpty" "q = p2"
    | p1 p2 p3 where "cut_tail (dg_x p) (dg_x exist) p = Inr p1"
        "cut_head (dg_x p1) (dg_x exist) (dg_len exist) p1 = Inr p2" "cut_tail (dg_y p2) (dg_y exist) p2 = Inl p3" "dir = DEmpty" "q = p3"
    | p1 p2 p3 p4 where "cut_tail (dg_x p) (dg_x exist) p = Inr p1"
        "cut_head (dg_x p1) (dg_x exist) (dg_len exist) p1 = Inr p2" "cut_tail (dg_y p2) (dg_y exist) p2 = Inr p3"
        "cut_head (dg_y p3) (dg_y exist) (dg_len exist) p3 = Inl p4" "dir = DEmpty" "q = p4"
    | p1 p2 p3 p4 where "cut_tail (dg_x p) (dg_x exist) p = Inr p1"
        "cut_head (dg_x p1) (dg_x exist) (dg_len exist) p1 = Inr p2" "cut_tail (dg_y p2) (dg_y exist) p2 = Inr p3"
        "cut_head (dg_y p3) (dg_y exist) (dg_len exist) p3 = Inr p4" "q = p4" "dir \<noteq> DEmpty"
        "dir = Bad \<or> before p4 exist \<or> before exist p4"
    using assms(1) by (auto simp: overlap_def before_def split: sum.splits if_splits)
  then show ?thesis
  proof cases
    case (5 p1 p2 p3 p4)
    then have "part_of p1 p" "part_of p2 p1" "part_of p3 p2" "part_of p4 p3" "0 < dg_len p4"
      using cut_tail_cases [where pc = "dg_x p" and ec = "dg_x exist" and p = p]
        cut_head_cases [where pc = "dg_x p1" and ec = "dg_x exist" and n = "dg_len exist" and p = p1]
        cut_tail_cases [where pc = "dg_y p2" and ec = "dg_y exist" and p = p2]
        cut_head_cases [where pc = "dg_y p3" and ec = "dg_y exist" and n = "dg_len exist" and p = p3] assms(2) by auto
    then have "part_of p4 p" by (meson part_of_trans)
    then show ?thesis using 5 \<open>0 < dg_len p4\<close> by (auto simp: compatible_def)
  next
    case 1
    then show ?thesis using cut_tail_cases [where pc = "dg_x p" and ec = "dg_x exist" and p = p] by simp
  next
    case (2 p1)
    then show ?thesis using cut_head_cases [where pc = "dg_x p1" and ec = "dg_x exist" and n = "dg_len exist" and p = p1] by simp
  next
    case (3 p1 p2)
    then show ?thesis using cut_tail_cases [where pc = "dg_y p2" and ec = "dg_y exist" and p = p2] by simp
  next
    case (4 p1 p2 p3)
    then show ?thesis using cut_head_cases [where pc = "dg_y p3" and ec = "dg_y exist" and n = "dg_len exist" and p = p3] by simp
  qed
qed

lemma fit_ok:
  assumes "fit tmp dir p = (dir', q)" and "0 < dg_len p" and "0 < dg_len q" and "dir' \<noteq> Bad"
  shows "part_of q p \<and> (\<forall>r \<in> set tmp. compatible q r)"
  using assms
proof (induction tmp arbitrary: dir p)
  case (Cons exist tmp)
  obtain dir1 p1 where o: "overlap exist p = (dir1, p1)" by fastforce
  then have "dir1 \<noteq> DEmpty" "dir1 \<noteq> Bad" using Cons.prems overlap_ok [OF o] by auto
  then have f: "fit tmp dir1 p1 = (dir', q)" and p1: "part_of p1 p" "0 < dg_len p1" "compatible p1 exist"
    using Cons.prems o overlap_ok [OF o] by auto
  from Cons.IH [OF f p1(2) Cons.prems(3,4)] show ?case
    using p1 part_of_trans part_of_compatible by auto
qed simp

lemma fix_loop_ok:
  assumes "\<forall>p \<in> set l \<union> set tmp. diag_ok a b p" and "conflict_free tmp"
  shows "(\<forall>p \<in> set (fix_loop l tmp). diag_ok a b p) \<and> conflict_free (fix_loop l tmp)"
  using assms
proof (induction l arbitrary: tmp)
  case (Cons p l)
  obtain dir q where f: "fit tmp DEmpty p = (dir, q)" by fastforce
  have "(\<forall>p \<in> set l \<union> set (tmp @ [q]). diag_ok a b p) \<and> conflict_free (tmp @ [q])" if "0 < dg_len q" "dir \<noteq> Bad"
  proof -
    have "part_of q p \<and> (\<forall>r \<in> set tmp. compatible q r)"
      by (rule fit_ok [OF f _ that]) (use Cons.prems in \<open>simp add: diag_ok_def\<close>)
    then show ?thesis
      using Cons.prems that part_of_ok [of q p a b]
      by (auto simp: conflict_free_def sorted_wrt_append intro: compatible_flip)
  qed
  then have step: "(\<forall>p \<in> set l \<union> set tmp'. diag_ok a b p) \<and> conflict_free tmp'"
    if "tmp' = (if dg_len q > 0 \<and> dir \<noteq> Bad then tmp @ [q] else tmp)" for tmp'
    using that Cons.prems by (cases "0 < dg_len q \<and> dir \<noteq> Bad") simp_all
  show ?case
    unfolding fix_loop.simps f prod.case by (rule Cons.IH [OF conjunct1 conjunct2, OF step step]) (rule refl)+
qed simp

lemma lcs_fix_ok:
  assumes "\<forall>p \<in> set l. diag_ok a b p"
  shows "\<exists>l'. lcs_fix l = Some l' \<and> lcs_chain a b l'"
proof (cases "l = []")
  case False
  from len_order.slice_sort_ok [of l] obtain l1 where
    l1: "slice_sort l (\<lambda>p q. dg_len p > dg_len q) = Some l1" "mset l1 = mset l" by auto
  then obtain first rest where r: "l1 = first # rest" using False by (cases l1) auto
  have "\<forall>p \<in> set l1. diag_ok a b p" using assms mset_eq_setD [OF l1(2)] by blast
  then have "(\<forall>p \<in> set (fix_loop rest [first]). diag_ok a b p) \<and> conflict_free (fix_loop rest [first])"
    using r by (intro fix_loop_ok) (auto simp: conflict_free_def)
  then have "\<exists>l'. lcs_sort (fix_loop rest [first]) = Some l' \<and> lcs_chain a b l'" by (intro lcs_sort_ok) simp_all
  then show ?thesis using False l1(1) r by (simp add: lcs_fix_def)
qed (simp add: lcs_fix_def)

end
