(* ===== verification/Udiff_Search.thy ===== *)
theory Udiff_Search
  imports Udiff_Diag
begin

text \<open>
  The search of \<^verbatim>\<open>lcs.rs\<close> returns a common subsequence, whatever the sequences: backtracking follows a walk, the two
  searches meet inside the rectangle, and no access is out of range.
\<close>

section \<open>Backtracking\<close>

lemma labelled_ok:
  assumes "filled v f n" and "d < n" and "even (int d + k)"
  shows "labelled v (int d) k x = Some (on_row d k \<and> x = f d k)"
  using filledD [OF assms(1,2), of k] assms(3) by (auto simp: labelled_def ok_dk_def on_row_def abs_le_iff)

lemma labelled_outside: "labelled v (- 1) k x = Some False"
  by (simp add: labelled_def ok_dk_def)

lemma even_pred: "on_row (Suc d) k \<Longrightarrow> even (int d + (k - 1)) \<and> even (int d + (k + 1))"
  unfolding on_row_def by presburger

lemma forwardlcs_loop_ok:
  assumes "graph_ok e" and "filled (eg_vf e) (fwd e) d" and "on_row d k" and "snake_entry (seq_a e) (seq_b e) d k \<le> x" and "x \<le> fwd e d k"
    and "lcs_chain (seq_a e) (seq_b e) ans" and "lcs_above ans x (x - k)" and "lcs_below ans u v" and "x \<le> u" and "x - k \<le> v"
  shows "\<exists>l. forwardlcs_loop e (int d) k x ans = Some l \<and> lcs_chain (seq_a e) (seq_b e) l \<and> lcs_below l u v"
  using assms(2-)
proof (induction "d + nat x" arbitrary: d k x ans rule: less_induct)
  case less
  let ?a = "seq_a e" and ?b = "seq_b e"
  have nn: "0 \<le> snake_entry ?a ?b d k" "0 \<le> snake_entry ?a ?b d k - k" using entry_nonneg [OF less.prems(2), of ?a ?b] by auto
  show ?case
  proof (cases "x = 0 \<and> x - k = 0")
    case True
    then show ?thesis using less.prems by (subst forwardlcs_loop.simps) simp
  next
    case False
    have along: "\<exists>l. forwardlcs_loop e (int d) k (x - 1) (lcs_prepend (x - 1) (x - k - 1) ans) = Some l \<and> lcs_chain ?a ?b l \<and> lcs_below l u v"
      if "snake_entry ?a ?b d k < x"
    proof -
      have ag: "agree ?a ?b (x - 1) (x - 1 - k)" by (rule furthest_agree [OF less.prems(2)]) (use that less.prems(4) in auto)
      have "lcs_chain ?a ?b (lcs_prepend (x - 1) (x - k - 1) ans) \<and> lcs_above (lcs_prepend (x - 1) (x - k - 1) ans) (x - 1) (x - k - 1) \<and>
          lcs_below (lcs_prepend (x - 1) (x - k - 1) ans) u v"
        by (rule prepend_ok) (use less.prems ag in \<open>simp_all add: algebra_simps\<close>)
      then show ?thesis
        by (intro less.hyps) (use that nn less.prems in \<open>auto simp: algebra_simps\<close>)
    qed
    have lxy: "eg_lx e = 0" "eg_ly e = 0" using assms(1) by (auto simp: graph_ok_def)
    show ?thesis
    proof (cases d)
      case 0
      then have "k = 0" "snake_entry ?a ?b d k = 0" using less.prems(2) by (auto simp: snake_entry_def)
      then show ?thesis
        using False along less.prems(3) 0 lxy by (subst forwardlcs_loop.simps) (auto simp: labelled_outside)
    next
      case (Suc d')
      have lt: "d' < d" and f': "filled (eg_vf e) (fwd e) d'" using Suc less.prems(1) by (auto simp: filled_def)
      note ev = even_pred [OF less.prems(2) [unfolded Suc]]
      note lh = labelled_ok [OF less.prems(1) lt ev [THEN conjunct1]] and lv = labelled_ok [OF less.prems(1) lt ev [THEN conjunct2]]
      consider (h) "on_row d' (k - 1)" "x - 1 = fwd e d' (k - 1)"
        | (v) "\<not> (on_row d' (k - 1) \<and> x - 1 = fwd e d' (k - 1))" "on_row d' (k + 1)" "x = fwd e d' (k + 1)"
        | (diag) "\<not> (on_row d' (k - 1) \<and> x - 1 = fwd e d' (k - 1))" "\<not> (on_row d' (k + 1) \<and> x = fwd e d' (k + 1))" by blast
      then show ?thesis
      proof cases
        case h
        have "\<exists>l. forwardlcs_loop e (int d') (k - 1) (x - 1) ans = Some l \<and> lcs_chain ?a ?b l \<and> lcs_below l u v"
          by (rule less.hyps)
            (use h Suc less.prems f' entry_le [of ?a ?b d' "k - 1"] furthest_nonneg [OF h(1), of ?a ?b] in \<open>auto elim: above_mono\<close>)
        then show ?thesis using h False Suc lh [of "x - 1"] by (subst forwardlcs_loop.simps) simp
      next
        case v
        have "\<exists>l. forwardlcs_loop e (int d') (k + 1) x ans = Some l \<and> lcs_chain ?a ?b l \<and> lcs_below l u v"
          by (rule less.hyps)
            (use v Suc less.prems f' entry_le [of ?a ?b d' "k + 1"] in \<open>auto elim: above_mono\<close>)
        then show ?thesis using v False Suc lh [of "x - 1"] lv [of x] by (subst forwardlcs_loop.simps) auto
      next
        case diag
        have "snake_entry ?a ?b d k \<noteq> x"
          by (rule entry_cases [OF less.prems(2) [unfolded Suc], of ?a ?b]) (use diag Suc in auto)
        then have "snake_entry ?a ?b d k < x" using less.prems(3) by simp
        then show ?thesis
          using diag False Suc along lxy lh [of "x - 1"] lv [of x] by (subst forwardlcs_loop.simps) (auto simp: algebra_simps)
      qed
    qed
  qed
qed

lemma lcs_chain_take:
  assumes "graph_ok e" and "lcs_chain (seq_a e) (seq_b e) l"
  shows "lcs_chain (eg_a e) (eg_b e) l"
  using assms(2) agree_takeD [of "nat (eg_ux e)" "eg_a e" "nat (eg_uy e)" "eg_b e"]
  by (auto simp: lcs_chain_def diag_ok_def seq_a_def seq_b_def)

lemma forwardlcs_ok:
  assumes "graph_ok e" and "filled (eg_vf e) (fwd e) d" and "on_row d k" and "get_forward e (int d) k = Some (fwd e d k)"
  shows "\<exists>l. forwardlcs e (int d) k = Some l \<and> lcs_chain (eg_a e) (eg_b e) l \<and> lcs_below l (fwd e d k) (fwd e d k - k)"
  using forwardlcs_loop_ok [OF assms(1-3) entry_le order_refl, of "[]" "fwd e d k" "fwd e d k - k"] lcs_chain_take [OF assms(1)] assms(4)
  by (auto simp: forwardlcs_def)

lemma backwardlcs_loop_ok:
  assumes "whole e" and "filled (eg_vb e) (bwd e) d" and "on_row d k" and "bwd e d k \<le> x" and "x \<le> leave (eg_a e) (eg_b e) d k"
    and "lcs_chain (eg_a e) (eg_b e) ans" and "lcs_below ans x (x - (k + skew (eg_a e) (eg_b e)))" and "lcs_above ans u v" and "u \<le> x"
    and "v \<le> x - (k + skew (eg_a e) (eg_b e))"
  shows "\<exists>l. backwardlcs_loop e (int d) k x ans = Some l \<and> lcs_chain (eg_a e) (eg_b e) l \<and> lcs_above l u v"
  using assms(2-)
proof (induction "d + nat (int (length (eg_a e)) - x)" arbitrary: d k x ans rule: less_induct)
  case less
  let ?a = "eg_a e" and ?b = "eg_b e"
  let ?s = "skew ?a ?b"
  have nn: "leave ?a ?b d k \<le> int (length ?a)" using leave_inside [OF less.prems(2), of ?a ?b] by auto
  have g: "eg_lx e = 0" "eg_ly e = 0" "eg_ux e = int (length ?a)" "eg_uy e = int (length ?b)" "eg_delta e = ?s"
    using assms(1) by (auto simp: whole_def graph_ok_def)
  show ?case
  proof (cases "x = int (length ?a) \<and> x - (k + ?s) = int (length ?b)")
    case True
    then show ?thesis using less.prems g by (subst backwardlcs_loop.simps) simp
  next
    case False
    have along: "\<exists>l. backwardlcs_loop e (int d) k (x + 1) (lcs_append x (x - (k + ?s)) ans) = Some l \<and> lcs_chain ?a ?b l \<and> lcs_above l u v"
      if "x < leave ?a ?b d k"
    proof -
      have ag: "agree ?a ?b x (x - (k + ?s))" by (rule nearest_agree [OF less.prems(2)]) (use that less.prems(3) in auto)
      have "lcs_chain ?a ?b (lcs_append x (x - (k + ?s)) ans) \<and> lcs_below (lcs_append x (x - (k + ?s)) ans) (x + 1) (x - (k + ?s) + 1) \<and>
          lcs_above (lcs_append x (x - (k + ?s)) ans) u v"
        by (rule append_ok) (use less.prems ag in simp_all)
      then show ?thesis
        by (intro less.hyps) (use that nn less.prems in \<open>auto simp: algebra_simps\<close>)
    qed
    show ?thesis
    proof (cases d)
      case 0
      then have "k = 0" "leave ?a ?b d k = int (length ?a)" using less.prems(2) by auto
      then show ?thesis
        using False along less.prems(4) 0 g by (subst backwardlcs_loop.simps) (auto simp: labelled_outside)
    next
      case (Suc d')
      have lt: "d' < d" and f': "filled (eg_vb e) (bwd e) d'" using Suc less.prems(1) by (auto simp: filled_def)
      note ev = even_pred [OF less.prems(2) [unfolded Suc]]
      note lv = labelled_ok [OF less.prems(1) lt ev [THEN conjunct1]] and lh = labelled_ok [OF less.prems(1) lt ev [THEN conjunct2]]
      consider (v) "on_row d' (k - 1)" "x = bwd e d' (k - 1)"
        | (h) "\<not> (on_row d' (k - 1) \<and> x = bwd e d' (k - 1))" "on_row d' (k + 1)" "x + 1 = bwd e d' (k + 1)"
        | (diag) "\<not> (on_row d' (k - 1) \<and> x = bwd e d' (k - 1))" "\<not> (on_row d' (k + 1) \<and> x + 1 = bwd e d' (k + 1))" by blast
      then show ?thesis
      proof cases
        case v
        have "\<exists>l. backwardlcs_loop e (int d') (k - 1) x ans = Some l \<and> lcs_chain ?a ?b l \<and> lcs_above l u v"
          by (rule less.hyps)
            (use v Suc less.prems f' nearest_le_leave [of ?a ?b d' "k - 1"] in \<open>auto elim: below_mono\<close>)
        then show ?thesis using v False Suc lv [of x] g by (subst backwardlcs_loop.simps) simp
      next
        case h
        have "x + 1 \<le> int (length ?a)" using nearest_inside [OF h(2), of ?a ?b] h(3) by simp
        then have "\<exists>l. backwardlcs_loop e (int d') (k + 1) (x + 1) ans = Some l \<and> lcs_chain ?a ?b l \<and> lcs_above l u v"
          by (intro less.hyps)
            (use h Suc less.prems f' nearest_le_leave [of ?a ?b d' "k + 1"] in \<open>auto elim: below_mono\<close>)
        then show ?thesis using h False Suc lv [of x] lh [of "x + 1"] g by (subst backwardlcs_loop.simps) auto
      next
        case diag
        have "leave ?a ?b d k \<noteq> x"
          by (rule leave_cases [OF less.prems(2) [unfolded Suc], of ?a ?b]) (use diag Suc in auto)
        then have "x < leave ?a ?b d k" using less.prems(4) by simp
        then show ?thesis
          using diag False Suc along g lv [of x] lh [of "x + 1"] by (subst backwardlcs_loop.simps) auto
      qed
    qed
  qed
qed

lemma backwardlcs_ok:
  assumes "whole e" and "filled (eg_vb e) (bwd e) d" and "on_row d k" and "get_backward e (int d) k = Some (bwd e d k)"
  shows "\<exists>l. backwardlcs e (int d) k = Some l \<and> lcs_chain (eg_a e) (eg_b e) l \<and>
    lcs_above l (bwd e d k) (bwd e d k - (k + skew (eg_a e) (eg_b e)))"
  using backwardlcs_loop_ok [OF assms(1-3) order_refl nearest_le_leave, of "[]"] assms(4) by (auto simp: backwardlcs_def)

section \<open>The forward search\<close>

definition finds :: "'a edit_graph \<Rightarrow> lcs \<Rightarrow> bool" where
  "finds e l \<longleftrightarrow> lcs_chain (eg_a e) (eg_b e) l \<and> lcs_below l (eg_ux e) (eg_uy e)"

lemma finds_vf [simp]: "finds (e\<lparr>eg_vf := v\<rparr>) l = finds e l"
  by (simp add: finds_def)

abbreviation at_corner :: "'a edit_graph \<Rightarrow> nat \<Rightarrow> int \<Rightarrow> bool" where
  "at_corner e d k \<equiv> fwd e d k = eg_ux e \<and> fwd e d k - k = eg_uy e"

lemma fdone_ok:
  assumes "graph_ok e" and "filled (eg_vf e) (fwd e) d" and "on_row d k" and "get_forward e (int d) k = Some (fwd e d k)"
  shows "\<exists>r. fdone e (int d) k = Some r \<and> (case r of Some l \<Rightarrow> finds e l | None \<Rightarrow> \<not> at_corner e d k)"
  using forwardlcs_ok [OF assms] assms(4) by (auto simp: fdone_def finds_def)

lemma fdone_check: "graph_ok e \<Longrightarrow> check_ok (\<lambda>e k. fdone e (int d + 1) k) (finds e) (\<lambda>k. \<not> at_corner e (Suc d) k) e d"
  unfolding check_ok_def
proof (intro allI impI)
  fix v k
  assume g: "graph_ok e" and v: "on_row (Suc d) k" "filled v (fwd e) (Suc d)" "label_get v (int (Suc d)) k = Some (fwd e (Suc d) k)"
  from fdone_ok [of "e\<lparr>eg_vf := v\<rparr>" "Suc d" k] g v
  show "\<exists>r. fdone (e\<lparr>eg_vf := v\<rparr>) (int d + 1) k = Some r \<and> (case r of Some ans \<Rightarrow> finds e ans | None \<Rightarrow> \<not> at_corner e (Suc d) k)"
    by (simp add: add.commute cong: option.case_cong)
qed

lemma corner_reached:
  assumes "graph_ok e" and "solved (seq_a e) (seq_b e) d" and "\<And>d'. solved (seq_a e) (seq_b e) d' \<Longrightarrow> d \<le> d'"
  shows "\<exists>k. on_row d k \<and> at_corner e d k"
  using furthest_corner [OF assms(2,3)] on_row_walk [OF assms(2)] length_seq [OF assms(1)] by (intro exI [of _ "skew (seq_a e) (seq_b e)"]) simp

lemma forward_rows_ok:
  assumes "graph_ok e" and "eg_limit e = int n" and "D \<le> n" and "solved (seq_a e) (seq_b e) D"
    and "\<And>d'. solved (seq_a e) (seq_b e) d' \<Longrightarrow> D \<le> d'" and "d < D" and "filled (eg_vf e) (fwd e) (Suc d)"
  shows "\<exists>l. forward_rows (int d) e = Some l \<and> finds e l"
  using assms
proof (induction "n - d" arbitrary: d e rule: less_induct)
  case less
  from forward_pass_ok [OF less.prems(1) fdone_check [OF less.prems(1)] less.prems(7)] obtain r where
    r: "forward_pass (\<lambda>e k. fdone e (int d + 1) k) (int d) e = Some r" "case r of Inl ans \<Rightarrow> finds e ans
      | Inr e1 \<Rightarrow> \<exists>v1. e1 = e\<lparr>eg_vf := v1\<rparr> \<and> filled v1 (fwd e) (Suc (Suc d)) \<and> (\<forall>j. on_row (Suc d) j \<longrightarrow> \<not> at_corner e (Suc d) j)" by blast
  have lim: "int d < eg_limit e" using less.prems(2,3,6) by simp
  show ?case
  proof (cases r)
    case (Inr e1)
    then obtain v1 where v1: "e1 = e\<lparr>eg_vf := v1\<rparr>" "filled v1 (fwd e) (Suc (Suc d))" "\<forall>j. on_row (Suc d) j \<longrightarrow> \<not> at_corner e (Suc d) j"
      using r(2) by auto
    have "D \<noteq> Suc d" using corner_reached [OF less.prems(1,4,5)] v1(3) by blast
    then have "\<exists>l. forward_rows (int (Suc d)) e1 = Some l \<and> finds e1 l"
      by (intro less.hyps) (use less.prems v1 in auto)
    then show ?thesis using r(1) Inr v1(1) lim by (subst forward_rows.simps) (simp add: add.commute)
  qed (use r lim in \<open>subst forward_rows.simps, simp\<close>)
qed

lemma filled_first:
  assumes "label_get v 0 0 = Some (f 0 0)" and "triangular v"
  shows "filled v f (Suc 0)"
  using assms by (auto simp: filled_def)

lemma forward_ok:
  assumes "graph_ok e" and "triangular (eg_vf e)" and "eg_limit e = int n" and "\<exists>d \<le> n. solved (seq_a e) (seq_b e) d"
  shows "\<exists>l. forward e = Some l \<and> finds e l"
proof -
  define D where "D = (LEAST d. solved (seq_a e) (seq_b e) d)"
  have D: "solved (seq_a e) (seq_b e) D" "\<And>d. solved (seq_a e) (seq_b e) d \<Longrightarrow> D \<le> d"
    using solved_ex [of "seq_a e" "seq_b e"] by (auto simp: D_def intro: LeastI Least_le)
  then have "D \<le> n" using assms(4) le_trans by blast
  from set_forward_ok [OF assms(1,2), of 0 0 0] obtain v where v: "set_forward 0 0 0 e = Some (e\<lparr>eg_vf := v\<rparr>)" "triangular v"
    "label_get v 0 0 = Some (fwd e 0 0)" by auto
  let ?e = "e\<lparr>eg_vf := v\<rparr>"
  from fdone_ok [of ?e 0 0] assms(1) v(2,3) obtain r where r: "fdone ?e 0 0 = Some r" "case r of Some l \<Rightarrow> finds e l | None \<Rightarrow> \<not> at_corner e 0 0"
    by (auto simp: filled_def cong: option.case_cong)
  have lx: "eg_lx e = 0" using assms(1) by (simp add: graph_ok_def)
  show ?thesis
  proof (cases r)
    case None
    have "D \<noteq> 0"
    proof
      assume "D = 0"
      then show False using corner_reached [OF assms(1) D] r(2) None by auto
    qed
    then have "\<exists>l. forward_rows (int 0) ?e = Some l \<and> finds ?e l"
      by (intro forward_rows_ok [OF _ _ \<open>D \<le> n\<close>]) (use assms(1,3) D filled_first [OF _ v(2), of "fwd e"] v(3) in auto)
    then show ?thesis using v(1) r(1) None lx by (simp add: forward_def)
  qed (use v(1) r lx in \<open>simp add: forward_def\<close>)
qed

section \<open>The meeting test\<close>

text \<open>Both label arrays are filled.\<close>

definition searched :: "'a edit_graph \<Rightarrow> nat \<Rightarrow> nat \<Rightarrow> bool" where
  "searched e df db \<longleftrightarrow> whole e \<and> filled (eg_vf e) (furthest (eg_a e) (eg_b e)) (Suc df) \<and> filled (eg_vb e) (bwd e) (Suc db)"

lemma searched_get:
  assumes "searched e df db"
  shows "d \<le> df \<Longrightarrow> on_row d k \<Longrightarrow> get_forward e (int d) k = Some (furthest (eg_a e) (eg_b e) d k)"
    and "d \<le> db \<Longrightarrow> on_row d k \<Longrightarrow> get_backward e (int d) k = Some (bwd e d k)"
    and "eg_delta e = skew (eg_a e) (eg_b e)" "eg_ux e = int (length (eg_a e))" "eg_uy e = int (length (eg_b e))"
  using assms filledD [of "eg_vf e" _ "Suc df" d k] filledD [of "eg_vb e" _ "Suc db" d k] by (auto simp: searched_def whole_def)

definition candidate :: "'a edit_graph \<Rightarrow> nat \<Rightarrow> nat \<Rightarrow> int \<Rightarrow> bool" where
  "candidate e df db k \<longleftrightarrow> on_row df k \<and> on_row db (k - skew (eg_a e) (eg_b e))"

lemma done_other_ok:
  assumes "searched e df db" and "meets (eg_a e) (eg_b e) df db k" and "kmax = min (int df) (int db + skew (eg_a e) (eg_b e))"
    and "candidate e df db l \<or> kmax < l"
  shows "\<exists>r. done_other e (int df) (int db) k l kmax = Some r \<and> meets (eg_a e) (eg_b e) df db r"
  using assms(4)
proof (induction "nat (kmax + 2 - l)" arbitrary: l rule: less_induct)
  case less
  let ?a = "eg_a e" and ?b = "eg_b e"
  note g = searched_get [OF assms(1)]
  show ?case
  proof (cases "l \<le> kmax")
    case True
    then have c: "on_row df l" "on_row db (l - skew ?a ?b)" using less.prems by (auto simp: candidate_def)
    let ?x = "furthest ?a ?b df l" and ?u = "bwd e db (l - skew ?a ?b)"
    have b: "0 \<le> ?x" "0 \<le> ?x - l" "?u \<le> int (length ?a)" "?u - l \<le> int (length ?b)"
      using furthest_nonneg [OF c(1), of ?a ?b] nearest_inside [OF c(2), of ?a ?b] by auto
    have step: "done_other e (int df) (int db) k l kmax =
        (if ?x = ?u \<or> ?u = 0 \<or> ?u - l = 0 \<or> ?x - l = eg_uy e \<or> ?x = eg_ux e then Some l
         else done_other e (int df) (int db) k (l + 2) kmax)"
      using True g(1) [OF order_refl c(1)] g(2) [OF order_refl c(2)] g(3) by (subst done_other.simps) simp
    show ?thesis
    proof (cases "?x = ?u \<or> ?u = 0 \<or> ?u - l = 0 \<or> ?x - l = eg_uy e \<or> ?x = eg_ux e")
      case hit: True
      then have "meets ?a ?b df db l" using b c g(4,5) by (auto simp: meets_def)
      then show ?thesis using step hit by auto
    next
      case False
      have "candidate e df db (l + 2) \<or> kmax < l + 2" using c assms(3) by (auto simp: candidate_def on_row_def)
      then show ?thesis using less.hyps [of "l + 2"] True step False by auto
    qed
  qed (use assms(2) in \<open>subst done_other.simps, simp\<close>)
qed

lemma done_scan_ok:
  assumes "searched e df db" and "kmax = min (int df) (int db + skew (eg_a e) (eg_b e))"
    and "candidate e df db k \<or> kmax < k" and "\<And>j. meets (eg_a e) (eg_b e) df db j \<Longrightarrow> k \<le> j"
  shows "\<exists>r. done_scan e (int df) (int db) k kmax = Some r \<and>
    (case r of Some l \<Rightarrow> meets (eg_a e) (eg_b e) df db l | None \<Rightarrow> \<forall>j. \<not> meets (eg_a e) (eg_b e) df db j)"
  using assms(3,4)
proof (induction "nat (kmax + 2 - k)" arbitrary: k rule: less_induct)
  case less
  let ?a = "eg_a e" and ?b = "eg_b e"
  note g = searched_get [OF assms(1)]
  show ?case
  proof (cases "k \<le> kmax")
    case True
    then have c: "on_row df k" "on_row db (k - skew ?a ?b)" using less.prems by (auto simp: candidate_def)
    let ?x = "furthest ?a ?b df k" and ?u = "bwd e db (k - skew ?a ?b)"
    have step: "done_scan e (int df) (int db) k kmax =
        (if ?u \<le> ?x then do { l \<leftarrow> done_other e (int df) (int db) k k kmax; Some (Some l) } else done_scan e (int df) (int db) (k + 2) kmax)"
      using True g(1) [OF order_refl c(1)] g(2) [OF order_refl c(2)] g(3) by (subst done_scan.simps) simp
    show ?thesis
    proof (cases "?u \<le> ?x")
      case hit: True
      then have "meets ?a ?b df db k" using c by (simp add: meets_def)
      then show ?thesis using done_other_ok [OF assms(1) _ assms(2) less.prems(1)] step hit by fastforce
    next
      case False
      have "candidate e df db (k + 2) \<or> kmax < k + 2" using c assms(2) by (auto simp: candidate_def on_row_def)
      moreover have "k + 2 \<le> j" if "meets ?a ?b df db j" for j
      proof -
        have "k \<le> j" "j \<noteq> k" "on_row df j" using less.prems(2) [OF that] that False by (auto simp: meets_def)
        then show ?thesis using on_row_adjacent [OF _ c(1), of j] by linarith
      qed
      ultimately show ?thesis using less.hyps [of "k + 2"] True step False by auto
    qed
  next
    case False
    then have "\<forall>j. \<not> meets ?a ?b df db j" using less.prems(2) assms(2) by (fastforce simp: meets_def on_row_def)
    then show ?thesis using False by (subst done_scan.simps) simp
  qed
qed

lemma smod_2: "z smod 2 \<noteq> 0 \<longleftrightarrow> odd (z :: int)"
  by (auto simp: signed_modulo_int_def sgn_if abs_if odd_iff_mod_2_eq_one) presburger+

lemma two_done_ok:
  assumes "searched e df db"
  shows "\<exists>r. two_done e (int df) (int db) = Some r \<and>
    (case r of Some l \<Rightarrow> meets (eg_a e) (eg_b e) df db l | None \<Rightarrow> \<forall>j. \<not> meets (eg_a e) (eg_b e) df db j)"
proof -
  let ?s = "skew (eg_a e) (eg_b e)"
  have m: "(int df + int db + ?s) smod 2 \<noteq> 0 \<longleftrightarrow> odd (int df + int db + ?s)"
    by (rule smod_2)
  show ?thesis
  proof (cases "odd (int df + int db + ?s)")
    case True
    then have "\<forall>j. \<not> meets (eg_a e) (eg_b e) df db j" by (auto simp: meets_def on_row_def)
    then show ?thesis using True m searched_get(3) [OF assms] by (simp add: two_done_def)
  next
    case False
    let ?lo = "max (- int df) (- int db + ?s)" and ?hi = "min (int df) (int db + ?s)"
    have "candidate e df db ?lo \<or> ?hi < ?lo" using False by (auto simp: candidate_def on_row_def max_def min_def)
    moreover have "?lo \<le> j" if "meets (eg_a e) (eg_b e) df db j" for j using that by (auto simp: meets_def on_row_def)
    ultimately show ?thesis
      using done_scan_ok [OF assms refl, of ?lo] False m searched_get(3) [OF assms] by (simp add: two_done_def)
  qed
qed

section \<open>Joining the two halves\<close>

lemma filled_mono: "filled v f n \<Longrightarrow> m \<le> n \<Longrightarrow> filled v f m"
  by (auto simp: filled_def)

lemma searched_forwardlcs:
  assumes "searched e df db" and "d \<le> df" and "on_row d k"
  obtains l where "forwardlcs e (int d) k = Some l" "lcs_chain (eg_a e) (eg_b e) l"
    "lcs_below l (furthest (eg_a e) (eg_b e) d k) (furthest (eg_a e) (eg_b e) d k - k)"
proof -
  have w: "whole e" and "filled (eg_vf e) (fwd e) d"
    using assms(1,2) filled_mono [of "eg_vf e" _ "Suc df" d] whole_seq [of e] by (auto simp: searched_def)
  from forwardlcs_ok [OF _ this(2) assms(3)] w searched_get(1) [OF assms] whole_seq [OF w] that show ?thesis by (auto simp: whole_def)
qed

lemma searched_backwardlcs:
  assumes "searched e df db" and "d \<le> db" and "on_row d k"
  obtains l where "backwardlcs e (int d) k = Some l" "lcs_chain (eg_a e) (eg_b e) l"
    "lcs_above l (bwd e d k) (bwd e d k - (k + skew (eg_a e) (eg_b e)))"
proof -
  have w: "whole e" and "filled (eg_vb e) (bwd e) d"
    using assms(1,2) filled_mono [of "eg_vb e" _ "Suc db" d] by (auto simp: searched_def)
  from backwardlcs_ok [OF w this(2) assms(3)] searched_get(2) [OF assms] that show ?thesis by auto
qed

lemma join_forward_backward:
  assumes "searched e df db" and "d \<le> df" and "on_row d k" and "d' \<le> db" and "on_row d' k'"
    and "furthest (eg_a e) (eg_b e) d k \<le> bwd e d' k'"
    and "furthest (eg_a e) (eg_b e) d k - k \<le> bwd e d' k' - (k' + skew (eg_a e) (eg_b e))"
  shows "\<exists>l. join_sorted (forwardlcs e (int d) k) (backwardlcs e (int d') k') = Some l \<and> lcs_chain (eg_a e) (eg_b e) l"
    and "\<exists>l. join_sorted (backwardlcs e (int d') k') (forwardlcs e (int d) k) = Some l \<and> lcs_chain (eg_a e) (eg_b e) l"
proof -
  from searched_forwardlcs [OF assms(1-3)] obtain l where l: "forwardlcs e (int d) k = Some l" "lcs_chain (eg_a e) (eg_b e) l"
    "lcs_below l (furthest (eg_a e) (eg_b e) d k) (furthest (eg_a e) (eg_b e) d k - k)" .
  from searched_backwardlcs [OF assms(1,4,5)] obtain m where m: "backwardlcs e (int d') k' = Some m" "lcs_chain (eg_a e) (eg_b e) m"
    "lcs_above m (bwd e d' k') (bwd e d' k' - (k' + skew (eg_a e) (eg_b e)))" .
  from join_ok [OF l(2) m(2) l(3) m(3) assms(6,7)] l(1) m(1)
  show "\<exists>l. join_sorted (forwardlcs e (int d) k) (backwardlcs e (int d') k') = Some l \<and> lcs_chain (eg_a e) (eg_b e) l"
    "\<exists>l. join_sorted (backwardlcs e (int d') k') (forwardlcs e (int d) k) = Some l \<and> lcs_chain (eg_a e) (eg_b e) l" by simp_all
qed

text \<open>The last case of \<^verbatim>\<open>twolcs\<close>: a forward search in the rectangle up to \<open>(u, v)\<close>.\<close>

lemma forward_to_meeting:
  assumes "searched e df db" and "meets (eg_a e) (eg_b e) df db k" and "\<And>d. solved (eg_a e) (eg_b e) d \<Longrightarrow> df + db \<le> d"
    and "eg_limit e = int n" and "df \<le> n" and "u = bwd e db (k - skew (eg_a e) (eg_b e))"
  shows "\<exists>l. forward (e\<lparr>eg_ux := u, eg_uy := u - k\<rparr>) = Some l \<and> lcs_chain (eg_a e) (eg_b e) l \<and> lcs_below l u (u - k)"
proof -
  let ?a = "eg_a e" and ?b = "eg_b e" and ?e = "e\<lparr>eg_ux := u, eg_uy := u - k\<rparr>"
  have i: "0 \<le> u" "0 \<le> u - k" "u \<le> int (length ?a)" "u - k \<le> int (length ?b)"
    using meet_inside [OF assms(2,3)] assms(6) by auto
  have le: "u \<le> furthest ?a ?b df k" using assms(2,6) by (simp add: meets_def)
  from meet_walk [OF assms(2) i(1,2) le] obtain d where d: "d \<le> df" "walk ?a ?b 0 0 d u (u - k)" by blast
  have "walk (take (nat u) ?a) (take (nat (u - k)) ?b) 0 0 d u (u - k)" by (rule walk_take [OF d(2)]) (use i in auto)
  then have "solved (seq_a ?e) (seq_b ?e) d" using i by (simp add: seq_a_def seq_b_def)
  moreover have "graph_ok ?e" using assms(1) i by (auto simp: searched_def whole_def graph_ok_def)
  moreover have "triangular (eg_vf ?e)" "eg_limit ?e = int n" "d \<le> n"
    using assms(1,4,5) d(1) by (simp_all add: searched_def filled_def)
  ultimately have "\<exists>l. forward ?e = Some l \<and> finds ?e l" by (intro forward_ok) blast+
  then show ?thesis by (simp add: finds_def)
qed

lemma twolcs_ok:
  assumes "searched e df db" and "meets (eg_a e) (eg_b e) df db k" and "\<And>d. solved (eg_a e) (eg_b e) d \<Longrightarrow> df + db \<le> d"
    and "eg_limit e = int n" and "df \<le> n"
  shows "\<exists>l. twolcs e (int df) (int db) k = Some l \<and> lcs_chain (eg_a e) (eg_b e) l"
proof -
  let ?a = "eg_a e" and ?b = "eg_b e"
  let ?s = "skew ?a ?b"
  define x u kb where "x = furthest ?a ?b df k" and "u = bwd e db (k - ?s)" and "kb = k - ?s"
  note g = searched_get [OF assms(1)]
  have r: "on_row df k" "on_row db kb" using assms(2) by (auto simp: meets_def kb_def)
  have get: "get_forward e (int df) k = Some x" "get_backward e (int db) kb = Some u"
    using g(1) [OF order_refl r(1)] g(2) [OF order_refl r(2)] by (auto simp: x_def u_def kb_def)
  have fl: "filled (eg_vf e) (furthest ?a ?b) (Suc df)" "filled (eg_vb e) (bwd e) (Suc db)" using assms(1) by (auto simp: searched_def)
  have lf: "labelled (eg_vf e) (int df - 1) j z = Some (0 < df \<and> on_row (df - 1) j \<and> z = furthest ?a ?b (df - 1) j)"
    if "even (int df + j + 1)" for j z
    using labelled_ok [OF fl(1), of "df - 1" j z] that labelled_outside [of "eg_vf e" j z] by (cases df) auto
  have lb: "labelled (eg_vb e) (int db - 1) j z = Some (0 < db \<and> on_row (db - 1) j \<and> z = bwd e (db - 1) j)"
    if "even (int db + j + 1)" for j z
    using labelled_ok [OF fl(2), of "db - 1" j z] that labelled_outside [of "eg_vb e" j z] by (cases db) auto
  have ev: "even (int df + (k - 1) + 1)" "even (int df + (k + 1) + 1)" "even (int db + (kb + 1) + 1)" "even (int db + (kb - 1) + 1)"
    using r unfolding on_row_def by presburger+
  define c1 c2 where "c1 = (u > 0 \<and> 0 < df \<and> on_row (df - 1) (k - 1) \<and> u - 1 = furthest ?a ?b (df - 1) (k - 1))"
    and "c2 = (u - k > 0 \<and> 0 < df \<and> on_row (df - 1) (k + 1) \<and> u = furthest ?a ?b (df - 1) (k + 1))"
  define c3 c4 where "c3 = (x < eg_ux e \<and> 0 < db \<and> on_row (db - 1) (kb + 1) \<and> x + 1 = bwd e (db - 1) (kb + 1))"
    and "c4 = (x - k < eg_uy e \<and> 0 < db \<and> on_row (db - 1) (kb - 1) \<and> x = bwd e (db - 1) (kb - 1))"
  have i: "u - 1 - (u - k) = k - 1" "u - (u - k - 1) = k + 1" "x + 1 - (x - k) - eg_delta e = kb + 1"
    "x - (x - k + 1) - eg_delta e = kb - 1" "k - eg_delta e = kb" using g(3) by (auto simp: kb_def)
  have t: "(if u > 0 then labelled (eg_vf e) (int df - 1) (k - 1) (u - 1) else Some False) = Some c1"
    "(if u - k > 0 then labelled (eg_vf e) (int df - 1) (k + 1) u else Some False) = Some c2"
    "(if x < eg_ux e then labelled (eg_vb e) (int db - 1) (kb + 1) (x + 1) else Some False) = Some c3"
    "(if x - k < eg_uy e then labelled (eg_vb e) (int db - 1) (kb - 1) x else Some False) = Some c4"
    by (simp_all only: lf [OF ev(1)] lf [OF ev(2)] lb [OF ev(3)] lb [OF ev(4)] c1_def c2_def c3_def c4_def split: if_split) simp_all
  have unf: "twolcs e (int df) (int db) k =
    (if x = u then join_sorted (forwardlcs e (int df) k) (backwardlcs e (int db) kb)
     else if c1 then join_sorted (forwardlcs e (int df - 1) (k - 1)) (backwardlcs e (int db) kb)
     else if c2 then join_sorted (forwardlcs e (int df - 1) (k + 1)) (backwardlcs e (int db) kb)
     else if u = 0 \<or> u - k = 0 \<or> x = eg_ux e \<or> x - k = eg_uy e then
       (if u = 0 \<or> u - k = 0 then backwardlcs e (int db) kb else forwardlcs e (int df) k)
     else if c3 then join_sorted (backwardlcs e (int db - 1) (kb + 1)) (forwardlcs e (int df) k)
     else if c4 then join_sorted (backwardlcs e (int db - 1) (kb - 1)) (forwardlcs e (int df) k)
     else join_sorted (backwardlcs e (int db) kb) (forward (e\<lparr>eg_ux := u, eg_uy := u - k\<rparr>)))"
    by (simp only: twolcs_def Let_def get i t bind.bind_lunit)
  have v: "u - (kb + ?s) = u - k" and ub: "u = bwd e db kb" by (simp_all add: kb_def u_def)
  have df: "int df - 1 = int (df - 1)" if "0 < df" using that by simp
  have db: "int db - 1 = int (db - 1)" if "0 < db" using that by simp
  let ?R = "\<lambda>r. \<exists>l. r = Some l \<and> lcs_chain ?a ?b l"
  have "?R (join_sorted (forwardlcs e (int df) k) (backwardlcs e (int db) kb))" if "x = u"
    by (rule join_forward_backward(1) [OF assms(1) order_refl r(1) order_refl r(2)]) (use that x_def ub v in auto)
  moreover have "?R (join_sorted (forwardlcs e (int df - 1) (k - 1)) (backwardlcs e (int db) kb))" if c1
    unfolding df [OF that [unfolded c1_def, THEN conjunct2, THEN conjunct1]]
    by (rule join_forward_backward(1) [OF assms(1) _ _ order_refl r(2)]) (use that ub v in \<open>auto simp: c1_def\<close>)
  moreover have "?R (join_sorted (forwardlcs e (int df - 1) (k + 1)) (backwardlcs e (int db) kb))" if c2
    unfolding df [OF that [unfolded c2_def, THEN conjunct2, THEN conjunct1]]
    by (rule join_forward_backward(1) [OF assms(1) _ _ order_refl r(2)]) (use that ub v in \<open>auto simp: c2_def\<close>)
  moreover have "?R (join_sorted (backwardlcs e (int db - 1) (kb + 1)) (forwardlcs e (int df) k))" if c3
    unfolding db [OF that [unfolded c3_def, THEN conjunct2, THEN conjunct1]]
    by (rule join_forward_backward(2) [OF assms(1) order_refl r(1)]) (use that in \<open>auto simp: c3_def kb_def x_def\<close>)
  moreover have "?R (join_sorted (backwardlcs e (int db - 1) (kb - 1)) (forwardlcs e (int df) k))" if c4
    unfolding db [OF that [unfolded c4_def, THEN conjunct2, THEN conjunct1]]
    by (rule join_forward_backward(2) [OF assms(1) order_refl r(1)]) (use that in \<open>auto simp: c4_def kb_def x_def\<close>)
  moreover have "?R (backwardlcs e (int db) kb)" "?R (forwardlcs e (int df) k)"
    using searched_backwardlcs [OF assms(1) order_refl r(2)] searched_forwardlcs [OF assms(1) order_refl r(1)] by metis+
  moreover have "?R (join_sorted (backwardlcs e (int db) kb) (forward (e\<lparr>eg_ux := u, eg_uy := u - k\<rparr>)))"
  proof -
    from forward_to_meeting [OF assms(1-3) assms(4,5) u_def] obtain l where
      l: "forward (e\<lparr>eg_ux := u, eg_uy := u - k\<rparr>) = Some l" "lcs_chain ?a ?b l" "lcs_below l u (u - k)" by blast
    from searched_backwardlcs [OF assms(1) order_refl r(2)] obtain m where
      m: "backwardlcs e (int db) kb = Some m" "lcs_chain ?a ?b m" "lcs_above m u (u - k)" using ub v by metis
    show ?thesis using join_ok(2) [OF l(2) m(2) l(3) m(3)] l(1) m(1) by simp
  qed
  ultimately show ?thesis unfolding unf by presburger
qed

section \<open>The search from both ends\<close>

lemma no_check: "check_ok (\<lambda>e k. Some (None :: unit option)) (\<lambda>_. False) (\<lambda>_. True) e d"
  by (simp add: check_ok_def)

lemma searched_forward_pass:
  assumes "searched e d db"
  obtains v where "forward_pass (\<lambda>e k. Some (None :: unit option)) (int d) e = Some (Inr (e\<lparr>eg_vf := v\<rparr>))" "searched (e\<lparr>eg_vf := v\<rparr>) (Suc d) db"
proof -
  have w: "whole e" "filled (eg_vf e) (fwd e) (Suc d)" using assms whole_seq [of e] by (auto simp: searched_def)
  from forward_pass_ok [OF _ no_check w(2)] w(1) obtain v where
    "forward_pass (\<lambda>e k. Some (None :: unit option)) (int d) e = Some (Inr (e\<lparr>eg_vf := v\<rparr>))" "filled v (fwd e) (Suc (Suc d))"
    by (fastforce simp: whole_def split: sum.splits)
  then show ?thesis using that assms whole_seq [OF w(1)] by (auto simp: searched_def)
qed

lemma searched_backward_pass:
  assumes "searched e df d"
  obtains v where "backward_pass (int d) e = Some (e\<lparr>eg_vb := v\<rparr>)" "searched (e\<lparr>eg_vb := v\<rparr>) df (Suc d)"
  using backward_pass_ok [of e d] assms by (auto simp: searched_def)

definition outcome_ok :: "nat \<Rightarrow> 'a list \<Rightarrow> 'a list \<Rightarrow> lcs + 'a edit_graph \<Rightarrow> bool" where
  "outcome_ok n a b r = (case r of Inl l \<Rightarrow> lcs_chain a b l
     | Inr e \<Rightarrow> searched e n n \<and> eg_limit e = int n \<and> eg_a e = a \<and> eg_b e = b \<and> (\<forall>D. solved a b D \<longrightarrow> 2 * n \<le> D))"

lemma two_rows_ok:
  assumes "searched e d d" and "eg_limit e = int n" and "d \<le> n" and "\<And>D. solved (eg_a e) (eg_b e) D \<Longrightarrow> 2 * d \<le> D"
  shows "\<exists>r. two_rows (int d) e = Some r \<and> outcome_ok n (eg_a e) (eg_b e) r"
  using assms
proof (induction "n - d" arbitrary: d e rule: less_induct)
  case less
  let ?a = "eg_a e" and ?b = "eg_b e"
  show ?case
  proof (cases "d < n")
    case True
    from two_done_ok [OF less.prems(1)] obtain r where r: "two_done e (int d) (int d) = Some r"
      "case r of Some l \<Rightarrow> meets ?a ?b d d l | None \<Rightarrow> \<forall>j. \<not> meets ?a ?b d d j" by blast
    show ?thesis
    proof (cases r)
      case (Some got)
      have "\<exists>l. twolcs e (int d) (int d) got = Some l \<and> lcs_chain ?a ?b l"
        by (rule twolcs_ok [OF less.prems(1) _ _ less.prems(2,3)]) (use r Some less.prems(4) in \<open>auto simp: mult_2\<close>)
      then show ?thesis using True less.prems(2) r(1) Some by (subst two_rows.simps) (auto simp: outcome_ok_def)
    next
      case None
      then have b1: "Suc (2 * d) \<le> D" if "solved ?a ?b D" for D
        using solved_meets [of ?a ?b d d] less.prems(4) [OF that] r(2) that by (cases "D = 2 * d") (auto simp: mult_2)
      from searched_forward_pass [OF less.prems(1)] obtain v where
        v: "forward_pass (\<lambda>e k. Some (None :: unit option)) (int d) e = Some (Inr (e\<lparr>eg_vf := v\<rparr>))" "searched (e\<lparr>eg_vf := v\<rparr>) (Suc d) d" .
      let ?e1 = "e\<lparr>eg_vf := v\<rparr>"
      from two_done_ok [OF v(2)] obtain r1 where r1: "two_done ?e1 (int d + 1) (int d) = Some r1"
        "case r1 of Some l \<Rightarrow> meets ?a ?b (Suc d) d l | None \<Rightarrow> \<forall>j. \<not> meets ?a ?b (Suc d) d j"
        by (auto simp: add.commute cong: option.case_cong)
      show ?thesis
      proof (cases r1)
        case (Some got)
        have "\<exists>l. twolcs ?e1 (int (Suc d)) (int d) got = Some l \<and> lcs_chain (eg_a ?e1) (eg_b ?e1) l"
          by (rule twolcs_ok [OF v(2), of _ n]) (use r1 Some b1 less.prems(2) True in \<open>auto simp: mult_2\<close>)
        then show ?thesis using True less.prems(2) r(1) r1(1) v(1) None Some
          by (subst two_rows.simps) (auto simp: add.commute outcome_ok_def)
      next
        case none: None
        from searched_backward_pass [OF v(2)] obtain v2 where
          v2: "backward_pass (int d) ?e1 = Some (?e1\<lparr>eg_vb := v2\<rparr>)" "searched (?e1\<lparr>eg_vb := v2\<rparr>) (Suc d) (Suc d)" .
        have b2: "2 * Suc d \<le> D" if "solved ?a ?b D" for D
          using solved_meets [of ?a ?b "Suc d" d] b1 [OF that] r1(2) none that by (cases "D = Suc (2 * d)") (auto simp: mult_2)
        have "\<exists>r. two_rows (int (Suc d)) (?e1\<lparr>eg_vb := v2\<rparr>) = Some r \<and> outcome_ok n ?a ?b r"
          using less.hyps [of "Suc d" "?e1\<lparr>eg_vb := v2\<rparr>"] v2(2) less.prems(2) True b2 by simp
        then show ?thesis
          using True less.prems(2) r(1) r1(1) v(1) v2(1) None none by (subst two_rows.simps) (simp add: add.commute)
      qed
    qed
  next
    case False
    then have "d = n" using less.prems(3) by simp
    then show ?thesis using less.prems by (subst two_rows.simps) (simp add: outcome_ok_def)
  qed
qed

abbreviation fits :: "'a edit_graph \<Rightarrow> nat \<Rightarrow> int \<Rightarrow> bool" where
  "fits e n j \<equiv> on_row n j \<and> furthest (eg_a e) (eg_b e) n j \<le> eg_ux e \<and> furthest (eg_a e) (eg_b e) n j - j \<le> eg_uy e"

lemma best_forward_ok:
  assumes "searched e n n" and "eg_limit e = int n" and "even (int n + k)" and "- int n \<le> k"
  shows "\<exists>r. best_forward e k dm km = Some r \<and> (r = km \<or> on_row n r) \<and>
    ((\<exists>j \<ge> k. fits e n j \<and> dm < 2 * furthest (eg_a e) (eg_b e) n j - j) \<longrightarrow> on_row n r)"
  using assms(3,4)
proof (induction "nat (int n + 2 - k)" arbitrary: k dm km rule: less_induct)
  case less
  let ?f = "furthest (eg_a e) (eg_b e) n"
  show ?case
  proof (cases "k \<le> int n")
    case True
    then have r: "on_row n k" using less.prems by (simp add: on_row_def)
    let ?c = "dm < 2 * ?f k - k \<and> ?f k \<le> eg_ux e \<and> ?f k - k \<le> eg_uy e"
    have step: "best_forward e k dm km = (if ?c then best_forward e (k + 2) (2 * ?f k - k) k else best_forward e (k + 2) dm km)"
      using True searched_get(1) [OF assms(1) order_refl r] assms(2) by (subst best_forward.simps) (simp add: algebra_simps)
    have later: "j = k \<or> k + 2 \<le> j" if "k \<le> j" "fits e n j" for j using that r on_row_adjacent [of n j k] by force
    show ?thesis
    proof (cases ?c)
      case c: True
      then have "\<exists>r'. best_forward e (k + 2) (2 * ?f k - k) k = Some r' \<and> (r' = k \<or> on_row n r')"
        using less.hyps [of "k + 2" "2 * ?f k - k" k] less.prems True by auto
      then show ?thesis using step c r by auto
    next
      case False
      have "\<exists>r. best_forward e (k + 2) dm km = Some r \<and> (r = km \<or> on_row n r) \<and>
          ((\<exists>j \<ge> k + 2. fits e n j \<and> dm < 2 * ?f j - j) \<longrightarrow> on_row n r)"
        using less.prems True by (intro less.hyps) auto
      moreover have "(\<exists>j \<ge> k. fits e n j \<and> dm < 2 * ?f j - j) \<Longrightarrow> (\<exists>j \<ge> k + 2. fits e n j \<and> dm < 2 * ?f j - j)"
        using later False by blast
      ultimately show ?thesis using step False by auto
    qed
  next
    case False
    then show ?thesis using assms(2) by (subst best_forward.simps) (auto simp: on_row_def)
  qed
qed

lemma best_backward_ok:
  assumes "searched e n n" and "eg_limit e = int n" and "even (int n + k)" and "- int n \<le> k" and "on_row n km"
  shows "\<exists>r. best_backward e k dm km = Some r \<and> on_row n r"
  using assms(3-5)
proof (induction "nat (int n + 2 - k)" arbitrary: k dm km rule: less_induct)
  case less
  show ?case
  proof (cases "k \<le> int n")
    case True
    then have r: "on_row n k" using less.prems by (simp add: on_row_def)
    then show ?thesis
      using True searched_get(2) [OF assms(1) order_refl r] assms(2) less.hyps [of "k + 2"] less.prems
      by (subst best_backward.simps) (auto simp: Let_def)
  qed (use assms(2) less.prems in \<open>subst best_backward.simps, simp\<close>)
qed

theorem twosided_ok:
  assumes "0 < n"
  shows "\<exists>l. twosided (new_graph (int n) a b) = Some l \<and> lcs_chain a b l"
proof -
  let ?g = "new_graph (int n) a b"
  have g: "whole ?g" "graph_ok ?g" "seq_a ?g = a" "seq_b ?g = b" "triangular (eg_vf ?g)" "triangular (eg_vb ?g)" "eg_a ?g = a" "eg_b ?g = b"
    "eg_limit ?g = int n" "eg_lx ?g = 0" "eg_ux ?g = int (length a)"
    by (simp_all add: new_graph_def whole_def graph_ok_def seq_a_def seq_b_def triangular_new)
  from set_forward_ok [OF g(2,5), of 0 0 0] obtain v where v: "set_forward 0 0 0 ?g = Some (?g\<lparr>eg_vf := v\<rparr>)" "triangular v"
    "label_get v 0 0 = Some (furthest a b 0 0)" by (auto simp: g(3,4))
  from set_backward_ok [of "?g\<lparr>eg_vf := v\<rparr>" 0 0 "int (length a)"] g obtain w where
    w: "set_backward 0 0 (int (length a)) (?g\<lparr>eg_vf := v\<rparr>) = Some (?g\<lparr>eg_vf := v, eg_vb := w\<rparr>)" "triangular w"
      "label_get w 0 0 = Some (nearest a b 0 0)" by (auto simp: nearest_leave)
  let ?e = "?g\<lparr>eg_vf := v, eg_vb := w\<rparr>"
  have s: "searched ?e 0 0" 
    using g filled_first [of v "furthest a b"] filled_first [of w "nearest a b"] v(2,3) w(2,3) by (simp add: searched_def)
  from two_rows_ok [OF s, of n] g obtain r where r: "two_rows 0 ?e = Some r" "outcome_ok n a b r" by auto
  have unf: "twosided ?g = (case r of Inl l \<Rightarrow> Some l | Inr e2 \<Rightarrow> do {
      kmax \<leftarrow> best_forward e2 (- eg_limit e2) (- 1) (- eg_limit e2 - 1);
      if kmax < - eg_limit e2 then None else do {
        l \<leftarrow> forwardlcs e2 (eg_limit e2) kmax;
        kmax1 \<leftarrow> best_backward e2 (- eg_limit e2) (2 ^ 25) kmax;
        if kmax1 < - eg_limit e2 then None else do { m \<leftarrow> backwardlcs e2 (eg_limit e2) kmax1; lcs_fix (l @ m) } } })"
    using v(1) w(1) r(1) g by (simp add: twosided_def)
  show ?thesis
  proof (cases r)
    case (Inr e1)
    then have e1: "searched e1 n n" "eg_limit e1 = int n" "eg_a e1 = a" "eg_b e1 = b" "\<And>D. solved a b D \<Longrightarrow> n \<le> D"
      using r(2) by (auto simp: outcome_ok_def)
    from furthest_inside [OF e1(5)] obtain k where k: "fits e1 n k" using searched_get(4,5) [OF e1(1)] e1(3,4) by auto
    then have "- int n \<le> k" "- 1 < 2 * furthest a b n k - k" using furthest_nonneg [of n k a b] by (auto simp: on_row_def)
    with best_forward_ok [OF e1(1,2), of "- int n" "- 1" "- int n - 1"] k e1(3,4) obtain km where
      km: "best_forward e1 (- int n) (- 1) (- int n - 1) = Some km" "on_row n km" by auto
    from best_backward_ok [OF e1(1,2) _ _ km(2), of "- int n" "2 ^ 25"] obtain kn where
      kn: "best_backward e1 (- int n) (2 ^ 25) km = Some kn" "on_row n kn" by auto
    from searched_forwardlcs [OF e1(1) order_refl km(2)] obtain l where l: "forwardlcs e1 (int n) km = Some l" "lcs_chain a b l" using e1(3,4) by metis
    from searched_backwardlcs [OF e1(1) order_refl kn(2)] obtain m where m: "backwardlcs e1 (int n) kn = Some m" "lcs_chain a b m" using e1(3,4) by metis
    have "- int n \<le> km" "- int n \<le> kn" using km(2) kn(2) by (auto simp: on_row_def)
    then show ?thesis
      using unf Inr e1(2) km(1) kn(1) l m lcs_fix_ok [of "l @ m" a b] by (auto simp: lcs_chain_def)
  qed (use unf r in \<open>auto simp: outcome_ok_def\<close>)
qed

theorem diff_lines_ok: "\<exists>l. diff_lines a b = Some (to_diffs l (int (length a)) (int (length b))) \<and> lcs_chain a b l"
  using twosided_ok [of 50 a b] by (auto simp: diff_lines_def compute_def MAX_DIFFS_def signed_divide_int_def)

end
