(* ===== verification/Gosort_Stable.thy ===== *)
theory Gosort_Stable
  imports Gosort_Pdq
begin

text \<open>
  The stable sort of \<^verbatim>\<open>crates/udiff/src/gosort.rs\<close>: insertion sort of blocks of 20 elements, then merges in place with
  the SymMerge algorithm. As in \<open>Gosort\<close>, an index out of range and a loop that does not end are \<open>None\<close>.
\<close>

partial_function (option) is_sorted_loop :: "('a \<Rightarrow> 'a \<Rightarrow> bool) \<Rightarrow> 'a list \<Rightarrow> nat \<Rightarrow> bool option" where
  "is_sorted_loop lt xs i =
     (if i > 0 then do { c \<leftarrow> lt_at lt xs i (i - 1); if c then Some False else is_sorted_loop lt xs (i - 1) } else Some True)"

definition is_sorted :: "'a list \<Rightarrow> ('a \<Rightarrow> 'a \<Rightarrow> bool) \<Rightarrow> bool option" where
  "is_sorted xs lt = is_sorted_loop lt xs (length xs - 1)"

fun swap_range_func :: "'a list \<Rightarrow> nat \<Rightarrow> nat \<Rightarrow> nat \<Rightarrow> 'a list option" where
  "swap_range_func xs a b 0 = Some xs"
| "swap_range_func xs a b (Suc n) = do { xs1 \<leftarrow> swap_at xs a b; swap_range_func xs1 (a + 1) (b + 1) n }"

partial_function (option) rotate_loop :: "'a list \<Rightarrow> nat \<Rightarrow> nat \<Rightarrow> nat \<Rightarrow> 'a list option" where
  "rotate_loop xs m i j =
     (if i \<noteq> j then
        (if i > j then do { xs1 \<leftarrow> swap_range_func xs (m - i) m j; rotate_loop xs1 m (i - j) j }
         else do { xs1 \<leftarrow> swap_range_func xs (m - i) (m + j - i) i; rotate_loop xs1 m i (j - i) })
      else swap_range_func xs (m - i) m i)"

definition rotate_func :: "'a list \<Rightarrow> nat \<Rightarrow> nat \<Rightarrow> nat \<Rightarrow> 'a list option" where
  "rotate_func xs a m b = rotate_loop xs m (m - a) (b - m)"

text \<open>\<^verbatim>\<open>while i < j { h = half(i + j); if p(h) { i = h + 1 } else { j = h } }\<close>\<close>

partial_function (option) search_func :: "(nat \<Rightarrow> bool option) \<Rightarrow> nat \<Rightarrow> nat \<Rightarrow> nat option" where
  "search_func p i j =
     (if i < j then
        (let h = (i + j) div 2 in do { c \<leftarrow> p h; if c then search_func p (h + 1) j else search_func p i h })
      else Some i)"

text \<open>The two loops that carry an element to its place.\<close>

partial_function (option) carry_up :: "'a list \<Rightarrow> nat \<Rightarrow> nat \<Rightarrow> 'a list option" where
  "carry_up xs k i = (if k + 1 < i then do { xs1 \<leftarrow> swap_at xs k (k + 1); carry_up xs1 (k + 1) i } else Some xs)"

partial_function (option) carry_down :: "'a list \<Rightarrow> nat \<Rightarrow> nat \<Rightarrow> 'a list option" where
  "carry_down xs k i = (if k > i then do { xs1 \<leftarrow> swap_at xs k (k - 1); carry_down xs1 (k - 1) i } else Some xs)"

partial_function (option) sym_merge_func :: "('a \<Rightarrow> 'a \<Rightarrow> bool) \<Rightarrow> 'a list \<Rightarrow> nat \<Rightarrow> nat \<Rightarrow> nat \<Rightarrow> 'a list option" where
  "sym_merge_func lt xs a m b =
     (if m - a = 1 then do {
        i \<leftarrow> search_func (\<lambda>h. lt_at lt xs h a) m b;
        carry_up xs a i
      } else if b - m = 1 then do {
        i \<leftarrow> search_func (\<lambda>h. map_option Not (lt_at lt xs m h)) a m;
        carry_down xs m i
      } else
        (let mid = (a + b) div 2; n = mid + m; p = n - 1 in do {
           start \<leftarrow> (if m > mid then search_func (\<lambda>c. map_option Not (lt_at lt xs (p - c) c)) (n - b) mid
                     else search_func (\<lambda>c. map_option Not (lt_at lt xs (p - c) c)) a m);
           let stop = n - start;
           xs1 \<leftarrow> (if start < m \<and> m < stop then rotate_func xs start m stop else Some xs);
           xs2 \<leftarrow> (if a < start \<and> start < mid then sym_merge_func lt xs1 a start mid else Some xs1);
           if mid < stop \<and> stop < b then sym_merge_func lt xs2 mid stop b else Some xs2
         }))"

partial_function (option) block_sort :: "('a \<Rightarrow> 'a \<Rightarrow> bool) \<Rightarrow> 'a list \<Rightarrow> nat \<Rightarrow> nat \<Rightarrow> nat \<Rightarrow> ('a list \<times> nat) option" where
  "block_sort lt xs bs a b =
     (if b \<le> length xs then do { xs1 \<leftarrow> insertion_sort_func lt xs a b; block_sort lt xs1 bs b (b + bs) } else Some (xs, a))"

partial_function (option) merge_blocks :: "('a \<Rightarrow> 'a \<Rightarrow> bool) \<Rightarrow> 'a list \<Rightarrow> nat \<Rightarrow> nat \<Rightarrow> nat \<Rightarrow> ('a list \<times> nat) option" where
  "merge_blocks lt xs bs a b =
     (if b \<le> length xs then do { xs1 \<leftarrow> sym_merge_func lt xs a (a + bs) b; merge_blocks lt xs1 bs b (b + 2 * bs) }
      else Some (xs, a))"

partial_function (option) merge_rounds :: "('a \<Rightarrow> 'a \<Rightarrow> bool) \<Rightarrow> 'a list \<Rightarrow> nat \<Rightarrow> 'a list option" where
  "merge_rounds lt xs bs =
     (if bs < length xs then do {
        (xs1, a) \<leftarrow> merge_blocks lt xs bs 0 (2 * bs);
        xs2 \<leftarrow> (if a + bs < length xs1 then sym_merge_func lt xs1 a (a + bs) (length xs1) else Some xs1);
        merge_rounds lt xs2 (2 * bs)
      } else Some xs)"

definition stable_func :: "('a \<Rightarrow> 'a \<Rightarrow> bool) \<Rightarrow> 'a list \<Rightarrow> 'a list option" where
  "stable_func lt xs = do {
     (xs1, a) \<leftarrow> block_sort lt xs 20 0 20;
     xs2 \<leftarrow> insertion_sort_func lt xs1 a (length xs1);
     merge_rounds lt xs2 20
   }"

definition slice_stable :: "'a list \<Rightarrow> ('a \<Rightarrow> 'a \<Rightarrow> bool) \<Rightarrow> 'a list option" where
  "slice_stable xs lt = stable_func lt xs"

text \<open>The loops are executable.\<close>

declare is_sorted_loop.simps [code] rotate_loop.simps [code] search_func.simps [code] carry_up.simps [code]
  carry_down.simps [code] sym_merge_func.simps [code] block_sort.simps [code] merge_blocks.simps [code] merge_rounds.simps [code]

end
