(* ===== verification/Udiff.thy ===== *)
theory Udiff
  imports Udiff_Search Gosort_Stable
begin

text \<open>
  \<^verbatim>\<open>crates/udiff/src/diff.rs\<close> and \<^verbatim>\<open>unified.rs\<close>: edits of a text, their expansion to whole lines, and the hunks and the
  text of a unified diff. An index out of range is \<open>None\<close> or \<open>Stuck\<close>; slices whose range was checked by \<^verbatim>\<open>validate\<close> are written
  with \<open>take\<close> and \<open>drop\<close>.
\<close>

abbreviation newline :: byte where
  "newline \<equiv> 10"

section \<open>Lines\<close>

text \<open>The loop of \<^verbatim>\<open>split_lines\<close>: the rest of the text, its index and the start of the current line.\<close>

fun split_loop :: "bytes \<Rightarrow> bytes \<Rightarrow> nat \<Rightarrow> nat \<Rightarrow> bytes list \<times> nat list" where
  "split_loop text [] i start =
     (if start < length text then ([drop start text], [length text]) else ([], []))"
| "split_loop text (c # cs) i start =
     (if c = newline then
        (case split_loop text cs (i + 1) (i + 1) of (ls, os) \<Rightarrow> (take (i + 1 - start) (drop start text) # ls, (i + 1) # os))
      else split_loop text cs (i + 1) start)"

definition split_lines :: "bytes \<Rightarrow> bytes list \<times> nat list" where
  "split_lines text = (case split_loop text text 0 0 of (ls, os) \<Rightarrow> (ls, 0 # os))"

section \<open>Edits\<close>

record edit =
  ed_start :: nat
  ed_end :: nat
  ed_new :: bytes

definition index_opt :: "'a list \<Rightarrow> nat \<Rightarrow> 'a option" where
  "index_opt xs i = (if i < length xs then Some (xs ! i) else None)"

definition slice_opt :: "'a list \<Rightarrow> nat \<Rightarrow> nat \<Rightarrow> 'a list option" where
  "slice_opt xs i j = (if i \<le> j \<and> j \<le> length xs then Some (take (j - i) (drop i xs)) else None)"

definition edit_of_diff :: "nat list \<Rightarrow> bytes list \<Rightarrow> line_diff \<Rightarrow> edit option" where
  "edit_of_diff offsets after_lines d = do {
     s \<leftarrow> index_opt offsets (df_start d);
     e \<leftarrow> index_opt offsets (df_end d);
     ls \<leftarrow> slice_opt after_lines (df_repl_start d) (df_repl_end d);
     Some \<lparr>ed_start = s, ed_end = e, ed_new = concat ls\<rparr>
   }"

definition lines_diff :: "bytes \<Rightarrow> bytes \<Rightarrow> edit list option" where
  "lines_diff old new = (case (split_lines old, split_lines new) of ((before_lines, offsets), (after_lines, _)) \<Rightarrow> do {
     diffs \<leftarrow> diff_lines before_lines after_lines;
     those (map (edit_of_diff offsets after_lines) diffs)
   })"

definition edits_less :: "edit \<Rightarrow> edit \<Rightarrow> bool" where
  "edits_less a b = (if ed_start a \<noteq> ed_start b then ed_start a < ed_start b else ed_end a < ed_end b)"

definition sort_edits :: "edit list \<Rightarrow> edit list option" where
  "sort_edits edits = slice_stable edits edits_less"

fun validate_loop :: "nat \<Rightarrow> edit list \<Rightarrow> int \<Rightarrow> nat \<Rightarrow> (bytes, int) outcome" where
  "validate_loop n [] sz last_end = Ok sz"
| "validate_loop n (edit # edits) sz last_end =
     (if ed_start edit > ed_end edit \<or> ed_end edit > n then Err (ascii ''diff has out-of-bounds edits'')
      else if ed_start edit < last_end then Err (ascii ''diff has overlapping edits'')
      else validate_loop n edits (sz + int (length (ed_new edit)) + int (ed_start edit) - int (ed_end edit)) (ed_end edit))"

definition validate :: "bytes \<Rightarrow> edit list \<Rightarrow> (bytes, edit list \<times> int) outcome" where
  "validate src edits =
     (case (case is_sorted edits edits_less of
          Some True \<Rightarrow> Some edits
        | Some False \<Rightarrow> sort_edits edits
        | None \<Rightarrow> None) of
        None \<Rightarrow> Stuck
      | Some es \<Rightarrow> obind (validate_loop (length src) es (int (length src)) 0) (\<lambda>sz. Ok (es, sz)))"

definition aligned :: "bytes \<Rightarrow> edit \<Rightarrow> bool" where
  "aligned src edit \<longleftrightarrow> \<not> (ed_start edit \<ge> length src
     \<or> ed_start edit > 0 \<and> src ! (ed_start edit - 1) \<noteq> newline
     \<or> ed_end edit > 0 \<and> src ! (ed_end edit - 1) \<noteq> newline
     \<or> ed_new edit \<noteq> [] \<and> last (ed_new edit) \<noteq> newline)"

text \<open>\<^verbatim>\<open>rposition\<close> and \<^verbatim>\<open>position\<close> of a newline.\<close>

fun newline_position :: "bytes \<Rightarrow> nat option" where
  "newline_position [] = None"
| "newline_position (c # cs) = (if c = newline then Some 0 else map_option Suc (newline_position cs))"

definition newline_rposition :: "bytes \<Rightarrow> nat option" where
  "newline_rposition bs = map_option (\<lambda>i. length bs - 1 - i) (newline_position (rev bs))"

definition expand_edit :: "edit \<Rightarrow> bytes \<Rightarrow> edit" where
  "expand_edit edit src =
     (let start = ed_start edit;
          last_newline = (case newline_rposition (take start src) of Some i \<Rightarrow> int i | None \<Rightarrow> - 1);
          delta = int start - 1 - last_newline;
          edit1 = (if delta > 0
            then edit\<lparr>ed_start := start - nat delta, ed_new := take (nat delta) (drop (start - nat delta) src) @ ed_new edit\<rparr>
            else edit);
          end0 = ed_end edit1;
          end1 = (if end0 > 0 \<and> src ! (end0 - 1) \<noteq> newline \<or> ed_new edit1 \<noteq> [] \<and> last (ed_new edit1) \<noteq> newline
            then (case newline_position (drop end0 src) of None \<Rightarrow> length src | Some nl \<Rightarrow> end0 + nl + 1)
            else end0)
      in edit1\<lparr>ed_end := end1, ed_new := ed_new edit1 @ take (end1 - end0) (drop end0 src)\<rparr>)"

fun expand_loop :: "bytes \<Rightarrow> edit \<Rightarrow> edit list \<Rightarrow> edit list" where
  "expand_loop src prev [] = [expand_edit prev src]"
| "expand_loop src prev (edit # rest) =
     (let between = take (ed_start edit - ed_end prev) (drop (ed_end prev) src) in
      if newline \<notin> set between
      then expand_loop src (prev\<lparr>ed_new := ed_new prev @ between @ ed_new edit, ed_end := ed_end edit\<rparr>) rest
      else expand_edit prev src # expand_loop src edit rest)"

definition line_edits :: "bytes \<Rightarrow> edit list \<Rightarrow> (bytes, edit list) outcome" where
  "line_edits src edits = obind (validate src edits) (\<lambda>(es, _).
     if list_all (aligned src) es then Ok es
     else case es of [] \<Rightarrow> Ok es | first # rest \<Rightarrow> Ok (expand_loop src first rest))"

section \<open>Hunks\<close>

datatype op_kind = ODelete | OInsert | OEqual

record diff_line =
  ln_kind :: op_kind
  ln_content :: bytes

record hunk =
  hk_from_line :: int
  hk_to_line :: int
  hk_lines :: "diff_line list"

text \<open>\<^verbatim>\<open>isize\<close> arithmetic that wraps.\<close>

definition wrap_isize :: "int \<Rightarrow> int" where
  "wrap_isize z = (z + 2 ^ 63) mod 2 ^ 64 - 2 ^ 63"

definition count_newlines :: "bytes \<Rightarrow> int" where
  "count_newlines bs = int (length (filter (\<lambda>c. c = newline) bs))"

text \<open>The lines that \<^verbatim>\<open>add_equal_lines\<close> adds; their number is its result.\<close>

function equal_lines :: "bytes list \<Rightarrow> int \<Rightarrow> int \<Rightarrow> diff_line list" where
  "equal_lines lines i stop =
     (if i < stop then
        (if i < 0 then equal_lines lines (i + 1) stop
         else if i \<ge> int (length lines) then []
         else \<lparr>ln_kind = OEqual, ln_content = lines ! nat i\<rparr> # equal_lines lines (i + 1) stop)
      else [])"
  by pat_completeness auto
termination by (relation "measure (\<lambda>(lines, i, stop). nat (stop - i))") auto

definition add_equal_lines :: "bytes list \<Rightarrow> int \<Rightarrow> int \<Rightarrow> hunk \<Rightarrow> hunk \<times> int" where
  "add_equal_lines lines start stop h =
     (let ls = equal_lines lines start stop in (h\<lparr>hk_lines := hk_lines h @ ls\<rparr>, int (length ls)))"

text \<open>The state of the loop: the closed hunks, the hunk being built, and the two line counters.\<close>

record hunk_state =
  hs_done :: "hunk list"
  hs_open :: "hunk option"
  hs_last :: int
  hs_to_line :: int

definition edit_lines :: "bytes \<Rightarrow> edit \<Rightarrow> int \<times> int" where
  "edit_lines content edit =
     (let start = count_newlines (take (ed_start edit) content);
          stop = count_newlines (take (ed_end edit) content)
      in (start, if ed_end edit = length content \<and> content \<noteq> [] \<and> last content \<noteq> newline then stop + 1 else stop))"

definition start_hunk :: "bytes list \<Rightarrow> int \<Rightarrow> int \<Rightarrow> hunk_state \<Rightarrow> hunk_state" where
  "start_hunk lines context start st =
     (let done1 = (case hs_open st of
            Some h \<Rightarrow> hs_done st @ [fst (add_equal_lines lines (hs_last st) (wrap_isize (hs_last st + context)) h)]
          | None \<Rightarrow> hs_done st);
          to_line = hs_to_line st + (start - hs_last st);
          (h, delta) = add_equal_lines lines (wrap_isize (start - context)) start
            \<lparr>hk_from_line = start + 1, hk_to_line = to_line + 1, hk_lines = []\<rparr>
      in st\<lparr>hs_done := done1, hs_to_line := to_line,
            hs_open := Some (h\<lparr>hk_from_line := hk_from_line h - delta, hk_to_line := hk_to_line h - delta\<rparr>)\<rparr>)"

definition open_hunk :: "bytes list \<Rightarrow> int \<Rightarrow> int \<Rightarrow> hunk_state \<Rightarrow> hunk_state" where
  "open_hunk lines context start st = (case hs_open st of
     Some h \<Rightarrow>
       (if start = hs_last st then st
        else if start \<le> wrap_isize (hs_last st + wrap_isize (context * 2))
        then st\<lparr>hs_open := Some (fst (add_equal_lines lines (hs_last st) start h))\<rparr>
        else start_hunk lines context start st)
   | None \<Rightarrow> start_hunk lines context start st)"

definition deleted_lines :: "bytes list \<Rightarrow> int \<Rightarrow> int \<Rightarrow> diff_line list option" where
  "deleted_lines lines start stop =
     those (map (\<lambda>i. map_option (\<lambda>c. \<lparr>ln_kind = ODelete, ln_content = c\<rparr>) (index_opt lines (nat i))) [start..stop - 1])"

definition inserted_lines :: "bytes \<Rightarrow> diff_line list" where
  "inserted_lines new =
     (if new = [] then [] else map (\<lambda>c. \<lparr>ln_kind = OInsert, ln_content = c\<rparr>) (fst (split_lines new)))"

definition add_edit :: "bytes \<Rightarrow> bytes list \<Rightarrow> int \<Rightarrow> edit \<Rightarrow> hunk_state \<Rightarrow> hunk_state option" where
  "add_edit content lines context edit st = (case edit_lines content edit of (start, stop) \<Rightarrow>
     (let st1 = open_hunk lines context start st in
      case hs_open st1 of
        None \<Rightarrow> Some (st1\<lparr>hs_last := start\<rparr>)
      | Some h \<Rightarrow> do {
          dels \<leftarrow> deleted_lines lines start stop;
          let ins = inserted_lines (ed_new edit);
          Some (st1\<lparr>hs_open := Some (h\<lparr>hk_lines := hk_lines h @ dels @ ins\<rparr>),
                    hs_last := start + int (length dels), hs_to_line := hs_to_line st1 + int (length ins)\<rparr>)
        }))"

fun add_edits :: "bytes \<Rightarrow> bytes list \<Rightarrow> int \<Rightarrow> edit list \<Rightarrow> hunk_state \<Rightarrow> hunk_state option" where
  "add_edits content lines context [] st = Some st"
| "add_edits content lines context (edit # edits) st =
     do { st1 \<leftarrow> add_edit content lines context edit st; add_edits content lines context edits st1 }"

definition to_hunks :: "bytes \<Rightarrow> edit list \<Rightarrow> int \<Rightarrow> hunk list option" where
  "to_hunks content edits context =
     (let lines = fst (split_lines content) in do {
        st \<leftarrow> add_edits content lines context edits \<lparr>hs_done = [], hs_open = None, hs_last = 0, hs_to_line = 0\<rparr>;
        Some (case hs_open st of
            None \<Rightarrow> hs_done st
          | Some h \<Rightarrow> hs_done st @ [fst (add_equal_lines lines (hs_last st) (wrap_isize (hs_last st + context)) h)])
      })"

section \<open>Rendering\<close>

fun line_counts :: "diff_line list \<Rightarrow> nat \<times> nat" where
  "line_counts [] = (0, 0)"
| "line_counts (l # ls) = (case line_counts ls of (f, t) \<Rightarrow> (case ln_kind l of
     ODelete \<Rightarrow> (f + 1, t) | OInsert \<Rightarrow> (f, t + 1) | OEqual \<Rightarrow> (f + 1, t + 1)))"

definition range_text :: "char \<Rightarrow> int \<Rightarrow> nat \<Rightarrow> bytes" where
  "range_text sign line num = ascii (CHR '' '' # sign #
     (if num > 1 then show_int line @ '','' @ show_nat num
      else if line = 1 \<and> num = 0 then ''0,0''
      else show_int line))"

definition kind_byte :: "op_kind \<Rightarrow> byte" where
  "kind_byte k = (case k of ODelete \<Rightarrow> of_char (CHR ''-'') | OInsert \<Rightarrow> of_char (CHR ''+'') | OEqual \<Rightarrow> of_char (CHR '' ''))"

definition line_text :: "diff_line \<Rightarrow> bytes" where
  "line_text l = kind_byte (ln_kind l) # ln_content l @
     (if ln_content l \<noteq> [] \<and> last (ln_content l) = newline then []
      else newline # 0x5c # ascii '' No newline at end of file'' @ [newline])"

definition hunk_text :: "hunk \<Rightarrow> bytes" where
  "hunk_text h = (case line_counts (hk_lines h) of (f, t) \<Rightarrow>
     ascii ''@@'' @ range_text (CHR ''-'') (hk_from_line h) f @ range_text (CHR ''+'') (hk_to_line h) t @ ascii '' @@'' @ [newline] @
     concat (map line_text (hk_lines h)))"

definition render_unified :: "bytes \<Rightarrow> bytes \<Rightarrow> hunk list \<Rightarrow> bytes" where
  "render_unified from_label to_label hunks =
     (if hunks = [] then []
      else ascii ''--- '' @ from_label @ newline # ascii ''+++ '' @ to_label @ [newline] @ concat (map hunk_text hunks))"

definition to_unified :: "bytes \<Rightarrow> bytes \<Rightarrow> bytes \<Rightarrow> edit list \<Rightarrow> nat \<Rightarrow> (bytes, bytes) outcome" where
  "to_unified old_label new_label content edits context_lines =
     (if edits = [] then Ok (render_unified old_label new_label [])
      else obind (line_edits content edits) (\<lambda>es.
        case to_hunks content es (wrap_isize (int context_lines)) of
          None \<Rightarrow> Stuck
        | Some hunks \<Rightarrow> Ok (render_unified old_label new_label hunks)))"

definition DEFAULT_CONTEXT_LINES :: nat where "DEFAULT_CONTEXT_LINES = 3"

text \<open>\<open>Err\<close> is the process exit with status 1.\<close>

definition unified :: "bytes \<Rightarrow> bytes \<Rightarrow> bytes \<Rightarrow> bytes \<Rightarrow> (bytes, bytes) outcome" where
  "unified old_label new_label old new = (case lines_diff old new of
     None \<Rightarrow> Stuck
   | Some edits \<Rightarrow> to_unified old_label new_label old edits DEFAULT_CONTEXT_LINES)"

end
