(* ===== verification/Udiff_Correct.thy ===== *)
theory Udiff_Correct
  imports Udiff
begin

text \<open>
  What the edits of \<^verbatim>\<open>lines\<close> and the hunks of \<^verbatim>\<open>to_hunks\<close> do: applied to the old text they give the new one. Applying is
  defined here, at the level of edits (as \<^verbatim>\<open>apply\<close> of the tests does it) and at the level of hunks (as a patch program does it).
\<close>

section \<open>Lines of a text\<close>

fun lines_of :: "bytes \<Rightarrow> bytes list" where
  "lines_of [] = []"
| "lines_of (c # cs) =
     (if c = newline then [c] # lines_of cs else case lines_of cs of [] \<Rightarrow> [[c]] | l # ls \<Rightarrow> (c # l) # ls)"

fun line_ends :: "nat \<Rightarrow> bytes list \<Rightarrow> nat list" where
  "line_ends n [] = []"
| "line_ends n (l # ls) = (n + length l) # line_ends (n + length l) ls"

lemma concat_lines_of [simp]: "concat (lines_of t) = t"
  by (induction t rule: lines_of.induct) (auto split: list.splits)

lemma lines_of_ne: "l \<in> set (lines_of t) \<Longrightarrow> l \<noteq> []"
  by (induction t arbitrary: l rule: lines_of.induct) (auto split: if_splits list.splits)

lemma lines_of_Nil [simp]: "lines_of t = [] \<longleftrightarrow> t = []"
  by (induction t rule: lines_of.induct) (auto split: list.splits)

lemma lines_of_prefix: "newline \<notin> set p \<Longrightarrow> p \<noteq> [] \<Longrightarrow>
  lines_of (p @ t) = (case lines_of t of [] \<Rightarrow> [p] | l # ls \<Rightarrow> (p @ l) # ls)"
proof (induction p)
  case (Cons c p)
  then show ?case by (cases p) (auto split: list.splits)
qed simp

lemma lines_of_line: "newline \<notin> set p \<Longrightarrow> lines_of (p @ newline # t) = (p @ [newline]) # lines_of t"
  by (cases "p = []") (auto simp: lines_of_prefix)

lemma split_loop_spec:
  assumes "newline \<notin> set cur" and "text = pre @ cur @ rest" and "start = length pre" and "i = start + length cur"
  shows "split_loop text rest i start = (lines_of (cur @ rest), line_ends start (lines_of (cur @ rest)))"
  using assms
proof (induction rest arbitrary: pre cur start i)
  case Nil
  then show ?case using lines_of_prefix [of cur "[]"] by (cases "cur = []") auto
next
  case (Cons c cs)
  show ?case
  proof (cases "c = newline")
    case True
    have "split_loop text cs (i + 1) (i + 1) = (lines_of cs, line_ends (i + 1) (lines_of cs))"
      using Cons.IH [of "[]" "pre @ cur @ [c]" "i + 1" "i + 1"] Cons.prems by simp
    then show ?thesis using True Cons.prems lines_of_line [of cur cs] by simp
  next
    case False
    then show ?thesis using Cons.IH [of "cur @ [c]" pre start "i + 1"] Cons.prems by simp
  qed
qed

lemma split_lines_spec: "split_lines t = (lines_of t, 0 # line_ends 0 (lines_of t))"
  using split_loop_spec [of "[]" t "[]" t 0 0] by (simp add: split_lines_def)

lemma length_line_ends [simp]: "length (line_ends n ls) = length ls"
  by (induction ls arbitrary: n) auto

definition offset :: "bytes list \<Rightarrow> nat \<Rightarrow> nat" where
  "offset ls i = length (concat (take i ls))"

lemma nth_line_ends: "i \<le> length ls \<Longrightarrow> (n # line_ends n ls) ! i = n + offset ls i"
proof (induction ls arbitrary: n i)
  case (Cons l ls)
  then show ?case by (cases i) (auto simp: offset_def)
qed (simp add: offset_def)

lemma take_offset: "take (offset ls i) (concat ls) = concat (take i ls)"
  by (metis append_eq_conv_conj append_take_drop_id concat_append offset_def)

lemma drop_offset: "drop (offset ls i) (concat ls) = concat (drop i ls)"
  by (metis append_eq_conv_conj append_take_drop_id concat_append offset_def)

lemma offset_mono: "i \<le> j \<Longrightarrow> offset ls i \<le> offset ls j"
proof -
  assume "i \<le> j"
  then have "take j ls = take i ls @ take (j - i) (drop i ls)" by (metis le_add_diff_inverse take_add)
  then show ?thesis by (simp add: offset_def)
qed

lemma offset_le: "offset ls i \<le> length (concat ls)"
  by (metis drop_offset append_take_drop_id le_add1 length_append take_offset offset_def)

lemma between_offsets:
  assumes "i \<le> j"
  shows "take (offset ls j - offset ls i) (drop (offset ls i) (concat ls)) = concat (take (j - i) (drop i ls))"
proof -
  have "offset ls j - offset ls i = offset (drop i ls) (j - i)"
    using assms by (metis (no_types) add_diff_cancel_left' concat_append length_append le_add_diff_inverse offset_def take_add)
  then show ?thesis by (simp add: drop_offset take_offset)
qed

section \<open>Applying edits\<close>

fun apply_from :: "bytes \<Rightarrow> nat \<Rightarrow> edit list \<Rightarrow> bytes" where
  "apply_from src pos [] = drop pos src"
| "apply_from src pos (edit # edits) =
     take (ed_start edit - pos) (drop pos src) @ ed_new edit @ apply_from src (ed_end edit) edits"

definition apply_edits :: "bytes \<Rightarrow> edit list \<Rightarrow> bytes" where
  "apply_edits src edits = apply_from src 0 edits"

fun ordered_edits :: "nat \<Rightarrow> nat \<Rightarrow> edit list \<Rightarrow> bool" where
  "ordered_edits n pos [] = True"
| "ordered_edits n pos (edit # edits) =
     (pos \<le> ed_start edit \<and> ed_start edit \<le> ed_end edit \<and> ed_end edit \<le> n \<and> ordered_edits n (ed_end edit) edits)"

lemma apply_from_skip:
  assumes "p \<le> q" and "q \<le> length src" and "ordered_edits (length src) q edits"
  shows "apply_from src p edits = take (q - p) (drop p src) @ apply_from src q edits"
proof (cases edits)
  case Nil
  have "drop q src = drop (q - p) (drop p src)" using assms(1) by simp
  then show ?thesis using Nil by (simp del: drop_drop)
next
  case (Cons e es)
  have "take (ed_start e - p) (drop p src) = take (q - p) (drop p src) @ take (ed_start e - q) (drop q src)"
    using assms Cons take_add [of "q - p" "ed_start e - q" "drop p src"] by (simp add: add.commute)
  then show ?thesis using Cons by simp
qed

lemma ordered_edits_mono: "ordered_edits n p edits \<Longrightarrow> q \<le> p \<Longrightarrow> ordered_edits n q edits"
  by (cases edits) auto

section \<open>From a common subsequence to edits\<close>

definition diff_edit :: "bytes list \<Rightarrow> bytes list \<Rightarrow> line_diff \<Rightarrow> edit" where
  "diff_edit a b d = \<lparr>ed_start = offset a (df_start d), ed_end = offset a (df_end d),
     ed_new = concat (take (df_repl_end d - df_repl_start d) (drop (df_repl_start d) b))\<rparr>"

lemma diff_edit_new_diff [simp]: "diff_edit a b (new_diff (int p) (int x) (int q) (int y)) =
  \<lparr>ed_start = offset a p, ed_end = offset a x, ed_new = concat (take (y - q) (drop q b))\<rparr>"
  by (simp add: diff_edit_def new_diff_def)

definition within :: "bytes list \<Rightarrow> bytes list \<Rightarrow> line_diff \<Rightarrow> bool" where
  "within a b d \<longleftrightarrow> df_start d \<le> df_end d \<and> df_end d \<le> length a \<and> df_repl_start d \<le> df_repl_end d \<and> df_repl_end d \<le> length b"

lemma within_new_diff [simp]:
  "within a b (new_diff (int p) (int x) (int q) (int y)) \<longleftrightarrow> p \<le> x \<and> x \<le> length a \<and> q \<le> y \<and> y \<le> length b"
  by (simp add: within_def new_diff_def)

lemma agree_segment:
  assumes "\<forall>i. 0 \<le> i \<longrightarrow> i < int n \<longrightarrow> agree a b (int x + i) (int y + i)"
  shows "x + n \<le> length a \<or> n = 0" "y + n \<le> length b \<or> n = 0" "take n (drop x a) = take n (drop y b)"
proof -
  have g: "x + i < length a \<and> y + i < length b \<and> a ! (x + i) = b ! (y + i)" if "i < n" for i
    using assms [rule_format, of "int i"] that by (auto simp: agree_def nat_int_add)
  show le: "x + n \<le> length a \<or> n = 0" "y + n \<le> length b \<or> n = 0" using g [of "n - 1"] by (cases n; simp)+
  show "take n (drop x a) = take n (drop y b)"
    by (rule nth_equalityI) (use le g in \<open>auto simp: add.commute\<close>)
qed

lemma to_diffs_loop_ok:
  assumes "lcs_chain a b l" and "lcs_above l (int pa) (int pb)" and "pa \<le> length a" and "pb \<le> length b"
  defines "es \<equiv> map (diff_edit a b) (to_diffs_loop l (int pa) (int pb) (int (length a)) (int (length b)))"
  shows "ordered_edits (length (concat a)) (offset a pa) es \<and> apply_from (concat a) (offset a pa) es = concat (drop pb b) \<and>
    (\<forall>d \<in> set (to_diffs_loop l (int pa) (int pb) (int (length a)) (int (length b))).
       within a b d)"
  using assms(1-4) unfolding es_def
proof (induction l arbitrary: pa pb)
  case Nil
  then show ?case
    by (auto simp: offset_le offset_mono drop_offset)
next
  case (Cons d l)
  define x y n where "x = nat (dg_x d)" and "y = nat (dg_y d)" and "n = nat (dg_len d)"
  have d: "diag_ok a b d" "\<forall>q \<in> set l. before d q" "lcs_chain a b l" using Cons.prems(1) by (auto simp: lcs_chain_def)
  have c: "dg_x d = int x" "dg_y d = int y" "dg_len d = int n" "pa \<le> x" "pb \<le> y" "0 < n"
    using Cons.prems(2) d(1) by (auto simp: x_def y_def n_def lcs_above_def diag_ok_def)
  note seg = agree_segment [of n a b x y]
  have s: "x + n \<le> length a" "y + n \<le> length b" "take n (drop x a) = take n (drop y b)"
    using seg d(1) c by (auto simp: diag_ok_def)
  have ab: "lcs_above l (int (x + n)) (int (y + n))" using d(2) c by (auto simp: lcs_above_def before_def)
  let ?rest = "to_diffs_loop l (int (x + n)) (int (y + n)) (int (length a)) (int (length b))"
  let ?R = "map (diff_edit a b) ?rest"
  from Cons.IH [OF d(3) ab s(1,2)] have ih: "ordered_edits (length (concat a)) (offset a (x + n)) ?R"
    "apply_from (concat a) (offset a (x + n)) ?R = concat (drop (y + n) b)"
    "\<forall>d \<in> set ?rest. within a b d"
    by blast+
  have at_x: "ordered_edits (length (concat a)) (offset a x) ?R" "apply_from (concat a) (offset a x) ?R = concat (drop y b)"
  proof -
    show "ordered_edits (length (concat a)) (offset a x) ?R" using ih(1) offset_mono [of x "x + n" a] by (auto elim: ordered_edits_mono)
    have "apply_from (concat a) (offset a x) ?R = concat (take n (drop x a)) @ concat (drop (y + n) b)"
      using apply_from_skip [OF offset_mono offset_le ih(1), of x] between_offsets [of x "x + n" a] ih(2) by simp
    also have "\<dots> = concat (drop y b)"
      unfolding s(3) by (metis add.commute append_take_drop_id concat_append drop_drop)
    finally show "apply_from (concat a) (offset a x) ?R = concat (drop y b)" .
  qed
  have b: "concat (take (y - pb) (drop pb b)) @ concat (drop y b) = concat (drop pb b)"
    using c(5) by (metis append_take_drop_id concat_append drop_drop le_add_diff_inverse2)
  show ?case
  proof (cases "pa < x \<or> pb < y")
    case True
    then have "to_diffs_loop (d # l) (int pa) (int pb) (int (length a)) (int (length b)) = new_diff (int pa) (int x) (int pb) (int y) # ?rest"
      using c by simp
    then show ?thesis using at_x ih(3) b c s offset_mono [OF c(4), of a] offset_le [of a x]
      by simp
  next
    case False
    then have e: "x = pa" "y = pb" using c by auto
    then have "to_diffs_loop (d # l) (int pa) (int pb) (int (length a)) (int (length b)) = ?rest" using c by simp
    then show ?thesis using at_x ih(3) e by simp
  qed
qed

lemma diag_ok_nonneg: "diag_ok a b d \<Longrightarrow> 0 \<le> dg_x d \<and> 0 \<le> dg_y d"
  unfolding diag_ok_def agree_def by (elim conjE allE [where x = 0]) auto

lemma edit_of_diff_within:
  assumes "within (lines_of old) (lines_of new) d"
  shows "edit_of_diff (0 # line_ends 0 (lines_of old)) (lines_of new) d = Some (diff_edit (lines_of old) (lines_of new) d)"
  using assms nth_line_ends [of "df_start d" "lines_of old" 0] nth_line_ends [of "df_end d" "lines_of old" 0]
  by (simp add: within_def edit_of_diff_def index_opt_def slice_opt_def diff_edit_def)

lemma those_map_Some: "(\<And>x. x \<in> set xs \<Longrightarrow> f x = Some (g x)) \<Longrightarrow> those (map f xs) = Some (map g xs)"
  by (induction xs) auto

text \<open>The edits of \<^verbatim>\<open>lines\<close> are in order and turn the old text into the new one.\<close>

lemma lines_diff_ok:
  "\<exists>es. lines_diff old new = Some es \<and> ordered_edits (length old) 0 es \<and> apply_edits old es = new"
proof -
  obtain l where l: "diff_lines (lines_of old) (lines_of new) =
      Some (to_diffs l (int (length (lines_of old))) (int (length (lines_of new))))"
    and c: "lcs_chain (lines_of old) (lines_of new) l" using diff_lines_ok by blast
  have "lcs_above l (int 0) (int 0)" using c by (auto simp: lcs_chain_def lcs_above_def dest: diag_ok_nonneg)
  from to_diffs_loop_ok [OF c this] show ?thesis
    using edit_of_diff_within [of old new]
    by (auto simp: lines_diff_def split_lines_spec l to_diffs_def apply_edits_def offset_def those_map_Some)
qed

section \<open>Validation\<close>

lemma is_sorted_loop_True:
  assumes "i < length xs \<or> i = 0" and "\<And>j. Suc j < length xs \<Longrightarrow> \<not> lt (xs ! Suc j) (xs ! j)"
  shows "is_sorted_loop lt xs i = Some True"
  using assms(1)
proof (induction i)
  case (Suc i)
  then show ?case using assms(2) [of i] by (subst is_sorted_loop.simps) (auto simp: lt_at_def)
qed (subst is_sorted_loop.simps, simp)

lemma ordered_edits_nth:
  "ordered_edits n p es \<Longrightarrow> Suc j < length es \<Longrightarrow> ed_end (es ! j) \<le> ed_start (es ! Suc j) \<and>
     ed_start (es ! j) \<le> ed_end (es ! j) \<and> ed_start (es ! Suc j) \<le> ed_end (es ! Suc j)"
proof (induction es arbitrary: p j)
  case (Cons e es)
  then show ?case by (cases j; cases es) auto
qed simp

lemma ordered_edits_sorted: "ordered_edits n p es \<Longrightarrow> is_sorted es edits_less = Some True"
  unfolding is_sorted_def
  by (rule is_sorted_loop_True) (auto simp: edits_less_def dest: ordered_edits_nth)

lemma validate_loop_ordered: "ordered_edits (length src) p es \<Longrightarrow> p \<le> length src \<Longrightarrow>
  validate_loop (length src) es sz p = Ok (sz - int (length src - p) + int (length (apply_from src p es)))"
  by (induction es arbitrary: p sz) auto

lemma validate_ordered:
  "ordered_edits (length src) 0 es \<Longrightarrow> validate src es = Ok (es, int (length (apply_edits src es)))"
  by (simp add: validate_def ordered_edits_sorted validate_loop_ordered apply_edits_def)

end
