(* ===== verification/Udiff_Expand.thy ===== *)
theory Udiff_Expand
  imports Udiff_Correct
begin

text \<open>
  \<^verbatim>\<open>line_edits\<close> of \<^verbatim>\<open>crates/udiff/src/diff.rs\<close>: the edits it returns replace whole lines and do to the text what the
  given ones do.
\<close>

section \<open>Positions at the start of a line\<close>

definition at_line :: "bytes \<Rightarrow> nat \<Rightarrow> bool" where
  "at_line src p \<longleftrightarrow> p = 0 \<or> p \<le> length src \<and> src ! (p - 1) = newline"

definition full :: "bytes \<Rightarrow> bool" where
  "full bs \<longleftrightarrow> bs = [] \<or> last bs = newline"

fun whole_edits :: "bytes \<Rightarrow> nat \<Rightarrow> edit list \<Rightarrow> bool" where
  "whole_edits src p [] = True"
| "whole_edits src p (e # es) =
     (p \<le> ed_start e \<and> ed_start e \<le> ed_end e \<and> ed_end e \<le> length src \<and> at_line src (ed_start e) \<and>
      (full (ed_new e) \<and> at_line src (ed_end e) \<or> ed_end e = length src \<and> es = []) \<and> whole_edits src (ed_end e) es)"

lemma whole_ordered: "whole_edits src p es \<Longrightarrow> ordered_edits (length src) p es"
  by (induction es arbitrary: p) auto

lemma newline_position_Some:
  "newline_position bs = Some i \<Longrightarrow> i < length bs \<and> bs ! i = newline \<and> (\<forall>j < i. bs ! j \<noteq> newline)"
proof (induction bs arbitrary: i)
  case (Cons c cs)
  then show ?case by (auto simp: nth_Cons split: if_splits nat.splits)
qed simp

lemma newline_position_None: "newline_position bs = None \<longleftrightarrow> newline \<notin> set bs"
  by (induction bs) auto

lemma newline_rposition_Some:
  assumes "newline_rposition bs = Some i"
  shows "i < length bs \<and> bs ! i = newline \<and> (\<forall>j. i < j \<longrightarrow> j < length bs \<longrightarrow> bs ! j \<noteq> newline)"
proof -
  obtain k where k: "newline_position (rev bs) = Some k" "i = length bs - 1 - k"
    using assms by (auto simp: newline_rposition_def)
  note s = newline_position_Some [OF k(1)]
  have "bs ! j \<noteq> newline" if "i < j" "j < length bs" for j
    using s [THEN conjunct2, THEN conjunct2, rule_format, of "length bs - 1 - j"] that k(2) by (simp add: rev_nth)
  then show ?thesis using s k(2) by (auto simp: rev_nth)
qed

lemma newline_rposition_None: "newline_rposition bs = None \<longleftrightarrow> newline \<notin> set bs"
  by (simp add: newline_rposition_def newline_position_None)

section \<open>One edit\<close>

text \<open>The start of the line of a position, and the end that \<^verbatim>\<open>expand_edit\<close> chooses.\<close>

definition line_start :: "bytes \<Rightarrow> nat \<Rightarrow> nat" where
  "line_start src s = (case newline_rposition (take s src) of Some i \<Rightarrow> Suc i | None \<Rightarrow> 0)"

definition line_end :: "bytes \<Rightarrow> nat \<Rightarrow> nat" where
  "line_end src e = (case newline_position (drop e src) of None \<Rightarrow> length src | Some nl \<Rightarrow> e + nl + 1)"

lemma line_start_ok:
  assumes "s \<le> length src"
  shows "line_start src s \<le> s" "at_line src (line_start src s)" "at_line src q \<Longrightarrow> q \<le> s \<Longrightarrow> q \<le> line_start src s"
proof -
  show "line_start src s \<le> s" "at_line src (line_start src s)"
    using assms newline_rposition_Some [of "take s src"] by (auto simp: line_start_def at_line_def split: option.splits)
  assume q: "at_line src q" "q \<le> s"
  show "q \<le> line_start src s"
  proof (rule ccontr)
    assume n: "\<not> q \<le> line_start src s"
    then have "src ! (q - 1) = newline" "q - 1 < s" using q by (auto simp: at_line_def)
    then have "newline \<in> set (take s src)" using assms by (auto simp: in_set_conv_nth intro!: exI [of _ "q - 1"])
    then obtain i where i: "newline_rposition (take s src) = Some i" using newline_rposition_None by blast
    show False using newline_rposition_Some [OF i] n \<open>src ! (q - 1) = newline\<close> \<open>q - 1 < s\<close> assms i
      by (auto simp: line_start_def dest!: spec [of _ "q - 1"])
  qed
qed

lemma line_end_ok:
  assumes "e \<le> length src"
  shows "e \<le> line_end src e" "line_end src e \<le> length src"
    "at_line src (line_end src e) \<and> full (take (line_end src e - e) (drop e src)) \<and> e < line_end src e \<or> line_end src e = length src"
    "e \<le> s \<Longrightarrow> s \<le> length src \<Longrightarrow> newline \<in> set (take (s - e) (drop e src)) \<Longrightarrow>
       line_end src e \<le> s \<and> at_line src (line_end src e) \<and> full (take (line_end src e - e) (drop e src)) \<and> e < line_end src e"
proof -
  have last: "last (take (Suc i) (drop e src)) = src ! (e + i)" if "e + i < length src" for i
    using that by (simp add: take_Suc_conv_app_nth)
  show "e \<le> line_end src e" "line_end src e \<le> length src"
    using assms newline_position_Some [of "drop e src"] by (auto simp: line_end_def split: option.splits)
  show "at_line src (line_end src e) \<and> full (take (line_end src e - e) (drop e src)) \<and> e < line_end src e \<or> line_end src e = length src"
    using newline_position_Some [of "drop e src"]
    by (auto simp: line_end_def at_line_def full_def last split: option.splits)
  assume s: "e \<le> s" "s \<le> length src" "newline \<in> set (take (s - e) (drop e src))"
  then have "newline \<in> set (drop e src)" using in_set_takeD by metis
  then obtain nl where nl: "newline_position (drop e src) = Some nl" using newline_position_None by blast
  obtain k where k: "k < s - e" "src ! (e + k) = newline" using s by (auto simp: in_set_conv_nth)
  have "nl \<le> k" using newline_position_Some [OF nl] k s by (metis linorder_not_less nth_drop assms)
  then show "line_end src e \<le> s \<and> at_line src (line_end src e) \<and> full (take (line_end src e - e) (drop e src)) \<and> e < line_end src e"
    using newline_position_Some [OF nl] nl k by (auto simp: line_end_def at_line_def full_def last)
qed

definition expanded_end :: "bytes \<Rightarrow> bytes \<Rightarrow> nat \<Rightarrow> nat" where
  "expanded_end src new e = (if at_line src e \<and> full new then e else line_end src e)"

lemma expand_edit_eq:
  assumes "ed_start edit \<le> ed_end edit" and "ed_end edit \<le> length src"
  defines "s \<equiv> line_start src (ed_start edit)"
  defines "new \<equiv> take (ed_start edit - s) (drop s src) @ ed_new edit"
  defines "e \<equiv> expanded_end src new (ed_end edit)"
  shows "expand_edit edit src = \<lparr>ed_start = s, ed_end = e, ed_new = new @ take (e - ed_end edit) (drop (ed_end edit) src)\<rparr>"
proof -
  let ?st = "ed_start edit"
  define last_newline where "last_newline = (case newline_rposition (take ?st src) of Some i \<Rightarrow> int i | None \<Rightarrow> - 1)"
  have delta: "int ?st - 1 - last_newline = int (?st - s)" and s: "s \<le> ?st"
    using newline_rposition_Some [of "take ?st src"] unfolding last_newline_def s_def line_start_def
    by (auto split: option.splits)
  have one: "(if int ?st - 1 - last_newline > 0
      then edit\<lparr>ed_start := ?st - nat (int ?st - 1 - last_newline),
        ed_new := take (nat (int ?st - 1 - last_newline)) (drop (?st - nat (int ?st - 1 - last_newline)) src) @ ed_new edit\<rparr>
      else edit) = \<lparr>ed_start = s, ed_end = ed_end edit, ed_new = new\<rparr>"
    unfolding delta nat_int new_def using s by (cases edit) auto
  have two: "(if ed_end edit > 0 \<and> src ! (ed_end edit - 1) \<noteq> newline \<or> new \<noteq> [] \<and> last new \<noteq> newline
      then line_end src (ed_end edit) else ed_end edit) = e"
    using assms(2) by (simp add: e_def expanded_end_def at_line_def full_def)
  show ?thesis unfolding expand_edit_def Let_def last_newline_def [symmetric] one edit.select_convs line_end_def [symmetric] two
    by simp
qed

lemma full_append_ne: "full b \<Longrightarrow> b \<noteq> [] \<Longrightarrow> full (a @ b)"
  by (auto simp: full_def)

lemma expanded_end_ok:
  fixes new :: bytes
  assumes "e \<le> length src"
  defines "e' \<equiv> expanded_end src new e"
  shows "e \<le> e'" "e' \<le> length src"
    "full (new @ take (e' - e) (drop e src)) \<and> at_line src e' \<or> e' = length src"
    "e \<le> s \<Longrightarrow> s \<le> length src \<Longrightarrow> newline \<in> set (take (s - e) (drop e src)) \<Longrightarrow>
       e' \<le> s \<and> full (new @ take (e' - e) (drop e src)) \<and> at_line src e'"
proof -
  note l = line_end_ok [OF assms(1)]
  have ne: "take (line_end src e - e) (drop e src) \<noteq> []" if "e < line_end src e" using that l(2) by auto
  show "e \<le> e'" "e' \<le> length src" using l(1,2) assms(1) by (auto simp: e'_def expanded_end_def)
  show "full (new @ take (e' - e) (drop e src)) \<and> at_line src e' \<or> e' = length src"
    using l(3) ne by (auto simp: e'_def expanded_end_def intro: full_append_ne)
  assume "e \<le> s" "s \<le> length src" "newline \<in> set (take (s - e) (drop e src))"
  from l(4) [OF this] show "e' \<le> s \<and> full (new @ take (e' - e) (drop e src)) \<and> at_line src e'"
    using ne \<open>e \<le> s\<close> by (auto simp: e'_def expanded_end_def intro: full_append_ne)
qed

lemma expand_edit_ok:
  assumes "at_line src q" and "q \<le> ed_start e" and "ed_start e \<le> ed_end e" and "ed_end e \<le> length src"
  defines "x \<equiv> expand_edit e src"
  shows "q \<le> ed_start x" "ed_start x \<le> ed_end x" "ed_end e \<le> ed_end x" "ed_end x \<le> length src" "at_line src (ed_start x)"
    "full (ed_new x) \<and> at_line src (ed_end x) \<or> ed_end x = length src"
    "ed_end e \<le> s \<Longrightarrow> s \<le> length src \<Longrightarrow> newline \<in> set (take (s - ed_end e) (drop (ed_end e) src)) \<Longrightarrow>
       ed_end x \<le> s \<and> full (ed_new x) \<and> at_line src (ed_end x)"
    "ordered_edits (length src) (ed_end x) es \<Longrightarrow> apply_from src q (x # es) = apply_from src q (e # es)"
proof -
  define l where "l = line_start src (ed_start e)"
  define new where "new = take (ed_start e - l) (drop l src) @ ed_new e"
  define h where "h = expanded_end src new (ed_end e)"
  have x: "x = \<lparr>ed_start = l, ed_end = h, ed_new = new @ take (h - ed_end e) (drop (ed_end e) src)\<rparr>"
    unfolding x_def h_def new_def l_def by (rule expand_edit_eq [OF assms(3,4)])
  have l: "l \<le> ed_start e" "at_line src l" "q \<le> l"
    using line_start_ok [of "ed_start e" src] assms(1-4) by (auto simp: l_def)
  note h = expanded_end_ok [OF assms(4), where new = new, folded h_def]
  show "q \<le> ed_start x" "ed_start x \<le> ed_end x" "ed_end e \<le> ed_end x" "ed_end x \<le> length src" "at_line src (ed_start x)"
    "full (ed_new x) \<and> at_line src (ed_end x) \<or> ed_end x = length src"
    using l h(1-3) assms(3) by (simp_all add: x)
  show "ed_end x \<le> s \<and> full (ed_new x) \<and> at_line src (ed_end x)"
    if "ed_end e \<le> s" "s \<le> length src" "newline \<in> set (take (s - ed_end e) (drop (ed_end e) src))"
    using h(4) [OF that] by (simp add: x)
  assume "ordered_edits (length src) (ed_end x) es"
  then have a: "apply_from src (ed_end e) es = take (h - ed_end e) (drop (ed_end e) src) @ apply_from src h es"
    using apply_from_skip [OF h(1,2)] by (simp add: x)
  have "take (ed_start e - q) (drop q src) = take (l - q) (drop q src) @ take (ed_start e - l) (drop l src)"
    using l take_add [of "l - q" "ed_start e - l" "drop q src"] by simp
  then show "apply_from src q (x # es) = apply_from src q (e # es)" by (simp add: x new_def a)
qed

section \<open>The whole list\<close>

lemma expand_loop_ok:
  assumes "ordered_edits (length src) (ed_start prev) (prev # rest)" and "at_line src q" and "q \<le> ed_start prev"
  shows "whole_edits src q (expand_loop src prev rest) \<and>
    apply_from src q (expand_loop src prev rest) = apply_from src q (prev # rest)"
  using assms
proof (induction rest arbitrary: prev q)
  case Nil
  then have o: "ed_start prev \<le> ed_end prev" "ed_end prev \<le> length src" by auto
  note x = expand_edit_ok [OF Nil.prems(2,3) o]
  have "apply_from src q [expand_edit prev src] = apply_from src q [prev]" using x(8) [of "[]"] by (simp del: apply_from.simps)
  then show ?case using x(1,2,4,5,6) by (simp del: apply_from.simps)
next
  case (Cons e rest)
  let ?between = "take (ed_start e - ed_end prev) (drop (ed_end prev) src)"
  have o: "ed_start prev \<le> ed_end prev" "ed_end prev \<le> length src" "ed_end prev \<le> ed_start e" "ed_start e \<le> ed_end e"
    "ed_end e \<le> length src" using Cons.prems by auto
  show ?case
  proof (cases "newline \<in> set ?between")
    case False
    let ?p = "prev\<lparr>ed_new := ed_new prev @ ?between @ ed_new e, ed_end := ed_end e\<rparr>"
    have "apply_from src q (?p # rest) = apply_from src q (prev # e # rest)" by simp
    then show ?thesis using False Cons.IH [of ?p q] Cons.prems by (simp add: Let_def)
  next
    case True
    let ?x = "expand_edit prev src"
    note x = expand_edit_ok [OF Cons.prems(2,3) o(1,2)]
    have x7: "ed_end ?x \<le> ed_start e" "full (ed_new ?x)" "at_line src (ed_end ?x)" using x(7) [of "ed_start e"] o True by auto
    have ih: "whole_edits src (ed_end ?x) (expand_loop src e rest)"
      "apply_from src (ed_end ?x) (expand_loop src e rest) = apply_from src (ed_end ?x) (e # rest)"
      using Cons.IH [of e "ed_end ?x"] Cons.prems x7 by auto
    have "apply_from src q (?x # expand_loop src e rest) = apply_from src q (?x # e # rest)" using ih(2) by simp
    also have "\<dots> = apply_from src q (prev # e # rest)" using x(8) [of "e # rest"] Cons.prems(1) x7 by simp
    finally show ?thesis using True x ih(1) x7 by (simp add: Let_def)
  qed
qed

lemma aligned_whole:
  "ordered_edits (length src) p es \<Longrightarrow> list_all (aligned src) es \<Longrightarrow> whole_edits src p es"
  by (induction es arbitrary: p) (auto simp: aligned_def at_line_def full_def)

lemma line_edits_ok:
  assumes "ordered_edits (length src) 0 es"
  shows "\<exists>es'. line_edits src es = Ok es' \<and> whole_edits src 0 es' \<and> apply_edits src es' = apply_edits src es"
proof (cases "list_all (aligned src) es")
  case True
  then show ?thesis using assms by (simp add: line_edits_def validate_ordered aligned_whole)
next
  case False
  then obtain e rest where es: "es = e # rest" by (cases es) auto
  have "line_edits src es = (case es of [] \<Rightarrow> Ok es | first # rest \<Rightarrow> Ok (expand_loop src first rest))"
    using False by (simp add: line_edits_def validate_ordered [OF assms])
  then show ?thesis using assms es expand_loop_ok [of src e rest 0] by (simp add: apply_edits_def at_line_def)
qed

end
