(* ===== verification/Udiff_Hunks.thy ===== *)
theory Udiff_Hunks
  imports Udiff_Expand
begin

text \<open>
  The hunks of \<^verbatim>\<open>crates/udiff/src/unified.rs\<close>. Patching is defined as a patch program does it: a hunk is applied at the line
  of its header, where its deleted and context lines have to be those of the text. The hunks of \<^verbatim>\<open>to_hunks\<close> patch the old text
  to the new one.
\<close>

section \<open>Patching\<close>

definition hunk_old :: "diff_line list \<Rightarrow> bytes list" where
  "hunk_old ls = map ln_content (filter (\<lambda>l. ln_kind l \<noteq> OInsert) ls)"

definition hunk_new :: "diff_line list \<Rightarrow> bytes list" where
  "hunk_new ls = map ln_content (filter (\<lambda>l. ln_kind l \<noteq> ODelete) ls)"

definition patch_step :: "bytes list \<Rightarrow> bytes list \<times> nat \<Rightarrow> hunk \<Rightarrow> (bytes list \<times> nat) option" where
  "patch_step L s h = (let f = nat (hk_from_line h - 1); old = hunk_old (hk_lines h) in
     if 1 \<le> hk_from_line h \<and> snd s \<le> f \<and> f + length old \<le> length L \<and> take (length old) (drop f L) = old
     then Some (fst s @ take (f - snd s) (drop (snd s) L) @ hunk_new (hk_lines h), f + length old)
     else None)"

fun patch_run :: "bytes list \<Rightarrow> bytes list \<times> nat \<Rightarrow> hunk list \<Rightarrow> (bytes list \<times> nat) option" where
  "patch_run L s [] = Some s"
| "patch_run L s (h # hs) = Option.bind (patch_step L s h) (\<lambda>s. patch_run L s hs)"

definition patch_hunks :: "bytes list \<Rightarrow> hunk list \<Rightarrow> bytes list option" where
  "patch_hunks L hs = map_option (\<lambda>(out, pos). out @ drop pos L) (patch_run L ([], 0) hs)"

lemma hunk_old_append [simp]: "hunk_old (a @ b) = hunk_old a @ hunk_old b" by (simp add: hunk_old_def)
lemma hunk_new_append [simp]: "hunk_new (a @ b) = hunk_new a @ hunk_new b" by (simp add: hunk_new_def)

lemma hunk_lines_of_kind [simp]:
  "hunk_old (map (\<lambda>c. \<lparr>ln_kind = k, ln_content = c\<rparr>) cs) = (if k = OInsert then [] else cs)"
  "hunk_new (map (\<lambda>c. \<lparr>ln_kind = k, ln_content = c\<rparr>) cs) = (if k = ODelete then [] else cs)"
  by (simp_all add: hunk_old_def hunk_new_def filter_map comp_def)

lemma patch_run_snoc: "patch_run L s (hs @ [h]) = Option.bind (patch_run L s hs) (\<lambda>s. patch_step L s h)"
  by (induction hs arbitrary: s) (auto split: Option.bind_split)

lemma slice_append: "i \<le> j \<Longrightarrow> j \<le> k \<Longrightarrow> take (j - i) (drop i xs) @ take (k - j) (drop j xs) = take (k - i) (drop i xs)"
  using take_add [of "j - i" "k - j" "drop i xs"] by simp

lemma patch_step_append:
  assumes "patch_step L s h = Some (out, p)" and "hunk_old ls = take (q - p) (drop p L)" and "p \<le> q" and "q \<le> length L"
  shows "patch_step L s (h\<lparr>hk_lines := hk_lines h @ ls\<rparr>) = Some (out @ hunk_new ls, q)"
proof -
  let ?f = "nat (hk_from_line h - 1)" and ?old = "hunk_old (hk_lines h)"
  have h: "1 \<le> hk_from_line h" "snd s \<le> ?f" "?f + length ?old = p" "take (length ?old) (drop ?f L) = ?old"
    "out = fst s @ take (?f - snd s) (drop (snd s) L) @ hunk_new (hk_lines h)"
    using assms(1) by (auto simp: patch_step_def Let_def split: if_splits)
  have l: "length (hunk_old ls) = q - p" using assms by simp
  have "take (length ?old + (q - p)) (drop ?f L) = ?old @ take (q - p) (drop p L)"
    unfolding take_add drop_drop h(4) by (simp add: h(3) add.commute [of "length ?old"])
  then show ?thesis using h l assms(2-4) by (simp add: patch_step_def Let_def) arith
qed

lemma patch_run_append:
  assumes "patch_run L s (hs @ [h]) = Some (out, p)" and "hunk_old ls = take (q - p) (drop p L)" and "p \<le> q" and "q \<le> length L"
  shows "patch_run L s (hs @ [h\<lparr>hk_lines := hk_lines h @ ls\<rparr>]) = Some (out @ hunk_new ls, q)"
  using assms by (auto simp: patch_run_snoc bind_eq_Some_conv patch_step_append)

section \<open>The helpers of \<^verbatim>\<open>to_hunks\<close>\<close>

lemma wrap_isize_id [simp]: "- (2 ^ 63) \<le> z \<Longrightarrow> z < 2 ^ 63 \<Longrightarrow> wrap_isize z = z"
  by (simp add: wrap_isize_def)

declare equal_lines.simps [simp del]

lemma equal_lines_spec:
  "equal_lines L i stop = map (\<lambda>c. \<lparr>ln_kind = OEqual, ln_content = c\<rparr>) (take (nat stop - nat i) (drop (nat i) L))"
proof (induction L i stop rule: equal_lines.induct)
  case (1 L i stop)
  show ?case
  proof (cases "i < stop")
    case i: True
    show ?thesis
    proof (cases "i < 0")
      case True
      then show ?thesis using i "1.IH"(1) by (subst equal_lines.simps) simp
    next
      case False
      have "take (nat stop - nat i) (drop (nat i) L) =
          L ! nat i # take (nat stop - nat (i + 1)) (drop (nat (i + 1)) L)" if "nat i < length L"
        using that i False
        by (metis (no_types) Cons_nth_drop_Suc Suc_diff_Suc Suc_nat_eq_nat_zadd1 add.commute linorder_not_less nat_less_eq_zless take_Suc_Cons)
      then show ?thesis using i False "1.IH"(2) by (subst equal_lines.simps) (auto simp: nat_less_iff)
    qed
  qed (subst equal_lines.simps, simp)
qed

lemma deleted_lines_spec:
  assumes "s \<le> t" and "t \<le> length L"
  shows "deleted_lines L (int s) (int t) = Some (map (\<lambda>c. \<lparr>ln_kind = ODelete, ln_content = c\<rparr>) (take (t - s) (drop s L)))"
proof -
  have u: "[int s..int t - 1] = map int [s..<t]" using assms(1) by (induction t) (auto simp: upto_rec2 le_Suc_eq)
  have "take (t - s) (drop s L) = map ((!) L) [s..<t]" using assms by (auto intro!: nth_equalityI)
  then show ?thesis using assms unfolding deleted_lines_def u
    by (simp add: comp_def) (rule those_map_Some [where g = "\<lambda>i. \<lparr>ln_kind = ODelete, ln_content = L ! i\<rparr>"],
        simp add: index_opt_def)
qed

lemma inserted_lines_spec: "inserted_lines new = map (\<lambda>c. \<lparr>ln_kind = OInsert, ln_content = c\<rparr>) (lines_of new)"
  by (simp add: inserted_lines_def split_lines_spec)

section \<open>Opening a hunk\<close>

definition hunks_so_far :: "hunk_state \<Rightarrow> hunk list" where
  "hunks_so_far st = hs_done st @ (case hs_open st of None \<Rightarrow> [] | Some h \<Rightarrow> [h])"

text \<open>The hunks so far patch the first \<open>p\<close> lines of the text to \<open>out\<close>.\<close>

definition hunks_ok :: "bytes list \<Rightarrow> hunk_state \<Rightarrow> bytes list \<Rightarrow> nat \<Rightarrow> bool" where
  "hunks_ok L st out p \<longleftrightarrow> hs_last st = int p \<and> p \<le> length L \<and> patch_run L ([], 0) (hunks_so_far st) = Some (out, p)"

lemma patch_step_new:
  assumes "s \<le> length L" and "0 \<le> c" and "pos \<le> nat (int s - c)"
  shows "patch_step L (out, pos) \<lparr>hk_from_line = int s + 1 - int (length (equal_lines L (int s - c) (int s))),
       hk_to_line = t, hk_lines = equal_lines L (int s - c) (int s)\<rparr> = Some (out @ take (s - pos) (drop pos L), s)"
proof -
  let ?f = "nat (int s - c)"
  have f: "?f \<le> s" using assms(2) by simp
  have l: "length (equal_lines L (int s - c) (int s)) = s - ?f" using assms(1) f by (simp add: equal_lines_spec)
  have n: "nat (int s + 1 - int (s - ?f) - 1) = ?f" using f by simp
  show ?thesis
    using f assms slice_append [OF assms(3) f, of L] unfolding patch_step_def Let_def hunk.select_convs l n
    by (simp add: equal_lines_spec)
qed

lemma start_hunk_ok:
  assumes "hunks_ok L st out p" and "s \<le> length L" and "0 \<le> c" and "int (length L) + 2 * c < 2 ^ 63"
    and "hs_open st \<noteq> None \<Longrightarrow> int p + 2 * c < int s" and "hs_open st = None \<Longrightarrow> p = 0 \<and> out = [] \<and> hs_done st = []"
  defines "st1 \<equiv> start_hunk L c (int s) st"
  shows "hs_open st1 \<noteq> None" "patch_run L ([], 0) (hunks_so_far st1) = Some (out @ take (s - p) (drop p L), s)"
proof -
  have ok: "hs_last st = int p" "p \<le> length L" "patch_run L ([], 0) (hunks_so_far st) = Some (out, p)"
    using assms(1) by (auto simp: hunks_ok_def)
  have w: "wrap_isize (int s - c) = int s - c" "wrap_isize (int p + c) = int p + c" using assms(2-4) ok(2) by auto
  define q where "q = (case hs_open st of None \<Rightarrow> 0 | Some _ \<Rightarrow> p + nat c)"
  define cut where "cut = out @ take (q - p) (drop p L)"
  have done1: "patch_run L ([], 0) (hs_done st1) = Some (cut, q)"
  proof (cases "hs_open st")
    case None
    then show ?thesis using ok assms(6)
      by (simp add: st1_def start_hunk_def q_def cut_def add_equal_lines_def Let_def hunks_so_far_def)
  next
    case (Some h)
    then have "patch_run L ([], 0) (hs_done st @ [h]) = Some (out, p)" using ok(3) by (simp add: hunks_so_far_def)
    from patch_run_append [OF this, of "equal_lines L (int p) (int p + c)" "p + nat c"] show ?thesis
      using Some assms(2,3,5) ok w by (simp add: st1_def start_hunk_def q_def cut_def add_equal_lines_def Let_def equal_lines_spec nat_add_distrib)
  qed
  have q: "q \<le> nat (int s - c)" using assms(3,5) by (auto simp: q_def split: option.splits)
  have "q \<le> s" using q assms(3) by simp
  have out: "cut @ take (s - q) (drop q L) = out @ take (s - p) (drop p L)"
  proof (cases "hs_open st")
    case None
    then show ?thesis using assms(6) by (simp add: cut_def q_def)
  next
    case (Some h)
    then show ?thesis using slice_append [of p q s L] \<open>q \<le> s\<close> by (simp add: cut_def q_def)
  qed
  obtain t where t: "hs_open st1 = Some \<lparr>hk_from_line = int s + 1 - int (length (equal_lines L (int s - c) (int s))),
       hk_to_line = t, hk_lines = equal_lines L (int s - c) (int s)\<rparr>"
    using w by (simp add: st1_def start_hunk_def add_equal_lines_def Let_def)
  then show "hs_open st1 \<noteq> None" by simp
  show "patch_run L ([], 0) (hunks_so_far st1) = Some (out @ take (s - p) (drop p L), s)"
    using patch_step_new [OF assms(2,3) q, of cut t] by (simp add: hunks_so_far_def t patch_run_snoc done1 out)
qed

definition fresh :: "hunk_state \<Rightarrow> bool" where
  "fresh st \<longleftrightarrow> hs_open st = None \<longrightarrow> hs_done st = [] \<and> hs_last st = 0"

lemma open_hunk_ok:
  assumes "hunks_ok L st out p" and "fresh st" and "p \<le> s" and "s \<le> length L" and "0 \<le> c" and "int (length L) + 2 * c < 2 ^ 63"
  defines "st1 \<equiv> open_hunk L c (int s) st"
  shows "\<exists>h. hs_open st1 = Some h \<and> patch_run L ([], 0) (hs_done st1 @ [h]) = Some (out @ take (s - p) (drop p L), s)"
proof -
  have ok: "hs_last st = int p" "patch_run L ([], 0) (hunks_so_far st) = Some (out, p)" using assms(1) by (auto simp: hunks_ok_def)
  have w: "wrap_isize (c * 2) = c * 2" "wrap_isize (int p + c * 2) = int p + c * 2" using assms(3-6) by auto
  have eq: "st1 = (case hs_open st of None \<Rightarrow> start_hunk L c (int s) st | Some h \<Rightarrow>
      if s = p then st else if int s \<le> int p + c * 2 then st\<lparr>hs_open := Some (fst (add_equal_lines L (int p) (int s) h))\<rparr>
      else start_hunk L c (int s) st)"
    unfolding st1_def open_hunk_def ok(1) w of_nat_eq_iff by (rule refl)
  consider (start) "st1 = start_hunk L c (int s) st" "hs_open st \<noteq> None \<Longrightarrow> int p + 2 * c < int s"
    | (same) h where "hs_open st = Some h" "s = p" "st1 = st"
    | (join) h where "hs_open st = Some h" "st1 = st\<lparr>hs_open := Some (fst (add_equal_lines L (int p) (int s) h))\<rparr>"
    unfolding eq by (cases "hs_open st"; cases "s = p"; cases "int s \<le> int p + c * 2") auto
  then show ?thesis
  proof cases
    case start
    have "hs_open st = None \<Longrightarrow> p = 0 \<and> out = [] \<and> hs_done st = []" using assms(2) ok by (auto simp: fresh_def hunks_so_far_def)
    from start_hunk_ok [OF assms(1,4,5,6) start(2) this] show ?thesis by (auto simp: start(1) hunks_so_far_def)
  next
    case same
    then show ?thesis using ok by (simp add: hunks_so_far_def)
  next
    case join
    then have "patch_run L ([], 0) (hs_done st @ [h]) = Some (out, p)" using ok by (simp add: hunks_so_far_def)
    from patch_run_append [OF this, of "equal_lines L (int p) (int s)" s] show ?thesis
      using assms(3,4) join by (simp add: add_equal_lines_def Let_def equal_lines_spec)
  qed
qed

section \<open>Lines of consecutive pieces\<close>

lemma lines_of_append: "full a \<Longrightarrow> lines_of (a @ b) = lines_of a @ lines_of b"
proof (induction a rule: lines_of.induct)
  case (2 c cs)
  have f: "cs \<noteq> [] \<Longrightarrow> full cs" using "2.prems" by (auto simp: full_def split: if_splits)
  show ?case
  proof (cases "c = newline")
    case True
    then show ?thesis using "2.IH"(1) f by (cases "cs = []") auto
  next
    case False
    then have "cs \<noteq> []" using "2.prems" by (auto simp: full_def)
    then have "lines_of (cs @ b) = lines_of cs @ lines_of b" "lines_of cs \<noteq> []" using "2.IH"(2) False f by auto
    then show ?thesis using False by (auto split: list.splits)
  qed
qed simp

lemma length_lines_of: "length (lines_of a) = nat (count_newlines a) + (if full a then 0 else 1)"
proof (induction a rule: lines_of.induct)
  case (2 c cs)
  show ?case
  proof (cases "cs = []")
    case True
    then show ?thesis by (simp add: full_def count_newlines_def)
  next
    case False
    then have "full (c # cs) = full cs" "lines_of cs \<noteq> []" by (auto simp: full_def)
    then show ?thesis using 2 by (auto simp: count_newlines_def split: list.splits if_splits)
  qed
qed (simp add: full_def count_newlines_def)

text \<open>The number of lines before a position, for the positions between lines.\<close>

definition line_no :: "bytes \<Rightarrow> nat \<Rightarrow> nat" where
  "line_no src p = length (lines_of (take p src))"

definition boundary :: "bytes \<Rightarrow> nat \<Rightarrow> bool" where
  "boundary src p \<longleftrightarrow> p \<le> length src \<and> (full (take p src) \<or> p = length src)"

lemma at_line_boundary: "at_line src p \<Longrightarrow> p \<le> length src \<Longrightarrow> full (take p src)"
  by (cases p) (auto simp: at_line_def full_def take_Suc_conv_app_nth)

lemma at_line_count: "at_line src p \<Longrightarrow> p \<le> length src \<Longrightarrow> count_newlines (take p src) = int (line_no src p)"
  by (simp add: line_no_def length_lines_of at_line_boundary) (simp add: count_newlines_def)

lemma lines_of_split:
  assumes "boundary src p" and "p \<le> q" and "q \<le> length src"
  shows "lines_of (take q src) = lines_of (take p src) @ lines_of (take (q - p) (drop p src))"
proof -
  have "take q src = take p src @ take (q - p) (drop p src)" using assms(2) take_add [of p "q - p" src] by simp
  then show ?thesis using assms lines_of_append by (auto simp: boundary_def)
qed

lemma lines_between:
  assumes "boundary src p" and "boundary src q" and "p \<le> q"
  shows "take (line_no src q - line_no src p) (drop (line_no src p) (lines_of src)) = lines_of (take (q - p) (drop p src))"
    "line_no src p \<le> line_no src q" "line_no src q \<le> length (lines_of src)"
    "drop (line_no src q) (lines_of src) = lines_of (drop q src)"
proof -
  have q: "q \<le> length src" using assms(2) by (simp add: boundary_def)
  have a: "lines_of (take q src) = lines_of (take p src) @ lines_of (take (q - p) (drop p src))"
    by (rule lines_of_split [OF assms(1,3) q])
  have b: "lines_of src = lines_of (take q src) @ lines_of (drop q src)"
    using lines_of_split [OF assms(2) q order_refl] by simp
  show "take (line_no src q - line_no src p) (drop (line_no src p) (lines_of src)) = lines_of (take (q - p) (drop p src))"
    unfolding line_no_def b a by simp
  show "line_no src p \<le> line_no src q" "line_no src q \<le> length (lines_of src)"
    "drop (line_no src q) (lines_of src) = lines_of (drop q src)"
    unfolding line_no_def b by (simp_all add: a)
qed

section \<open>One edit\<close>

lemma edit_lines_ok:
  assumes "at_line src (ed_start e)" and "ed_start e \<le> ed_end e" and "ed_end e \<le> length src"
    and "at_line src (ed_end e) \<or> ed_end e = length src"
  shows "edit_lines src e = (int (line_no src (ed_start e)), int (line_no src (ed_end e)))"
proof -
  have "src \<noteq> [] \<and> last src \<noteq> newline \<longleftrightarrow> \<not> full src" by (auto simp: full_def)
  moreover have "count_newlines src + (if full src then 0 else 1) = int (line_no src (length src))"
    by (simp add: line_no_def length_lines_of) (simp add: count_newlines_def)
  moreover have "full src" if "at_line src (length src)" using at_line_boundary [OF that] by simp
  ultimately show ?thesis using assms at_line_count [of src] by (auto simp: edit_lines_def Let_def)
qed

lemma add_edit_ok:
  fixes src :: bytes
  defines "L \<equiv> lines_of src"
  assumes "hunks_ok L st out (line_no src p)" and "fresh st" and "boundary src p" and "whole_edits src p (e # es)"
    and "0 \<le> c" and "int (length L) + 2 * c < 2 ^ 63"
  shows "\<exists>st1. add_edit src L c e st = Some st1 \<and> fresh st1 \<and>
    hunks_ok L st1 (out @ lines_of (take (ed_start e - p) (drop p src)) @ lines_of (ed_new e)) (line_no src (ed_end e))"
proof -
  have e: "p \<le> ed_start e" "at_line src (ed_start e)" "ed_start e \<le> ed_end e" "ed_end e \<le> length src"
    "at_line src (ed_end e) \<or> ed_end e = length src" using assms(5) by auto
  have b: "boundary src (ed_start e)" "boundary src (ed_end e)"
    using e at_line_boundary [of src] by (auto simp: boundary_def)
  note s = lines_between [OF assms(4) b(1) e(1), folded L_def] and t = lines_between [OF b e(3), folded L_def]
  let ?st1 = "open_hunk L c (int (line_no src (ed_start e))) st"
  obtain h where h: "hs_open ?st1 = Some h" "patch_run L ([], 0) (hs_done ?st1 @ [h]) =
      Some (out @ lines_of (take (ed_start e - p) (drop p src)), line_no src (ed_start e))"
    using open_hunk_ok [OF assms(2,3) s(2,3) assms(6,7)] s(1) by auto
  let ?dels = "map (\<lambda>c. \<lparr>ln_kind = ODelete, ln_content = c\<rparr>) (take (line_no src (ed_end e) - line_no src (ed_start e)) (drop (line_no src (ed_start e)) L))"
  let ?ins = "map (\<lambda>c. \<lparr>ln_kind = OInsert, ln_content = c\<rparr>) (lines_of (ed_new e))"
  have len: "length ?dels = line_no src (ed_end e) - line_no src (ed_start e)" using t(3) by simp
  from patch_run_append [OF h(2), of "?dels @ ?ins" "line_no src (ed_end e)"] show ?thesis
    using t h(1) deleted_lines_spec [OF t(2,3)] edit_lines_ok [OF e(2-5)] len
    by (simp add: add_edit_def Let_def inserted_lines_spec hunks_ok_def fresh_def hunks_so_far_def)
qed

lemma lines_of_apply:
  assumes "boundary src p" and "whole_edits src p (e # es)"
  shows "lines_of (apply_from src p (e # es)) =
    lines_of (take (ed_start e - p) (drop p src)) @ lines_of (ed_new e) @ lines_of (apply_from src (ed_end e) es)"
proof -
  have e: "p \<le> ed_start e" "at_line src (ed_start e)" "ed_start e \<le> length src" using assms(2) by auto
  have "full (take (ed_start e - p) (drop p src))"
  proof (cases "p < ed_start e")
    case True
    then have "last (take (ed_start e - p) (drop p src)) = src ! (ed_start e - 1)" using e(3)
      by (subst last_conv_nth) auto
    then show ?thesis using e True by (auto simp: at_line_def full_def)
  qed (simp add: full_def)
  moreover have "lines_of (ed_new e @ apply_from src (ed_end e) es) = lines_of (ed_new e) @ lines_of (apply_from src (ed_end e) es)"
    using assms(2) lines_of_append by auto
  ultimately show ?thesis by (simp add: lines_of_append)
qed

section \<open>All edits\<close>

lemma add_edits_ok:
  fixes src :: bytes
  defines "L \<equiv> lines_of src"
  assumes "hunks_ok L st out (line_no src p)" and "fresh st" and "boundary src p" and "whole_edits src p es"
    and "0 \<le> c" and "int (length L) + 2 * c < 2 ^ 63"
  shows "\<exists>st1 out1 q. add_edits src L c es st = Some st1 \<and> hunks_ok L st1 out1 q \<and> out1 @ drop q L = out @ lines_of (apply_from src p es)"
  using assms(2-5)
proof (induction es arbitrary: st out p)
  case Nil
  have "drop (line_no src p) L = lines_of (drop p src)" unfolding L_def by (rule lines_between(4) [OF Nil(3) Nil(3) order_refl])
  then show ?case using Nil by auto
next
  case (Cons e es)
  obtain st1 where st1: "add_edit src L c e st = Some st1" "fresh st1"
    "hunks_ok L st1 (out @ lines_of (take (ed_start e - p) (drop p src)) @ lines_of (ed_new e)) (line_no src (ed_end e))"
    using add_edit_ok [of src st out p e es c, folded L_def] Cons.prems assms(6,7) by auto
  have "boundary src (ed_end e)" "whole_edits src (ed_end e) es"
    using Cons.prems(4) at_line_boundary [of src "ed_end e"] by (auto simp: boundary_def)
  from Cons.IH [OF st1(3,2) this] show ?case
    using st1(1) lines_of_apply [OF Cons.prems(3,4)] by (auto simp: L_def)
qed

lemma to_hunks_ok:
  assumes "whole_edits src 0 es" and "0 \<le> c" and "int (length (lines_of src)) + 2 * c < 2 ^ 63"
  shows "\<exists>hs. to_hunks src es c = Some hs \<and> patch_hunks (lines_of src) hs = Some (lines_of (apply_edits src es))"
proof -
  let ?L = "lines_of src" and ?st0 = "\<lparr>hs_done = [], hs_open = None, hs_last = 0, hs_to_line = 0\<rparr>"
  have "hunks_ok ?L ?st0 [] (line_no src 0)" "fresh ?st0" "boundary src 0"
    by (auto simp: hunks_ok_def fresh_def boundary_def line_no_def full_def hunks_so_far_def)
  from add_edits_ok [OF this assms] obtain st out q where st: "add_edits src ?L c es ?st0 = Some st" "hunks_ok ?L st out q"
    "out @ drop q ?L = lines_of (apply_edits src es)" by (auto simp: apply_edits_def)
  have ok: "hs_last st = int q" "q \<le> length ?L" "patch_run ?L ([], 0) (hunks_so_far st) = Some (out, q)"
    using st(2) by (auto simp: hunks_ok_def)
  show ?thesis
  proof (cases "hs_open st")
    case None
    then show ?thesis using st ok by (simp add: to_hunks_def split_lines_spec patch_hunks_def hunks_so_far_def)
  next
    case (Some h)
    define r where "r = min (q + nat c) (length ?L)"
    have w: "wrap_isize (int q + c) = int q + c" using ok(2) assms(2,3) by auto
    have t: "take (r - q) (drop q ?L) = take (nat c) (drop q ?L)" using ok(2) by (auto simp: r_def min_def)
    have "patch_run ?L ([], 0) (hs_done st @ [h]) = Some (out, q)" using Some ok by (simp add: hunks_so_far_def)
    from patch_run_append [OF this, of "equal_lines ?L (int q) (int q + c)" r]
    have "patch_run ?L ([], 0) (hs_done st @ [h\<lparr>hk_lines := hk_lines h @ equal_lines ?L (int q) (int q + c)\<rparr>]) =
        Some (out @ take (r - q) (drop q ?L), r)"
      using assms(2) ok(2) t by (simp add: equal_lines_spec nat_add_distrib r_def)
    moreover have "take (r - q) (drop q ?L) @ drop r ?L = drop q ?L"
      using slice_append [of q r "length ?L" ?L] ok(2) by (simp add: r_def)
    ultimately show ?thesis using Some st ok(1) w
      by (simp add: to_hunks_def split_lines_spec add_equal_lines_def Let_def patch_hunks_def)
  qed
qed

section \<open>\<^verbatim>\<open>unified\<close>\<close>

lemma length_lines_le: "length (lines_of t) \<le> length t"
proof (induction t rule: lines_of.induct)
  case (2 c cs)
  then show ?case by (auto split: list.splits)
qed simp

lemma unified_hunks:
  assumes "length old + 6 < 2 ^ 63"
  shows "\<exists>hs. unified old_label new_label old new = Ok (render_unified old_label new_label hs) \<and>
    patch_hunks (lines_of old) hs = Some (lines_of new)"
proof -
  obtain es where es: "lines_diff old new = Some es" "ordered_edits (length old) 0 es" "apply_edits old es = new"
    using lines_diff_ok by blast
  obtain es' where es': "line_edits old es = Ok es'" "whole_edits old 0 es'" "apply_edits old es' = new"
    using line_edits_ok [OF es(2)] es(3) by blast
  have "int (length (lines_of old)) + 2 * 3 < 2 ^ 63" using assms length_lines_le [of old] by simp
  then obtain hs where "to_hunks old es' 3 = Some hs" "patch_hunks (lines_of old) hs = Some (lines_of new)"
    using to_hunks_ok [OF es'(2), of 3] es'(3) by auto
  moreover have "patch_hunks (lines_of old) [] = Some (lines_of new)" if "es = []"
    using es(3) that by (simp add: apply_edits_def patch_hunks_def)
  ultimately show ?thesis using es(1) es'(1)
    by (auto simp: unified_def to_unified_def DEFAULT_CONTEXT_LINES_def)
qed

end
