(* ===== verification/Cbor_Typing.thy ===== *)
theory Cbor_Typing
  imports Cbor_Struct
begin

text \<open>
  What the generated decoders return has the type of its field: integers are within the range of their width, text is UTF-8, and
  this holds down through lists and nested structs, whatever the input.
\<close>

section \<open>The values of a type\<close>

primrec fits :: "fty \<Rightarrow> fval \<Rightarrow> bool"
  and struct_fits :: "schema \<Rightarrow> fval list \<Rightarrow> bool"
  and fld_fits :: "fld \<Rightarrow> fval \<Rightarrow> bool"
where
  "fits TBool = (\<lambda>v. case v of VBool b \<Rightarrow> True | _ \<Rightarrow> False)"
| "fits (TUint mx) = (\<lambda>v. case v of VUint n \<Rightarrow> n \<le> mx | _ \<Rightarrow> False)"
| "fits TInt = (\<lambda>v. case v of VInt i \<Rightarrow> I64_MIN_int \<le> i \<and> i \<le> I64_MAX_int | _ \<Rightarrow> False)"
| "fits TF64 = (\<lambda>v. case v of VF64 f \<Rightarrow> True | _ \<Rightarrow> False)"
| "fits TText = (\<lambda>v. case v of VText s \<Rightarrow> utf8_valid s | _ \<Rightarrow> False)"
| "fits TBytes = (\<lambda>v. case v of VBytes s \<Rightarrow> True | _ \<Rightarrow> False)"
| "fits TBytesOpt = (\<lambda>v. case v of VBytesOpt s \<Rightarrow> True | _ \<Rightarrow> False)"
| "fits TBytesList = (\<lambda>v. case v of VBytesList l \<Rightarrow> True | _ \<Rightarrow> False)"
| "fits TBytesOptList = (\<lambda>v. case v of VBytesOptList l \<Rightarrow> True | _ \<Rightarrow> False)"
| "fits TTextList = (\<lambda>v. case v of VTextList l \<Rightarrow> list_all utf8_valid l | _ \<Rightarrow> False)"
| "fits TU16List = (\<lambda>v. case v of VU16List l \<Rightarrow> True | _ \<Rightarrow> False)"
| "fits (TStructs S) = (\<lambda>v. case v of VStructs l \<Rightarrow> list_all (struct_fits S) l | _ \<Rightarrow> False)"
| "fits (TStructsOpt S) = (\<lambda>v. case v of VStructsOpt l \<Rightarrow> pred_option (list_all (struct_fits S)) l | _ \<Rightarrow> False)"
| "fits (TStructPtr S) = (\<lambda>v. case v of VStructPtr p \<Rightarrow> pred_option (struct_fits S) p | _ \<Rightarrow> False)"
| "struct_fits (Schema name fs) = (\<lambda>vs. length vs = length fs \<and> list_all (\<lambda>(p, v). p v) (zip (map fld_fits fs) vs))"
| "fld_fits (Fld key ty gt omit) = fits ty"

lemma fits_default: "fits ty (default_val ty)"
  by (cases ty) auto

lemma fld_fits_default: "fld_fits F (default_val (fld_ty F))"
  by (cases F) (simp add: fits_default)

lemma struct_fits_iff: "struct_fits (Schema name fs) vs \<longleftrightarrow> list_all2 fld_fits fs vs"
  by (auto simp: list_all2_conv_all_nth list_all_length)

section \<open>What \<^verbatim>\<open>Dec::value\<close> fills in\<close>

definition fill_fits :: "kind \<Rightarrow> fill \<Rightarrow> bool" where
  "fill_fits k f = (case f of
     FUint v \<Rightarrow> (case k of KUint mx \<Rightarrow> v \<le> mx | _ \<Rightarrow> True)
   | FInt v \<Rightarrow> (case k of KInt mn mx \<Rightarrow> (mn \<le> 0 \<longrightarrow> mn \<le> v) \<and> v \<le> mx | _ \<Rightarrow> True)
   | FString s \<Rightarrow> utf8_valid s
   | _ \<Rightarrow> True)"

lemma utf8_valid_append: "utf8_valid a \<Longrightarrow> utf8_valid t \<Longrightarrow> utf8_valid (a @ t)"
proof (induction a rule: utf8_valid.induct)
  case (2 b bs)
  consider "b < 0x80" | "\<not> b < 0x80" "0xc2 \<le> b \<and> b \<le> 0xdf"
    | "\<not> b < 0x80" "\<not> (0xc2 \<le> b \<and> b \<le> 0xdf)" "0xe0 \<le> b \<and> b \<le> 0xef"
    | "\<not> b < 0x80" "\<not> (0xc2 \<le> b \<and> b \<le> 0xdf)" "\<not> (0xe0 \<le> b \<and> b \<le> 0xef)" "0xf0 \<le> b \<and> b \<le> 0xf4"
    using "2.prems"(1) by (auto split: if_splits)
  then show ?case
  proof cases
    case 1
    then show ?thesis using 2 by simp
  next
    case c: 2
    then obtain x r where "bs = x # r" using "2.prems"(1) by (cases bs) auto
    then show ?thesis using 2 c by (simp add: utf8_valid.simps(2) [of b] del: utf8_valid.simps(2))
  next
    case c: 3
    then obtain x y r where "bs = x # y # r" using "2.prems"(1) by (cases bs; cases "tl bs") (auto simp: utf8_valid.simps(2) [of b] simp del: utf8_valid.simps(2))
    then show ?thesis using 2 c by (auto simp: utf8_valid.simps(2) [of b] simp del: utf8_valid.simps(2))
  next
    case c: 4
    then obtain x y z r where "bs = x # y # z # r" using "2.prems"(1) 
      by (cases bs; cases "tl bs"; cases "tl (tl bs)") (auto simp: utf8_valid.simps(2) [of b] simp del: utf8_valid.simps(2))
    then show ?thesis using 2 c by (auto simp: utf8_valid.simps(2) [of b] simp del: utf8_valid.simps(2))
  qed
qed simp

lemma text_chunks_utf8: "text_chunks out bs = Ok (s, r) \<Longrightarrow> utf8_valid out \<Longrightarrow> utf8_valid s"
proof (induction out bs rule: text_chunks.induct)
  case (1 out bs)
  then show ?case by (subst (asm) (2) text_chunks.simps) (auto split: bool.splits prod.splits if_splits simp: utf8_valid_append)
qed

lemma text_body_utf8: "text_string_body ai val bs = Ok (s, r) \<Longrightarrow> utf8_valid s"
  by (auto simp: text_string_body_def text_chunks_utf8 split: if_splits prod.splits)

lemma sint_nonneg: "\<not> val > I64_MAX \<Longrightarrow> 0 \<le> sint (val :: u64)"
proof -
  assume "\<not> val > I64_MAX"
  then have "uint val < 2 ^ 63" by (simp add: not_less word_le_def)
  then have "signed_take_bit 63 (uint val) = uint val"
    using uint_nonnegative [of val] by (intro signed_take_bit_int_eq_self) linarith+
  then have "sint val = uint val" by (simp add: sint_uint)
  then show ?thesis by simp
qed

lemma fill_positive_filled: "fill_positive_int t val k gt = Ok f \<Longrightarrow> fill_fits k f"
  using sint_nonneg [of val] by (auto simp: fill_positive_int_def fill_fits_def split: kind.splits if_splits)

lemma fill_negative_filled: "fill_negative_int t val k gt = Ok f \<Longrightarrow> fill_fits k f"
  by (auto simp: fill_negative_int_def fill_fits_def split: kind.splits if_splits)

lemma fill_others_filled:
  "fill_bool t b k gt = Ok f \<Longrightarrow> fill_fits k f" "fill_float t x k gt = Ok f \<Longrightarrow> fill_fits k f"
  "fill_byte_string t s k gt = Ok f \<Longrightarrow> fill_fits k f" "utf8_valid s \<Longrightarrow> fill_text_string t s k gt = Ok f \<Longrightarrow> fill_fits k f"
  by (auto simp: fill_bool_def fill_float_def fill_byte_string_def fill_text_string_def fill_fits_def split: kind.splits)

lemmas fills = fill_positive_filled fill_negative_filled fill_others_filled

lemma primitive_filled: "value_primitive k gt ai val = Ok f \<Longrightarrow> fill_fits k f"
  by (auto simp: value_primitive_def fill_fits_def [of k FNil] split: if_splits intro: fills)

lemma bignum_filled: "bignum neg k gt bs = Ok (f, r) \<Longrightarrow> fill_fits k f"
  by (auto simp: bignum_def Let_def split: prod.splits if_splits option.splits intro: fills)

lemma dec_value_filled: "dec_value k gt bs = Ok (f, r) \<Longrightarrow> fill_fits k f"
proof (induction k gt bs rule: dec_value.induct)
  case (1 k gt bs)
  then obtain bs1 where bs1: "tag_preamble bs = Ok bs1" by (subst (asm) (2) dec_value.simps) auto
  obtain m ai val bs2 where h: "dec_head bs1 = (m, ai, val, bs2)" by (metis prod_cases4)
  note v = "1.prems" [unfolded dec_value.simps [of k gt bs], unfolded bs1 obind.simps h prod.case]
  show ?case
  proof (cases "peek_major bs1 = 6 \<and> val \<noteq> 2 \<and> val \<noteq> 3")
    case True
    then show ?thesis using v "1.IH" [OF bs1 _ _ _ _ _ _ _ h [symmetric] refl refl] by simp
  next
    case False
    then show ?thesis using v
      by (auto simp: fill_fits_def [of _ FArray] fill_fits_def [of _ FMap] split: if_splits prod.splits
          intro: fills primitive_filled bignum_filled dest: text_body_utf8)
  qed
qed

section \<open>Readers of a predicate\<close>

locale typed_reader =
  fixes rd :: "bytes \<Rightarrow> (decode_error, 'a \<times> bytes) outcome" and P :: "'a \<Rightarrow> bool"
  assumes typed: "rd bs = Ok (v, r) \<Longrightarrow> P v"
begin

lemma typed_map: "(\<And>v. P v \<Longrightarrow> Q (f v)) \<Longrightarrow> typed_reader (rmap f rd) Q"
  by unfold_locales (auto simp: rmap_def dest: typed)

lemma typed_array_def: "array_def rd n out bs = Ok (v, r) \<Longrightarrow> list_all P out \<Longrightarrow> list_all P v"
  by (induction n arbitrary: out bs) (auto split: if_splits dest: typed)

lemma typed_array_indef: "array_indef rd k out bs = Ok (v, r) \<Longrightarrow> list_all P out \<Longrightarrow> list_all P v"
  by (induction k arbitrary: out bs) (auto split: prod.splits bool.splits dest: typed)

lemma typed_array_items: "array_items rd bs = Ok (v, r) \<Longrightarrow> list_all P v"
  by (auto simp: array_items_def simp del: array_indef.simps array_def.simps split: prod.splits if_splits
      dest: typed_array_def typed_array_indef)

lemma typed_array_opt: "typed_reader (read_array_opt gt rd) (pred_option (list_all P))"
  by unfold_locales (auto simp: read_array_opt_def split: if_splits dest: typed_array_items)

lemma typed_array: "typed_reader (read_array gt rd) (list_all P)"
  by unfold_locales (clarsimp simp: read_array_def, drule typed_reader.typed [OF typed_array_opt], auto split: option.splits)

end

interpretation tr_uint: typed_reader "read_uint gt mx" "\<lambda>v. v \<le> mx" for gt mx
  by unfold_locales (clarsimp simp: read_uint_def, drule dec_value_filled, auto simp: fill_fits_def split: fill.splits)

interpretation tr_int: typed_reader "read_int gt I64_MIN_int I64_MAX_int" "\<lambda>v. I64_MIN_int \<le> v \<and> v \<le> I64_MAX_int" for gt
  by unfold_locales (clarsimp simp: read_int_def, drule dec_value_filled, auto simp: fill_fits_def split: fill.splits)

interpretation tr_text: typed_reader "read_text gt" utf8_valid for gt
  by unfold_locales (clarsimp simp: read_text_def, drule dec_value_filled, auto simp: fill_fits_def split: fill.splits)

section \<open>Structs\<close>

lemma match_key_typed:
  assumes "\<And>i. i < length ds \<Longrightarrow> typed_reader (snd (ds ! i)) (fld_fits (fs ! (n + i)))" and "n + length ds = length fs"
    and "list_all2 fld_fits fs st" and "match_key ds n key st bs = Ok (hit, st1, r)"
  shows "list_all2 fld_fits fs st1"
  using assms
proof (induction ds arbitrary: n)
  case (Cons d ds)
  obtain k dec where d: "d = (k, dec)" by fastforce
  show ?case
  proof (cases "key = k")
    case True
    then obtain v where v: "dec bs = Ok (v, r)" "st1 = st[n := v]" using Cons.prems(4) d by auto
    have "fld_fits (fs ! n) v" using Cons.prems(1) [of 0] d v(1) typed_reader.typed by fastforce
    then show ?thesis using list_all2_update_cong [OF Cons.prems(3), of "fs ! n" v n] v(2) by simp
  next
    case False
    show ?thesis
    proof (rule Cons.IH [of "Suc n"])
      show "typed_reader (snd (ds ! i)) (fld_fits (fs ! (Suc n + i)))" if "i < length ds" for i
        using Cons.prems(1) [of "Suc i"] that by simp
    qed (use Cons.prems d False in auto)
  qed
qed simp

definition preserves :: "('st \<Rightarrow> bool) \<Rightarrow> (u64 \<Rightarrow> 'st \<Rightarrow> bytes \<Rightarrow> (decode_error, bool \<times> 'st \<times> bytes) outcome) \<Rightarrow> bool" where
  "preserves Q field \<longleftrightarrow> (\<forall>key st bs hit st1 r. field key st bs = Ok (hit, st1, r) \<longrightarrow> Q st \<longrightarrow> Q st1)"

lemma preservedD: "preserves Q field \<Longrightarrow> field key st bs = Ok (hit, st1, r) \<Longrightarrow> Q st \<Longrightarrow> Q st1"
  unfolding preserves_def by blast

lemma map_entry_keeps:
  "preserves Q field \<Longrightarrow> map_entry field gt seen st bs = Ok (seen1, st1, r) \<Longrightarrow> Q st \<Longrightarrow> Q st1"
  by (auto simp: map_entry_def omap_err_Ok split: if_splits prod.splits dest: preservedD)

lemma map_loop_keeps:
  assumes "preserves Q field"
  shows "map_loop field gt indef k left seen st bs = Ok (st1, r) \<Longrightarrow> Q st \<Longrightarrow> Q st1"
proof (induction k arbitrary: left seen st bs)
  case (Suc k)
  show ?case
  proof (cases "if indef then found_break bs else (left = 0 \<or> at_end bs, bs)")
    case (Pair stop bs1)
    show ?thesis
    proof (cases stop)
      case True
      then show ?thesis using Suc.prems Pair by simp
    next
      case False
      then obtain seen1 st2 bs2 where e: "map_entry field gt seen st bs1 = Ok (seen1, st2, bs2)"
        "map_loop field gt indef k (if indef then left else left - 1) seen1 st2 bs2 = Ok (st1, r)"
        using Suc.prems(1) Pair by auto
      then show ?thesis using Suc.IH [OF e(2)] map_entry_keeps [OF assms e(1) Suc.prems(2)] by blast
    qed
  qed
qed simp

lemma typed_reader_True: "typed_reader rd (\<lambda>v. True)"
  by unfold_locales simp

lemma decode_typed:
  shows "typed_reader (decode_field ty gt) (fits ty)" and "typed_reader (decode_struct S) (struct_fits S)"
    and "typed_reader (snd (decode_fld F)) (fld_fits F)"
proof (induction ty and S and F arbitrary: gt rule: fty.induct schema.induct fld.induct)
  case (Schema n fs)
  have field: "preserves (list_all2 fld_fits fs) (match_key (map decode_fld fs) 0)"
    unfolding preserves_def using match_key_typed [of "map decode_fld fs" fs 0] Schema by simp
  have start: "list_all2 fld_fits fs (map (default_val \<circ> fld_ty) fs)"
    by (simp add: list_all2_conv_all_nth fld_fits_default)
  show ?case
  proof
    fix bs v r assume "decode_struct (Schema n fs) bs = Ok (v, r)"
    then show "struct_fits (Schema n fs) v" unfolding struct_fits_iff
      using start by (auto simp: read_map_struct_def simp del: map_loop.simps split: if_splits prod.splits dest: map_loop_keeps [OF field])
  qed
next
  case (TStructPtr S)
  show ?case
    by unfold_locales (auto simp: rmap_def split: prod.splits bool.splits dest: typed_reader.typed [OF TStructPtr])
next
  case TTextList
  show ?case using typed_reader.typed_map [OF typed_reader.typed_array [OF tr_text.typed_reader_axioms], of "fits TTextList" VTextList] by simp
next
  case (TStructs S)
  show ?case using typed_reader.typed_map [OF typed_reader.typed_array [OF TStructs], of "fits (TStructs S)" VStructs] by simp
next
  case (TStructsOpt S)
  show ?case using typed_reader.typed_map [OF typed_reader.typed_array_opt [OF TStructsOpt], of "fits (TStructsOpt S)" VStructsOpt] by simp
qed (auto intro!: typed_reader_True typed_reader.typed_map typed_reader.typed_array typed_reader.typed_array_opt
    tr_uint.typed_reader_axioms tr_int.typed_reader_axioms tr_text.typed_reader_axioms)

end
