(* ===== verification/Client_Error.thy ===== *)
theory Client_Error
  imports View Wire_Pack
begin

text \<open>
  \<^verbatim>\<open>crates/client/src/error.rs\<close> and the errors it is made of: \<^verbatim>\<open>TransportError\<close> and \<^verbatim>\<open>CallError\<close> of
  \<^verbatim>\<open>crates/transport/src/error.rs\<close>, \<^verbatim>\<open>CtxError\<close> of \<^verbatim>\<open>crates/gocompat/src/ctx.rs\<close>. The client asks an error
  questions that walk its \<^verbatim>\<open>source()\<close> chain; the chain is the list of the links those questions can tell apart.
  The errors of the core library are a type parameter.
\<close>

datatype ctx_error = Canceled | DeadlineExceeded

datatype transport_error =
    TClosed
  | RecentlyUnreachable
  | NoCandidates bytes
  | Bind bytes
  | PkarrPublisher bytes
  | DialAddr bytes transport_error
  | Discovery transport_error
  | Joined "transport_error list"
  | InvalidKey
  | NoAddress
  | SelfConnect
  | TCtx ctx_error
  | MemLocalDown
  | MemUnreachable bytes
  | MemNotBound bytes
  | MemAlpn bytes bytes
  | Quic bytes

datatype call_error =
    CallTransport transport_error
  | CallWire wire_error
  | CallCtx ctx_error
  | CallRemote remote_error

record cas_mismatch =
  cm_current :: bytes
  cm_record :: bytes
  cm_version :: bytes
  cm_has_current :: bool

record incomplete =
  ic_sample :: "bytes list"
  ic_shortfall :: int

datatype 'x client_error =
    NoEndpoint
  | TicketNamesNoNodes
  | NoBootstrap "'x client_error"
  | UnexpectedReply int
  | NoNodes
  | UnknownRef
  | CasMismatch cas_mismatch
  | Incomplete incomplete
  | WatchIdle
  | UnexpectedFrame int
  | Remote remote_error
  | Transport transport_error
  | Wire wire_error
  | PackRecords pack_records_error
  | CtxErr ctx_error
  | ViewErr view_error
  | Reference 'x
  | KeyErr 'x
  | Amberpack 'x
  | Packstore 'x
  | ChildKeys 'x
  | NoOwners
  | PayloadHash bytes bytes
  | WalkLocalTree 'x
  | Negotiate bytes "'x client_error"
  | UploadTo bytes "'x client_error"
  | RecordRejected bytes bytes
  | NotPlaced nat bytes
  | NotPlacedLastError "'x client_error" "'x client_error"
  | FetchEndedEarly
  | PullObjectNotFound bytes
  | PullIncomplete 'x
  | OtherError bytes

text \<open>
  A link of a chain: a client error (also one in a \<^verbatim>\<open>Box\<close> or \<^verbatim>\<open>Arc\<close>, whose own \<^verbatim>\<open>source()\<close> is that of its content), one
  of the types that a question looks for, or something else. Behind an error that wraps none of these types, one
  \<open>KPlain\<close> stands for the rest of the chain.
\<close>

datatype 'x client_link =
    KClient "'x client_error"
  | KRemote remote_error
  | KCas cas_mismatch
  | KIncomplete incomplete
  | KCtx ctx_error
  | KPlain

fun transport_sources :: "transport_error \<Rightarrow> 'x client_link list" where
  "transport_sources (DialAddr a e) = KPlain # transport_sources e"
| "transport_sources (Discovery e) = KPlain # transport_sources e"
| "transport_sources (TCtx c) = [KCtx c]"
| "transport_sources _ = []"

fun wire_sources :: "wire_error \<Rightarrow> 'x client_link list" where
  "wire_sources (WRemote r) = [KRemote r]"
| "wire_sources (WDecode e) = [KPlain]"
| "wire_sources (WIo e) = [KPlain]"
| "wire_sources _ = []"

fun chain :: "'x client_error \<Rightarrow> 'x client_link list" where
  "chain (NoBootstrap e) = KClient (NoBootstrap e) # chain e"
| "chain (Negotiate k e) = KClient (Negotiate k e) # chain e"
| "chain (UploadTo n e) = KClient (UploadTo n e) # chain e"
| "chain (NotPlacedLastError p l) = KClient (NotPlacedLastError p l) # chain p"
| "chain (CasMismatch c) = [KClient (CasMismatch c), KCas c]"
| "chain (Incomplete i) = [KClient (Incomplete i), KIncomplete i]"
| "chain (Remote r) = [KClient (Remote r), KRemote r]"
| "chain (Transport t) = [KClient (Transport t), KPlain] @ transport_sources t"
| "chain (Wire w) = [KClient (Wire w), KPlain] @ wire_sources w"
| "chain (CtxErr c) = [KClient (CtxErr c), KCtx c]"
| "chain (PackRecords e) = [KClient (PackRecords e), KPlain]"
| "chain (ViewErr e) = [KClient (ViewErr e), KPlain]"
| "chain (Reference e) = [KClient (Reference e), KPlain]"
| "chain (KeyErr e) = [KClient (KeyErr e), KPlain]"
| "chain (Amberpack e) = [KClient (Amberpack e), KPlain]"
| "chain (Packstore e) = [KClient (Packstore e), KPlain]"
| "chain (ChildKeys e) = [KClient (ChildKeys e), KPlain]"
| "chain (WalkLocalTree e) = [KClient (WalkLocalTree e), KPlain]"
| "chain (PullIncomplete e) = [KClient (PullIncomplete e), KPlain]"
| "chain e = [KClient e]"

fun find_some :: "('a \<Rightarrow> 'b option) \<Rightarrow> 'a list \<Rightarrow> 'b option" where
  "find_some f [] = None"
| "find_some f (x # xs) = (case f x of Some y \<Rightarrow> Some y | None \<Rightarrow> find_some f xs)"

definition remote :: "'x client_error \<Rightarrow> remote_error option" where
  "remote e = find_some (\<lambda>l. case l of KRemote r \<Rightarrow> Some r | _ \<Rightarrow> None) (chain e)"

definition has_code :: "'x client_error \<Rightarrow> bytes \<Rightarrow> bool" where
  "has_code e code = (case remote e of Some r \<Rightarrow> re_code r = code | None \<Rightarrow> False)"

definition cas_mismatch_of :: "'x client_error \<Rightarrow> cas_mismatch option" where
  "cas_mismatch_of e = find_some (\<lambda>l. case l of KCas c \<Rightarrow> Some c | _ \<Rightarrow> None) (chain e)"

definition incomplete_of :: "'x client_error \<Rightarrow> incomplete option" where
  "incomplete_of e = find_some (\<lambda>l. case l of KIncomplete i \<Rightarrow> Some i | _ \<Rightarrow> None) (chain e)"

definition is_unknown_ref :: "'x client_error \<Rightarrow> bool" where
  "is_unknown_ref e \<longleftrightarrow> list_ex (\<lambda>l. case l of KClient UnknownRef \<Rightarrow> True | _ \<Rightarrow> False) (chain e)"

definition ctx_error_of :: "'x client_error \<Rightarrow> ctx_error option" where
  "ctx_error_of e = find_some (\<lambda>l. case l of KCtx c \<Rightarrow> Some c | _ \<Rightarrow> None) (chain e)"

fun from_call_error :: "call_error \<Rightarrow> 'x client_error" where
  "from_call_error (CallRemote r) = Remote r"
| "from_call_error (CallTransport t) = Transport t"
| "from_call_error (CallWire w) = Wire w"
| "from_call_error (CallCtx c) = CtxErr c"

lemma transport_not_remote: "find_some (\<lambda>l. case l of KRemote r \<Rightarrow> Some r | _ \<Rightarrow> None) (transport_sources t) = None"
  by (induction t rule: transport_sources.induct) auto

lemma remote_simps [simp]:
  "remote (Remote r) = Some r"
  "remote (Transport t) = None"
  "remote (CtxErr c) = None"
  "remote (Wire w) = (case w of WRemote r \<Rightarrow> Some r | _ \<Rightarrow> None)"
  "remote (NoBootstrap e) = remote e"
  "remote (UploadTo n e) = remote e"
  "remote (Negotiate k e) = remote e"
  "remote UnknownRef = None"
  by (simp_all add: remote_def transport_not_remote split: wire_error.splits)

end
