(* ===== verification/Pool.thy ===== *)
theory Pool
  imports Client_Error
begin

text \<open>
  \<^verbatim>\<open>crates/transport/src/pool.rs\<close>: the connection pool. The state behind the lock is a record; every critical
  section is one definition, and \<open>pool_step\<close> interleaves the critical sections of any number of tasks with the
  network. A connection is a value of a parameter type, of which the pool only asks whether it is closed and what its
  path is.
\<close>

section \<open>State\<close>

definition FAILED_DIAL_WINDOW :: nat where "FAILED_DIAL_WINDOW = 2000000000"

record path_info =
  pi_direct :: bool
  pi_rtt :: nat

type_synonym peer_key = "node_id \<times> bytes"

text \<open>Instants are nanoseconds; \<open>po_closed\<close> are the connections for which \<^verbatim>\<open>is_closed\<close> holds.\<close>

record 'c pool_state =
  po_conns :: "peer_key \<rightharpoonup> 'c list"
  po_next :: "peer_key \<rightharpoonup> u64"
  po_dialing :: "peer_key set"
  po_failed :: "peer_key \<rightharpoonup> nat"
  po_closed :: "'c set"

definition pool_default :: "'c pool_state" where
  "pool_default = \<lparr>po_conns = Map.empty, po_next = Map.empty, po_dialing = {}, po_failed = Map.empty, po_closed = {}\<rparr>"

definition pool_per_peer :: "nat \<Rightarrow> nat" where
  "pool_per_peer n = max n 1"

definition conns_of :: "'c pool_state \<Rightarrow> peer_key \<Rightarrow> 'c list" where
  "conns_of st k = (case po_conns st k of Some cs \<Rightarrow> cs | None \<Rightarrow> [])"

section \<open>The critical sections of \<^verbatim>\<open>get\<close>\<close>

datatype 'c get_answer = GotConn 'c | GotErr transport_error | MustDial

text \<open>Up to the dial lock: forget closed connections, take one in turn when the peer has its share, refuse while a
  recent dial failed, else ask for the dial lock.\<close>

definition get_begin :: "nat \<Rightarrow> nat \<Rightarrow> peer_key \<Rightarrow> 'c pool_state \<Rightarrow> 'c get_answer \<times> 'c pool_state" where
  "get_begin per_peer now k st =
     (let live = filter (\<lambda>c. c \<notin> po_closed st) (conns_of st k);
          st1 = st\<lparr>po_conns := (po_conns st)(k \<mapsto> live)\<rparr>;
          n = length live in
      if n \<ge> per_peer then
        (let next = (case po_next st1 k of Some x \<Rightarrow> x | None \<Rightarrow> 0) in
         (GotConn (live ! (unat next mod n)), st1\<lparr>po_next := (po_next st1)(k \<mapsto> next + 1)\<rparr>))
      else if n = 0 \<and> (case po_failed st1 k of Some t \<Rightarrow> now - t < FAILED_DIAL_WINDOW | None \<Rightarrow> False) then
        (GotErr RecentlyUnreachable, st1)
      else (MustDial, st1\<lparr>po_dialing := insert k (po_dialing st1)\<rparr>))"

text \<open>Under the dial lock: the list as it is now, closed connections included.\<close>

definition get_check :: "nat \<Rightarrow> peer_key \<Rightarrow> 'c pool_state \<Rightarrow> 'c option" where
  "get_check per_peer k st = (case po_conns st k of
     Some (c # cs) \<Rightarrow> if length (c # cs) \<ge> per_peer then Some c else None
   | _ \<Rightarrow> None)"

definition dial_done :: "nat \<Rightarrow> peer_key \<Rightarrow> (transport_error, 'c) outcome \<Rightarrow> 'c pool_state \<Rightarrow>
    (transport_error, 'c) outcome \<times> 'c pool_state" where
  "dial_done now k res st = (case res of
     Err e \<Rightarrow> (Err e, st\<lparr>po_failed := (po_failed st)(k \<mapsto> now)\<rparr>)
   | Ok c \<Rightarrow> (Ok c, st\<lparr>po_failed := (po_failed st)(k := None), po_conns := (po_conns st)(k \<mapsto> conns_of st k @ [c])\<rparr>)
   | Stuck \<Rightarrow> (Stuck, st))"

section \<open>The other operations\<close>

definition drop_peer :: "peer_key \<Rightarrow> 'c pool_state \<Rightarrow> 'c pool_state" where
  "drop_peer k st =
     st\<lparr>po_failed := (po_failed st)(k := None), po_conns := (po_conns st)(k := None),
        po_closed := po_closed st \<union> set (conns_of st k)\<rparr>"

definition pool_path :: "('c \<Rightarrow> path_info) \<Rightarrow> peer_key \<Rightarrow> 'c pool_state \<Rightarrow> path_info option" where
  "pool_path path k st = map_option path (find (\<lambda>c. c \<notin> po_closed st) (conns_of st k))"

definition pool_close :: "'c pool_state \<Rightarrow> 'c pool_state" where
  "pool_close st = st\<lparr>po_conns := Map.empty, po_closed := po_closed st \<union> (\<Union>cs \<in> ran (po_conns st). set cs)\<rparr>"

section \<open>Requests\<close>

text \<open>A stream: its two halves as scripts, and whether they were finished and abandoned.\<close>

record stream_state =
  ss_send :: writer
  ss_finished :: bool
  ss_recv :: reader_state
  ss_cancelled :: bool

definition close_write :: "stream_state \<Rightarrow> stream_state" where
  "close_write s = s\<lparr>ss_finished := True\<rparr>"

definition cancel_read :: "stream_state \<Rightarrow> stream_state" where
  "cancel_read s = s\<lparr>ss_cancelled := True\<rparr>"

definition close_stream :: "stream_state \<Rightarrow> stream_state" where
  "close_stream s = cancel_read (close_write s)"

text \<open>\<open>ended\<close> is the context's error when the context ends before the reply is read.\<close>

definition exchange :: "append_head \<Rightarrow> ctx_error option \<Rightarrow> msg \<Rightarrow> (stream_state, call_error, msg) op" where
  "exchange ah ended req s = (case write_msg ah req (ss_send s) of
     (Err e, w) \<Rightarrow> (Err (CallWire e), s\<lparr>ss_send := w\<rparr>)
   | (Stuck, w) \<Rightarrow> (Stuck, s\<lparr>ss_send := w\<rparr>)
   | (Ok _, w) \<Rightarrow>
       (let s1 = close_write (s\<lparr>ss_send := w\<rparr>) in
        case ended of
          Some e \<Rightarrow> (Err (CallCtx e), close_write (cancel_read s1))
        | None \<Rightarrow> (case read_msg (ss_recv s1) of
            (Err e, r) \<Rightarrow> (Err (CallWire e), s1\<lparr>ss_recv := r\<rparr>)
          | (Stuck, r) \<Rightarrow> (Stuck, s1\<lparr>ss_recv := r\<rparr>)
          | (Ok reply, r) \<Rightarrow>
              if m_typ reply = T_ERR then (Err (CallRemote (error_from_msg reply)), s1\<lparr>ss_recv := r\<rparr>)
              else (Ok reply, s1\<lparr>ss_recv := r\<rparr>))))"

text \<open>
  \<^verbatim>\<open>call\<close> and \<^verbatim>\<open>open\<close> after \<^verbatim>\<open>get\<close> answered: \<open>opened\<close> is what \<^verbatim>\<open>open_stream\<close> returned. A peer whose stream does
  not open is dropped; \<^verbatim>\<open>call\<close> closes its stream on every way out.
\<close>

definition pool_open :: "(transport_error, 'c) outcome \<Rightarrow> (transport_error, stream_state) outcome \<Rightarrow> peer_key \<Rightarrow>
    ('c pool_state, transport_error, stream_state) op" where
  "pool_open got opened k st = (case got of
     Err e \<Rightarrow> (Err e, st)
   | Stuck \<Rightarrow> (Stuck, st)
   | Ok c \<Rightarrow> (case opened of
       Ok s \<Rightarrow> (Ok s, st)
     | Err e \<Rightarrow> (Err e, drop_peer k st)
     | Stuck \<Rightarrow> (Stuck, st)))"

definition pool_call :: "append_head \<Rightarrow> ctx_error option \<Rightarrow> (transport_error, 'c) outcome \<Rightarrow>
    (transport_error, stream_state) outcome \<Rightarrow> peer_key \<Rightarrow> msg \<Rightarrow> 'c pool_state \<Rightarrow>
    (call_error, msg) outcome \<times> stream_state option \<times> 'c pool_state" where
  "pool_call ah ended got opened k req st = (case pool_open got opened k st of
     (Err e, st1) \<Rightarrow> (Err (CallTransport e), None, st1)
   | (Stuck, st1) \<Rightarrow> (Stuck, None, st1)
   | (Ok s, st1) \<Rightarrow> (case exchange ah ended req s of (res, s1) \<Rightarrow> (res, Some (close_stream s1), st1)))"

section \<open>Tasks\<close>

datatype phase = Waiting peer_key | Dialing peer_key

type_synonym tasks = "nat \<rightharpoonup> phase"

text \<open>
  The interleavings. A task calls \<^verbatim>\<open>get\<close>, waits for the dial lock of its peer, looks again and dials; the lock is
  held exactly while a task dials. A task may be dropped at any await point. Peers close connections.
\<close>

definition dial_locked :: "tasks \<Rightarrow> peer_key \<Rightarrow> bool" where
  "dial_locked ts k \<longleftrightarrow> (\<exists>t. ts t = Some (Dialing k))"

inductive pool_step :: "nat \<Rightarrow> 'c pool_state \<times> tasks \<Rightarrow> 'c pool_state \<times> tasks \<Rightarrow> bool" for per_peer where
  get_answered: "get_begin per_peer now k st = (r, st1) \<Longrightarrow> r \<noteq> MustDial \<Longrightarrow> pool_step per_peer (st, ts) (st1, ts)"
| get_waits: "get_begin per_peer now k st = (MustDial, st1) \<Longrightarrow> ts t = None \<Longrightarrow>
    pool_step per_peer (st, ts) (st1, ts(t \<mapsto> Waiting k))"
| lock_found: "ts t = Some (Waiting k) \<Longrightarrow> \<not> dial_locked ts k \<Longrightarrow> get_check per_peer k st = Some c \<Longrightarrow>
    pool_step per_peer (st, ts) (st, ts(t := None))"
| lock_dials: "ts t = Some (Waiting k) \<Longrightarrow> \<not> dial_locked ts k \<Longrightarrow> get_check per_peer k st = None \<Longrightarrow>
    pool_step per_peer (st, ts) (st, ts(t \<mapsto> Dialing k))"
| dialed: "ts t = Some (Dialing k) \<Longrightarrow> dial_done now k res st = (r, st1) \<Longrightarrow> pool_step per_peer (st, ts) (st1, ts(t := None))"
| task_dropped: "pool_step per_peer (st, ts) (st, ts(t := None))"
| peer_dropped: "pool_step per_peer (st, ts) (drop_peer k st, ts)"
| pool_closed: "pool_step per_peer (st, ts) (pool_close st, ts)"
| conn_closed: "pool_step per_peer (st, ts) (st\<lparr>po_closed := insert c (po_closed st)\<rparr>, ts)"

inductive pool_reach :: "nat \<Rightarrow> 'c pool_state \<times> tasks \<Rightarrow> bool" for n where
  start: "pool_reach n (pool_default, Map.empty)"
| step: "pool_reach n s \<Longrightarrow> pool_step (pool_per_peer n) s s' \<Longrightarrow> pool_reach n s'"

inductive_cases pool_stepE: "pool_step per_peer (st, ts) s'"

section \<open>No peer ever has more than its share\<close>

definition pool_inv :: "nat \<Rightarrow> 'c pool_state \<times> tasks \<Rightarrow> bool" where
  "pool_inv n s \<longleftrightarrow>
     (\<forall>k. length (conns_of (fst s) k) \<le> n \<and> (dial_locked (snd s) k \<longrightarrow> length (conns_of (fst s) k) < n)) \<and>
     (\<forall>t t' k. snd s t = Some (Dialing k) \<longrightarrow> snd s t' = Some (Dialing k) \<longrightarrow> t = t')"

lemma pool_invD:
  assumes "pool_inv n (st, ts)"
  shows "length (conns_of st k) \<le> n" and "ts t = Some (Dialing k) \<Longrightarrow> length (conns_of st k) < n"
    and "ts t = Some (Dialing k) \<Longrightarrow> ts t' = Some (Dialing k) \<Longrightarrow> t = t'"
  using assms unfolding pool_inv_def dial_locked_def fst_conv snd_conv by blast+

text \<open>A step that shrinks the lists and starts no dial keeps the invariant.\<close>

lemma pool_inv_shrink:
  assumes "pool_inv n (st, ts)" and "\<And>k. length (conns_of st1 k) \<le> length (conns_of st k)"
    and "\<And>t k. ts1 t = Some (Dialing k) \<Longrightarrow> ts t = Some (Dialing k)"
  shows "pool_inv n (st1, ts1)"
  unfolding pool_inv_def fst_conv snd_conv
proof (intro conjI allI impI)
  fix k
  show "length (conns_of st1 k) \<le> n" using assms(2) [of k] pool_invD(1) [OF assms(1), of k] by linarith
  assume "dial_locked ts1 k"
  then obtain t where "ts t = Some (Dialing k)" using assms(3) unfolding dial_locked_def by blast
  then show "length (conns_of st1 k) < n" using assms(2) [of k] pool_invD(2) [OF assms(1)] by (meson le_less_trans)
next
  fix t t' k assume "ts1 t = Some (Dialing k)" "ts1 t' = Some (Dialing k)"
  then show "t = t'" using assms(3) pool_invD(3) [OF assms(1)] by blast
qed

lemma get_begin_conns: "get_begin n now k st = (r, st1) \<Longrightarrow>
    conns_of st1 k' = (if k' = k then filter (\<lambda>c. c \<notin> po_closed st) (conns_of st k) else conns_of st k')"
  by (auto simp: get_begin_def Let_def conns_of_def split: if_splits)

lemma get_begin_shrinks: "get_begin n now k st = (r, st1) \<Longrightarrow> length (conns_of st1 k') \<le> length (conns_of st k')"
  by (simp add: get_begin_conns)

lemma get_check_None: "n > 0 \<Longrightarrow> get_check n k st = None \<Longrightarrow> length (conns_of st k) < n"
  by (auto simp: get_check_def conns_of_def split: option.splits list.splits if_splits)

lemma pool_step_inv:
  assumes "pool_step n s s'" and "n > 0" and "pool_inv n s"
  shows "pool_inv n s'"
  using assms
proof (induction rule: pool_step.induct)
  case (get_answered now k st r st1 ts)
  show ?case by (rule pool_inv_shrink [OF get_answered(4)]) (simp_all add: get_begin_shrinks [OF get_answered(1)])
next
  case (get_waits now k st st1 ts t)
  show ?case by (rule pool_inv_shrink [OF get_waits(4)])
      (auto simp: get_begin_shrinks [OF get_waits(1)] split: if_splits)
next
  case (lock_dials ts t k st)
  then show ?case using get_check_None [OF lock_dials(4,3)]
    by (auto simp: pool_inv_def dial_locked_def split: if_splits)
next
  case (dialed ts t k now res st r st1)
  note inv = pool_invD [OF dialed(4)]
  have c: "length (conns_of st1 k') \<le> length (conns_of st k') + (if k' = k then 1 else 0)" for k'
    using dialed(2) by (auto simp: dial_done_def conns_of_def split: outcome.splits)
  show ?case unfolding pool_inv_def fst_conv snd_conv
  proof (intro conjI allI impI)
    fix k'
    show "length (conns_of st1 k') \<le> n" using c [of k'] inv(1) [of k'] inv(2) [OF dialed(1)] by (auto split: if_splits)
    assume "dial_locked (ts(t := None)) k'"
    then obtain t' where t': "t' \<noteq> t" "ts t' = Some (Dialing k')" by (auto simp: dial_locked_def split: if_splits)
    then have "k' \<noteq> k" using inv(3) [OF dialed(1)] by auto
    then show "length (conns_of st1 k') < n" using c [of k'] inv(2) [OF t'(2)] by simp
  next
    fix t1 t2 k' assume "(ts(t := None)) t1 = Some (Dialing k')" "(ts(t := None)) t2 = Some (Dialing k')"
    then show "t1 = t2" using inv(3) by (auto split: if_splits)
  qed
next
  case (lock_found ts t k st c)
  show ?case by (rule pool_inv_shrink [OF lock_found(5)]) (auto split: if_splits)
next
  case (task_dropped st ts t)
  show ?case by (rule pool_inv_shrink [OF task_dropped(2)]) (auto split: if_splits)
next
  case (peer_dropped st ts k)
  show ?case by (rule pool_inv_shrink [OF peer_dropped(2)]) (auto simp: drop_peer_def conns_of_def)
next
  case (pool_closed st ts)
  show ?case by (rule pool_inv_shrink [OF pool_closed(2)]) (auto simp: pool_close_def conns_of_def)
next
  case (conn_closed st ts c)
  show ?case by (rule pool_inv_shrink [OF conn_closed(2)]) (auto simp: conns_of_def)
qed

lemma pool_reach_inv: "pool_reach n s \<Longrightarrow> pool_inv (pool_per_peer n) s"
proof (induction rule: pool_reach.induct)
  case start
  show ?case by (simp add: pool_inv_def pool_default_def conns_of_def dial_locked_def)
next
  case (step s s')
  then show ?case using pool_step_inv [OF step(2)] by (simp add: pool_per_peer_def)
qed

section \<open>What \<^verbatim>\<open>get\<close> answers\<close>

lemma get_begin_cases:
  assumes "get_begin n now k st = (r, st1)" and "n > 0"
  shows "case r of
      GotConn c \<Rightarrow> c \<in> set (conns_of st k) \<and> c \<notin> po_closed st \<and> n \<le> length (conns_of st1 k)
    | GotErr e \<Rightarrow> e = RecentlyUnreachable \<and> conns_of st1 k = [] \<and>
        (\<exists>t. po_failed st k = Some t \<and> now < t + FAILED_DIAL_WINDOW)
    | MustDial \<Rightarrow> length (conns_of st1 k) < n"
proof -
  define live where "live = filter (\<lambda>c. c \<notin> po_closed st) (conns_of st k)"
  have l: "conns_of st1 k = live" using get_begin_conns [OF assms(1), of k] by (simp add: live_def)
  have sub: "live ! i \<in> set (conns_of st k) \<and> live ! i \<notin> po_closed st" if "i < length live" for i
    using nth_mem [OF that] by (auto simp: live_def)
  show ?thesis
  proof (cases "length live \<ge> n")
    case True
    define i where "i = unat (case po_next st k of None \<Rightarrow> 0 | Some x \<Rightarrow> x) mod length live"
    have "i < length live" using True assms(2) unfolding i_def by (intro mod_less_divisor) linarith
    moreover have "r = GotConn (live ! i)"
      using assms(1) True by (auto simp: get_begin_def Let_def live_def i_def split: if_splits)
    ultimately show ?thesis using sub [of i] True l by simp
  next
    case False
    then show ?thesis using assms(1) l
      by (auto simp: get_begin_def Let_def live_def FAILED_DIAL_WINDOW_def split: if_splits option.splits)
  qed
qed

text \<open>A full pool serves its connections in turn: the \<open>i\<close>-th of consecutive answers is \<open>i\<close> places further.\<close>

fun get_times :: "nat \<Rightarrow> nat \<Rightarrow> peer_key \<Rightarrow> nat \<Rightarrow> 'c pool_state \<Rightarrow> 'c get_answer list \<times> 'c pool_state" where
  "get_times n now k 0 st = ([], st)"
| "get_times n now k (Suc i) st = (case get_begin n now k st of (r, st1) \<Rightarrow>
     case get_times n now k i st1 of (rs, st2) \<Rightarrow> (r # rs, st2))"

lemma get_times_full:
  assumes "n > 0" and "n \<le> length (conns_of st k)" and "\<forall>c \<in> set (conns_of st k). c \<notin> po_closed st"
    and "unat (case po_next st k of Some x \<Rightarrow> x | None \<Rightarrow> 0) + i < 2 ^ 64"
  shows "fst (get_times n now k i st) =
    map (\<lambda>j. GotConn (conns_of st k ! ((unat (case po_next st k of Some x \<Rightarrow> x | None \<Rightarrow> 0) + j) mod length (conns_of st k)))) [0..<i]"
  using assms(2-4)
proof (induction i arbitrary: st)
  case (Suc i)
  define x where "x = (case po_next st k of Some x \<Rightarrow> x | None \<Rightarrow> 0)"
  define st1 where "st1 = st\<lparr>po_conns := (po_conns st)(k \<mapsto> conns_of st k), po_next := (po_next st)(k \<mapsto> x + 1)\<rparr>"
  have live: "filter (\<lambda>c. c \<notin> po_closed st) (conns_of st k) = conns_of st k" using Suc.prems by simp
  have g: "get_begin n now k st = (GotConn (conns_of st k ! (unat x mod length (conns_of st k))), st1)"
    using Suc.prems(1) by (simp add: get_begin_def live Let_def x_def st1_def)
  have "unat x + 1 < 2 ^ 64" using Suc.prems(3) by (simp add: x_def)
  then have u: "unat (x + 1) = Suc (unat x)" by (simp add: unat_word_ariths)
  have c: "conns_of st1 k = conns_of st k" "po_next st1 k = Some (x + 1)" by (simp_all add: st1_def conns_of_def)
  have "fst (get_times n now k i st1) =
      map (\<lambda>j. GotConn (conns_of st k ! ((unat (x + 1) + j) mod length (conns_of st k)))) [0..<i]"
    using Suc.IH [of st1] Suc.prems c u by (simp add: x_def st1_def)
  then show ?case unfolding x_def [symmetric]
    by (cases "get_times n now k i st1") (simp add: g u upt_conv_Cons map_Suc_upt [symmetric] comp_def del: upt_Suc)
qed simp

section \<open>Requests\<close>

lemma exchange_reply:
  assumes "append_head_ok ah" and "struct_typed msg_schema (msg_vals m)" and "encode_frame ah m = Ok f"
    and "stream (ss_recv s) = (f @ rest, e)" and "fst (write_msg ah req (ss_send s)) = Ok ()"
  shows "fst (exchange ah None req s) = (if m_typ m = T_ERR then Err (CallRemote (error_from_msg m)) else Ok m)"
proof -
  have "fst (read_msg (ss_recv s)) = Ok m" using read_msg_stream(1) [OF assms(4)] decode_frame(1) [OF assms(1-3)] by simp
  then show ?thesis using assms(5)
    by (cases "write_msg ah req (ss_send s)"; cases "read_msg (ss_recv s)") (auto simp: exchange_def close_write_def Let_def)
qed

lemma pool_call_closes:
  "pool_call ah ended got opened k req st = (res, Some s, st1) \<Longrightarrow> ss_finished s \<and> ss_cancelled s \<and> st1 = st"
  by (auto simp: pool_call_def pool_open_def close_stream_def cancel_read_def close_write_def
      split: outcome.splits prod.splits)

end
