(* ===== verification/Client_State.thy ===== *)
theory Client_State
  imports Pool View_Correct Ticket "HOL-Library.Product_Lexorder"
begin

text \<open>
  \<^verbatim>\<open>crates/client/src/cluster.rs\<close> and \<^verbatim>\<open>rank.rs\<close>: what a client knows of the cluster and how it asks the nodes. The
  state behind the lock is \<open>view_state\<close>, and each of its critical sections is a \<open>state_op\<close>. A request is a
  round trip through \<open>network\<close>, which may answer by everything that was sent before; while the request is under way,
  other tasks change the state by operations of their own, which the network lists. The queries to a placement fill
  its caches, which never changes an answer (\<open>placement_queries_agree\<close>), so the model drops the filled caches.
\<close>

section \<open>Ranking\<close>

definition rtt_class :: "nat \<Rightarrow> int" where
  "rtt_class rtt = (if rtt < 5000000 then 0 else if rtt < 25000000 then 1 else if rtt < 100000000 then 2 else 3)"

definition path_class :: "path_info option \<Rightarrow> int \<times> int" where
  "path_class p = (case p of
     Some p \<Rightarrow> (of_bool (\<not> pi_direct p), rtt_class (pi_rtt p))
   | None \<Rightarrow> (0, 0))"

definition rank_owners :: "node_id list \<Rightarrow> (node_id \<Rightarrow> int) \<Rightarrow> (node_id \<Rightarrow> path_info option) \<Rightarrow> node_id list" where
  "rank_owners ids pen path =
     (let scored = map (\<lambda>(pos, ident). case path_class (path ident) of (relay, class) \<Rightarrow> (pen ident, relay, class, pos, ident))
            (enumerate 0 ids)
      in map (\<lambda>(p, r, c, pos, ident). ident) (sort_key (\<lambda>(p, r, c, pos, ident). (p, r, c, pos)) scored))"

section \<open>Configuration\<close>

definition DEFAULT_CONNS :: nat where "DEFAULT_CONNS = 4"
definition DEFAULT_JOBS :: nat where "DEFAULT_JOBS = 8"
definition DEFAULT_GC_INTERVAL :: nat where "DEFAULT_GC_INTERVAL = 4 * 60 * 60 * 1000000000"
definition DEFAULT_REQUEST_TIMEOUT :: nat where "DEFAULT_REQUEST_TIMEOUT = 2 * 60 * 1000000000"
definition DEFAULT_WATCH_IDLE :: nat where "DEFAULT_WATCH_IDLE = 2 * 60 * 1000000000"
definition DEFAULT_BATCH_BYTES :: nat where "DEFAULT_BATCH_BYTES = 16 * 1048576"
definition MAX_PUT_BATCH :: nat where "MAX_PUT_BATCH = 64 * 1048576"
definition BACKOFF_BASE :: nat where "BACKOFF_BASE = 5000000000"
definition BACKOFF_MAX :: nat where "BACKOFF_MAX = 60000000000"
definition CALL_RETRY_ATTEMPTS :: nat where "CALL_RETRY_ATTEMPTS = 4"
definition ANY_NODE_STALE_RETRIES :: nat where "ANY_NODE_STALE_RETRIES = 4"
definition CODE_STALE_VIEW :: bytes where "CODE_STALE_VIEW = ascii ''stale-view''"
definition T_VIEW :: int where "T_VIEW = 32"
definition T_STATUS :: int where "T_STATUS = 40"
definition T_ADMIN :: int where "T_ADMIN = 41"
definition T_VIEW_REPLY :: int where "T_VIEW_REPLY = 48"
definition T_ADMIN_REPLY :: int where "T_ADMIN_REPLY = 58"

record config =
  cfg_endpoint :: bool
  cfg_ticket :: ticket
  cfg_conns :: nat
  cfg_jobs :: nat
  cfg_gc_interval :: nat
  cfg_request_timeout :: nat
  cfg_batch_bytes :: nat
  cfg_watch_idle :: nat

definition or_default :: "nat \<Rightarrow> nat \<Rightarrow> nat" where
  "or_default n d = (if n = 0 then d else n)"

definition with_defaults :: "config \<Rightarrow> config" where
  "with_defaults cfg =
     cfg\<lparr>cfg_conns := or_default (cfg_conns cfg) DEFAULT_CONNS,
         cfg_jobs := or_default (cfg_jobs cfg) DEFAULT_JOBS,
         cfg_gc_interval := or_default (cfg_gc_interval cfg) DEFAULT_GC_INTERVAL,
         cfg_request_timeout := or_default (cfg_request_timeout cfg) DEFAULT_REQUEST_TIMEOUT,
         cfg_batch_bytes := min (or_default (cfg_batch_bytes cfg) DEFAULT_BATCH_BYTES) MAX_PUT_BATCH,
         cfg_watch_idle := or_default (cfg_watch_idle cfg) DEFAULT_WATCH_IDLE\<rparr>"

section \<open>State\<close>

record view_state =
  vs_view :: "view option"
  vs_placement :: "view_placement option"
  vs_boot_addrs :: "node_id \<rightharpoonup> bytes list"
  vs_boot_order :: "node_id list"
  vs_backoff :: "node_id \<rightharpoonup> nat"
  vs_failures :: "node_id \<rightharpoonup> u64"
  vs_unreach :: "node_id set"

definition view_state_default :: view_state where
  "view_state_default = \<lparr>vs_view = None, vs_placement = None, vs_boot_addrs = Map.empty, vs_boot_order = [],
     vs_backoff = Map.empty, vs_failures = Map.empty, vs_unreach = {}\<rparr>"

definition member_id :: "ticket_member \<Rightarrow> node_id option" where
  "member_id m = (case tm_id m of
     Some ident \<Rightarrow> if length ident = 32 then Some ident else None
   | None \<Rightarrow> None)"

definition addrs_of :: "view_state \<Rightarrow> node_id \<Rightarrow> bytes list" where
  "addrs_of st ident =
     (let boot = (case vs_boot_addrs st ident of Some a \<Rightarrow> a | None \<Rightarrow> []) in
      case vs_view st of
        None \<Rightarrow> boot
      | Some v \<Rightarrow> (case view_node v ident of
          None \<Rightarrow> boot
        | Some nd \<Rightarrow> if nd_addrs nd \<noteq> [] then nd_addrs nd else boot))"

definition backoff_after :: "u64 \<Rightarrow> nat" where
  "backoff_after failures = min (BACKOFF_BASE * 2 ^ min (unat failures - 1) 4) BACKOFF_MAX"

definition adopt :: "blake3 \<Rightarrow> view \<Rightarrow> view_state \<Rightarrow> view_state" where
  "adopt blake3 v st =
     (let new = st\<lparr>vs_placement := Some (placement_new blake3 v), vs_view := Some v\<rparr> in
      case vs_view st of
        None \<Rightarrow> new
      | Some known \<Rightarrow> (case compare_view known (v_incarnation v) (v_epoch v) of
          Greater \<Rightarrow> st
        | Equal \<Rightarrow> if v_version v \<le> v_version known then st else new
        | Less \<Rightarrow> new))"

definition fail_node :: "nat \<Rightarrow> node_id \<Rightarrow> view_state \<Rightarrow> view_state" where
  "fail_node now ident st =
     (let old = (case vs_failures st ident of Some n \<Rightarrow> n | None \<Rightarrow> 0);
          failures = (if old = - 1 then old else old + 1) in
      st\<lparr>vs_failures := (vs_failures st)(ident \<mapsto> failures),
         vs_backoff := (vs_backoff st)(ident \<mapsto> now + backoff_after failures)\<rparr>)"

definition handle_err :: "blake3 \<Rightarrow> nat \<Rightarrow> node_id \<Rightarrow> 'x client_error \<Rightarrow> view_state \<Rightarrow> view_state" where
  "handle_err blake3 now ident err st = (case remote err of
     Some we \<Rightarrow>
       if re_view we \<noteq> [] then (case view_decode (re_view we) of Ok v \<Rightarrow> adopt blake3 v st | _ \<Rightarrow> st) else st
   | None \<Rightarrow> fail_node now ident st)"

definition ok_node :: "node_id \<Rightarrow> view_state \<Rightarrow> view_state" where
  "ok_node ident st =
     st\<lparr>vs_backoff := (vs_backoff st)(ident := None), vs_failures := (vs_failures st)(ident := None),
        vs_unreach := vs_unreach st - {ident}\<rparr>"

definition hints :: "bytes list \<Rightarrow> node_id set" where
  "hints raw = {u \<in> set raw. length u = 32}"

definition adopt_reply :: "blake3 \<Rightarrow> msg \<Rightarrow> view_state \<Rightarrow> ('x client_error, unit) outcome \<times> view_state" where
  "adopt_reply blake3 m st =
     (if m_typ m \<noteq> T_VIEW_REPLY then (Err (UnexpectedReply (m_typ m)), st)
      else case view_decode (m_view m) of
        Err e \<Rightarrow> (Err (ViewErr e), st)
      | Stuck \<Rightarrow> (Stuck, st)
      | Ok v \<Rightarrow> (Ok (), (adopt blake3 v st)\<lparr>vs_unreach := hints (m_unreachable m)\<rparr>))"

definition penalty :: "nat \<Rightarrow> node_id \<Rightarrow> view_state \<Rightarrow> int" where
  "penalty now ident st =
     (if (case vs_backoff st ident of Some until \<Rightarrow> now < until | None \<Rightarrow> False) then 2 else 0) +
     (if ident \<in> vs_unreach st then 1 else 0)"

text \<open>Where preference is asked for: the clock and the paths of the live connections.\<close>

record env =
  env_now :: nat
  env_path :: "node_id \<Rightarrow> path_info option"

definition preferred :: "env \<Rightarrow> view_state \<Rightarrow> node_id list \<Rightarrow> node_id list" where
  "preferred en st ids = rank_owners ids (\<lambda>ident. penalty (env_now en) ident st) (env_path en)"

section \<open>Queries\<close>

text \<open>\<open>None\<close> is a panic of the placement code; without a view the answer is empty.\<close>

definition ask_placement :: "(bytes \<Rightarrow> view_placement \<Rightarrow> node_id list option \<times> view_placement) \<Rightarrow> view_state \<Rightarrow> bytes \<Rightarrow>
    node_id list option" where
  "ask_placement f st key = (case vs_placement st of None \<Rightarrow> Some [] | Some p \<Rightarrow> fst (f key p))"

definition cluster_owners :: "view_state \<Rightarrow> bytes \<Rightarrow> node_id list option" where
  "cluster_owners st key = ask_placement placement_owners st key"

definition cluster_write_set :: "view_state \<Rightarrow> bytes \<Rightarrow> node_id list option" where
  "cluster_write_set st key = ask_placement write_set st key"

definition cluster_primary :: "env \<Rightarrow> view_state \<Rightarrow> bytes \<Rightarrow> node_id option option" where
  "cluster_primary en st key = map_option (\<lambda>ids. case preferred en st ids of [] \<Rightarrow> None | i # is' \<Rightarrow> Some i) (cluster_owners st key)"

definition cluster_read_order :: "env \<Rightarrow> view_state \<Rightarrow> bytes \<Rightarrow> node_id list option" where
  "cluster_read_order en st key = (case vs_placement st of
     None \<Rightarrow> Some []
   | Some p \<Rightarrow> (case fst (read_order key p) of
       None \<Rightarrow> None
     | Some order \<Rightarrow>
         (let r = unat (v_replicas (vp_view p)) in
          Some (if length order \<le> r then preferred en st order else preferred en st (take r order) @ drop r order))))"

definition cluster_nodes :: "view_state \<Rightarrow> node_id list" where
  "cluster_nodes st = (case vs_view st of None \<Rightarrow> [] | Some v \<Rightarrow> map nid (view_nodes v))"

definition all_nodes :: "view_state \<Rightarrow> node_id list" where
  "all_nodes st = (let ids = cluster_nodes st in if ids = [] then vs_boot_order st else ids)"

section \<open>Requests\<close>

definition stamp :: "view_state \<Rightarrow> msg \<Rightarrow> msg" where
  "stamp st m = (case vs_view st of
     None \<Rightarrow> m
   | Some v \<Rightarrow> m\<lparr>m_cluster_id := or_empty (v_cluster_id v), m_incarnation := v_incarnation v, m_epoch := v_epoch v\<rparr>)"

text \<open>What other tasks can do to the state.\<close>

datatype state_op = OpAdopt view | OpHints "node_id set" | OpFail nat node_id | OpOk node_id

fun apply_op :: "blake3 \<Rightarrow> state_op \<Rightarrow> view_state \<Rightarrow> view_state" where
  "apply_op blake3 (OpAdopt v) st = adopt blake3 v st"
| "apply_op blake3 (OpHints h) st = st\<lparr>vs_unreach := h\<rparr>"
| "apply_op blake3 (OpFail now ident) st = fail_node now ident st"
| "apply_op blake3 (OpOk ident) st = ok_node ident st"

definition apply_ops :: "blake3 \<Rightarrow> state_op list \<Rightarrow> view_state \<Rightarrow> view_state" where
  "apply_ops blake3 ops st = fold (apply_op blake3) ops st"

record net_event =
  ne_others :: "state_op list"
  ne_now :: nat
  ne_result :: "call_error + msg"

type_synonym network = "(node_id \<times> msg) list \<Rightarrow> net_event"

record world =
  wd_state :: view_state
  wd_sent :: "(node_id \<times> msg) list"
  wd_refreshes :: nat

type_synonym 'x reply = "('x client_error, msg) outcome"

definition cluster_call :: "blake3 \<Rightarrow> network \<Rightarrow> node_id \<Rightarrow> msg \<Rightarrow> world \<Rightarrow> 'x reply \<times> msg \<times> world" where
  "cluster_call blake3 net ident m w =
     (let m1 = stamp (wd_state w) m;
          sent = wd_sent w @ [(ident, m1)];
          ev = net sent;
          st = apply_ops blake3 (ne_others ev) (wd_state w) in
      case ne_result ev of
        Inl e \<Rightarrow>
          (let err = from_call_error e in
           (Err err, m1, w\<lparr>wd_state := handle_err blake3 (ne_now ev) ident err st, wd_sent := sent\<rparr>))
      | Inr resp \<Rightarrow>
          (let st1 = ok_node ident st;
               behind = (m_epoch resp > 0 \<or> m_incarnation resp > 0) \<and>
                 (case vs_view st1 of None \<Rightarrow> False | Some v \<Rightarrow> compare_view v (m_incarnation resp) (m_epoch resp) = Less) in
           (Ok resp, m1, w\<lparr>wd_state := st1, wd_sent := sent, wd_refreshes := wd_refreshes w + of_bool behind\<rparr>)))"

definition is_stale :: "'x reply \<Rightarrow> bool" where
  "is_stale res = (case res of Err e \<Rightarrow> has_code e CODE_STALE_VIEW | _ \<Rightarrow> False)"

text \<open>One call and up to \<open>n\<close> more while the node says that the view is stale.\<close>

fun call_again :: "nat \<Rightarrow> blake3 \<Rightarrow> network \<Rightarrow> node_id \<Rightarrow> msg \<Rightarrow> world \<Rightarrow> 'x reply \<times> msg \<times> world" where
  "call_again 0 blake3 net ident m w = cluster_call blake3 net ident m w"
| "call_again (Suc n) blake3 net ident m w = (case cluster_call blake3 net ident m w of
     (res, m1, w1) \<Rightarrow> if is_stale res then call_again n blake3 net ident m1 w1 else (res, m1, w1))"

definition call_retry :: "blake3 \<Rightarrow> network \<Rightarrow> node_id \<Rightarrow> msg \<Rightarrow> world \<Rightarrow> 'x reply \<times> msg \<times> world" where
  "call_retry blake3 net ident m w = call_again (CALL_RETRY_ATTEMPTS - 1) blake3 net ident m w"

fun any_loop :: "blake3 \<Rightarrow> network \<Rightarrow> node_id list \<Rightarrow> msg \<Rightarrow> 'x client_error option \<Rightarrow> world \<Rightarrow> 'x reply \<times> msg \<times> world" where
  "any_loop blake3 net [] m last_err w = (Err (case last_err of Some e \<Rightarrow> e | None \<Rightarrow> NoNodes), m, w)"
| "any_loop blake3 net (ident # ids) m last_err w =
     (case call_again ANY_NODE_STALE_RETRIES blake3 net ident m w of
        (Ok resp, m1, w1) \<Rightarrow> (Ok resp, m1, w1)
      | (Stuck, m1, w1) \<Rightarrow> (Stuck, m1, w1)
      | (Err e, m1, w1) \<Rightarrow>
          if remote e \<noteq> None then (Err e, m1, w1) else any_loop blake3 net ids m1 (Some e) w1)"

definition any_node :: "blake3 \<Rightarrow> network \<Rightarrow> env \<Rightarrow> msg \<Rightarrow> world \<Rightarrow> 'x reply \<times> msg \<times> world" where
  "any_node blake3 net en m w =
     any_loop blake3 net (preferred en (wd_state w) (all_nodes (wd_state w))) m None w"

definition refresh_view :: "blake3 \<Rightarrow> network \<Rightarrow> env \<Rightarrow> world \<Rightarrow> ('x client_error, unit) outcome \<times> world" where
  "refresh_view blake3 net en w = (case any_node blake3 net en (msg_default\<lparr>m_typ := T_VIEW\<rparr>) w of
     (Ok resp, m1, w1) \<Rightarrow> (case adopt_reply blake3 resp (wd_state w1) of (res, st) \<Rightarrow> (res, w1\<lparr>wd_state := st\<rparr>))
   | (Err e, m1, w1) \<Rightarrow> (Err e, w1)
   | (Stuck, m1, w1) \<Rightarrow> (Stuck, w1))"

definition cluster_status :: "blake3 \<Rightarrow> network \<Rightarrow> node_id \<Rightarrow> world \<Rightarrow> ('x client_error, bytes) outcome \<times> world" where
  "cluster_status blake3 net ident w = (case cluster_call blake3 net ident (msg_default\<lparr>m_typ := T_STATUS\<rparr>) w of
     (res, m1, w1) \<Rightarrow> (obind res (\<lambda>resp. Ok (m_status resp)), w1))"

definition admin :: "blake3 \<Rightarrow> append_head \<Rightarrow> network \<Rightarrow> env \<Rightarrow> node_id option \<Rightarrow> admin_request \<Rightarrow> world \<Rightarrow>
    ('x client_error, bytes) outcome \<times> world" where
  "admin blake3 ah net en target req w =
     (let m = msg_default\<lparr>m_typ := T_ADMIN, m_params := marshal ah admin_request_schema (admin_request_vals req)\<rparr> in
      case (case target of
          Some ident \<Rightarrow> if ident \<noteq> replicate 32 0 then cluster_call blake3 net ident m w else any_node blake3 net en m w
        | None \<Rightarrow> any_node blake3 net en m w) of
        (res, m1, w1) \<Rightarrow>
          (obind res (\<lambda>resp. if m_typ resp \<noteq> T_ADMIN_REPLY then Err (UnexpectedReply (m_typ resp)) else Ok (m_status resp)), w1))"

text \<open>The probes run at the same time; \<open>order\<close> is the order in which they are sent and answered.\<close>

definition probe_hinted :: "blake3 \<Rightarrow> network \<Rightarrow> node_id list \<Rightarrow> world \<Rightarrow> world" where
  "probe_hinted blake3 net order w = fold (\<lambda>ident w.
     case cluster_call blake3 net ident (msg_default\<lparr>m_typ := T_VIEW\<rparr>) w :: unit reply \<times> msg \<times> world of (res, m1, w1) \<Rightarrow> w1)
     order w"

section \<open>Bootstrap\<close>

fun boot_members :: "ticket_member list \<Rightarrow> view_state \<Rightarrow> node_id list \<Rightarrow> view_state \<times> node_id list" where
  "boot_members [] st members = (st, members)"
| "boot_members (m # ms) st members = (case member_id m of
     None \<Rightarrow> boot_members ms st members
   | Some ident \<Rightarrow>
       boot_members ms
         (st\<lparr>vs_boot_addrs := (vs_boot_addrs st)(ident \<mapsto> tm_addrs m),
             vs_boot_order := (if vs_boot_addrs st ident = None then vs_boot_order st @ [ident] else vs_boot_order st)\<rparr>)
         (members @ [ident]))"

text \<open>The members in turn, with the first request of each; nothing else runs yet.\<close>

fun dial_loop :: "blake3 \<Rightarrow> network \<Rightarrow> node_id list \<Rightarrow> 'x client_error option \<Rightarrow> world \<Rightarrow>
    ('x client_error, unit) outcome \<times> world" where
  "dial_loop blake3 net [] last_err w = (Err (NoBootstrap (case last_err of Some e \<Rightarrow> e | None \<Rightarrow> TicketNamesNoNodes)), w)"
| "dial_loop blake3 net (ident # ids) last_err w =
     (let sent = wd_sent w @ [(ident, msg_default\<lparr>m_typ := T_VIEW\<rparr>)]; w1 = w\<lparr>wd_sent := sent\<rparr> in
      case ne_result (net sent) of
        Inl e \<Rightarrow> dial_loop blake3 net ids (Some (from_call_error e)) w1
      | Inr resp \<Rightarrow> (case adopt_reply blake3 resp (wd_state w1) of
          (Ok _, st) \<Rightarrow> (Ok (), w1\<lparr>wd_state := st\<rparr>)
        | (Err e, st) \<Rightarrow> dial_loop blake3 net ids (Some e) (w1\<lparr>wd_state := st\<rparr>)
        | (Stuck, st) \<Rightarrow> (Stuck, w1\<lparr>wd_state := st\<rparr>)))"

definition dial :: "blake3 \<Rightarrow> network \<Rightarrow> config \<Rightarrow> ('x client_error, config) outcome \<times> world" where
  "dial blake3 net cfg0 =
     (let w0 = \<lparr>wd_state = view_state_default, wd_sent = [], wd_refreshes = 0\<rparr> in
      if \<not> cfg_endpoint cfg0 then (Err NoEndpoint, w0)
      else
        let cfg = with_defaults cfg0 in
        case boot_members (ticket_members (cfg_ticket cfg)) view_state_default [] of (st, members) \<Rightarrow>
          case dial_loop blake3 net members None (w0\<lparr>wd_state := st\<rparr>) of
            (res, w) \<Rightarrow> (obind res (\<lambda>_. Ok cfg), w))"

end
