(* ===== verification/Client_Correct.thy ===== *)
theory Client_Correct
  imports Client_State "HOL-Library.Multiset"
begin

text \<open>
  What a client's knowledge and its requests guarantee. \<open>state_guard\<close> is the contract of a relation that every
  critical section of the state keeps; inside it, every request keeps the relation too, whatever other tasks do
  meanwhile. The order of views and the invariant of the bookkeeping interpret it.
\<close>

section \<open>Ranking\<close>

text \<open>The reference: a stable sort by penalty, relay and round-trip class.\<close>

definition rank_key :: "(node_id \<Rightarrow> int) \<Rightarrow> (node_id \<Rightarrow> path_info option) \<Rightarrow> node_id \<Rightarrow> int \<times> int \<times> int" where
  "rank_key pen path ident = (pen ident, path_class (path ident))"

lemma insort_key_map: "insort_key f (g x) (map g ys) = map g (insort_key (\<lambda>y. f (g y)) x ys)"
  by (induction ys) auto

lemma sort_key_map: "sort_key f (map g xs) = map g (sort_key (\<lambda>x. f (g x)) xs)"
  by (induction xs) (auto simp: insort_key_map)

lemma insort_enumerate:
  fixes pen :: "'a \<Rightarrow> int" and c :: "'a \<Rightarrow> int \<times> int" and n :: nat
  assumes "\<forall>p \<in> set ys. n < fst p"
  shows "map snd (insort_key (\<lambda>(pos, x). (pen x, fst (c x), snd (c x), pos)) (n, x) ys) =
    insort_key (\<lambda>x. (pen x, c x)) x (map snd ys)"
  using assms
proof (induction ys)
  case (Cons p ys)
  obtain q y where p: "p = (q, y)" by (cases p)
  have "(pen x, fst (c x), snd (c x), n) \<le> (pen y, fst (c y), snd (c y), q) \<longleftrightarrow> (pen x, c x) \<le> (pen y, c y)"
    using Cons.prems by (cases "c x"; cases "c y") (auto simp: p)
  then show ?case using Cons by (simp add: p)
qed simp

lemma sort_enumerate:
  fixes pen :: "'a \<Rightarrow> int" and c :: "'a \<Rightarrow> int \<times> int"
  shows "map snd (sort_key (\<lambda>(pos, x). (pen x, fst (c x), snd (c x), pos)) (enumerate n xs)) = sort_key (\<lambda>x. (pen x, c x)) xs"
proof (induction xs arbitrary: n)
  case (Cons x xs)
  have "\<forall>p \<in> set (sort_key (\<lambda>(pos, x). (pen x, fst (c x), snd (c x), pos)) (enumerate (Suc n) xs)). n < fst p"
    by (auto simp: in_set_enumerate_eq)
  from insort_enumerate [OF this, of pen c x] Cons show ?case by simp
qed simp

lemma rank_owners_stable: "rank_owners ids pen path = sort_key (rank_key pen path) ids"
proof -
  have "rank_owners ids pen path =
      map snd (sort_key (\<lambda>(pos, x). (pen x, fst (path_class (path x)), snd (path_class (path x)), pos)) (enumerate 0 ids))"
    by (simp add: rank_owners_def Let_def sort_key_map case_prod_unfold comp_def)
  then show ?thesis by (simp add: sort_enumerate rank_key_def [abs_def])
qed

lemma rank_owners_perm: "mset (rank_owners ids pen path) = mset ids"
  by (simp add: rank_owners_stable)

lemma rank_owners_set [simp]: "set (rank_owners ids pen path) = set ids"
  by (simp add: rank_owners_stable)

lemma preferred_simps [simp]: "set (preferred en st ids) = set ids" "length (preferred en st ids) = length ids"
  by (simp_all add: preferred_def rank_owners_stable)

section \<open>The order of views\<close>

definition view_key :: "view \<Rightarrow> u64 \<times> u64 \<times> u64" where
  "view_key v = (v_incarnation v, v_epoch v, v_version v)"

fun view_le :: "view option \<Rightarrow> view option \<Rightarrow> bool" where
  "view_le None b = True"
| "view_le (Some a) (Some b) = (view_key a \<le> view_key b)"
| "view_le (Some a) None = False"

lemma view_le_refl: "view_le a a"
  by (cases a) simp_all

lemma view_le_trans: "view_le a b \<Longrightarrow> view_le b c \<Longrightarrow> view_le a c"
  by (cases a; cases b; cases c) auto

lemma adopt_max:
  "adopt b v st = (case vs_view st of
     Some known \<Rightarrow> if view_key v \<le> view_key known then st
       else st\<lparr>vs_placement := Some (placement_new b v), vs_view := Some v\<rparr>
   | None \<Rightarrow> st\<lparr>vs_placement := Some (placement_new b v), vs_view := Some v\<rparr>)"
  by (auto simp: adopt_def view_key_def compare_view_def cmp_def Let_def split: option.splits)

lemma adopt_le: "view_le (vs_view st) (vs_view (adopt b v st))"
  by (auto simp: adopt_max view_le_refl split: option.splits)

section \<open>Relations that every change of the state keeps\<close>

locale state_guard =
  fixes b :: blake3 and R :: "view_state \<Rightarrow> view_state \<Rightarrow> bool"
  assumes refl: "R st st"
    and trans: "R s t \<Longrightarrow> R t u \<Longrightarrow> R s u"
    and op: "R st (apply_op b c st)"
begin

lemma ops: "R st (apply_ops b cs st)"
proof (induction cs arbitrary: st)
  case (Cons c cs)
  show ?case using trans [OF op [of st c] Cons] by (simp add: apply_ops_def)
qed (simp add: apply_ops_def refl)

lemma handle_err: "R st (handle_err b now i e st)"
  using op [of st "OpAdopt _"] op [of st "OpFail now i"] refl
  by (auto simp: handle_err_def split: option.splits outcome.splits)

lemma adopt_reply: "R st (snd (adopt_reply b m st :: ('x client_error, unit) outcome \<times> view_state))"
proof -
  have "R st ((adopt b v st)\<lparr>vs_unreach := h\<rparr>)" for v h
    using trans [OF op [of st "OpAdopt v"] op [of _ "OpHints h"]] by simp
  then show ?thesis by (auto simp: adopt_reply_def refl split: outcome.splits)
qed

lemma call: "R (wd_state w) (wd_state (snd (snd (cluster_call b net i m w :: 'x reply \<times> msg \<times> world))))"
  using trans [OF ops handle_err] trans [OF ops op [of _ "OpOk i"]]
  by (auto simp: cluster_call_def Let_def split: sum.split)

lemma call_again: "R (wd_state w) (wd_state (snd (snd (call_again n b net i m w :: 'x reply \<times> msg \<times> world))))"
proof (induction n arbitrary: m w)
  case (Suc n)
  obtain res m1 w1 where c: "(cluster_call b net i m w :: 'x reply \<times> msg \<times> world) = (res, m1, w1)" by (metis prod_cases3)
  have "R (wd_state w) (wd_state w1)" using call [where 'x = 'x, of w net i m] by (simp add: c)
  then show ?case using trans [OF _ Suc] by (simp add: c)
qed (simp add: call)

lemma any_loop: "R (wd_state w) (wd_state (snd (snd (any_loop b net ids m l w :: 'x reply \<times> msg \<times> world))))"
proof (induction ids arbitrary: m l w)
  case (Cons i ids)
  obtain res m1 w1 where c: "(call_again ANY_NODE_STALE_RETRIES b net i m w :: 'x reply \<times> msg \<times> world) = (res, m1, w1)"
    by (metis prod_cases3)
  have "R (wd_state w) (wd_state w1)" using call_again [where 'x = 'x, of w ANY_NODE_STALE_RETRIES net i m] by (simp add: c)
  then show ?case using trans [OF _ Cons] by (auto simp: c split: outcome.splits)
qed (simp add: refl)

lemma any_node: "R (wd_state w) (wd_state (snd (snd (any_node b net en m w :: 'x reply \<times> msg \<times> world))))"
  unfolding any_node_def by (rule any_loop)

lemma refresh: "R (wd_state w) (wd_state (snd (refresh_view b net en w :: ('x client_error, unit) outcome \<times> world)))"
proof -
  let ?m = "msg_default\<lparr>m_typ := T_VIEW\<rparr>"
  obtain res m1 w1 where c: "(any_node b net en ?m w :: 'x reply \<times> msg \<times> world) = (res, m1, w1)"
    by (metis prod_cases3)
  have "R (wd_state w) (wd_state w1)" using any_node [where 'x = 'x, of w net en ?m] by (simp add: c)
  then have "R (wd_state w) (snd (adopt_reply b r (wd_state w1) :: ('x client_error, unit) outcome \<times> view_state))" for r
    using trans [OF _ adopt_reply] by blast
  with \<open>R (wd_state w) (wd_state w1)\<close> show ?thesis by (simp add: refresh_view_def c split: outcome.splits prod.splits) (metis snd_conv)
qed

end

interpretation views: state_guard b "\<lambda>s t. view_le (vs_view s) (vs_view t)" for b
proof
  fix st c
  show "view_le (vs_view st) (vs_view (apply_op b c st))"
    by (cases c) (simp_all add: adopt_le view_le_refl fail_node_def ok_node_def Let_def)
qed (auto simp: view_le_refl intro: view_le_trans)

section \<open>The bookkeeping\<close>

text \<open>The placement is that of the view, and exactly the nodes that failed since they last answered are in backoff.\<close>

definition state_ok :: "blake3 \<Rightarrow> view_state \<Rightarrow> bool" where
  "state_ok b st \<longleftrightarrow> vs_placement st = map_option (placement_new b) (vs_view st) \<and>
     dom (vs_backoff st) = dom (vs_failures st) \<and> (\<forall>i. vs_failures st i \<noteq> Some 0)"

lemma apply_op_ok: "state_ok b st \<Longrightarrow> state_ok b (apply_op b c st)"
proof (cases c)
  case (OpFail now i)
  assume "state_ok b st"
  then show ?thesis by (auto simp: OpFail state_ok_def fail_node_def Let_def eq_neg_iff_add_eq_0)
qed (auto simp: state_ok_def adopt_max ok_node_def split: option.splits)

interpretation books: state_guard b "\<lambda>s t. state_ok b s \<longrightarrow> state_ok b t" for b
  by unfold_locales (auto simp: apply_op_ok)

lemma backoff_after_bounds: "5000000000 \<le> backoff_after n \<and> backoff_after n \<le> 60000000000"
  by (simp add: backoff_after_def BACKOFF_BASE_def BACKOFF_MAX_def)

lemma backoff_after_mono: "m \<le> n \<Longrightarrow> backoff_after m \<le> backoff_after n"
  unfolding backoff_after_def word_le_nat_alt
  by (intro min.mono mult_le_mono2 power_increasing) auto

section \<open>Views arrive in any order\<close>

definition adopted :: "state_op list \<Rightarrow> view list" where
  "adopted cs = concat (map (\<lambda>c. case c of OpAdopt v \<Rightarrow> [v] | _ \<Rightarrow> []) cs)"

text \<open>
  The view to hold after the views \<open>vs\<close> arrived in this order: the first of the newest ones. Those before it are older, and none
  after it is newer; a later view of the same incarnation, epoch and version does not replace it.
\<close>

definition first_newest :: "view list \<Rightarrow> view option \<Rightarrow> bool" where
  "first_newest vs v = (case v of
     None \<Rightarrow> vs = []
   | Some x \<Rightarrow> \<exists>us ws. vs = us @ x # ws \<and> (\<forall>u \<in> set us. view_key u < view_key x) \<and> (\<forall>w \<in> set ws. view_key w \<le> view_key x))"

lemma first_newestI:
  "\<lbrakk>\<forall>u \<in> set us. view_key u < view_key x; \<forall>w \<in> set ws. view_key w \<le> view_key x\<rbrakk> \<Longrightarrow> first_newest (us @ x # ws) (Some x)"
  unfolding first_newest_def option.case by blast

lemma first_newest_adopt: "first_newest vs (vs_view st) \<Longrightarrow> first_newest (vs @ [v]) (vs_view (adopt b v st))"
proof (cases "vs_view st")
  case None
  assume "first_newest vs (vs_view st)"
  then show ?thesis using first_newestI [of "[]" v "[]"] None by (simp add: adopt_max first_newest_def)
next
  case (Some x)
  assume "first_newest vs (vs_view st)"
  then obtain us ws where vs: "vs = us @ x # ws" "\<forall>u \<in> set us. view_key u < view_key x" "\<forall>w \<in> set ws. view_key w \<le> view_key x"
    by (auto simp: first_newest_def Some)
  show ?thesis
  proof (cases "view_key v \<le> view_key x")
    case True
    then show ?thesis using first_newestI [of us x "ws @ [v]"] vs by (simp add: adopt_max Some)
  next
    case False
    then have "\<forall>u \<in> set vs. view_key u < view_key v" using vs by auto
    then show ?thesis using first_newestI [of vs v "[]"] False by (simp add: adopt_max Some)
  qed
qed

lemma first_newest_ops: "first_newest vs (vs_view st) \<Longrightarrow> first_newest (vs @ adopted cs) (vs_view (apply_ops b cs st))"
proof (induction cs arbitrary: vs st)
  case (Cons c cs)
  have "first_newest (vs @ adopted [c]) (vs_view (apply_op b c st))"
    using Cons.prems first_newest_adopt [OF Cons.prems]
    by (cases c) (simp_all add: adopted_def fail_node_def ok_node_def Let_def)
  from Cons.IH [OF this] show ?case by (simp add: apply_ops_def adopted_def)
qed (simp add: apply_ops_def adopted_def)

section \<open>Requests and their transcript\<close>

definition reply_of :: "network \<Rightarrow> (node_id \<times> msg) list \<Rightarrow> 'x reply" where
  "reply_of net sent = (case ne_result (net sent) of Inl e \<Rightarrow> Err (from_call_error e) | Inr r \<Rightarrow> Ok r)"

definition unstamp :: "msg \<Rightarrow> msg" where
  "unstamp m = m\<lparr>m_cluster_id := [], m_incarnation := 0, m_epoch := 0\<rparr>"

lemma unstamp_stamp [simp]: "unstamp (stamp st m) = unstamp m"
  by (simp add: stamp_def unstamp_def split: option.split)

lemma reply_not_stuck [simp]: "reply_of net sent \<noteq> Stuck"
  by (simp add: reply_of_def split: sum.split)

lemma call_sends:
  fixes res :: "'x reply"
  assumes "cluster_call b net i m w = (res, m1, w1)"
  shows "m1 = stamp (wd_state w) m \<and> wd_sent w1 = wd_sent w @ [(i, m1)] \<and> res = reply_of net (wd_sent w1)"
  using assms by (auto simp: cluster_call_def reply_of_def Let_def split: sum.splits)

text \<open>A block of calls to one node: all but the last were answered with a stale view.\<close>

definition block :: "network \<Rightarrow> (node_id \<times> msg) list \<Rightarrow> node_id \<Rightarrow> msg \<Rightarrow> nat \<Rightarrow> (node_id \<times> msg) list \<Rightarrow> bool" where
  "block net sent i m n calls \<longleftrightarrow> 0 < length calls \<and> length calls \<le> n \<and>
     (\<forall>c \<in> set calls. fst c = i \<and> unstamp (snd c) = unstamp m) \<and>
     (\<forall>k. 0 < k \<longrightarrow> k < length calls \<longrightarrow> is_stale (reply_of net (sent @ take k calls) :: unit reply))"

lemma is_stale_reply: "is_stale (reply_of net s :: 'x reply) = is_stale (reply_of net s :: unit reply)"
proof -
  have "remote (from_call_error e :: 'x client_error) = remote (from_call_error e :: unit client_error)" for e
    by (cases e) simp_all
  then show ?thesis by (simp add: is_stale_def reply_of_def has_code_def split: sum.split)
qed

lemma block_Cons:
  assumes "block net (sent @ [c]) i mm n calls" and "fst c = i" and "unstamp (snd c) = unstamp m" and "unstamp mm = unstamp m"
    and "is_stale (reply_of net (sent @ [c]) :: unit reply)"
  shows "block net sent i m (Suc n) (c # calls)"
  unfolding block_def
proof (intro conjI allI impI)
  fix k assume k: "0 < k" "k < length (c # calls)"
  show "is_stale (reply_of net (sent @ take k (c # calls)) :: unit reply)"
  proof (cases "k = 1")
    case False
    then obtain k' where "k = Suc k'" "0 < k'" using k(1) by (cases k) auto
    then show ?thesis using assms(1) k(2) by (simp add: block_def)
  qed (use assms(5) in simp)
qed (use assms in \<open>auto simp: block_def\<close>)

lemma call_again_sends:
  fixes res :: "'x reply"
  assumes "call_again n b net i m w = (res, m1, w1)"
  shows "\<exists>calls. block net (wd_sent w) i m (Suc n) calls \<and> wd_sent w1 = wd_sent w @ calls \<and> unstamp m1 = unstamp m \<and>
    res = reply_of net (wd_sent w1) \<and> (is_stale res \<longrightarrow> length calls = Suc n)"
  using assms
proof (induction n arbitrary: m w)
  case 0
  from call_sends [OF 0 [simplified]] show ?case by (intro exI [of _ "[(i, m1)]"]) (auto simp: block_def)
next
  case (Suc n)
  obtain res0 m0 w0 where c: "(cluster_call b net i m w :: 'x reply \<times> msg \<times> world) = (res0, m0, w0)" by (metis prod_cases3)
  note s = call_sends [OF c]
  show ?case
  proof (cases "is_stale res0")
    case True
    then have "call_again n b net i m0 w0 = (res, m1, w1)" using Suc.prems by (simp add: c)
    from Suc.IH [OF this] obtain calls where k: "block net (wd_sent w0) i m0 (Suc n) calls" "wd_sent w1 = wd_sent w0 @ calls"
      "unstamp m1 = unstamp m0" "res = reply_of net (wd_sent w1)" "is_stale res \<longrightarrow> length calls = Suc n" by blast
    have "block net (wd_sent w) i m (Suc (Suc n)) ((i, m0) # calls)"
      using s k(1) True is_stale_reply [where 'x = 'x, of net "wd_sent w0"]
      by (intro block_Cons [where mm = m0]) auto
    then show ?thesis using k s by (intro exI [of _ "(i, m0) # calls"]) auto
  next
    case False
    then show ?thesis using Suc.prems s by (intro exI [of _ "[(i, m0)]"]) (auto simp: c block_def)
  qed
qed

text \<open>
  A run of \<^verbatim>\<open>any_node\<close> over \<open>ids\<close>: one block per node in that order. Every block but the last ended in a failure that no node
  answered; the run stops at an answer, and fails without an answer only after every node.
\<close>

fun asked :: "network \<Rightarrow> msg \<Rightarrow> node_id list \<Rightarrow> (node_id \<times> msg) list \<Rightarrow> (node_id \<times> msg) list list \<Rightarrow> bool" where
  "asked net m ids sent [] = True"
| "asked net m [] sent (c # cs) = False"
| "asked net m (i # ids) sent (c # cs) \<longleftrightarrow> block net sent i m (Suc ANY_NODE_STALE_RETRIES) c \<and>
     (cs \<noteq> [] \<longrightarrow> (\<exists>e. reply_of net (sent @ c) = (Err e :: unit reply) \<and> remote e = None)) \<and> asked net m ids (sent @ c) cs"

lemma remote_reply: "(\<exists>e. reply_of net s = (Err e :: 'x reply) \<and> remote e = None) \<longleftrightarrow>
    (\<exists>e. reply_of net s = (Err e :: unit reply) \<and> remote e = None)"
proof -
  have "remote (from_call_error e :: 'x client_error) = remote (from_call_error e :: unit client_error)" for e
    by (cases e) simp_all
  then show ?thesis by (simp add: reply_of_def split: sum.split)
qed

lemma asked_cong: "unstamp m = unstamp m' \<Longrightarrow> asked net m ids sent cs = asked net m' ids sent cs"
  by (induction net m ids sent cs rule: asked.induct) (simp_all add: block_def)

definition answer_ok :: "network \<Rightarrow> node_id list \<Rightarrow> (node_id \<times> msg) list list \<Rightarrow> (node_id \<times> msg) list \<Rightarrow> 'x client_error \<Rightarrow>
    'x reply \<Rightarrow> bool" where
  "answer_ok net ids cs sent none res =
     (if cs = [] then ids = [] \<and> res = Err none
      else res = reply_of net sent \<and> ((\<exists>e. res = Err e \<and> remote e = None) \<longrightarrow> length cs = length ids))"

lemma any_loop_sends:
  fixes res :: "'x reply"
  assumes "any_loop b net ids m l w = (res, m1, w1)"
  shows "\<exists>cs. asked net m ids (wd_sent w) cs \<and> wd_sent w1 = wd_sent w @ concat cs \<and>
    answer_ok net ids cs (wd_sent w1) (case l of Some e \<Rightarrow> e | None \<Rightarrow> NoNodes) res"
  using assms
proof (induction ids arbitrary: m l w)
  case Nil
  then show ?case by (intro exI [of _ "[]"]) (auto simp: answer_ok_def)
next
  case (Cons i ids)
  obtain r0 m0 w0 where c: "(call_again ANY_NODE_STALE_RETRIES b net i m w :: 'x reply \<times> msg \<times> world) = (r0, m0, w0)"
    by (metis prod_cases3)
  from call_again_sends [OF c] obtain calls where k: "block net (wd_sent w) i m (Suc ANY_NODE_STALE_RETRIES) calls"
    "wd_sent w0 = wd_sent w @ calls" "unstamp m0 = unstamp m" "r0 = reply_of net (wd_sent w0)" by blast
  show ?case
  proof (cases "\<exists>e. r0 = Err e \<and> remote e = None")
    case True
    then obtain e where e: "r0 = Err e" "remote e = None" by blast
    then have "any_loop b net ids m0 (Some e) w0 = (res, m1, w1)" using Cons.prems by (simp add: c)
    from Cons.IH [OF this] obtain cs where r: "asked net m0 ids (wd_sent w0) cs" "wd_sent w1 = wd_sent w0 @ concat cs"
      "answer_ok net ids cs (wd_sent w1) e res" by auto
    have "asked net m (i # ids) (wd_sent w) (calls # cs)"
      using k r(1) remote_reply [where 'x = 'x, of net "wd_sent w0"] True asked_cong [OF k(3)] by simp
    moreover have "answer_ok net (i # ids) (calls # cs) (wd_sent w1) (case l of Some e \<Rightarrow> e | None \<Rightarrow> NoNodes) res"
      using r(2,3) k(4) e by (auto simp: answer_ok_def split: if_splits)
    ultimately show ?thesis using r(2) k(2) by (intro exI [of _ "calls # cs"]) simp
  next
    case False
    then have "res = r0" "w1 = w0" using Cons.prems k(4) by (auto simp: c split: outcome.splits if_splits)
    then show ?thesis using False k by (intro exI [of _ "[calls]"]) (auto simp: answer_ok_def)
  qed
qed

lemma asked_length: "asked net m ids sent cs \<Longrightarrow> length cs \<le> length ids \<and> length (concat cs) \<le> Suc ANY_NODE_STALE_RETRIES * length cs"
  by (induction net m ids sent cs rule: asked.induct) (auto simp: block_def)

lemma asked_unstamp: "asked net m ids sent cs \<Longrightarrow> c \<in> set (concat cs) \<Longrightarrow> unstamp (snd c) = unstamp m \<and> fst c \<in> set ids"
  by (induction net m ids sent cs rule: asked.induct) (auto simp: block_def)

lemma any_node_sends:
  fixes res :: "'x reply"
  assumes "any_node b net en m w = (res, m1, w1)"
  shows "\<exists>cs. asked net m (preferred en (wd_state w) (all_nodes (wd_state w))) (wd_sent w) cs \<and>
    wd_sent w1 = wd_sent w @ concat cs \<and>
    answer_ok net (preferred en (wd_state w) (all_nodes (wd_state w))) cs (wd_sent w1) NoNodes res"
  using any_loop_sends [OF assms [unfolded any_node_def]] by simp

section \<open>Runs\<close>

lemma with_defaults_bounds:
  "0 < cfg_conns (with_defaults c)" "0 < cfg_jobs (with_defaults c)" "0 < cfg_request_timeout (with_defaults c)"
  "0 < cfg_batch_bytes (with_defaults c)" "cfg_batch_bytes (with_defaults c) \<le> MAX_PUT_BATCH"
  by (simp_all add: with_defaults_def or_default_def DEFAULT_CONNS_def DEFAULT_JOBS_def DEFAULT_REQUEST_TIMEOUT_def
      DEFAULT_BATCH_BYTES_def MAX_PUT_BATCH_def)

text \<open>The first occurrence of an id fixes its place; the last one fixes its addresses.\<close>

lemma boot_members_ok:
  assumes "boot_members ms st members = (st1, members1)" and "vs_view st = None" and "state_ok b st"
    and "distinct (vs_boot_order st)" and "set (vs_boot_order st) = dom (vs_boot_addrs st)"
  shows "vs_view st1 = None \<and> state_ok b st1 \<and> distinct (vs_boot_order st1) \<and> set (vs_boot_order st1) = dom (vs_boot_addrs st1)"
  using assms
proof (induction ms arbitrary: st members)
  case (Cons m ms)
  show ?case
  proof (cases "member_id m")
    case None
    then show ?thesis using Cons by simp
  next
    case (Some i)
    show ?thesis
      by (rule Cons.IH [OF Cons.prems(1) [simplified Some boot_members.simps option.case]])
         (use Cons.prems in \<open>auto simp: state_ok_def split: if_splits\<close>)
  qed
qed simp

lemma dial_loop_ok:
  fixes res :: "('x client_error, unit) outcome"
  assumes "dial_loop b net ids l w = (res, w1)" and "state_ok b (wd_state w)"
  shows "state_ok b (wd_state w1) \<and> (res = Ok () \<longrightarrow> vs_view (wd_state w1) \<noteq> None)"
  using assms
proof (induction ids arbitrary: l w)
  case (Cons i ids)
  define sent where "sent = wd_sent w @ [(i, msg_default\<lparr>m_typ := T_VIEW\<rparr>)]"
  show ?case
  proof (cases "ne_result (net sent)")
    case (Inl e)
    then have "dial_loop b net ids (Some (from_call_error e)) (w\<lparr>wd_sent := sent\<rparr>) = (res, w1)"
      using Cons.prems(1) by (simp add: sent_def Let_def)
    from Cons.IH [OF this] show ?thesis using Cons.prems(2) by simp
  next
    case (Inr resp)
    obtain r st where a: "(adopt_reply b resp (wd_state w) :: ('x client_error, unit) outcome \<times> view_state) = (r, st)" by fastforce
    have "state_ok b st" using books.adopt_reply [where 'x = 'x, of b "wd_state w" resp] Cons.prems(2) a by simp
    moreover have "vs_view st \<noteq> None" if "r = Ok ()"
      using a that by (auto simp: adopt_reply_def adopt_max split: if_splits outcome.splits option.splits)
    ultimately show ?thesis using Cons Inr a by (auto simp: sent_def Let_def split: outcome.splits)
  qed
qed auto

lemma dial_ok:
  fixes res :: "('x client_error, config) outcome"
  assumes "dial b net cfg = (res, w)"
  shows "state_ok b (wd_state w) \<and> (\<forall>c. res = Ok c \<longrightarrow> vs_view (wd_state w) \<noteq> None \<and> c = with_defaults cfg)"
proof -
  have d: "state_ok b view_state_default" "vs_view view_state_default = None" "distinct (vs_boot_order view_state_default)"
    "set (vs_boot_order view_state_default) = dom (vs_boot_addrs view_state_default)"
    by (simp_all add: state_ok_def view_state_default_def)
  show ?thesis
  proof (cases "cfg_endpoint cfg")
    case True
    obtain st members where m: "boot_members (ticket_members (cfg_ticket (with_defaults cfg))) view_state_default [] = (st, members)"
      by fastforce
    from boot_members_ok [OF m d(2,1,3,4)] have st: "state_ok b st" by simp
    obtain r w1 where l: "(dial_loop b net members None \<lparr>wd_state = st, wd_sent = [], wd_refreshes = 0\<rparr> ::
        ('x client_error, unit) outcome \<times> world) = (r, w1)" by fastforce
    show ?thesis using dial_loop_ok [OF l] st assms True
      by (cases r) (auto simp: dial_def m l Let_def)
  next
    case False
    then show ?thesis using assms d by (auto simp: dial_def Let_def)
  qed
qed

text \<open>
  Every world a dialed client can be in: after its own requests, and after any change that another task of it makes in
  between.
\<close>

inductive client_reach :: "blake3 \<Rightarrow> network \<Rightarrow> world \<Rightarrow> bool" for b net where
  dialed: "dial b net cfg = (Ok c :: (unit client_error, config) outcome, w) \<Longrightarrow> client_reach b net w"
| called: "client_reach b net w \<Longrightarrow> cluster_call b net i m w = (res :: unit reply, m1, w1) \<Longrightarrow> client_reach b net w1"
| retried: "client_reach b net w \<Longrightarrow> call_retry b net i m w = (res :: unit reply, m1, w1) \<Longrightarrow> client_reach b net w1"
| any_asked: "client_reach b net w \<Longrightarrow> any_node b net en m w = (res :: unit reply, m1, w1) \<Longrightarrow> client_reach b net w1"
| refreshed: "client_reach b net w \<Longrightarrow> refresh_view b net en w = (r :: (unit client_error, unit) outcome, w1) \<Longrightarrow> client_reach b net w1"
| meanwhile: "client_reach b net w \<Longrightarrow> client_reach b net (w\<lparr>wd_state := apply_op b c (wd_state w)\<rparr>)"

lemma view_le_Some: "view_le a c \<Longrightarrow> a \<noteq> None \<Longrightarrow> c \<noteq> None"
  by (cases a; cases c) auto

lemma client_reach_ok: "client_reach b net w \<Longrightarrow> state_ok b (wd_state w) \<and> vs_view (wd_state w) \<noteq> None"
proof (induction rule: client_reach.induct)
  case (dialed cfg c w)
  then show ?case using dial_ok [OF dialed] by simp
next
  case (called w i m res m1 w1)
  then show ?case using books.call [where 'x = unit, of b w net i m] views.call [where 'x = unit, of w b net i m]
    by (auto dest: view_le_Some)
next
  case (retried w i m res m1 w1)
  then show ?case using books.call_again [where 'x = unit, of b w "CALL_RETRY_ATTEMPTS - 1" net i m]
      views.call_again [where 'x = unit, of w "CALL_RETRY_ATTEMPTS - 1" b net i m]
    by (auto simp: call_retry_def dest: view_le_Some)
next
  case (any_asked w en m res m1 w1)
  then show ?case using books.any_node [where 'x = unit, of b w net en m] views.any_node [where 'x = unit, of w b net en m]
    by (auto dest: view_le_Some)
next
  case (refreshed w en r w1)
  then show ?case using books.refresh [where 'x = unit, of b w net en] views.refresh [where 'x = unit, of w b net en]
    by (auto dest: view_le_Some)
next
  case (meanwhile w c)
  then show ?case using apply_op_ok [of b "wd_state w" c] views.op [of "wd_state w" b c] by (auto dest: view_le_Some)
qed

end
