(* ===== verification/Client_Refs.thy ===== *)
theory Client_Refs
  imports Client_Correct
begin

text \<open>
  \<^verbatim>\<open>crates/client/src/refs.rs\<close>: references. Every operation goes through \<^verbatim>\<open>any_node\<close>; a write carries its condition
  and reports what the node answered. Decoding a reference record belongs to the core library and is a parameter.
\<close>

definition T_REF_GET :: int where "T_REF_GET = 36"
definition T_REF_PUT :: int where "T_REF_PUT = 37"
definition T_REF_DELETE :: int where "T_REF_DELETE = 38"
definition T_REF_LIST :: int where "T_REF_LIST = 39"
definition T_REF :: int where "T_REF = 52"
definition T_OK :: int where "T_OK = 53"
definition T_CAS_MISMATCH :: int where "T_CAS_MISMATCH = 54"
definition T_INCOMPLETE :: int where "T_INCOMPLETE = 55"
definition T_REFS :: int where "T_REFS = 56"
definition CODE_UNKNOWN_REF :: bytes where "CODE_UNKNOWN_REF = ascii ''unknown-ref''"

record 'r ref_entry =
  rf_name :: bytes
  rf_record :: bytes
  rf_version :: bytes
  rf_reference :: 'r

record cond =
  cd_expected_version :: bytes
  cd_versioned :: bool
  cd_expected_old :: bytes
  cd_keyed :: bool
  cd_force :: bool

definition cond_apply :: "cond \<Rightarrow> msg \<Rightarrow> msg" where
  "cond_apply c m0 =
     (let m1 = m0\<lparr>m_force := cd_force c\<rparr>;
          m2 = (if cd_versioned c then m1\<lparr>m_has_expected := True, m_expected_version := cd_expected_version c\<rparr> else m1) in
      if cd_keyed c then m2\<lparr>m_has_expected := True, m_expected_old := cd_expected_old c\<rparr> else m2)"

definition cas_message :: "cas_mismatch \<Rightarrow> bytes" where
  "cas_message c =
     (if \<not> cm_has_current c then ascii ''cas mismatch: reference is absent''
      else ascii ''cas mismatch: current key '' @ hex_lower (cm_current c))"

definition cas_from_reply :: "msg \<Rightarrow> cas_mismatch" where
  "cas_from_reply resp = \<lparr>cm_current = m_current resp, cm_record = m_record resp, cm_version = m_version resp,
     cm_has_current = m_has_current resp\<rparr>"

definition ref_err :: "'x client_error \<Rightarrow> 'x client_error" where
  "ref_err e = (if has_code e CODE_UNKNOWN_REF then UnknownRef else e)"

definition ref_get :: "blake3 \<Rightarrow> network \<Rightarrow> env \<Rightarrow> (bytes \<Rightarrow> ('x, 'r) outcome) \<Rightarrow> bytes \<Rightarrow> world \<Rightarrow>
    ('x client_error, 'r ref_entry) outcome \<times> world" where
  "ref_get blake3 net en decode_ref name w =
     (case any_node blake3 net en (msg_default\<lparr>m_typ := T_REF_GET, m_name := name\<rparr>) w of
        (res, m1, w1) \<Rightarrow>
          (obind (omap_err ref_err res) (\<lambda>resp.
             if m_typ resp \<noteq> T_REF then Err (UnexpectedReply (m_typ resp))
             else obind (omap_err Reference (decode_ref (m_record resp))) (\<lambda>r.
               Ok \<lparr>rf_name = name, rf_record = m_record resp, rf_version = m_version resp, rf_reference = r\<rparr>)), w1))"

text \<open>How the two writes read their reply.\<close>

definition put_reply :: "msg \<Rightarrow> ('x client_error, bytes) outcome" where
  "put_reply resp =
     (if m_typ resp = T_OK then Ok (m_version resp)
      else if m_typ resp = T_CAS_MISMATCH then Err (CasMismatch (cas_from_reply resp))
      else if m_typ resp = T_INCOMPLETE then
        Err (Incomplete \<lparr>ic_sample = (case keys32 (m_keys resp) of Ok ks \<Rightarrow> ks | _ \<Rightarrow> []), ic_shortfall = m_shortfall resp\<rparr>)
      else Err (UnexpectedReply (m_typ resp)))"

definition delete_reply :: "msg \<Rightarrow> ('x client_error, unit) outcome" where
  "delete_reply resp =
     (if m_typ resp = T_OK then Ok ()
      else if m_typ resp = T_CAS_MISMATCH then Err (CasMismatch (cas_from_reply resp))
      else Err (UnexpectedReply (m_typ resp)))"

definition ref_put :: "blake3 \<Rightarrow> network \<Rightarrow> env \<Rightarrow> bytes \<Rightarrow> cond \<Rightarrow> world \<Rightarrow> ('x client_error, bytes) outcome \<times> world" where
  "ref_put blake3 net en rec c w =
     (case any_node blake3 net en (cond_apply c (msg_default\<lparr>m_typ := T_REF_PUT, m_record := rec\<rparr>)) w of
        (res, m1, w1) \<Rightarrow> (obind (omap_err ref_err res) put_reply, w1))"

definition ref_delete :: "blake3 \<Rightarrow> network \<Rightarrow> env \<Rightarrow> bytes \<Rightarrow> cond \<Rightarrow> world \<Rightarrow> ('x client_error, unit) outcome \<times> world" where
  "ref_delete blake3 net en name c w =
     (case any_node blake3 net en (cond_apply c (msg_default\<lparr>m_typ := T_REF_DELETE, m_name := name\<rparr>)) w of
        (res, m1, w1) \<Rightarrow> (obind (omap_err ref_err res) delete_reply, w1))"

text \<open>Page by page; \<open>None\<close> is a listing that never ends.\<close>

partial_function (option) ref_list_loop :: "blake3 \<Rightarrow> network \<Rightarrow> (world \<Rightarrow> env) \<Rightarrow> bytes \<Rightarrow> bytes \<Rightarrow> ref_info list \<Rightarrow> world \<Rightarrow>
    (('x client_error, ref_info list) outcome \<times> world) option" where
  "ref_list_loop blake3 net en pre after out w =
     (case any_node blake3 net (en w) (msg_default\<lparr>m_typ := T_REF_LIST, m_prefix := pre, m_after := after\<rparr>) w of
        (Err e, m1, w1) \<Rightarrow> Some (Err e, w1)
      | (Stuck, m1, w1) \<Rightarrow> Some (Stuck, w1)
      | (Ok resp, m1, w1) \<Rightarrow>
          if m_typ resp \<noteq> T_REFS then Some (Err (UnexpectedReply (m_typ resp)), w1)
          else if m_next resp = [] \<or> m_refs resp = [] then Some (Ok (out @ m_refs resp), w1)
          else ref_list_loop blake3 net en pre (m_next resp) (out @ m_refs resp) w1)"

definition ref_list :: "blake3 \<Rightarrow> network \<Rightarrow> (world \<Rightarrow> env) \<Rightarrow> bytes \<Rightarrow> world \<Rightarrow>
    (('x client_error, ref_info list) outcome \<times> world) option" where
  "ref_list blake3 net en pre w = ref_list_loop blake3 net en pre [] [] w"

section \<open>An acknowledged write\<close>

text \<open>
  The last request on the transcript and its answer: a node was sent the record under its condition, and answered
  with success and this version.
\<close>

definition acknowledged :: "network \<Rightarrow> (node_id \<times> msg) list \<Rightarrow> msg \<Rightarrow> (msg \<Rightarrow> bool) \<Rightarrow> bool" where
  "acknowledged net sent m P \<longleftrightarrow> sent \<noteq> [] \<and> unstamp (snd (last sent)) = unstamp m \<and>
     (\<exists>resp. ne_result (net sent) = Inr resp \<and> P resp)"

lemma reply_of_Ok: "reply_of net s = Ok r \<longleftrightarrow> ne_result (net s) = Inr r"
  by (auto simp: reply_of_def split: sum.splits)

lemma any_node_answer:
  fixes res :: "'x reply"
  assumes "any_node b net en m w = (res, m1, w1)"
  shows "res \<noteq> Stuck" and "res = Ok resp \<Longrightarrow> P resp \<Longrightarrow> acknowledged net (wd_sent w1) m P"
    and "res = Err e \<Longrightarrow> remote e \<noteq> None \<Longrightarrow> reply_of net (wd_sent w1) = (Err e :: 'x reply)"
proof -
  from any_node_sends [OF assms] obtain cs where c:
    "asked net m (preferred en (wd_state w) (all_nodes (wd_state w))) (wd_sent w) cs" "wd_sent w1 = wd_sent w @ concat cs"
    "answer_ok net (preferred en (wd_state w) (all_nodes (wd_state w))) cs (wd_sent w1) NoNodes res" by blast
  show "res \<noteq> Stuck" using c(3) by (auto simp: answer_ok_def split: if_splits)
  show "reply_of net (wd_sent w1) = (Err e :: 'x reply)" if "res = Err e" "remote e \<noteq> None"
    using c(3) that by (auto simp: answer_ok_def remote_def split: if_splits)
  assume r: "res = Ok resp" and P: "P resp"
  then have "cs \<noteq> []" and n: "ne_result (net (wd_sent w1)) = Inr resp"
    using c(3) by (auto simp: answer_ok_def reply_of_Ok dest: sym split: if_splits)
  then have "concat cs \<noteq> []" using c(1) by (cases cs; cases "preferred en (wd_state w) (all_nodes (wd_state w))") (auto simp: block_def)
  then have "wd_sent w1 \<noteq> []" "last (wd_sent w1) \<in> set (concat cs)"
    using c(2) last_in_set [of "concat cs"] by (simp_all add: last_append del: set_concat concat_eq_Nil_conv)
  then show "acknowledged net (wd_sent w1) m P" using asked_unstamp [OF c(1)] n P by (auto simp: acknowledged_def)
qed

lemma ref_put_ok:
  assumes "ref_put b net en rec c w = (Ok v :: ('x client_error, bytes) outcome, w1)"
  shows "acknowledged net (wd_sent w1) (cond_apply c (msg_default\<lparr>m_typ := T_REF_PUT, m_record := rec\<rparr>))
    (\<lambda>resp. m_typ resp = T_OK \<and> m_version resp = v)"
proof -
  obtain res m1 where a: "(any_node b net en (cond_apply c (msg_default\<lparr>m_typ := T_REF_PUT, m_record := rec\<rparr>)) w ::
      'x reply \<times> msg \<times> world) = (res, m1, w1)" and r: "obind (omap_err ref_err res) put_reply = Ok v"
    using assms by (auto simp: ref_put_def split: prod.splits)
  then obtain resp where "res = Ok resp" "m_typ resp = T_OK" "m_version resp = v"
    by (cases res) (auto simp: put_reply_def split: if_splits)
  then show ?thesis using any_node_answer(2) [OF a, of resp] by simp
qed

lemma ref_put_mismatch:
  assumes "ref_put b net en rec c w = (Err (CasMismatch cm) :: ('x client_error, bytes) outcome, w1)"
  shows "acknowledged net (wd_sent w1) (cond_apply c (msg_default\<lparr>m_typ := T_REF_PUT, m_record := rec\<rparr>))
    (\<lambda>resp. m_typ resp = T_CAS_MISMATCH \<and> cas_from_reply resp = cm)"
proof -
  obtain res m1 where a: "(any_node b net en (cond_apply c (msg_default\<lparr>m_typ := T_REF_PUT, m_record := rec\<rparr>)) w ::
      'x reply \<times> msg \<times> world) = (res, m1, w1)" and r: "obind (omap_err ref_err res) put_reply = Err (CasMismatch cm)"
    using assms by (auto simp: ref_put_def split: prod.splits)
  show ?thesis
  proof (cases res)
    case (Ok resp)
    then show ?thesis using r any_node_answer(2) [OF a Ok] by (simp add: put_reply_def split: if_splits)
  next
    case (Err e)
    have "e \<noteq> CasMismatch cm"
    proof
      assume "e = CasMismatch cm"
      moreover from any_node_sends [OF a] obtain cs where
        "answer_ok net (preferred en (wd_state w) (all_nodes (wd_state w))) cs (wd_sent w1) NoNodes res" by blast
      moreover have "reply_of net s \<noteq> (Err (CasMismatch cm) :: 'x reply)" for s
        by (simp add: reply_of_def split: sum.split) (metis client_error.distinct from_call_error.elims)
      ultimately show False using Err by (auto simp: answer_ok_def split: if_splits)
    qed
    then show ?thesis using r Err by (simp add: ref_err_def split: if_splits)
  next
    case Stuck
    then show ?thesis using r by simp
  qed
qed

section \<open>A listing\<close>

text \<open>A node that lists: what it returns after a name, and the name to go on with.\<close>

fun walk_pages :: "nat \<Rightarrow> (bytes \<Rightarrow> ref_info list \<times> bytes) \<Rightarrow> bytes \<Rightarrow> ref_info list option" where
  "walk_pages 0 serve after = None"
| "walk_pages (Suc n) serve after = (case serve after of (refs, nxt) \<Rightarrow>
     if nxt = [] \<or> refs = [] then Some refs else map_option ((@) refs) (walk_pages n serve nxt))"

definition serves_pages :: "network \<Rightarrow> bytes \<Rightarrow> (bytes \<Rightarrow> ref_info list \<times> bytes) \<Rightarrow> bool" where
  "serves_pages net pre serve \<longleftrightarrow> (\<forall>sent i m. m_typ m = T_REF_LIST \<longrightarrow> m_prefix m = pre \<longrightarrow>
     ne_others (net (sent @ [(i, m)])) = [] \<and>
     (\<exists>resp. ne_result (net (sent @ [(i, m)])) = Inr resp \<and> m_typ resp = T_REFS \<and>
       m_refs resp = fst (serve (m_after m)) \<and> m_next resp = snd (serve (m_after m))))"

lemma stamp_fields [simp]: "m_typ (stamp st m) = m_typ m" "m_prefix (stamp st m) = m_prefix m" "m_after (stamp st m) = m_after m"
  by (simp_all add: stamp_def split: option.split)

lemma pages_any_node:
  assumes "serves_pages net pre serve" and "all_nodes (wd_state w) \<noteq> []"
  shows "\<exists>resp m1 w1. any_node b net en (msg_default\<lparr>m_typ := T_REF_LIST, m_prefix := pre, m_after := after\<rparr>) w = (Ok resp :: 'x reply, m1, w1) \<and>
    m_typ resp = T_REFS \<and> m_refs resp = fst (serve after) \<and> m_next resp = snd (serve after) \<and> all_nodes (wd_state w1) \<noteq> []"
proof -
  let ?m = "msg_default\<lparr>m_typ := T_REF_LIST, m_prefix := pre, m_after := after\<rparr>"
  obtain i ids where i: "preferred en (wd_state w) (all_nodes (wd_state w)) = i # ids"
    using assms(2) preferred_simps(2) [of en "wd_state w" "all_nodes (wd_state w)"]
    by (cases "preferred en (wd_state w) (all_nodes (wd_state w))") auto
  define sent where "sent = wd_sent w @ [(i, stamp (wd_state w) ?m)]"
  have others: "ne_others (net sent) = []" using assms(1) by (simp add: serves_pages_def sent_def)
  obtain resp where r: "ne_result (net sent) = Inr resp" "m_typ resp = T_REFS"
      "m_refs resp = fst (serve after)" "m_next resp = snd (serve after)"
    using assms(1) [unfolded serves_pages_def, rule_format, of "stamp (wd_state w) ?m" "wd_sent w" i] by (auto simp: sent_def)
  have nodes: "all_nodes (ok_node i st) = all_nodes st" for st by (simp add: all_nodes_def cluster_nodes_def ok_node_def Let_def)
  show ?thesis using r others assms(2)
    by (simp add: any_node_def i numeral_eq_Suc ANY_NODE_STALE_RETRIES_def cluster_call_def sent_def [symmetric] Let_def
        apply_ops_def is_stale_def nodes)
qed

lemma ref_list_loop_pages:
  assumes "serves_pages net pre serve"
  shows "all_nodes (wd_state w) \<noteq> [] \<Longrightarrow> walk_pages n serve after = Some refs \<Longrightarrow>
    \<exists>w1. ref_list_loop b net en pre after out w = Some (Ok (out @ refs) :: ('x client_error, ref_info list) outcome, w1)"
proof (induction n arbitrary: after out refs w)
  case (Suc n)
  from pages_any_node [where 'x = 'x, OF assms Suc.prems(1), of b "en w" after] obtain resp m1 w1 where a:
    "any_node b net (en w) (msg_default\<lparr>m_typ := T_REF_LIST, m_prefix := pre, m_after := after\<rparr>) w = (Ok resp :: 'x reply, m1, w1)"
    "m_typ resp = T_REFS" "m_refs resp = fst (serve after)" "m_next resp = snd (serve after)" "all_nodes (wd_state w1) \<noteq> []"
    by blast
  show ?case
  proof (cases "m_next resp = [] \<or> m_refs resp = []")
    case True
    then have "refs = m_refs resp" using Suc.prems(2) a(3,4) by (auto split: prod.splits)
    then show ?thesis using True a(1,2) by (simp add: ref_list_loop.simps [of b net en pre after out w])
  next
    case False
    then obtain rest where "refs = m_refs resp @ rest" "walk_pages n serve (m_next resp) = Some rest"
      using Suc.prems(2) a(3,4) by (auto split: prod.splits)
    then show ?thesis using Suc.IH [OF a(5), of "m_next resp" rest "out @ m_refs resp"] False a(1,2)
      by (simp add: ref_list_loop.simps [of b net en pre after out w])
  qed
qed simp

end
