(* ===== verification/Client_Objects.thy ===== *)
theory Client_Objects
  imports Client_Correct
begin

text \<open>
  \<^verbatim>\<open>crates/client/src/batch.rs\<close> and \<^verbatim>\<open>objects.rs\<close>: which nodes lack which objects, uploads in batches, and when an
  object counts as placed. Concurrent tasks update the shared result under a lock when their reply is there; the model
  runs them in the order in which they finish, which a scheduler chooses. The core library (record parsing, keys) is
  a parameter.
\<close>

section \<open>Batches\<close>

definition BATCH_KEYS :: nat where "BATCH_KEYS = 8192"

definition USIZE_MAX :: nat where "USIZE_MAX = 2 ^ 64 - 1"

definition saturating_add :: "nat \<Rightarrow> nat \<Rightarrow> nat" where
  "saturating_add a b = min (a + b) USIZE_MAX"

fun batches_loop :: "('k \<Rightarrow> nat) \<Rightarrow> nat \<Rightarrow> nat \<Rightarrow> 'k list \<Rightarrow> 'k list list \<Rightarrow> 'k list \<Rightarrow> nat \<Rightarrow> 'k list list" where
  "batches_loop size_of max_bytes max_keys [] out batch bytes = (if batch \<noteq> [] then out @ [batch] else out)"
| "batches_loop size_of max_bytes max_keys (k # ks) out batch bytes =
     (let n = size_of k in
      if batch \<noteq> [] \<and> (saturating_add bytes n > max_bytes \<or> length batch \<ge> max_keys)
      then batches_loop size_of max_bytes max_keys ks (out @ [batch]) [k] (saturating_add 0 n)
      else batches_loop size_of max_bytes max_keys ks out (batch @ [k]) (saturating_add bytes n))"

definition batches :: "('k \<Rightarrow> nat) \<Rightarrow> 'k list \<Rightarrow> nat \<Rightarrow> nat \<Rightarrow> 'k list list" where
  "batches size_of keys max_bytes max_keys = batches_loop size_of max_bytes max_keys keys [] [] 0"

text \<open>\<^verbatim>\<open>slice::chunks\<close>.\<close>

function chunks :: "nat \<Rightarrow> 'k list \<Rightarrow> 'k list list" where
  "chunks n ks = (if ks = [] \<or> n = 0 then [] else take n ks # chunks n (drop n ks))"
  by pat_completeness auto
termination by (relation "measure (\<lambda>(n, ks). length ks)") auto

declare chunks.simps [simp del]

section \<open>Results\<close>

definition key32 :: "bytes option \<Rightarrow> bytes option" where
  "key32 b = (case b of Some k \<Rightarrow> if length k = 32 then Some k else None | None \<Rightarrow> None)"

record 'x missing_result =
  mr_lacking :: "node_id \<rightharpoonup> bytes list"
  mr_holders :: "bytes \<rightharpoonup> node_id list"
  mr_failed :: "bytes \<rightharpoonup> 'x client_error"

definition missing_empty :: "'x missing_result" where
  "missing_empty = \<lparr>mr_lacking = Map.empty, mr_holders = Map.empty, mr_failed = Map.empty\<rparr>"

record 'x put_result =
  pr_holders :: "bytes \<rightharpoonup> node_id list"
  pr_failed :: "bytes \<rightharpoonup> key_failure list"
  pr_rejected :: "bytes \<rightharpoonup> bytes"
  pr_errors :: "node_id \<rightharpoonup> 'x client_error"

definition put_empty :: "'x put_result" where
  "put_empty = \<lparr>pr_holders = Map.empty, pr_failed = Map.empty, pr_rejected = Map.empty, pr_errors = Map.empty\<rparr>"

fun merge_holders :: "key_holders list \<Rightarrow> (bytes \<rightharpoonup> node_id list) \<Rightarrow> (bytes \<rightharpoonup> node_id list)" where
  "merge_holders [] m = m"
| "merge_holders (h # hs) m = merge_holders hs (case key32 (kh_key h) of Some k \<Rightarrow> m(k \<mapsto> ids_of (kh_holders h)) | None \<Rightarrow> m)"

fun merge_failed :: "key_failure list \<Rightarrow> (bytes \<rightharpoonup> key_failure list) \<Rightarrow> (bytes \<rightharpoonup> key_failure list)" where
  "merge_failed [] m = m"
| "merge_failed (f # fs) m = merge_failed fs (case key32 (kf_key f) of
     Some k \<Rightarrow> m(k \<mapsto> (case m k of Some l \<Rightarrow> l | None \<Rightarrow> []) @ [f])
   | None \<Rightarrow> m)"

fun merge_rejected :: "key_reject list \<Rightarrow> (bytes \<rightharpoonup> bytes) \<Rightarrow> (bytes \<rightharpoonup> bytes)" where
  "merge_rejected [] m = m"
| "merge_rejected (r # rs) m = merge_rejected rs (case key32 (kr_key r) of Some k \<Rightarrow> m(k \<mapsto> kr_reason r) | None \<Rightarrow> m)"

definition put_merge :: "msg \<Rightarrow> 'x put_result \<Rightarrow> 'x put_result" where
  "put_merge resp r =
     r\<lparr>pr_holders := merge_holders (m_holders resp) (pr_holders r),
       pr_failed := merge_failed (m_failed resp) (pr_failed r),
       pr_rejected := merge_rejected (m_rejected resp) (pr_rejected r)\<rparr>"

section \<open>Negotiation\<close>

record 'x negotiation =
  ng_res :: "'x missing_result"
  ng_tried :: "bytes \<rightharpoonup> node_id set"
  ng_retry :: "bytes list"

definition T_MISSING :: int where "T_MISSING = 33"

text \<open>A placement answers every query (\<open>placement_queries_agree\<close>), so the default is never used.\<close>

definition answered :: "node_id list option \<Rightarrow> node_id list" where
  "answered ids = (case ids of Some l \<Rightarrow> l | None \<Rightarrow> [])"

definition primary_except :: "env \<Rightarrow> view_state \<Rightarrow> bytes \<Rightarrow> node_id set option \<Rightarrow> node_id option" where
  "primary_except en st k exclude =
     find (\<lambda>ident. case exclude of None \<Rightarrow> True | Some t \<Rightarrow> ident \<notin> t) (preferred en st (answered (cluster_owners st k)))"

type_synonym by_primary = "(node_id \<times> bytes list) list"

fun push_key :: "node_id \<Rightarrow> bytes \<Rightarrow> by_primary \<Rightarrow> by_primary" where
  "push_key p k [] = [(p, [k])]"
| "push_key p k ((q, ks) # rest) = (if q = p then (q, ks @ [k]) # rest else (q, ks) # push_key p k rest)"

fun assign_loop :: "env \<Rightarrow> view_state \<Rightarrow> bytes list \<Rightarrow> by_primary \<Rightarrow> 'x negotiation \<Rightarrow> by_primary \<times> 'x negotiation" where
  "assign_loop en st [] bp ng = (bp, ng)"
| "assign_loop en st (k # ks) bp ng = (case primary_except en st k (ng_tried ng k) of
     Some p \<Rightarrow> assign_loop en st ks (push_key p k bp) ng
   | None \<Rightarrow>
       (let r = ng_res ng in
        assign_loop en st ks bp
          (if mr_failed r k = None then ng\<lparr>ng_res := r\<lparr>mr_failed := (mr_failed r)(k \<mapsto> NoOwners)\<rparr>\<rparr> else ng)))"

text \<open>A chunk whose request failed; \<open>final\<close> says that a node answered or the context ended.\<close>

fun chunk_failed :: "node_id \<Rightarrow> bool \<Rightarrow> 'x client_error \<Rightarrow> bytes list \<Rightarrow> 'x negotiation \<Rightarrow> 'x negotiation" where
  "chunk_failed p final err [] ng = ng"
| "chunk_failed p final err (k # ks) ng =
     (let r = ng_res ng; failed = ng\<lparr>ng_res := r\<lparr>mr_failed := (mr_failed r)(k \<mapsto> err)\<rparr>\<rparr> in
      chunk_failed p final err ks
        (if final then failed
         else failed\<lparr>ng_tried := (ng_tried ng)(k \<mapsto> insert p (case ng_tried ng k of Some t \<Rightarrow> t | None \<Rightarrow> {})),
                     ng_retry := ng_retry ng @ [k]\<rparr>))"

definition short_map :: "key_holders list \<Rightarrow> (bytes \<rightharpoonup> node_id list)" where
  "short_map shorts = merge_holders shorts Map.empty"

definition lack_set :: "bytes list \<Rightarrow> bytes set" where
  "lack_set raw = (case keys32 raw of Ok ks \<Rightarrow> set ks | _ \<Rightarrow> {})"

fun chunk_answered :: "node_id \<Rightarrow> bytes set \<Rightarrow> (bytes \<rightharpoonup> node_id list) \<Rightarrow> view_state \<Rightarrow> bytes list \<Rightarrow> 'x missing_result \<Rightarrow>
    'x missing_result" where
  "chunk_answered p lack short st [] r = r"
| "chunk_answered p lack short st (k # ks) r =
     (let r1 = r\<lparr>mr_failed := (mr_failed r)(k := None)\<rparr> in
      chunk_answered p lack short st ks
        (if k \<in> lack then
           r1\<lparr>mr_lacking := (mr_lacking r1)(p \<mapsto> (case mr_lacking r1 p of Some l \<Rightarrow> l | None \<Rightarrow> []) @ [k])\<rparr>
         else
           r1\<lparr>mr_holders := (mr_holders r1)(k \<mapsto> (case short k of Some h \<Rightarrow> h | None \<Rightarrow> answered (cluster_write_set st k)))\<rparr>))"

text \<open>What the surroundings decide: preference, whether the context has ended, the order in which tasks finish.\<close>

record sched =
  sc_env :: "world \<Rightarrow> env"
  sc_cancelled :: "world \<Rightarrow> bool"
  sc_order :: "world \<Rightarrow> by_primary \<Rightarrow> by_primary"

definition ask_chunk :: "blake3 \<Rightarrow> network \<Rightarrow> sched \<Rightarrow> bool \<Rightarrow> node_id \<times> bytes list \<Rightarrow> 'x negotiation \<times> world \<Rightarrow>
    'x negotiation \<times> world" where
  "ask_chunk blake3 net sc pin task s = (case (task, s) of ((p, chunk), (ng, w)) \<Rightarrow>
     case call_retry blake3 net p (msg_default\<lparr>m_typ := T_MISSING, m_keys := raw_keys chunk, m_pin := pin\<rparr>) w of
       (Err err, m1, w1) \<Rightarrow> (chunk_failed p (remote err \<noteq> None \<or> sc_cancelled sc w1) err chunk ng, w1)
     | (Ok resp, m1, w1) \<Rightarrow>
         (ng\<lparr>ng_res := chunk_answered p (lack_set (m_keys resp)) (short_map (m_short resp)) (wd_state w1) chunk (ng_res ng)\<rparr>, w1)
     | (Stuck, m1, w1) \<Rightarrow> (ng, w1))"

definition tasks_of :: "by_primary \<Rightarrow> by_primary" where
  "tasks_of bp = concat (map (\<lambda>(p, ks). map (Pair p) (chunks BATCH_KEYS ks)) bp)"

definition ask_primaries :: "blake3 \<Rightarrow> network \<Rightarrow> sched \<Rightarrow> bool \<Rightarrow> by_primary \<Rightarrow> 'x negotiation \<times> world \<Rightarrow>
    bytes list \<times> 'x negotiation \<times> world" where
  "ask_primaries blake3 net sc pin bp s =
     (case fold (ask_chunk blake3 net sc pin) (sc_order sc (snd s) (tasks_of bp)) s of
        (ng, w) \<Rightarrow> (ng_retry ng, ng\<lparr>ng_retry := []\<rparr>, w))"

text \<open>One round of \<^verbatim>\<open>missing\<close>, and the loop; \<open>None\<close> would be a loop that does not end.\<close>

definition missing_round :: "blake3 \<Rightarrow> network \<Rightarrow> sched \<Rightarrow> bool \<Rightarrow> bytes list \<Rightarrow> 'x negotiation \<times> world \<Rightarrow>
    bytes list \<times> 'x negotiation \<times> world" where
  "missing_round blake3 net sc pin pending s = (case s of (ng, w) \<Rightarrow>
     case assign_loop (sc_env sc w) (wd_state w) pending [] ng of
       (bp, ng1) \<Rightarrow> ask_primaries blake3 net sc pin bp (ng1, w))"

partial_function (option) missing_loop :: "blake3 \<Rightarrow> network \<Rightarrow> sched \<Rightarrow> bool \<Rightarrow> bytes list \<Rightarrow> 'x negotiation \<times> world \<Rightarrow>
    ('x missing_result \<times> world) option" where
  "missing_loop blake3 net sc pin pending s =
     (if pending = [] then Some (ng_res (fst s), snd s)
      else case missing_round blake3 net sc pin pending s of
        (pending1, s1) \<Rightarrow> missing_loop blake3 net sc pin pending1 s1)"

definition missing :: "blake3 \<Rightarrow> network \<Rightarrow> sched \<Rightarrow> bytes list \<Rightarrow> bool \<Rightarrow> world \<Rightarrow> ('x missing_result \<times> world) option" where
  "missing blake3 net sc keys pin w =
     missing_loop blake3 net sc pin keys (\<lparr>ng_res = missing_empty, ng_tried = Map.empty, ng_retry = []\<rparr>, w)"

section \<open>Placed objects\<close>

definition count_holders :: "node_id list \<Rightarrow> node_id list \<Rightarrow> nat" where
  "count_holders holders own = length (filter (\<lambda>ident. ident \<in> set holders) own)"

definition placed :: "view_state \<Rightarrow> bytes \<Rightarrow> node_id list \<Rightarrow> bool" where
  "placed st key holders = (case vs_placement st of
     None \<Rightarrow> True
   | Some pl \<Rightarrow>
       (let min_r = unat (v_min_replicas (vp_view pl)); own = answered (fst (placement_owners key pl)) in
        if count_holders holders own < min min_r (length own) then False
        else case fst (pending_owners key pl) of
          Some (Some po) \<Rightarrow> \<not> count_holders holders po < min min_r (length po)
        | _ \<Rightarrow> True))"

section \<open>Uploads\<close>

definition T_PUT :: int where "T_PUT = 35"
definition T_PUT_RESULT :: int where "T_PUT_RESULT = 51"
definition CODE_BUSY :: bytes where "CODE_BUSY = ascii ''busy''"

fun wire_error_of :: "wire_error \<Rightarrow> 'x client_error" where
  "wire_error_of (WRemote r) = Remote r"
| "wire_error_of e = Wire e"

text \<open>The records of the keys that can be read; the others are skipped.\<close>

fun put_records :: "append_head \<Rightarrow> (bytes \<Rightarrow> bytes option) \<Rightarrow> bytes list \<Rightarrow> (pack_sender, wire_error, unit) op" where
  "put_records ah src [] = pack_finish ah"
| "put_records ah src (k # ks) = (case src k of
     None \<Rightarrow> put_records ah src ks
   | Some rec \<Rightarrow> sbind (add_record ah rec) (\<lambda>_. put_records ah src ks))"

text \<open>What an attempt meets: the changes of other tasks before it, the stream, the records, and the clock at its end.\<close>

record put_env =
  pe_others :: "state_op list"
  pe_opened :: "(transport_error, stream_state) outcome"
  pe_src :: "bytes \<Rightarrow> bytes option"
  pe_now :: nat

definition put_once :: "blake3 \<Rightarrow> append_head \<Rightarrow> node_id \<Rightarrow> bytes list \<Rightarrow> put_env \<Rightarrow> view_state \<Rightarrow>
    'x reply \<times> stream_state option \<times> view_state" where
  "put_once blake3 ah p keys pe st0 =
     (let st = apply_ops blake3 (pe_others pe) st0 in
      case pe_opened pe of
        Err e \<Rightarrow> (let err = Transport e in (Err err, None, handle_err blake3 (pe_now pe) p err st))
      | Stuck \<Rightarrow> (Stuck, None, st)
      | Ok s \<Rightarrow>
          (case write_msg ah (stamp st (msg_default\<lparr>m_typ := T_PUT\<rparr>)) (ss_send s) of
             (Err e, w) \<Rightarrow> (Err (wire_error_of e), Some (close_stream (s\<lparr>ss_send := w\<rparr>)), st)
           | (Stuck, w) \<Rightarrow> (Stuck, None, st)
           | (Ok _, w) \<Rightarrow> (case put_records ah (pe_src pe) keys (pack_sender_new w) of
               (Err e, ps) \<Rightarrow> (Err (wire_error_of e), Some (close_stream (s\<lparr>ss_send := ps_w ps\<rparr>)), st)
             | (Stuck, ps) \<Rightarrow> (Stuck, None, st)
             | (Ok _, ps) \<Rightarrow>
                 (let s1 = close_write (s\<lparr>ss_send := ps_w ps\<rparr>) in
                  case expect T_PUT_RESULT (ss_recv s1) of
                    (Err e, r) \<Rightarrow>
                      (let err = wire_error_of e in
                       (Err err, Some (close_stream (s1\<lparr>ss_recv := r\<rparr>)), handle_err blake3 (pe_now pe) p err st))
                  | (Stuck, r) \<Rightarrow> (Stuck, None, st)
                  | (Ok resp, r) \<Rightarrow> (Ok resp, Some (close_stream (s1\<lparr>ss_recv := r\<rparr>)), ok_node p st)))))"

definition busy_wait :: "'x client_error \<Rightarrow> nat" where
  "busy_wait err = (case remote err of
     Some we \<Rightarrow> if re_retry_after we \<noteq> 0 then re_retry_after we else 1000000000
   | None \<Rightarrow> 1000000000)"

text \<open>The attempts of \<^verbatim>\<open>put_batch\<close>, each with what it meets; the list of naps is kept for the record.\<close>

fun put_attempts :: "blake3 \<Rightarrow> append_head \<Rightarrow> node_id \<Rightarrow> bytes list \<Rightarrow> put_env list \<Rightarrow> 'x client_error option \<Rightarrow> nat list \<Rightarrow>
    view_state \<Rightarrow> 'x reply \<times> nat list \<times> view_state" where
  "put_attempts blake3 ah p keys [] last_err naps st =
     (Err (case last_err of Some e \<Rightarrow> e | None \<Rightarrow> OtherError (ascii ''upload failed'')), naps, st)"
| "put_attempts blake3 ah p keys (pe # pes) last_err naps st =
     (case put_once blake3 ah p keys pe st of
        (Ok resp, s, st1) \<Rightarrow> (Ok resp, naps, st1)
      | (Stuck, s, st1) \<Rightarrow> (Stuck, naps, st1)
      | (Err err, s, st1) \<Rightarrow>
          if has_code err CODE_STALE_VIEW then
            put_attempts blake3 ah p keys pes (Some err) naps (handle_err blake3 (pe_now pe) p err st1)
          else if has_code err CODE_BUSY then
            put_attempts blake3 ah p keys pes (Some err) (naps @ [busy_wait err]) st1
          else (Err err, naps, st1))"

definition put_batch :: "blake3 \<Rightarrow> append_head \<Rightarrow> node_id \<Rightarrow> bytes list \<Rightarrow> (nat \<Rightarrow> put_env) \<Rightarrow> view_state \<Rightarrow>
    'x reply \<times> nat list \<times> view_state" where
  "put_batch blake3 ah p keys pes st = put_attempts blake3 ah p keys (map pes [0..<4]) None [] st"

section \<open>Fetched records\<close>

record ('x, 'k) core_records =
  cr_validate :: "'k \<Rightarrow> ('x, unit) outcome"
  cr_decode_payload :: "byte \<Rightarrow> u64 \<Rightarrow> bytes \<Rightarrow> ('x, bytes) outcome"
  cr_rehash :: "'k \<Rightarrow> bytes \<Rightarrow> 'k"
  cr_bytes :: "'k \<Rightarrow> bytes"
  cr_text :: "'k \<Rightarrow> bytes"
  cr_header_size :: nat

record 'k raw_record =
  rw_key :: 'k
  rw_flags :: byte
  rw_ulen :: u64
  rw_bytes :: bytes

text \<open>\<open>cr_rehash k payload\<close> is \<^verbatim>\<open>Key::new(k.type_(), k.length(), payload)\<close>.\<close>

definition verify_record :: "('x, 'k) core_records \<Rightarrow> 'k raw_record \<Rightarrow> ('x client_error, bytes \<times> bytes) outcome" where
  "verify_record cr raw =
     (let k = rw_key raw in
      obind (omap_err KeyErr (cr_validate cr k)) (\<lambda>_.
      obind (omap_err Amberpack (cr_decode_payload cr (rw_flags raw) (rw_ulen raw) (drop (cr_header_size cr) (rw_bytes raw)))) (\<lambda>payload.
      let want = cr_rehash cr k payload in
      if want \<noteq> k then Err (PayloadHash (cr_text cr want) (cr_text cr k)) else Ok (cr_bytes cr k, rw_bytes raw))))"

end
