(* ===== verification/Client_Objects_Correct.thy ===== *)
theory Client_Objects_Correct
  imports Client_Objects Pack_Stream
begin

text \<open>
  Batches lose nothing and respect their limits. A negotiation ends, whatever the nodes and the network do, and sorts
  every key into exactly one of lacking, held and failed.
\<close>

section \<open>Batches\<close>

definition batch_ok :: "('k \<Rightarrow> nat) \<Rightarrow> nat \<Rightarrow> nat \<Rightarrow> 'k list \<Rightarrow> bool" where
  "batch_ok sz mb mk b \<longleftrightarrow> b \<noteq> [] \<and> length b \<le> max mk 1 \<and> (1 < length b \<longrightarrow> sum_list (map sz b) \<le> mb)"

text \<open>Batches are as long as they can be: the next key did not fit.\<close>

definition full_before :: "('k \<Rightarrow> nat) \<Rightarrow> nat \<Rightarrow> nat \<Rightarrow> 'k list \<Rightarrow> 'k list \<Rightarrow> bool" where
  "full_before sz mb mk b c \<longleftrightarrow> mb < sum_list (map sz b) + sz (hd c) \<or> mk \<le> length b"

lemma saturating_gt: "mb < USIZE_MAX \<Longrightarrow> saturating_add (min s USIZE_MAX) n > mb \<longleftrightarrow> mb < s + n"
  by (auto simp: saturating_add_def)

lemma saturating_min: "saturating_add (min s USIZE_MAX) n = min (s + n) USIZE_MAX"
  by (auto simp: saturating_add_def)

lemma batches_loop_spec:
  assumes "mb < USIZE_MAX" and "bytes = min (sum_list (map sz batch)) USIZE_MAX"
    and "\<forall>b \<in> set out. batch_ok sz mb mk b" and "batch \<noteq> [] \<longrightarrow> batch_ok sz mb mk batch"
    and "successively (full_before sz mb mk) (out @ (if batch = [] then [] else [batch]))" and "batch = [] \<longrightarrow> out = []"
  shows "concat (batches_loop sz mb mk ks out batch bytes) = concat out @ batch @ ks \<and>
    (\<forall>b \<in> set (batches_loop sz mb mk ks out batch bytes). batch_ok sz mb mk b) \<and>
    successively (full_before sz mb mk) (batches_loop sz mb mk ks out batch bytes)"
  using assms(2-)
proof (induction ks arbitrary: out batch bytes)
  case (Cons k ks)
  show ?case
  proof (cases "batch \<noteq> [] \<and> (saturating_add bytes (sz k) > mb \<or> length batch \<ge> mk)")
    case True
    then have f: "full_before sz mb mk batch [k]"
      using Cons.prems(1) saturating_gt [OF assms(1)] by (auto simp: full_before_def)
    have b: "saturating_add 0 (sz k) = min (sum_list (map sz [k])) USIZE_MAX" by (simp add: saturating_add_def)
    have o: "\<forall>b \<in> set (out @ [batch]). batch_ok sz mb mk b" "batch_ok sz mb mk [k]"
      using Cons.prems(2,3) True by (auto simp: batch_ok_def)
    have n: "successively (full_before sz mb mk) ((out @ [batch]) @ [[k]])"
      using Cons.prems(4) f True by (subst successively_append_iff) auto
    have "batches_loop sz mb mk (k # ks) out batch bytes =
        batches_loop sz mb mk ks (out @ [batch]) [k] (saturating_add 0 (sz k))" using True by (simp add: Let_def)
    then show ?thesis using Cons.IH [OF b o(1)] o(2) n by simp
  next
    case False
    then have "batch_ok sz mb mk (batch @ [k])"
      using Cons.prems(1,3) saturating_gt [OF assms(1)] by (cases "batch = []") (auto simp: batch_ok_def)
    moreover have "successively (full_before sz mb mk) (out @ [batch @ [k]])"
      using Cons.prems(4,5) by (cases "batch = []")
        (auto simp: successively_append_iff full_before_def hd_append)
    moreover have "saturating_add bytes (sz k) = min (sum_list (map sz (batch @ [k]))) USIZE_MAX"
      using Cons.prems(1) by (simp add: saturating_min)
    moreover have "batches_loop sz mb mk (k # ks) out batch bytes =
        batches_loop sz mb mk ks out (batch @ [k]) (saturating_add bytes (sz k))" using False by (simp only: batches_loop.simps Let_def if_False)
    ultimately have "concat (batches_loop sz mb mk (k # ks) out batch bytes) = concat out @ (batch @ [k]) @ ks \<and>
        (\<forall>b \<in> set (batches_loop sz mb mk (k # ks) out batch bytes). batch_ok sz mb mk b) \<and>
        successively (full_before sz mb mk) (batches_loop sz mb mk (k # ks) out batch bytes)"
      using Cons.IH [OF _ Cons.prems(2), of "saturating_add bytes (sz k)" "batch @ [k]"] by (simp only: snoc_eq_iff_butlast) force
    then show ?thesis by simp
  qed
qed auto

lemma batches_spec:
  assumes "mb < USIZE_MAX"
  shows "concat (batches sz ks mb mk) = ks" and "\<forall>b \<in> set (batches sz ks mb mk). batch_ok sz mb mk b"
    and "successively (full_before sz mb mk) (batches sz ks mb mk)"
  using batches_loop_spec [OF assms, of 0 sz "[]" "[]" mk ks] by (simp_all add: batches_def)

lemma key_chunks_concat: "0 < n \<Longrightarrow> concat (chunks n ks) = ks"
proof (induction n ks rule: chunks.induct)
  case (1 n ks)
  then show ?case by (cases "ks = []") (simp_all add: chunks.simps [of n ks] chunks.simps [of n "[]"])
qed

section \<open>Keys and their fate\<close>

definition lacks :: "'x missing_result \<Rightarrow> bytes \<Rightarrow> bool" where
  "lacks r k \<longleftrightarrow> (\<exists>p ks. mr_lacking r p = Some ks \<and> k \<in> set ks)"

definition untouched_key :: "'x missing_result \<Rightarrow> bytes \<Rightarrow> bool" where
  "untouched_key r k \<longleftrightarrow> \<not> lacks r k \<and> mr_holders r k = None"

text \<open>Exactly one of the three.\<close>

definition decided :: "'x missing_result \<Rightarrow> bytes \<Rightarrow> bool" where
  "decided r k \<longleftrightarrow> (if mr_failed r k \<noteq> None then untouched_key r k else lacks r k = (mr_holders r k = None))"

definition same_at :: "'x negotiation \<Rightarrow> 'x negotiation \<Rightarrow> bytes \<Rightarrow> bool" where
  "same_at a b k \<longleftrightarrow> lacks (ng_res b) k = lacks (ng_res a) k \<and> mr_holders (ng_res b) k = mr_holders (ng_res a) k \<and>
     mr_failed (ng_res b) k = mr_failed (ng_res a) k \<and> ng_tried b k = ng_tried a k"

lemma same_at_refl [simp]: "same_at a a k"
  by (simp add: same_at_def)

lemma same_at_trans: "same_at a b k \<Longrightarrow> same_at b c k \<Longrightarrow> same_at a c k"
  by (simp add: same_at_def)

lemma same_at_clean: "same_at a b k \<Longrightarrow> untouched_key (ng_res b) k = untouched_key (ng_res a) k"
  by (simp add: same_at_def untouched_key_def)

lemma same_at_decided: "same_at a b k \<Longrightarrow> decided (ng_res b) k = decided (ng_res a) k"
  by (simp add: same_at_def decided_def untouched_key_def)

section \<open>One task\<close>

abbreviation listed :: "'x missing_result \<Rightarrow> node_id \<Rightarrow> bytes list" where
  "listed r p \<equiv> (case mr_lacking r p of Some l \<Rightarrow> l | None \<Rightarrow> [])"

lemma lacks_listed: "lacks r k \<longleftrightarrow> (\<exists>p. k \<in> set (listed r p))"
  unfolding lacks_def by (rule ex_cong1) (force split: option.splits)

lemma lacks_push: "lacks (r\<lparr>mr_lacking := (mr_lacking r)(p \<mapsto> listed r p @ [k])\<rparr>) k' \<longleftrightarrow> lacks r k' \<or> k' = k"
proof -
  have "listed (r\<lparr>mr_lacking := (mr_lacking r)(p \<mapsto> listed r p @ [k])\<rparr>) q = (if q = p then listed r p @ [k] else listed r q)" for q
    by simp
  moreover have "(\<exists>q. k' \<in> set (if q = p then L p @ [k] else L q)) \<longleftrightarrow> (\<exists>q. k' \<in> set (L q)) \<or> k' = k" for L :: "node_id \<Rightarrow> bytes list"
    by (auto split: if_splits)
  ultimately show ?thesis unfolding lacks_listed by (simp only:)
qed

lemma lacks_upd [simp]: "lacks (r\<lparr>mr_failed := f\<rparr>) k = lacks r k" "lacks (r\<lparr>mr_holders := h\<rparr>) k = lacks r k"
  "lacks (r\<lparr>mr_failed := f, mr_lacking := l\<rparr>) k = lacks (r\<lparr>mr_lacking := l\<rparr>) k"
  by (simp_all add: lacks_def)

lemma chunk_answered_other:
  assumes "k \<notin> set chunk"
  shows "lacks (chunk_answered p lack short st chunk r) k = lacks r k \<and>
    mr_holders (chunk_answered p lack short st chunk r) k = mr_holders r k \<and>
    mr_failed (chunk_answered p lack short st chunk r) k = mr_failed r k"
  using assms by (induction chunk arbitrary: r) (simp_all add: Let_def lacks_push)

lemma chunk_answered_decides:
  assumes "distinct chunk" and "\<forall>k \<in> set chunk. untouched_key r k" and "k \<in> set chunk"
  shows "decided (chunk_answered p lack short st chunk r) k"
  using assms
proof (induction chunk arbitrary: r)
  case (Cons x xs)
  define r1 where "r1 = (let r1 = r\<lparr>mr_failed := (mr_failed r)(x := None)\<rparr> in
    if x \<in> lack then r1\<lparr>mr_lacking := (mr_lacking r1)(p \<mapsto> (case mr_lacking r1 p of Some l \<Rightarrow> l | None \<Rightarrow> []) @ [x])\<rparr>
    else r1\<lparr>mr_holders := (mr_holders r1)(x \<mapsto> (case short x of Some h \<Rightarrow> h | None \<Rightarrow> answered (cluster_write_set st x)))\<rparr>)"
  have step: "chunk_answered p lack short st (x # xs) r = chunk_answered p lack short st xs r1"
    by (simp add: r1_def Let_def)
  have c: "untouched_key r1 y" if "y \<in> set xs" for y
    using that Cons.prems(1,2) by (auto simp: untouched_key_def r1_def Let_def lacks_push)
  have x: "decided r1 x"
    using Cons.prems(2) by (simp add: decided_def untouched_key_def r1_def Let_def lacks_push)
  show ?case
  proof (cases "k = x")
    case True
    then have "k \<notin> set xs" using Cons.prems(1) by simp
    then show ?thesis using chunk_answered_other [of k xs p lack short st r1] x True
      unfolding step decided_def untouched_key_def by auto
  next
    case False
    then show ?thesis using Cons.IH [of r1] c Cons.prems unfolding step by auto
  qed
qed simp

lemma chunk_failed_other:
  assumes "k \<notin> set chunk"
  shows "same_at ng (chunk_failed p final err chunk ng) k"
  using assms by (induction chunk arbitrary: ng) (auto simp: Let_def same_at_def)

lemma chunk_failed_retry: "ng_retry (chunk_failed p final err chunk ng) = ng_retry ng @ (if final then [] else chunk)"
  by (induction chunk arbitrary: ng) (simp_all add: Let_def)

lemma chunk_failed_clean: "untouched_key (ng_res (chunk_failed p final err chunk ng)) k = untouched_key (ng_res ng) k"
  by (induction chunk arbitrary: ng) (simp_all add: Let_def untouched_key_def)

lemma chunk_failed_at:
  "k \<in> set chunk \<Longrightarrow> distinct chunk \<Longrightarrow> mr_failed (ng_res (chunk_failed p final err chunk ng)) k = Some err \<and>
    ng_tried (chunk_failed p final err chunk ng) k =
      (if final then ng_tried ng k else Some (insert p (case ng_tried ng k of Some t \<Rightarrow> t | None \<Rightarrow> {})))"
proof (induction chunk arbitrary: ng)
  case (Cons x xs)
  show ?case
  proof (cases "k = x")
    case True
    then have "x \<notin> set xs" using Cons.prems by simp
    note o = chunk_failed_other [OF this, unfolded same_at_def]
    show ?thesis using True by (simp add: Let_def o)
  next
    case False
    then show ?thesis using Cons by (simp add: Let_def)
  qed
qed simp

text \<open>What a task leaves: it decides all its keys, or puts all of them back with its node among the tried ones.\<close>

definition task_post :: "node_id \<Rightarrow> bytes list \<Rightarrow> 'x negotiation \<Rightarrow> 'x negotiation \<Rightarrow> bool" where
  "task_post p chunk ng ng1 \<longleftrightarrow> (\<forall>k. k \<notin> set chunk \<longrightarrow> same_at ng ng1 k) \<and>
     (ng_retry ng1 = ng_retry ng \<and> (\<forall>k \<in> set chunk. decided (ng_res ng1) k) \<or>
      ng_retry ng1 = ng_retry ng @ chunk \<and> (\<forall>k \<in> set chunk. untouched_key (ng_res ng1) k \<and>
        ng_tried ng1 k = Some (insert p (case ng_tried ng k of Some t \<Rightarrow> t | None \<Rightarrow> {}))))"

lemma ask_chunk_post:
  assumes "distinct chunk" and "\<forall>k \<in> set chunk. untouched_key (ng_res ng) k"
    and "ask_chunk b net sc pin (p, chunk) (ng :: 'x negotiation, w) = (ng1, w1)" and "state_ok b (wd_state w)"
  shows "task_post p chunk ng ng1 \<and> state_ok b (wd_state w1)"
proof -
  let ?m = "msg_default\<lparr>m_typ := T_MISSING, m_keys := raw_keys chunk, m_pin := pin\<rparr>"
  obtain res m1 w2 where c: "(call_retry b net p ?m w :: 'x reply \<times> msg \<times> world) = (res, m1, w2)" by (metis prod_cases3)
  have ok: "state_ok b (wd_state w2)"
    using books.call_again [where 'x = 'x, of b w "CALL_RETRY_ATTEMPTS - 1" net p ?m] assms(4) c by (simp add: call_retry_def)
  have "res \<noteq> Stuck" using call_again_sends [OF c [unfolded call_retry_def]] by auto
  then consider (answer) resp where "res = Ok resp" | (fail) e where "res = Err e" by (cases res) auto
  then show ?thesis
  proof cases
    case answer
    then have ng1: "ng1 = ng\<lparr>ng_res := chunk_answered p (lack_set (m_keys resp)) (short_map (m_short resp)) (wd_state w2) chunk (ng_res ng)\<rparr>"
      and "w1 = w2" using assms(3) by (auto simp: ask_chunk_def c)
    then show ?thesis using ok chunk_answered_decides [OF assms(1,2)]
      by (simp add: task_post_def same_at_def chunk_answered_other)
  next
    case fail
    define final where "final = (remote e \<noteq> None \<or> sc_cancelled sc w2)"
    have ng1: "ng1 = chunk_failed p final e chunk ng" and "w1 = w2"
      using assms(3) by (auto simp: ask_chunk_def c fail final_def)
    then show ?thesis using ok assms(1,2) chunk_failed_other [of _ chunk ng p final e]
        chunk_failed_at [of _ chunk p final e ng] chunk_failed_clean [of p final e chunk ng]
      by (auto simp: task_post_def chunk_failed_retry decided_def)
  qed
qed

section \<open>One round\<close>

text \<open>The keys of a list of tasks, and the node that each is asked at.\<close>

definition task_keys :: "by_primary \<Rightarrow> bytes list" where
  "task_keys ts = concat (map snd ts)"

definition round_post :: "by_primary \<Rightarrow> 'x negotiation \<Rightarrow> 'x negotiation \<Rightarrow> bytes list \<Rightarrow> bool" where
  "round_post ts ng ng1 again \<longleftrightarrow> ng_retry ng1 = ng_retry ng @ again \<and> distinct again \<and> set again \<subseteq> set (task_keys ts) \<and>
     (\<forall>k. k \<notin> set (task_keys ts) \<longrightarrow> same_at ng ng1 k) \<and>
     (\<forall>k \<in> set (task_keys ts) - set again. decided (ng_res ng1) k) \<and>
     (\<forall>k \<in> set again. untouched_key (ng_res ng1) k \<and>
        (\<exists>p chunk. (p, chunk) \<in> set ts \<and> k \<in> set chunk \<and>
          ng_tried ng1 k = Some (insert p (case ng_tried ng k of Some t \<Rightarrow> t | None \<Rightarrow> {}))))"

lemma round_fold:
  assumes "distinct (task_keys ts)" and "\<forall>k \<in> set (task_keys ts). untouched_key (ng_res ng) k" and "state_ok b (wd_state w)"
    and "fold (ask_chunk b net sc pin) ts (ng :: 'x negotiation, w) = (ng1, w1)"
  shows "(\<exists>again. round_post ts ng ng1 again) \<and> state_ok b (wd_state w1)"
  using assms
proof (induction ts arbitrary: ng w)
  case Nil
  then show ?case by (simp add: round_post_def task_keys_def)
next
  case (Cons t ts)
  obtain p chunk where t: "t = (p, chunk)" by (cases t)
  obtain ng0 w0 where a: "ask_chunk b net sc pin (p, chunk) (ng, w) = (ng0, w0)" by fastforce
  have d: "distinct chunk" "distinct (task_keys ts)" "set chunk \<inter> set (task_keys ts) = {}"
    and cl: "\<forall>k \<in> set chunk. untouched_key (ng_res ng) k" "\<forall>k \<in> set (task_keys ts). untouched_key (ng_res ng) k"
    using Cons.prems(1,2) by (auto simp: task_keys_def t)
  from ask_chunk_post [OF d(1) cl(1) a Cons.prems(3)] have post: "task_post p chunk ng ng0" "state_ok b (wd_state w0)" by auto
  have same: "same_at ng ng0 k" if "k \<notin> set chunk" for k using post(1) that by (simp add: task_post_def)
  have "\<forall>k \<in> set (task_keys ts). untouched_key (ng_res ng0) k" using cl(2) d(3) same same_at_clean [of ng ng0] by blast
  from Cons.IH [OF d(2) this post(2)] Cons.prems(4) obtain again where
    r: "round_post ts ng0 ng1 again" and ok: "state_ok b (wd_state w1)" by (auto simp: t a)
  have later: "same_at ng0 ng1 k" if "k \<in> set chunk" for k using r d(3) that by (auto simp: round_post_def)
  have keys: "task_keys (t # ts) = chunk @ task_keys ts" by (simp add: task_keys_def t)
  have tried: "ng_tried ng0 k = ng_tried ng k" if "k \<in> set (task_keys ts)" for k
    using same [of k] d(3) that by (auto simp: same_at_def)
  have sub: "set again \<subseteq> set (task_keys ts)" using r by (simp add: round_post_def)
  have out: "same_at ng ng1 k" if "k \<notin> set chunk" "k \<notin> set (task_keys ts)" for k
    using r that(2) by (intro same_at_trans [OF same [OF that(1)]]) (simp add: round_post_def)
  have rest: "\<forall>k \<in> set (task_keys ts) - set again. decided (ng_res ng1) k" using r by (simp add: round_post_def)
  have rest_again: "\<forall>k \<in> set again. untouched_key (ng_res ng1) k \<and> (\<exists>p chunk. (p, chunk) \<in> set (t # ts) \<and> k \<in> set chunk \<and>
      ng_tried ng1 k = Some (insert p (case ng_tried ng k of Some t \<Rightarrow> t | None \<Rightarrow> {})))"
    using r sub tried by (fastforce simp: round_post_def)
  from post(1) consider
      (decides) "ng_retry ng0 = ng_retry ng" "\<forall>k \<in> set chunk. decided (ng_res ng0) k"
    | (returned) "ng_retry ng0 = ng_retry ng @ chunk" "\<forall>k \<in> set chunk. untouched_key (ng_res ng0) k \<and>
        ng_tried ng0 k = Some (insert p (case ng_tried ng k of Some t \<Rightarrow> t | None \<Rightarrow> {}))"
    by (auto simp: task_post_def)
  then have "\<exists>again'. round_post (t # ts) ng ng1 again'"
  proof cases
    case decides
    have "\<forall>k \<in> set chunk. decided (ng_res ng1) k" using decides(2) later same_at_decided [of ng0 ng1] by blast
    then have "round_post (t # ts) ng ng1 again"
      using r decides(1) rest rest_again out sub unfolding round_post_def keys by auto
    then show ?thesis by blast
  next
    case returned
    have b: "\<forall>k \<in> set chunk. untouched_key (ng_res ng1) k \<and>
        ng_tried ng1 k = Some (insert p (case ng_tried ng k of Some t \<Rightarrow> t | None \<Rightarrow> {}))"
      using returned(2) later same_at_clean [of ng0 ng1] by (simp add: same_at_def)
    have "distinct (chunk @ again)" using r d sub by (auto simp: round_post_def)
    moreover have "\<forall>k \<in> set (chunk @ again). untouched_key (ng_res ng1) k \<and> (\<exists>p chunk. (p, chunk) \<in> set (t # ts) \<and> k \<in> set chunk \<and>
      ng_tried ng1 k = Some (insert p (case ng_tried ng k of Some t \<Rightarrow> t | None \<Rightarrow> {})))"
      using b rest_again t by auto
    ultimately have "round_post (t # ts) ng ng1 (chunk @ again)"
      using r returned(1) rest out sub unfolding round_post_def keys by auto
    then show ?thesis by blast
  qed
  then show ?case using ok by blast
qed

section \<open>Who is asked\<close>

lemma table_ids_mem: "i \<in> set (table_ids t idx) \<Longrightarrow> \<exists>m \<in> set (set_members (tb_set t)). i = mb_id m"
  by (auto simp: table_ids_def List.map_filter_def split: if_splits)

lemma own_spec_length:
  assumes "i \<in> set (own_spec b nodes r key)"
  shows "length i = 32"
proof -
  define t where "t = table_new (set_new b (placement_members nodes)) (unat r)"
  obtain ids where ids: "fst (owner_ids key t) = Some ids" unfolding t_def using owner_ids_total by blast
  then obtain t1 idx where "ids = table_ids t1 idx" "tb_set t1 = tb_set t"
    by (auto simp: owner_ids_def table_owners_def split: prod.splits)
  then have "\<exists>m \<in> set (placement_members nodes). i = mb_id m"
    using table_ids_mem [of i t1 idx] assms ids by (simp add: own_spec_def t_def table_new_def set_new_def)
  then show ?thesis by (auto simp: placement_members_def nid_def)
qed

lemma owners_length:
  assumes "state_ok b st" and "i \<in> set (answered (cluster_owners st k))"
  shows "length i = 32"
proof (cases "vs_view st")
  case (Some v)
  from placement_owners_ok [of b v "placement_new b v" k, OF placement_new_ok] obtain p1 where
    "placement_owners k (placement_new b v) = (Some (own_spec b (view_nodes v) (v_replicas v) k), p1)" by blast
  then show ?thesis using assms Some own_spec_length
    by (auto simp: state_ok_def cluster_owners_def ask_placement_def answered_def)
qed (use assms in \<open>simp add: state_ok_def cluster_owners_def ask_placement_def answered_def\<close>)

lemma primary_except_new:
  assumes "state_ok b st" and "primary_except en st k t = Some p"
  shows "length p = 32" and "p \<notin> (case t of Some s \<Rightarrow> s | None \<Rightarrow> {})"
proof -
  have p: "p \<in> set (answered (cluster_owners st k))" "case t of None \<Rightarrow> True | Some t \<Rightarrow> p \<notin> t"
    using assms(2) nth_mem [of _ "preferred en st (answered (cluster_owners st k))"]
    by (auto simp: primary_except_def find_Some_iff)
  show "length p = 32" using owners_length [OF assms(1) p(1)] .
  show "p \<notin> (case t of Some s \<Rightarrow> s | None \<Rightarrow> {})" using p(2) by (simp split: option.splits)
qed

lemma mset_task_keys: "mset (task_keys ts) = (\<Sum>x \<in># mset ts. mset (snd x))"
  by (induction ts) (simp_all add: task_keys_def)

lemma push_key_keys: "mset (task_keys (push_key p k bp)) = add_mset k (mset (task_keys bp))"
  by (induction p k bp rule: push_key.induct) (auto simp: task_keys_def)

lemma push_key_at: "(q, l) \<in> set (push_key p k bp) \<Longrightarrow> x \<in> set l \<Longrightarrow> (\<exists>l0. (q, l0) \<in> set bp \<and> x \<in> set l0) \<or> q = p \<and> x = k"
  by (induction p k bp rule: push_key.induct) (auto split: if_splits)

lemma assign_loop_spec:
  assumes "assign_loop en st ks bp (ng :: 'x negotiation) = (bp1, ng1)"
  defines "pe \<equiv> \<lambda>k. primary_except en st k (ng_tried ng k)"
  shows "ng_tried ng1 = ng_tried ng \<and> ng_retry ng1 = ng_retry ng \<and> mr_lacking (ng_res ng1) = mr_lacking (ng_res ng) \<and>
    mr_holders (ng_res ng1) = mr_holders (ng_res ng) \<and>
    (\<forall>k. mr_failed (ng_res ng1) k =
       (if k \<in> set ks \<and> pe k = None \<and> mr_failed (ng_res ng) k = None then Some NoOwners else mr_failed (ng_res ng) k)) \<and>
    mset (task_keys bp1) = mset (task_keys bp) + mset (filter (\<lambda>k. pe k \<noteq> None) ks) \<and>
    (\<forall>q l x. (q, l) \<in> set bp1 \<longrightarrow> x \<in> set l \<longrightarrow> (\<exists>l0. (q, l0) \<in> set bp \<and> x \<in> set l0) \<or> pe x = Some q)"
  using assms(1) unfolding pe_def
proof (induction ks arbitrary: bp ng)
  case (Cons k ks)
  show ?case
  proof (cases "primary_except en st k (ng_tried ng k)")
    case (Some p)
    then have "assign_loop en st ks (push_key p k bp) ng = (bp1, ng1)" using Cons.prems by simp
    note i = Cons.IH [OF this]
    have "(\<exists>l0. (q, l0) \<in> set bp \<and> x \<in> set l0) \<or> primary_except en st x (ng_tried ng x) = Some q"
      if "(q, l) \<in> set bp1" "x \<in> set l" for q l x
    proof -
      have "(\<exists>l0. (q, l0) \<in> set (push_key p k bp) \<and> x \<in> set l0) \<or> primary_except en st x (ng_tried ng x) = Some q"
        using i that by simp
      then show ?thesis using push_key_at [of q _ p k bp x] Some by auto
    qed
    then show ?thesis using i Some by (auto simp: push_key_keys)
  next
    case None
    define ng0 where "ng0 = (if mr_failed (ng_res ng) k = None
      then ng\<lparr>ng_res := (ng_res ng)\<lparr>mr_failed := (mr_failed (ng_res ng))(k \<mapsto> NoOwners)\<rparr>\<rparr> else ng)"
    have "assign_loop en st ks bp ng0 = (bp1, ng1)" using Cons.prems None by (simp add: ng0_def Let_def)
    note i = Cons.IH [OF this]
    have e: "ng_tried ng0 = ng_tried ng" "ng_retry ng0 = ng_retry ng" "mr_lacking (ng_res ng0) = mr_lacking (ng_res ng)"
      "mr_holders (ng_res ng0) = mr_holders (ng_res ng)"
      "mr_failed (ng_res ng0) k' = (if k' = k \<and> mr_failed (ng_res ng) k = None then Some NoOwners else mr_failed (ng_res ng) k')" for k'
      by (simp_all add: ng0_def)
    have "mr_failed (ng_res ng1) k' = (if k' \<in> set (k # ks) \<and> primary_except en st k' (ng_tried ng k') = None \<and>
        mr_failed (ng_res ng) k' = None then Some NoOwners else mr_failed (ng_res ng) k')" for k'
      using i [unfolded e] None by (auto simp: e(5))
    then show ?thesis using i [unfolded e] None by simp
  qed
qed auto

lemma task_keys_tasks_of: "task_keys (tasks_of bp) = task_keys bp"
  by (induction bp) (auto simp: tasks_of_def task_keys_def comp_def key_chunks_concat BATCH_KEYS_def)

lemma tasks_of_at: "(q, c) \<in> set (tasks_of bp) \<Longrightarrow> x \<in> set c \<Longrightarrow> \<exists>l. (q, l) \<in> set bp \<and> x \<in> set l"
proof -
  assume "(q, c) \<in> set (tasks_of bp)" "x \<in> set c"
  then obtain l where "(q, l) \<in> set bp" "c \<in> set (chunks BATCH_KEYS l)" by (auto simp: tasks_of_def)
  moreover have "l = concat (chunks BATCH_KEYS l)" by (simp add: key_chunks_concat BATCH_KEYS_def)
  ultimately have "set c \<subseteq> set l" "(q, l) \<in> set bp" by (metis UN_upper set_concat)+
  then show ?thesis using \<open>x \<in> set c\<close> by blast
qed

definition tried_nodes :: "'x negotiation \<Rightarrow> bytes \<Rightarrow> node_id set" where
  "tried_nodes ng k = (case ng_tried ng k of Some t \<Rightarrow> t | None \<Rightarrow> {})"

text \<open>Tasks finish in some order.\<close>

definition permutes_tasks :: "sched \<Rightarrow> bool" where
  "permutes_tasks sc \<longleftrightarrow> (\<forall>w ts. mset (sc_order sc w ts) = mset ts)"

lemma missing_round_post:
  assumes "distinct pending" and "\<forall>k \<in> set pending. untouched_key (ng_res ng) k" and "ng_retry ng = []" and "state_ok b (wd_state w)"
    and "permutes_tasks sc" and "missing_round b net sc pin pending (ng :: 'x negotiation, w) = (again, ng1, w1)"
  shows "distinct again \<and> set again \<subseteq> set pending \<and> ng_retry ng1 = [] \<and> state_ok b (wd_state w1) \<and>
    (\<forall>k. k \<notin> set pending \<longrightarrow> same_at ng ng1 k) \<and> (\<forall>k \<in> set pending - set again. decided (ng_res ng1) k) \<and>
    (\<forall>k \<in> set again. untouched_key (ng_res ng1) k \<and>
      (\<exists>p. length p = 32 \<and> p \<notin> tried_nodes ng k \<and> tried_nodes ng1 k = insert p (tried_nodes ng k)))"
proof -
  define pe where "pe k = primary_except (sc_env sc w) (wd_state w) k (ng_tried ng k)" for k
  obtain bp ng0 where a: "assign_loop (sc_env sc w) (wd_state w) pending [] ng = (bp, ng0)" by fastforce
  note s = assign_loop_spec [OF a, folded pe_def]
  define ts where "ts = sc_order sc w (tasks_of bp)"
  obtain ng2 w2 where f: "fold (ask_chunk b net sc pin) ts (ng0, w) = (ng2, w2)" by fastforce
  have res: "again = ng_retry ng2" "ng1 = ng2\<lparr>ng_retry := []\<rparr>" "w1 = w2"
    using assms(6) by (auto simp: missing_round_def a ask_primaries_def f [unfolded ts_def])
  have m: "mset ts = mset (tasks_of bp)" using assms(5) by (simp add: permutes_tasks_def ts_def)
  have "mset (task_keys ts) = mset (task_keys (tasks_of bp))"
    by (simp add: mset_task_keys m)
  then have keys: "mset (task_keys ts) = mset (filter (\<lambda>k. pe k \<noteq> None) pending)"
    using s by (simp add: task_keys_tasks_of) (simp add: task_keys_def)
  have dk: "distinct (task_keys ts)" using assms(1) keys distinct_filter by (metis mset_eq_imp_distinct_iff)
  have sk: "set (task_keys ts) = {k \<in> set pending. pe k \<noteq> None}" using mset_eq_setD [OF keys] by (simp only: set_filter)
  have at: "pe x = Some q" if "(q, c) \<in> set ts" "x \<in> set c" for q c x
  proof -
    have "(q, c) \<in> set (tasks_of bp)" using that(1) m mset_eq_setD by blast
    from tasks_of_at [OF this that(2)] obtain l where "(q, l) \<in> set bp" "x \<in> set l" by blast
    moreover have "\<forall>q l x. (q, l) \<in> set bp \<longrightarrow> x \<in> set l \<longrightarrow> pe x = Some q" using s by simp
    ultimately show ?thesis by blast
  qed
  have c0: "untouched_key (ng_res ng0) k = untouched_key (ng_res ng) k" "lacks (ng_res ng0) k = lacks (ng_res ng) k" for k
    using s by (simp_all add: untouched_key_def lacks_def)
  from round_fold [OF dk _ assms(4) f] sk assms(2) c0 obtain again' where
    r: "round_post ts ng0 ng2 again'" and ok: "state_ok b (wd_state w2)" by auto
  have again: "again = again'" using r s assms(3) res(1) by (simp add: round_post_def)
  have sub: "set again \<subseteq> set (task_keys ts)" using r again by (simp add: round_post_def)
  have same2: "same_at ng2 ng1 k" for k by (simp add: res same_at_def)
  have same0: "same_at ng ng0 k" if "k \<notin> set pending" for k
    using s that by (simp add: same_at_def lacks_def)
  have out: "same_at ng ng1 k" if "k \<notin> set pending" for k
    using same_at_trans [OF same_at_trans [OF same0 [OF that]] same2] r sk that by (auto simp: round_post_def)
  have dec: "decided (ng_res ng1) k" if k: "k \<in> set pending" "k \<notin> set again" for k
  proof (cases "pe k")
    case (Some p)
    then have "k \<in> set (task_keys ts)" using k sk by simp
    then show ?thesis using r again k(2) by (auto simp: round_post_def res)
  next
    case None
    then have "same_at ng0 ng2 k" using r sk by (auto simp: round_post_def)
    moreover have "mr_failed (ng_res ng0) k \<noteq> None" using s None k by auto
    ultimately show ?thesis using assms(2) k c0 same_at_clean [of ng0 ng2 k] by (auto simp: decided_def res same_at_def)
  qed
  have returned: "untouched_key (ng_res ng1) k \<and> (\<exists>p. length p = 32 \<and> p \<notin> tried_nodes ng k \<and> tried_nodes ng1 k = insert p (tried_nodes ng k))"
    if k: "k \<in> set again" for k
  proof -
    from r k again obtain p c where p: "(p, c) \<in> set ts" "k \<in> set c" "untouched_key (ng_res ng2) k"
      "ng_tried ng2 k = Some (insert p (case ng_tried ng0 k of Some t \<Rightarrow> t | None \<Rightarrow> {}))" by (auto simp: round_post_def)
    from primary_except_new [OF assms(4) at [OF p(1,2), unfolded pe_def]] p s show ?thesis
      by (auto simp: res tried_nodes_def)
  qed
  show ?thesis using sub sk out dec returned ok r again by (auto simp: res round_post_def)
qed

section \<open>The loop\<close>

definition all_ids :: "node_id set" where "all_ids = {i. length i = 32}"

lemma finite_all_ids: "finite all_ids"
  using finite_lists_length_eq [of "UNIV :: byte set" 32] by (simp add: all_ids_def)

definition untried :: "'x negotiation \<Rightarrow> bytes list \<Rightarrow> nat" where
  "untried ng pending = (\<Sum>k \<in> set pending. card (all_ids - tried_nodes ng k))"

lemma untried_decreases:
  assumes "set again \<subseteq> set pending" and "again \<noteq> []"
    and "\<forall>k \<in> set again. \<exists>p. length p = 32 \<and> p \<notin> tried_nodes ng k \<and> tried_nodes ng1 k = insert p (tried_nodes ng k)"
  shows "untried ng1 again < untried ng pending"
proof -
  have "card (all_ids - tried_nodes ng1 k) < card (all_ids - tried_nodes ng k)" if k: "k \<in> set again" for k
  proof -
    from assms(3) k obtain p where p: "length p = 32" "p \<notin> tried_nodes ng k" "tried_nodes ng1 k = insert p (tried_nodes ng k)" by blast
    show ?thesis by (rule psubset_card_mono) (use p finite_all_ids in \<open>auto simp: all_ids_def\<close>)
  qed
  then have "untried ng1 again < (\<Sum>k \<in> set again. card (all_ids - tried_nodes ng k))"
    unfolding untried_def using assms(2) by (intro sum_strict_mono) auto
  also have "\<dots> \<le> untried ng pending" unfolding untried_def using assms(1) by (intro sum_mono2) auto
  finally show ?thesis .
qed

lemma missing_loop_ends:
  assumes "permutes_tasks sc" and "distinct pending" and "\<forall>k \<in> set pending. untouched_key (ng_res ng) k" and "ng_retry ng = []"
    and "state_ok b (wd_state w)"
  shows "\<exists>ng1 w1. missing_loop b net sc pin pending (ng :: 'x negotiation, w) = Some (ng_res ng1, w1) \<and>
    (\<forall>k \<in> set pending. decided (ng_res ng1) k) \<and> (\<forall>k. k \<notin> set pending \<longrightarrow> same_at ng ng1 k)"
  using assms(2-)
proof (induction "untried ng pending" arbitrary: ng w pending rule: less_induct)
  case less
  show ?case
  proof (cases "pending = []")
    case True
    then show ?thesis by (auto simp: missing_loop.simps)
  next
    case False
    obtain again ng0 w0 where r: "missing_round b net sc pin pending (ng, w) = (again, ng0, w0)" by (metis prod_cases3)
    note post = missing_round_post [OF less.prems assms(1) r]
    have loop: "missing_loop b net sc pin pending (ng, w) = missing_loop b net sc pin again (ng0, w0)"
      using False by (subst missing_loop.simps) (simp add: r)
    show ?thesis
    proof (cases "again = []")
      case True
      then show ?thesis using post unfolding loop by (intro exI [of _ ng0] exI [of _ w0]) (simp add: missing_loop.simps)
    next
      case ne: False
      have "untried ng0 again < untried ng pending" by (rule untried_decreases) (use post ne in auto)
      then have "\<exists>ng1 w1. missing_loop b net sc pin again (ng0, w0) = Some (ng_res ng1, w1) \<and>
          (\<forall>k \<in> set again. decided (ng_res ng1) k) \<and> (\<forall>k. k \<notin> set again \<longrightarrow> same_at ng0 ng1 k)"
        by (rule less.hyps) (use post in auto)
      then obtain ng1 w1 where i: "missing_loop b net sc pin again (ng0, w0) = Some (ng_res ng1, w1)"
        "\<forall>k \<in> set again. decided (ng_res ng1) k" "\<forall>k. k \<notin> set again \<longrightarrow> same_at ng0 ng1 k" by blast
      have "decided (ng_res ng1) k" if "k \<in> set pending" for k
        using i(2,3) post that same_at_decided [of ng0 ng1 k] by (cases "k \<in> set again") auto
      moreover have "same_at ng ng1 k" if "k \<notin> set pending" for k
        using same_at_trans [of ng ng0 k ng1] i(3) post that by auto
      ultimately show ?thesis using i(1) loop by auto
    qed
  qed
qed

section \<open>Uploads\<close>

lemma sbind_assoc: "sbind (sbind f g) h = sbind f (\<lambda>x. sbind (g x) h)"
  by (auto simp: sbind_def fun_eq_iff split: outcome.splits prod.splits)

lemma put_records_pack: "put_records ah src keys = sbind (add_records ah (List.map_filter src keys)) (\<lambda>_. pack_finish ah)"
proof (induction keys)
  case Nil
  show ?case by (simp add: List.map_filter_simps fun_eq_iff sbind_def)
next
  case (Cons k ks)
  then show ?case by (cases "src k") (simp_all add: List.map_filter_simps sbind_assoc)
qed

text \<open>An upload that nothing disturbs: the request and the whole pack are on the wire, the node's result is the answer.\<close>

lemma put_once_wire:
  fixes b pe st0
  defines "st \<equiv> apply_ops b (pe_others pe) st0"
  assumes "append_head_ok ah" and "pe_opened pe = Ok s" and "w_script (ss_send s) = []"
    and "encode_frame ah (stamp st (msg_default\<lparr>m_typ := T_PUT\<rparr>)) = Ok fr"
    and "struct_typed msg_schema (msg_vals m)" and "encode_frame ah m = Ok f" and "m_typ m = T_PUT_RESULT"
    and "stream (ss_recv s) = (f @ rest, e)"
  shows "\<exists>s1. put_once b ah p keys pe st0 = (Ok m, Some s1, ok_node p st) \<and> ss_finished s1 \<and> ss_cancelled s1 \<and>
    w_out (ss_send s1) = w_out (ss_send s) @ fr @ pack_frames ah (PACK_MAGIC @ concat (List.map_filter (pe_src pe) keys) @ [TAG_END])"
proof -
  define w where "w = (ss_send s)\<lparr>w_out := w_out (ss_send s) @ fr\<rparr>"
  have w: "write_msg ah (stamp st (msg_default\<lparr>m_typ := T_PUT\<rparr>)) (ss_send s) = (Ok (), w)"
    using assms(4,5) by (simp add: write_msg_def w_def)
  have "w_script w = []" using assms(4) by (simp add: w_def)
  from send_pack_ok [OF this, of ah "List.map_filter (pe_src pe) keys"] obtain ps where
    ps: "put_records ah (pe_src pe) keys (pack_sender_new w) = (Ok (), ps)"
      "w_out (ps_w ps) = w_out w @ pack_frames ah (PACK_MAGIC @ concat (List.map_filter (pe_src pe) keys) @ [TAG_END])"
    by (auto simp: send_pack_def put_records_pack)
  have "fst (read_msg (ss_recv s)) = Ok m" using read_msg_stream(1) [OF assms(9)] decode_frame(1) [OF assms(2,6,7)] by simp
  then obtain r where "read_msg (ss_recv s) = (Ok m, r)" by (cases "read_msg (ss_recv s)") simp
  then have "expect T_PUT_RESULT (ss_recv s) = (Ok m, r)"
    using assms(8) by (simp add: expect_def T_PUT_RESULT_def T_ERR_def)
  then show ?thesis using w ps assms(3)
    by (simp add: put_once_def st_def Let_def close_stream_def close_write_def cancel_read_def w_def)
qed

lemma retry_codes: "has_code e CODE_BUSY \<Longrightarrow> \<not> has_code e CODE_STALE_VIEW"
  by (auto simp: has_code_def CODE_BUSY_def CODE_STALE_VIEW_def ascii_def split: option.splits)

text \<open>The attempts: while the node is busy or ahead of the view they go on, any other outcome is final.\<close>

lemma put_attempts_stop:
  assumes "put_once b ah p keys pe st = (res :: 'x reply, s, st1)" and "\<not> is_stale res" and "\<not> (\<exists>e. res = Err e \<and> has_code e CODE_BUSY)"
  shows "put_attempts b ah p keys (pe # pes) l naps st = (res, naps, st1)"
  using assms by (cases res) (auto simp: is_stale_def)

lemma put_attempts_naps:
  "put_attempts b ah p keys pes l naps st = (res :: 'x reply, naps1, st1) \<Longrightarrow> length naps1 \<le> length naps + length pes"
proof (induction pes arbitrary: l naps st)
  case (Cons pe pes)
  obtain r s st0 where "(put_once b ah p keys pe st :: 'x reply \<times> stream_state option \<times> view_state) = (r, s, st0)" by (metis prod_cases3)
  then show ?case using Cons by (cases r) (fastforce split: if_splits)+
qed auto

section \<open>Placed objects\<close>

text \<open>
  An object that counts as placed has holders among its owners: at least the minimum, or all owners where there are
  fewer; during a transition also among the pending owners.
\<close>

lemma count_holders_le: "count_holders holders own \<le> card (set holders \<inter> set own)" if "distinct own"
  using that by (simp add: count_holders_def distinct_length_filter Int_commute)

lemma placed_spec:
  assumes "state_ok b st" and "vs_view st = Some v"
  shows "placed st key holders \<longleftrightarrow>
    min (unat (v_min_replicas v)) (length (own_spec b (view_nodes v) (v_replicas v) key))
      \<le> count_holders holders (own_spec b (view_nodes v) (v_replicas v) key) \<and>
    (v_pending v \<noteq> None \<longrightarrow>
     min (unat (v_min_replicas v)) (length (own_spec b (pending_nodes v) (pending_replicas v) key))
      \<le> count_holders holders (own_spec b (pending_nodes v) (pending_replicas v) key))"
proof -
  have p: "vs_placement st = Some (placement_new b v)" using assms by (simp add: state_ok_def)
  have "vp_view (placement_new b v) = v" by (simp add: placement_new_def)
  moreover obtain p1 where "placement_owners key (placement_new b v) = (Some (own_spec b (view_nodes v) (v_replicas v) key), p1)"
    using placement_owners_ok [of b v "placement_new b v" key, OF placement_new_ok] by blast
  moreover obtain p2 where "pending_owners key (placement_new b v) =
      (Some (if v_pending v = None then None else Some (own_spec b (pending_nodes v) (pending_replicas v) key)), p2)"
    using pending_owners_ok [of b v "placement_new b v" key, OF placement_new_ok] by blast
  ultimately show ?thesis by (cases "v_pending v") (auto simp: placed_def p answered_def Let_def not_less min_le_iff_disj)
qed

end
