(* ===== verification/Go_Path.thy ===== *)
theory Go_Path
  imports Prelude
begin

text \<open>
  \<^verbatim>\<open>crates/gocompat/src/path.rs\<close>: Go's \<^verbatim>\<open>filepath.Clean\<close>, \<^verbatim>\<open>Join\<close>, \<^verbatim>\<open>Dir\<close>, \<^verbatim>\<open>Rel\<close> and \<^verbatim>\<open>path.Base\<close> over bytes. The conversions
  to and from \<^verbatim>\<open>std::path\<close> are the identity, and \<^verbatim>\<open>abs\<close> takes the working directory as an argument.
\<close>

abbreviation SEP :: byte where "SEP \<equiv> 0x2f"
abbreviation DOT :: byte where "DOT \<equiv> 0x2e"

section \<open>Clean\<close>

text \<open>\<^verbatim>\<open>while w > dotdot && out[w] != '/' { w -= 1 }\<close>\<close>

fun backtrack :: "bytes \<Rightarrow> nat \<Rightarrow> nat \<Rightarrow> nat" where
  "backtrack out dotdot 0 = 0"
| "backtrack out dotdot (Suc w) = (if Suc w > dotdot \<and> out ! Suc w \<noteq> SEP then backtrack out dotdot w else Suc w)"

text \<open>The loop of \<^verbatim>\<open>clean\<close>; \<open>p\<close> is what is left to read.\<close>

function clean_loop :: "bool \<Rightarrow> bytes \<Rightarrow> nat \<Rightarrow> bytes \<Rightarrow> bytes" where
  "clean_loop rooted [] dotdot out = out"
| "clean_loop rooted (c # p) dotdot out =
     (if c = SEP then clean_loop rooted p dotdot out
      else if c = DOT \<and> (p = [] \<or> hd p = SEP) then clean_loop rooted p dotdot out
      else if c = DOT \<and> p \<noteq> [] \<and> hd p = DOT \<and> (tl p = [] \<or> hd (tl p) = SEP) then
        (if length out > dotdot then clean_loop rooted (tl p) dotdot (take (backtrack out dotdot (length out - 1)) out)
         else if \<not> rooted then
           (let out1 = (if out \<noteq> [] then out @ [SEP] else out) @ [DOT, DOT] in clean_loop rooted (tl p) (length out1) out1)
         else clean_loop rooted (tl p) dotdot out)
      else
        (let out1 = (if rooted \<and> length out \<noteq> 1 \<or> \<not> rooted \<and> out \<noteq> [] then out @ [SEP] else out) in
         clean_loop rooted (dropWhile (\<lambda>b. b \<noteq> SEP) p) dotdot (out1 @ c # takeWhile (\<lambda>b. b \<noteq> SEP) p)))"
  by pat_completeness auto
termination
  by (relation "measure (\<lambda>(rooted, p, dotdot, out). length p)") (auto simp: le_imp_less_Suc length_dropWhile_le)

definition clean :: "bytes \<Rightarrow> bytes" where
  "clean p =
     (if p = [] then [DOT]
      else let rooted = (hd p = SEP);
             out = (if rooted then clean_loop rooted (tl p) 1 [SEP] else clean_loop rooted p 0 [])
        in if out = [] then [DOT] else out)"

section \<open>The other functions\<close>

fun join_sep :: "bytes list \<Rightarrow> bytes" where
  "join_sep [] = []"
| "join_sep [e] = e"
| "join_sep (e # es) = e @ SEP # join_sep es"

definition path_join :: "bytes list \<Rightarrow> bytes" where
  "path_join elems = (case dropWhile (\<lambda>e. e = []) elems of [] \<Rightarrow> [] | es \<Rightarrow> clean (join_sep es))"

definition dir :: "bytes \<Rightarrow> bytes" where
  "dir p = clean (rev (dropWhile (\<lambda>b. b \<noteq> SEP) (rev p)))"

definition path_base :: "bytes \<Rightarrow> bytes" where
  "path_base p =
     (if p = [] then [DOT]
      else let trimmed = rev (dropWhile (\<lambda>b. b = SEP) (rev p));
             lst = rev (takeWhile (\<lambda>b. b \<noteq> SEP) (rev trimmed))
        in if lst = [] then [SEP] else lst)"

definition abs_path :: "('e, bytes) outcome \<Rightarrow> bytes \<Rightarrow> ('e, bytes) outcome" where
  "abs_path getwd p = (if p \<noteq> [] \<and> hd p = SEP then Ok (clean p) else obind getwd (\<lambda>wd. Ok (path_join [wd, p])))"

text \<open>The index of the next separator, or the length: \<^verbatim>\<open>while bi < bl && base[bi] != '/' { bi += 1 }\<close>.\<close>

definition next_sep :: "bytes \<Rightarrow> nat \<Rightarrow> nat" where
  "next_sep s i = i + length (takeWhile (\<lambda>b. b \<noteq> SEP) (drop i s))"

definition between :: "bytes \<Rightarrow> nat \<Rightarrow> nat \<Rightarrow> bytes" where
  "between s i j = take (j - i) (drop i s)"

text \<open>The loop of \<^verbatim>\<open>rel\<close>, from the starts of two elements to the first elements that differ.\<close>

partial_function (option) rel_loop :: "bytes \<Rightarrow> bytes \<Rightarrow> nat \<Rightarrow> nat \<Rightarrow> (nat \<times> nat \<times> nat \<times> nat) option" where
  "rel_loop base targ b0 t0 =
     (let bi = next_sep base b0; ti = next_sep targ t0 in
      if between targ t0 ti \<noteq> between base b0 bi then Some (b0, bi, t0, ti)
      else rel_loop base targ (if bi < length base then bi + 1 else bi) (if ti < length targ then ti + 1 else ti))"

declare rel_loop.simps [code]

definition rel :: "bytes \<Rightarrow> bytes \<Rightarrow> (unit, bytes) outcome" where
  "rel base target =
     (let base = clean base; targ = clean target in
      if targ = base then Ok [DOT]
      else let base = (if base = [DOT] then [] else base) in
        if (base \<noteq> [] \<and> hd base = SEP) \<noteq> (targ \<noteq> [] \<and> hd targ = SEP) then Err ()
        else case rel_loop base targ 0 0 of
          None \<Rightarrow> Stuck
        | Some (b0, bi, t0, ti) \<Rightarrow>
            if between base b0 bi = [DOT, DOT] then Err ()
            else if b0 \<noteq> length base then
              (let seps = length (filter (\<lambda>b. b = SEP) (drop b0 base));
                   buf = [DOT, DOT] @ concat (replicate seps [SEP, DOT, DOT]) @ (if t0 \<noteq> length targ then SEP # drop t0 targ else [])
               in Ok (clean buf))
            else Ok (drop t0 targ))"

end
