(* ===== verification/Go_Path_Correct.thy ===== *)
theory Go_Path_Correct
  imports Go_Path
begin

text \<open>
  What the functions of \<^verbatim>\<open>Go_Path\<close> compute, over the elements of a path: \<^verbatim>\<open>clean\<close> resolves the elements one by one and its
  result is a normal form.
\<close>

section \<open>Elements\<close>

fun elements :: "bytes \<Rightarrow> bytes list" where
  "elements [] = [[]]"
| "elements (c # p) = (if c = SEP then [] # elements p else (c # hd (elements p)) # tl (elements p))"

abbreviation dotdot_elem :: bytes where "dotdot_elem \<equiv> [DOT, DOT]"

text \<open>One element met while the elements \<open>es\<close> are kept.\<close>

definition resolve_step :: "bool \<Rightarrow> bytes \<Rightarrow> bytes list \<Rightarrow> bytes list" where
  "resolve_step rooted e es =
     (if e = [] \<or> e = [DOT] then es
      else if e = dotdot_elem then
        (if es \<noteq> [] \<and> last es \<noteq> dotdot_elem then butlast es else if rooted then es else es @ [dotdot_elem])
      else es @ [e])"

definition resolve :: "bool \<Rightarrow> bytes \<Rightarrow> bytes list \<Rightarrow> bytes list" where
  "resolve rooted p es = fold (resolve_step rooted) (elements p) es"

definition is_rooted :: "bytes \<Rightarrow> bool" where
  "is_rooted p \<longleftrightarrow> p \<noteq> [] \<and> hd p = SEP"

definition render_path :: "bool \<Rightarrow> bytes list \<Rightarrow> bytes" where
  "render_path rooted es = (if rooted then SEP # join_sep es else if es = [] then [DOT] else join_sep es)"

definition plain :: "bytes \<Rightarrow> bool" where
  "plain e \<longleftrightarrow> e \<noteq> [] \<and> SEP \<notin> set e \<and> e \<noteq> [DOT] \<and> e \<noteq> dotdot_elem"

text \<open>Some \<^verbatim>\<open>..\<close>, only in a path that is not rooted, and names.\<close>

definition normal :: "bool \<Rightarrow> nat \<Rightarrow> bytes list \<Rightarrow> bytes list \<Rightarrow> bool" where
  "normal rooted k ns es \<longleftrightarrow> es = replicate k dotdot_elem @ ns \<and> list_all plain ns \<and> (rooted \<longrightarrow> k = 0)"

lemma elements_ne [simp]: "elements p \<noteq> []"
  by (induction p) auto

lemma elements_split:
  "elements p = takeWhile (\<lambda>b. b \<noteq> SEP) p # (case dropWhile (\<lambda>b. b \<noteq> SEP) p of [] \<Rightarrow> [] | c # r \<Rightarrow> elements r)"
  by (induction p) auto

lemma resolve_step_blank [simp]: "resolve_step rooted [] es = es" "resolve_step rooted [DOT] es = es"
  by (simp_all add: resolve_step_def)

lemma resolve_step_plain: "plain e \<Longrightarrow> resolve_step rooted e es = es @ [e]"
  by (simp add: resolve_step_def plain_def)

lemma resolve_Nil [simp]: "resolve rooted [] es = es"
  by (simp add: resolve_def)

lemma resolve_sep [simp]: "resolve rooted (SEP # p) es = resolve rooted p es"
  by (simp add: resolve_def)

lemma resolve_split:
  "resolve rooted p es = resolve rooted (dropWhile (\<lambda>b. b \<noteq> SEP) p) (resolve_step rooted (takeWhile (\<lambda>b. b \<noteq> SEP) p) es)"
proof -
  obtain d where d: "dropWhile (\<lambda>b. b \<noteq> SEP) p = d" by simp
  have "d = c # r \<Longrightarrow> c = SEP" for c r using hd_dropWhile [of "\<lambda>b. b \<noteq> SEP" p] d by force
  then show ?thesis by (cases d) (simp_all add: resolve_def elements_split [of p] d)
qed

lemma join_sep_Cons: "join_sep (e # es) = (if es = [] then e else e @ SEP # join_sep es)"
  by (cases es) auto

lemma join_sep_snoc: "join_sep (es @ [e]) = (if es = [] then e else join_sep es @ SEP # e)"
  by (induction es) (auto simp: join_sep_Cons)

lemma join_sep_length: "length (join_sep xs) \<le> length (join_sep (xs @ ys))"
  by (induction xs) (auto simp: join_sep_Cons)

lemma join_sep_empty: "list_all (\<lambda>e. e \<noteq> []) es \<Longrightarrow> join_sep es = [] \<longleftrightarrow> es = []"
  by (cases es) (auto simp: join_sep_Cons)

lemma elements_join: "es \<noteq> [] \<Longrightarrow> list_all (\<lambda>e. SEP \<notin> set e) es \<Longrightarrow> elements (join_sep es) = es"
proof (induction es)
  case (Cons e es)
  have one: "elements e = [e]" if "SEP \<notin> set e" for e using that by (induction e) auto
  have app: "elements (e @ SEP # t) = e # elements t" if "SEP \<notin> set e" for e t using that by (induction e) auto
  show ?case using Cons one app by (auto simp: join_sep_Cons)
qed simp

lemma elements_append: "elements (p @ SEP # q) = elements p @ elements q"
  by (induction p) auto

section \<open>The loop of clean\<close>

lemma backtrack_stop: "w \<le> D \<or> out ! w = SEP \<Longrightarrow> backtrack out D w = w"
  by (cases w) auto

lemma backtrack_skip:
  assumes "\<And>i. n < i \<Longrightarrow> i \<le> n + j \<Longrightarrow> out ! i \<noteq> SEP" and "D \<le> n"
  shows "backtrack out D (n + j) = backtrack out D n"
  using assms by (induction j) auto

lemma backtrack_sep:
  assumes "out = pre @ SEP # e" and "SEP \<notin> set e" and "D \<le> length pre"
  shows "backtrack out D (length out - 1) = length pre"
proof -
  have "out ! i \<noteq> SEP" if "length pre < i" "i \<le> length pre + length e" for i
  proof -
    have "i - length pre = Suc (i - length pre - 1)" using that by simp
    then have "out ! i = e ! (i - length pre - 1)" using that by (simp add: assms(1) nth_append nth_Cons split: nat.splits)
    moreover have "i - length pre - 1 < length e" using that by simp
    ultimately show ?thesis using assms(2) nth_mem by metis
  qed
  then have "backtrack out D (length pre + length e) = backtrack out D (length pre)"
    using assms(3) by (intro backtrack_skip) auto
  then show ?thesis by (simp add: assms(1) backtrack_stop nth_append)
qed

lemma backtrack_first:
  assumes "out = pre @ e" and "SEP \<notin> set e" and "e \<noteq> []"
  shows "backtrack out (length pre) (length out - 1) = length pre"
proof -
  have "out ! i \<noteq> SEP" if "length pre < i" "i \<le> length pre + (length e - 1)" for i
  proof -
    have "i - length pre < length e" using that by linarith
    then have "e ! (i - length pre) \<in> set e" by (rule nth_mem)
    then have "e ! (i - length pre) \<noteq> SEP" using assms(2) by metis
    then show ?thesis using that by (simp add: assms(1) nth_append)
  qed
  then have "backtrack out (length pre) (length pre + (length e - 1)) = backtrack out (length pre) (length pre)"
    by (intro backtrack_skip) auto
  moreover have "length out - 1 = length pre + (length e - 1)" using assms(3) by (cases e) (simp_all add: assms(1))
  ultimately show ?thesis by (simp add: backtrack_stop)
qed

definition clean_inv :: "bool \<Rightarrow> nat \<Rightarrow> bytes \<Rightarrow> bytes list \<Rightarrow> bool" where
  "clean_inv rooted D out es \<longleftrightarrow> (\<exists>k ns. normal rooted k ns es \<and>
     out = (if rooted then [SEP] else []) @ join_sep es \<and>
     D = (if rooted then 1 else length (join_sep (replicate k dotdot_elem))))"


lemma join_sep_longer:
  assumes "list_all (\<lambda>e. e \<noteq> []) ys" and "ys \<noteq> []"
  shows "length (join_sep xs) < length (join_sep (xs @ ys))"
  using assms by (induction xs) (auto simp: join_sep_Cons join_sep_empty)

lemma plain_ne: "list_all plain ns \<Longrightarrow> list_all (\<lambda>e. e \<noteq> []) ns"
  by (auto simp: list_all_iff plain_def)

lemma clean_inv_longer:
  assumes "clean_inv rooted D out es" and "length out > D"
  shows "es \<noteq> [] \<and> last es \<noteq> dotdot_elem"
proof -
  obtain k ns where k: "normal rooted k ns es" "out = (if rooted then [SEP] else []) @ join_sep es"
      "D = (if rooted then 1 else length (join_sep (replicate k dotdot_elem)))" using assms(1) by (auto simp: clean_inv_def)
  have "ns \<noteq> []" using k assms(2) by (auto simp: normal_def split: if_splits)
  then show ?thesis using k(1) by (auto simp: normal_def list_all_iff plain_def)
qed

lemma clean_inv_back:
  assumes "clean_inv rooted D out es" and "length out > D"
  shows "clean_inv rooted D (take (backtrack out D (length out - 1)) out) (butlast es)"
proof -
  obtain k ns where k: "normal rooted k ns es" "out = (if rooted then [SEP] else []) @ join_sep es"
      "D = (if rooted then 1 else length (join_sep (replicate k dotdot_elem)))" using assms(1) by (auto simp: clean_inv_def)
  have "ns \<noteq> []" using k assms(2) by (auto simp: normal_def split: if_splits)
  then obtain ms e where ms: "ns = ms @ [e]" by (metis append_butlast_last_id)
  let ?es = "replicate k dotdot_elem @ ms"
  have e: "es = ?es @ [e]" "SEP \<notin> set e" "e \<noteq> []" "list_all plain ms" "rooted \<longrightarrow> k = 0" using k(1) by (auto simp: normal_def ms plain_def)
  have n: "normal rooted k ms ?es" using e by (auto simp: normal_def)
  have "take (backtrack out D (length out - 1)) out = (if rooted then [SEP] else []) @ join_sep ?es"
  proof (cases "?es = []")
    case True
    then have "out = (if rooted then [SEP] else []) @ e" "D = length (if rooted then [SEP] else [])" using k(2,3) e(1) by auto
    then show ?thesis using backtrack_first [OF _ e(2,3), of out "if rooted then [SEP] else []"] True by auto
  next
    case False
    let ?pre = "(if rooted then [SEP] else []) @ join_sep ?es"
    have "out = ?pre @ SEP # e" using k(2) False unfolding e(1) join_sep_snoc by simp
    moreover have "D \<le> length ?pre" using k(3) join_sep_length [of "replicate k dotdot_elem" ms] by simp
    ultimately show ?thesis using backtrack_sep [OF _ e(2), of out ?pre D] by simp
  qed
  then show ?thesis using n k(3) e(1) unfolding clean_inv_def by (intro exI [of _ k] exI [of _ ms]) (simp add: butlast_append)
qed

lemma clean_inv_up:
  assumes "clean_inv rooted D out es" and "\<not> length out > D"
  shows "es = [] \<or> last es = dotdot_elem" "rooted \<Longrightarrow> es = []"
    "\<not> rooted \<Longrightarrow> out1 = (if out \<noteq> [] then out @ [SEP] else out) @ [DOT, DOT] \<Longrightarrow> clean_inv rooted (length out1) out1 (es @ [dotdot_elem])"
proof -
  obtain k ns where k: "normal rooted k ns es" "out = (if rooted then [SEP] else []) @ join_sep es"
      "D = (if rooted then 1 else length (join_sep (replicate k dotdot_elem)))" using assms(1) by (auto simp: clean_inv_def)
  have n: "ns = []"
  proof (rule ccontr)
    assume "ns \<noteq> []"
    then show False using k assms(2) join_sep_longer [of ns "replicate k dotdot_elem"] plain_ne [of ns] join_sep_longer [of ns "[]"]
      by (auto simp: normal_def split: if_splits)
  qed
  then show "es = [] \<or> last es = dotdot_elem" "rooted \<Longrightarrow> es = []" using k(1) by (cases k; auto simp: normal_def)+
  assume r: "\<not> rooted" and o: "out1 = (if out \<noteq> [] then out @ [SEP] else out) @ [DOT, DOT]"
  have es: "es = replicate k dotdot_elem" using k(1) n by (simp add: normal_def)
  then have es1: "es @ [dotdot_elem] = replicate (Suc k) dotdot_elem" by (simp add: replicate_append_same)
  have "out = [] \<longleftrightarrow> es = []" using k(2) r join_sep_empty [of es] es by (auto simp: list_all_iff)
  then have "out1 = join_sep (es @ [dotdot_elem])" using k(2) r o by (simp add: join_sep_snoc)
  then show "clean_inv rooted (length out1) out1 (es @ [dotdot_elem])"
    using r unfolding clean_inv_def es1 by (intro exI [of _ "Suc k"] exI [of _ "[]"]) (simp add: normal_def)
qed

lemma clean_inv_name:
  assumes "clean_inv rooted D out es" and "plain e"
  shows "clean_inv rooted D ((if rooted \<and> length out \<noteq> 1 \<or> \<not> rooted \<and> out \<noteq> [] then out @ [SEP] else out) @ e) (es @ [e])"
proof -
  obtain k ns where k: "normal rooted k ns es" "out = (if rooted then [SEP] else []) @ join_sep es"
      "D = (if rooted then 1 else length (join_sep (replicate k dotdot_elem)))" using assms(1) by (auto simp: clean_inv_def)
  have "list_all (\<lambda>e. e \<noteq> []) es" using k(1) plain_ne [of ns] by (auto simp: normal_def list_all_iff)
  then have "join_sep es = [] \<longleftrightarrow> es = []" by (rule join_sep_empty)
  then have c: "(rooted \<and> length out \<noteq> 1 \<or> \<not> rooted \<and> out \<noteq> []) = (es \<noteq> [])" unfolding k(2) by (cases rooted) simp_all
  have n: "normal rooted k (ns @ [e]) (es @ [e])" using k(1) assms(2) by (simp add: normal_def)
  have "(if es \<noteq> [] then out @ [SEP] else out) @ e = (if rooted then [SEP] else []) @ join_sep (es @ [e])"
    unfolding k(2) join_sep_snoc by simp
  then show ?thesis unfolding clean_inv_def c using n k(3) by (intro exI [of _ k] exI [of _ "ns @ [e]"] conjI)
qed

lemma clean_loop_resolves:
  "clean_inv rooted D out es \<Longrightarrow> \<exists>D'. clean_inv rooted D' (clean_loop rooted p D out) (resolve rooted p es)"
proof (induction rooted p D out arbitrary: es rule: clean_loop.induct)
  case (1 rooted D out)
  then show ?case by auto
next
  case (2 rooted c p D out)
  consider "c = SEP" | "c = DOT" "p = [] \<or> hd p = SEP"
    | "c = DOT" "\<not> (p = [] \<or> hd p = SEP)" "hd p = DOT" "tl p = [] \<or> hd (tl p) = SEP"
    | "c \<noteq> SEP" "\<not> (c = DOT \<and> (p = [] \<or> hd p = SEP))" "\<not> (c = DOT \<and> p \<noteq> [] \<and> hd p = DOT \<and> (tl p = [] \<or> hd (tl p) = SEP))"
    by blast
  then show ?case
  proof cases
    case 1
    then show ?thesis using "2.IH"(1) "2.prems" by simp
  next
    case c: 2
    then have "takeWhile (\<lambda>b. b \<noteq> SEP) (c # p) = [DOT]" "dropWhile (\<lambda>b. b \<noteq> SEP) (c # p) = p" by (cases p; simp)+
    then have "resolve rooted (c # p) es = resolve rooted p es" by (subst resolve_split) simp
    then show ?thesis using "2.IH"(2) "2.prems" c by simp
  next
    case c: 3
    then obtain q where q: "p = DOT # q" by (cases p) auto
    have "takeWhile (\<lambda>b. b \<noteq> SEP) (c # p) = dotdot_elem" "dropWhile (\<lambda>b. b \<noteq> SEP) (c # p) = q" using c q by (cases q; simp)+
    then have res: "resolve rooted (c # p) es = resolve rooted q (resolve_step rooted dotdot_elem es)" by (subst resolve_split) simp
    show ?thesis
    proof (cases "length out > D")
      case True
      then show ?thesis using "2.IH"(3) [of "butlast es"] clean_inv_back [OF "2.prems" True] clean_inv_longer [OF "2.prems" True] c q
        unfolding res by (simp add: resolve_step_def)
    next
      case False
      note up = clean_inv_up [OF "2.prems" False]
      show ?thesis
      proof (cases rooted)
        case True
        then show ?thesis using "2.IH"(5) [of es] "2.prems" up(2) False c q unfolding res by (simp add: resolve_step_def)
      next
        case r: False
        then show ?thesis using "2.IH"(4) [of _ "es @ [dotdot_elem]"] up(1) up(3) [OF r refl] False c q unfolding res
          by (auto simp: resolve_step_def Let_def)
      qed
    qed
  next
    case c: 4
    let ?e = "c # takeWhile (\<lambda>b. b \<noteq> SEP) p"
    have "plain ?e"
    proof -
      have t: "takeWhile (\<lambda>b. b \<noteq> SEP) p = [] \<longleftrightarrow> p = [] \<or> hd p = SEP" for p :: bytes by (cases p) auto
      have "takeWhile (\<lambda>b. b \<noteq> SEP) p = [DOT] \<Longrightarrow> p \<noteq> [] \<and> hd p = DOT \<and> (tl p = [] \<or> hd (tl p) = SEP)"
        using t [of "tl p"] by (cases p) (auto split: if_splits)
      then show ?thesis using c t [of p] by (auto simp: plain_def dest: set_takeWhileD)
    qed
    moreover then have "resolve rooted (c # p) es = resolve rooted (dropWhile (\<lambda>b. b \<noteq> SEP) p) (es @ [?e])"
      using c(1) by (subst resolve_split) (simp add: resolve_step_plain)
    ultimately show ?thesis using "2.IH"(6) [of _ "es @ [?e]"] c clean_inv_name [OF "2.prems", of ?e] by (auto simp: Let_def)
  qed
qed

section \<open>Clean\<close>

lemma clean_inv_start: "clean_inv True 1 [SEP] []" "clean_inv False 0 [] []"
  by (auto simp: clean_inv_def normal_def)

lemma render_ne: "list_all (\<lambda>e. e \<noteq> []) es \<Longrightarrow> render_path False es = (if join_sep es = [] then [DOT] else join_sep es)"
  by (auto simp: render_path_def join_sep_empty)

lemma clean_resolves:
  shows "clean p = render_path (is_rooted p) (resolve (is_rooted p) p [])"
    and "\<exists>k ns. normal (is_rooted p) k ns (resolve (is_rooted p) p [])"
proof -
  have "clean p = render_path (is_rooted p) (resolve (is_rooted p) p []) \<and> (\<exists>k ns. normal (is_rooted p) k ns (resolve (is_rooted p) p []))"
  proof (cases "is_rooted p")
    case True
    then obtain q where q: "p = SEP # q" by (cases p) (auto simp: is_rooted_def)
    obtain D k ns where "normal True k ns (resolve True q [])" "clean_loop True q 1 [SEP] = [SEP] @ join_sep (resolve True q [])"
      using clean_loop_resolves [OF clean_inv_start(1), of q] by (auto simp: clean_inv_def)
    then show ?thesis using True by (auto simp: q clean_def render_path_def is_rooted_def)
  next
    case False
    obtain D k ns where n: "normal False k ns (resolve False p [])" "clean_loop False p 0 [] = join_sep (resolve False p [])"
      using clean_loop_resolves [OF clean_inv_start(2), of p] by (auto simp: clean_inv_def)
    have "list_all (\<lambda>e. e \<noteq> []) (resolve False p [])" using n(1) plain_ne [of ns] by (auto simp: normal_def list_all_iff)
    then show ?thesis using False n render_ne by (cases p) (auto simp: clean_def is_rooted_def render_path_def)
  qed
  then show "clean p = render_path (is_rooted p) (resolve (is_rooted p) p [])"
    and "\<exists>k ns. normal (is_rooted p) k ns (resolve (is_rooted p) p [])" by blast+
qed

lemma normal_elems: "normal rooted k ns es \<Longrightarrow> e \<in> set es \<Longrightarrow> e \<noteq> [] \<and> SEP \<notin> set e \<and> e \<noteq> [DOT]"
proof -
  assume "normal rooted k ns es" and e: "e \<in> set es"
  then have "e = dotdot_elem \<or> plain e" by (auto simp: normal_def list_all_iff)
  then show ?thesis by (elim disjE) (simp_all add: plain_def)
qed

text \<open>In a normal form an element that is not \<^verbatim>\<open>..\<close> is followed by names only, and what comes before \<^verbatim>\<open>..\<close> is \<^verbatim>\<open>..\<close>.\<close>

lemma normal_split:
  assumes "normal rooted k ns (cs @ e # es)"
  shows "e = dotdot_elem \<Longrightarrow> \<not> rooted \<and> cs = replicate (length cs) dotdot_elem" "e \<noteq> dotdot_elem \<Longrightarrow> list_all plain (e # es)"
proof -
  have eq: "cs @ e # es = replicate k dotdot_elem @ ns" and p: "list_all plain ns" and r: "rooted \<longrightarrow> k = 0"
    using assms by (auto simp: normal_def)
  have d: "drop (length cs) (replicate k dotdot_elem @ ns) = e # es" "take (length cs) (replicate k dotdot_elem @ ns) = cs"
    unfolding eq [symmetric] by simp_all
  show "\<not> rooted \<and> cs = replicate (length cs) dotdot_elem" if e: "e = dotdot_elem"
  proof -
    have l: "length cs < k"
    proof (rule ccontr)
      assume "\<not> length cs < k"
      then have "drop (length cs - k) ns = e # es" using d(1) by simp
      then have "e \<in> set ns" using in_set_dropD [of e "length cs - k" ns] by simp
      then have "plain e" using p by (simp add: list_all_iff)
      then show False using e by (simp add: plain_def)
    qed
    then have "replicate (length cs) dotdot_elem = cs" using d(2) by (simp add: min_def)
    then show ?thesis using l r by auto
  qed
  show "list_all plain (e # es)" if e: "e \<noteq> dotdot_elem"
  proof -
    have "\<not> length cs < k"
    proof
      assume "length cs < k"
      then have "hd (drop (length cs) (replicate k dotdot_elem @ ns)) = dotdot_elem" by (simp add: hd_append)
      then show False using d(1) e by simp
    qed
    then have "e # es = drop (length cs - k) ns" using d(1) by simp
    then have "set (e # es) \<subseteq> set ns" by (metis set_drop_subset)
    then show ?thesis using p by (auto simp: list_all_iff)
  qed
qed

lemma normal_append: "normal rooted k ns (cs @ es) \<Longrightarrow> fold (resolve_step rooted) es cs = cs @ es"
proof (induction es arbitrary: cs)
  case (Cons e es)
  have "resolve_step rooted e cs = cs @ [e]"
  proof (cases "e = dotdot_elem")
    case True
    have "\<not> rooted" "cs = replicate (length cs) dotdot_elem" using normal_split(1) [OF Cons.prems True] by auto
    then have "cs = [] \<or> last cs = dotdot_elem" using last_replicate [of "length cs" dotdot_elem] by (cases cs) auto
    then show ?thesis using \<open>\<not> rooted\<close> True by (auto simp: resolve_step_def)
  next
    case False
    then show ?thesis using normal_split(2) [OF Cons.prems False] by (simp add: resolve_step_plain)
  qed
  then show ?case using Cons.IH [of "cs @ [e]"] Cons.prems by simp
qed simp

lemma resolve_join: "list_all (\<lambda>e. SEP \<notin> set e) es \<Longrightarrow> resolve rooted (join_sep es) cs = fold (resolve_step rooted) es cs"
  by (cases "es = []") (simp_all add: resolve_def elements_join)

lemma is_rooted_join: "list_all (\<lambda>e. e \<noteq> [] \<and> SEP \<notin> set e) es \<Longrightarrow> \<not> is_rooted (join_sep es)"
  by (cases es) (auto simp: is_rooted_def join_sep_Cons hd_append dest: hd_in_set)

lemma render_resolve:
  assumes "normal rooted k ns es"
  shows "is_rooted (render_path rooted es) = rooted" "resolve rooted (render_path rooted es) [] = es"
proof -
  have e: "list_all (\<lambda>e. e \<noteq> [] \<and> SEP \<notin> set e) es" "list_all (\<lambda>e. SEP \<notin> set e) es"
    using normal_elems [OF assms] by (auto simp: list_all_iff)
  show "is_rooted (render_path rooted es) = rooted"
    using is_rooted_join [OF e(1)] by (auto simp: render_path_def is_rooted_def)
  show "resolve rooted (render_path rooted es) [] = es"
    using resolve_join [OF e(2), of rooted "[]"] normal_append [of rooted k ns "[]" es] assms
    by (auto simp: render_path_def resolve_def)
qed

theorem clean_clean: "clean (clean p) = clean p"
proof -
  obtain k ns where n: "normal (is_rooted p) k ns (resolve (is_rooted p) p [])" using clean_resolves(2) by blast
  show ?thesis using clean_resolves(1) [of "clean p"] render_resolve [OF n] unfolding clean_resolves(1) [of p] by simp
qed

end
