(* ===== verification/Go_Path_Rel.thy ===== *)
theory Go_Path_Rel
  imports Go_Path_Correct
begin

text \<open>
  \<^verbatim>\<open>rel\<close> of \<^verbatim>\<open>crates/gocompat/src/path.rs\<close>: its loop ends at the first elements that differ, it fails exactly when no path leads
  from the base to the target without naming the directories above both, and else its result leads from the base to the target.
\<close>

section \<open>Rel\<close>

abbreviation elems_ok :: "bytes list \<Rightarrow> bool" where
  "elems_ok \<equiv> list_all (\<lambda>e. e \<noteq> [] \<and> SEP \<notin> set e)"

definition first_elem :: "bytes list \<Rightarrow> bytes" where
  "first_elem xs = (case xs of [] \<Rightarrow> [] | x # _ \<Rightarrow> x)"

lemma between_next: "between s i (next_sep s i) = takeWhile (\<lambda>b. b \<noteq> SEP) (drop i s)"
  by (simp add: between_def next_sep_def takeWhile_eq_take [symmetric])

lemma take_while_join: "elems_ok xs \<Longrightarrow> takeWhile (\<lambda>b. b \<noteq> SEP) (join_sep xs) = first_elem xs"
proof (cases xs)
  case (Cons x ys)
  assume "elems_ok xs"
  then have "\<forall>b \<in> set x. b \<noteq> SEP" using Cons by auto
  then show ?thesis by (simp add: Cons first_elem_def join_sep_Cons takeWhile_append2 takeWhile_eq_all_conv)
qed (simp add: first_elem_def)

definition past_sep :: "bytes \<Rightarrow> nat \<Rightarrow> nat" where
  "past_sep s i = (if next_sep s i < length s then next_sep s i + 1 else next_sep s i)"

lemma past_sep_join:
  assumes "drop i s = join_sep xs" and "i \<le> length s" and "elems_ok xs"
  shows "drop (past_sep s i) s = join_sep (tl xs)" "past_sep s i \<le> length s"
proof -
  have n: "next_sep s i = i + length (first_elem xs)" using take_while_join [OF assms(3)] by (simp add: next_sep_def assms(1))
  have l: "length s = i + length (join_sep xs)" using arg_cong [OF assms(1), of length] assms(2) by simp
  have e: "past_sep s i = i + length (first_elem xs) + (if tl xs = [] then 0 else 1)"
    by (cases xs) (auto simp: past_sep_def n l first_elem_def join_sep_Cons)
  have "drop (length (first_elem xs) + (if tl xs = [] then 0 else 1)) (join_sep xs) = join_sep (tl xs)"
    by (cases xs) (auto simp: first_elem_def join_sep_Cons)
  then show "drop (past_sep s i) s = join_sep (tl xs)" unfolding e assms(1) [symmetric] by (simp add: ac_simps)
  show "past_sep s i \<le> length s" unfolding e l by (cases xs) (auto simp: first_elem_def join_sep_Cons)
qed

lemma rel_loop_unfold:
  "rel_loop base targ b0 t0 =
     (if takeWhile (\<lambda>b. b \<noteq> SEP) (drop t0 targ) \<noteq> takeWhile (\<lambda>b. b \<noteq> SEP) (drop b0 base)
      then Some (b0, next_sep base b0, t0, next_sep targ t0)
      else rel_loop base targ (past_sep base b0) (past_sep targ t0))"
  by (subst rel_loop.simps) (simp add: Let_def between_next past_sep_def)

text \<open>The loop ends at the first elements that differ.\<close>

definition rel_found :: "bytes \<Rightarrow> bytes \<Rightarrow> bytes list \<Rightarrow> bytes list \<Rightarrow> (nat \<times> nat \<times> nat \<times> nat) option \<Rightarrow> bool" where
  "rel_found base targ xs ys r \<longleftrightarrow> (\<exists>cs xs' ys' b1 bi t1 ti. r = Some (b1, bi, t1, ti) \<and> xs = cs @ xs' \<and> ys = cs @ ys' \<and>
     drop b1 base = join_sep xs' \<and> b1 \<le> length base \<and> drop t1 targ = join_sep ys' \<and> t1 \<le> length targ \<and>
     between base b1 bi = first_elem xs' \<and> first_elem xs' \<noteq> first_elem ys')"

lemma rel_found_here:
  assumes "drop b0 base = join_sep xs" "b0 \<le> length base" "elems_ok xs"
    and "drop t0 targ = join_sep ys" "t0 \<le> length targ" "elems_ok ys" and "first_elem xs \<noteq> first_elem ys"
  shows "rel_found base targ xs ys (rel_loop base targ b0 t0)"
proof -
  have t: "takeWhile (\<lambda>b. b \<noteq> SEP) (drop b0 base) = first_elem xs" "takeWhile (\<lambda>b. b \<noteq> SEP) (drop t0 targ) = first_elem ys"
    unfolding assms(1,4) by (rule take_while_join [OF assms(3)], rule take_while_join [OF assms(6)])
  have l: "rel_loop base targ b0 t0 = Some (b0, next_sep base b0, t0, next_sep targ t0)"
    by (subst rel_loop_unfold) (use assms(7) in \<open>simp add: t\<close>)
  have b: "between base b0 (next_sep base b0) = first_elem xs" by (simp only: between_next t)
  show ?thesis unfolding rel_found_def
    by (intro exI [of _ "[]"] exI [of _ xs] exI [of _ ys] exI [of _ b0] exI [of _ "next_sep base b0"] exI [of _ t0] exI [of _ "next_sep targ t0"])
      (simp only: l b append_Nil assms(1,2,4,5,7) simp_thms)
qed

lemma rel_found_Cons: "rel_found base targ xs ys r \<Longrightarrow> rel_found base targ (x # xs) (x # ys) r"
proof -
  assume "rel_found base targ xs ys r"
  then obtain cs xs' ys' b1 bi t1 ti where f: "r = Some (b1, bi, t1, ti)" "xs = cs @ xs'" "ys = cs @ ys'" "drop b1 base = join_sep xs'"
    "b1 \<le> length base" "drop t1 targ = join_sep ys'" "t1 \<le> length targ" "between base b1 bi = first_elem xs'" "first_elem xs' \<noteq> first_elem ys'"
    unfolding rel_found_def by blast
  show "rel_found base targ (x # xs) (x # ys) r" unfolding rel_found_def
    by (intro exI [of _ "x # cs"] exI [of _ xs'] exI [of _ ys'] exI [of _ b1] exI [of _ bi] exI [of _ t1] exI [of _ ti]) (simp add: f)
qed

lemma rel_loop_elems:
  assumes "drop b0 base = join_sep xs" "b0 \<le> length base" "elems_ok xs"
    and "drop t0 targ = join_sep ys" "t0 \<le> length targ" "elems_ok ys" and "xs \<noteq> ys"
  shows "rel_found base targ xs ys (rel_loop base targ b0 t0)"
  using assms
proof (induction xs arbitrary: b0 t0 ys)
  case Nil
  then have "first_elem [] \<noteq> first_elem ys" by (cases ys) (auto simp: first_elem_def)
  with Nil show ?case by (intro rel_found_here) simp_all
next
  case (Cons x xs)
  show ?case
  proof (cases "first_elem (x # xs) = first_elem ys")
    case False
    then show ?thesis using Cons.prems by (intro rel_found_here) simp_all
  next
    case True
    then obtain zs where ys: "ys = x # zs" using Cons.prems(3) by (cases ys) (auto simp: first_elem_def)
    have l: "rel_loop base targ b0 t0 = rel_loop base targ (past_sep base b0) (past_sep targ t0)"
      using take_while_join [OF Cons.prems(3)] take_while_join [OF Cons.prems(6)] True Cons.prems(1,4) by (subst rel_loop_unfold) simp
    have "rel_found base targ xs zs (rel_loop base targ (past_sep base b0) (past_sep targ t0))"
      using past_sep_join [OF Cons.prems(1-3)] past_sep_join [OF Cons.prems(4-6)] Cons.prems ys by (intro Cons.IH) simp_all
    then show ?thesis unfolding l ys by (rule rel_found_Cons)
  qed
qed

text \<open>The elements a path stands for, and the texts \<^verbatim>\<open>rel\<close> compares.\<close>

definition path_elems :: "bytes \<Rightarrow> bytes list" where
  "path_elems p = resolve (is_rooted p) p []"

definition targ_elems :: "bytes \<Rightarrow> bytes list" where
  "targ_elems p = (if \<not> is_rooted p \<and> path_elems p = [] then [[DOT]] else path_elems p)"

definition root_text :: "bytes \<Rightarrow> bytes" where
  "root_text p = (if is_rooted p then [SEP] else [])"

lemma path_elems_normal: obtains k ns where "normal (is_rooted p) k ns (path_elems p)"
  using clean_resolves(2) [of p] by (auto simp: path_elems_def)

lemma path_elems_ok: "e \<in> set (path_elems p) \<Longrightarrow> e \<noteq> [] \<and> SEP \<notin> set e \<and> e \<noteq> [DOT]"
proof -
  obtain k ns where "normal (is_rooted p) k ns (path_elems p)" by (rule path_elems_normal)
  then show "e \<in> set (path_elems p) \<Longrightarrow> ?thesis" by (rule normal_elems)
qed

lemma path_elems_all: "elems_ok (path_elems p)" "elems_ok (targ_elems p)"
  using path_elems_ok by (auto simp: list_all_iff targ_elems_def)

lemma clean_elems: "clean p = render_path (is_rooted p) (path_elems p)"
  using clean_resolves(1) by (simp add: path_elems_def)

lemma clean_targ: "clean p = root_text p @ join_sep (targ_elems p)"
  by (simp add: clean_elems render_path_def root_text_def targ_elems_def)

lemma clean_base: "(if clean p = [DOT] then [] else clean p) = root_text p @ join_sep (path_elems p)"
proof -
  have "join_sep (path_elems p) \<noteq> [DOT]"
  proof
    assume j: "join_sep (path_elems p) = [DOT]"
    then have "path_elems p \<noteq> []" by auto
    then have "path_elems p = elements [DOT]" using elements_join [of "path_elems p"] path_elems_all(1) [of p] j by (auto simp: list_all_iff)
    then show False using path_elems_ok [of "[DOT]" p] by simp
  qed
  then show ?thesis by (auto simp: clean_elems render_path_def root_text_def)
qed

lemma slashed: "(root_text p @ join_sep xs \<noteq> [] \<and> hd (root_text p @ join_sep xs) = SEP) = is_rooted p" if "elems_ok xs"
  using is_rooted_join [OF that] by (auto simp: root_text_def is_rooted_def)

lemma rel_start:
  assumes "is_rooted base = is_rooted target" and "path_elems base \<noteq> targ_elems target"
  shows "rel_found (root_text base @ join_sep (path_elems base)) (root_text target @ join_sep (targ_elems target)) (path_elems base) (targ_elems target)
    (rel_loop (root_text base @ join_sep (path_elems base)) (root_text target @ join_sep (targ_elems target)) 0 0)"
proof -
  let ?b = "root_text base @ join_sep (path_elems base)" and ?t = "root_text target @ join_sep (targ_elems target)"
  have "rel_found ?b ?t (path_elems base) (targ_elems target) (rel_loop ?b ?t (length (root_text base)) (length (root_text target)))"
    using assms(2) by (intro rel_loop_elems) (simp_all add: path_elems_all)
  moreover have "rel_loop ?b ?t (length (root_text base)) (length (root_text target)) = rel_loop ?b ?t 0 0"
  proof (cases "is_rooted base")
    case True
    then have "rel_loop ?b ?t 0 0 = rel_loop ?b ?t 1 1"
      using assms(1) by (subst rel_loop_unfold) (simp add: root_text_def past_sep_def next_sep_def)
    then show ?thesis using True assms(1) by (simp add: root_text_def)
  next
    case False
    then show ?thesis using assms(1) by (simp add: root_text_def)
  qed
  ultimately show ?thesis by simp
qed

lemma join_sep_seps: "elems_ok xs \<Longrightarrow> length (filter (\<lambda>b. b = SEP) (join_sep xs)) = length xs - 1"
proof (induction xs)
  case (Cons x xs)
  have "filter (\<lambda>b. b = SEP) x = []" using Cons.prems by (auto simp: filter_empty_conv)
  then show ?case using Cons by (auto simp: join_sep_Cons Suc_diff_le)
qed simp

lemma ups_text:
  "[DOT, DOT] @ concat (replicate n [SEP, DOT, DOT]) @ (if ys = [] then [] else SEP # join_sep ys) = join_sep (replicate (Suc n) dotdot_elem @ ys)"
proof (induction n)
  case (Suc n)
  then show ?case by (simp add: join_sep_Cons)
qed (simp add: join_sep_Cons)

lemma same_elems: "is_rooted base = is_rooted target \<Longrightarrow> path_elems base = targ_elems target \<Longrightarrow> clean target = clean base"
  using path_elems_ok [of "[DOT]" base] by (auto simp: clean_elems targ_elems_def split: if_splits)

text \<open>What \<^verbatim>\<open>rel\<close> returns when both paths are of one kind and differ.\<close>

lemma rel_differ:
  assumes "is_rooted base = is_rooted target" and "clean target \<noteq> clean base"
  obtains cs xs ys where "path_elems base = cs @ xs" "targ_elems target = cs @ ys" "first_elem xs \<noteq> first_elem ys"
    "rel base target = (if first_elem xs = dotdot_elem then Err ()
      else if xs \<noteq> [] then Ok (clean (join_sep (replicate (length xs) dotdot_elem @ ys))) else Ok (join_sep ys))"
proof -
  define b where "b = root_text base @ join_sep (path_elems base)"
  define t where "t = root_text target @ join_sep (targ_elems target)"
  have "path_elems base \<noteq> targ_elems target" using assms same_elems by blast
  then have "rel_found b t (path_elems base) (targ_elems target) (rel_loop b t 0 0)"
    unfolding b_def t_def by (rule rel_start [OF assms(1)])
  then obtain cs xs ys b1 bi t1 ti where f: "rel_loop b t 0 0 = Some (b1, bi, t1, ti)" "path_elems base = cs @ xs" "targ_elems target = cs @ ys"
    "drop b1 b = join_sep xs" "b1 \<le> length b" "drop t1 t = join_sep ys" "t1 \<le> length t" "between b b1 bi = first_elem xs" "first_elem xs \<noteq> first_elem ys"
    unfolding rel_found_def by blast
  have ok: "elems_ok xs" "elems_ok ys" using path_elems_all(1) [of base] path_elems_all(2) [of target] unfolding f(2,3) by simp_all
  have ne: "join_sep xs = [] \<longleftrightarrow> xs = []" "join_sep ys = [] \<longleftrightarrow> ys = []" using ok join_sep_empty by (auto simp: list_all_iff)
  have e: "b1 = length b \<longleftrightarrow> xs = []" "t1 = length t \<longleftrightarrow> ys = []"
    using drop_eq_Nil [of b1 b] drop_eq_Nil [of t1 t] f(5,7) unfolding f(4,6) ne by auto
  have r: "(if clean base = [DOT] then [] else clean base) = b" "clean target = t"
    unfolding b_def t_def by (rule clean_base, rule clean_targ)
  have sl: "(b \<noteq> [] \<and> hd b = SEP) = is_rooted base" "(t \<noteq> [] \<and> hd t = SEP) = is_rooted target"
    unfolding b_def t_def by (rule slashed [OF path_elems_all(1)], rule slashed [OF path_elems_all(2)])
  have ne': "t \<noteq> clean base" using assms(2) r(2) by simp
  have "rel base target = (if first_elem xs = dotdot_elem then Err ()
      else if xs \<noteq> [] then Ok (clean ([DOT, DOT] @ concat (replicate (length xs - 1) [SEP, DOT, DOT]) @ (if ys \<noteq> [] then SEP # join_sep ys else [])))
      else Ok (join_sep ys))"
    unfolding rel_def Let_def r sl f(1) option.case prod.case f(4,6,8) e join_sep_seps [OF ok(1)]
    by (simp only: assms(1) ne' simp_thms if_False)
  moreover have "[DOT, DOT] @ concat (replicate (length xs - 1) [SEP, DOT, DOT]) @ (if ys \<noteq> [] then SEP # join_sep ys else []) =
      join_sep (replicate (length xs) dotdot_elem @ ys)" if "xs \<noteq> []"
    using ups_text [of "length xs - 1" ys] that by (cases xs) (simp_all split: if_splits)
  ultimately show thesis using that f(2,3,9) by presburger
qed

section \<open>What rel promises\<close>

lemma is_rooted_clean: "is_rooted (clean p) = is_rooted p"
proof -
  obtain k ns where "normal (is_rooted p) k ns (path_elems p)" by (rule path_elems_normal)
  then show ?thesis unfolding clean_elems by (rule render_resolve)
qed

lemma rel_same: "clean target = clean base \<Longrightarrow> rel base target = Ok [DOT]"
  by (simp add: rel_def)

lemma rel_kinds: "is_rooted base \<noteq> is_rooted target \<Longrightarrow> rel base target = Err ()"
proof -
  assume d: "is_rooted base \<noteq> is_rooted target"
  then have ne: "clean target \<noteq> clean base" using is_rooted_clean by metis
  have sl: "(root_text base @ join_sep (path_elems base) \<noteq> [] \<and> hd (root_text base @ join_sep (path_elems base)) = SEP) = is_rooted base"
    "(clean target \<noteq> [] \<and> hd (clean target) = SEP) = is_rooted target"
    by (rule slashed [OF path_elems_all(1)]) (use is_rooted_clean [of target] in \<open>simp add: is_rooted_def\<close>)
  show "rel base target = Err ()"
    unfolding rel_def Let_def if_not_P [OF ne] clean_base sl using d by simp
qed

lemma path_join_rel:
  assumes "r \<noteq> []" and "\<not> is_rooted r"
  shows "path_join [base, r] = render_path (is_rooted base) (resolve (is_rooted base) r (path_elems base))"
proof (cases "base = []")
  case True
  then show ?thesis using assms by (simp add: path_join_def clean_resolves(1) path_elems_def is_rooted_def)
next
  case False
  have "path_join [base, r] = clean (base @ SEP # r)" using False by (simp add: path_join_def)
  also have "\<dots> = render_path (is_rooted base) (resolve (is_rooted base) (base @ SEP # r) [])"
    using False clean_resolves(1) [of "base @ SEP # r"] by (simp add: is_rooted_def)
  finally show ?thesis by (simp add: resolve_def elements_append path_elems_def)
qed

lemma climb: "list_all plain xs \<Longrightarrow> fold (resolve_step rooted) (replicate (length xs) dotdot_elem) (cs @ xs) = cs"
proof (induction xs rule: rev_induct)
  case (snoc x xs)
  then have "resolve_step rooted dotdot_elem (cs @ xs @ [x]) = cs @ xs" by (simp add: resolve_step_def plain_def butlast_append)
  then show ?case using snoc by simp
qed simp

lemma normal_suffix:
  assumes "normal rooted k ns (cs @ es)"
  obtains k' ns' where "normal False k' ns' es"
proof -
  have eq: "cs @ es = replicate k dotdot_elem @ ns" and p: "list_all plain ns" using assms by (auto simp: normal_def)
  have "es = drop (length cs) (replicate k dotdot_elem @ ns)" unfolding eq [symmetric] by simp
  then have "es = replicate (k - length cs) dotdot_elem @ drop (length cs - k) ns" by simp
  moreover have "list_all plain (drop (length cs - k) ns)" using p by (auto simp: list_all_iff dest: in_set_dropD)
  ultimately show thesis using that by (simp add: normal_def)
qed

lemma climb_text:
  assumes "normal rooted k ns (cs @ zs)" and "0 < n"
  defines "r \<equiv> join_sep (replicate n dotdot_elem @ zs)"
  shows "clean r = r" "r \<noteq> []" "\<not> is_rooted r" "resolve rooted r es = fold (resolve_step rooted) zs (fold (resolve_step rooted) (replicate n dotdot_elem) es)"
proof -
  obtain k' ns' where k: "normal False k' ns' zs" using assms(1) by (rule normal_suffix)
  then have m: "normal False (n + k') ns' (replicate n dotdot_elem @ zs)" by (simp add: normal_def replicate_add)
  have ok: "elems_ok (replicate n dotdot_elem @ zs)" using normal_elems [OF m] by (auto simp: list_all_iff)
  then have ns: "list_all (\<lambda>e. SEP \<notin> set e) (replicate n dotdot_elem @ zs)" by (auto simp: list_all_iff)
  show nr: "\<not> is_rooted r" unfolding r_def by (rule is_rooted_join [OF ok])
  show "r \<noteq> []" unfolding r_def using assms(2) ok join_sep_empty [of "replicate n dotdot_elem @ zs"] by (auto simp: list_all_iff)
  have "resolve False r [] = replicate n dotdot_elem @ zs"
    unfolding r_def resolve_join [OF ns] using normal_append [of False "n + k'" ns' "[]"] m by (simp only: append_Nil)
  then show "clean r = r" using nr assms(2) by (simp add: clean_resolves(1) render_path_def r_def)
  show "resolve rooted r es = fold (resolve_step rooted) zs (fold (resolve_step rooted) (replicate n dotdot_elem) es)"
    using resolve_join [OF ns] by (simp add: r_def)
qed

lemma clean_ups_dot: "0 < n \<Longrightarrow> clean (join_sep (replicate n dotdot_elem @ [[DOT]])) = join_sep (replicate n dotdot_elem)"
proof -
  assume n: "0 < n"
  let ?es = "replicate n dotdot_elem @ [[DOT]]"
  have ok: "elems_ok ?es" "list_all (\<lambda>e. SEP \<notin> set e) ?es" by (auto simp: list_all_iff)
  have "normal False n [] ([] @ replicate n dotdot_elem)" by (simp add: normal_def)
  then have "fold (resolve_step False) (replicate n dotdot_elem) [] = replicate n dotdot_elem" using normal_append by fastforce
  then have "resolve False (join_sep ?es) [] = replicate n dotdot_elem"
    unfolding resolve_join [OF ok(2)] fold_append comp_apply by simp
  then show "clean (join_sep ?es) = join_sep (replicate n dotdot_elem)"
    using is_rooted_join [OF ok(1)] n by (simp add: clean_resolves(1) render_path_def)
qed

theorem rel_total: "rel base target \<noteq> Stuck"
proof (cases "is_rooted base = is_rooted target \<and> clean target \<noteq> clean base")
  case True
  then obtain xs ys where "rel base target = (if first_elem xs = dotdot_elem then Err ()
      else if xs \<noteq> [] then Ok (clean (join_sep (replicate (length xs) dotdot_elem @ ys))) else Ok (join_sep ys))"
    using rel_differ by metis
  then show ?thesis by (simp split: if_splits)
qed (use rel_same rel_kinds in force)

text \<open>The base's elements that are left over are names, unless \<^verbatim>\<open>rel\<close> fails.\<close>

lemma leftover_plain:
  assumes "path_elems p = cs @ xs" and "first_elem xs \<noteq> dotdot_elem"
  shows "list_all plain xs"
proof -
  obtain k ns where n: "normal (is_rooted p) k ns (path_elems p)" by (rule path_elems_normal)
  show ?thesis
  proof (cases xs)
    case (Cons x xs')
    then show ?thesis using normal_split(2) [of "is_rooted p" k ns cs x xs'] n assms by (simp add: first_elem_def)
  qed simp
qed

text \<open>The target's elements without the \<^verbatim>\<open>.\<close> that stands for an empty list.\<close>

lemma target_elems:
  assumes "targ_elems target = cs @ ys" and "\<And>e. e \<in> set cs \<Longrightarrow> e \<noteq> [DOT]"
  obtains "path_elems target = cs @ ys" | "cs = []" "ys = [[DOT]]" "path_elems target = []" "\<not> is_rooted target"
proof (cases "\<not> is_rooted target \<and> path_elems target = []")
  case True
  then have "cs @ ys = [[DOT]]" using assms(1) by (simp add: targ_elems_def)
  then have "cs = [] \<and> ys = [[DOT]] \<or> cs = [[DOT]] \<and> ys = []" by (simp add: append_eq_Cons_conv)
  then show thesis using that(2) True assms(2) [of "[DOT]"] by auto
next
  case False
  then show thesis using that(1) assms(1) by (auto simp: targ_elems_def)
qed

theorem rel_leads:
  assumes "rel base target = Ok r"
  shows "path_join [base, r] = clean target"
proof (cases "clean target = clean base")
  case True
  then have "r = [DOT]" using assms rel_same by simp
  then show ?thesis using True path_join_rel [of "[DOT]" base] by (simp add: is_rooted_def clean_elems resolve_def)
next
  case False
  have rt: "is_rooted base = is_rooted target" using assms rel_kinds by (metis outcome.distinct(1))
  obtain cs xs ys where d: "path_elems base = cs @ xs" "targ_elems target = cs @ ys" "first_elem xs \<noteq> first_elem ys"
    "rel base target = (if first_elem xs = dotdot_elem then Err ()
      else if xs \<noteq> [] then Ok (clean (join_sep (replicate (length xs) dotdot_elem @ ys))) else Ok (join_sep ys))"
    by (rule rel_differ [OF rt False])
  have fx: "first_elem xs \<noteq> dotdot_elem" using assms d(4) by (auto split: if_splits)
  have px: "list_all plain xs" using d(1) fx by (rule leftover_plain)
  have cs: "e \<in> set cs \<Longrightarrow> e \<noteq> [DOT]" for e using path_elems_ok [of e base] d(1) by simp
  obtain k ns where n: "normal (is_rooted target) k ns (path_elems target)" by (rule path_elems_normal)
  have goal: "path_join [base, r] = clean target"
    if "r \<noteq> []" "\<not> is_rooted r" "resolve (is_rooted target) r (cs @ xs) = path_elems target"
    using path_join_rel [OF that(1,2), of base] that(3) by (simp add: rt d(1) clean_elems)
  consider (same) "path_elems target = cs @ ys" | (dot) "cs = []" "ys = [[DOT]]" "path_elems target = []" "\<not> is_rooted target"
    using target_elems [OF d(2) cs] by blast
  then show ?thesis
  proof cases
    case same
    have fold_ys: "fold (resolve_step (is_rooted target)) ys cs = path_elems target" using normal_append [of _ _ _ cs ys] n same by simp
    show ?thesis
    proof (cases "xs = []")
      case True
      then have r: "r = join_sep ys" using assms d(4) fx by simp
      have "ys \<noteq> []" using d(3) True by (auto simp: first_elem_def)
      moreover have ok: "elems_ok ys" using path_elems_all(1) [of target] same by simp
      moreover have "list_all (\<lambda>e. SEP \<notin> set e) ys" using ok by (auto simp: list_all_iff)
      ultimately show ?thesis using goal is_rooted_join [OF ok] join_sep_empty [of ys] resolve_join [of ys] fold_ys True
        by (auto simp: r list_all_iff)
    next
      case False
      then have n0: "0 < length xs" by simp
      note c = climb_text [OF n [unfolded same] n0]
      have "r = join_sep (replicate (length xs) dotdot_elem @ ys)" using assms d(4) fx False c(1) by simp
      then show ?thesis using goal c(2-4) climb [OF px] fold_ys by simp
    qed
  next
    case dot
    then have ne: "xs \<noteq> []" using same_elems [OF rt] False d(1) by (auto simp: clean_elems rt)
    then have n0: "0 < length xs" by simp
    have nn: "normal (is_rooted target) 0 [] ([] @ [])" by (simp add: normal_def)
    note c = climb_text [OF nn n0]
    have "r = clean (join_sep (replicate (length xs) dotdot_elem @ [[DOT]]))" using assms d(4) fx ne dot by simp
    also have "\<dots> = join_sep (replicate (length xs) dotdot_elem @ [])" using clean_ups_dot [OF n0] by simp
    finally show ?thesis using goal c(2-4) climb [OF px, of False "[]"] dot by simp
  qed
qed

text \<open>How many directories a path climbs before it names one.\<close>

definition climbs :: "bytes \<Rightarrow> nat" where
  "climbs p = count_list (path_elems p) dotdot_elem"

lemma plain_no_climb: "list_all plain xs \<Longrightarrow> count_list xs dotdot_elem = 0"
  by (auto simp: count_list_0_iff list_all_iff plain_def)

theorem rel_fails:
  "rel base target = Err () \<longleftrightarrow> is_rooted base \<noteq> is_rooted target \<or> climbs base > climbs target"
proof (cases "is_rooted base = is_rooted target")
  case rt: True
  show ?thesis
  proof (cases "clean target = clean base")
    case True
    have "path_elems base = path_elems target"
    proof -
      obtain k ns where b: "normal (is_rooted base) k ns (path_elems base)" by (rule path_elems_normal)
      obtain k' ns' where t: "normal (is_rooted target) k' ns' (path_elems target)" by (rule path_elems_normal)
      have "path_elems base = resolve (is_rooted base) (clean base) []" unfolding clean_elems using render_resolve(2) [OF b] by (rule sym)
      also have "\<dots> = resolve (is_rooted target) (clean target) []" by (simp only: True rt)
      also have "\<dots> = path_elems target" unfolding clean_elems by (rule render_resolve(2) [OF t])
      finally show ?thesis .
    qed
    then show ?thesis using rel_same [OF True] rt by (simp add: climbs_def)
  next
    case False
    obtain cs xs ys where d: "path_elems base = cs @ xs" "targ_elems target = cs @ ys" "first_elem xs \<noteq> first_elem ys"
      "rel base target = (if first_elem xs = dotdot_elem then Err ()
        else if xs \<noteq> [] then Ok (clean (join_sep (replicate (length xs) dotdot_elem @ ys))) else Ok (join_sep ys))"
      by (rule rel_differ [OF rt False])
    have cs: "e \<in> set cs \<Longrightarrow> e \<noteq> [DOT]" for e using path_elems_ok [of e base] d(1) by simp
    have ct: "climbs target = count_list cs dotdot_elem + count_list ys dotdot_elem"
      by (rule target_elems [OF d(2) cs]) (simp_all add: climbs_def)
    have cb: "climbs base = count_list cs dotdot_elem + count_list xs dotdot_elem" by (simp add: climbs_def d(1))
    show ?thesis
    proof (cases "first_elem xs = dotdot_elem")
      case True
      then have "0 < count_list xs dotdot_elem" by (cases xs) (auto simp: first_elem_def)
      moreover have "count_list ys dotdot_elem = 0"
      proof (rule target_elems [OF d(2) cs])
        assume "path_elems target = cs @ ys"
        moreover have "first_elem ys \<noteq> dotdot_elem" using d(3) True by simp
        ultimately show ?thesis by (intro plain_no_climb leftover_plain)
      next
        assume y: "ys = [[DOT]]"
        show ?thesis unfolding y by simp
      qed
      ultimately show ?thesis using True d(4) cb ct by simp
    next
      case n: False
      then have "count_list xs dotdot_elem = 0" using leftover_plain [OF d(1) n] plain_no_climb by blast
      then show ?thesis using n d(4) cb ct rt by simp
    qed
  qed
qed (use rel_kinds in simp)

end
