(* ===== verification/Strconv.thy ===== *)
theory Strconv
  imports Strings
begin

text \<open>
  \<^verbatim>\<open>crates/gocompat/src/quote.rs\<close> and the integers and booleans of \<^verbatim>\<open>strconv.rs\<close>: Go's \<^verbatim>\<open>strconv.Quote\<close>, \<^verbatim>\<open>ParseUint\<close>,
  \<^verbatim>\<open>ParseInt\<close> and \<^verbatim>\<open>ParseBool\<close>. A base and a bit size are naturals; one out of range panics, which is \<open>Stuck\<close>. The generated
  tables of printable runes are a parameter.
\<close>

section \<open>Quoting\<close>

record print_tables =
  IS_PRINT16 :: "nat list"
  IS_NOT_PRINT16 :: "nat list"
  IS_PRINT32 :: "nat list"
  IS_NOT_PRINT32 :: "nat list"

definition in_ranges :: "nat list \<Rightarrow> nat \<Rightarrow> bool" where
  "in_ranges table v =
     (let i = length (takeWhile (\<lambda>x. x < v) table); lo = i - i mod 2; hi = lo + 1 in
      hi < length table \<and> table ! lo \<le> v \<and> v \<le> table ! hi)"

definition is_print :: "print_tables \<Rightarrow> rune \<Rightarrow> bool" where
  "is_print pt c =
     (let r = unat c in
      if r \<le> 0xff then
        (if 0x20 \<le> r \<and> r \<le> 0x7e then True else if 0xa1 \<le> r then r \<noteq> 0xad else False)
      else if r \<le> 0xffff then in_ranges (IS_PRINT16 pt) r \<and> r \<notin> set (IS_NOT_PRINT16 pt)
      else if \<not> in_ranges (IS_PRINT32 pt) r then False
      else if r \<ge> 0x20000 then True
      else r - 0x10000 \<notin> set (IS_NOT_PRINT32 pt))"

definition hex_nibble :: "nat \<Rightarrow> byte" where
  "hex_nibble d = (if d < 10 then of_nat (48 + d) else of_nat (87 + d))"

fun push_hex :: "nat \<Rightarrow> nat \<Rightarrow> bytes" where
  "push_hex v 0 = []"
| "push_hex v (Suc k) = hex_nibble (v div 16 ^ k mod 16) # push_hex v k"

definition append_escaped_rune :: "print_tables \<Rightarrow> rune \<Rightarrow> bytes" where
  "append_escaped_rune pt r =
     (if r = 0x22 \<or> r = 0x5c then [0x5c, ucast r]
      else if is_print pt r then encode_utf8 r
      else if r = 0x07 then ascii [CHR 0x5c, CHR ''a'']
      else if r = 0x08 then ascii [CHR 0x5c, CHR ''b'']
      else if r = 0x0c then ascii [CHR 0x5c, CHR ''f'']
      else if r = 0x0a then ascii [CHR 0x5c, CHR ''n'']
      else if r = 0x0d then ascii [CHR 0x5c, CHR ''r'']
      else if r = 0x09 then ascii [CHR 0x5c, CHR ''t'']
      else if r = 0x0b then ascii [CHR 0x5c, CHR ''v'']
      else if r < 0x20 \<or> r = 0x7f then ascii [CHR 0x5c, CHR ''x''] @ push_hex (unat r) 2
      else if r < 0x10000 then ascii [CHR 0x5c, CHR ''u''] @ push_hex (unat r) 4
      else ascii [CHR 0x5c, CHR ''U''] @ push_hex (unat r) 8)"

definition quote :: "print_tables \<Rightarrow> bytes \<Rightarrow> bytes" where
  "quote pt s = 0x22 # concat (map (\<lambda>(i, r, width).
     if width = 1 \<and> r = RUNE_ERROR
     then (if i < length s then ascii [CHR 0x5c, CHR ''x''] @ push_hex (unat (s ! i)) 2 else [])
     else append_escaped_rune pt r) (runes s)) @ [0x22]"

section \<open>Numbers\<close>

datatype num_error_kind = NumSyntax | NumRange

fun num_error_text :: "num_error_kind \<Rightarrow> string" where
  "num_error_text NumSyntax = ''invalid syntax''"
| "num_error_text NumRange = ''value out of range''"

record num_error =
  ne_func :: string
  ne_num :: bytes
  ne_kind :: num_error_kind

definition num_error_display :: "print_tables \<Rightarrow> num_error \<Rightarrow> bytes" where
  "num_error_display pt e = ascii ''strconv.'' @ ascii (ne_func e) @ ascii '': parsing '' @ quote pt (ne_num e) @ ascii '': '' @
     ascii (num_error_text (ne_kind e))"

definition lower_letter :: "byte \<Rightarrow> byte" where
  "lower_letter c = c OR 0x20"

definition is_digit :: "byte \<Rightarrow> bool" where
  "is_digit c \<longleftrightarrow> 0x30 \<le> c \<and> c \<le> 0x39"

definition digit_of :: "byte \<Rightarrow> byte option" where
  "digit_of c =
     (if is_digit c then Some (c - 0x30)
      else if 0x61 \<le> lower_letter c \<and> lower_letter c \<le> 0x7a then Some (lower_letter c - 0x61 + 10)
      else None)"

fun digits_loop :: "bool \<Rightarrow> nat \<Rightarrow> u64 \<Rightarrow> u64 \<Rightarrow> bytes \<Rightarrow> bool \<Rightarrow> u64 \<Rightarrow> (num_error_kind \<times> u64, bool \<times> u64) outcome" where
  "digits_loop base0 base cutoff max_val [] underscores n = Ok (underscores, n)"
| "digits_loop base0 base cutoff max_val (c # cs) underscores n =
     (if c = 0x5f \<and> base0 then digits_loop base0 base cutoff max_val cs True n
      else case digit_of c of
        None \<Rightarrow> Err (NumSyntax, 0)
      | Some d \<Rightarrow>
          if unat d \<ge> base then Err (NumSyntax, 0)
          else if n \<ge> cutoff then Err (NumRange, max_val)
          else let n = n * of_nat base; n1 = n + ucast d in
            if n1 < n \<or> n1 > max_val then Err (NumRange, max_val)
            else digits_loop base0 base cutoff max_val cs underscores n1)"

text \<open>\<^verbatim>\<open>underscore_ok\<close>: \<open>saw\<close> is the class of the last byte.\<close>

fun underscore_loop :: "bool \<Rightarrow> bytes \<Rightarrow> char \<Rightarrow> bool" where
  "underscore_loop hex [] saw = (saw \<noteq> CHR ''_'')"
| "underscore_loop hex (c # cs) saw =
     (if is_digit c \<or> hex \<and> 0x61 \<le> lower_letter c \<and> lower_letter c \<le> 0x66 then underscore_loop hex cs (CHR ''0'')
      else if c = 0x5f then (if saw \<noteq> CHR ''0'' then False else underscore_loop hex cs (CHR ''_''))
      else if saw = CHR ''_'' then False
      else underscore_loop hex cs (CHR ''!''))"

definition underscore_ok :: "bytes \<Rightarrow> bool" where
  "underscore_ok s0 =
     (let s = (case s0 of c # cs \<Rightarrow> if c = 0x2d \<or> c = 0x2b then cs else s0 | [] \<Rightarrow> s0) in
      if length s \<ge> 2 \<and> s ! 0 = 0x30 \<and> lower_letter (s ! 1) \<in> {0x62, 0x6f, 0x78}
      then underscore_loop (lower_letter (s ! 1) = 0x78) (drop 2 s) (CHR ''0'')
      else underscore_loop False s (CHR ''^''))"

definition base_prefix :: "nat \<Rightarrow> bytes \<Rightarrow> (nat \<times> bytes) option" where
  "base_prefix base s =
     (if 2 \<le> base \<and> base \<le> 36 then Some (base, s)
      else if base = 0 then
        (if s ! 0 = 0x30 then
           (if length s \<ge> 3 \<and> lower_letter (s ! 1) = 0x62 then Some (2, drop 2 s)
            else if length s \<ge> 3 \<and> lower_letter (s ! 1) = 0x6f then Some (8, drop 2 s)
            else if length s \<ge> 3 \<and> lower_letter (s ! 1) = 0x78 then Some (16, drop 2 s)
            else Some (8, drop 1 s))
         else Some (10, s))
      else None)"

definition parse_uint_raw :: "bytes \<Rightarrow> nat \<Rightarrow> nat \<Rightarrow> (num_error_kind \<times> u64, u64) outcome" where
  "parse_uint_raw s base bit_size =
     (if s = [] then Err (NumSyntax, 0)
      else case base_prefix base s of
        None \<Rightarrow> Stuck
      | Some (b, digits) \<Rightarrow>
          if bit_size > 64 then Stuck
          else let bits = (if bit_size = 0 then 64 else bit_size);
                 cutoff = (- 1) div of_nat b + 1;
                 max_val = (if bits = 64 then - 1 else push_bit bits 1 - 1)
               in obind (digits_loop (base = 0) b cutoff max_val digits False 0) (\<lambda>(underscores, n).
                 if underscores \<and> \<not> underscore_ok s then Err (NumSyntax, 0) else Ok n))"

definition parse_uint :: "bytes \<Rightarrow> nat \<Rightarrow> nat \<Rightarrow> (num_error, u64) outcome" where
  "parse_uint s base bit_size = omap_err (\<lambda>(kind, _). \<lparr>ne_func = ''ParseUint'', ne_num = s, ne_kind = kind\<rparr>) (parse_uint_raw s base bit_size)"

text \<open>The end of \<^verbatim>\<open>parse_int_raw\<close>: the sign is given to the magnitude \<open>un\<close>.\<close>

definition signed_result :: "bool \<Rightarrow> nat \<Rightarrow> u64 \<Rightarrow> (num_error_kind, int) outcome" where
  "signed_result neg bit_size un =
     (let bits = (if bit_size = 0 then 64 else bit_size); cutoff = push_bit (bits - 1) 1 in
      if \<not> neg \<and> un \<ge> cutoff then Err NumRange
      else if neg \<and> un > cutoff then Err NumRange
      else Ok (sint (if neg then - un else un)))"

definition parse_int_raw :: "bytes \<Rightarrow> nat \<Rightarrow> nat \<Rightarrow> (num_error_kind, int) outcome" where
  "parse_int_raw s base bit_size =
     (if s = [] then Err NumSyntax
      else let neg = (hd s = 0x2d); rest = (if hd s = 0x2b \<or> hd s = 0x2d then tl s else s) in
        case parse_uint_raw rest base bit_size of
          Ok un \<Rightarrow> signed_result neg bit_size un
        | Err (kind, v) \<Rightarrow> if kind = NumRange then signed_result neg bit_size v else Err kind
        | Stuck \<Rightarrow> Stuck)"

definition parse_int :: "bytes \<Rightarrow> nat \<Rightarrow> nat \<Rightarrow> (num_error, int) outcome" where
  "parse_int s base bit_size = omap_err (\<lambda>kind. \<lparr>ne_func = ''ParseInt'', ne_num = s, ne_kind = kind\<rparr>) (parse_int_raw s base bit_size)"

definition parse_bool :: "bytes \<Rightarrow> (num_error, bool) outcome" where
  "parse_bool s =
     (if s \<in> ascii ` {''1'', ''t'', ''T'', ''true'', ''TRUE'', ''True''} then Ok True
      else if s \<in> ascii ` {''0'', ''f'', ''F'', ''false'', ''FALSE'', ''False''} then Ok False
      else Err \<lparr>ne_func = ''ParseBool'', ne_num = s, ne_kind = NumSyntax\<rparr>)"

section \<open>What the number parsers compute\<close>

definition valid_digit :: "nat \<Rightarrow> byte \<Rightarrow> bool" where
  "valid_digit base c = (case digit_of c of Some d \<Rightarrow> unat d < base | None \<Rightarrow> False)"

definition digits_value :: "nat \<Rightarrow> nat \<Rightarrow> bytes \<Rightarrow> nat" where
  "digits_value base n cs = foldl (\<lambda>n c. n * base + unat (the (digit_of c))) n cs"

lemma digits_value_simps [simp]:
  "digits_value base n [] = n"
  "digits_value base n (c # cs) = digits_value base (n * base + unat (the (digit_of c))) cs"
  by (simp_all add: digits_value_def)

lemma digits_value_ge: "0 < base \<Longrightarrow> n \<le> digits_value base n cs"
proof (induction cs arbitrary: n)
  case (Cons c cs)
  have "n \<le> n * base + unat (the (digit_of c))" using Cons.prems by (simp add: trans_le_add1)
  then show ?case using Cons.IH [OF Cons.prems] le_trans by fastforce
qed simp

lemma unat_max64: "unat (- 1 :: u64) = 2 ^ 64 - 1"
  by (simp add: unsigned_minus_1_eq_mask mask_eq_exp_minus_1)

lemma unat_cutoff:
  assumes "2 \<le> base" and "base \<le> 36"
  shows "unat ((- 1) div of_nat base + 1 :: u64) = (2 ^ 64 - 1) div base + 1"
proof -
  have b: "unat (of_nat base :: u64) = base" using assms(2) by (simp add: unat_of_nat)
  have q: "unat ((- 1) div of_nat base :: u64) = (2 ^ 64 - 1) div base" by (simp add: unat_div b unat_max64)
  have "(2 ^ 64 - 1) div base \<le> (2 ^ 64 - 1) div (2 :: nat)" using assms(1) by (intro div_le_mono2) auto
  then show ?thesis by (simp add: unat_plus_if' q)
qed

lemma digits_loop_step:
  fixes n max_val :: u64 and d :: byte
  assumes "2 \<le> base" and "base \<le> 36" and "unat d < base"
  defines "cutoff \<equiv> (- 1) div of_nat base + 1 :: u64" and "m \<equiv> n * of_nat base" and "v \<equiv> unat n * base + unat d"
  shows "n \<ge> cutoff \<or> m + ucast d < m \<or> m + ucast d > max_val \<longleftrightarrow> v > unat max_val"
    and "\<not> n \<ge> cutoff \<Longrightarrow> v \<le> unat max_val \<Longrightarrow> unat (m + ucast d) = v"
proof -
  have c: "n \<ge> cutoff \<longleftrightarrow> 2 ^ 64 \<le> unat n * base"
  proof -
    have "n \<ge> cutoff \<longleftrightarrow> (2 ^ 64 - 1) div base < unat n"
      using unat_cutoff [OF assms(1,2)] by (simp add: cutoff_def word_le_nat_alt less_Suc_eq_le Suc_le_eq)
    also have "\<dots> \<longleftrightarrow> 2 ^ 64 - 1 < unat n * base" using assms(1) by (simp add: div_less_iff_less_mult)
    finally show ?thesis by (simp add: Suc_le_eq [symmetric])
  qed
  have mx: "unat max_val < 2 ^ 64" using unsigned_less [of max_val] by simp
  have b: "unat (of_nat base :: u64) = base" using assms(2) by (simp add: unat_of_nat)
  have dd: "unat (ucast d :: u64) = unat d" by (simp add: unsigned_ucast_eq take_bit_nat_eq_self unsigned_less [THEN less_trans])
  have m: "unat m = unat n * base" if "unat n * base < 2 ^ 64"
    using that by (simp add: m_def unat_mult_lem [THEN iffD1] b)
  have d36: "unat d < 36" using assms(2,3) by simp
  show "n \<ge> cutoff \<or> m + ucast d < m \<or> m + ucast d > max_val \<longleftrightarrow> v > unat max_val"
  proof (cases "n \<ge> cutoff")
    case True
    then show ?thesis using c mx by (simp add: v_def)
  next
    case False
    then have l: "unat n * base < 2 ^ 64" using c by simp
    show ?thesis
    proof (cases "v < 2 ^ 64")
      case True
      then have "unat (m + ucast d) = v" by (simp add: unat_plus_if' m [OF l] dd v_def)
      then show ?thesis using False by (simp add: word_less_nat_alt m [OF l] v_def)
    next
      case big: False
      then have "unat (m + ucast d) = v - 2 ^ 64" by (simp add: unat_plus_if' m [OF l] dd v_def)
      then have "m + ucast d < m" using big l d36 by (simp add: word_less_nat_alt m [OF l] v_def)
      then show ?thesis using big mx by simp
    qed
  qed
  show "unat (m + ucast d) = v" if "\<not> n \<ge> cutoff" "v \<le> unat max_val"
    using that c mx by (simp add: unat_plus_if' m dd v_def)
qed

lemma digits_loop_value:
  assumes "2 \<le> base" and "base \<le> 36" and "list_all (valid_digit base) cs" and "unat n \<le> unat max_val"
  shows "digits_loop False base ((- 1) div of_nat base + 1) max_val cs u n =
    (if digits_value base (unat n) cs \<le> unat max_val then Ok (u, of_nat (digits_value base (unat n) cs)) else Err (NumRange, max_val))"
  using assms(3,4)
proof (induction cs arbitrary: n)
  case (Cons c cs)
  obtain d where d: "digit_of c = Some d" "unat d < base" using Cons.prems(1) by (auto simp: valid_digit_def split: option.splits)
  let ?v = "unat n * base + unat d" and ?n1 = "n * of_nat base + ucast d :: u64"
  note step = digits_loop_step [OF assms(1,2) d(2), of n max_val]
  show ?case
  proof (cases "?v \<le> unat max_val")
    case True
    then have g: "\<not> n \<ge> (- 1) div of_nat base + 1" "\<not> ?n1 < n * of_nat base" "\<not> ?n1 > max_val" using step(1) by auto
    then show ?thesis using Cons.IH [of ?n1] Cons.prems(1) step(2) [OF g(1) True] d True by (simp add: Let_def)
  next
    case False
    then have "\<not> digits_value base ?v cs \<le> unat max_val" using digits_value_ge [of base ?v cs] assms(1) by simp
    then show ?thesis using step(1) False d by (auto simp: Let_def)
  qed
qed simp

lemma digits_loop_valid:
  "digits_loop False base cutoff max_val cs u n = Ok r \<Longrightarrow> list_all (valid_digit base) cs"
  by (induction cs arbitrary: u n) (auto simp: valid_digit_def Let_def split: option.splits if_splits)

lemma max_val_bits:
  assumes "1 \<le> bits" and "bits \<le> 64"
  shows "unat (if bits = 64 then - 1 else push_bit bits 1 - 1 :: u64) = 2 ^ bits - 1"
proof (cases "bits = 64")
  case False
  then have "(2 :: nat) ^ bits < 2 ^ 64" using assms by (intro power_strict_increasing) auto
  then have "unat (2 ^ bits :: u64) = 2 ^ bits" using unat_of_nat [of "2 ^ bits", where 'a = 64] by simp
  moreover have "(1 :: u64) \<le> 2 ^ bits" using calculation by (simp add: word_le_nat_alt)
  ultimately show ?thesis using False by (simp add: push_bit_eq_mult unat_sub)
qed (simp add: unat_max64)

text \<open>
  \<^verbatim>\<open>parse_uint\<close> in a fixed base: exactly the non-empty digit strings of the base whose value fits are accepted, with that value.
\<close>

lemma parse_uint_raw_spec:
  assumes "2 \<le> base" and "base \<le> 36" and "1 \<le> bits" and "bits \<le> 64"
  shows "parse_uint_raw s base bits = Ok n \<longleftrightarrow>
    s \<noteq> [] \<and> list_all (valid_digit base) s \<and> digits_value base 0 s < 2 ^ bits \<and> unat n = digits_value base 0 s"
    and "s \<noteq> [] \<Longrightarrow> list_all (valid_digit base) s \<Longrightarrow> 2 ^ bits \<le> digits_value base 0 s \<Longrightarrow>
      \<exists>v. parse_uint_raw s base bits = Err (NumRange, v) \<and> unat v = 2 ^ bits - 1"
proof -
  define max_val :: u64 where "max_val = (if bits = 64 then - 1 else push_bit bits 1 - 1)"
  have mx: "unat max_val = 2 ^ bits - 1" using max_val_bits [OF assms(3,4)] by (simp add: max_val_def)
  have eq: "parse_uint_raw s base bits = (if s = [] then Err (NumSyntax, 0) else
      obind (digits_loop False base ((- 1) div of_nat base + 1) max_val s False 0) (\<lambda>(u, n). if u \<and> \<not> underscore_ok s then Err (NumSyntax, 0) else Ok n))"
    using assms by (simp add: parse_uint_raw_def base_prefix_def max_val_def)
  have le: "k \<le> 2 ^ bits - Suc 0 \<longleftrightarrow> k < 2 ^ bits" for k by (metis Suc_pred less_Suc_eq_le zero_less_power zero_less_numeral)
  have loop: "list_all (valid_digit base) s \<Longrightarrow> digits_loop False base ((- 1) div of_nat base + 1) max_val s False 0 =
      (if digits_value base 0 s < 2 ^ bits then Ok (False, of_nat (digits_value base 0 s)) else Err (NumRange, max_val))"
    using digits_loop_value [OF assms(1,2), of s 0 max_val False] mx le by simp
  have of: "unat (of_nat k :: u64) = k" if "k < 2 ^ bits" for k
    using that power_increasing [of bits 64 "2 :: nat"] assms(4) by (simp add: unat_of_nat)
  show "parse_uint_raw s base bits = Ok n \<longleftrightarrow>
    s \<noteq> [] \<and> list_all (valid_digit base) s \<and> digits_value base 0 s < 2 ^ bits \<and> unat n = digits_value base 0 s"
  proof (cases "list_all (valid_digit base) s")
    case True
    then show ?thesis unfolding eq loop [OF True]
      using of [of "digits_value base 0 s"] by (cases "digits_value base 0 s < 2 ^ bits") (auto simp: word_unat_eq_iff)
  next
    case False
    then have "digits_loop False base ((- 1) div of_nat base + 1) max_val s False 0 \<noteq> Ok r" for r
      using digits_loop_valid by blast
    then show ?thesis unfolding eq using False by simp
  qed
  assume "s \<noteq> []" "list_all (valid_digit base) s" "2 ^ bits \<le> digits_value base 0 s"
  then show "\<exists>v. parse_uint_raw s base bits = Err (NumRange, v) \<and> unat v = 2 ^ bits - 1"
    unfolding eq by (simp add: loop mx)
qed

lemma digits_loop_range: "digits_loop base0 base cutoff max_val cs u n = Err (NumRange, v) \<Longrightarrow> v = max_val"
  by (induction cs arbitrary: u n) (auto simp: Let_def split: option.splits if_splits)

lemma parse_uint_raw_range:
  "parse_uint_raw s base bits = Err (NumRange, v) \<Longrightarrow> 1 \<le> bits \<Longrightarrow> bits \<le> 64 \<Longrightarrow> unat v = 2 ^ bits - 1"
  using max_val_bits [of bits]
  by (auto simp: parse_uint_raw_def Let_def obind_eq_Err dest!: digits_loop_range split: option.splits prod.splits if_splits)

text \<open>
  A number out of range is reported at the digit where its value passes the maximum, before the rest of the text is looked at: what
  counts is the value of the digits in front of the first byte that is none.
\<close>

lemma digits_loop_range_iff:
  assumes "2 \<le> base" and "base \<le> 36" and "unat n \<le> unat max_val"
  shows "(\<exists>v. digits_loop False base ((- 1) div of_nat base + 1) max_val cs u n = Err (NumRange, v)) \<longleftrightarrow>
    unat max_val < digits_value base (unat n) (takeWhile (valid_digit base) cs)"
  using assms(3)
proof (induction cs arbitrary: n)
  case (Cons c cs)
  show ?case
  proof (cases "valid_digit base c")
    case True
    then obtain d where d: "digit_of c = Some d" "unat d < base" by (auto simp: valid_digit_def split: option.splits)
    let ?v = "unat n * base + unat d" and ?n1 = "n * of_nat base + ucast d :: u64"
    note step = digits_loop_step [OF assms(1,2) d(2), of n max_val]
    show ?thesis
    proof (cases "?v \<le> unat max_val")
      case le: True
      then have g: "\<not> n \<ge> (- 1) div of_nat base + 1" "\<not> ?n1 < n * of_nat base" "\<not> ?n1 > max_val" using step(1) by auto
      then show ?thesis using Cons.IH [of ?n1] step(2) [OF g(1) le] d le True by (simp add: Let_def)
    next
      case False
      then have "unat max_val < digits_value base ?v (takeWhile (valid_digit base) cs)"
        using digits_value_ge [of base ?v "takeWhile (valid_digit base) cs"] assms(1) by simp
      then show ?thesis using step(1) False d True by (auto simp: Let_def)
    qed
  qed (use Cons.prems in \<open>auto simp: valid_digit_def split: option.splits\<close>)
qed simp

lemma parse_uint_raw_range_iff:
  assumes "2 \<le> base" and "base \<le> 36" and "1 \<le> bits" and "bits \<le> 64"
  shows "(\<exists>v. parse_uint_raw s base bits = Err (NumRange, v)) \<longleftrightarrow> 2 ^ bits \<le> digits_value base 0 (takeWhile (valid_digit base) s)"
proof -
  define max_val :: u64 where "max_val = (if bits = 64 then - 1 else push_bit bits 1 - 1)"
  have mx: "unat max_val = 2 ^ bits - 1" using max_val_bits [OF assms(3,4)] by (simp add: max_val_def)
  have lt: "2 ^ bits - 1 < k \<longleftrightarrow> 2 ^ bits \<le> k" for k :: nat
    by (metis Suc_le_eq Suc_pred' zero_less_numeral zero_less_power)
  have eq: "parse_uint_raw s base bits = (if s = [] then Err (NumSyntax, 0) else
      obind (digits_loop False base ((- 1) div of_nat base + 1) max_val s False 0) (\<lambda>(u, n). if u \<and> \<not> underscore_ok s then Err (NumSyntax, 0) else Ok n))"
    using assms by (simp add: parse_uint_raw_def base_prefix_def max_val_def)
  have "(\<exists>v. parse_uint_raw s base bits = Err (NumRange, v)) \<longleftrightarrow> s \<noteq> [] \<and>
      (\<exists>v. digits_loop False base ((- 1) div of_nat base + 1) max_val s False 0 = Err (NumRange, v))"
    unfolding eq by (auto simp: obind_eq_Err)
  then show ?thesis using digits_loop_range_iff [OF assms(1,2), of 0 max_val s False] lt by (auto simp: mx)
qed

text \<open>
  \<^verbatim>\<open>parse_int\<close>: an optional sign and digits whose signed value fits. The magnitude of a number out of range is clamped to
  \<open>2\<^sup>b - 1\<close>, which exceeds both ends of the signed range when \<open>b\<close> is at least two. In a size of one bit the clamped magnitude \<open>1\<close> passes,
  so every negative text whose leading digits stand for more than one is read as \<open>-1\<close>, as in Go.
\<close>

definition split_sign :: "bytes \<Rightarrow> bool \<times> bytes" where
  "split_sign s = (hd s = 0x2d, if hd s = 0x2b \<or> hd s = 0x2d then tl s else s)"

lemma sint_in_range: "- (2 ^ 63) \<le> i \<Longrightarrow> i < 2 ^ 63 \<Longrightarrow> sint (word_of_int i :: u64) = i"
  using signed_take_bit_int_eq_self [of 63 i] by (simp add: signed_of_int)

lemma sint_small:
  fixes w :: u64
  assumes "unat w = k"
  shows "k < 2 ^ 63 \<Longrightarrow> sint w = int k" and "k \<le> 2 ^ 63 \<Longrightarrow> sint (- w) = - int k"
proof -
  have w: "w = word_of_int (int k)" "- w = word_of_int (- int k)" using assms by auto
  show "sint w = int k" if "k < 2 ^ 63" unfolding w(1) using that by (intro sint_in_range) auto
  show "sint (- w) = - int k" if "k \<le> 2 ^ 63" unfolding w(2) using that by (intro sint_in_range) auto
qed

lemma signed_result_spec:
  assumes "1 \<le> bits" and "bits \<le> 64" and "unat un = k"
  shows "signed_result neg bits un = Ok i \<longleftrightarrow>
    i = (if neg then - int k else int k) \<and> - (2 ^ (bits - 1)) \<le> i \<and> i < 2 ^ (bits - 1)"
proof -
  define p where "p = (2 :: nat) ^ (bits - 1)"
  have pow: "p \<le> 2 ^ 63" "0 < p" unfolding p_def using assms(2) by (rule_tac power_increasing) auto
  have cut: "unat (push_bit (bits - 1) 1 :: u64) = p"
    using pow unat_of_nat [of "2 ^ (bits - 1)", where 'a = 64] by (simp add: push_bit_eq_mult p_def)
  have i: "(2 :: int) ^ (bits - 1) = int p" by (simp add: p_def)
  have b: "(if bits = 0 then 64 else bits) = bits" using assms(1) by simp
  show ?thesis
    using pow sint_small [OF assms(3)] unfolding signed_result_def Let_def b word_le_nat_alt word_less_nat_alt cut i assms(3)
    by (cases neg) auto
qed

lemma parse_int_raw_spec:
  assumes "2 \<le> base" and "base \<le> 36" and "2 \<le> bits" and "bits \<le> 64" and "split_sign s = (neg, rest)"
  shows "parse_int_raw s base bits = Ok i \<longleftrightarrow>
    rest \<noteq> [] \<and> s \<noteq> [] \<and> list_all (valid_digit base) rest \<and>
    i = (if neg then - int (digits_value base 0 rest) else int (digits_value base 0 rest)) \<and> - (2 ^ (bits - 1)) \<le> i \<and> i < 2 ^ (bits - 1)"
proof -
  have pow: "(2 :: nat) ^ bits = 2 * 2 ^ (bits - 1)" "(2 :: nat) \<le> 2 ^ (bits - 1)"
    using assms(3) power_increasing [of 1 "bits - 1" "2 :: nat"] by (cases bits; simp)+
  have ipow: "(2 :: int) \<le> 2 ^ (bits - 1)" using assms(3) power_increasing [of 1 "bits - 1" "2 :: int"] by simp
  have big: "signed_result neg bits v \<noteq> Ok i" if "parse_uint_raw rest base bits = Err (NumRange, v)" for v i
    using signed_result_spec [OF _ assms(4) parse_uint_raw_range [OF that], of neg i] pow ipow assms(3,4) by (auto split: if_splits)
  have eq: "parse_int_raw s base bits = Ok i \<longleftrightarrow> s \<noteq> [] \<and> (\<exists>un. parse_uint_raw rest base bits = Ok un \<and> signed_result neg bits un = Ok i)"
    using assms(5) big by (auto simp: parse_int_raw_def split_sign_def Let_def split: outcome.splits if_splits)
  have u: "parse_uint_raw rest base bits = Ok un \<longleftrightarrow> rest \<noteq> [] \<and> list_all (valid_digit base) rest \<and>
      digits_value base 0 rest < 2 ^ bits \<and> unat un = digits_value base 0 rest" for un
    using parse_uint_raw_spec(1) [OF assms(1,2) _ assms(4), of rest] assms(3) by simp
  have v: "signed_result neg bits un = Ok i \<longleftrightarrow> i = (if neg then - int (digits_value base 0 rest) else int (digits_value base 0 rest)) \<and>
      - (2 ^ (bits - 1)) \<le> i \<and> i < 2 ^ (bits - 1)" if "unat un = digits_value base 0 rest" for un
    using signed_result_spec [OF _ assms(4) that] assms(3) by simp
  have fits: "digits_value base 0 rest < 2 ^ bits"
    if "i = (if neg then - int (digits_value base 0 rest) else int (digits_value base 0 rest))" "- (2 ^ (bits - 1)) \<le> i" "i < 2 ^ (bits - 1)"
  proof -
    have "int (digits_value base 0 rest) \<le> int (2 ^ (bits - 1))" using that by (auto split: if_splits)
    then have "digits_value base 0 rest \<le> 2 ^ (bits - 1)" by (simp only: of_nat_le_iff)
    then show ?thesis using pow by linarith
  qed
  have ex: "\<exists>un :: u64. unat un = k" if "k < 2 ^ bits" for k
    using that power_increasing [of bits 64 "2 :: nat"] assms(4) by (intro exI [of _ "of_nat k"]) (simp add: unat_of_nat)
  show ?thesis unfolding eq u using v ex fits by (metis (no_types, lifting))
qed

lemma parse_int_raw_bit:
  assumes "2 \<le> base" and "base \<le> 36" and "split_sign s = (neg, rest)"
  defines "m \<equiv> int (digits_value base 0 rest)"
  shows "parse_int_raw s base 1 = Ok i \<longleftrightarrow> s \<noteq> [] \<and>
    (rest \<noteq> [] \<and> list_all (valid_digit base) rest \<and> i = (if neg then - m else m) \<and> - 1 \<le> i \<and> i < 1 \<or>
     neg \<and> 1 < digits_value base 0 (takeWhile (valid_digit base) rest) \<and> i = - 1)"
proof -
  have big: "signed_result neg 1 v = Ok i \<longleftrightarrow> neg \<and> i = - 1" if "parse_uint_raw rest base 1 = Err (NumRange, v)" for v i
    using signed_result_spec [of 1 v 1 neg i] parse_uint_raw_range [OF that] by auto
  have range: "(\<exists>v. parse_uint_raw rest base 1 = Err (NumRange, v)) \<longleftrightarrow> 1 < digits_value base 0 (takeWhile (valid_digit base) rest)"
    using parse_uint_raw_range_iff [OF assms(1,2), of 1 rest] by (simp add: Suc_le_eq numeral_2_eq_2)
  have u: "parse_uint_raw rest base 1 = Ok un \<longleftrightarrow> rest \<noteq> [] \<and> list_all (valid_digit base) rest \<and>
      digits_value base 0 rest < 2 \<and> unat un = digits_value base 0 rest" for un
    using parse_uint_raw_spec(1) [OF assms(1,2), of 1 rest] by simp
  have v: "signed_result neg 1 un = Ok i \<longleftrightarrow> i = (if neg then - m else m) \<and> - 1 \<le> i \<and> i < 1"
    if "unat un = digits_value base 0 rest" for un i
    using signed_result_spec [OF _ _ that, of 1] by (simp add: m_def)
  have ok: "(\<exists>un. parse_uint_raw rest base 1 = Ok un \<and> signed_result neg 1 un = Ok i) \<longleftrightarrow>
      rest \<noteq> [] \<and> list_all (valid_digit base) rest \<and> i = (if neg then - m else m) \<and> - 1 \<le> i \<and> i < 1"
  proof
    assume r: "rest \<noteq> [] \<and> list_all (valid_digit base) rest \<and> i = (if neg then - m else m) \<and> - 1 \<le> i \<and> i < 1"
    then have "digits_value base 0 rest < 2" by (auto simp: m_def split: if_splits)
    then have "unat (of_nat (digits_value base 0 rest) :: u64) = digits_value base 0 rest" by (simp add: unat_of_nat)
    with r \<open>digits_value base 0 rest < 2\<close> show "\<exists>un. parse_uint_raw rest base 1 = Ok un \<and> signed_result neg 1 un = Ok i"
      by (metis u v)
  qed (use u v in blast)
  have "parse_int_raw s base 1 = Ok i \<longleftrightarrow> s \<noteq> [] \<and> ((\<exists>un. parse_uint_raw rest base 1 = Ok un \<and> signed_result neg 1 un = Ok i) \<or>
      (\<exists>v. parse_uint_raw rest base 1 = Err (NumRange, v)) \<and> neg \<and> i = - 1)"
    using assms(3) big by (auto simp: parse_int_raw_def split_sign_def Let_def split: outcome.splits if_splits)
  then show ?thesis unfolding ok range by blast
qed

text \<open>A bit size of zero means 64.\<close>

lemma parse_uint_raw_zero: "parse_uint_raw s base 0 = parse_uint_raw s base 64"
  by (simp add: parse_uint_raw_def split: option.split)

lemma parse_int_raw_zero: "parse_int_raw s base 0 = parse_int_raw s base 64"
proof -
  have eq: "signed_result neg 0 un = signed_result neg 64 un" for neg un by (simp add: signed_result_def)
  show ?thesis unfolding parse_int_raw_def parse_uint_raw_zero eq by (rule refl)
qed

text \<open>The statements about both parsers, for every bit size.\<close>

definition width_of :: "nat \<Rightarrow> nat" where
  "width_of bit_size = (if bit_size = 0 then 64 else bit_size)"

lemma raw_width:
  "parse_uint_raw s base (width_of bit_size) = parse_uint_raw s base bit_size"
  "parse_int_raw s base (width_of bit_size) = parse_int_raw s base bit_size"
  by (simp_all add: width_of_def parse_uint_raw_zero parse_int_raw_zero)

lemma parse_uint_ok:
  assumes "2 \<le> base" and "base \<le> 36" and "bit_size \<le> 64"
  shows "parse_uint s base bit_size = Ok n \<longleftrightarrow>
    s \<noteq> [] \<and> list_all (valid_digit base) s \<and> digits_value base 0 s < 2 ^ width_of bit_size \<and> unat n = digits_value base 0 s"
proof -
  have "parse_uint s base bit_size = Ok n \<longleftrightarrow> parse_uint_raw s base (width_of bit_size) = Ok n"
    by (cases "parse_uint_raw s base bit_size") (auto simp: parse_uint_def raw_width)
  then show ?thesis using parse_uint_raw_spec(1) [OF assms(1,2), of "width_of bit_size" s n] assms(3) by (simp add: width_of_def)
qed

lemma parse_int_ok:
  assumes "2 \<le> base" and "base \<le> 36" and "bit_size \<le> 64" and "split_sign s = (neg, rest)"
  defines "m \<equiv> int (digits_value base 0 rest)"
  shows "parse_int s base bit_size = Ok i \<longleftrightarrow> s \<noteq> [] \<and>
    (rest \<noteq> [] \<and> list_all (valid_digit base) rest \<and> i = (if neg then - m else m) \<and>
       - (2 ^ (width_of bit_size - 1)) \<le> i \<and> i < 2 ^ (width_of bit_size - 1) \<or>
     bit_size = 1 \<and> neg \<and> 1 < digits_value base 0 (takeWhile (valid_digit base) rest) \<and> i = - 1)"
proof -
  have eq: "parse_int s base bit_size = Ok i \<longleftrightarrow> parse_int_raw s base (width_of bit_size) = Ok i"
    by (cases "parse_int_raw s base bit_size") (auto simp: parse_int_def raw_width)
  show ?thesis
  proof (cases "bit_size = 1")
    case True
    then show ?thesis unfolding eq m_def using parse_int_raw_bit [OF assms(1,2,4), of i] by (simp add: width_of_def)
  next
    case False
    then show ?thesis unfolding eq m_def using parse_int_raw_spec [OF assms(1,2) _ _ assms(4), of "width_of bit_size" i] assms(3)
      by (auto simp: width_of_def)
  qed
qed

end
