(* ===== verification/Netip.thy ===== *)
theory Netip
  imports Strconv Encodings Cbor_Dec
begin

text \<open>
  The IP addresses of \<^verbatim>\<open>crates/transport/src/addr.rs\<close>: Go's \<^verbatim>\<open>netip.ParseAddr\<close>, \<^verbatim>\<open>ParseAddrPort\<close> and their texts. Strings
  are bytes; an address is its octets in network order. The parsers read with \<^verbatim>\<open>get\<close> and \<^verbatim>\<open>unwrap_or_default\<close> and cannot panic.
\<close>

datatype ip_addr = V4 bytes | V6 bytes

definition is_ipv4 :: "ip_addr \<Rightarrow> bool" where
  "is_ipv4 a = (case a of V4 _ \<Rightarrow> True | V6 _ \<Rightarrow> False)"

section \<open>The standard library's lossy strings\<close>

text \<open>How many of the bytes that have to follow a first byte are there.\<close>

definition matched :: "nat \<Rightarrow> byte \<Rightarrow> byte \<Rightarrow> bytes \<Rightarrow> nat" where
  "matched sz lo hi rest = (case rest of
     b1 # r1 \<Rightarrow> if \<not> (lo \<le> b1 \<and> b1 \<le> hi) then 0 else if sz = 2 then 1
       else (case r1 of
         b2 # r2 \<Rightarrow> if \<not> cont_byte b2 then 1 else if sz = 3 then 2
           else (case r2 of b3 # r3 \<Rightarrow> if cont_byte b3 then 3 else 2 | [] \<Rightarrow> 2)
       | [] \<Rightarrow> 1)
   | [] \<Rightarrow> 0)"

function utf8_lossy :: "bytes \<Rightarrow> bytes" where
  "utf8_lossy [] = []"
| "utf8_lossy (b0 # rest) =
     (if b0 < 0x80 then b0 # utf8_lossy rest
      else case first_byte b0 of
        None \<Rightarrow> encode_utf8 RUNE_ERROR @ utf8_lossy rest
      | Some (sz, lo, hi) \<Rightarrow> (let n = matched sz lo hi rest in
          if Suc n = sz then (b0 # take n rest) @ utf8_lossy (drop n rest)
          else encode_utf8 RUNE_ERROR @ utf8_lossy (drop n rest)))"
  by pat_completeness auto
termination by (relation "measure length") auto

section \<open>Parsing\<close>

definition addr_error :: "print_tables \<Rightarrow> bytes \<Rightarrow> string \<Rightarrow> bytes \<Rightarrow> bytes" where
  "addr_error pt input msg at =
     (if at = [] then ascii ''ParseAddr('' @ quote pt input @ ascii ''): '' @ ascii msg
      else ascii ''ParseAddr('' @ quote pt input @ ascii ''): '' @ ascii msg @ ascii '' (at '' @ quote pt at @ ascii '')'')"

text \<open>\<open>s\<close> is the whole field text, \<open>i\<close> the index of the next byte.\<close>

function ipv4_loop :: "print_tables \<Rightarrow> bytes \<Rightarrow> bytes \<Rightarrow> nat \<Rightarrow> nat \<Rightarrow> nat \<Rightarrow> nat \<Rightarrow> bytes \<Rightarrow> (bytes, nat \<times> nat \<times> bytes) outcome" where
  "ipv4_loop pt input s i val pos dig_len octs =
     (if i < length s then
        (let c = s ! i in
         if is_digit c then
           (if dig_len = 1 \<and> val = 0 then Err (addr_error pt input ''IPv4 field has octet with leading zero'' [])
            else let val = val * 10 + unat (c - 0x30) in
              if val > 255 then Err (addr_error pt input ''IPv4 field has value >255'' [])
              else ipv4_loop pt input s (i + 1) val pos (dig_len + 1) octs)
         else if c = 0x2e then
           (if i = 0 \<or> i = length s - 1 \<or> s ! (i - 1) = 0x2e
            then Err (addr_error pt input ''IPv4 field must have at least one digit'' (drop i s))
            else if pos = 3 then Err (addr_error pt input ''IPv4 address too long'' [])
            else ipv4_loop pt input s (i + 1) 0 (pos + 1) 0 (octs[pos := of_nat val]))
         else Err (addr_error pt input ''unexpected character'' (drop i s)))
      else Ok (val, pos, octs))"
  by pat_completeness auto
termination by (relation "measure (\<lambda>(pt, input, s, i, val, pos, dig_len, octs). length s - i)") auto

declare ipv4_loop.simps [simp del]

definition parse_ipv4_fields :: "print_tables \<Rightarrow> bytes \<Rightarrow> nat \<Rightarrow> nat \<Rightarrow> (bytes, bytes) outcome" where
  "parse_ipv4_fields pt input off end =
     (let s = (if off \<le> end \<and> end \<le> length input then take (end - off) (drop off input) else []) in
      obind (ipv4_loop pt input s 0 0 0 0 [0, 0, 0, 0]) (\<lambda>(val, pos, octs).
        if pos < 3 then Err (addr_error pt input ''IPv4 address too short'' []) else Ok (octs[3 := of_nat val])))"

definition parse_ipv4 :: "print_tables \<Rightarrow> bytes \<Rightarrow> (bytes, bytes) outcome" where
  "parse_ipv4 pt s = parse_ipv4_fields pt s 0 (length s)"

definition hex_value :: "byte \<Rightarrow> nat option" where
  "hex_value c =
     (if is_digit c then Some (unat (c - 0x30))
      else if 0x61 \<le> c \<and> c \<le> 0x66 then Some (unat (c - 0x61) + 10)
      else if 0x41 \<le> c \<and> c \<le> 0x46 then Some (unat (c - 0x41) + 10)
      else None)"

text \<open>The hex number at the start of \<open>s\<close>: how many digits it has and its value.\<close>

fun hex_group :: "print_tables \<Rightarrow> bytes \<Rightarrow> bytes \<Rightarrow> bytes \<Rightarrow> nat \<Rightarrow> nat \<Rightarrow> (bytes, nat \<times> nat) outcome" where
  "hex_group pt input s [] off acc = Ok (off, acc)"
| "hex_group pt input s (c # cs) off acc = (case hex_value c of
     None \<Rightarrow> Ok (off, acc)
   | Some d \<Rightarrow> (let acc = acc * 16 + d in
       if off > 3 then Err (addr_error pt input ''each group must have 4 or less digits'' s)
       else if acc > 0xffff then Err (addr_error pt input ''IPv6 field has value >=2^16'' s)
       else hex_group pt input s cs (off + 1) acc))"

text \<open>The loop of \<^verbatim>\<open>parse_ipv6\<close>; its result is the state after a \<^verbatim>\<open>break\<close> or the last round.\<close>

function ipv6_loop :: "print_tables \<Rightarrow> bytes \<Rightarrow> bytes \<Rightarrow> nat \<Rightarrow> bytes \<Rightarrow> bytes \<Rightarrow> nat option \<Rightarrow>
    (bytes, nat \<times> bytes \<times> bytes \<times> nat option) outcome" where
  "ipv6_loop pt input zone i s ip ellipsis =
     (if i < 16 then
        obind (hex_group pt input s s 0 0) (\<lambda>(off, acc).
          if off = 0 then Err (addr_error pt input ''each colon-separated field must have at least one digit'' s)
          else if off < length s \<and> s ! off = 0x2e then
            (if ellipsis = None \<and> i \<noteq> 12
             then Err (addr_error pt input ''embedded IPv4 address must replace the final 2 fields of the address'' s)
             else if i + 4 > 16
             then Err (addr_error pt input ''too many hex fields to fit an embedded IPv4 at the end of the address'' s)
             else let end = length input - (if zone \<noteq> [] then length zone + 1 else 0) in
               obind (parse_ipv4_fields pt input (end - length s) end) (\<lambda>v4.
                 Ok (i + 4, [], take i ip @ v4 @ drop (i + 4) ip, ellipsis)))
          else let ip = ip[i := of_nat (acc div 256), i + 1 := of_nat acc]; i = i + 2; s = drop off s in
            if s = [] then Ok (i, s, ip, ellipsis)
            else if hd s \<noteq> 0x3a then Err (addr_error pt input ''unexpected character, want colon'' s)
            else if length s = 1 then Err (addr_error pt input ''colon must be followed by more characters'' s)
            else let s = tl s in
              if s \<noteq> [] \<and> hd s = 0x3a then
                (if ellipsis \<noteq> None then Err (addr_error pt input ''multiple :: in address'' s)
                 else let s = tl s in
                   if s = [] then Ok (i, s, ip, Some i) else ipv6_loop pt input zone i s ip (Some i))
              else ipv6_loop pt input zone i s ip ellipsis)
      else Ok (i, s, ip, ellipsis))"
  by pat_completeness auto
termination by (relation "measure (\<lambda>(pt, input, zone, i, s, ip, ellipsis). 16 - i)") auto

declare ipv6_loop.simps [simp del]

definition zone_string :: "bytes \<Rightarrow> bytes option" where
  "zone_string zone = (if zone = [] then None else Some (utf8_lossy zone))"

text \<open>The groups after the ellipsis move to the end, and zeros take their place.\<close>

definition expand_ellipsis :: "nat \<Rightarrow> nat \<Rightarrow> bytes \<Rightarrow> bytes" where
  "expand_ellipsis e i ip =
     (let n = 16 - i;
          ip = foldl (\<lambda>ip j. ip[j + n := ip ! j]) ip (rev [e..<i])
      in foldl (\<lambda>ip j. ip[j := 0]) ip [e..<e + n])"

definition position :: "byte \<Rightarrow> bytes \<Rightarrow> nat option" where
  "position c s = (let n = length (takeWhile (\<lambda>x. x \<noteq> c) s) in if n < length s then Some n else None)"

definition parse_ipv6 :: "print_tables \<Rightarrow> bytes \<Rightarrow> (bytes, bytes \<times> bytes option) outcome" where
  "parse_ipv6 pt input =
     (case (case position 0x25 input of Some i \<Rightarrow> (take i input, Some (drop (i + 1) input)) | None \<Rightarrow> (input, None)) of (s, z) \<Rightarrow>
      if z = Some [] then Err (addr_error pt input ''zone must be a non-empty string'' [])
      else let zone = (case z of Some zone \<Rightarrow> zone | None \<Rightarrow> []);
             lead = (take 2 s = [0x3a, 0x3a]); s = (if lead then drop 2 s else s)
        in if lead \<and> s = [] then Ok (replicate 16 0, zone_string zone)
        else obind (ipv6_loop pt input zone 0 s (replicate 16 0) (if lead then Some 0 else None)) (\<lambda>(i, s, ip, ellipsis).
          if s \<noteq> [] then Err (addr_error pt input ''trailing garbage after address'' s)
          else if i < 16 then
            (case ellipsis of
               None \<Rightarrow> Err (addr_error pt input ''address string too short'' [])
             | Some e \<Rightarrow> Ok (expand_ellipsis e i ip, zone_string zone))
          else if ellipsis \<noteq> None then Err (addr_error pt input ''the :: must expand to at least one field of zeros'' [])
          else Ok (ip, zone_string zone)))"

fun parse_addr_scan :: "print_tables \<Rightarrow> bytes \<Rightarrow> bytes \<Rightarrow> (bytes, ip_addr \<times> bytes option) outcome" where
  "parse_addr_scan pt s [] = Err (addr_error pt s ''unable to parse IP'' [])"
| "parse_addr_scan pt s (c # cs) =
     (if c = 0x2e then obind (parse_ipv4 pt s) (\<lambda>a. Ok (V4 a, None))
      else if c = 0x3a then obind (parse_ipv6 pt s) (\<lambda>(a, zone). Ok (V6 a, zone))
      else if c = 0x25 then Err (addr_error pt s ''missing IPv6 address'' [])
      else parse_addr_scan pt s cs)"

definition parse_addr :: "print_tables \<Rightarrow> bytes \<Rightarrow> (bytes, ip_addr \<times> bytes option) outcome" where
  "parse_addr pt s = parse_addr_scan pt s s"

definition parse_addr_port :: "print_tables \<Rightarrow> bytes \<Rightarrow> (bytes, ip_addr \<times> bytes option \<times> u16) outcome" where
  "parse_addr_port pt b = (case rposition (\<lambda>c. c = 0x3a) b of
     None \<Rightarrow> Err (ascii ''not an ip:port'')
   | Some i \<Rightarrow>
      (let ip = take i b; port = drop (i + 1) b in
       if ip = [] then Err (ascii ''no IP'')
       else if port = [] then Err (ascii ''no port'')
       else let v6 = (hd ip = 0x5b) in
         if v6 \<and> (length ip < 2 \<or> last ip \<noteq> 0x5d) then Err (ascii ''missing ]'')
         else let ip = (if v6 then take (length ip - 2) (drop 1 ip) else ip);
                invalid_port = ascii ''invalid port '' @ quote pt port @ ascii '' parsing '' @ quote pt b
           in if \<not> utf8_valid port then Err invalid_port
           else case parse_uint port 10 16 of
             Stuck \<Rightarrow> Stuck
           | Err _ \<Rightarrow> Err invalid_port
           | Ok p \<Rightarrow>
              if unat p > 0xffff then Err invalid_port
              else obind (parse_addr pt ip) (\<lambda>(addr, zone).
                if is_ipv4 addr \<and> v6 then
                  Err (ascii ''invalid ip:port '' @ quote pt b @ ascii '', square brackets can only be used with IPv6 addresses'')
                else if \<not> is_ipv4 addr \<and> \<not> v6 then
                  Err (ascii ''invalid ip:port '' @ quote pt b @ ascii '', IPv6 addresses must be surrounded by square brackets'')
                else Ok (addr, zone, ucast p))))"

section \<open>Printing\<close>

fun show_hex :: "nat \<Rightarrow> bytes" where
  "show_hex n = (if n < 16 then [hex_nibble n] else show_hex (n div 16) @ [hex_nibble (n mod 16)])"

declare show_hex.simps [simp del]

definition dec_text :: "nat \<Rightarrow> bytes" where
  "dec_text n = ascii (show_nat n)"

definition append_to4 :: "bytes \<Rightarrow> bytes" where
  "append_to4 octets = concat (map (\<lambda>(i, v). (if i > 0 then [0x2e] else []) @ dec_text (unat v)) (List.enumerate 0 octets))"

fun segments :: "bytes \<Rightarrow> nat list" where
  "segments (a # b # rest) = (unat a * 256 + unat b) # segments rest"
| "segments _ = []"

text \<open>The first longest run of at least two zero groups; \<open>None\<close> where the code has \<^verbatim>\<open>usize::MAX\<close>.\<close>

definition zero_run :: "nat list \<Rightarrow> nat \<Rightarrow> (nat \<times> nat) option \<times> nat \<Rightarrow> (nat \<times> nat) option \<times> nat" where
  "zero_run g i st = (let j = i + length (takeWhile (\<lambda>x. x = 0) (drop i g)); l = j - i in
     if l \<ge> 2 \<and> l > snd st then (Some (i, j), l) else st)"

definition find_zeros :: "nat list \<Rightarrow> (nat \<times> nat) option" where
  "find_zeros g = fst (fold (zero_run g) [0..<8] (None, 0))"

text \<open>The run ends after its start; the test \<open>ze < i\<close> is never met and only makes the recursion end for any argument.\<close>

function to6_loop :: "nat list \<Rightarrow> (nat \<times> nat) option \<Rightarrow> nat \<Rightarrow> bytes" where
  "to6_loop g zeros i =
     (if i < 8 then
        (case zeros of
           Some (zs, ze) \<Rightarrow>
             if i = zs then
               [0x3a, 0x3a] @ (if ze \<ge> 8 \<or> ze < i then [] else show_hex (g ! ze) @ to6_loop g zeros (ze + 1))
             else (if i > 0 then [0x3a] else []) @ show_hex (g ! i) @ to6_loop g zeros (i + 1)
         | None \<Rightarrow> (if i > 0 then [0x3a] else []) @ show_hex (g ! i) @ to6_loop g zeros (i + 1))
      else [])"
  by pat_completeness auto
termination by (relation "measure (\<lambda>(g, zeros, i). 8 - i)") auto

declare to6_loop.simps [simp del]

definition append_to6_or_4in6 :: "bytes \<Rightarrow> bytes option \<Rightarrow> bytes" where
  "append_to6_or_4in6 octets zone =
     (if list_all (\<lambda>x. x = 0) (take 10 octets) \<and> octets ! 10 = 0xff \<and> octets ! 11 = 0xff
      then ascii ''::ffff:'' @ append_to4 (drop 12 octets)
      else let g = segments octets in to6_loop g (find_zeros g) 0) @
     (case zone of Some z \<Rightarrow> if z \<noteq> [] then 0x25 # z else [] | None \<Rightarrow> [])"

definition addr_port_string :: "ip_addr \<Rightarrow> bytes option \<Rightarrow> u16 \<Rightarrow> bytes" where
  "addr_port_string ip zone port =
     (case ip of V4 a \<Rightarrow> append_to4 a | V6 a \<Rightarrow> [0x5b] @ append_to6_or_4in6 a zone @ [0x5d]) @ 0x3a # dec_text (unat port)"

end
