(* ===== verification/Go_Url.thy ===== *)
theory Go_Url
  imports Netip
begin

text \<open>
  The URLs of \<^verbatim>\<open>crates/transport/src/addr.rs\<close>: Go's \<^verbatim>\<open>url.Parse\<close> and \<^verbatim>\<open>URL.String\<close> as relay URLs need them, and the transport
  addresses that hold them. Strings are bytes. The tables of printable runes and of the cases of letters are arguments.
\<close>

section \<open>Escaping\<close>

datatype encoding = EncPath | EncHost | EncZone | EncUserPassword | EncQueryComponent | EncFragment

definition UPPERHEX :: bytes where "UPPERHEX = ascii ''0123456789ABCDEF''"

definition is_hex :: "byte \<Rightarrow> bool" where
  "is_hex c \<longleftrightarrow> is_digit c \<or> 0x61 \<le> c \<and> c \<le> 0x66 \<or> 0x41 \<le> c \<and> c \<le> 0x46"

definition unhex :: "byte \<Rightarrow> byte" where
  "unhex c = 9 * drop_bit 6 c + (c AND 15)"

definition escape_error :: "print_tables \<Rightarrow> bytes \<Rightarrow> bytes" where
  "escape_error pt s = ascii ''invalid URL escape '' @ quote pt s"

definition is_alpha :: "byte \<Rightarrow> bool" where
  "is_alpha c \<longleftrightarrow> 0x41 \<le> c \<and> c \<le> 0x5a \<or> 0x61 \<le> c \<and> c \<le> 0x7a"

definition is_alnum :: "byte \<Rightarrow> bool" where
  "is_alnum c \<longleftrightarrow> is_digit c \<or> is_alpha c"

text \<open>The reserved characters a mode keeps are those \<open>reserved_escaped\<close> does not name.\<close>

definition reserved_escaped :: "byte \<Rightarrow> encoding \<Rightarrow> bool" where
  "reserved_escaped c mode = (case mode of
     EncPath \<Rightarrow> c = 0x3f
   | EncUserPassword \<Rightarrow> c \<in> set (ascii ''@/?:'')
   | EncQueryComponent \<Rightarrow> True
   | EncFragment \<Rightarrow> False
   | _ \<Rightarrow> True)"

definition should_escape :: "byte \<Rightarrow> encoding \<Rightarrow> bool" where
  "should_escape c mode =
     (if is_alnum c then False
      else if (mode = EncHost \<or> mode = EncZone) \<and> c \<in> set (0x27 # 0x22 # ascii ''!$&()*+,;=:[]<>'') then False
      else if c \<in> set (ascii ''-_.~'') then False
      else if c \<in> set (ascii ''$&+,/:;=?@'') then reserved_escaped c mode
      else if mode = EncFragment \<and> c \<in> set (ascii ''!()*'') then False
      else True)"

text \<open>The first loop of \<^verbatim>\<open>unescape\<close> checks the escapes and counts them.\<close>

fun unescape_scan :: "print_tables \<Rightarrow> encoding \<Rightarrow> bytes \<Rightarrow> nat \<Rightarrow> bool \<Rightarrow> (bytes, nat \<times> bool) outcome" where
  "unescape_scan pt mode [] n has_plus = Ok (n, has_plus)"
| "unescape_scan pt mode (c # s) n has_plus =
     (if c = 0x25 then
        (case s of
           h1 # h2 # r \<Rightarrow>
             if is_hex h1 \<and> is_hex h2 then
               (let esc = [c, h1, h2]; v = push_bit 4 (unhex h1) OR unhex h2 in
                if mode = EncHost \<and> unhex h1 < 8 \<and> esc \<noteq> ascii ''%25'' then Err (escape_error pt esc)
                else if mode = EncZone \<and> esc \<noteq> ascii ''%25'' \<and> v \<noteq> 0x20 \<and> should_escape v EncHost then Err (escape_error pt esc)
                else unescape_scan pt mode r (n + 1) has_plus)
             else Err (escape_error pt (take 3 (c # s)))
         | _ \<Rightarrow> Err (escape_error pt (take 3 (c # s))))
      else if c = 0x2b then unescape_scan pt mode s n (mode = EncQueryComponent)
      else if (mode = EncHost \<or> mode = EncZone) \<and> c < 0x80 \<and> should_escape c mode
      then Err (ascii ''invalid character '' @ quote pt [c] @ ascii '' in host name'')
      else unescape_scan pt mode s n has_plus)"

definition get_or_zero :: "bytes \<Rightarrow> nat \<Rightarrow> byte" where
  "get_or_zero s i = (if i < length s then s ! i else 0x30)"

function unescape_fill :: "encoding \<Rightarrow> bytes \<Rightarrow> bytes" where
  "unescape_fill mode [] = []"
| "unescape_fill mode (c # s) =
     (if c = 0x25 then (push_bit 4 (unhex (get_or_zero s 0)) OR unhex (get_or_zero s 1)) # unescape_fill mode (drop 2 s)
      else if c = 0x2b then (if mode = EncQueryComponent then 0x20 else 0x2b) # unescape_fill mode s
      else c # unescape_fill mode s)"
  by pat_completeness auto
termination by (relation "measure (\<lambda>(mode, s). length s)") auto

definition unescape :: "print_tables \<Rightarrow> bytes \<Rightarrow> encoding \<Rightarrow> (bytes, bytes) outcome" where
  "unescape pt s mode = obind (unescape_scan pt mode s 0 False) (\<lambda>(n, has_plus).
     if n = 0 \<and> \<not> has_plus then Ok s else Ok (unescape_fill mode s))"

definition escape :: "bytes \<Rightarrow> encoding \<Rightarrow> bytes" where
  "escape s mode = concat (map (\<lambda>c.
     if c = 0x20 \<and> mode = EncQueryComponent then [0x2b]
     else if should_escape c mode then [0x25, UPPERHEX ! unat (drop_bit 4 c), UPPERHEX ! unat (c AND 15)]
     else [c]) s)"

section \<open>Parsing\<close>

record go_url =
  u_scheme :: bytes
  u_opaque :: bytes
  u_user :: "(bytes \<times> bytes option) option"
  u_host :: bytes
  u_path :: bytes
  u_fragment :: bytes
  u_raw_query :: bytes
  u_raw_path :: bytes
  u_raw_fragment :: bytes
  u_force_query :: bool
  u_omit_host :: bool

definition go_url_default :: go_url where
  "go_url_default = \<lparr> u_scheme = [], u_opaque = [], u_user = None, u_host = [], u_path = [], u_fragment = [], u_raw_query = [],
     u_raw_path = [], u_raw_fragment = [], u_force_query = False, u_omit_host = False \<rparr>"

fun scheme_scan :: "bytes \<Rightarrow> nat \<Rightarrow> bytes \<Rightarrow> (bytes, bytes \<times> bytes) outcome" where
  "scheme_scan raw i [] = Ok ([], raw)"
| "scheme_scan raw i (c # cs) =
     (if is_alpha c then scheme_scan raw (i + 1) cs
      else if is_digit c \<or> c \<in> set (ascii ''+-.'') then (if i = 0 then Ok ([], raw) else scheme_scan raw (i + 1) cs)
      else if c = 0x3a then (if i = 0 then Err (ascii ''missing protocol scheme'') else Ok (take i raw, drop (i + 1) raw))
      else Ok ([], raw))"

definition get_scheme :: "bytes \<Rightarrow> (bytes, bytes \<times> bytes) outcome" where
  "get_scheme raw = scheme_scan raw 0 raw"

definition first_segment :: "bytes \<Rightarrow> bytes" where
  "first_segment s = (case position 0x2f s of Some i \<Rightarrow> take i s | None \<Rightarrow> s)"

definition starts_with :: "bytes \<Rightarrow> bytes \<Rightarrow> bool" where
  "starts_with s p \<longleftrightarrow> take (length p) s = p"

definition valid_optional_port :: "bytes \<Rightarrow> bool" where
  "valid_optional_port port = (case port of [] \<Rightarrow> True | c # digits \<Rightarrow> c = 0x3a \<and> list_all is_digit digits)"

definition valid_userinfo :: "bytes \<Rightarrow> bool" where
  "valid_userinfo s = list_all (\<lambda>c. is_alnum c \<or> c \<in> set (0x27 # ascii ''-._:~!$&()*+,;=%@'')) s"

definition valid_encoded :: "bytes \<Rightarrow> encoding \<Rightarrow> bool" where
  "valid_encoded s mode = list_all (\<lambda>c. c \<in> set (0x27 # ascii ''!$&()*+,;=:@[]%'') \<or> \<not> should_escape c mode) s"

definition lower_scheme :: "bytes \<Rightarrow> bytes" where "lower_scheme s = map ascii_lower s"

definition is_special_scheme :: "bytes \<Rightarrow> bool" where
  "is_special_scheme scheme \<longleftrightarrow>
     lower_scheme scheme \<in> set (map ascii [''http'', ''https'', ''ws'', ''wss'', ''ftp'', ''file''])"

fun find_from :: "bytes \<Rightarrow> nat \<Rightarrow> bytes \<Rightarrow> nat option" where
  "find_from needle i h = (if take (length needle) h = needle then Some i else case h of [] \<Rightarrow> None | _ # t \<Rightarrow> find_from needle (i + 1) t)"

definition find_bytes :: "bytes \<Rightarrow> bytes \<Rightarrow> nat option" where
  "find_bytes haystack needle = find_from needle 0 haystack"

definition invalid_port_after :: "print_tables \<Rightarrow> bytes \<Rightarrow> bytes" where
  "invalid_port_after pt colon_port = ascii ''invalid port '' @ quote pt colon_port @ ascii '' after host''"

definition unescape_hostname :: "print_tables \<Rightarrow> bytes \<Rightarrow> (bytes, bytes) outcome" where
  "unescape_hostname pt hostname = (case find_bytes hostname (ascii ''%25'') of
     Some z \<Rightarrow> obind (unescape pt (take z hostname) EncHost) (\<lambda>h. obind (unescape pt (drop z hostname) EncZone) (\<lambda>t. Ok (h @ t)))
   | None \<Rightarrow> unescape pt hostname EncHost)"

definition map_err :: "('e \<Rightarrow> 'f) \<Rightarrow> ('e, 'a) outcome \<Rightarrow> ('f, 'a) outcome" where
  "map_err f r = (case r of Ok x \<Rightarrow> Ok x | Err e \<Rightarrow> Err (f e) | Stuck \<Rightarrow> Stuck)"

definition parse_ip_literal :: "print_tables \<Rightarrow> bytes \<Rightarrow> (bytes, bytes) outcome" where
  "parse_ip_literal pt host = (case rposition (\<lambda>c. c = 0x5d) host of
     None \<Rightarrow> Err (ascii ''missing '' @ [0x27, 0x5d, 0x27] @ ascii '' in host'')
   | Some close \<Rightarrow>
      (let colon_port = drop (close + 1) host in
       if \<not> valid_optional_port colon_port then Err (invalid_port_after pt colon_port)
       else obind (unescape pt colon_port EncHost) (\<lambda>unescaped_colon_port.
         obind (unescape_hostname pt (take (close - 1) (drop 1 host))) (\<lambda>unescaped_hostname.
           obind (map_err (\<lambda>e. ascii ''invalid host: '' @ e) (parse_addr pt unescaped_hostname)) (\<lambda>(addr, _).
             if is_ipv4 addr then Err (ascii ''invalid IP-literal'')
             else Ok ([0x5b] @ unescaped_hostname @ [0x5d] @ unescaped_colon_port))))))"

definition parse_host :: "print_tables \<Rightarrow> bytes \<Rightarrow> bytes \<Rightarrow> (bytes, bytes) outcome" where
  "parse_host pt scheme host = (case rposition (\<lambda>c. c = 0x5b) host of
     Some idx \<Rightarrow> if idx > 0 then Err (ascii ''invalid IP-literal'') else parse_ip_literal pt host
   | None \<Rightarrow>
      (case position 0x3a host of
         None \<Rightarrow> unescape pt host EncHost
       | Some first \<Rightarrow>
          (let lst = (case rposition (\<lambda>c. c = 0x3a) host of Some l \<Rightarrow> l | None \<Rightarrow> first);
               i = (if lst \<noteq> first \<and> scheme \<noteq> ascii ''http'' \<and> scheme \<noteq> ascii ''https'' then lst else first);
               colon_port = drop i host
           in if \<not> valid_optional_port colon_port then Err (invalid_port_after pt colon_port) else unescape pt host EncHost)))"

definition parse_authority :: "print_tables \<Rightarrow> bytes \<Rightarrow> bytes \<Rightarrow> (bytes, (bytes \<times> bytes option) option \<times> bytes) outcome" where
  "parse_authority pt scheme authority = (case rposition (\<lambda>c. c = 0x40) authority of
     None \<Rightarrow> obind (parse_host pt scheme authority) (\<lambda>host. Ok (None, host))
   | Some i \<Rightarrow> obind (parse_host pt scheme (drop (i + 1) authority)) (\<lambda>host.
      let userinfo = take i authority in
      if \<not> valid_userinfo userinfo then Err (ascii ''net/url: invalid userinfo'')
      else case position 0x3a userinfo of
        None \<Rightarrow> obind (unescape pt userinfo EncUserPassword) (\<lambda>username. Ok (Some (username, None), host))
      | Some j \<Rightarrow> obind (unescape pt (take j userinfo) EncUserPassword) (\<lambda>username.
          obind (unescape pt (drop (j + 1) userinfo) EncUserPassword) (\<lambda>password. Ok (Some (username, Some password), host)))))"

definition set_path :: "print_tables \<Rightarrow> go_url \<Rightarrow> bytes \<Rightarrow> (bytes, go_url) outcome" where
  "set_path pt u p = obind (unescape pt p EncPath) (\<lambda>path.
     Ok (u\<lparr> u_raw_path := (if escape path EncPath = p then [] else p), u_path := path \<rparr>))"

definition set_fragment :: "print_tables \<Rightarrow> go_url \<Rightarrow> bytes \<Rightarrow> (bytes, go_url) outcome" where
  "set_fragment pt u f = obind (unescape pt f EncFragment) (\<lambda>frag.
     Ok (u\<lparr> u_raw_fragment := (if escape frag EncFragment = f then [] else f), u_fragment := frag \<rparr>))"

text \<open>The query is cut off: \<^verbatim>\<open>force_query\<close>, \<^verbatim>\<open>raw_query\<close> and what is left.\<close>

definition cut_query :: "bytes \<Rightarrow> bool \<times> bytes \<times> bytes" where
  "cut_query rest =
     (if rest \<noteq> [] \<and> last rest = 0x3f \<and> length (filter (\<lambda>c. c = 0x3f) rest) = 1 then (True, [], butlast rest)
      else case position 0x3f rest of
        Some i \<Rightarrow> (False, drop (i + 1) rest, take i rest)
      | None \<Rightarrow> (False, [], rest))"

text \<open>The last part of \<^verbatim>\<open>parse_url\<close>: authority and path.\<close>

definition parse_hierarchy :: "print_tables \<Rightarrow> go_url \<Rightarrow> bytes \<Rightarrow> (bytes, go_url) outcome" where
  "parse_hierarchy pt u rest =
     (if (u_scheme u \<noteq> [] \<or> \<not> starts_with rest [0x2f, 0x2f, 0x2f]) \<and> starts_with rest [0x2f, 0x2f] then
        (let authority = drop 2 rest;
             (authority, rest) = (case position 0x2f authority of Some i \<Rightarrow> (take i authority, drop i authority) | None \<Rightarrow> (authority, []))
         in obind (parse_authority pt (u_scheme u) authority) (\<lambda>(user, host). set_path pt (u\<lparr> u_user := user, u_host := host \<rparr>) rest))
      else if u_scheme u \<noteq> [] \<and> starts_with rest [0x2f] then set_path pt (u\<lparr> u_omit_host := True \<rparr>) rest
      else set_path pt u rest)"

definition parse_url :: "print_tables \<Rightarrow> bytes \<Rightarrow> (bytes, go_url) outcome" where
  "parse_url pt raw =
     (if list_ex (\<lambda>b. b < 0x20 \<or> b = 0x7f) raw then Err (ascii ''net/url: invalid control character in URL'')
      else if raw = [0x2a] then Ok (go_url_default\<lparr> u_path := [0x2a] \<rparr>)
      else obind (get_scheme raw) (\<lambda>(scheme, rest).
        case cut_query rest of (force_query, raw_query, rest) \<Rightarrow>
        let u = go_url_default\<lparr> u_scheme := lower_scheme scheme, u_force_query := force_query, u_raw_query := raw_query \<rparr> in
        if \<not> starts_with rest [0x2f] \<and> u_scheme u \<noteq> [] then Ok (u\<lparr> u_opaque := rest \<rparr>)
        else if \<not> starts_with rest [0x2f] \<and> 0x3a \<in> set (first_segment rest)
        then Err (ascii ''first path segment in URL cannot contain colon'')
        else parse_hierarchy pt u rest))"

definition url_parse :: "print_tables \<Rightarrow> bytes \<Rightarrow> (bytes, go_url) outcome" where
  "url_parse pt raw =
     (case (case position 0x23 raw of Some i \<Rightarrow> (take i raw, drop (i + 1) raw) | None \<Rightarrow> (raw, [])) of (u, frag) \<Rightarrow>
      obind (map_err (\<lambda>e. ascii ''parse '' @ quote pt u @ ascii '': '' @ e) (parse_url pt u)) (\<lambda>url.
        if frag = [] then Ok url
        else map_err (\<lambda>e. ascii ''parse '' @ quote pt raw @ ascii '': '' @ e) (set_fragment pt url frag)))"

section \<open>Printing\<close>

definition escaped_path :: "print_tables \<Rightarrow> go_url \<Rightarrow> bytes" where
  "escaped_path pt u =
     (if u_raw_path u \<noteq> [] \<and> valid_encoded (u_raw_path u) EncPath \<and> unescape pt (u_raw_path u) EncPath = Ok (u_path u) then u_raw_path u
      else if u_path u = [0x2a] then [0x2a]
      else escape (u_path u) EncPath)"

definition escaped_fragment :: "print_tables \<Rightarrow> go_url \<Rightarrow> bytes" where
  "escaped_fragment pt u =
     (if u_raw_fragment u \<noteq> [] \<and> valid_encoded (u_raw_fragment u) EncFragment \<and>
         unescape pt (u_raw_fragment u) EncFragment = Ok (u_fragment u) then u_raw_fragment u
      else escape (u_fragment u) EncFragment)"

definition authority_text :: "go_url \<Rightarrow> bytes" where
  "authority_text u =
     (let has_authority = (u_scheme u \<noteq> [] \<or> u_host u \<noteq> [] \<or> u_user u \<noteq> None);
          omit_empty_host = (u_omit_host u \<and> u_host u = [] \<and> u_user u = None)
      in if has_authority \<and> \<not> omit_empty_host then
           (if u_host u \<noteq> [] \<or> u_path u \<noteq> [] \<or> u_user u \<noteq> None then [0x2f, 0x2f] else []) @
           (case u_user u of
              Some (username, password) \<Rightarrow> escape username EncUserPassword @
                (case password of Some p \<Rightarrow> 0x3a # escape p EncUserPassword | None \<Rightarrow> []) @ [0x40]
            | None \<Rightarrow> []) @
           (if u_host u \<noteq> [] then escape (u_host u) EncHost else [])
         else [])"

definition to_go_string :: "print_tables \<Rightarrow> go_url \<Rightarrow> bytes" where
  "to_go_string pt u =
     (let buf = (if u_scheme u \<noteq> [] then u_scheme u @ [0x3a] else []);
          buf = (if u_opaque u \<noteq> [] then buf @ u_opaque u
                 else let buf = buf @ authority_text u; path = escaped_path pt u;
                        buf = buf @ (if path \<noteq> [] \<and> hd path \<noteq> 0x2f \<and> u_host u \<noteq> [] then [0x2f] else []);
                        buf = buf @ (if buf = [] \<and> 0x3a \<in> set (first_segment path) then [0x2e, 0x2f] else [])
                   in buf @ path);
          buf = buf @ (if u_force_query u \<or> u_raw_query u \<noteq> [] then 0x3f # u_raw_query u else [])
      in buf @ (if u_fragment u \<noteq> [] then 0x23 # escaped_fragment pt u else []))"

definition parse_relay_url :: "case_tables \<Rightarrow> print_tables \<Rightarrow> bytes \<Rightarrow> (bytes, bytes) outcome" where
  "parse_relay_url ct pt s = obind (map_err (\<lambda>e. ascii ''failed to parse relay URL: '' @ e) (url_parse pt s)) (\<lambda>u.
     let u = u\<lparr> u_host := to_lower ct (u_host u) \<rparr>;
         u = (if u_path u = [] \<and> is_special_scheme (u_scheme u) then u\<lparr> u_path := [0x2f] \<rparr> else u)
     in Ok (utf8_lossy (to_go_string pt u)))"

section \<open>Transport addresses\<close>

datatype transport_addr = TRelay bytes | TIp ip_addr "bytes option" u16 | TCustom u64 bytes

fun transport_addr_display :: "transport_addr \<Rightarrow> bytes" where
  "transport_addr_display (TRelay u) = ascii ''relay:'' @ u"
| "transport_addr_display (TIp ip zone port) = ascii ''ip:'' @ addr_port_string ip zone port"
| "transport_addr_display (TCustom n data) = show_hex (unat n) @ 0x5f # hex_encode data"

fun is_relay :: "transport_addr \<Rightarrow> bool" where
  "is_relay (TRelay _) = True"
| "is_relay _ = False"

definition split_once :: "byte \<Rightarrow> bytes \<Rightarrow> (bytes \<times> bytes) option" where
  "split_once c s = map_option (\<lambda>i. (take i s, drop (i + 1) s)) (position c s)"

definition parse_custom_addr :: "bytes \<Rightarrow> (bytes, transport_addr) outcome" where
  "parse_custom_addr s =
     (let s = (if starts_with s (ascii ''custom:'') then drop 7 s else s) in
      case split_once 0x5f s of
        None \<Rightarrow> Err (ascii ''missing '' @ [0x27, 0x5f, 0x27] @ ascii '' separator'')
      | Some (ids, data) \<Rightarrow> obind (map_err (\<lambda>_. ascii ''invalid ID'') (parse_uint ids 16 64)) (\<lambda>n.
          obind (map_err (\<lambda>_. ascii ''invalid data'') (decode_string data)) (\<lambda>data. Ok (TCustom n data))))"

definition parse_transport_addr :: "case_tables \<Rightarrow> print_tables \<Rightarrow> bytes \<Rightarrow> (bytes, transport_addr) outcome" where
  "parse_transport_addr ct pt s = (case split_once 0x3a s of
     None \<Rightarrow> parse_custom_addr s
   | Some (kind, value) \<Rightarrow>
      if kind = ascii ''relay'' then obind (parse_relay_url ct pt value) (\<lambda>u. Ok (TRelay u))
      else if kind = ascii ''ip'' then
        obind (map_err (\<lambda>e. ascii ''transport address '' @ quote pt s @ ascii '': '' @ e) (parse_addr_port pt value))
          (\<lambda>(ip, zone, port). Ok (TIp ip zone port))
      else if kind = ascii ''custom'' then parse_custom_addr value
      else Err (ascii ''transport address '' @ quote pt s @ ascii '': unknown kind '' @ quote pt kind))"

text \<open>A bare ip:port is accepted too, anything else is skipped.\<close>

definition parse_addrs :: "case_tables \<Rightarrow> print_tables \<Rightarrow> bytes list \<Rightarrow> transport_addr list" where
  "parse_addrs ct pt addrs = concat (map (\<lambda>s. case parse_transport_addr ct pt s of
     Ok a \<Rightarrow> [a]
   | _ \<Rightarrow> (case parse_addr_port pt s of Ok (ip, zone, port) \<Rightarrow> [TIp ip zone port] | _ \<Rightarrow> [])) addrs)"

end
