(* ===== verification/Netip_Correct.thy ===== *)
theory Netip_Correct
  imports Netip
begin

text \<open>
  The texts of IP addresses parse back: \<^verbatim>\<open>parse_addr_port\<close> inverts \<^verbatim>\<open>addr_port_string\<close> of \<^verbatim>\<open>crates/transport/src/addr.rs\<close>, with the
  shortening of zero groups, IPv4-mapped addresses and zones.
\<close>

section \<open>Digits\<close>

definition dbyte :: "nat \<Rightarrow> byte" where
  "dbyte d = of_nat (48 + d)"

lemma unat_dbyte: "d < 10 \<Longrightarrow> unat (dbyte d) = 48 + d"
  unfolding dbyte_def by (simp only: unat_of_nat) simp

lemma dec_text_rec: "dec_text n = (if n < 10 then [dbyte n] else dec_text (n div 10) @ [dbyte (n mod 10)])"
proof -
  have "(of_char (digit_char d) :: byte) = dbyte d" if "d < 10" for d
  proof -
    have "(of_char (digit_char d) :: byte) = of_nat (of_char (digit_char d))" by (simp only: of_nat_of_char)
    also have "(of_char (digit_char d) :: nat) = 48 + d" using that by (simp add: digit_char_def)
    finally show ?thesis by (simp only: dbyte_def)
  qed
  then show ?thesis by (simp add: dec_text_def ascii_def show_nat.simps [of n])
qed

lemma digit_byte:
  assumes "d < 10"
  shows "is_digit (dbyte d)" "dbyte d - 0x30 = (of_nat d :: byte)" "unat (of_nat d :: byte) = d" "unat (dbyte d - 0x30) = d"
proof -
  show "is_digit (dbyte d)" unfolding is_digit_def word_le_nat_alt unat_dbyte [OF assms] using assms by simp
  show m: "dbyte d - 0x30 = (of_nat d :: byte)" by (simp add: dbyte_def)
  show u: "unat (of_nat d :: byte) = d" using assms by (simp only: unat_of_nat) simp
  show "unat (dbyte d - 0x30) = d" by (simp add: m u)
qed

lemma dec_text_digits: "c \<in> set (dec_text n) \<Longrightarrow> \<exists>d < 10. c = dbyte d"
proof (induction n rule: less_induct)
  case (less n)
  show ?case
  proof (cases "n < 10")
    case True
    then show ?thesis using less.prems by (subst (asm) dec_text_rec) auto
  next
    case False
    then have "c \<in> set (dec_text (n div 10)) \<or> c = dbyte (n mod 10)" using less.prems by (subst (asm) dec_text_rec) auto
    then show ?thesis using less.IH [of "n div 10"] False by (auto intro: exI [of _ "n mod 10"])
  qed
qed

lemma digits_value_append: "digits_value base n (a @ b) = digits_value base (digits_value base n a) b"
  by (simp add: digits_value_def)

lemma digit_of_byte: "d < 10 \<Longrightarrow> digit_of (dbyte d) = Some (of_nat d)"
  using digit_byte [of d] by (simp add: digit_of_def)

lemma dec_text_value: "digits_value 10 0 (dec_text n) = n"
proof (induction n rule: less_induct)
  case (less n)
  then show ?case
    by (subst dec_text_rec) (auto simp: digits_value_append digit_of_byte digit_byte(3))
qed

lemma dec_text_ne [simp]: "dec_text n \<noteq> []"
  by (subst dec_text_rec) simp

lemma dec_text_valid: "list_all (valid_digit 10) (dec_text n)"
  by (auto simp: list_all_iff valid_digit_def digit_of_byte digit_byte(3) dest!: dec_text_digits)

lemma parse_port: "parse_uint (dec_text (unat (port :: u16))) 10 16 = Ok (ucast port)"
proof -
  have l: "unat port < 2 ^ 16" using unsigned_less [of port, where ?'a = nat] by simp
  moreover have "unat (ucast port :: u64) = unat port"
    using l by (simp add: unsigned_ucast_eq take_bit_nat_eq_self)
  ultimately have "parse_uint_raw (dec_text (unat port)) 10 16 = Ok (ucast port)"
    using parse_uint_raw_spec(1) [of 10 16 "dec_text (unat port)" "ucast port"] by (simp add: dec_text_valid dec_text_value)
  then show ?thesis by (simp add: parse_uint_def)
qed

section \<open>IPv4\<close>

lemma ipv4_digit:
  assumes "i < length s" and "s ! i = dbyte d" and "d < 10" and "\<not> (dig_len = 1 \<and> val = 0)" and "val * 10 + d \<le> 255"
  shows "ipv4_loop pt input s i val pos dig_len octs = ipv4_loop pt input s (i + 1) (val * 10 + d) pos (dig_len + 1) octs"
proof -
  note b = digit_byte [OF assms(3)]
  show ?thesis using assms(1,4,5) unfolding ipv4_loop.simps [of pt input s i] Let_def assms(2) b(4) using b(1) by auto
qed

lemma ipv4_dot:
  assumes "i < length s - 1" and "s ! i = 0x2e" and "0 < i" and "s ! (i - 1) \<noteq> 0x2e" and "pos \<noteq> 3"
  shows "ipv4_loop pt input s i val pos dig_len octs = ipv4_loop pt input s (i + 1) 0 (pos + 1) 0 (octs[pos := of_nat val])"
proof -
  have "\<not> is_digit 0x2e" by (simp add: is_digit_def)
  moreover have "i < length s" using assms(1) by simp
  ultimately show ?thesis using assms by (subst ipv4_loop.simps) (simp add: Let_def)
qed

lemma dec_text_octet:
  assumes "v \<le> 255"
  obtains "v < 10" "dec_text v = [dbyte v]"
  | "10 \<le> v" "v < 100" "dec_text v = [dbyte (v div 10), dbyte (v mod 10)]"
  | "100 \<le> v" "dec_text v = [dbyte (v div 100), dbyte (v div 10 mod 10), dbyte (v mod 10)]"
proof -
  have a: "dec_text v = [dbyte v]" if "v < 10" for v using that by (subst dec_text_rec) simp
  have b: "dec_text v = [dbyte (v div 10), dbyte (v mod 10)]" if "10 \<le> v" "v < 100" for v
    using that a [of "v div 10"] by (subst dec_text_rec) simp
  have c: "dec_text v = [dbyte (v div 100), dbyte (v div 10 mod 10), dbyte (v mod 10)]" if "100 \<le> v" "v \<le> 255" for v
    using that b [of "v div 10"] by (subst dec_text_rec) (simp add: div_mult2_eq [symmetric])
  show thesis using a b c assms that by (meson not_less)
qed

lemma ipv4_octet:
  assumes "s = pre @ dec_text v @ post" and "v \<le> 255"
  shows "ipv4_loop pt input s (length pre) 0 pos 0 octs =
    ipv4_loop pt input s (length pre + length (dec_text v)) v pos (length (dec_text v)) octs"
  using assms(2)
proof (cases rule: dec_text_octet)
  case 1
  then show ?thesis using ipv4_digit [of "length pre" s v 0 0] assms(1) by simp
next
  case 2
  have s: "s ! length pre = dbyte (v div 10)" "s ! (length pre + 1) = dbyte (v mod 10)" "length pre + 1 < length s"
    unfolding assms(1) 2(3) by (simp_all add: nth_append)
  show ?thesis using ipv4_digit [OF _ s(1), of 0 0] ipv4_digit [OF s(3,2), of 1 "v div 10"] s(3) 2 assms(2)
    by simp
next
  case 3
  have s: "s ! length pre = dbyte (v div 100)" "s ! (length pre + 1) = dbyte (v div 10 mod 10)"
    "s ! (length pre + 2) = dbyte (v mod 10)" "length pre + 2 < length s"
    unfolding assms(1) 3(2) by (simp_all add: nth_append)
  have e: "v div 100 * 10 + v div 10 mod 10 = v div 10" "v div 10 * 10 + v mod 10 = v"
    by (simp_all add: div_mult2_eq [of v 10 10, simplified])
  show ?thesis
    using ipv4_digit [OF _ s(1), of 0 0 pt input pos octs] ipv4_digit [OF _ s(2), of 1 "v div 100" pt input pos octs]
      ipv4_digit [OF s(4,3), of 2 "v div 10" pt input pos octs] s(4) 3 assms(2) e
    by (simp add: numeral_2_eq_2 numeral_3_eq_3)
qed

lemma append_to4_eq: "append_to4 [a, b, c, d] = dec_text (unat a) @ 0x2e # dec_text (unat b) @ 0x2e # dec_text (unat c) @ 0x2e # dec_text (unat d)"
  by (simp add: append_to4_def)

lemma byte_bound: "unat (v :: byte) \<le> 255"
  using unsigned_less [of v, where ?'a = nat] by simp

lemma dec_text_range: "c \<in> set (dec_text n) \<Longrightarrow> 48 \<le> unat c \<and> unat c \<le> 57"
  using dec_text_digits [of c n] unat_dbyte by force

lemma dec_text_no_dot: "0x2e \<notin> set (dec_text n)"
  using dec_text_range [of "0x2e" n] by auto

text \<open>An octet and the dot behind it.\<close>

lemma ipv4_field:
  assumes "s = pre @ dec_text (unat v) @ 0x2e # post" and "post \<noteq> []" and "pos \<noteq> 3"
  shows "ipv4_loop pt input s (length pre) 0 pos 0 octs =
    ipv4_loop pt input s (length pre + length (dec_text (unat v)) + 1) 0 (pos + 1) 0 (octs[pos := v])"
proof -
  let ?n = "length (dec_text (unat v))"
  have n: "0 < ?n" by simp
  have "s ! (length pre + ?n) = 0x2e" by (simp add: assms(1) nth_append)
  moreover have "s ! (length pre + (?n - 1)) = last (dec_text (unat v))" using n by (simp add: assms(1) nth_append last_conv_nth)
  then have "s ! (length pre + ?n - 1) = last (dec_text (unat v))" using n by simp
  moreover have "last (dec_text (unat v)) \<noteq> 0x2e" using dec_text_no_dot last_in_set dec_text_ne by metis
  moreover have "length pre + ?n < length s - 1" using assms(2) by (simp add: assms(1))
  ultimately show ?thesis
    using ipv4_octet [OF assms(1) byte_bound] ipv4_dot [of "length pre + ?n" s pos pt input "unat v" ?n octs] assms(3) n by simp
qed

lemma parse_ipv4_fields_text:
  assumes "length o4 = 4" and "off \<le> end" and "end \<le> length input" and "take (end - off) (drop off input) = append_to4 o4"
  shows "parse_ipv4_fields pt input off end = Ok o4"
proof -
  obtain a b c d where o: "o4 = [a, b, c, d]" using assms(1) by (auto simp: eval_nat_numeral length_Suc_conv)
  let ?A = "dec_text (unat a)" and ?B = "dec_text (unat b)" and ?C = "dec_text (unat c)" and ?D = "dec_text (unat d)"
  let ?s = "?A @ 0x2e # ?B @ 0x2e # ?C @ 0x2e # ?D"
  have "ipv4_loop pt input ?s 0 0 0 0 [0, 0, 0, 0] = ipv4_loop pt input ?s (length ?A + 1) 0 1 0 [a, 0, 0, 0]"
    using ipv4_field [of ?s "[]" a "?B @ 0x2e # ?C @ 0x2e # ?D" 0] by simp
  also have "\<dots> = ipv4_loop pt input ?s (length ?A + length ?B + 2) 0 2 0 [a, b, 0, 0]"
    using ipv4_field [of ?s "?A @ [0x2e]" b "?C @ 0x2e # ?D" 1 pt input "[a, 0, 0, 0]"] by (simp add: numeral_2_eq_2)
  also have "\<dots> = ipv4_loop pt input ?s (length ?A + length ?B + length ?C + 3) 0 3 0 [a, b, c, 0]"
    using ipv4_field [of ?s "?A @ 0x2e # ?B @ [0x2e]" c "?D" 2 pt input "[a, b, 0, 0]"] by (simp add: eval_nat_numeral)
  also have "\<dots> = ipv4_loop pt input ?s (length ?s) (unat d) 3 (length ?D) [a, b, c, 0]"
    using ipv4_octet [of ?s "?A @ 0x2e # ?B @ 0x2e # ?C @ [0x2e]" "unat d" "[]", OF _ byte_bound, of pt input 3 "[a, b, c, 0]"]
    by (simp add: numeral_3_eq_3 add.assoc)
  also have "\<dots> = Ok (unat d, 3, [a, b, c, 0])" by (subst ipv4_loop.simps) simp
  finally show ?thesis using assms(2-4) by (simp add: parse_ipv4_fields_def o append_to4_eq)
qed

section \<open>Hexadecimal groups\<close>

lemma hex_digit_value: "d < 16 \<Longrightarrow> hex_value (hex_nibble d) = Some d"
proof -
  have "\<forall>d \<in> set [0..<16]. hex_value (hex_nibble d) = Some d" by code_simp
  then show "d < 16 \<Longrightarrow> hex_value (hex_nibble d) = Some d" by simp
qed

lemma show_hex_ne [simp]: "show_hex n \<noteq> []"
  by (subst show_hex.simps) simp

lemma show_hex_length: "n < 16 ^ Suc k \<Longrightarrow> length (show_hex n) \<le> Suc k"
proof (induction k arbitrary: n)
  case 0
  then show ?case by (subst show_hex.simps) simp
next
  case (Suc k)
  have "n div 16 < 16 ^ Suc k" using Suc.prems by (simp add: div_less_iff_less_mult mult.commute)
  then show ?case using Suc.IH [of "n div 16"] by (subst show_hex.simps) simp
qed

lemma hex_group_text:
  assumes "off + length (show_hex n) \<le> 4" and "acc * 16 ^ length (show_hex n) + n \<le> 0xffff"
  shows "hex_group pt input s (show_hex n @ t) off acc =
    hex_group pt input s t (off + length (show_hex n)) (acc * 16 ^ length (show_hex n) + n)"
  using assms
proof (induction n arbitrary: t rule: show_hex.induct)
  case (1 n)
  show ?case
  proof (cases "n < 16")
    case True
    then have "show_hex n = [hex_nibble n]" by (simp add: show_hex.simps)
    then show ?thesis using 1 hex_digit_value [OF True] by (simp add: Let_def)
  next
    case False
    have s: "show_hex n = show_hex (n div 16) @ [hex_nibble (n mod 16)]" using False by (subst show_hex.simps) simp
    let ?l = "length (show_hex (n div 16))"
    have e: "(acc * 16 ^ ?l + n div 16) * 16 + n mod 16 = acc * 16 ^ Suc ?l + n" by simp
    have "acc * 16 ^ ?l + n div 16 \<le> 0xffff" using "1.prems"(2) e unfolding s by simp
    then have ih: "hex_group pt input s (show_hex (n div 16) @ hex_nibble (n mod 16) # t) off acc =
        hex_group pt input s (hex_nibble (n mod 16) # t) (off + ?l) (acc * 16 ^ ?l + n div 16)"
      using "1.IH" [OF False, of "hex_nibble (n mod 16) # t"] "1.prems"(1) unfolding s by simp
    show ?thesis using ih "1.prems" hex_digit_value [of "n mod 16"] e unfolding s by (simp add: Let_def ac_simps)
  qed
qed

lemma hex_group_end:
  assumes "n < 65536" and "t = [] \<or> hex_value (hd t) = None"
  shows "hex_group pt input s (show_hex n @ t) 0 0 = Ok (length (show_hex n), n)"
proof -
  have "length (show_hex n) \<le> 4" using show_hex_length [of n 3] assms(1) by simp
  then have "hex_group pt input s (show_hex n @ t) 0 0 = hex_group pt input s t (length (show_hex n)) n"
    using hex_group_text [of 0 n 0 pt input s t] assms(1) by simp
  then show ?thesis using assms(2) by (cases t) auto
qed

lemma hex_value_delims: "hex_value 0x3a = None" "hex_value 0x2e = None"
  by (simp_all add: hex_value_def is_digit_def)

section \<open>The groups of an address\<close>

fun colon_join :: "nat list \<Rightarrow> bytes" where
  "colon_join [] = []"
| "colon_join [v] = show_hex v"
| "colon_join (v # w # gs) = show_hex v @ 0x3a # colon_join (w # gs)"

definition octets :: "nat list \<Rightarrow> bytes" where
  "octets gs = concat (map (\<lambda>v. [of_nat (v div 256), of_nat v]) gs)"

definition group_ok :: "nat \<Rightarrow> bool" where "group_ok v \<longleftrightarrow> v < 65536"

lemma length_octets [simp]: "length (octets gs) = 2 * length gs"
  by (induction gs) (auto simp: octets_def)

lemma octets_simps [simp]:
  "octets [] = []" "octets (v # gs) = of_nat (v div 256) # of_nat v # octets gs" "octets (xs @ ys) = octets xs @ octets ys"
  by (simp_all add: octets_def)

lemma octets_zero: "octets (replicate k 0) = replicate (2 * k) 0"
  by (induction k) auto

lemma octets_segments: "even (length os) \<Longrightarrow> octets (segments os) = os"
proof (induction os rule: segments.induct)
  case (1 a b rest)
  have "(of_nat ((unat a * 256 + unat b) div 256) :: byte) = a" using byte_bound [of b] by simp
  moreover have z: "(256 :: byte) = 0" by code_simp
  have "(of_nat (unat a * 256 + unat b) :: byte) = a * 256 + b" by simp
  then have "(of_nat (unat a * 256 + unat b) :: byte) = b" unfolding z by simp
  ultimately show ?case using 1 by simp
qed auto

lemma segments_ok: "list_all group_ok (segments os)" "even (length os) \<Longrightarrow> 2 * length (segments os) = length os"
proof (induction os rule: segments.induct)
  case (1 a b rest)
  { case 1
    have "unat a * 256 + unat b < 65536" using byte_bound [of a] byte_bound [of b] by simp
    then show ?case using "1.IH"(1) by (simp add: group_ok_def) }
  { case 2
    then show ?case using "1.IH"(2) by simp }
qed auto

definition put_groups :: "bytes \<Rightarrow> nat \<Rightarrow> nat list \<Rightarrow> bytes" where
  "put_groups ip i gs = take i ip @ octets gs @ drop (i + 2 * length gs) ip"

lemma put_group: "i + 2 \<le> length ip \<Longrightarrow> ip[i := of_nat (v div 256), i + 1 := of_nat v] = put_groups ip i [v]"
  by (intro nth_equalityI)
    (auto simp: put_groups_def nth_append nth_list_update nth_Cons split: nat.splits intro!: arg_cong [of _ _ "nth ip"])

lemma put_groups_more:
  assumes "i + 2 + 2 * length gs \<le> length ip"
  shows "put_groups (put_groups ip i [v]) (i + 2) gs = put_groups ip i (v # gs)"
  using assms by (simp add: put_groups_def add.commute)

lemma length_put_groups [simp]: "i + 2 * length gs \<le> length ip \<Longrightarrow> length (put_groups ip i gs) = length ip"
  by (simp add: put_groups_def)

lemma colon_join_ne [simp]: "gs \<noteq> [] \<Longrightarrow> colon_join gs \<noteq> []"
  by (cases gs rule: colon_join.cases) auto

lemma hex_digit_chars: "d < 16 \<Longrightarrow> hex_nibble d \<notin> {0x3a, 0x2e, 0x25, 0x5b, 0x5d}"
  using hex_digit_value [of d] by (auto simp: hex_value_def is_digit_def)

lemma show_hex_chars: "c \<in> set (show_hex n) \<Longrightarrow> c \<notin> {0x3a, 0x2e, 0x25, 0x5b, 0x5d}"
proof (induction n rule: show_hex.induct)
  case (1 n)
  show ?case
  proof (cases "n < 16")
    case True
    then show ?thesis using "1.prems" hex_digit_chars [of n] by (subst (asm) show_hex.simps) auto
  next
    case False
    then have "c \<in> set (show_hex (n div 16)) \<or> c = hex_nibble (n mod 16)" using "1.prems" by (subst (asm) show_hex.simps) auto
    then show ?thesis using "1.IH" [OF False] hex_digit_chars [of "n mod 16"] by auto
  qed
qed

lemma hd_colon_join: "gs \<noteq> [] \<Longrightarrow> hd (colon_join gs @ t) \<noteq> 0x3a"
proof (cases gs rule: colon_join.cases)
  case (2 v)
  then show ?thesis using show_hex_chars [of "hd (show_hex v)" v] by (simp add: hd_in_set)
next
  case (3 v w gs)
  then show ?thesis using show_hex_chars [of "hd (show_hex v)" v] by (simp add: hd_in_set)
qed simp

section \<open>The loop\<close>

lemma loop_last:
  assumes "i + 2 \<le> 16" and "group_ok v" and "length ip = 16"
  shows "ipv6_loop pt input zone i (show_hex v) ip ell = Ok (i + 2, [], put_groups ip i [v], ell)"
  using assms hex_group_end [of v "[]" pt input "show_hex v"] put_group [of i ip v]
  by (subst ipv6_loop.simps) (simp add: group_ok_def Let_def)

lemma loop_group:
  assumes "i + 2 \<le> 16" and "group_ok v" and "length ip = 16" and "t \<noteq> []" and "hd t \<noteq> 0x3a"
  shows "ipv6_loop pt input zone i (show_hex v @ 0x3a # t) ip ell = ipv6_loop pt input zone (i + 2) t (put_groups ip i [v]) ell"
  using assms hex_group_end [of v "0x3a # t" pt input "show_hex v @ 0x3a # t"] put_group [of i ip v] hex_value_delims
  by (subst ipv6_loop.simps) (simp add: group_ok_def Let_def)

lemma loop_ellipsis:
  assumes "i + 2 \<le> 16" and "group_ok v" and "length ip = 16"
  shows "ipv6_loop pt input zone i (show_hex v @ 0x3a # 0x3a # t) ip None =
    (if t = [] then Ok (i + 2, [], put_groups ip i [v], Some (i + 2))
     else ipv6_loop pt input zone (i + 2) t (put_groups ip i [v]) (Some (i + 2)))"
  using assms hex_group_end [of v "0x3a # 0x3a # t" pt input "show_hex v @ 0x3a # 0x3a # t"] put_group [of i ip v] hex_value_delims
  by (subst ipv6_loop.simps) (simp add: group_ok_def Let_def)

lemma loop_groups:
  assumes "gs \<noteq> []" and "list_all group_ok gs" and "i + 2 * length gs \<le> 16" and "length ip = 16"
  shows "ipv6_loop pt input zone i (colon_join gs) ip ell = Ok (i + 2 * length gs, [], put_groups ip i gs, ell)"
  using assms
proof (induction gs arbitrary: i ip rule: colon_join.induct)
  case (2 v)
  then show ?case by (simp add: loop_last)
next
  case (3 v w gs)
  have "ipv6_loop pt input zone i (show_hex v @ 0x3a # colon_join (w # gs)) ip ell =
      ipv6_loop pt input zone (i + 2) (colon_join (w # gs)) (put_groups ip i [v]) ell"
    using 3 hd_colon_join [of "w # gs" "[]"] by (intro loop_group) auto
  then show ?case using "3.IH" [of "i + 2" "put_groups ip i [v]"] "3.prems" put_groups_more [of i "w # gs" ip v] by simp
qed simp

lemma loop_groups_ellipsis:
  assumes "gs \<noteq> []" and "list_all group_ok gs" and "i + 2 * length gs \<le> 16" and "length ip = 16"
  shows "ipv6_loop pt input zone i (colon_join gs @ 0x3a # 0x3a # t) ip None =
    (if t = [] then Ok (i + 2 * length gs, [], put_groups ip i gs, Some (i + 2 * length gs))
     else ipv6_loop pt input zone (i + 2 * length gs) t (put_groups ip i gs) (Some (i + 2 * length gs)))"
  using assms
proof (induction gs arbitrary: i ip rule: colon_join.induct)
  case (2 v)
  then show ?case by (simp add: loop_ellipsis)
next
  case (3 v w gs)
  have "ipv6_loop pt input zone i (show_hex v @ 0x3a # (colon_join (w # gs) @ 0x3a # 0x3a # t)) ip None =
      ipv6_loop pt input zone (i + 2) (colon_join (w # gs) @ 0x3a # 0x3a # t) (put_groups ip i [v]) None"
    using 3 hd_colon_join [of "w # gs"] by (intro loop_group) auto
  then show ?case using "3.IH" [of "i + 2" "put_groups ip i [v]"] "3.prems" put_groups_more [of i "w # gs" ip v] by simp
qed simp

section \<open>The ellipsis\<close>

lemma shift_up_nth:
  assumes "length ip = i + n" and "e \<le> i" and "k < i + n"
  shows "foldl (\<lambda>ip j. ip[j + n := ip ! j]) ip (rev [e..<i]) ! k = ip ! (if e + n \<le> k then k - n else k)"
  using assms(2,3)
proof (induction "i - e" arbitrary: e k)
  case 0
  then show ?case by simp
next
  case (Suc d)
  have l: "length (foldl (\<lambda>ip j. ip[j + n := ip ! j]) ip js) = length ip" for js :: "nat list" and ip :: "'a list"
    by (induction js arbitrary: ip) auto
  let ?f = "foldl (\<lambda>ip j. ip[j + n := ip ! j]) ip (rev [Suc e..<i])"
  have r: "rev [e..<i] = rev [Suc e..<i] @ [e]" using Suc.hyps(2) by (simp add: upt_conv_Cons)
  have ih: "?f ! k = ip ! (if Suc e + n \<le> k then k - n else k)" if "k < i + n" for k
    using Suc.hyps(1) [of "Suc e" k] Suc.hyps(2) that by simp
  show ?case using ih [of k] ih [of e] Suc l [of ip "rev [Suc e..<i]"] assms(1) unfolding r by (auto simp: nth_list_update)
qed

lemma zero_fill_nth:
  "k < length ip \<Longrightarrow> foldl (\<lambda>ip j. ip[j := 0]) ip js ! k = (if k \<in> set js then 0 else ip ! k)"
  by (induction js arbitrary: ip) (auto simp: nth_list_update)

lemma length_foldl_update [simp]: "length (foldl (\<lambda>ip j. ip[f j := v ip j]) ip js) = length ip"
  by (induction js arbitrary: ip) auto

lemma expand_ellipsis_eq:
  assumes "length ip = 16" and "e \<le> i" and "i \<le> 16"
  shows "expand_ellipsis e i ip = take e ip @ replicate (16 - i) 0 @ take (i - e) (drop e ip)"
proof (rule nth_equalityI)
  fix k assume "k < length (expand_ellipsis e i ip)"
  then have k: "k < 16" by (simp add: expand_ellipsis_def Let_def assms(1))
  show "expand_ellipsis e i ip ! k = (take e ip @ replicate (16 - i) 0 @ take (i - e) (drop e ip)) ! k"
    using assms k shift_up_nth [of ip i "16 - i" e k]
    by (auto simp: expand_ellipsis_def Let_def zero_fill_nth nth_append)
qed (use assms in \<open>simp add: expand_ellipsis_def Let_def\<close>)

section \<open>The zero run\<close>

lemma take_while_zeros: "take (length (takeWhile (\<lambda>x. x = 0) xs)) xs = replicate (length (takeWhile (\<lambda>x. x = 0) xs)) (0 :: nat)"
  by (induction xs) auto

lemma find_zeros_run:
  assumes "length g = 8" and "find_zeros g = Some (zs, ze)"
  shows "zs + 2 \<le> ze" "ze \<le> 8" "g = take zs g @ replicate (ze - zs) 0 @ drop ze g"
proof -
  let ?P = "\<lambda>st :: (nat \<times> nat) option \<times> nat. \<forall>a b. fst st = Some (a, b) \<longrightarrow> a + 2 \<le> b \<and> b \<le> 8 \<and> take (b - a) (drop a g) = replicate (b - a) 0"
  have "?P (fold (zero_run g) [0..<8] (None, 0))"
  proof (rule fold_invariant [where Q = "\<lambda>i. i < 8" and P = ?P])
    fix i :: nat and st assume i: "i < 8" and st: "?P st"
    have "length (takeWhile (\<lambda>x. x = 0) (drop i g)) \<le> 8 - i" using length_takeWhile_le [of _ "drop i g"] assms(1) by simp
    then show "?P (zero_run g i st)" using i st take_while_zeros [of "drop i g"] by (auto simp: zero_run_def Let_def)
  qed auto
  then have z: "zs + 2 \<le> ze" "ze \<le> 8" "take (ze - zs) (drop zs g) = replicate (ze - zs) 0"
    using assms(2) by (auto simp: find_zeros_def)
  then show "zs + 2 \<le> ze" "ze \<le> 8" by simp_all
  have "g = take zs g @ take (ze - zs) (drop zs g) @ drop (ze - zs) (drop zs g)" by (simp only: append_take_drop_id)
  then show "g = take zs g @ replicate (ze - zs) 0 @ drop ze g" using z by simp
qed

definition colon_each :: "nat list \<Rightarrow> bytes" where
  "colon_each gs = concat (map (\<lambda>v. 0x3a # show_hex v) gs)"

lemma colon_join_each: "colon_join (v # gs) = show_hex v @ colon_each gs"
  by (induction gs arbitrary: v) (auto simp: colon_each_def)

lemma to6_tail:
  assumes "length g = 8" and "0 < i" and "i \<le> 8" and "\<And>zs ze. zeros = Some (zs, ze) \<Longrightarrow> zs < i"
  shows "to6_loop g zeros i = colon_each (drop i g)"
  using assms(2-4)
proof (induction "8 - i" arbitrary: i)
  case 0
  then show ?case using assms(1) by (subst to6_loop.simps) (simp add: colon_each_def)
next
  case (Suc d)
  have "to6_loop g zeros i = [0x3a] @ show_hex (g ! i) @ to6_loop g zeros (i + 1)"
    using Suc by (subst to6_loop.simps) (auto split: option.splits)
  moreover have "to6_loop g zeros (i + 1) = colon_each (drop (i + 1) g)" using Suc.hyps(2) Suc.prems by (intro Suc.hyps(1)) (auto dest: Suc.prems(3))
  moreover have "drop i g = g ! i # drop (i + 1) g" using Suc.hyps(2) assms(1) by (simp add: Cons_nth_drop_Suc)
  ultimately show ?case by (simp add: colon_each_def)
qed

lemma to6_run:
  assumes "length g = 8" and "zs + 2 \<le> ze" and "ze \<le> 8"
  shows "to6_loop g (Some (zs, ze)) zs = 0x3a # 0x3a # colon_join (drop ze g)"
proof (cases "ze = 8")
  case True
  then show ?thesis using assms by (subst to6_loop.simps) simp
next
  case False
  then have "drop ze g = g ! ze # drop (ze + 1) g" using assms by (simp add: Cons_nth_drop_Suc)
  moreover have "to6_loop g (Some (zs, ze)) (ze + 1) = colon_each (drop (ze + 1) g)" using False assms by (intro to6_tail) auto
  ultimately show ?thesis using assms False by (subst to6_loop.simps) (simp add: colon_join_each)
qed

lemma to6_head:
  assumes "length g = 8" and "0 < i" and "i \<le> zs" and "zs + 2 \<le> ze" and "ze \<le> 8"
  shows "to6_loop g (Some (zs, ze)) i = colon_each (take (zs - i) (drop i g)) @ 0x3a # 0x3a # colon_join (drop ze g)"
  using assms(2,3)
proof (induction "zs - i" arbitrary: i)
  case 0
  then show ?case using to6_run [OF assms(1,4,5)] by (simp add: colon_each_def)
next
  case (Suc d)
  have "to6_loop g (Some (zs, ze)) i = [0x3a] @ show_hex (g ! i) @ to6_loop g (Some (zs, ze)) (i + 1)"
    using Suc assms by (subst to6_loop.simps) auto
  moreover have "drop i g = g ! i # drop (i + 1) g" using Suc.hyps(2) assms by (simp add: Cons_nth_drop_Suc)
  moreover have "zs - i = Suc (zs - (i + 1))" using Suc.hyps(2) by simp
  ultimately show ?case using Suc.hyps(1) [of "i + 1"] Suc.hyps(2) Suc.prems by (simp add: colon_each_def)
qed

lemma to6_text:
  assumes "length g = 8"
  shows "to6_loop g (find_zeros g) 0 = (case find_zeros g of None \<Rightarrow> colon_join g
    | Some (zs, ze) \<Rightarrow> colon_join (take zs g) @ 0x3a # 0x3a # colon_join (drop ze g))"
proof -
  obtain v gs where g: "g = v # gs" using assms by (cases g) auto
  have first: "to6_loop g zeros 0 = show_hex v @ to6_loop g zeros 1" if "\<And>zs ze. zeros = Some (zs, ze) \<Longrightarrow> zs > 0" for zeros
    using that by (subst to6_loop.simps) (auto simp: g split: option.splits)
  show ?thesis
  proof (cases "find_zeros g")
    case None
    then show ?thesis using first [of None] to6_tail [of g 1 None] assms by (simp add: g colon_join_each)
  next
    case (Some z)
    then obtain zs ze where z: "find_zeros g = Some (zs, ze)" by (cases z) auto
    note r = find_zeros_run [OF assms z]
    show ?thesis
    proof (cases zs)
      case 0
      then show ?thesis using z to6_run [OF assms r(1,2)] by simp
    next
      case (Suc n)
      then show ?thesis using z first [of "Some (zs, ze)"] to6_head [OF assms _ _ r(1,2), of 1] r by (simp add: g colon_join_each)
    qed
  qed
qed

section \<open>Zones\<close>

lemma first_byte_two: "0xc2 \<le> b \<Longrightarrow> b \<le> 0xdf \<Longrightarrow> first_byte b = Some (2, 0x80, 0xbf)"
  by (simp add: first_byte_def)

lemma first_byte_three:
  assumes "0xe0 \<le> b" and "b \<le> 0xef"
  obtains lo hi where "first_byte b = Some (3, lo, hi)" "\<And>c. utf8_second b c \<longleftrightarrow> lo \<le> c \<and> c \<le> hi"
proof -
  have "b = 0xe0 \<or> b = 0xed \<or> (0xe1 \<le> b \<and> b \<le> 0xec \<or> 0xee \<le> b \<and> b \<le> 0xef)"
    using assms by (simp add: word_le_nat_alt word_unat_eq_iff) arith
  then show thesis
  proof (elim disjE)
    assume "b = 0xe0" then show thesis by (intro that) (auto simp: first_byte_def utf8_second_def)
  next
    assume "b = 0xed" then show thesis by (intro that) (auto simp: first_byte_def utf8_second_def)
  next
    assume a: "0xe1 \<le> b \<and> b \<le> 0xec"
    then have "\<not> b \<le> 0xdf" "b \<noteq> 0xe0" "b \<noteq> 0xed" "b \<noteq> 0xf0" "b \<noteq> 0xf4" by (auto simp: word_le_nat_alt)
    with a show thesis by (intro that) (auto simp: first_byte_def utf8_second_def utf8_cont_def)
  next
    assume a: "0xee \<le> b \<and> b \<le> 0xef"
    then have "\<not> b \<le> 0xdf" "b \<noteq> 0xe0" "b \<noteq> 0xed" "b \<noteq> 0xf0" "b \<noteq> 0xf4" by (auto simp: word_le_nat_alt)
    with a show thesis by (intro that) (auto simp: first_byte_def utf8_second_def utf8_cont_def)
  qed
qed

lemma first_byte_four:
  assumes "0xf0 \<le> b" and "b \<le> 0xf4"
  obtains lo hi where "first_byte b = Some (4, lo, hi)" "\<And>c. utf8_second b c \<longleftrightarrow> lo \<le> c \<and> c \<le> hi"
proof -
  have "b = 0xf0 \<or> b = 0xf4 \<or> 0xf1 \<le> b \<and> b \<le> 0xf3"
    using assms by (simp add: word_le_nat_alt word_unat_eq_iff) arith
  then show thesis
  proof (elim disjE)
    assume "b = 0xf0" then show thesis by (intro that) (auto simp: first_byte_def utf8_second_def)
  next
    assume "b = 0xf4" then show thesis by (intro that) (auto simp: first_byte_def utf8_second_def)
  next
    assume a: "0xf1 \<le> b \<and> b \<le> 0xf3"
    then have "\<not> b \<le> 0xdf" "\<not> b \<le> 0xef" "\<not> b \<le> 0xec" "b \<noteq> 0xe0" "b \<noteq> 0xed" "b \<noteq> 0xf0" "b \<noteq> 0xf4" by (auto simp: word_le_nat_alt)
    with a show thesis by (intro that) (auto simp: first_byte_def utf8_second_def utf8_cont_def)
  qed
qed

lemma utf8_valid_cases:
  assumes "utf8_valid (b # bs)"
  obtains "b < 0x80" "utf8_valid bs"
  | x r where "\<not> b < 0x80" "0xc2 \<le> b" "b \<le> 0xdf" "bs = x # r" "utf8_cont x" "utf8_valid r"
  | x y r where "\<not> b < 0x80" "0xe0 \<le> b" "b \<le> 0xef" "bs = x # y # r" "utf8_second b x" "utf8_cont y" "utf8_valid r"
  | x y z r where "\<not> b < 0x80" "0xf0 \<le> b" "b \<le> 0xf4" "bs = x # y # z # r" "utf8_second b x" "utf8_cont y" "utf8_cont z" "utf8_valid r"
proof -
  note s = utf8_valid.simps(2) [of b]
  show thesis
  proof (cases "b < 0x80")
    case True
    then show thesis using that(1) assms by (simp add: s del: utf8_valid.simps(2))
  next
    case n: False
    show thesis
    proof (cases "0xc2 \<le> b \<and> b \<le> 0xdf")
      case True
      then show thesis using n assms that(2) by (cases bs) (simp_all add: s del: utf8_valid.simps(2))
    next
      case m: False
      show thesis
      proof (cases "0xe0 \<le> b \<and> b \<le> 0xef")
        case True
        then show thesis using n m assms that(3)
          by (cases bs; cases "tl bs") (simp_all add: s del: utf8_valid.simps(2))
      next
        case False
        then have "0xf0 \<le> b \<and> b \<le> 0xf4" using n m assms by (simp add: s del: utf8_valid.simps(2) split: if_splits)
        then show thesis using False n m assms that(4)
          by (cases bs; cases "tl bs"; cases "tl (tl bs)") (simp_all add: s del: utf8_valid.simps(2))
      qed
    qed
  qed
qed

text \<open>Valid text passes unchanged.\<close>

lemma utf8_lossy_whole:
  assumes "\<not> b < 0x80" and "first_byte b = Some (Suc n, lo, hi)" and "matched (Suc n) lo hi bs = n"
  shows "utf8_lossy (b # bs) = b # take n bs @ utf8_lossy (drop n bs)"
  using assms by simp

lemma utf8_lossy_valid: "utf8_valid s \<Longrightarrow> utf8_lossy s = s"
proof (induction s rule: length_induct)
  case (1 s)
  show ?case
  proof (cases s)
    case (Cons b bs)
    with "1.prems" have "utf8_valid (b # bs)" by simp
    then show ?thesis
    proof (cases rule: utf8_valid_cases)
      case 1
      then have "utf8_lossy bs = bs" using "1.IH" Cons by (simp del: utf8_valid.simps utf8_lossy.simps)
      then show ?thesis using 1(1) Cons by simp
    next
      case (2 x r)
      then have "utf8_lossy (b # bs) = b # take 1 bs @ utf8_lossy (drop 1 bs)"
        by (intro utf8_lossy_whole [where lo = "0x80" and hi = "0xbf"]) (auto simp: first_byte_two matched_def utf8_cont_def simp del: utf8_valid.simps utf8_lossy.simps)
      moreover have "utf8_lossy r = r" using "1.IH" 2 Cons by simp
      ultimately show ?thesis using 2(4) Cons by (simp del: utf8_lossy.simps)
    next
      case (3 x y r)
      obtain lo hi where f: "first_byte b = Some (3, lo, hi)" "\<And>c. utf8_second b c \<longleftrightarrow> lo \<le> c \<and> c \<le> hi"
        using first_byte_three [OF 3(2,3)] by blast
      have "utf8_lossy (b # bs) = b # take 2 bs @ utf8_lossy (drop 2 bs)"
        using 3(1,4-6) f by (intro utf8_lossy_whole [where lo = lo and hi = hi]) (simp_all add: matched_def utf8_cont_def cont_byte_def del: utf8_lossy.simps)
      moreover have "utf8_lossy r = r" using "1.IH" 3(4,7) Cons by (simp del: utf8_valid.simps utf8_lossy.simps)
      ultimately show ?thesis using 3(4) Cons by (simp del: utf8_lossy.simps)
    next
      case (4 x y z r)
      obtain lo hi where f: "first_byte b = Some (4, lo, hi)" "\<And>c. utf8_second b c \<longleftrightarrow> lo \<le> c \<and> c \<le> hi"
        using first_byte_four [OF 4(2,3)] by blast
      have "utf8_lossy (b # bs) = b # take 3 bs @ utf8_lossy (drop 3 bs)"
        using 4(1,4-7) f by (intro utf8_lossy_whole [where lo = lo and hi = hi]) (simp_all add: matched_def utf8_cont_def cont_byte_def del: utf8_lossy.simps)
      moreover have "utf8_lossy r = r" using "1.IH" 4(4,8) Cons by (simp del: utf8_valid.simps utf8_lossy.simps)
      ultimately show ?thesis using 4(4) Cons by (simp del: utf8_lossy.simps)
    qed
  qed simp
qed

lemma takeWhile_absent: "c \<notin> set s \<Longrightarrow> takeWhile (\<lambda>x. x \<noteq> c) s = s" "c \<notin> set s \<Longrightarrow> takeWhile (\<lambda>x. x \<noteq> c) (s @ c # t) = s"
  by (induction s) auto

lemma position_absent: "c \<notin> set s \<Longrightarrow> position c s = None"
  by (simp add: position_def takeWhile_absent)

lemma position_here: "c \<notin> set s \<Longrightarrow> position c (s @ c # t) = Some (length s)"
  by (simp add: position_def takeWhile_absent)

section \<open>IPv6\<close>

definition zone_text :: "bytes option \<Rightarrow> bytes" where
  "zone_text z = (case z of Some z \<Rightarrow> if z \<noteq> [] then 0x25 # z else [] | None \<Rightarrow> [])"

definition zone_ok :: "bytes option \<Rightarrow> bool" where
  "zone_ok z = (case z of Some z \<Rightarrow> z \<noteq> [] \<and> utf8_valid z | None \<Rightarrow> True)"

text \<open>What \<^verbatim>\<open>parse_ipv6\<close> does after its loop.\<close>

definition ipv6_end :: "print_tables \<Rightarrow> bytes \<Rightarrow> bytes \<Rightarrow> nat \<times> bytes \<times> bytes \<times> nat option \<Rightarrow> (bytes, bytes \<times> bytes option) outcome" where
  "ipv6_end pt input zone = (\<lambda>(i, s, ip, ellipsis).
     if s \<noteq> [] then Err (addr_error pt input ''trailing garbage after address'' s)
     else if i < 16 then
       (case ellipsis of
          None \<Rightarrow> Err (addr_error pt input ''address string too short'' [])
        | Some e \<Rightarrow> Ok (expand_ellipsis e i ip, zone_string zone))
     else if ellipsis \<noteq> None then Err (addr_error pt input ''the :: must expand to at least one field of zeros'' [])
     else Ok (ip, zone_string zone))"

definition zone_bytes :: "bytes option \<Rightarrow> bytes" where
  "zone_bytes z = (case z of Some z \<Rightarrow> z | None \<Rightarrow> [])"

lemma zone_string_bytes: "zone_ok z \<Longrightarrow> zone_string (zone_bytes z) = z"
  by (auto simp: zone_ok_def zone_string_def zone_bytes_def utf8_lossy_valid split: option.splits)

lemma parse_ipv6_split:
  assumes "0x25 \<notin> set txt" and "zone_ok z"
  shows "parse_ipv6 pt (txt @ zone_text z) =
    (if take 2 txt = [0x3a, 0x3a] then
       (if drop 2 txt = [] then Ok (replicate 16 0, z)
        else obind (ipv6_loop pt (txt @ zone_text z) (zone_bytes z) 0 (drop 2 txt) (replicate 16 0) (Some 0))
          (ipv6_end pt (txt @ zone_text z) (zone_bytes z)))
     else obind (ipv6_loop pt (txt @ zone_text z) (zone_bytes z) 0 txt (replicate 16 0) None) (ipv6_end pt (txt @ zone_text z) (zone_bytes z)))"
proof -
  have "(case position 0x25 (txt @ zone_text z) of Some i \<Rightarrow> (take i (txt @ zone_text z), Some (drop (i + 1) (txt @ zone_text z)))
      | None \<Rightarrow> (txt @ zone_text z, None)) = (txt, z)"
    using assms position_here [OF assms(1)] position_absent [OF assms(1)]
    by (auto simp: zone_text_def zone_ok_def split: option.splits)
  moreover have "z \<noteq> Some []" using assms(2) by (auto simp: zone_ok_def)
  ultimately show ?thesis
    using zone_string_bytes [OF assms(2)] by (simp add: parse_ipv6_def ipv6_end_def [abs_def] zone_bytes_def Let_def)
qed

lemma colon_join_chars: "c \<in> set (colon_join gs) \<Longrightarrow> c \<notin> {0x2e, 0x25, 0x5b, 0x5d}"
  by (induction gs rule: colon_join.induct) (use show_hex_chars in auto)

lemma put_groups_zero: "put_groups (replicate n 0) 0 gs = octets gs @ replicate (n - 2 * length gs) 0"
  by (simp add: put_groups_def)

lemma parse_ipv6_run:
  assumes "list_all group_ok (hs @ ts)" and "length hs + length ts + 1 \<le> 8" and "zone_ok z"
  shows "parse_ipv6 pt ((colon_join hs @ 0x3a # 0x3a # colon_join ts) @ zone_text z) =
    Ok (octets (hs @ replicate (8 - length hs - length ts) 0 @ ts), z)"
proof -
  let ?txt = "colon_join hs @ 0x3a # 0x3a # colon_join ts"
  let ?in = "?txt @ zone_text z" and ?zn = "zone_bytes z"
  have n: "0x25 \<notin> set ?txt" using colon_join_chars by auto
  note split = parse_ipv6_split [OF n assms(3), of pt]
  show ?thesis
  proof (cases "hs = []")
    case hs: True
    show ?thesis
    proof (cases "ts = []")
      case True
      then show ?thesis using split hs octets_zero [of 8] by simp
    next
      case False
      have "ipv6_loop pt ?in ?zn 0 (colon_join ts) (replicate 16 0) (Some 0) =
          Ok (2 * length ts, [], octets ts @ replicate (16 - 2 * length ts) 0, Some 0)"
        using loop_groups [of ts 0 "replicate 16 0" pt ?in ?zn "Some 0"] False assms by (simp add: put_groups_zero)
      then show ?thesis using split hs False assms zone_string_bytes [OF assms(3)]
        by (simp add: ipv6_end_def expand_ellipsis_eq octets_zero diff_mult_distrib2)
    qed
  next
    case False
    then have "take 2 ?txt \<noteq> [0x3a, 0x3a]" using hd_colon_join [of hs "0x3a # 0x3a # colon_join ts"]
      by (cases ?txt) auto
    moreover have "ipv6_loop pt ?in ?zn 0 ?txt (replicate 16 0) None =
        Ok (2 * (length hs + length ts), [], put_groups (put_groups (replicate 16 0) 0 hs) (2 * length hs) ts, Some (2 * length hs))"
      using loop_groups_ellipsis [of hs 0 "replicate 16 0" pt ?in ?zn "colon_join ts"] False assms
        loop_groups [of ts "2 * length hs" "put_groups (replicate 16 0) 0 hs" pt ?in ?zn "Some (2 * length hs)"]
      by (cases "ts = []") (auto simp: put_groups_def)
    moreover have "put_groups (put_groups (replicate 16 0) 0 hs) (2 * length hs) ts =
        octets hs @ octets ts @ replicate (16 - 2 * length hs - 2 * length ts) 0"
      by (simp add: put_groups_zero) (simp add: put_groups_def)
    ultimately show ?thesis using split assms zone_string_bytes [OF assms(3)]
      by (simp add: ipv6_end_def expand_ellipsis_eq octets_zero diff_mult_distrib2)
  qed
qed

lemma parse_ipv6_full:
  assumes "list_all group_ok gs" and "length gs = 8" and "zone_ok z"
  shows "parse_ipv6 pt (colon_join gs @ zone_text z) = Ok (octets gs, z)"
proof -
  have n: "0x25 \<notin> set (colon_join gs)" using colon_join_chars by auto
  have "gs \<noteq> []" using assms(2) by auto
  then have "take 2 (colon_join gs) \<noteq> [0x3a, 0x3a]" using hd_colon_join [of gs "[]"] by (cases "colon_join gs") auto
  then show ?thesis using parse_ipv6_split [OF n assms(3), of pt] zone_string_bytes [OF assms(3)] \<open>gs \<noteq> []\<close> assms
      loop_groups [of gs 0 "replicate 16 0" pt "colon_join gs @ zone_text z" "zone_bytes z" None]
    by (simp add: ipv6_end_def put_groups_zero)
qed

section \<open>IPv4-mapped addresses\<close>

lemma hex_value_dbyte: "d < 10 \<Longrightarrow> hex_value (dbyte d) = Some d"
  using digit_byte [of d] by (simp add: hex_value_def)

lemma hex_group_octet:
  assumes "v \<le> 255"
  obtains acc where "hex_group pt input s (dec_text v @ 0x2e # t) 0 0 = Ok (length (dec_text v), acc)"
  using assms
proof (cases rule: dec_text_octet)
  case 1
  then show thesis using that hex_value_delims by (simp add: hex_value_dbyte Let_def)
next
  case 2
  then have "\<not> 65535 < v div 10" "\<not> 65535 < v div 10 * 16 + v mod 10" by simp_all
  then show thesis using 2 that hex_value_delims by (simp add: hex_value_dbyte Let_def)
next
  case 3
  have "\<not> 65535 < v div 100" "\<not> 65535 < v div 100 * 16 + v div 10 mod 10" "\<not> 65535 < (v div 100 * 16 + v div 10 mod 10) * 16 + v mod 10"
    using assms by simp_all
  then show thesis using 3 that hex_value_delims assms by (simp add: hex_value_dbyte Let_def)
qed

lemma append_to4_head:
  assumes "length o4 = 4"
  obtains v t where "v \<le> 255" "append_to4 o4 = dec_text v @ 0x2e # t"
proof -
  obtain a b c d where "o4 = [a, b, c, d]" using assms by (auto simp: eval_nat_numeral length_Suc_conv)
  then show thesis using that byte_bound [of a] by (simp add: append_to4_eq)
qed

lemma append_to4_chars: "length o4 = 4 \<Longrightarrow> c \<in> set (append_to4 o4) \<Longrightarrow> c \<notin> {0x3a, 0x25, 0x5b, 0x5d}"
proof -
  assume "length o4 = 4" and c: "c \<in> set (append_to4 o4)"
  then obtain p q r s where "o4 = [p, q, r, s]" by (auto simp: eval_nat_numeral length_Suc_conv)
  with c have "c = 0x2e \<or> (\<exists>n. c \<in> set (dec_text n))" by (auto simp: append_to4_eq)
  then show "c \<notin> {0x3a, 0x25, 0x5b, 0x5d}" by (auto dest: dec_text_range)
qed

lemma loop_embedded:
  assumes "length o4 = 4" and "i + 4 \<le> 16" and "length zone = 0 \<longrightarrow> zt = []" and "zone \<noteq> [] \<longrightarrow> length zt = length zone + 1"
  shows "ipv6_loop pt (pre @ append_to4 o4 @ zt) zone i (append_to4 o4) ip (Some e) =
    Ok (i + 4, [], take i ip @ o4 @ drop (i + 4) ip, Some e)"
proof -
  let ?in = "pre @ append_to4 o4 @ zt"
  obtain v t where v: "v \<le> 255" "append_to4 o4 = dec_text v @ 0x2e # t" using assms(1) by (rule append_to4_head)
  obtain acc where "hex_group pt ?in (append_to4 o4) (append_to4 o4) 0 0 = Ok (length (dec_text v), acc)"
    using hex_group_octet [OF v(1), of pt ?in "append_to4 o4" t] v(2) by auto
  moreover have "length ?in - (if zone \<noteq> [] then length zone + 1 else 0) = length pre + length (append_to4 o4)"
    using assms(3,4) by auto
  moreover have "parse_ipv4_fields pt ?in (length pre) (length pre + length (append_to4 o4)) = Ok o4"
    by (rule parse_ipv4_fields_text) (simp_all add: assms(1))
  moreover have "append_to4 o4 ! length (dec_text v) = 0x2e" "length (dec_text v) < length (append_to4 o4)" by (simp_all add: v(2))
  ultimately show ?thesis using assms(2) by (subst ipv6_loop.simps) (simp add: Let_def)
qed


definition mapped_text :: "bytes \<Rightarrow> bytes" where
  "mapped_text o4 = [0x3a, 0x3a, 0x66, 0x66, 0x66, 0x66, 0x3a] @ append_to4 o4"

lemma mapped_prefix: "ascii ''::ffff:'' = [0x3a, 0x3a, 0x66, 0x66, 0x66, 0x66, 0x3a]" "show_hex 65535 = [0x66, 0x66, 0x66, 0x66]"
  by (simp_all add: ascii_def show_hex.simps hex_nibble_def)

lemma parse_ipv6_mapped:
  assumes "length o4 = 4" and "zone_ok z"
  shows "parse_ipv6 pt (mapped_text o4 @ zone_text z) = Ok (replicate 10 0 @ [0xff, 0xff] @ o4, z)"
proof -
  let ?in = "mapped_text o4 @ zone_text z" and ?zn = "zone_bytes z" and ?a = "append_to4 o4"
  have n: "0x25 \<notin> set (mapped_text o4)" using append_to4_chars [OF assms(1)] by (auto simp: mapped_text_def)
  obtain v t where v: "?a = dec_text v @ 0x2e # t" using assms(1) by (rule append_to4_head)
  then have "hd ?a \<in> set ?a" by simp
  then have h: "hd ?a \<noteq> 0x3a" "?a \<noteq> []" using append_to4_chars [OF assms(1), of "hd ?a"] v by auto
  have "ipv6_loop pt ?in ?zn 0 (show_hex 65535 @ 0x3a # ?a) (replicate 16 0) (Some 0) =
      ipv6_loop pt ?in ?zn 2 ?a (put_groups (replicate 16 0) 0 [65535]) (Some 0)"
    using loop_group [of 0 65535 "replicate 16 0" ?a pt ?in ?zn "Some 0"] h by (simp add: group_ok_def numeral_2_eq_2)
  also have "\<dots> = Ok (6, [], [0xff, 0xff] @ o4 @ replicate 10 0, Some 0)"
    using loop_embedded [of o4 2 ?zn "zone_text z" pt "[0x3a, 0x3a, 0x66, 0x66, 0x66, 0x66, 0x3a]" "put_groups (replicate 16 0) 0 [65535]" 0] assms
    by (auto simp: mapped_text_def put_groups_zero zone_bytes_def zone_text_def zone_ok_def split: option.splits)
  finally show ?thesis using parse_ipv6_split [OF n assms(2), of pt] zone_string_bytes [OF assms(2)] assms(1)
    by (simp add: mapped_text_def mapped_prefix(2) ipv6_end_def expand_ellipsis_eq)
qed

section \<open>Texts of addresses\<close>

lemma parse_addr_skip:
  "set xs \<inter> {0x2e, 0x3a, 0x25} = {} \<Longrightarrow> parse_addr_scan pt s (xs @ ys) = parse_addr_scan pt s ys"
  by (induction xs) auto

lemma parse_addr_v4: "length a = 4 \<Longrightarrow> parse_addr pt (append_to4 a) = Ok (V4 a, None)"
proof -
  assume a: "length a = 4"
  then obtain v t where v: "append_to4 a = dec_text v @ 0x2e # t" by (rule append_to4_head)
  have "set (dec_text v) \<inter> {0x2e, 0x3a, 0x25} = {}" by (auto dest: dec_text_range)
  moreover have "parse_ipv4 pt (append_to4 a) = Ok a"
    unfolding parse_ipv4_def by (rule parse_ipv4_fields_text) (simp_all add: a)
  ultimately show ?thesis by (simp add: parse_addr_def parse_addr_skip v)
qed

lemma parse_addr_v6:
  assumes "parse_ipv6 pt s = Ok (a, z)" and "s = xs @ 0x3a # ys" and "set xs \<inter> {0x2e, 0x3a, 0x25} = {}"
  shows "parse_addr pt s = Ok (V6 a, z)"
  using assms parse_addr_skip [OF assms(3), of pt s "0x3a # ys"] by (simp add: parse_addr_def)

lemma first_group:
  obtains xs ys where "colon_join hs @ 0x3a # t = xs @ 0x3a # ys" "set xs \<inter> {0x2e, 0x3a, 0x25} = {}"
proof (cases hs rule: colon_join.cases)
  case 1
  then show thesis using that [of "[]"] by simp
next
  case (2 v)
  then show thesis using that [of "show_hex v"] show_hex_chars by auto
next
  case (3 v w gs)
  then show thesis using that [of "show_hex v"] show_hex_chars by auto
qed

lemma text6_plain:
  assumes "length a = 16" and "zone_ok z" and "g = segments a"
  shows "parse_addr pt (to6_loop g (find_zeros g) 0 @ zone_text z) = Ok (V6 a, z)"
    "c \<in> set (to6_loop g (find_zeros g) 0) \<Longrightarrow> c \<notin> {0x5b, 0x5d}"
proof -
  have g: "length g = 8" "list_all group_ok g" "octets g = a"
    using segments_ok [of a] octets_segments [of a] assms by auto
  show "parse_addr pt (to6_loop g (find_zeros g) 0 @ zone_text z) = Ok (V6 a, z)"
  proof (cases "find_zeros g")
    case None
    obtain v w gs where vw: "g = v # w # gs" using g(1) by (auto simp: eval_nat_numeral length_Suc_conv)
    have "colon_join g @ zone_text z = show_hex v @ 0x3a # colon_join (w # gs) @ zone_text z" by (simp add: vw)
    then show ?thesis using parse_ipv6_full [OF g(2,1) assms(2), of pt] g(3) show_hex_chars None to6_text [OF g(1)]
      by (intro parse_addr_v6 [where xs = "show_hex v"]) auto
  next
    case (Some p)
    then obtain zs ze where z: "find_zeros g = Some (zs, ze)" by (cases p) auto
    note r = find_zeros_run [OF g(1) z]
    let ?s = "(colon_join (take zs g) @ 0x3a # 0x3a # colon_join (drop ze g)) @ zone_text z"
    have "list_all group_ok (take zs g @ drop ze g)" using g(2) by (auto simp: list_all_iff dest: in_set_takeD in_set_dropD)
    moreover have "octets (take zs g) @ octets (replicate (ze - zs) 0) @ octets (drop ze g) = a"
      using arg_cong [OF r(3), of octets] g(3) by simp
    moreover have "8 - zs - (8 - ze) = ze - zs" "length (take zs g) = zs" "length (drop ze g) = 8 - ze" using r(1,2) g(1) by auto
    ultimately have "parse_ipv6 pt ?s = Ok (a, z)"
      using parse_ipv6_run [of "take zs g" "drop ze g" z pt] r(1,2) assms(2) by simp
    moreover obtain xs ys where "?s = xs @ 0x3a # ys" "set xs \<inter> {0x2e, 0x3a, 0x25} = {}"
      using first_group [of "take zs g" "0x3a # colon_join (drop ze g) @ zone_text z"] by auto
    ultimately show ?thesis using to6_text [OF g(1)] z by (auto intro: parse_addr_v6)
  qed
  show "c \<in> set (to6_loop g (find_zeros g) 0) \<Longrightarrow> c \<notin> {0x5b, 0x5d}"
    using to6_text [OF g(1)] colon_join_chars by (auto split: option.splits)
qed

lemma text6_parses:
  assumes "length a = 16" and "zone_ok z"
  shows "parse_addr pt (append_to6_or_4in6 a z) = Ok (V6 a, z)"
proof (cases "list_all (\<lambda>x. x = 0) (take 10 a) \<and> a ! 10 = 0xff \<and> a ! 11 = 0xff")
  case True
  have ten: "take 10 a = replicate 10 0" using True assms(1) by (intro nth_equalityI) (auto simp: list_all_length)
  have "drop 10 a = a ! 10 # a ! 11 # drop 12 a"
    using Cons_nth_drop_Suc [of 10 a] Cons_nth_drop_Suc [of 11 a] assms(1) by simp
  then have a: "replicate 10 0 @ [0xff, 0xff] @ drop 12 a = a" using True append_take_drop_id [of 10 a] unfolding ten by simp
  have t: "append_to6_or_4in6 a z = mapped_text (drop 12 a) @ zone_text z"
    using True by (simp add: append_to6_or_4in6_def mapped_text_def mapped_prefix(1) zone_text_def)
  have "parse_ipv6 pt (append_to6_or_4in6 a z) = Ok (a, z)"
    using parse_ipv6_mapped [of "drop 12 a" z pt] assms unfolding t a by simp
  then show ?thesis by (rule parse_addr_v6 [where xs = "[]"]) (simp_all add: t mapped_text_def)
next
  case False
  then show ?thesis using text6_plain(1) [OF assms refl] unfolding append_to6_or_4in6_def zone_text_def if_not_P [OF False] by (simp add: Let_def)
qed

lemma rposition_here: "c \<notin> set t \<Longrightarrow> rposition (\<lambda>x. x = c) (s @ c # t) = Some (length s)"
proof -
  assume c: "c \<notin> set t"
  have u: "[0..<length (s @ c # t)] = [0..<length s] @ length s # [Suc (length s)..<length s + Suc (length t)]"
    using upt_add_eq_append [of 0 "length s" "Suc (length t)"] upt_conv_Cons [of "length s" "length s + Suc (length t)"] by simp
  have "filter (\<lambda>i. (s @ c # t) ! i = c) [Suc (length s)..<length s + Suc (length t)] = []"
    using c by (auto simp: filter_empty_conv nth_append nth_Cons split: nat.splits)
  then have f: "filter (\<lambda>i. (s @ c # t) ! i = c) [0..<length (s @ c # t)] = filter (\<lambda>i. (s @ c # t) ! i = c) [0..<length s] @ [length s]"
    unfolding u filter_append by simp
  show "rposition (\<lambda>x. x = c) (s @ c # t) = Some (length s)"
    unfolding rposition_def f by (cases "filter (\<lambda>i. (s @ c # t) ! i = c) [0..<length s]") simp_all
qed

lemma utf8_valid_ascii: "(\<And>c. c \<in> set s \<Longrightarrow> c < 0x80) \<Longrightarrow> utf8_valid s"
  by (induction s) auto

definition address_ok :: "ip_addr \<Rightarrow> bytes option \<Rightarrow> bool" where
  "address_ok ip z = (case ip of V4 a \<Rightarrow> length a = 4 \<and> z = None | V6 a \<Rightarrow> length a = 16 \<and> zone_ok z)"

theorem parse_addr_port_string:
  assumes "address_ok ip z"
  shows "parse_addr_port pt (addr_port_string ip z port) = Ok (ip, z, port)"
proof -
  let ?p = "dec_text (unat port)"
  have c: "0x3a \<notin> set ?p" by (auto dest: dec_text_range)
  have w: "utf8_valid ?p" by (rule utf8_valid_ascii) (auto simp: word_less_nat_alt dest: dec_text_range)
  have u: "unat (ucast port :: u64) \<le> 0xffff" "ucast (ucast port :: u64) = port"
    using unsigned_less [of port, where ?'a = nat] by (simp_all add: unsigned_ucast_eq take_bit_nat_eq_self take_bit_word_eq_self)
  show ?thesis
  proof (cases ip)
    case (V4 a)
    then have a: "length a = 4" "z = None" using assms by (auto simp: address_ok_def)
    then obtain v t where v: "append_to4 a = dec_text v @ 0x2e # t" by (auto elim: append_to4_head)
    then have "hd (append_to4 a) \<in> set (append_to4 a)" by simp
    then have "hd (append_to4 a) \<noteq> 0x5b" using append_to4_chars a by blast
    moreover have "append_to4 a \<noteq> []" using v by simp
    ultimately show ?thesis using V4 a rposition_here [OF c, of "append_to4 a"] v w u parse_addr_v4 [OF a(1), of pt]
      by (simp add: addr_port_string_def parse_addr_port_def parse_port is_ipv4_def Let_def)
  next
    case (V6 a)
    then have a: "length a = 16" "zone_ok z" using assms by (auto simp: address_ok_def)
    show ?thesis using V6 rposition_here [OF c, of "0x5b # append_to6_or_4in6 a z @ [0x5d]"] w u text6_parses [OF a, of pt]
      by (simp add: addr_port_string_def parse_addr_port_def parse_port is_ipv4_def Let_def)
  qed
qed

end
