(* ===== verification/Go_Url_Correct.thy ===== *)
theory Go_Url_Correct
  imports Go_Url Netip_Correct
begin

text \<open>
  Escaped text decodes to what was escaped, the path and the fragment of a printed URL decode to those of the URL, and the texts of
  transport addresses parse back.
\<close>

section \<open>Escaping\<close>

lemma upperhex_digit: "d < 16 \<Longrightarrow> is_hex (UPPERHEX ! d) \<and> unhex (UPPERHEX ! d) = of_nat d"
proof -
  have "\<forall>d \<in> set [0..<16]. is_hex (UPPERHEX ! d) \<and> unhex (UPPERHEX ! d) = of_nat d" by code_simp
  then show "d < 16 \<Longrightarrow> is_hex (UPPERHEX ! d) \<and> unhex (UPPERHEX ! d) = of_nat d" by simp
qed

lemma upperhex_nibbles:
  "is_hex (UPPERHEX ! unat (drop_bit 4 c))" "unhex (UPPERHEX ! unat (drop_bit 4 c)) = drop_bit 4 c"
  "is_hex (UPPERHEX ! unat (c AND 15))" "unhex (UPPERHEX ! unat (c AND 15)) = c AND 15" for c :: byte
  using upperhex_digit [of "unat (drop_bit 4 c)"] upperhex_digit [of "unat (c AND 15)"] unat_nibbles [of c] by auto

text \<open>Outside hosts every escape is accepted, and a percent sign is always escaped.\<close>

abbreviation open_mode :: "encoding \<Rightarrow> bool" where "open_mode mode \<equiv> mode \<noteq> EncHost \<and> mode \<noteq> EncZone"

lemma percent_escaped: "open_mode mode \<Longrightarrow> should_escape 0x25 mode" "should_escape 0x2b EncQueryComponent"
  by (auto simp: should_escape_def is_alnum_def is_digit_def is_alpha_def reserved_escaped_def ascii_def)

definition escape_char :: "encoding \<Rightarrow> byte \<Rightarrow> bytes" where
  "escape_char mode c =
     (if c = 0x20 \<and> mode = EncQueryComponent then [0x2b]
      else if should_escape c mode then [0x25, UPPERHEX ! unat (drop_bit 4 c), UPPERHEX ! unat (c AND 15)]
      else [c])"

lemma escape_simps: "escape [] mode = []" "escape (c # s) mode = escape_char mode c @ escape s mode"
  by (simp_all add: escape_def escape_char_def)

lemma scan_char: "open_mode mode \<Longrightarrow> \<exists>n' p'. unescape_scan pt mode (escape_char mode c @ t) n p = unescape_scan pt mode t n' p'"
  using upperhex_nibbles [of c] percent_escaped(1) [of mode] percent_escaped(2) by (auto simp: escape_char_def)

lemma fill_char: "open_mode mode \<Longrightarrow> unescape_fill mode (escape_char mode c @ t) = c # unescape_fill mode t"
  using upperhex_nibbles [of c] percent_escaped(1) [of mode] percent_escaped(2) nibbles_join [of c]
  by (auto simp: escape_char_def get_or_zero_def)

lemma scan_escape: "open_mode mode \<Longrightarrow> \<exists>n' p'. unescape_scan pt mode (escape s mode) n p = Ok (n', p')"
proof (induction s arbitrary: n p)
  case (Cons c s)
  then show ?case using scan_char [of mode pt c "escape s mode" n p] by (auto simp: escape_simps)
qed (simp add: escape_simps)

lemma fill_escape: "open_mode mode \<Longrightarrow> unescape_fill mode (escape s mode) = s"
  by (induction s) (simp_all add: escape_simps fill_char)

lemma scan_percent:
  assumes "unescape_scan pt mode (0x25 # s) n p = Ok r"
  obtains h1 h2 t where "s = h1 # h2 # t" "unescape_scan pt mode t (n + 1) p = Ok r"
  using assms by (auto simp: Let_def split: if_splits list.splits)

lemma scan_other:
  assumes "unescape_scan pt mode (c # s) n p = Ok r" and "c \<noteq> 0x25"
  shows "unescape_scan pt mode s n (if c = 0x2b then mode = EncQueryComponent else p) = Ok r"
  using assms by (auto split: if_splits)

lemma scan_counts: "unescape_scan pt mode s n p = Ok (k, q) \<Longrightarrow> n \<le> k \<and> (p \<and> mode = EncQueryComponent \<longrightarrow> q)"
proof (induction s arbitrary: n p rule: length_induct)
  case (1 s)
  show ?case
  proof (cases s)
    case (Cons c t)
    show ?thesis
    proof (cases "c = 0x25")
      case True
      then obtain h1 h2 r where r: "t = h1 # h2 # r" "unescape_scan pt mode r (n + 1) p = Ok (k, q)"
        using scan_percent [of pt mode t n p "(k, q)"] "1.prems" unfolding Cons True by blast
      have "length r < length s" using Cons r(1) by simp
      then have "n + 1 \<le> k \<and> (p \<and> mode = EncQueryComponent \<longrightarrow> q)" using "1.IH" r(2) by blast
      then show ?thesis by simp
    next
      case False
      have "length t < length s" using Cons by simp
      then have "n \<le> k \<and> ((if c = 0x2b then mode = EncQueryComponent else p) \<and> mode = EncQueryComponent \<longrightarrow> q)"
        using "1.IH" scan_other [of pt mode c t n p] "1.prems" Cons False by blast
      then show ?thesis by (auto split: if_splits)
    qed
  qed (use "1.prems" in simp)
qed

lemma fill_unchanged: "unescape_scan pt mode s n p = Ok (0, False) \<Longrightarrow> unescape_fill mode s = s"
proof (induction s arbitrary: n p)
  case (Cons c s)
  have "c \<noteq> 0x25"
  proof
    assume "c = 0x25"
    then obtain h1 h2 t where "unescape_scan pt mode t (n + 1) p = Ok (0, False)"
      using scan_percent [of pt mode s n p "(0, False)"] Cons.prems by blast
    then show False using scan_counts by fastforce
  qed
  then have o: "unescape_scan pt mode s n (if c = 0x2b then mode = EncQueryComponent else p) = Ok (0, False)"
    using Cons.prems by (intro scan_other)
  moreover have "\<not> (c = 0x2b \<and> mode = EncQueryComponent)" using scan_counts [OF o] by auto
  ultimately show ?case using Cons.IH \<open>c \<noteq> 0x25\<close> by auto
qed simp

lemma unescape_iff:
  "unescape pt s mode = Ok t \<longleftrightarrow> (\<exists>n p. unescape_scan pt mode s 0 False = Ok (n, p)) \<and> t = unescape_fill mode s"
  using fill_unchanged [of pt mode s 0 False] by (cases "unescape_scan pt mode s 0 False") (auto simp: unescape_def split: if_splits)

theorem unescape_escape: "open_mode mode \<Longrightarrow> unescape pt (escape s mode) mode = Ok s"
  using scan_escape [of mode pt s 0 False] by (simp add: unescape_iff fill_escape)

section \<open>Paths and fragments\<close>

lemma escaped_path_decodes: "unescape pt (escaped_path pt u) EncPath = Ok (u_path u)"
proof -
  have "unescape pt [0x2a] EncPath = Ok [0x2a]" by (simp add: unescape_def)
  then show ?thesis using unescape_escape [of EncPath pt "u_path u"] by (simp add: escaped_path_def)
qed

lemma escaped_fragment_decodes: "unescape pt (escaped_fragment pt u) EncFragment = Ok (u_fragment u)"
  using unescape_escape [of EncFragment pt "u_fragment u"] by (simp add: escaped_fragment_def)

text \<open>A path whose bytes are all allowed is printed as it was written, but for an escaped star.\<close>

lemma set_path_printed:
  assumes "set_path pt u p = Ok u'" and "valid_encoded p EncPath" and "u_path u' \<noteq> [0x2a]"
  shows "escaped_path pt u' = p"
proof -
  obtain path where path: "unescape pt p EncPath = Ok path"
      "u' = u\<lparr> u_raw_path := (if escape path EncPath = p then [] else p), u_path := path \<rparr>"
    using assms(1) by (cases "unescape pt p EncPath") (auto simp: set_path_def)
  have "p = [] \<Longrightarrow> path = []" using path(1) by (auto simp: unescape_def)
  then show ?thesis using path assms(2,3) by (auto simp: escaped_path_def escape_simps)
qed

section \<open>Transport addresses\<close>

lemma digit_of_hex: "d < 16 \<Longrightarrow> digit_of (hex_nibble d) = Some (of_nat d)" "d < 16 \<Longrightarrow> unat (of_nat d :: byte) = d"
proof -
  have "\<forall>d \<in> set [0..<16]. digit_of (hex_nibble d) = Some (of_nat d)" by code_simp
  then show "d < 16 \<Longrightarrow> digit_of (hex_nibble d) = Some (of_nat d)" by simp
  show "d < 16 \<Longrightarrow> unat (of_nat d :: byte) = d" by (simp only: unat_of_nat) simp
qed

lemma show_hex_digits: "c \<in> set (show_hex n) \<Longrightarrow> \<exists>d < 16. c = hex_nibble d"
proof (induction n rule: show_hex.induct)
  case (1 n)
  show ?case
  proof (cases "n < 16")
    case True
    then show ?thesis using "1.prems" by (subst (asm) show_hex.simps) auto
  next
    case False
    then have "c \<in> set (show_hex (n div 16)) \<or> c = hex_nibble (n mod 16)" using "1.prems" by (subst (asm) show_hex.simps) auto
    then show ?thesis using "1.IH" [OF False] by (auto intro: exI [of _ "n mod 16"])
  qed
qed

lemma show_hex_value: "digits_value 16 0 (show_hex n) = n"
proof (induction n rule: show_hex.induct)
  case (1 n)
  show ?case
  proof (cases "n < 16")
    case True
    then show ?thesis by (simp add: show_hex.simps digits_value_def digit_of_hex)
  next
    case False
    have "show_hex n = show_hex (n div 16) @ [hex_nibble (n mod 16)]" using False by (subst show_hex.simps) simp
    then show ?thesis using "1.IH" [OF False] by (simp add: digits_value_append) (simp add: digits_value_def digit_of_hex)
  qed
qed

lemma parse_custom_id: "parse_uint (show_hex (unat (n :: u64))) 16 64 = Ok n"
proof -
  have "list_all (valid_digit 16) (show_hex (unat n))"
    by (auto simp: list_all_iff valid_digit_def digit_of_hex dest!: show_hex_digits)
  moreover have "unat n < 2 ^ 64" using unsigned_less [of n, where ?'a = nat] by simp
  ultimately have "parse_uint_raw (show_hex (unat n)) 16 64 = Ok n"
    using parse_uint_raw_spec(1) [of 16 64 "show_hex (unat n)" n] by (simp add: show_hex_value)
  then show ?thesis by (simp add: parse_uint_def)
qed

lemma hex_digit_no: "d < 16 \<Longrightarrow> hex_nibble d \<notin> {0x3a, 0x5f}"
proof -
  have "\<forall>d \<in> set [0..<16]. hex_nibble d \<notin> {0x3a, 0x5f}" by code_simp
  then show "d < 16 \<Longrightarrow> hex_nibble d \<notin> {0x3a, 0x5f}" by simp
qed

lemma hex_encode_no_colon: "0x3a \<notin> set (hex_encode b)"
proof -
  have t: "0x3a \<notin> set HEXTABLE" "length HEXTABLE = 16" by code_simp+
  have d: "HEXTABLE ! d \<in> set HEXTABLE" if "d < 16" for d using that t(2) by simp
  have "set (hex_encode b) \<subseteq> set HEXTABLE"
    by (induction b) (simp_all add: hex_encode_def d unat_nibbles)
  then show ?thesis using t(1) by blast
qed

lemma split_once_here: "c \<notin> set s \<Longrightarrow> split_once c (s @ c # t) = Some (s, t)" "c \<notin> set s \<Longrightarrow> split_once c s = None"
  by (simp_all add: split_once_def position_here position_absent)

definition transport_addr_ok :: "transport_addr \<Rightarrow> bool" where
  "transport_addr_ok a = (case a of TRelay _ \<Rightarrow> False | TIp ip zone _ \<Rightarrow> address_ok ip zone | TCustom _ _ \<Rightarrow> True)"

lemma custom_addr_parses: "parse_transport_addr ct pt (transport_addr_display (TCustom n data)) = Ok (TCustom n data)"
proof -
  let ?s = "show_hex (unat n) @ 0x5f # hex_encode data"
  have h: "c \<in> set (show_hex (unat n)) \<Longrightarrow> c \<notin> {0x3a, 0x5f}" for c
    using show_hex_digits [of c "unat n"] hex_digit_no by auto
  then have n: "0x3a \<notin> set ?s" using hex_encode_no_colon by auto
  have col: "0x3a \<in> set (ascii ''custom:'')" by (simp add: ascii_def)
  have ns: "\<not> starts_with ?s (ascii ''custom:'')"
  proof
    assume "starts_with ?s (ascii ''custom:'')"
    then have "0x3a \<in> set (take (length (ascii ''custom:'')) ?s)" using col unfolding starts_with_def by (rule ssubst)
    then have "0x3a \<in> set ?s" by (rule in_set_takeD)
    with n show False by (rule notE)
  qed
  have sp: "split_once 0x5f ?s = Some (show_hex (unat n), hex_encode data)" using h by (intro split_once_here) auto
  have "parse_custom_addr ?s = Ok (TCustom n data)"
    unfolding parse_custom_addr_def Let_def if_not_P [OF ns] sp by (simp add: parse_custom_id hex_decode_encode map_err_def)
  then show ?thesis unfolding parse_transport_addr_def transport_addr_display.simps split_once_here(2) [OF n] by simp
qed

lemma ip_addr_parses:
  assumes "address_ok ip zone"
  shows "parse_transport_addr ct pt (transport_addr_display (TIp ip zone port)) = Ok (TIp ip zone port)"
proof -
  have a: "ascii ''ip:'' = [0x69, 0x70] @ [0x3a]" "ascii ''ip'' = [0x69, 0x70]" "ascii ''relay'' \<noteq> [0x69, 0x70]" by (simp_all add: ascii_def)
  have "split_once 0x3a ([0x69, 0x70] @ 0x3a # addr_port_string ip zone port) = Some ([0x69, 0x70], addr_port_string ip zone port)"
    by (rule split_once_here) simp
  then have sp: "split_once 0x3a (ascii ''ip:'' @ addr_port_string ip zone port) = Some (ascii ''ip'', addr_port_string ip zone port)"
    by (simp only: a append.assoc append.simps)
  have k: "ascii ''ip'' \<noteq> ascii ''relay''" by (simp add: ascii_def)
  show ?thesis
    unfolding parse_transport_addr_def transport_addr_display.simps sp option.case prod.case if_not_P [OF k] parse_addr_port_string [OF assms]
    by (simp add: map_err_def)
qed

theorem transport_addr_parses:
  "transport_addr_ok a \<Longrightarrow> parse_transport_addr ct pt (transport_addr_display a) = Ok a"
  by (cases a) (simp_all add: transport_addr_ok_def custom_addr_parses ip_addr_parses del: transport_addr_display.simps)

end
