(* ===== verification/Spec2Isabelle.thy ===== *)
theory Spec2Isabelle
  imports Pack_Stream Log2fix Ticket Wt_Change_Correct Wt_Merge Udiff_Hunks
    Cbor_Typing Client_Refs Client_Objects_Correct Go_Path_Rel Go_Url_Correct
begin

text \<open>
  Verification of \<^verbatim>\<open>dstore-client-rs\<close>, the Rust client of the dstore object store.

  The program. A client talks to the nodes of a cluster in frames that carry CBOR messages
  (\<^verbatim>\<open>crates/codec\<close>, \<^verbatim>\<open>crates/wire\<close>). Objects travel in packs, streams of records cut into data frames
  (\<^verbatim>\<open>wire/pack.rs\<close>). Where an object lives is computed and not looked up: the cluster view lists the nodes,
  and the placement of a key is a ranking of the nodes (\<^verbatim>\<open>crates/view\<close>). A ticket is the text that lets a client
  find a cluster (\<^verbatim>\<open>crates/ticket\<close>). The client proper (\<^verbatim>\<open>crates/client\<close>) keeps a view and what it knows of
  each node, sends requests over a pool of connections (\<^verbatim>\<open>crates/transport\<close>), reads and writes references and uploads
  objects; working copies (\<^verbatim>\<open>crates/worktree\<close>) compare and merge trees, and show changes of files as unified diffs
  (\<^verbatim>\<open>crates/udiff\<close>). The code is a port of a Go program and keeps
  Go's behaviour, down to the
  sort algorithm, the base32 decoder, and the string, number, path, address and URL functions (\<^verbatim>\<open>crates/gocompat\<close>,
  \<^verbatim>\<open>view/gosort.rs\<close>, \<^verbatim>\<open>transport/addr.rs\<close>).

  The theories.
  \<^item> \<open>Prelude\<close>: results (\<open>outcome\<close>: a value, an error, or \<open>Stuck\<close> where a bound of the model ran out or the code
    panicked), big-endian numbers, decimal text.
  \<^item> \<open>Cbor_Error\<close>, \<open>Cbor_Wellformed\<close>, \<open>Cbor_Enc\<close>, \<open>Float_Bits\<close>, \<open>Cbor_Dec\<close>, \<open>Cbor_Bigdec\<close>: \<^verbatim>\<open>codec/error.rs\<close>,
    \<^verbatim>\<open>wellformed.rs\<close>, \<^verbatim>\<open>enc.rs\<close> and \<^verbatim>\<open>dec.rs\<close>. A decoder is a function from the remaining bytes to a value and the
    rest. \<open>Cbor_Struct\<close> models \<^verbatim>\<open>field.rs\<close> and what \<^verbatim>\<open>cbor_struct!\<close> generates, over schemas as data.
    \<open>Cbor_Agree\<close> shows that the decoder consumes exactly what the validator accepted and never panics;
    \<open>Cbor_Typing\<close> that it returns values of the declared types; \<open>Cbor_Item\<close>, \<open>Cbor_Roundtrip\<close> and \<open>Cbor_Record\<close> the round trip, and the interface \<open>cbor_record\<close> that every
    struct of the program interprets.
  \<^item> \<open>Wire_Msg\<close>, \<open>View_Msg\<close>, \<open>Ticket_Msg\<close>: the structs of \<^verbatim>\<open>wire/msg.rs\<close>, \<^verbatim>\<open>admin.rs\<close>, \<^verbatim>\<open>pack.rs\<close>, \<^verbatim>\<open>view.rs\<close> and
    \<^verbatim>\<open>ticket/lib.rs\<close>, one record each.
  \<^item> \<open>Io\<close>, \<open>Wire_Frame\<close>, \<open>Wire_Pack\<close>, \<open>Pack_Stream\<close>: byte streams as scripts of reads and writes with errors, frames
    (\<^verbatim>\<open>frame.rs\<close>, \<^verbatim>\<open>error.rs\<close>, \<^verbatim>\<open>keys.rs\<close>), the pack sender, reader and record iterator (\<^verbatim>\<open>pack.rs\<close>), and what a
    stream of a pack is.
  \<^item> \<open>Gosort\<close>, \<open>Gosort_Correct\<close>, \<open>Gosort_Pdq\<close>: \<^verbatim>\<open>view/gosort.rs\<close>, every helper, in the option monad where \<open>None\<close> is an
    index out of range or a loop that does not end. The interface \<open>strict_weak\<close> is what a comparison has to
    satisfy; every order of the program interprets it.
  \<^item> \<open>Placement\<close>, \<open>Placement_Correct\<close>, \<open>Log2fix\<close>: \<^verbatim>\<open>view/placement.rs\<close>. Scores, ranks, owners, and tables with
    caches, whose reachable states are an inductive predicate; the interface \<open>transparent_cache\<close> says that a
    cached lookup answers like the function.
  \<^item> \<open>View\<close>, \<open>View_Correct\<close>: the operations of \<^verbatim>\<open>view/view.rs\<close> and \<^verbatim>\<open>lib.rs\<close>.
  \<^item> \<open>Encodings\<close>, \<open>Strings\<close>, \<open>Ticket\<close>: \<^verbatim>\<open>gocompat/hex.rs\<close>, \<^verbatim>\<open>base32.rs\<close>, \<^verbatim>\<open>strings.rs\<close>, and \<^verbatim>\<open>ticket/lib.rs\<close>.
  \<^item> \<open>Wt_Change\<close>, \<open>Wt_Change_Correct\<close>, \<open>Wt_Merge\<close>: \<^verbatim>\<open>worktree/change.rs\<close> and \<^verbatim>\<open>merge.rs\<close>: the changes between two
    trees, what they are as a set of paths, and the merge of changes.
  \<^item> \<open>Udiff_Lcs\<close>, \<open>Gosort_Stable\<close>, \<open>Udiff\<close>: \<^verbatim>\<open>udiff/lcs.rs\<close>, the stable sort of \<^verbatim>\<open>udiff/gosort.rs\<close>, \<^verbatim>\<open>diff.rs\<close> and
    \<^verbatim>\<open>unified.rs\<close>. \<open>Udiff_Path\<close> is the theory of paths in the edit graph, \<open>Udiff_Labels\<close> shows that the label tables hold the
    furthest points of the forward and backward search, \<open>Udiff_Diag\<close> is about lists of diagonals and their repair, and
    \<open>Udiff_Search\<close> concludes that the search returns a common subsequence. \<open>Udiff_Correct\<close>, \<open>Udiff_Expand\<close> and
    \<open>Udiff_Hunks\<close> show that the edits, their expansion to whole lines and the hunks turn the old text into the new.
  \<^item> \<open>Strconv\<close>: \<^verbatim>\<open>gocompat/quote.rs\<close> and the integers and booleans of \<^verbatim>\<open>strconv.rs\<close>, with the exact range each parser accepts.
    \<open>Go_Path\<close>: \<^verbatim>\<open>gocompat/path.rs\<close>; \<open>Go_Path_Correct\<close> shows what \<^verbatim>\<open>clean\<close> computes, as a resolution of path elements, and
    \<open>Go_Path_Rel\<close> that \<^verbatim>\<open>rel\<close> ends, when it fails, and that its result leads to the target.
  \<^item> \<open>Netip\<close>, \<open>Go_Url\<close>: \<^verbatim>\<open>transport/addr.rs\<close>: IP addresses with zones and ports, URLs and transport addresses. \<open>Netip_Correct\<close> and
    \<open>Go_Url_Correct\<close> show that the texts of addresses parse back and that escaped text decodes.
  \<^item> \<open>Client_Error\<close>: \<^verbatim>\<open>client/error.rs\<close> and \<^verbatim>\<open>transport/error.rs\<close>, with the search through an error's sources.
  \<^item> \<open>Pool\<close>: \<^verbatim>\<open>transport/pool.rs\<close>. \<^verbatim>\<open>get\<close> is cut at its suspension points; tasks interleave as an inductive step
    relation, and its reachable states keep the bound on connections.
  \<^item> \<open>Client_State\<close>, \<open>Client_Correct\<close>: \<^verbatim>\<open>client/cluster.rs\<close> and \<^verbatim>\<open>rank.rs\<close>: configuration, the shared state and its
    updates, preference of nodes, calls with their retries, \<^verbatim>\<open>dial\<close>. The interface \<open>state_guard\<close> is a property that every
    update keeps; the theorems on calls are proved once for it.
  \<^item> \<open>Client_Refs\<close>: \<^verbatim>\<open>client/refs.rs\<close>. \<open>Client_Objects\<close>, \<open>Client_Objects_Correct\<close>: \<^verbatim>\<open>client/batch.rs\<close>, the negotiation, the
    upload of one batch and the verification of a record of \<^verbatim>\<open>client/objects.rs\<close>.

  Code of other crates is a parameter: \<^verbatim>\<open>append_head\<close>, the pack parser, record decoding and the tree objects of
  \<^verbatim>\<open>amber_store_core\<close>, BLAKE3, the ed25519 point check, and the generated Unicode tables of cases and printable runes. What is assumed of them is
  a named hypothesis (\<open>append_head_ok\<close>, \<open>valid_record\<close>), and the witnesses instantiate it. Of the network, a request is
  answered by a function of everything sent so far, which also says what other tasks did to the shared state in the
  meantime; nothing is assumed of it but where a theorem says so (\<open>serves_pages\<close>). The order in which concurrent requests
  of a negotiation are handled is a parameter that only permutes them (\<open>permutes_tasks\<close>).

  Bounds and fuel. The decoders recurse on the nesting depth, with the length of the input as the bound, and the
  loops over chunks with the length of the rest; \<open>unmarshal_returns\<close> shows that no bound is ever reached. The loops of
  the sort, of the diff, of the negotiation and of the listing are partial functions and their theorems include that they return.
  The tree walks recurse with fuel, and the theorem on them gives enough for a tree of finite depth. Placement indexes
  are 32-bit, so the theorems that identify a member by its index assume at most \<open>2\<^sup>3\<^sup>2\<close> members.

  Not modelled: the capacity computation of \<^verbatim>\<open>cluster_id_cap\<close>; the floating-point, time and JSON formatting of
  \<^verbatim>\<open>gocompat\<close>; dialling and discovery (\<^verbatim>\<open>transport-iroh\<close>); the spreading of uploads over
  primaries, the download stream, watches and trees of \<^verbatim>\<open>client\<close>; the working-copy commands of \<^verbatim>\<open>worktree\<close> over the
  file system; logging; and the command-line programs.
\<close>

section \<open>The codec\<close>

definition append_cbor_head :: append_head where
  "append_cbor_head buf m n = buf @ cbor_head m n"

lemma append_cbor_head_ok: "append_head_ok append_cbor_head"
  by (simp add: append_head_ok_def append_cbor_head_def)

definition sample_schema :: schema where
  "sample_schema = Schema ''wire.RefInfo''
     [Fld 0 TText ''string'' False, Fld 1 TBytesOpt ''[]uint8'' False,
      Fld 3 TInt ''int64'' False, Fld 4 TText ''string'' True]"

definition sample_vals :: "fval list" where
  "sample_vals = [VText [0x61], VBytesOpt (Some [1, 2]), VInt (-5), VText []]"

lemma sample_ok:
  "struct_typed sample_schema sample_vals" "schema_ok sample_schema" "schema_levels sample_schema \<le> 32"
  by (simp_all add: sample_schema_def sample_vals_def)

text \<open>
  C1. Round trip of every \<^verbatim>\<open>cbor_struct!\<close> declaration: for a schema whose keys ascend and whose
  nesting is within the decoder's limit, decoding the encoding of a well-typed struct returns the
  struct.
\<close>

theorem codec_roundtrip:
  assumes "append_head_ok ah" and "schema_ok S" and "schema_levels S \<le> 32" and "struct_typed S vs"
  shows "unmarshal (decode_struct S) (marshal ah S vs) = Ok vs"
  by (rule unmarshal_marshal [OF assms(1,4,2,3)])

theorem codec_roundtrip_witness:
  "unmarshal (decode_struct sample_schema) (marshal append_cbor_head sample_schema sample_vals)
     = Ok sample_vals"
  by (rule codec_roundtrip [OF append_cbor_head_ok sample_ok(2,3,1)])

text \<open>
  C2. The two passes agree on where a message ends: when pass 1 accepts the input and the struct
  decoder succeeds, the decoder has consumed the whole input.
\<close>

theorem unmarshal_consumes_all:
  assumes "well_formed b = Ok ()" and "decode_struct S b = Ok (v, r)"
  shows "r = []"
proof -
  have "item b []"
    using assms(1) by (auto simp: well_formed_def item_def split: if_splits)
  then show ?thesis using assms(2) by (rule struct.exact)
qed

theorem unmarshal_consumes_all_witness:
  "well_formed [0xa0] = Ok () \<and> decode_struct sample_schema [0xa0] =
     Ok ([VText [], VBytesOpt None, VInt 0, VText []], []) \<and> ([] :: bytes) = []"
proof -
  have w: "well_formed [0xa0] = Ok ()" by code_simp
  have d: "decode_struct sample_schema [0xa0] = Ok ([VText [], VBytesOpt None, VInt 0, VText []], [])"
    by code_simp
  show ?thesis using w d unmarshal_consumes_all [OF w d] by blast
qed

text \<open>
  C3. What \<^verbatim>\<open>unmarshal\<close> returns has the declared type, for every schema and every input: one value per field, integers within
  the range of their width, text that is UTF-8, and the same for every element of a list and every nested struct.
\<close>

theorem decoded_values_typed:
  assumes "unmarshal (decode_struct S) b = Ok vs"
  shows "struct_fits S vs"
  using assms typed_reader.typed [OF decode_typed(2)] by (auto simp: unmarshal_def)

theorem decoded_values_typed_witness:
  "struct_fits (Schema ''T'' [Fld 1 TU8 ''uint8'' False, Fld 2 TText ''string'' False]) [VUint 200, VText [0xc3, 0xa9]]"
proof (rule decoded_values_typed)
  show "unmarshal (decode_struct (Schema ''T'' [Fld 1 TU8 ''uint8'' False, Fld 2 TText ''string'' False]))
      [0xa2, 0x01, 0x18, 0xc8, 0x02, 0x62, 0xc3, 0xa9] = Ok [VUint 200, VText [0xc3, 0xa9]]" by code_simp
qed

text \<open>
  C4. \<^verbatim>\<open>skip\<close> (which does not look at the item) and the validator agree: on an item that the validator
  accepts, at any depth, \<^verbatim>\<open>skip\<close> succeeds and leaves the same rest.
\<close>

theorem skip_same_item:
  assumes "wf_item n d bs = Ok r"
  shows "skip bs = Ok r"
  using assms by (intro skip_exact) (auto simp: item_def)

theorem skip_same_item_witness: "skip [0x82, 0x01, 0x41, 0xff, 0x07] = Ok [0x07]"
proof (rule skip_same_item)
  show "wf_item 6 0 [0x82, 0x01, 0x41, 0xff, 0x07] = Ok [0x07]" by code_simp
qed

text \<open>
  C5. \<^verbatim>\<open>unmarshal\<close> of any input into any struct returns: the step bounds of the model never run out.
\<close>

theorem unmarshal_returns: "unmarshal (decode_struct S) b \<noteq> Stuck"
proof -
  have "well_formed b \<noteq> Stuck"
    using wf_item_total [of b "Suc (length b)" 0] by (simp add: well_formed_def obind_eq_Stuck)
  then show ?thesis by (auto simp: unmarshal_def obind_eq_Stuck struct.total)
qed

text \<open>
  C6. The decimal text of a bignum, computed by divide and conquer with Karatsuba multiplication in
  base \<open>10^9\<close>, is the text of the number that the big-endian content denotes (plus one for tag 3).
\<close>

theorem big_decimal_text: "big_decimal content p = show_nat (be_nat content + of_bool p)"
  by (rule big_decimal_correct)

section \<open>Frames and packs\<close>

text \<open>
  C7. What \<^verbatim>\<open>encode_frame\<close> produces, \<^verbatim>\<open>read_msg\<close> takes off a stream: the message comes back and the
  reader stands right behind the frame, however the transport cuts the bytes into reads.
\<close>

theorem frame_roundtrip:
  assumes "append_head_ok ah" and "struct_typed msg_schema (msg_vals m)" and "encode_frame ah m = Ok f"
    and "stream r = (f @ rest, e)"
  shows "\<exists>r'. read_msg r = (Ok m, r') \<and> stream r' = (rest, e)"
proof -
  have "fst (read_msg r) = Ok m" using read_msg_stream(1) [OF assms(4)] decode_frame(1) [OF assms(1-3)] by simp
  then have "read_msg r = (Ok m, snd (read_msg r))" by (metis prod.collapse)
  moreover from read_msg_stream(2) [OF assms(4) this] decode_frame(2) [OF assms(1-3)]
  have "stream (snd (read_msg r)) = (rest, e)" by simp
  ultimately show ?thesis by blast
qed

lemmas ok_msg = msg_default_def msg_of_vals_def msg_vals_def msg_schema_def key_holders_schema_def
  key_failure_schema_def key_reject_schema_def ref_info_schema_def scan_row_schema_def

lemma ok_typed: "struct_typed msg_schema (msg_vals (msg_default\<lparr>m_typ := 53\<rparr>))"
  by (simp add: ok_msg)

lemma ok_frame:
  "encode_frame append_cbor_head (msg_default\<lparr>m_typ := 53\<rparr>) = Ok [0, 0, 0, 4, 0xa1, 0x00, 0x18, 0x35]"
proof -
  have "marshal append_cbor_head msg_schema (msg_vals (msg_default\<lparr>m_typ := 53\<rparr>)) = [0xa1, 0x00, 0x18, 0x35]"
    by (simp add: ok_msg marshal_def enc_head_def enc_uint_def enc_int_def append_cbor_head_def cbor_head_def)
  moreover have "be_bytes 4 (of_nat (length [0xa1, 0x00, 0x18, 0x35 :: byte]) :: u32) = [0, 0, 0, 4]" by code_simp
  ultimately show ?thesis by (simp add: encode_frame_def MAX_FRAME_def)
qed

theorem frame_roundtrip_witness:
  "\<exists>r'. read_msg [RData [0, 0], RErr \<lparr>io_kind = KInterrupted, io_text = []\<rparr>, RData [0, 4, 0xa1, 0x00, 0x18], RData [0x35, 7]] =
     (Ok (msg_default\<lparr>m_typ := 53\<rparr>), r') \<and> stream r' = ([7], EndEof)"
  by (rule frame_roundtrip [OF append_cbor_head_ok ok_typed ok_frame]) simp

text \<open>
  Two transports that carry the same bytes and end in the same way make \<^verbatim>\<open>read_msg\<close> return the same
  result, errors included, and after a message they stand at the same point.
\<close>

theorem read_msg_fragmentation:
  assumes "stream r1 = stream r2" and "read_msg r1 = (res1, r1')" and "read_msg r2 = (res2, r2')"
  shows "res1 = res2 \<and> (\<forall>m. res1 = Ok m \<longrightarrow> stream r1' = stream r2')"
proof -
  obtain b e where s: "stream r1 = (b, e)" by (cases "stream r1")
  note s2 = s [unfolded assms(1)]
  have "res1 = res2" using read_msg_stream(1) [OF s] read_msg_stream(1) [OF s2] assms(2,3) by simp
  then show ?thesis
    using read_msg_stream(2) [OF s, of _ r1'] read_msg_stream(2) [OF s2, of _ r2'] assms(2,3) by simp
qed

theorem read_msg_fragmentation_witness:
  "fst (read_msg [RData [0, 0, 0, 4, 0xa1, 0x00, 0x18, 0x35]]) =
   fst (read_msg [RData [0], RErr \<lparr>io_kind = KInterrupted, io_text = []\<rparr>, RData [0, 0, 4, 0xa1, 0x00], RData [0x18, 0x35]])"
  by (rule read_msg_fragmentation [THEN conjunct1, OF _ surjective_pairing surjective_pairing]) simp

text \<open>
  C8. The frames of a finished pack: whatever the 4096-byte buffer and the sizes of the records, a sender
  over a writer that does not fail puts the magic, the records and the end marker on the wire, cut into
  TData frames of exactly 1 MiB (the last one shorter), and then TDataEnd.
\<close>

theorem pack_sender_frames:
  assumes "w_script w = []"
  shows "\<exists>st'. send_pack ah recs w = (Ok (), st') \<and>
    w_out (ps_w st') = w_out w @ pack_frames ah (PACK_MAGIC @ concat recs @ [TAG_END])"
  by (rule send_pack_ok [OF assms])

theorem pack_sender_frames_witness:
  "\<exists>st'. send_pack append_cbor_head [[1, 2], [3]] \<lparr>w_out = [9], w_script = []\<rparr> = (Ok (), st') \<and>
    w_out (ps_w st') = [9] @ pack_frames append_cbor_head (PACK_MAGIC @ [1, 2, 3] @ [TAG_END])"
  using pack_sender_frames [of "\<lparr>w_out = [9], w_script = []\<rparr>" append_cbor_head "[[1, 2], [3]]"] by simp

text \<open>
  C9. A pack from sender to receiver: the records that were sent come out of \<^verbatim>\<open>PackRecords\<close> in order, each
  with its bytes, then the iteration ends, and \<^verbatim>\<open>drain\<close> takes the reader right behind TDataEnd, whatever
  the transport's reads. What core's \<^verbatim>\<open>parse_record\<close> makes of a record is a parameter.
\<close>

theorem pack_delivered:
  assumes "append_head_ok ah" and "42 \<le> rec_header_size core" and "list_all2 (valid_record core) recs xs"
    and "send_pack ah recs \<lparr>w_out = [], w_script = []\<rparr> = (res, snd_st)"
    and "stream r = (w_out (ps_w snd_st) @ rest, e)"
    and "next_n core (Suc (length recs)) (pack_records_new (pack_reader_new r)) = (out, st')"
  shows "res = Ok () \<and> out = map (Some \<circ> Ok) (zip xs recs) @ [None] \<and>
    (\<exists>st''. records_drain st' = (Ok 0, st'') \<and> stream (pk_r (rs_pr st'')) = (rest, e))"
proof -
  let ?b = "concat recs @ [TAG_END]"
  have snd: "res = Ok ()" "w_out (ps_w snd_st) = pack_frames ah (PACK_MAGIC @ ?b)"
    using send_pack_ok [of "\<lparr>w_out = [], w_script = []\<rparr>" ah recs] assms(4) by auto
  have "records_at ah ?b rest e (pack_records_new (pack_reader_new r))"
    using pack_stream_new [of r ah "PACK_MAGIC @ ?b" rest e] assms(5) snd(2)
    by (simp add: records_at_def pack_records_new_def)
  from next_n_pack [OF assms(1-3) this] assms(6)
  have out: "out = map (Some \<circ> Ok) (zip xs recs) @ [None]" "pack_stream ah [] rest e (rs_pr st')" by auto
  from drain_pack [OF assms(1) out(2), of 0] obtain pr' where
    "drain_loop 0 (rs_pr st') = (Ok 0, pr')" "stream (pk_r pr') = (rest, e)" by auto
  with snd out show ?thesis by (simp add: records_drain_def with_pr_def drain_def)
qed

text \<open>A core that accepts every record and returns its payload.\<close>

definition echo_core :: "bytes amberpack" where
  "echo_core = \<lparr>rec_header_size = 46, max_payload = 1000, parse_record = (\<lambda>b. Ok (drop 46 b))\<rparr>"

definition echo_record :: bytes where
  "echo_record = 1 # replicate 37 0 @ [0, 0, 0, 2] @ replicate 4 0 @ [7, 8]"

lemma echo_valid: "valid_record echo_core echo_record [7, 8]"
  by code_simp

theorem pack_delivered_witness:
  "\<exists>st'. next_n echo_core 2 (pack_records_new (pack_reader_new
       [RData (w_out (ps_w (snd (send_pack append_cbor_head [echo_record] \<lparr>w_out = [], w_script = []\<rparr>)))), RData [5]])) =
     ([Some (Ok ([7, 8], echo_record)), None], st')"
proof -
  define r where "r = [RData (w_out (ps_w (snd (send_pack append_cbor_head [echo_record] \<lparr>w_out = [], w_script = []\<rparr>)))), RData [5]]"
  have ne: "w_out (ps_w (snd (send_pack append_cbor_head [echo_record] \<lparr>w_out = [], w_script = []\<rparr>))) \<noteq> []"
    using send_pack_ok [of "\<lparr>w_out = [], w_script = []\<rparr>" append_cbor_head "[echo_record]"]
    by (auto simp: pack_frames_def TDATA_END_FRAME_def)
  have "stream r = (w_out (ps_w (snd (send_pack append_cbor_head [echo_record] \<lparr>w_out = [], w_script = []\<rparr>))) @ [5], EndEof)"
    using ne by (simp add: r_def)
  moreover have "42 \<le> rec_header_size echo_core" "list_all2 (valid_record echo_core) [echo_record] [[7, 8]]"
    using echo_valid by (simp_all add: echo_core_def)
  ultimately have "fst (next_n echo_core (Suc (length [echo_record])) (pack_records_new (pack_reader_new r))) =
      map (Some \<circ> Ok) (zip [[7, 8]] [echo_record]) @ [None]"
    using pack_delivered [OF append_cbor_head_ok _ _ surjective_pairing _ surjective_pairing] by blast
  then show ?thesis unfolding r_def [symmetric]
    by (metis (no_types, lifting) One_nat_def Suc_1 append_Cons append_Nil comp_apply length_Cons list.size(3)
        list.map(1,2) prod.collapse zip_Cons_Cons zip_Nil)
qed

text \<open>
  \<^verbatim>\<open>keys32\<close> returns the keys when all have 32 bytes, and otherwise names the first one that has not.
\<close>

theorem keys32_spec:
  "keys32 raw = (case filter (\<lambda>i. length (raw ! i) \<noteq> 32) [0..<length raw] of
     [] \<Rightarrow> Ok raw | i # _ \<Rightarrow> Err (WKeyLen i (length (raw ! i))))"
  by (rule keys32_first_bad)

text \<open>
  The retry delay of a remote error never wraps into a huge value: it is below \<open>2^63\<close> nanoseconds,
  it is exactly the milliseconds of the message when they fit, and a negative delay that fits is zero.
\<close>

theorem retry_after_bounds:
  "re_retry_after (error_from_msg m) < 2 ^ 63 \<and>
   (\<bar>m_retry_after m\<bar> \<le> 9223372036854 \<longrightarrow>
     re_retry_after (error_from_msg m) = nat (m_retry_after m) * 1000000)"
  by (rule error_retry_after)

theorem retry_after_bounds_witness:
  "re_retry_after (error_from_msg (msg_default\<lparr>m_retry_after := 250\<rparr>)) = 250000000"
  using retry_after_bounds [of "msg_default\<lparr>m_retry_after := 250\<rparr>"] by simp

section \<open>Go's sort\<close>

text \<open>
  C10. The port of Go's pattern-defeating quicksort returns, on every slice and for every strict weak
  order, a permutation of the slice in which no later element is less than an earlier one. Every index it
  uses is in range.
\<close>

theorem go_slice_sorts:
  assumes "strict_weak lt"
  shows "\<exists>ys. slice_sort xs lt = Some ys \<and> mset ys = mset xs \<and> sorted_wrt (\<lambda>x y. \<not> lt y x) ys"
  by (rule strict_weak.slice_sort_ok [OF assms])

theorem go_slice_sorts_witness:
  "\<exists>ys. slice_sort [3, 1, 2 :: nat] (<) = Some ys \<and> mset ys = mset [3, 1, 2] \<and> sorted_wrt (\<lambda>x y. \<not> y < x) ys"
  by (rule go_slice_sorts) (unfold_locales, auto)

section \<open>Placement\<close>

text \<open>
  C11. The rank of a slot is a permutation of the member indexes in which weighted members come first, by
  descending score \<open>weight / L\<close> compared exactly as rationals and then by id, and the members of weight zero
  follow by id. No computation on the way can panic.
\<close>

theorem rank_is_sorted_permutation:
  assumes "length ms \<le> 2 ^ 32"
  shows "\<exists>idx. rank (set_new blake3 ms) sl = Some idx \<and> mset (map unat idx) = mset [0..<length ms] \<and>
    sorted_wrt (rank_before blake3 sl) (map (\<lambda>i. ms ! unat i) idx)"
proof -
  obtain ks where ks: "rank (set_new blake3 ms) sl = Some (map of_nat ks)" "mset ks = mset [0..<length ms]"
    using rank_ok [of blake3 ms sl] by auto
  have "map unat (map of_nat ks :: u32 list) = ks"
    using rank_members(3) [OF assms ks(1)] mset_eq_setD [OF ks(2)] assms
    by (auto simp: unsigned_of_nat take_bit_nat_eq_self intro!: map_idI)
  then have "mset (map unat (map of_nat ks :: u32 list)) = mset [0..<length ms]" using ks(2) by metis
  then show ?thesis using ks(1) rank_members(2) [OF assms ks(1)] by blast
qed

definition sample_members :: "member list" where
  "sample_members =
     [\<lparr>mb_id = replicate 32 1, mb_weight = 5, mb_zone = [7]\<rparr>, \<lparr>mb_id = replicate 32 2, mb_weight = 0, mb_zone = [8]\<rparr>,
      \<lparr>mb_id = replicate 32 3, mb_weight = 9, mb_zone = [7]\<rparr>, \<lparr>mb_id = replicate 32 4, mb_weight = 1, mb_zone = []\<rparr>]"

definition sample_hash :: blake3 where
  "sample_hash b = take 32 (rev b)"

theorem rank_is_sorted_permutation_witness:
  "\<exists>idx. rank (set_new sample_hash sample_members) 3 = Some idx \<and> mset (map unat idx) = mset [0, 1, 2, 3] \<and>
    sorted_wrt (rank_before sample_hash 3) (map (\<lambda>i. sample_members ! unat i) idx)"
proof -
  have l: "length sample_members = 4" by (simp add: sample_members_def)
  have "[0..<4] = [0, 1, 2, 3 :: nat]" by (simp add: upt_rec)
  then show ?thesis using rank_is_sorted_permutation [of sample_members sample_hash 3] l by simp
qed

text \<open>
  C12. Owners of a slot: at most \<open>r\<close> members, all with weight and from distinct zones; when there are fewer
  than \<open>r\<close>, every zone that has a weighted member is represented.
\<close>

theorem owners_spread:
  assumes "length ms \<le> 2 ^ 32"
  shows "\<exists>own. owners (set_new blake3 ms) sl r = Some own \<and> length own \<le> r \<and>
    (\<forall>i \<in> set own. unat i < length ms \<and> mb_weight (ms ! unat i) \<noteq> 0) \<and>
    distinct (map (\<lambda>i. zone_key (ms ! unat i)) own) \<and>
    (length own < r \<longrightarrow> (\<forall>m \<in> set ms. mb_weight m \<noteq> 0 \<longrightarrow> (\<exists>i \<in> set own. zone_key (ms ! unat i) = zone_key m)))"
proof -
  obtain idx where "rank (set_new blake3 ms) sl = Some idx" using rank_total by blast
  then obtain own where own: "owners (set_new blake3 ms) sl r = Some own" by (simp add: owners_def)
  then show ?thesis using owners_ok [OF assms own] by blast
qed

theorem owners_spread_witness:
  "\<exists>own. owners (set_new sample_hash sample_members) 3 2 = Some own \<and> length own \<le> 2 \<and>
    distinct (map (\<lambda>i. zone_key (sample_members ! unat i)) own)"
proof -
  have "length sample_members \<le> 2 ^ 32" by (simp add: sample_members_def)
  from owners_spread [OF this, of sample_hash 3 2] show ?thesis by blast
qed

text \<open>
  C34. Placement is a function of the set of members: two lists of the same members, with distinct ids and in any
  order, agree on the owners and the read order of every key.
\<close>

theorem placement_order_independent:
  assumes "length ms \<le> 2 ^ 32" and "mset ms = mset ms'" and "distinct (map mb_id ms)"
  shows "fst (owner_ids key (table_new (set_new blake3 ms) r)) = fst (owner_ids key (table_new (set_new blake3 ms') r)) \<and>
    fst (rank_ids key (table_new (set_new blake3 ms) r)) = fst (rank_ids key (table_new (set_new blake3 ms') r))"
  by (rule order_independent [OF assms])

theorem placement_order_independent_witness:
  "fst (owner_ids (replicate 32 9) (table_new (set_new sample_hash sample_members) 2)) =
   fst (owner_ids (replicate 32 9) (table_new (set_new sample_hash (rev sample_members)) 2))"
proof (rule placement_order_independent [THEN conjunct1])
  show "length sample_members \<le> 2 ^ 32" "mset sample_members = mset (rev sample_members)"
    by (simp_all add: sample_members_def)
  show "distinct (map mb_id sample_members)" by code_simp
qed

text \<open>
  C13. The cached tables: in every state that lookups can lead to, a lookup returns what the uncached
  computation returns and leads to such a state again.
\<close>

theorem tables_transparent:
  assumes "table_reach st r t"
  shows "fst (table_owners sl t) = owners st sl r \<and> fst (table_rank sl t) = rank st sl \<and>
    table_reach st r (snd (table_owners sl t)) \<and> table_reach st r (snd (table_rank sl t))"
  using owners_cache.answers [OF assms] owners_cache.reach_look [OF assms] rank_cache.answers [OF assms]
    rank_cache.reach_look [OF assms] by blast

theorem tables_transparent_witness:
  "fst (table_owners 3 (snd (table_rank 4 (snd (table_owners 3 (table_new (set_new sample_hash sample_members) 2)))))) =
     owners (set_new sample_hash sample_members) 3 2"
  by (rule tables_transparent [THEN conjunct1]) (blast intro: table_reach.intros)

text \<open>
  C14. The fixed-point logarithm: \<^verbatim>\<open>log2fix\<close> never exceeds \<open>2\<^sup>3\<^sup>2 \<cdot> log 2 x\<close> and is less than \<open>1 + 2\<^sup>-\<^sup>3\<^sup>0\<close> below it.
\<close>

theorem log2fix_bounds:
  assumes "log2fix x = Some v"
  shows "real (unat v) \<le> 2 ^ 32 * log 2 (real (unat x)) \<and>
    2 ^ 32 * log 2 (real (unat x)) < real (unat v) + 1 + 1 / 2 ^ 30"
  by (rule log2fix_near [OF assms])

theorem log2fix_bounds_witness:
  "2 ^ 32 * log 2 (real (unat (1 :: u64))) < real (unat (0 :: u64)) + 1 + 1 / 2 ^ 30"
proof (rule log2fix_bounds [THEN conjunct2])
  show "log2fix 1 = Some 0" by code_simp
qed

text \<open>
  The documentation of \<^verbatim>\<open>log2fix\<close> gives its value as the floor of \<open>2\<^sup>3\<^sup>2 \<cdot> log 2 x\<close>. That value is missed:
  the squarings drop low bits, and for this argument the result is one less.
\<close>

theorem log2fix_below_floor:
  "log2fix 0x8b95c1e3ea8bd6e7 = Some 0x3f1fffffff \<and>
   \<lfloor>2 ^ 32 * log 2 (real (unat (0x8b95c1e3ea8bd6e7 :: u64)))\<rfloor> = 0x3f20000000"
  by (rule log2fix_not_floor)

section \<open>The cluster view\<close>

text \<open>
  C15. \<^verbatim>\<open>View::decode\<close> returns the view that \<^verbatim>\<open>View::encode\<close> encoded.
\<close>

theorem view_roundtrip:
  assumes "append_head_ok ah" and "struct_typed view_schema (view_vals v)"
  shows "view_decode (view_encode ah v) = Ok v"
  by (rule view_decode_encode [OF assms])

definition sample_node :: "byte \<Rightarrow> u32 \<Rightarrow> node" where
  "sample_node b w = \<lparr>nd_id = Some (replicate 32 b), nd_weight = w, nd_addrs = [], nd_data = [], nd_token = [],
     nd_zone = [], nd_incarnation = 0, nd_writable = True\<rparr>"

definition sample_view :: view where
  "sample_view = (view_of_vals (map (\<lambda>f. case f of Fld _ t _ _ \<Rightarrow> default_val t)
     (case view_schema of Schema _ fs \<Rightarrow> fs))) \<lparr>v_incarnation := 3, v_epoch := 8, v_replicas := 2,
       v_nodes := Some [sample_node 1 5, sample_node 2 5, sample_node 3 0],
       v_voters := Some [\<lparr>vo_id = Some (replicate 32 1), vo_since = 1\<rparr>, \<lparr>vo_id = Some (replicate 32 2), vo_since = 1\<rparr>,
         \<lparr>vo_id = Some (replicate 32 3), vo_since = 2\<rparr>]\<rparr>"

lemmas view_msg = view_schema_def view_vals_def view_of_vals_def voter_schema_def voter_vals_def node_schema_def node_vals_def
  former_schema_def ramp_schema_def acl_schema_def pending_schema_def data_endpoint_schema_def

lemma sample_view_typed: "struct_typed view_schema (view_vals sample_view)"
  by (simp add: view_msg sample_view_def sample_node_def)

theorem view_roundtrip_witness: "view_decode (view_encode append_cbor_head sample_view) = Ok sample_view"
  by (rule view_roundtrip [OF append_cbor_head_ok sample_view_typed])

text \<open>
  C16. Any two sets of voters of quorum size have a voter in common, and a quorum exists when there are voters.
\<close>

theorem quorums_intersect:
  assumes "A \<subseteq> {..<length (voter_list v)}" "B \<subseteq> {..<length (voter_list v)}"
    and "quorum v \<le> card A" "quorum v \<le> card B"
  shows "A \<inter> B \<noteq> {} \<and> quorum v \<le> length (voter_list v)"
proof
  show "A \<inter> B \<noteq> {}" by (rule quorum_meets [OF assms])
  have "card A \<le> length (voter_list v)" using card_mono [OF _ assms(1)] by simp
  then show "quorum v \<le> length (voter_list v)" using assms(3) by linarith
qed

theorem quorums_intersect_witness: "{0, 1 :: nat} \<inter> {1, 2} \<noteq> {} \<and> quorum sample_view \<le> length (voter_list sample_view)"
  by (rule quorums_intersect) (auto simp: quorum_def voter_list_def sample_view_def)

text \<open>
  C17. What the change check protects: when \<^verbatim>\<open>validate_change\<close> accepts a target unforced, every slot that has
  all its \<open>R\<close> owners among the current nodes keeps one of them, with weight, in the target.
\<close>

theorem accepted_change_keeps_owner:
  assumes "validate_change current target replicas False = Ok ()" and "0 < replicas" and "length current \<le> 2 ^ 32"
    and "owners (set_new blake3 (placement_members current)) sl (nat replicas) = Some own" and "length own = nat replicas"
  shows "\<exists>i \<in> set own. \<exists>t \<in> set target. nid t = nid (current ! unat i) \<and> nd_weight t > 0"
  by (rule owners_survive [OF assms])

lemma one_owner:
  "owners (set_new sample_hash (placement_members [sample_node 1 5])) 0 1 = Some [0]"
proof -
  let ?ms = "placement_members [sample_node 1 5]"
  obtain own where own: "owners (set_new sample_hash ?ms) 0 1 = Some own"
    using rank_total [of sample_hash ?ms 0] by (auto simp: owners_def)
  have l: "length ?ms \<le> 2 ^ 32" by simp
  note o = owners_ok [OF l own]
  have m: "?ms = [\<lparr>mb_id = nid (sample_node 1 5), mb_weight = 5, mb_zone = zone_or_id (sample_node 1 5)\<rparr>]"
    by (simp add: placement_members_def sample_node_def)
  have "own \<noteq> []" using o(4) m by (cases own) auto
  moreover have z: "i = 0" if "i \<in> set own" for i using o(2) that m by (auto simp: unat_eq_zero)
  ultimately have "own = [0]" using o(1) by (cases own) auto
  then show ?thesis using own by simp
qed

theorem accepted_change_keeps_owner_witness:
  "\<exists>i \<in> set [0 :: u32]. \<exists>t \<in> set [sample_node 1 2, sample_node 4 1]. nid t = nid ([sample_node 1 5] ! unat i) \<and> nd_weight t > 0"
proof (rule accepted_change_keeps_owner)
  show "validate_change [sample_node 1 5] [sample_node 1 2, sample_node 4 1] 1 False = Ok ()" by code_simp
  show "owners (set_new sample_hash (placement_members [sample_node 1 5])) 0 (nat 1) = Some [0]" using one_owner by simp
qed simp_all

text \<open>
  C18. The queries of a placement agree with each other in every state of the caches: the write set starts
  with the owners, goes on with the pending owners that are not among them, and \<^verbatim>\<open>in_write_set\<close> is membership
  in it. None of them panics.
\<close>

theorem placement_queries_agree:
  assumes "placement_reach blake3 v p"
  shows "\<exists>out own pend. fst (write_set key p) = Some out \<and> fst (placement_owners key p) = Some own \<and>
    fst (pending_owners key p) = Some pend \<and>
    out = own @ filter (\<lambda>i. i \<notin> set own) (case pend of None \<Rightarrow> [] | Some ids \<Rightarrow> ids) \<and>
    (\<forall>ident. fst (in_write_set key ident p) = Some (ident \<in> set out))"
proof -
  note ok = placement_reach_ok [OF assms]
  have "\<forall>ident. fst (in_write_set key ident p) = Some (ident \<in> set (write_spec blake3 v key))"
    using in_write_set_ok [OF ok] by (metis fst_conv)
  moreover have "\<exists>own pend. fst (placement_owners key p) = Some own \<and> fst (pending_owners key p) = Some pend \<and>
      write_spec blake3 v key = own @ filter (\<lambda>i. i \<notin> set own) (case pend of None \<Rightarrow> [] | Some ids \<Rightarrow> ids)"
    using placement_owners_ok [OF ok, of key] pending_owners_ok [OF ok, of key] by (auto simp: write_spec_def Let_def)
  ultimately show ?thesis using write_set_ok [OF ok, of key] by (metis fst_conv)
qed

theorem placement_queries_agree_witness:
  "\<exists>out. fst (write_set (replicate 32 9) (placement_new sample_hash sample_view)) = Some out \<and>
    (\<forall>ident. fst (in_write_set (replicate 32 9) ident (placement_new sample_hash sample_view)) = Some (ident \<in> set out))"
proof -
  have "placement_reach sample_hash sample_view (placement_new sample_hash sample_view)" by (rule placement_reach.new)
  from placement_queries_agree [OF this, of "replicate 32 9"] show ?thesis by blast
qed

text \<open>
  The read order of a key names exactly the members of the view, and contains its write set; owners have
  weight and there are at most \<^verbatim>\<open>replicas\<close> of them.
\<close>

theorem read_order_covers:
  assumes "placement_reach blake3 v p" and "length (view_nodes v) \<le> 2 ^ 32" and "length (pending_nodes v) \<le> 2 ^ 32"
  shows "\<exists>ids out own. fst (read_order key p) = Some ids \<and> set ids = set (all_members v) \<and>
    fst (write_set key p) = Some out \<and> set out \<subseteq> set ids \<and>
    fst (placement_owners key p) = Some own \<and> length own \<le> unat (v_replicas v) \<and>
    set own \<subseteq> nid ` {n \<in> set (view_nodes v). nd_weight n > 0}"
proof -
  note ok = placement_reach_ok [OF assms(1)]
  show ?thesis
  proof (intro exI conjI)
    show "fst (read_order key p) = Some (read_spec blake3 v key)" using read_order_ok [OF ok, of key] by auto
    show "fst (write_set key p) = Some (write_spec blake3 v key)" using write_set_ok [OF ok, of key] by auto
    show "fst (placement_owners key p) = Some (own_spec blake3 (view_nodes v) (v_replicas v) key)"
      using placement_owners_ok [OF ok, of key] by auto
  qed (use read_spec_members [OF assms(2,3)] write_spec_subset_read [OF assms(2,3)] own_spec_weighted [OF assms(2)] in auto)
qed

theorem read_order_covers_witness:
  "\<exists>ids. fst (read_order (replicate 32 9) (placement_new sample_hash sample_view)) = Some ids \<and>
    set ids = set (all_members sample_view)"
proof -
  have "length (view_nodes sample_view) \<le> 2 ^ 32" "length (pending_nodes sample_view) \<le> 2 ^ 32"
    by (simp_all add: view_nodes_def pending_nodes_def sample_view_def view_msg)
  from read_order_covers [OF placement_reach.new this, of "replicate 32 9" sample_hash] show ?thesis by blast
qed

text \<open>
  \<^verbatim>\<open>default_min_replicas\<close> is one less than the replica count but at least two, capped at the count.
\<close>

theorem default_min_replicas_bounds:
  "unat (default_min_replicas r) = min (unat r) (max (unat r - 1) 2)"
  by (rule default_min_replicas_value)

text \<open>
  \<^verbatim>\<open>parse_node_id\<close> reads back the hexadecimal text of a node id.
\<close>

theorem node_id_roundtrip:
  assumes "length ident = 32"
  shows "parse_node_id (id_string ident) = Ok ident"
  using parse_node_id_hex [OF assms] by (simp add: id_string_def)

theorem node_id_roundtrip_witness: "parse_node_id (id_string (replicate 32 0xa7)) = Ok (replicate 32 0xa7)"
  by (rule node_id_roundtrip) simp

section \<open>Text encodings and tickets\<close>

text \<open>
  Base32 without padding and hexadecimal: decoding what was encoded returns the bytes, with both alphabets
  and at every length.
\<close>

theorem text_encodings_roundtrip:
  "decode_nopad STD_ALPHABET (encode_nopad STD_ALPHABET b) = Ok b \<and>
   decode_nopad ZBASE32_ALPHABET (encode_nopad ZBASE32_ALPHABET b) = Ok b \<and> decode_string (hex_encode b) = Ok b"
  using base32_decode_encode [OF good_alphabets(1)] base32_decode_encode [OF good_alphabets(2)] hex_decode_encode by blast

text \<open>
  The runes of a byte string cut it into consecutive pieces that lose nothing, valid UTF-8 or not.
\<close>

theorem runes_lose_nothing: "concat (map (\<lambda>(i, r, w). take w (drop i s)) (runes s)) = s"
  using runes_from_cover [of 0 s] by (simp add: runes_def)

text \<open>
  C19. A ticket with members survives its text: \<^verbatim>\<open>parse\<close> of \<^verbatim>\<open>encode\<close> is the ticket, whatever the Unicode
  tables and the curve check.
\<close>

theorem ticket_roundtrip:
  assumes "append_head_ok ah" and "struct_typed ticket_schema (ticket_vals t)" and "ticket_members t \<noteq> []"
  shows "parse_ticket tb valid_key (ticket_encode ah t) = Ok t"
  by (rule parse_encode [OF assms])

definition sample_ticket :: ticket where
  "sample_ticket = \<lparr>tk_cluster_id = Some [1, 2], tk_incarnation = 7,
     tk_members = Some [\<lparr>tm_id = Some (replicate 32 5), tm_addrs = [[0x61]]\<rparr>, \<lparr>tm_id = None, tm_addrs = []\<rparr>]\<rparr>"

lemma sample_ticket_typed: "struct_typed ticket_schema (ticket_vals sample_ticket)" "ticket_members sample_ticket \<noteq> []"
  by (simp_all add: sample_ticket_def ticket_schema_def ticket_vals_def ticket_member_schema_def ticket_member_vals_def
      ticket_members_def)

theorem ticket_roundtrip_witness:
  "parse_ticket \<lparr>TO_LOWER = [], TO_UPPER = []\<rparr> (\<lambda>_. False) (ticket_encode append_cbor_head sample_ticket) = Ok sample_ticket"
  by (rule ticket_roundtrip [OF append_cbor_head_ok sample_ticket_typed])

text \<open>
  The list of node ids that a ticket prints parses to a ticket with those ids: the 32-byte ids of the
  members, each once and in order.
\<close>

theorem ticket_ids_parse:
  assumes "valid_ids t \<noteq> []" and "\<forall>k \<in> set (valid_ids t). valid_key k"
  shows "parse_ticket tb valid_key (ticket_ids t) =
    Ok \<lparr>tk_cluster_id = None, tk_incarnation = 0,
        tk_members = Some (map (\<lambda>k. \<lparr>tm_id = Some k, tm_addrs = []\<rparr>) (valid_ids t))\<rparr>"
  by (rule parse_ids_text [OF assms])

theorem ticket_ids_parse_witness:
  "parse_ticket \<lparr>TO_LOWER = [], TO_UPPER = []\<rparr> (\<lambda>_. True) (ticket_ids sample_ticket) =
    Ok \<lparr>tk_cluster_id = None, tk_incarnation = 0, tk_members = Some [\<lparr>tm_id = Some (replicate 32 5), tm_addrs = []\<rparr>]\<rparr>"
proof -
  have v: "valid_ids sample_ticket = [replicate 32 5]"
    by (simp add: valid_ids_def sample_ticket_def ticket_members_def PUBLIC_KEY_SIZE_def)
  show ?thesis using ticket_ids_parse [of sample_ticket "\<lambda>_. True" "\<lparr>TO_LOWER = [], TO_UPPER = []\<rparr>"] by (simp add: v)
qed

text \<open>
  \<^verbatim>\<open>parse\<close> never accepts a ticket without members, and an input of spaces is the error for an empty ticket.
\<close>

theorem parsed_ticket_has_members:
  "(case parse_ticket tb valid_key s of Ok t \<Rightarrow> ticket_members t \<noteq> [] | _ \<Rightarrow> True) \<and>
   parse_ticket tb valid_key (replicate n 0x20) = Err TicketEmpty"
proof
  show "case parse_ticket tb valid_key s of Ok t \<Rightarrow> ticket_members t \<noteq> [] | _ \<Rightarrow> True"
    using parse_has_members [of tb valid_key s] by (auto split: outcome.splits)
  have "is_ascii (replicate n 0x20)" "dropWhile is_ascii_space (replicate n 0x20) = []"
    by (auto simp: is_ascii_def list_all_iff is_ascii_space_def)
  then show "parse_ticket tb valid_key (replicate n 0x20) = Err TicketEmpty"
    by (simp add: parse_ticket_def trim_space_ascii)
qed

section \<open>Working copies\<close>

text \<open>
  C20. The diff of two trees is complete and exact: it ends, names every path at most once, and holds for a path
  exactly the change that the entries of the two trees there call for (added, deleted, or the difference
  \<^verbatim>\<open>compare\<close> sees), with those entries.
\<close>

theorem diff_trees_exact:
  assumes "tree_ok n fs a" and "tree_ok n fs b"
  shows "\<exists>cs. diff_trees (Suc n) fs a b = Ok cs \<and> correct_diff (listing n fs [] a) (listing n fs [] b) cs"
  by (rule diff_trees_ok [OF assms])

definition sample_file :: "bytes \<Rightarrow> bytes \<Rightarrow> entry" where
  "sample_file name key = \<lparr>en_name = name, en_mode = S_IFREG OR 0x1a4, en_uid = 0, en_gid = 0, en_mtime = 0,
     en_content_key = key, en_link_target = [], en_rdev = [], en_xattrs_in = [], en_xattrs_key = []\<rparr>"

definition sample_dir :: "bytes \<Rightarrow> bytes \<Rightarrow> entry" where
  "sample_dir name key = (sample_file name key)\<lparr>en_mode := S_IFDIR OR 0x1ed\<rparr>"

definition sample_fs :: "(unit, unit) fstree" where
  "sample_fs = \<lparr>collect_entries = (\<lambda>k.
       if k = [1] then Ok [sample_dir [0x64] [3], sample_file [0x66] [9]]
       else if k = [2] then Ok [sample_dir [0x64] [4], sample_file [0x67] [9]]
       else if k = [3] then Ok [sample_file [0x61] [7]]
       else if k = [4] then Ok [sample_file [0x61] [8]]
       else Err ()), key_parse = Ok\<rparr>"

theorem diff_trees_exact_witness:
  "\<exists>cs. diff_trees 3 sample_fs [1] [2] = Ok cs \<and>
     correct_diff (listing 2 sample_fs [] [1]) (listing 2 sample_fs [] [2]) cs \<and>
     map ch_path cs = [[0x64, 0x2f, 0x61], [0x66], [0x67]]"
proof -
  have t: "tree_ok 2 sample_fs [1]" "tree_ok 2 sample_fs [2]" by code_simp+
  have d: "map_outcome id (map ch_path) (diff_trees 3 sample_fs [1] [2]) = Ok [[0x64, 0x2f, 0x61], [0x66], [0x67]]" by code_simp
  from diff_trees_exact [OF t] obtain cs where "diff_trees 3 sample_fs [1] [2] = Ok cs"
    "correct_diff (listing 2 sample_fs [] [1]) (listing 2 sample_fs [] [2]) cs" by (auto simp: eval_nat_numeral)
  then show ?thesis using d by auto
qed

text \<open>
  C21. \<^verbatim>\<open>merge\<close> partitions the incoming changes: it applies exactly those that no local change stands against, drops
  the deletions of what is gone already, and reports every other one as a conflict with a local change, in order.
\<close>

theorem merge_exact:
  "\<exists>cfs. merge_changes lcl incoming = (filter (safe lcl) incoming, cfs) \<and>
    map cf_incoming cfs = filter (\<lambda>c. \<not> safe lcl c \<and> \<not> moot lcl c) incoming \<and>
    list_all (\<lambda>f. cf_path f = ch_path (cf_incoming f) \<and> cf_local f \<in> set lcl) cfs"
  using merge_partition [of lcl incoming] by (simp add: list_all_iff)

section \<open>Connections\<close>

text \<open>
  C22. Whatever tasks, peers and dials do, and in whatever order, the pool never lists more than \<^verbatim>\<open>per_peer\<close> connections
  to a peer, a task dials only while there is room for its connection, and at most one task dials a peer at a time.
\<close>

theorem pool_bounded:
  assumes "pool_reach n (st, ts)"
  shows "length (conns_of st k) \<le> max n 1 \<and> (ts t = Some (Dialing k) \<longrightarrow> length (conns_of st k) < max n 1) \<and>
    (ts t = Some (Dialing k) \<longrightarrow> ts t' = Some (Dialing k) \<longrightarrow> t = t')"
  using pool_invD(1) [OF pool_reach_inv [OF assms], of k] pool_invD(2) [OF pool_reach_inv [OF assms], of t k]
    pool_invD(3) [OF pool_reach_inv [OF assms], of t k t'] by (auto simp: pool_per_peer_def)

definition sample_peer :: peer_key where "sample_peer = (replicate 32 1, [])"

lemma sample_pool_reach:
  "pool_reach 0 (snd (dial_done 7 sample_peer (Ok (5 :: nat)) (snd (get_begin 1 0 sample_peer pool_default))), (\<lambda>_. None))"
proof -
  define p1 :: "nat pool_state" where "p1 = snd (get_begin 1 0 sample_peer pool_default)"
  have g: "get_begin 1 0 sample_peer (pool_default :: nat pool_state) = (MustDial, p1)"
    by (simp add: p1_def get_begin_def pool_default_def conns_of_def Let_def)
  have "pool_reach 0 (p1, [0 \<mapsto> Waiting sample_peer])"
    using pool_reach.step [OF pool_reach.start, of 0 "(p1, [0 \<mapsto> Waiting sample_peer])"] g
    by (auto simp: pool_per_peer_def intro: pool_step.get_waits)
  then have "pool_reach 0 (p1, [0 \<mapsto> Dialing sample_peer])"
    by (rule pool_reach.step) (use pool_step.lock_dials [of "[0 \<mapsto> Waiting sample_peer]" 0 sample_peer 1 p1] in
      \<open>auto simp: pool_per_peer_def dial_locked_def get_check_def p1_def get_begin_def pool_default_def conns_of_def Let_def split: if_splits\<close>)
  moreover have "pool_step 1 (p1, [0 \<mapsto> Dialing sample_peer])
      (snd (dial_done 7 sample_peer (Ok 5) p1), [0 \<mapsto> Dialing sample_peer](0 := None))"
    by (rule pool_step.dialed [OF _ surjective_pairing]) simp
  moreover have "[0 \<mapsto> Dialing sample_peer](0 := None) = (\<lambda>_. None)" by auto
  ultimately show ?thesis unfolding p1_def [symmetric] by (auto simp: pool_per_peer_def intro: pool_reach.step)
qed

theorem pool_bounded_witness:
  "length (conns_of (snd (dial_done 7 sample_peer (Ok (5 :: nat)) (snd (get_begin 1 0 sample_peer pool_default)))) sample_peer) \<le> 1"
  using pool_bounded [OF sample_pool_reach, of sample_peer] by simp

text \<open>
  A peer whose connections are all open and as many as allowed is served in turn: as many consecutive \<^verbatim>\<open>get\<close>s as
  there are connections return each of them once, a rotation of the list.
\<close>

theorem pool_round_robin:
  assumes "0 < n" and "n \<le> length (conns_of st k)" and "set (conns_of st k) \<inter> po_closed st = {}"
    and "unat (case po_next st k of Some x \<Rightarrow> x | None \<Rightarrow> 0) + length (conns_of st k) < 2 ^ 64"
  shows "fst (get_times n now k (length (conns_of st k)) st) =
    map GotConn (rotate (unat (case po_next st k of Some x \<Rightarrow> x | None \<Rightarrow> 0)) (conns_of st k))"
proof -
  have "\<forall>c \<in> set (conns_of st k). c \<notin> po_closed st" using assms(3) by auto
  moreover have "rotate x cs = map (\<lambda>j. cs ! ((x + j) mod length cs)) [0..<length cs]" for x and cs :: "'a list"
    by (rule nth_equalityI) (simp_all add: nth_rotate)
  ultimately show ?thesis using get_times_full [OF assms(1,2) _ assms(4)] by (simp only: map_map comp_def)
qed

definition sample_pool :: "nat pool_state" where
  "sample_pool = pool_default\<lparr>po_conns := [sample_peer \<mapsto> [10, 11, 12]], po_next := [sample_peer \<mapsto> 4]\<rparr>"

theorem pool_round_robin_witness:
  "fst (get_times 2 0 sample_peer 3 sample_pool) = [GotConn 11, GotConn 12, GotConn 10]"
proof -
  have p: "conns_of sample_pool sample_peer = [10, 11, 12]" "po_next sample_pool sample_peer = Some 4" "po_closed sample_pool = {}"
    by (simp_all add: sample_pool_def conns_of_def pool_default_def)
  have r: "rotate 4 [10, 11, 12 :: nat] = [11, 12, 10]" by (simp add: rotate_def eval_nat_numeral)
  have l: "length [10, 11, 12 :: nat] = 3" "unat (4 :: u64) = 4" by simp_all
  have "fst (get_times 2 0 sample_peer 3 sample_pool) = map GotConn (rotate 4 [10, 11, 12])"
    by (rule pool_round_robin [of 2 sample_pool sample_peer 0, unfolded p option.case l]) simp_all
  then show ?thesis by (simp add: r)
qed

section \<open>What a client knows\<close>

text \<open>
  C23. In every state that a dialed client can reach, under any interleaving of its requests with other tasks, there
  is a view, the placement in use is the placement of that view, and the nodes in backoff are exactly those that
  failed since they last answered.
\<close>

theorem client_state_invariant:
  assumes "client_reach b net w"
  shows "\<exists>v. vs_view (wd_state w) = Some v \<and> vs_placement (wd_state w) = Some (placement_new b v) \<and>
    dom (vs_backoff (wd_state w)) = dom (vs_failures (wd_state w))"
  using client_reach_ok [OF assms] by (auto simp: state_ok_def)

definition sample_net :: network where
  "sample_net = (\<lambda>_. \<lparr>ne_others = [], ne_now = 0, ne_result = Inr (msg_default\<lparr>m_typ := T_VIEW_REPLY,
     m_view := view_encode append_cbor_head sample_view\<rparr>)\<rparr>)"

definition sample_config :: config where
  "sample_config = \<lparr>cfg_endpoint = True, cfg_ticket = sample_ticket, cfg_conns = 0, cfg_jobs = 3, cfg_gc_interval = 0,
     cfg_request_timeout = 0, cfg_batch_bytes = 0, cfg_watch_idle = 0\<rparr>"

lemma sample_dial: "\<exists>w. dial sample_hash sample_net sample_config = (Ok (with_defaults sample_config) :: (unit client_error, config) outcome, w)"
proof -
  have d: "view_decode (view_encode append_cbor_head sample_view) = Ok sample_view"
    by (rule view_decode_encode [OF append_cbor_head_ok sample_view_typed])
  show ?thesis
    by (simp add: dial_def with_defaults_def sample_config_def sample_ticket_def ticket_members_def member_id_def sample_net_def
        adopt_reply_def d Let_def)
qed

theorem client_state_invariant_witness:
  "\<exists>w v. client_reach sample_hash sample_net w \<and> vs_view (wd_state w) = Some v \<and>
    vs_placement (wd_state w) = Some (placement_new sample_hash v)"
proof -
  obtain w where w: "client_reach sample_hash sample_net w" using sample_dial client_reach.dialed by blast
  from client_state_invariant [OF w] w show ?thesis by blast
qed

text \<open>
  C24. Views may arrive in any order and from any task: after any sequence of changes the client holds the first of the newest
  views it was given, by incarnation, epoch and version. Every view given before that one is older, none given after it is newer,
  and one with the same triple does not replace it. So the client never goes back.
\<close>

theorem client_view_newest:
  assumes "first_newest vs (vs_view st)"
  shows "first_newest (vs @ adopted cs) (vs_view (apply_ops b cs st)) \<and> view_le (vs_view st) (vs_view (apply_ops b cs st))"
  using first_newest_ops [OF assms] views.ops by blast

text \<open>Of two views with one triple, here told apart by their replicas, the client keeps the first.\<close>

theorem client_view_newest_witness:
  "first_newest [sample_view, sample_view\<lparr>v_epoch := 9\<rparr>, sample_view\<lparr>v_epoch := 9, v_replicas := 3\<rparr>, sample_view]
     (vs_view (apply_ops sample_hash [OpAdopt sample_view, OpAdopt (sample_view\<lparr>v_epoch := 9\<rparr>), OpOk [],
       OpAdopt (sample_view\<lparr>v_epoch := 9, v_replicas := 3\<rparr>), OpAdopt sample_view] view_state_default))"
proof -
  have "first_newest [] (vs_view view_state_default)" by (simp add: first_newest_def view_state_default_def)
  from client_view_newest [OF this, of "[OpAdopt sample_view, OpAdopt (sample_view\<lparr>v_epoch := 9\<rparr>), OpOk [],
      OpAdopt (sample_view\<lparr>v_epoch := 9, v_replicas := 3\<rparr>), OpAdopt sample_view]" sample_hash]
  show ?thesis by (simp add: adopted_def)
qed

text \<open>
  \<^verbatim>\<open>rank_owners\<close> is the stable sort of the ids by penalty, relayed or direct path, and class of round-trip time.
\<close>

theorem rank_owners_sorts:
  "rank_owners ids pen path = sort_key (\<lambda>ident. (pen ident, path_class (path ident))) ids"
  using rank_owners_stable [of ids pen path] by (simp add: rank_key_def [abs_def])

section \<open>Requests\<close>

text \<open>
  C25. \<^verbatim>\<open>any_node\<close> asks the nodes in order of preference, each at most five times and again only while it calls the view
  stale; every request is the caller's, stamped. It moves on only after a failure that no node answered, returns the
  reply to its last request, and gives up without an answer only after all nodes.
\<close>

theorem any_node_asks_all:
  fixes res :: "'x reply"
  assumes "any_node b net en m w = (res, m1, w1)"
  shows "\<exists>cs. asked net m (preferred en (wd_state w) (all_nodes (wd_state w))) (wd_sent w) cs \<and>
    wd_sent w1 = wd_sent w @ concat cs \<and> length (concat cs) \<le> 5 * length (all_nodes (wd_state w)) \<and>
    answer_ok net (preferred en (wd_state w) (all_nodes (wd_state w))) cs (wd_sent w1) NoNodes res"
proof -
  let ?ids = "preferred en (wd_state w) (all_nodes (wd_state w))"
  from any_node_sends [OF assms] obtain cs where c: "asked net m ?ids (wd_sent w) cs"
    "wd_sent w1 = wd_sent w @ concat cs" "answer_ok net ?ids cs (wd_sent w1) NoNodes res" by blast
  have "length cs \<le> length (all_nodes (wd_state w))" "length (concat cs) \<le> 5 * length cs"
    using asked_length [OF c(1)] by (simp_all add: ANY_NODE_STALE_RETRIES_def)
  then have "length (concat cs) \<le> 5 * length (all_nodes (wd_state w))" by linarith
  with c show ?thesis by blast
qed

definition sample_world :: world where
  "sample_world = \<lparr>wd_state = view_state_default\<lparr>vs_boot_order := [replicate 32 1, replicate 32 2]\<rparr>, wd_sent = [], wd_refreshes = 0\<rparr>"

definition deaf_net :: network where
  "deaf_net = (\<lambda>_. \<lparr>ne_others = [], ne_now = 0, ne_result = Inl (CallTransport TClosed)\<rparr>)"

definition sample_env :: env where
  "sample_env = \<lparr>env_now = 0, env_path = (\<lambda>_. None)\<rparr>"

theorem any_node_asks_all_witness:
  "\<exists>cs. \<exists>w1 :: world. asked deaf_net msg_default (preferred sample_env (wd_state sample_world) (all_nodes (wd_state sample_world))) [] cs \<and>
    wd_sent w1 = concat cs \<and> length (concat cs) \<le> 10 \<and>
    answer_ok deaf_net (preferred sample_env (wd_state sample_world) (all_nodes (wd_state sample_world))) cs (wd_sent w1) NoNodes
      (Err (Transport TClosed) :: unit reply)"
proof -
  obtain res m1 w1 where r: "(any_node sample_hash deaf_net sample_env msg_default sample_world :: unit reply \<times> msg \<times> world) = (res, m1, w1)"
    by (metis prod_cases3)
  have "res = Err (Transport TClosed)"
    using r by (simp add: any_node_def sample_world_def sample_env_def all_nodes_def cluster_nodes_def view_state_default_def preferred_def
        rank_owners_stable rank_key_def penalty_def path_class_def numeral_eq_Suc ANY_NODE_STALE_RETRIES_def cluster_call_def
        deaf_net_def Let_def is_stale_def has_code_def)
  moreover from any_node_asks_all [OF r] obtain cs where
    "asked deaf_net msg_default (preferred sample_env (wd_state sample_world) (all_nodes (wd_state sample_world))) (wd_sent sample_world) cs"
    "wd_sent w1 = wd_sent sample_world @ concat cs" "length (concat cs) \<le> 5 * length (all_nodes (wd_state sample_world))"
    "answer_ok deaf_net (preferred sample_env (wd_state sample_world) (all_nodes (wd_state sample_world))) cs (wd_sent w1) NoNodes res"
    by blast
  moreover have "wd_sent sample_world = []" "length (all_nodes (wd_state sample_world)) = 2"
    by (simp_all add: sample_world_def all_nodes_def cluster_nodes_def view_state_default_def Let_def)
  ultimately show ?thesis by (intro exI [of _ cs] exI [of _ w1]) simp
qed

text \<open>
  C26. A reference write that reports success was acknowledged: the last request was the write with this record and
  this condition, and a node answered it with success and the version returned; a reported mismatch is what a node
  answered to that request.
\<close>

theorem ref_put_acknowledged:
  fixes res :: "('x client_error, bytes) outcome"
  assumes "ref_put b net en rec c w = (res, w1)"
  shows "case res of
      Ok v \<Rightarrow> acknowledged net (wd_sent w1) (cond_apply c (msg_default\<lparr>m_typ := T_REF_PUT, m_record := rec\<rparr>))
        (\<lambda>resp. m_typ resp = T_OK \<and> m_version resp = v)
    | Err (CasMismatch cm) \<Rightarrow> acknowledged net (wd_sent w1) (cond_apply c (msg_default\<lparr>m_typ := T_REF_PUT, m_record := rec\<rparr>))
        (\<lambda>resp. m_typ resp = T_CAS_MISMATCH \<and> cas_from_reply resp = cm)
    | _ \<Rightarrow> True"
  using ref_put_ok [where 'x = 'x] ref_put_mismatch [where 'x = 'x] assms by (auto split: outcome.splits client_error.splits)

definition store_net :: network where
  "store_net = (\<lambda>_. \<lparr>ne_others = [], ne_now = 0, ne_result = Inr (msg_default\<lparr>m_typ := T_OK, m_version := [7]\<rparr>)\<rparr>)"

theorem ref_put_acknowledged_witness:
  "\<exists>w1. ref_put sample_hash store_net sample_env [1, 2] \<lparr>cd_expected_version = [6], cd_versioned = True, cd_expected_old = [],
      cd_keyed = False, cd_force = False\<rparr> sample_world = (Ok [7] :: (unit client_error, bytes) outcome, w1) \<and>
    acknowledged store_net (wd_sent w1) (cond_apply \<lparr>cd_expected_version = [6], cd_versioned = True, cd_expected_old = [],
      cd_keyed = False, cd_force = False\<rparr> (msg_default\<lparr>m_typ := T_REF_PUT, m_record := [1, 2]\<rparr>))
      (\<lambda>resp. m_typ resp = T_OK \<and> m_version resp = [7])"
proof -
  let ?c = "\<lparr>cd_expected_version = [6], cd_versioned = True, cd_expected_old = [], cd_keyed = False, cd_force = False\<rparr>"
  obtain res w1 where r: "(ref_put sample_hash store_net sample_env [1, 2] ?c sample_world :: (unit client_error, bytes) outcome \<times> world) = (res, w1)"
    by fastforce
  have "res = Ok [7]"
    using r by (auto simp: ref_put_def any_node_def sample_world_def sample_env_def all_nodes_def cluster_nodes_def view_state_default_def
        preferred_def rank_owners_stable rank_key_def penalty_def path_class_def numeral_eq_Suc ANY_NODE_STALE_RETRIES_def
        cluster_call_def store_net_def Let_def is_stale_def put_reply_def)
  then show ?thesis using ref_put_acknowledged [OF r] r by auto
qed

text \<open>
  C27. A listing returns: when nodes serve pages that come to an end, \<^verbatim>\<open>ref_list\<close> returns the references of all pages, in
  order, however the pages are cut.
\<close>

theorem ref_list_complete:
  assumes "serves_pages net pre serve" and "all_nodes (wd_state w) \<noteq> []" and "walk_pages n serve [] = Some refs"
  shows "\<exists>w1. ref_list b net en pre w = Some (Ok refs :: ('x client_error, ref_info list) outcome, w1)"
  using ref_list_loop_pages [where 'x = 'x, OF assms, of b en "[]"] by (simp add: ref_list_def)

definition sample_ref :: "byte \<Rightarrow> ref_info" where
  "sample_ref x = \<lparr>ri_name = [x], ri_key = None, ri_version = None, ri_created_at = 0, ri_user = []\<rparr>"

definition sample_serve :: "bytes \<Rightarrow> ref_info list \<times> bytes" where
  "sample_serve after = (if after = [] then ([sample_ref 1, sample_ref 2], [2]) else ([sample_ref 3], []))"

definition page_net :: network where
  "page_net = (\<lambda>sent. \<lparr>ne_others = [], ne_now = 0, ne_result = Inr (msg_default\<lparr>m_typ := T_REFS,
     m_refs := fst (sample_serve (m_after (snd (last sent)))), m_next := snd (sample_serve (m_after (snd (last sent))))\<rparr>)\<rparr>)"

theorem ref_list_complete_witness:
  "\<exists>w1. ref_list sample_hash page_net (\<lambda>_. sample_env) [0x61] sample_world =
    Some (Ok [sample_ref 1, sample_ref 2, sample_ref 3] :: (unit client_error, ref_info list) outcome, w1)"
proof (rule ref_list_complete)
  show "serves_pages page_net [0x61] sample_serve" by (simp add: serves_pages_def page_net_def)
  show "all_nodes (wd_state sample_world) \<noteq> []"
    by (simp add: sample_world_def all_nodes_def cluster_nodes_def view_state_default_def Let_def)
  show "walk_pages 2 sample_serve [] = Some [sample_ref 1, sample_ref 2, sample_ref 3]"
    by (simp add: numeral_eq_Suc sample_serve_def)
qed

section \<open>Objects\<close>

text \<open>
  C28. The negotiation of an upload ends, whatever the nodes answer, the network does and the views become, and it sorts
  every key into exactly one of three: lacking at a node, held, or failed. No other key appears.
\<close>

theorem missing_decides_every_key:
  assumes "permutes_tasks sc" and "distinct keys" and "state_ok b (wd_state w)"
  shows "\<exists>r w1. missing b net sc keys pin w = Some (r :: 'x missing_result, w1) \<and>
    (\<forall>k. if k \<in> set keys then decided r k else untouched_key r k \<and> mr_failed r k = None)"
proof -
  define ng :: "'x negotiation" where "ng = \<lparr>ng_res = missing_empty, ng_tried = Map.empty, ng_retry = []\<rparr>"
  have n: "\<not> lacks (ng_res ng) k" "mr_holders (ng_res ng) k = None" "mr_failed (ng_res ng) k = None" "ng_retry ng = []" for k
    by (simp_all add: ng_def missing_empty_def lacks_def)
  from missing_loop_ends [OF assms(1,2), of ng b w net pin] assms(3) n obtain ng1 w1 where
    "missing_loop b net sc pin keys (ng, w) = Some (ng_res ng1, w1)" "\<forall>k \<in> set keys. decided (ng_res ng1) k"
    "\<forall>k. k \<notin> set keys \<longrightarrow> same_at ng ng1 k" by (auto simp: untouched_key_def)
  then show ?thesis using n
    by (intro exI [of _ "ng_res ng1"] exI [of _ w1]) (auto simp: missing_def ng_def [symmetric] same_at_def untouched_key_def)
qed

definition sample_sched :: sched where
  "sample_sched = \<lparr>sc_env = (\<lambda>_. sample_env), sc_cancelled = (\<lambda>_. False), sc_order = (\<lambda>_. rev)\<rparr>"

theorem missing_decides_every_key_witness:
  "\<exists>r w1. missing sample_hash deaf_net sample_sched [replicate 32 1, replicate 32 2] True
      (sample_world\<lparr>wd_state := adopt sample_hash sample_view view_state_default\<rparr>) = Some (r :: unit missing_result, w1) \<and>
    decided r (replicate 32 1) \<and> decided r (replicate 32 2) \<and> mr_failed r [] = None"
proof -
  have "permutes_tasks sample_sched" by (simp add: permutes_tasks_def sample_sched_def)
  moreover have "distinct [replicate 32 1, replicate 32 2 :: bytes]" by (simp add: eval_nat_numeral)
  moreover have "state_ok sample_hash (wd_state (sample_world\<lparr>wd_state := adopt sample_hash sample_view view_state_default\<rparr>))"
    using apply_op_ok [of sample_hash view_state_default "OpAdopt sample_view"]
    by (simp add: state_ok_def view_state_default_def)
  ultimately obtain r w1 where r: "missing sample_hash deaf_net sample_sched [replicate 32 1, replicate 32 2] True
      (sample_world\<lparr>wd_state := adopt sample_hash sample_view view_state_default\<rparr>) = Some (r :: unit missing_result, w1)"
    and "\<forall>k. if k \<in> set [replicate 32 1, replicate 32 2] then decided r k else untouched_key r k \<and> mr_failed r k = None"
    using missing_decides_every_key [where 'x = unit, of sample_sched "[replicate 32 1, replicate 32 2]" sample_hash
      "sample_world\<lparr>wd_state := adopt sample_hash sample_view view_state_default\<rparr>" deaf_net True] by blast
  then have "decided r (replicate 32 1)" "decided r (replicate 32 2)" "mr_failed r [] = None"
    by (auto dest: spec [of _ "[]"] split: if_splits)
  then show ?thesis using r by blast
qed

text \<open>
  C29. Batches lose, repeat and reorder nothing; each has at most the allowed number of keys and, unless it is one key,
  at most the allowed bytes; and none ends while the next key would have fitted.
\<close>

theorem batches_exact:
  assumes "max_bytes < 2 ^ 64 - 1"
  shows "concat (batches sz keys max_bytes max_keys) = keys \<and>
    list_all (\<lambda>b. b \<noteq> [] \<and> length b \<le> max max_keys 1 \<and> (1 < length b \<longrightarrow> sum_list (map sz b) \<le> max_bytes))
      (batches sz keys max_bytes max_keys) \<and>
    successively (\<lambda>b c. max_bytes < sum_list (map sz b) + sz (hd c) \<or> max_keys \<le> length b) (batches sz keys max_bytes max_keys)"
  using batches_spec [where mb = max_bytes and sz = sz and ks = keys and mk = max_keys] assms
  by (simp add: USIZE_MAX_def list_all_iff batch_ok_def full_before_def [abs_def])

theorem batches_exact_witness:
  "concat (batches id [9, 2, 2, 5 :: nat] 5 2) = [9, 2, 2, 5] \<and> batches id [9, 2, 2, 5 :: nat] 5 2 = [[9], [2, 2], [5]]"
  using batches_exact [of 5 id "[9, 2, 2, 5]" 2] by (simp add: batches_def saturating_add_def USIZE_MAX_def)

text \<open>
  C30. An undisturbed upload: the wire carries the stamped request frame, then the pack of exactly the records that could
  be read, in order; the node's put result is returned, the stream is closed and the node counts as answering.
\<close>

theorem put_once_delivers:
  assumes "append_head_ok ah" and "pe_opened pe = Ok s" and "w_script (ss_send s) = []"
    and "encode_frame ah (stamp (apply_ops b (pe_others pe) st0) (msg_default\<lparr>m_typ := T_PUT\<rparr>)) = Ok fr"
    and "struct_typed msg_schema (msg_vals m)" and "encode_frame ah m = Ok f" and "m_typ m = T_PUT_RESULT"
    and "stream (ss_recv s) = (f @ rest, e)"
  shows "\<exists>s1. put_once b ah p keys pe st0 = (Ok m :: 'x reply, Some s1, ok_node p (apply_ops b (pe_others pe) st0)) \<and>
    ss_finished s1 \<and> ss_cancelled s1 \<and> w_out (ss_send s1) = w_out (ss_send s) @ fr @
      pack_frames ah (PACK_MAGIC @ concat (List.map_filter (pe_src pe) keys) @ [TAG_END])"
  by (rule put_once_wire [OF assms])

lemma typ_frame:
  "t \<in> {35, 51} \<Longrightarrow> encode_frame append_cbor_head (msg_default\<lparr>m_typ := t\<rparr>) = Ok [0, 0, 0, 4, 0xa1, 0x00, 0x18, of_int t]"
proof -
  assume t: "t \<in> {35, 51}"
  then have "marshal append_cbor_head msg_schema (msg_vals (msg_default\<lparr>m_typ := t\<rparr>)) = [0xa1, 0x00, 0x18, of_int t]"
    by (auto simp: ok_msg marshal_def enc_head_def enc_uint_def enc_int_def append_cbor_head_def cbor_head_def)
  moreover have "be_bytes 4 (4 :: u32) = [0, 0, 0, 4]" by code_simp
  ultimately show ?thesis by (simp add: encode_frame_def MAX_FRAME_def)
qed

definition sample_put :: put_env where
  "sample_put = \<lparr>pe_others = [], pe_opened = Ok \<lparr>ss_send = \<lparr>w_out = [], w_script = []\<rparr>, ss_finished = False,
     ss_recv = [RData [0, 0, 0, 4, 0xa1], RData [0x00, 0x18, 51]], ss_cancelled = False\<rparr>,
     pe_src = (\<lambda>k. if k = [1] then Some [8, 9] else None), pe_now = 0\<rparr>"

theorem put_once_delivers_witness:
  "\<exists>s1. put_once sample_hash append_cbor_head [5] [[1], [2]] sample_put view_state_default =
      (Ok (msg_default\<lparr>m_typ := 51\<rparr>) :: unit reply, Some s1, ok_node [5] view_state_default) \<and>
    w_out (ss_send s1) = [0, 0, 0, 4, 0xa1, 0x00, 0x18, 35] @ pack_frames append_cbor_head (PACK_MAGIC @ [8, 9] @ [TAG_END])"
proof -
  define s where "s = \<lparr>ss_send = \<lparr>w_out = [], w_script = []\<rparr>, ss_finished = False,
     ss_recv = [RData [0, 0, 0, 4, 0xa1], RData [0x00, 0x18, 51]], ss_cancelled = False\<rparr>"
  have o: "pe_opened sample_put = Ok s" "apply_ops sample_hash (pe_others sample_put) view_state_default = view_state_default"
    by (simp_all add: sample_put_def s_def apply_ops_def)
  have st: "stamp view_state_default m = m" for m by (simp add: stamp_def view_state_default_def)
  have "\<exists>s1. put_once sample_hash append_cbor_head [5] [[1], [2]] sample_put view_state_default =
      (Ok (msg_default\<lparr>m_typ := 51\<rparr>) :: unit reply, Some s1, ok_node [5] (apply_ops sample_hash (pe_others sample_put) view_state_default)) \<and>
    ss_finished s1 \<and> ss_cancelled s1 \<and> w_out (ss_send s1) = w_out (ss_send s) @ [0, 0, 0, 4, 0xa1, 0x00, 0x18, 35] @
      pack_frames append_cbor_head (PACK_MAGIC @ concat (List.map_filter (pe_src sample_put) [[1], [2]]) @ [TAG_END])"
  proof (rule put_once_delivers [OF append_cbor_head_ok o(1)])
    show "w_script (ss_send s) = []" by (simp add: s_def)
    show "encode_frame append_cbor_head (stamp (apply_ops sample_hash (pe_others sample_put) view_state_default)
        (msg_default\<lparr>m_typ := T_PUT\<rparr>)) = Ok [0, 0, 0, 4, 0xa1, 0x00, 0x18, 35]"
      using typ_frame [of 35] by (simp add: o st T_PUT_def)
    show "struct_typed msg_schema (msg_vals (msg_default\<lparr>m_typ := 51\<rparr>))" by (simp add: ok_msg)
    show "encode_frame append_cbor_head (msg_default\<lparr>m_typ := 51\<rparr>) = Ok [0, 0, 0, 4, 0xa1, 0x00, 0x18, 51]"
      using typ_frame [of 51] by simp
    show "m_typ (msg_default\<lparr>m_typ := 51\<rparr>) = T_PUT_RESULT" by (simp add: T_PUT_RESULT_def)
    show "stream (ss_recv s) = ([0, 0, 0, 4, 0xa1, 0x00, 0x18, 51] @ [], EndEof)" by (simp add: s_def)
  qed
  then show ?thesis by (auto simp: o s_def sample_put_def List.map_filter_simps apply_ops_def)
qed

section \<open>Diffs\<close>

text \<open>
  C31. The edits that \<^verbatim>\<open>lines\<close> computes for two texts exist (the search ends and no index is out of range, also when it
  stops at its limit and repairs what it has), are in order and do not overlap, and applied to the first text give the
  second.
\<close>

theorem lines_diff_applies:
  "\<exists>es. lines_diff old new = Some es \<and> ordered_edits (length old) 0 es \<and> apply_edits old es = new"
  by (rule lines_diff_ok)

text \<open>
  C32. \<^verbatim>\<open>line_edits\<close> accepts every ordered list of edits and returns edits that replace whole lines, in order, and do to the
  text what the given ones do.
\<close>

theorem line_edits_whole:
  assumes "ordered_edits (length src) 0 es"
  shows "\<exists>es'. line_edits src es = Ok es' \<and> whole_edits src 0 es' \<and> apply_edits src es' = apply_edits src es"
  by (rule line_edits_ok [OF assms])

theorem line_edits_whole_witness:
  "\<exists>es'. line_edits (ascii ''ab'' @ [10] @ ascii ''cd'') [\<lparr>ed_start = 1, ed_end = 3, ed_new = [88]\<rparr>] = Ok es' \<and>
     whole_edits (ascii ''ab'' @ [10] @ ascii ''cd'') 0 es' \<and> apply_edits (ascii ''ab'' @ [10] @ ascii ''cd'') es' = ascii ''aXcd''"
proof -
  let ?src = "ascii ''ab'' @ [10] @ ascii ''cd''" and ?es = "[\<lparr>ed_start = 1, ed_end = 3, ed_new = [88]\<rparr>]"
  have o: "ordered_edits (length ?src) 0 ?es" by (simp add: ascii_def)
  have a: "apply_edits ?src ?es = ascii ''aXcd''" by code_simp
  show ?thesis using line_edits_whole [OF o] unfolding a .
qed

text \<open>
  C33. \<^verbatim>\<open>unified\<close> never fails, and the hunks it prints patch the old text to the new one: applied in order at the line of
  their header, each finds its context and deleted lines there, and the result has the lines of the new text. The bound on
  the length keeps the line arithmetic of the code within \<^verbatim>\<open>isize\<close>. The line of the old text in each header is pinned by this, the
  line of the new text is not.
\<close>

theorem unified_patches:
  assumes "length old + 6 < 2 ^ 63"
  shows "\<exists>hs. unified old_label new_label old new = Ok (render_unified old_label new_label hs) \<and>
    patch_hunks (lines_of old) hs = Some (lines_of new)"
  by (rule unified_hunks [OF assms])

theorem unified_patches_witness:
  "\<exists>hs. unified (ascii ''a'') (ascii ''b'') (ascii ''x'' @ [10]) (ascii ''y'') = Ok (render_unified (ascii ''a'') (ascii ''b'') hs) \<and>
    patch_hunks (lines_of (ascii ''x'' @ [10])) hs = Some [ascii ''y'']"
proof -
  have l: "length (ascii ''x'' @ [10]) + 6 < 2 ^ 63" by (simp add: ascii_def)
  have "lines_of (ascii ''y'') = [ascii ''y'']" by code_simp
  then show ?thesis using unified_patches [OF l, of "ascii ''a''" "ascii ''b''" "ascii ''y''"] by simp
qed

definition sample_text :: bytes where
  "sample_text = concat (map (\<lambda>c. [of_nat c, newline]) [97..<111])"

definition replace_line :: "nat \<Rightarrow> edit" where
  "replace_line i = \<lparr>ed_start = 2 * i, ed_end = 2 * i + 2, ed_new = [88, newline]\<rparr>"

text \<open>
  The line number of the new text in a hunk header is wrong after a hunk that joins two edits: the lines between them are
  added to the hunk without advancing \<^verbatim>\<open>to_line\<close>. Here three lines of fourteen are replaced by one line each, so the two
  numbers of every hunk should be equal; the second hunk has 10 and 9.
\<close>

theorem joined_hunk_to_line:
  "map_option (map (\<lambda>h. (hk_from_line h, hk_to_line h))) (to_hunks sample_text [replace_line 0, replace_line 2, replace_line 12] 3)
     = Some [(1, 1), (10, 9)]"
  by code_simp

section \<open>Numbers, paths and addresses\<close>

text \<open>
  C35. The number parsers are exact, in every base from 2 to 36 and every bit size from 0, which means 64, to 64. An unsigned number
  is accepted exactly when it is one or more digits of the base whose value fits, a signed one when a sign and digits stand for a
  value of the signed range, and the result is that value. There is one exception, which the last line states: in a size of one bit
  every text with a minus sign whose leading digits stand for more than one is accepted as \<open>-1\<close>, whatever follows them.
  (The prefixes and underscores of base 0 are modelled, but not part of this statement.)
\<close>

theorem numbers_parse_exact:
  assumes "2 \<le> base" and "base \<le> 36" and "bit_size \<le> 64" and "split_sign s = (neg, ds)"
  shows "(parse_uint s base bit_size = Ok n \<longleftrightarrow>
      s \<noteq> [] \<and> list_all (valid_digit base) s \<and> digits_value base 0 s < 2 ^ width_of bit_size \<and> unat n = digits_value base 0 s) \<and>
    (parse_int s base bit_size = Ok i \<longleftrightarrow> s \<noteq> [] \<and>
      (ds \<noteq> [] \<and> list_all (valid_digit base) ds \<and>
         i = (if neg then - int (digits_value base 0 ds) else int (digits_value base 0 ds)) \<and>
         - (2 ^ (width_of bit_size - 1)) \<le> i \<and> i < 2 ^ (width_of bit_size - 1) \<or>
       bit_size = 1 \<and> neg \<and> 1 < digits_value base 0 (takeWhile (valid_digit base) ds) \<and> i = - 1))"
  using parse_uint_ok [OF assms(1-3)] parse_int_ok [OF assms] by blast

lemma parse_minus_128: "parse_int (ascii ''-128'') 10 8 = Ok (- 128)"
  by code_simp

theorem numbers_parse_exact_witness: "digits_value 10 0 (ascii ''128'') = 128 \<and> parse_int (ascii ''-128'') 10 8 = Ok (- 128)"
proof -
  have "split_sign (ascii ''-128'') = (True, ascii ''128'')" by code_simp
  from numbers_parse_exact [OF _ _ _ this, of 10 8 128 "- 128"] parse_minus_128 show ?thesis by simp
qed

text \<open>The exception: \<^verbatim>\<open>-2\<close> and \<^verbatim>\<open>-2x\<close> are numbers of one bit.\<close>

lemma one_bit_clamped: "parse_int (ascii ''-2'') 10 1 = Ok (- 1)" "parse_int (ascii ''-2x'') 10 1 = Ok (- 1)"
  by code_simp+

text \<open>
  C36. What \<^verbatim>\<open>clean\<close> computes: the elements of the path are taken one by one, an empty element and \<^verbatim>\<open>.\<close> are dropped, \<^verbatim>\<open>..\<close> removes
  the name before it or, where there is none, stays in a path that is not rooted. The result is printed back as a path, and is
  itself clean.
\<close>

theorem clean_is_resolution:
  "clean p = render_path (is_rooted p) (fold (resolve_step (is_rooted p)) (elements p) []) \<and> clean (clean p) = clean p"
  using clean_resolves(1) [of p] clean_clean [of p] by (simp add: resolve_def)

text \<open>
  C37. Where \<^verbatim>\<open>rel\<close> gives a path, that path leads from the base to the target: joined to the base it is the cleaned target.
\<close>

theorem rel_path_leads: "rel base target = Ok r \<Longrightarrow> path_join [base, r] = clean target"
  by (rule rel_leads)

theorem rel_path_leads_witness:
  "rel (ascii ''/a/b'') (ascii ''/a/./c/d'') = Ok (ascii ''../c/d'') \<and>
   path_join [ascii ''/a/b'', ascii ''../c/d''] = clean (ascii ''/a/./c/d'')"
proof -
  have "rel (ascii ''/a/b'') (ascii ''/a/./c/d'') = Ok (ascii ''../c/d'')" by code_simp
  with rel_path_leads [OF this] show ?thesis by blast
qed

text \<open>
  C38. The loop of \<^verbatim>\<open>rel\<close> ends for all paths, and \<^verbatim>\<open>rel\<close> fails exactly when one path is rooted and the other is not, or when the base
  climbs further than the target, so that a directory above both would have to be named.
\<close>

theorem rel_fails_exactly:
  "rel base target \<noteq> Stuck \<and> (rel base target = Err () \<longleftrightarrow> is_rooted base \<noteq> is_rooted target \<or> climbs base > climbs target)"
  using rel_total rel_fails by blast

theorem rel_fails_exactly_witness:
  "climbs (ascii ''../a'') = 1 \<and> climbs (ascii ''b'') = 0 \<and> rel (ascii ''../a'') (ascii ''b'') = Err ()"
proof -
  have "climbs (ascii ''../a'') = 1" "climbs (ascii ''b'') = 0" by code_simp+
  then show ?thesis using rel_fails_exactly [of "ascii ''../a''" "ascii ''b''"] by simp
qed

text \<open>
  C39. Escaped URL text decodes to what was escaped, in every mode that escapes freely; and however a URL was read or built, the
  path and the fragment it prints decode to its path and its fragment.
\<close>

theorem url_text_decodes:
  assumes "mode \<noteq> EncHost" and "mode \<noteq> EncZone"
  shows "unescape pt (escape s mode) mode = Ok s \<and> unescape pt (escaped_path pt u) EncPath = Ok (u_path u) \<and>
    unescape pt (escaped_fragment pt u) EncFragment = Ok (u_fragment u)"
  using assms unescape_escape escaped_path_decodes escaped_fragment_decodes by blast+

definition no_prints :: print_tables where
  "no_prints = \<lparr> IS_PRINT16 = [], IS_NOT_PRINT16 = [], IS_PRINT32 = [], IS_NOT_PRINT32 = [] \<rparr>"

definition no_cases :: case_tables where
  "no_cases = \<lparr> TO_LOWER = [], TO_UPPER = [] \<rparr>"

theorem url_text_decodes_witness:
  "escape (ascii ''a b+c%'') EncQueryComponent = ascii ''a+b%2Bc%25'' \<and>
   unescape no_prints (escape (ascii ''a b+c%'') EncQueryComponent) EncQueryComponent = Ok (ascii ''a b+c%'')"
proof -
  have "escape (ascii ''a b+c%'') EncQueryComponent = ascii ''a+b%2Bc%25''" by code_simp
  with url_text_decodes [of EncQueryComponent no_prints "ascii ''a b+c%''"] show ?thesis by simp
qed

text \<open>
  C40. The text of a transport address parses back to the address: IPv4 and IPv6 addresses with their shortened zero groups, the
  IPv4-mapped form, zones and ports, and custom addresses. Octets have the length of their family, and only IPv6 addresses have a
  zone, which is not empty and valid UTF-8, as the type of the code says.
\<close>

theorem transport_addr_roundtrip:
  "transport_addr_ok a \<Longrightarrow> parse_transport_addr ct pt (transport_addr_display a) = Ok a"
  by (rule transport_addr_parses)

definition zoned_addr :: transport_addr where
  "zoned_addr = TIp (V6 ([0, 1] @ replicate 13 0 @ [2])) (Some (ascii ''en0'')) 7"

theorem transport_addr_roundtrip_witness:
  "transport_addr_display zoned_addr = ascii ''ip:[1::2%en0]:7'' \<and>
   parse_transport_addr no_cases no_prints (ascii ''ip:[1::2%en0]:7'') = Ok zoned_addr"
proof -
  have d: "transport_addr_display zoned_addr = ascii ''ip:[1::2%en0]:7''" by code_simp
  have "transport_addr_ok zoned_addr" by code_simp
  from transport_addr_roundtrip [OF this, of no_cases no_prints] d show ?thesis by simp
qed

end
